(* ===== verification/Prelude.thy ===== *)
theory Prelude
  imports Main "HOL-Library.Word" "HOL-Library.Monad_Syntax"
begin

text \<open>
  Shared vocabulary of the development: the machine types of the C code, C objects as
  byte arrays with checked accesses, the parts of the C string library the sources call,
  and the generic list, word and option facts the components rely on.

  Undefined behaviour (an access outside an object, a dereference of a null pointer, a
  string that is not terminated inside its object) is the value \<open>None\<close> of an option type;
  a computation that returns \<open>Some\<close> has made no such access.
\<close>

unbundle bit_operations_syntax

section \<open>Machine types\<close>

type_synonym u8 = "8 word"
type_synonym u32 = "32 word"
type_synonym u64 = "64 word"

text \<open>The bytes of a C object; a file or a message is a list of \<open>u8\<close>.\<close>

type_synonym cmem = "char list"
type_synonym bytes = "u8 list"

named_theorems mem_simps \<open>unfolding rules of the memory accesses and string functions\<close>
named_theorems len_simps \<open>how operations change the length of a list\<close>

section \<open>Checked accesses to a C object\<close>

definition peek :: "'a list \<Rightarrow> nat \<Rightarrow> 'a option" where
  "peek m i = (if i < length m then Some (m ! i) else None)"

definition poke :: "'a list \<Rightarrow> nat \<Rightarrow> 'a \<Rightarrow> 'a list option" where
  "poke m i c = (if i < length m then Some (m[i := c]) else None)"

text \<open>\<open>memcpy\<close> into an object at an offset.\<close>

definition blit :: "'a list \<Rightarrow> nat \<Rightarrow> 'a list \<Rightarrow> 'a list option" where
  "blit m off src =
     (if off + length src \<le> length m
      then Some (take off m @ src @ drop (off + length src) m) else None)"

text \<open>\<open>memmove\<close> of \<open>n\<close> elements inside one object.\<close>

definition memmove :: "'a list \<Rightarrow> nat \<Rightarrow> nat \<Rightarrow> nat \<Rightarrow> 'a list option" where
  "memmove m dst src n =
     (if src + n \<le> length m then blit m dst (take n (drop src m)) else None)"

definition memset :: "'a list \<Rightarrow> nat \<Rightarrow> 'a \<Rightarrow> nat \<Rightarrow> 'a list option" where
  "memset m off c n = blit m off (replicate n c)"

declare peek_def [mem_simps] poke_def [mem_simps] blit_def [mem_simps]
  memmove_def [mem_simps] memset_def [mem_simps]

section \<open>C strings\<close>

definition NUL :: char where
  "NUL = CHR 0x00"

text \<open>The string that starts at an offset of an object: undefined when no terminator
  follows inside the object.\<close>

definition cstr :: "cmem \<Rightarrow> nat \<Rightarrow> string option" where
  "cstr m off =
     (if NUL \<in> set (drop off m) then Some (takeWhile (\<lambda>c. c \<noteq> NUL) (drop off m)) else None)"

text \<open>\<open>strncpy(dst, src, n)\<close>: at most \<open>n\<close> bytes of the source, padded with zeros to exactly
  \<open>n\<close>; no terminator when the source has \<open>n\<close> bytes or more.\<close>

definition strncpy_bytes :: "string \<Rightarrow> nat \<Rightarrow> cmem" where
  "strncpy_bytes s n = take n (s @ replicate n NUL)"

definition strncpy :: "cmem \<Rightarrow> nat \<Rightarrow> string \<Rightarrow> nat \<Rightarrow> cmem option" where
  "strncpy m off s n = blit m off (strncpy_bytes s n)"

text \<open>\<open>snprintf(dst, sz, "%s", s)\<close> for a positive size: the output is cut to \<open>sz - 1\<close>
  bytes and always terminated.\<close>

definition snprintf :: "cmem \<Rightarrow> nat \<Rightarrow> nat \<Rightarrow> string \<Rightarrow> cmem option" where
  "snprintf m off sz s =
     (if sz = 0 then Some m else blit m off (take (sz - 1) s @ [NUL]))"

text \<open>A C string value: the bytes before the terminator.\<close>

definition is_cstring :: "string \<Rightarrow> bool" where
  "is_cstring s \<longleftrightarrow> NUL \<notin> set s"

text \<open>Unsigned decimal output, the \<open>%lu\<close> conversion.\<close>

definition digit_char :: "nat \<Rightarrow> char" where
  "digit_char d = char_of (48 + d)"

fun udec :: "nat \<Rightarrow> string" where
  "udec n = (if n < 10 then [digit_char n] else udec (n div 10) @ [digit_char (n mod 10)])"

declare udec.simps [simp del]

text \<open>Signed decimal output, the \<open>%d\<close> conversion.\<close>

definition sdec :: "int \<Rightarrow> string" where
  "sdec n = (if n < 0 then CHR ''-'' # udec (nat (- n)) else udec (nat n))"

text \<open>Bytes of a string and back.\<close>

definition byte_of_char :: "char \<Rightarrow> u8" where
  "byte_of_char c = word_of_nat (of_char c)"

definition char_of_byte :: "u8 \<Rightarrow> char" where
  "char_of_byte b = char_of (unat b)"

section \<open>Facts about memory accesses\<close>

lemma blit_length [len_simps]: "blit m off src = Some m' \<Longrightarrow> length m' = length m"
  by (auto simp: blit_def split: if_splits)

lemma poke_length [len_simps]: "poke m i c = Some m' \<Longrightarrow> length m' = length m"
  by (auto simp: poke_def split: if_splits)

lemma length_strncpy_bytes [simp]: "length (strncpy_bytes s n) = n"
  by (simp add: strncpy_bytes_def)

lemma strncpy_length [len_simps]: "strncpy m off s n = Some m' \<Longrightarrow> length m' = length m"
  by (auto simp: strncpy_def dest: blit_length)

lemma blit_nth:
  "blit m off src = Some m' \<Longrightarrow> i < length m \<Longrightarrow>
   m' ! i = (if off \<le> i \<and> i < off + length src then src ! (i - off) else m ! i)"
  by (auto simp: blit_def nth_append min_def split: if_splits)

lemma cstr_append: "is_cstring s \<Longrightarrow> cstr (s @ NUL # rest) 0 = Some s"
  by (auto simp: cstr_def is_cstring_def takeWhile_tail)

lemma cstr_is_cstring: "cstr m off = Some s \<Longrightarrow> is_cstring s"
  by (auto simp: cstr_def is_cstring_def split: if_splits dest: set_takeWhileD)

lemma cstr_mid: "is_cstring s \<Longrightarrow> length xs = n \<Longrightarrow> cstr (xs @ s @ NUL # rest) n = Some s"
  using cstr_append [of s rest] by (simp add: cstr_def)

lemma is_cstring_take: "is_cstring s \<Longrightarrow> is_cstring (take n s)"
  by (auto simp: is_cstring_def dest: in_set_takeD)

lemma strncpy_bytes_split:
  "length s < n \<Longrightarrow> strncpy_bytes s n = s @ NUL # replicate (n - length s - 1) NUL"
  by (cases "n - length s") (simp_all add: strncpy_bytes_def)

section \<open>Facts about strings and bytes\<close>

lemma char_of_byte_of_char [simp]: "char_of_byte (byte_of_char c) = c"
proof -
  have "unat (word_of_nat (of_char c) :: u8) = of_char c"
    by (simp add: unat_of_nat)
  then show ?thesis by (simp add: char_of_byte_def byte_of_char_def)
qed

lemma byte_of_char_of_byte [simp]: "byte_of_char (char_of_byte b) = b"
proof -
  have "of_char (char_of (unat b)) = unat b mod 256" by (simp add: of_char_of)
  also have "\<dots> = unat b" using unsigned_less [of b, where ?'a = nat] by simp
  finally show ?thesis by (simp add: char_of_byte_def byte_of_char_def)
qed

lemma byte_of_char_inject [simp]: "byte_of_char c = byte_of_char d \<longleftrightarrow> c = d"
  by (metis char_of_byte_of_char)

section \<open>Facts about lists\<close>

text \<open>A list of known length is a list of that many elements; used with a numeral.\<close>

lemma length_Suc_ex: "length xs = Suc n \<longleftrightarrow> (\<exists>y ys. xs = y # ys \<and> length ys = n)"
  by (auto simp: length_Suc_conv)

lemma drop_Suc_nth: "i < length xs \<Longrightarrow> drop i xs = xs ! i # drop (i + 1) xs"
  by (simp add: Cons_nth_drop_Suc)

lemma list_all_upt_iff: "list_all P [0..<n] \<longleftrightarrow> (\<forall>i<n. P i)"
  by (auto simp: list_all_iff)

section \<open>Facts about words\<close>

lemma xor_self_cancel [simp]: "a XOR (a XOR b) = (b :: 'a::len word)"
  by (simp flip: xor.assoc)

lemma xor_self_cancel_right [simp]: "(b XOR a) XOR a = (b :: 'a::len word)"
  by (simp add: xor.assoc)

lemma unat_minus_one_less: "x \<noteq> 0 \<Longrightarrow> unat (x - 1) < unat (x :: 'a::len word)"
  by (simp add: unat_minus_one unat_gt_0)

lemma all_u8_nat: "(\<forall>x::u8. P x) \<longleftrightarrow> (\<forall>n<256. P (word_of_nat n))"
proof
  assume all: "\<forall>n<256. P (word_of_nat n)"
  have "P x" for x :: u8
  proof -
    have "unat x < 256" using unsigned_less [of x, where ?'a = nat] by simp
    with all have "P (word_of_nat (unat x))" by blast
    then show ?thesis by simp
  qed
  then show "\<forall>x::u8. P x" by simp
qed simp

end
