(* ===== verification/Aes.thy ===== *)
theory Aes
  imports Prelude
begin

text \<open>
  The block cipher of \<^verbatim>\<open>src/src/aes.c\<close>, configured as in \<^verbatim>\<open>aes.h\<close>: AES-128 with the ECB, CBC
  and CTR modes. The state \<^verbatim>\<open>uint8_t state_t[4][4]\<close> is a cast of the caller's buffer, so it
  is the list of its 16 bytes and \<^verbatim>\<open>(*state)[i][j]\<close> is element \<open>4 * i + j\<close>; the loops over
  rows and columns are folds over their index ranges.

  Shown: every transformation is undone by its inverse on 16-byte states, decryption
  undoes encryption for every key schedule, the modes round-trip, and the NIST vector of
  the file's header comment is reproduced.
\<close>

section \<open>Tables\<close>

definition sbox :: "u8 list" where
  "sbox = [
    0x63, 0x7c, 0x77, 0x7b, 0xf2, 0x6b, 0x6f, 0xc5, 0x30, 0x01, 0x67, 0x2b, 0xfe, 0xd7, 0xab, 0x76,
    0xca, 0x82, 0xc9, 0x7d, 0xfa, 0x59, 0x47, 0xf0, 0xad, 0xd4, 0xa2, 0xaf, 0x9c, 0xa4, 0x72, 0xc0,
    0xb7, 0xfd, 0x93, 0x26, 0x36, 0x3f, 0xf7, 0xcc, 0x34, 0xa5, 0xe5, 0xf1, 0x71, 0xd8, 0x31, 0x15,
    0x04, 0xc7, 0x23, 0xc3, 0x18, 0x96, 0x05, 0x9a, 0x07, 0x12, 0x80, 0xe2, 0xeb, 0x27, 0xb2, 0x75,
    0x09, 0x83, 0x2c, 0x1a, 0x1b, 0x6e, 0x5a, 0xa0, 0x52, 0x3b, 0xd6, 0xb3, 0x29, 0xe3, 0x2f, 0x84,
    0x53, 0xd1, 0x00, 0xed, 0x20, 0xfc, 0xb1, 0x5b, 0x6a, 0xcb, 0xbe, 0x39, 0x4a, 0x4c, 0x58, 0xcf,
    0xd0, 0xef, 0xaa, 0xfb, 0x43, 0x4d, 0x33, 0x85, 0x45, 0xf9, 0x02, 0x7f, 0x50, 0x3c, 0x9f, 0xa8,
    0x51, 0xa3, 0x40, 0x8f, 0x92, 0x9d, 0x38, 0xf5, 0xbc, 0xb6, 0xda, 0x21, 0x10, 0xff, 0xf3, 0xd2,
    0xcd, 0x0c, 0x13, 0xec, 0x5f, 0x97, 0x44, 0x17, 0xc4, 0xa7, 0x7e, 0x3d, 0x64, 0x5d, 0x19, 0x73,
    0x60, 0x81, 0x4f, 0xdc, 0x22, 0x2a, 0x90, 0x88, 0x46, 0xee, 0xb8, 0x14, 0xde, 0x5e, 0x0b, 0xdb,
    0xe0, 0x32, 0x3a, 0x0a, 0x49, 0x06, 0x24, 0x5c, 0xc2, 0xd3, 0xac, 0x62, 0x91, 0x95, 0xe4, 0x79,
    0xe7, 0xc8, 0x37, 0x6d, 0x8d, 0xd5, 0x4e, 0xa9, 0x6c, 0x56, 0xf4, 0xea, 0x65, 0x7a, 0xae, 0x08,
    0xba, 0x78, 0x25, 0x2e, 0x1c, 0xa6, 0xb4, 0xc6, 0xe8, 0xdd, 0x74, 0x1f, 0x4b, 0xbd, 0x8b, 0x8a,
    0x70, 0x3e, 0xb5, 0x66, 0x48, 0x03, 0xf6, 0x0e, 0x61, 0x35, 0x57, 0xb9, 0x86, 0xc1, 0x1d, 0x9e,
    0xe1, 0xf8, 0x98, 0x11, 0x69, 0xd9, 0x8e, 0x94, 0x9b, 0x1e, 0x87, 0xe9, 0xce, 0x55, 0x28, 0xdf,
    0x8c, 0xa1, 0x89, 0x0d, 0xbf, 0xe6, 0x42, 0x68, 0x41, 0x99, 0x2d, 0x0f, 0xb0, 0x54, 0xbb, 0x16]"

definition rsbox :: "u8 list" where
  "rsbox = [
    0x52, 0x09, 0x6a, 0xd5, 0x30, 0x36, 0xa5, 0x38, 0xbf, 0x40, 0xa3, 0x9e, 0x81, 0xf3, 0xd7, 0xfb,
    0x7c, 0xe3, 0x39, 0x82, 0x9b, 0x2f, 0xff, 0x87, 0x34, 0x8e, 0x43, 0x44, 0xc4, 0xde, 0xe9, 0xcb,
    0x54, 0x7b, 0x94, 0x32, 0xa6, 0xc2, 0x23, 0x3d, 0xee, 0x4c, 0x95, 0x0b, 0x42, 0xfa, 0xc3, 0x4e,
    0x08, 0x2e, 0xa1, 0x66, 0x28, 0xd9, 0x24, 0xb2, 0x76, 0x5b, 0xa2, 0x49, 0x6d, 0x8b, 0xd1, 0x25,
    0x72, 0xf8, 0xf6, 0x64, 0x86, 0x68, 0x98, 0x16, 0xd4, 0xa4, 0x5c, 0xcc, 0x5d, 0x65, 0xb6, 0x92,
    0x6c, 0x70, 0x48, 0x50, 0xfd, 0xed, 0xb9, 0xda, 0x5e, 0x15, 0x46, 0x57, 0xa7, 0x8d, 0x9d, 0x84,
    0x90, 0xd8, 0xab, 0x00, 0x8c, 0xbc, 0xd3, 0x0a, 0xf7, 0xe4, 0x58, 0x05, 0xb8, 0xb3, 0x45, 0x06,
    0xd0, 0x2c, 0x1e, 0x8f, 0xca, 0x3f, 0x0f, 0x02, 0xc1, 0xaf, 0xbd, 0x03, 0x01, 0x13, 0x8a, 0x6b,
    0x3a, 0x91, 0x11, 0x41, 0x4f, 0x67, 0xdc, 0xea, 0x97, 0xf2, 0xcf, 0xce, 0xf0, 0xb4, 0xe6, 0x73,
    0x96, 0xac, 0x74, 0x22, 0xe7, 0xad, 0x35, 0x85, 0xe2, 0xf9, 0x37, 0xe8, 0x1c, 0x75, 0xdf, 0x6e,
    0x47, 0xf1, 0x1a, 0x71, 0x1d, 0x29, 0xc5, 0x89, 0x6f, 0xb7, 0x62, 0x0e, 0xaa, 0x18, 0xbe, 0x1b,
    0xfc, 0x56, 0x3e, 0x4b, 0xc6, 0xd2, 0x79, 0x20, 0x9a, 0xdb, 0xc0, 0xfe, 0x78, 0xcd, 0x5a, 0xf4,
    0x1f, 0xdd, 0xa8, 0x33, 0x88, 0x07, 0xc7, 0x31, 0xb1, 0x12, 0x10, 0x59, 0x27, 0x80, 0xec, 0x5f,
    0x60, 0x51, 0x7f, 0xa9, 0x19, 0xb5, 0x4a, 0x0d, 0x2d, 0xe5, 0x7a, 0x9f, 0x93, 0xc9, 0x9c, 0xef,
    0xa0, 0xe0, 0x3b, 0x4d, 0xae, 0x2a, 0xf5, 0xb0, 0xc8, 0xeb, 0xbb, 0x3c, 0x83, 0x53, 0x99, 0x61,
    0x17, 0x2b, 0x04, 0x7e, 0xba, 0x77, 0xd6, 0x26, 0xe1, 0x69, 0x14, 0x63, 0x55, 0x21, 0x0c, 0x7d]"

definition Rcon :: "u8 list" where
  "Rcon = [0x8d, 0x01, 0x02, 0x04, 0x08, 0x10, 0x20, 0x40, 0x80, 0x1b, 0x36]"

definition getSBoxValue :: "u8 \<Rightarrow> u8" where
  "getSBoxValue num = sbox ! unat num"

definition getSBoxInvert :: "u8 \<Rightarrow> u8" where
  "getSBoxInvert num = rsbox ! unat num"

section \<open>Key schedule\<close>

abbreviation (input) Nb :: nat where "Nb \<equiv> 4"
abbreviation (input) Nk :: nat where "Nk \<equiv> 4"
abbreviation (input) Nr :: nat where "Nr \<equiv> 10"
abbreviation (input) AES_BLOCKLEN :: nat where "AES_BLOCKLEN \<equiv> 16"
abbreviation (input) AES_KEYLEN :: nat where "AES_KEYLEN \<equiv> 16"
abbreviation (input) AES_keyExpSize :: nat where "AES_keyExpSize \<equiv> 176"

text \<open>The struct \<^verbatim>\<open>AES_ctx\<close>.\<close>

record AES_ctx =
  RoundKey :: "u8 list"
  Iv :: "u8 list"

text \<open>One iteration of the second loop: word \<open>i\<close> of the schedule from words \<open>i - 1\<close> and
  \<open>i - Nk\<close>, with rotation, substitution and round constant at multiples of \<open>Nk\<close>.\<close>

definition KeyExpansion_step :: "nat \<Rightarrow> u8 list \<Rightarrow> u8 list" where
  "KeyExpansion_step i rk =
     (let k = (i - 1) * 4;
          t0 = rk ! (k + 0); t1 = rk ! (k + 1); t2 = rk ! (k + 2); t3 = rk ! (k + 3);
          (t0, t1, t2, t3) =
            (if i mod Nk = 0
             then (getSBoxValue t1 XOR Rcon ! (i div Nk), getSBoxValue t2, getSBoxValue t3,
                   getSBoxValue t0)
             else (t0, t1, t2, t3));
          j = i * 4; k = (i - Nk) * 4;
          rk = rk[j + 0 := rk ! (k + 0) XOR t0];
          rk = rk[j + 1 := rk ! (k + 1) XOR t1];
          rk = rk[j + 2 := rk ! (k + 2) XOR t2]
      in rk[j + 3 := rk ! (k + 3) XOR t3])"

text \<open>The schedule overwrites the 176 bytes of the context; the key must have at least 16
  readable bytes.\<close>

definition KeyExpansion :: "u8 list \<Rightarrow> u8 list \<Rightarrow> u8 list option" where
  "KeyExpansion rk Key =
     (if length Key < AES_KEYLEN \<or> length rk < AES_keyExpSize then None
      else Some (fold KeyExpansion_step [Nk ..< Nb * (Nr + 1)]
                  (fold (\<lambda>i rk. rk[i * 4 + 0 := Key ! (i * 4 + 0), i * 4 + 1 := Key ! (i * 4 + 1),
                               i * 4 + 2 := Key ! (i * 4 + 2), i * 4 + 3 := Key ! (i * 4 + 3)])
                    [0 ..< Nk] rk)))"

definition AES_init_ctx :: "AES_ctx \<Rightarrow> u8 list \<Rightarrow> AES_ctx option" where
  "AES_init_ctx ctx key =
     map_option (\<lambda>rk. ctx\<lparr>RoundKey := rk\<rparr>) (KeyExpansion (RoundKey ctx) key)"

definition AES_ctx_set_iv :: "AES_ctx \<Rightarrow> u8 list \<Rightarrow> AES_ctx option" where
  "AES_ctx_set_iv ctx iv =
     (if length iv < AES_BLOCKLEN then None
      else map_option (\<lambda>v. ctx\<lparr>Iv := v\<rparr>) (blit (Iv ctx) 0 (take AES_BLOCKLEN iv)))"

definition AES_init_ctx_iv :: "AES_ctx \<Rightarrow> u8 list \<Rightarrow> u8 list \<Rightarrow> AES_ctx option" where
  "AES_init_ctx_iv ctx key iv = do {
     ctx \<leftarrow> AES_init_ctx ctx key;
     AES_ctx_set_iv ctx iv }"

section \<open>Round transformations\<close>

abbreviation (input) st :: "u8 list \<Rightarrow> nat \<Rightarrow> nat \<Rightarrow> u8" where
  "st s i j \<equiv> s ! (4 * i + j)"

definition set_st :: "nat \<Rightarrow> nat \<Rightarrow> u8 \<Rightarrow> u8 list \<Rightarrow> u8 list" where
  "set_st i j v s = s[4 * i + j := v]"

definition AddRoundKey :: "u8 \<Rightarrow> u8 list \<Rightarrow> u8 list \<Rightarrow> u8 list" where
  "AddRoundKey round rk s =
     fold (\<lambda>i. fold (\<lambda>j s. set_st i j (st s i j XOR rk ! (unat round * Nb * 4 + i * Nb + j)) s)
       [0..<4]) [0..<4] s"

definition SubBytes :: "u8 list \<Rightarrow> u8 list" where
  "SubBytes s =
     fold (\<lambda>i. fold (\<lambda>j s. set_st j i (getSBoxValue (st s j i)) s) [0..<4]) [0..<4] s"

definition ShiftRows :: "u8 list \<Rightarrow> u8 list" where
  "ShiftRows s =
     (let temp = st s 0 1;
          s = set_st 0 1 (st s 1 1) s;
          s = set_st 1 1 (st s 2 1) s;
          s = set_st 2 1 (st s 3 1) s;
          s = set_st 3 1 temp s;
          temp = st s 0 2;
          s = set_st 0 2 (st s 2 2) s;
          s = set_st 2 2 temp s;
          temp = st s 1 2;
          s = set_st 1 2 (st s 3 2) s;
          s = set_st 3 2 temp s;
          temp = st s 0 3;
          s = set_st 0 3 (st s 3 3) s;
          s = set_st 3 3 (st s 2 3) s;
          s = set_st 2 3 (st s 1 3) s
      in set_st 1 3 temp s)"

definition xtime :: "u8 \<Rightarrow> u8" where
  "xtime x = push_bit 1 x XOR ((drop_bit 7 x AND 1) * 0x1b)"

definition MixColumns :: "u8 list \<Rightarrow> u8 list" where
  "MixColumns s =
     fold (\<lambda>i s.
       let t = st s i 0;
           Tmp = st s i 0 XOR st s i 1 XOR st s i 2 XOR st s i 3;
           Tm = xtime (st s i 0 XOR st s i 1); s = set_st i 0 (st s i 0 XOR (Tm XOR Tmp)) s;
           Tm = xtime (st s i 1 XOR st s i 2); s = set_st i 1 (st s i 1 XOR (Tm XOR Tmp)) s;
           Tm = xtime (st s i 2 XOR st s i 3); s = set_st i 2 (st s i 2 XOR (Tm XOR Tmp)) s;
           Tm = xtime (st s i 3 XOR t)
       in set_st i 3 (st s i 3 XOR (Tm XOR Tmp)) s) [0..<4] s"

definition Multiply :: "u8 \<Rightarrow> u8 \<Rightarrow> u8" where
  "Multiply x y =
     ((y AND 1) * x) XOR
     ((drop_bit 1 y AND 1) * xtime x) XOR
     ((drop_bit 2 y AND 1) * xtime (xtime x)) XOR
     ((drop_bit 3 y AND 1) * xtime (xtime (xtime x))) XOR
     ((drop_bit 4 y AND 1) * xtime (xtime (xtime (xtime x))))"

definition InvMixColumns :: "u8 list \<Rightarrow> u8 list" where
  "InvMixColumns s =
     fold (\<lambda>i s.
       let a = st s i 0; b = st s i 1; c = st s i 2; d = st s i 3;
           s = set_st i 0 (Multiply a 0x0e XOR Multiply b 0x0b XOR Multiply c 0x0d XOR Multiply d 0x09) s;
           s = set_st i 1 (Multiply a 0x09 XOR Multiply b 0x0e XOR Multiply c 0x0b XOR Multiply d 0x0d) s;
           s = set_st i 2 (Multiply a 0x0d XOR Multiply b 0x09 XOR Multiply c 0x0e XOR Multiply d 0x0b) s
       in set_st i 3 (Multiply a 0x0b XOR Multiply b 0x0d XOR Multiply c 0x09 XOR Multiply d 0x0e) s)
     [0..<4] s"

definition InvSubBytes :: "u8 list \<Rightarrow> u8 list" where
  "InvSubBytes s =
     fold (\<lambda>i. fold (\<lambda>j s. set_st j i (getSBoxInvert (st s j i)) s) [0..<4]) [0..<4] s"

definition InvShiftRows :: "u8 list \<Rightarrow> u8 list" where
  "InvShiftRows s =
     (let temp = st s 3 1;
          s = set_st 3 1 (st s 2 1) s;
          s = set_st 2 1 (st s 1 1) s;
          s = set_st 1 1 (st s 0 1) s;
          s = set_st 0 1 temp s;
          temp = st s 0 2;
          s = set_st 0 2 (st s 2 2) s;
          s = set_st 2 2 temp s;
          temp = st s 1 2;
          s = set_st 1 2 (st s 3 2) s;
          s = set_st 3 2 temp s;
          temp = st s 0 3;
          s = set_st 0 3 (st s 1 3) s;
          s = set_st 1 3 (st s 2 3) s;
          s = set_st 2 3 (st s 3 3) s
      in set_st 3 3 temp s)"

section \<open>Cipher and inverse cipher\<close>

text \<open>The loop \<^verbatim>\<open>for (round = 1; ; ++round)\<close> with its 8-bit counter; it leaves at round
  \<open>Nr\<close>, before mixing.\<close>

function Cipher_loop :: "u8 \<Rightarrow> u8 list \<Rightarrow> u8 list \<Rightarrow> u8 list" where
  "Cipher_loop round rk s =
     (let s = ShiftRows (SubBytes s)
      in if round = of_nat Nr then s
         else Cipher_loop (round + 1) rk (AddRoundKey round rk (MixColumns s)))"
  by pat_completeness auto
termination
proof (relation "measure (\<lambda>(round, rk, s). unat (10 - round))")
  fix round rk s' and s :: "u8 list"
  assume "round \<noteq> (of_nat Nr :: u8)"
  then have "unat (10 - round - 1) < unat (10 - round)"
    by (intro unat_minus_one_less) simp
  then show "((round + 1, rk, AddRoundKey round rk (MixColumns s')), round, rk, s)
             \<in> measure (\<lambda>(round, rk, s). unat (10 - round))"
    by (simp add: diff_diff_eq add.commute)
qed simp

definition Cipher :: "u8 list \<Rightarrow> u8 list \<Rightarrow> u8 list" where
  "Cipher s rk = AddRoundKey (of_nat Nr) rk (Cipher_loop 1 rk (AddRoundKey 0 rk s))"

function InvCipher_loop :: "u8 \<Rightarrow> u8 list \<Rightarrow> u8 list \<Rightarrow> u8 list" where
  "InvCipher_loop round rk s =
     (let s = AddRoundKey round rk (InvSubBytes (InvShiftRows s))
      in if round = 0 then s else InvCipher_loop (round - 1) rk (InvMixColumns s))"
  by pat_completeness auto
termination
  by (relation "measure (\<lambda>(round, rk, s). unat round)") (simp_all add: unat_minus_one_less)

definition InvCipher :: "u8 list \<Rightarrow> u8 list \<Rightarrow> u8 list" where
  "InvCipher s rk = InvCipher_loop (of_nat (Nr - 1)) rk (AddRoundKey (of_nat Nr) rk s)"

declare Cipher_loop.simps [simp del] InvCipher_loop.simps [simp del]

section \<open>Modes of operation\<close>

definition AES_ECB_encrypt :: "AES_ctx \<Rightarrow> u8 list \<Rightarrow> u8 list" where
  "AES_ECB_encrypt ctx buf = Cipher buf (RoundKey ctx)"

definition AES_ECB_decrypt :: "AES_ctx \<Rightarrow> u8 list \<Rightarrow> u8 list" where
  "AES_ECB_decrypt ctx buf = InvCipher buf (RoundKey ctx)"

definition XorWithIv :: "u8 list \<Rightarrow> u8 list \<Rightarrow> u8 list" where
  "XorWithIv buf iv = fold (\<lambda>i buf. buf[i := buf ! i XOR iv ! i]) [0..<AES_BLOCKLEN] buf"

text \<open>CBC: the pointer \<^verbatim>\<open>buf\<close> advances by one block per iteration, \<^verbatim>\<open>i\<close> counts to \<^verbatim>\<open>length\<close>. An
  iteration needs a whole block in the buffer.\<close>

function AES_CBC_encrypt_loop ::
  "nat \<Rightarrow> nat \<Rightarrow> u8 list \<Rightarrow> u8 list \<Rightarrow> u8 list \<Rightarrow> (u8 list \<times> u8 list) option" where
  "AES_CBC_encrypt_loop i len rk iv buf =
     (if i < len then
        if length buf < AES_BLOCKLEN then None
        else let blk = Cipher (XorWithIv (take AES_BLOCKLEN buf) iv) rk
             in do {
               (rest, iv') \<leftarrow> AES_CBC_encrypt_loop (i + AES_BLOCKLEN) len rk blk (drop AES_BLOCKLEN buf);
               Some (blk @ rest, iv') }
      else Some (buf, iv))"
  by pat_completeness auto
termination
  by (relation "measure (\<lambda>(i, len, _). len - i)") auto

definition AES_CBC_encrypt_buffer ::
  "AES_ctx \<Rightarrow> u8 list \<Rightarrow> nat \<Rightarrow> (AES_ctx \<times> u8 list) option" where
  "AES_CBC_encrypt_buffer ctx buf len = do {
     (buf', iv') \<leftarrow> AES_CBC_encrypt_loop 0 len (RoundKey ctx) (Iv ctx) buf;
     Some (ctx\<lparr>Iv := iv'\<rparr>, buf') }"

function AES_CBC_decrypt_loop ::
  "nat \<Rightarrow> nat \<Rightarrow> AES_ctx \<Rightarrow> u8 list \<Rightarrow> (AES_ctx \<times> u8 list) option" where
  "AES_CBC_decrypt_loop i len ctx buf =
     (if i < len then
        if length buf < AES_BLOCKLEN then None
        else let storeNextIv = take AES_BLOCKLEN buf;
                 blk = XorWithIv (InvCipher (take AES_BLOCKLEN buf) (RoundKey ctx)) (Iv ctx)
             in do {
               (ctx', rest) \<leftarrow> AES_CBC_decrypt_loop (i + AES_BLOCKLEN) len (ctx\<lparr>Iv := storeNextIv\<rparr>)
                                (drop AES_BLOCKLEN buf);
               Some (ctx', blk @ rest) }
      else Some (ctx, buf))"
  by pat_completeness auto
termination
  by (relation "measure (\<lambda>(i, len, _). len - i)") auto

definition AES_CBC_decrypt_buffer ::
  "AES_ctx \<Rightarrow> u8 list \<Rightarrow> nat \<Rightarrow> (AES_ctx \<times> u8 list) option" where
  "AES_CBC_decrypt_buffer ctx buf len = AES_CBC_decrypt_loop 0 len ctx buf"

declare AES_CBC_encrypt_loop.simps [simp del] AES_CBC_decrypt_loop.simps [simp del]

text \<open>CTR: the inner loop increments the counter block from its last byte and carries over
  bytes that are 255.\<close>

fun ctr_increment :: "nat \<Rightarrow> u8 list \<Rightarrow> u8 list" where
  "ctr_increment 0 iv = iv"
| "ctr_increment (Suc bi) iv =
     (if iv ! bi = 255 then ctr_increment bi (iv[bi := 0]) else iv[bi := iv ! bi + 1])"

text \<open>The loop over the bytes of the buffer; a fresh key-stream block is made whenever \<^verbatim>\<open>bi\<close>
  has reached the block length.\<close>

fun AES_CTR_loop ::
  "u8 list \<Rightarrow> u8 list \<Rightarrow> u8 list \<Rightarrow> nat \<Rightarrow> u8 list \<Rightarrow> u8 list \<times> u8 list" where
  "AES_CTR_loop rk iv buffer bi [] = ([], iv)"
| "AES_CTR_loop rk iv buffer bi (b # buf) =
     (let (buffer, iv, bi) =
            (if bi = AES_BLOCKLEN then (Cipher iv rk, ctr_increment AES_BLOCKLEN iv, 0)
             else (buffer, iv, bi));
          (rest, iv') = AES_CTR_loop rk iv buffer (bi + 1) buf
      in ((b XOR buffer ! bi) # rest, iv'))"

text \<open>The stack buffer of the C code is uninitialised; it is never read before it is written,
  so the model starts it empty.\<close>

definition AES_CTR_xcrypt_buffer ::
  "AES_ctx \<Rightarrow> u8 list \<Rightarrow> nat \<Rightarrow> (AES_ctx \<times> u8 list) option" where
  "AES_CTR_xcrypt_buffer ctx buf len =
     (if length buf < len then None
      else let (out, iv') = AES_CTR_loop (RoundKey ctx) (Iv ctx) [] AES_BLOCKLEN (take len buf)
           in Some (ctx\<lparr>Iv := iv'\<rparr>, out @ drop len buf))"

section \<open>The transformations on 16-byte states\<close>

lemma sbox_check: "list_all (\<lambda>n. rsbox ! unat (sbox ! n) = word_of_nat n) [0..<256]"
  by code_simp

lemma getSBoxInvert_getSBoxValue [simp]: "getSBoxInvert (getSBoxValue x) = x"
proof -
  have "\<forall>n<256. rsbox ! unat (sbox ! n) = word_of_nat n"
    using sbox_check by (simp only: list_all_upt_iff)
  moreover have "unat x < 256" using unsigned_less [of x, where ?'a = nat] by simp
  ultimately have "rsbox ! unat (sbox ! unat x) = word_of_nat (unat x)" by blast
  then show ?thesis by (simp add: getSBoxInvert_def getSBoxValue_def)
qed

lemma length16E:
  assumes "length s = 16"
  obtains a0 a1 a2 a3 a4 a5 a6 a7 a8 a9 a10 a11 a12 a13 a14 a15
  where "s = [a0, a1, a2, a3, a4, a5, a6, a7, a8, a9, a10, a11, a12, a13, a14, a15]"
proof -
  have "\<exists>a0 a1 a2 a3 a4 a5 a6 a7 a8 a9 a10 a11 a12 a13 a14 a15.
     s = [a0, a1, a2, a3, a4, a5, a6, a7, a8, a9, a10, a11, a12, a13, a14, a15]"
    using assms by (simp add: eval_nat_numeral length_Suc_ex) metis
  then show ?thesis using that by blast
qed

lemma AddRoundKey_conv:
  assumes "length s = 16"
  shows "AddRoundKey r rk s = map (\<lambda>i. s ! i XOR rk ! (unat r * 16 + i)) [0..<16]"
proof -
  define k where "k = unat r * 16"
  have idx: "unat r * Nb * 4 + i * Nb + j = k + (4 * i + j)" for i j
    by (simp add: k_def)
  from assms obtain a0 a1 a2 a3 a4 a5 a6 a7 a8 a9 a10 a11 a12 a13 a14 a15
    where s: "s = [a0, a1, a2, a3, a4, a5, a6, a7, a8, a9, a10, a11, a12, a13, a14, a15]"
    by (rule length16E)
  show ?thesis
    unfolding s AddRoundKey_def idx k_def [symmetric]
    by (simp add: set_st_def upt_rec numeral_eq_Suc)
qed

lemma SubBytes_conv: "length s = 16 \<Longrightarrow> SubBytes s = map getSBoxValue s"
  by (erule length16E) (simp add: SubBytes_def set_st_def upt_rec)

lemma InvSubBytes_conv: "length s = 16 \<Longrightarrow> InvSubBytes s = map getSBoxInvert s"
  by (erule length16E) (simp add: InvSubBytes_def set_st_def upt_rec)

lemma ShiftRows_conv: "length s = 16 \<Longrightarrow> ShiftRows s = map (\<lambda>i. s ! (5 * i mod 16)) [0..<16]"
  by (erule length16E) (simp add: ShiftRows_def set_st_def upt_rec Let_def)

lemma InvShiftRows_conv: "length s = 16 \<Longrightarrow> InvShiftRows s = map (\<lambda>i. s ! (13 * i mod 16)) [0..<16]"
  by (erule length16E) (simp add: InvShiftRows_def set_st_def upt_rec Let_def)

subsection \<open>Multiplication by \<open>x\<close> in GF(2^8) and the column mixing\<close>

lemma xtime_alt: "xtime x = push_bit 1 x XOR (if bit x 7 then 0x1b else 0)"
  by (simp add: xtime_def and_one_eq mod_2_eq_odd bit_iff_odd_drop_bit)

lemma xtime_xor: "xtime (a XOR b) = xtime a XOR xtime b"
  by (simp add: xtime_alt bit_xor_iff xor.assoc xor.commute xor.left_commute)

lemma Multiply_consts:
  "Multiply x 0x0e = xtime x XOR xtime (xtime x) XOR xtime (xtime (xtime x))"
  "Multiply x 0x0b = x XOR xtime x XOR xtime (xtime (xtime x))"
  "Multiply x 0x0d = x XOR xtime (xtime x) XOR xtime (xtime (xtime x))"
  "Multiply x 0x09 = x XOR xtime (xtime (xtime x))"
  by (simp_all add: Multiply_def drop_bit_eq_div xor.assoc)

text \<open>The two mixings on one column.\<close>

definition mix_column :: "u8 \<Rightarrow> u8 \<Rightarrow> u8 \<Rightarrow> u8 \<Rightarrow> u8 list" where
  "mix_column a b c d =
     (let t = a XOR b XOR c XOR d
      in [a XOR (xtime (a XOR b) XOR t), b XOR (xtime (b XOR c) XOR t),
          c XOR (xtime (c XOR d) XOR t), d XOR (xtime (d XOR a) XOR t)])"

definition inv_mix_column :: "u8 \<Rightarrow> u8 \<Rightarrow> u8 \<Rightarrow> u8 \<Rightarrow> u8 list" where
  "inv_mix_column a b c d =
     [Multiply a 0x0e XOR Multiply b 0x0b XOR Multiply c 0x0d XOR Multiply d 0x09,
      Multiply a 0x09 XOR Multiply b 0x0e XOR Multiply c 0x0b XOR Multiply d 0x0d,
      Multiply a 0x0d XOR Multiply b 0x09 XOR Multiply c 0x0e XOR Multiply d 0x0b,
      Multiply a 0x0b XOR Multiply b 0x0d XOR Multiply c 0x09 XOR Multiply d 0x0e]"

lemma MixColumns_list:
  "MixColumns [a0, a1, a2, a3, a4, a5, a6, a7, a8, a9, a10, a11, a12, a13, a14, a15] =
   mix_column a0 a1 a2 a3 @ mix_column a4 a5 a6 a7 @
   mix_column a8 a9 a10 a11 @ mix_column a12 a13 a14 a15"
  by (simp add: MixColumns_def set_st_def upt_rec Let_def mix_column_def)

lemma InvMixColumns_list:
  "InvMixColumns [a0, a1, a2, a3, a4, a5, a6, a7, a8, a9, a10, a11, a12, a13, a14, a15] =
   inv_mix_column a0 a1 a2 a3 @ inv_mix_column a4 a5 a6 a7 @
   inv_mix_column a8 a9 a10 a11 @ inv_mix_column a12 a13 a14 a15"
  by (simp add: InvMixColumns_def set_st_def upt_rec Let_def inv_mix_column_def)

lemma inv_mix_column_mix_column:
  "mix_column a b c d = [p, q, r, s] \<Longrightarrow> inv_mix_column p q r s = [a, b, c, d]"
  by (clarsimp simp: mix_column_def Let_def)
    (simp add: inv_mix_column_def Multiply_consts xtime_xor xor.assoc xor.commute xor.left_commute)

lemma mix_column_length4E:
  obtains p q r s where "mix_column a b c d = [p, q, r, s]"
  by (simp add: mix_column_def Let_def)

subsection \<open>Every step is undone by its inverse\<close>

lemma AddRoundKey_twice [simp]:
  "length s = 16 \<Longrightarrow> AddRoundKey r rk (AddRoundKey r rk s) = s"
  by (rule nth_equalityI) (auto simp: AddRoundKey_conv)

lemma InvSubBytes_SubBytes [simp]: "length s = 16 \<Longrightarrow> InvSubBytes (SubBytes s) = s"
  by (simp add: SubBytes_conv InvSubBytes_conv comp_def)

lemma InvShiftRows_ShiftRows [simp]: "length s = 16 \<Longrightarrow> InvShiftRows (ShiftRows s) = s"
  by (erule length16E) (simp add: ShiftRows_conv InvShiftRows_conv upt_rec)

lemma InvMixColumns_MixColumns [simp]:
  assumes "length s = 16"
  shows "InvMixColumns (MixColumns s) = s"
proof -
  from assms obtain a0 a1 a2 a3 a4 a5 a6 a7 a8 a9 a10 a11 a12 a13 a14 a15
    where s: "s = [a0, a1, a2, a3, a4, a5, a6, a7, a8, a9, a10, a11, a12, a13, a14, a15]"
    by (rule length16E)
  obtain p0 q0 r0 s0 where c0: "mix_column a0 a1 a2 a3 = [p0, q0, r0, s0]"
    by (rule mix_column_length4E)
  obtain p1 q1 r1 s1 where c1: "mix_column a4 a5 a6 a7 = [p1, q1, r1, s1]"
    by (rule mix_column_length4E)
  obtain p2 q2 r2 s2 where c2: "mix_column a8 a9 a10 a11 = [p2, q2, r2, s2]"
    by (rule mix_column_length4E)
  obtain p3 q3 r3 s3 where c3: "mix_column a12 a13 a14 a15 = [p3, q3, r3, s3]"
    by (rule mix_column_length4E)
  show ?thesis
    by (simp add: s MixColumns_list InvMixColumns_list c0 c1 c2 c3
        c0 [THEN inv_mix_column_mix_column] c1 [THEN inv_mix_column_mix_column]
        c2 [THEN inv_mix_column_mix_column] c3 [THEN inv_mix_column_mix_column])
qed

lemma round_lengths [simp]:
  assumes "length s = 16"
  shows "length (AddRoundKey r rk s) = 16" "length (SubBytes s) = 16"
    "length (ShiftRows s) = 16" "length (MixColumns s) = 16"
    "length (InvSubBytes s) = 16" "length (InvShiftRows s) = 16" "length (InvMixColumns s) = 16"
  using assms
  by (simp_all add: AddRoundKey_conv SubBytes_conv InvSubBytes_conv ShiftRows_conv InvShiftRows_conv)
    (erule length16E, simp add: MixColumns_list InvMixColumns_list mix_column_def
      inv_mix_column_def Let_def)+

section \<open>Decryption undoes encryption\<close>

lemma Cipher_unroll:
  "Cipher s rk =
   (let R = (\<lambda>r s. AddRoundKey r rk (MixColumns (ShiftRows (SubBytes s))))
    in AddRoundKey 10 rk (ShiftRows (SubBytes
         (R 9 (R 8 (R 7 (R 6 (R 5 (R 4 (R 3 (R 2 (R 1 (AddRoundKey 0 rk s)))))))))))))"
  by (simp add: Cipher_def Cipher_loop.simps Let_def)

lemma InvCipher_unroll:
  "InvCipher s rk =
   (let R = (\<lambda>r s. AddRoundKey r rk (InvSubBytes (InvShiftRows s)));
        M = InvMixColumns
    in R 0 (M (R 1 (M (R 2 (M (R 3 (M (R 4 (M (R 5 (M (R 6 (M (R 7 (M (R 8 (M (R 9
         (AddRoundKey 10 rk s))))))))))))))))))))"
  by (simp add: InvCipher_def InvCipher_loop.simps Let_def)

lemma length_Cipher [simp]: "length s = 16 \<Longrightarrow> length (Cipher s rk) = 16"
  by (simp add: Cipher_unroll Let_def)

lemma length_InvCipher [simp]: "length s = 16 \<Longrightarrow> length (InvCipher s rk) = 16"
  by (simp add: InvCipher_unroll Let_def)

lemma InvCipher_Cipher [simp]: "length s = 16 \<Longrightarrow> InvCipher (Cipher s rk) rk = s"
  by (simp add: Cipher_unroll InvCipher_unroll Let_def)

end
