(* ===== verification/Aes_Correct.thy ===== *)
theory Aes_Correct
  imports Aes
begin

text \<open>
  Correctness of the cipher component: the key schedule computes the schedule of FIPS-197, the
  cipher satisfies the block-cipher interface, the CBC mode round-trips, the CTR mode is an
  exclusive-or with a key stream over a big-endian counter, and the NIST vector quoted in the
  header comment of \<^verbatim>\<open>src/src/aes.c\<close> is reproduced.
\<close>

section \<open>The key schedule is the one of FIPS-197\<close>

text \<open>Reference: word \<open>i\<close> is word \<open>i - 4\<close> plus (exclusive or) word \<open>i - 1\<close>, the latter
  rotated, substituted and offset by the round constant when \<open>i\<close> is a multiple of 4.\<close>

definition sched_word :: "u8 list \<Rightarrow> nat \<Rightarrow> u8 list" where
  "sched_word w i = take 4 (drop (4 * i) w)"

definition fips_next_word :: "nat \<Rightarrow> u8 list \<Rightarrow> u8 list" where
  "fips_next_word i w =
     (let prev = sched_word w (i - 1);
          temp = (if i mod 4 = 0
                  then map2 (XOR) (map getSBoxValue (rotate1 prev)) [Rcon ! (i div 4), 0, 0, 0]
                  else prev)
      in map2 (XOR) (sched_word w (i - 4)) temp)"

definition fips_extend :: "nat \<Rightarrow> u8 list \<Rightarrow> u8 list" where
  "fips_extend n w = w @ fips_next_word (n + 4) w"

fun fips_schedule :: "u8 list \<Rightarrow> nat \<Rightarrow> u8 list" where
  "fips_schedule key 0 = take 16 key"
| "fips_schedule key (Suc n) = fips_extend n (fips_schedule key n)"

lemma fips_schedule_numeral:
  "fips_schedule key (numeral k) = fips_extend (pred_numeral k) (fips_schedule key (pred_numeral k))"
  by (simp add: numeral_eq_Suc)

lemma sched_word_conv:
  "4 * i + 4 \<le> length w \<Longrightarrow>
   sched_word w i = [w ! (4 * i), w ! (4 * i + 1), w ! (4 * i + 2), w ! (4 * i + 3)]"
  by (rule nth_equalityI) (auto simp: sched_word_def less_Suc_eq numeral_eq_Suc)

lemma length_KeyExpansion_step [simp]: "length (KeyExpansion_step i rk) = length rk"
  by (simp add: KeyExpansion_step_def Let_def split: prod.split)

lemma length_fold_KeyExpansion_step [simp]: "length (fold KeyExpansion_step is rk) = length rk"
  by (induction "is" arbitrary: rk) simp_all

lemma take_updates4:
  "k + 4 \<le> length rk \<Longrightarrow>
   take (k + 4) (rk[k := a, k + 1 := b, k + 2 := c, k + 3 := d]) = take k rk @ [a, b, c, d]"
  by (rule nth_equalityI) (auto simp: nth_append nth_list_update nth_Cons')

lemma KeyExpansion_step_take:
  assumes "4 \<le> i" "4 * i + 4 \<le> length rk"
  shows "take (4 * i + 4) (KeyExpansion_step i rk) =
    take (4 * i) rk @ fips_next_word i (take (4 * i) rk)"
proof -
  obtain n where i: "i = n + 4" using assms(1) by (metis add.commute le_Suc_ex)
  show ?thesis using assms take_updates4 [of "n * 4 + 16" rk]
    by (simp add: i KeyExpansion_step_def Let_def fips_next_word_def sched_word_conv algebra_simps)
qed

lemma KeyExpansion_copy:
  assumes "16 \<le> length key" "16 \<le> length rk"
  shows "fold (\<lambda>i rk. rk[i * 4 + 0 := key ! (i * 4 + 0), i * 4 + 1 := key ! (i * 4 + 1),
     i * 4 + 2 := key ! (i * 4 + 2), i * 4 + 3 := key ! (i * 4 + 3)]) [0 ..< Nk] rk
   = take 16 key @ drop 16 rk"
proof -
  have "length (take 16 key) = 16" using assms by simp
  then obtain a0 a1 a2 a3 a4 a5 a6 a7 a8 a9 a10 a11 a12 a13 a14 a15
    where k: "take 16 key = [a0, a1, a2, a3, a4, a5, a6, a7, a8, a9, a10, a11, a12, a13, a14, a15]"
    by (rule length16E)
  have "length (take 16 rk) = 16" using assms by simp
  then obtain b0 b1 b2 b3 b4 b5 b6 b7 b8 b9 b10 b11 b12 b13 b14 b15
    where r: "take 16 rk = [b0, b1, b2, b3, b4, b5, b6, b7, b8, b9, b10, b11, b12, b13, b14, b15]"
    by (rule length16E)
  have "key = take 16 key @ drop 16 key" "rk = take 16 rk @ drop 16 rk" by simp_all
  then obtain key' rk' where
    "key = a0 # a1 # a2 # a3 # a4 # a5 # a6 # a7 # a8 # a9 # a10 # a11 # a12 # a13 # a14 # a15 # key'"
    "rk = b0 # b1 # b2 # b3 # b4 # b5 # b6 # b7 # b8 # b9 # b10 # b11 # b12 # b13 # b14 # b15 # rk'"
    unfolding k r by simp
  then show ?thesis by (simp add: upt_rec)
qed

lemma KeyExpansion_take:
  assumes "16 \<le> length key" "n \<le> 40" "176 \<le> length rk"
  shows "take (16 + 4 * n) (fold KeyExpansion_step [4 ..< 4 + n] (take 16 key @ drop 16 rk)) =
    fips_schedule key n"
  using assms(2)
proof (induction n)
  case 0
  with assms show ?case by simp
next
  case (Suc n)
  let ?r = "fold KeyExpansion_step [4 ..< 4 + n] (take 16 key @ drop 16 rk)"
  have IH: "take (4 * (n + 4)) ?r = fips_schedule key n" using Suc by (simp add: algebra_simps)
  have len: "length ?r = length rk" using assms by simp
  have "take (4 * (n + 4) + 4) (KeyExpansion_step (n + 4) ?r) = fips_schedule key (Suc n)"
    using assms Suc.prems by (subst KeyExpansion_step_take)
      (simp_all only: len IH fips_schedule.simps fips_extend_def, simp_all)
  moreover have "[4 ..< 4 + Suc n] = [4 ..< 4 + n] @ [n + 4]"
    by (metis add.commute add_Suc_right le_add1 upt_Suc_append)
  ultimately show ?case by (simp add: algebra_simps)
qed

lemma KeyExpansion_eq_fips:
  assumes "16 \<le> length key" "length rk = 176"
  shows "KeyExpansion rk key = Some (fips_schedule key 40)"
proof -
  define r where "r = fold KeyExpansion_step [4 ..< 4 + 40] (take 16 key @ drop 16 rk)"
  have "length r = 176" using assms by (simp add: r_def del: upt.simps)
  moreover have "take (16 + 4 * 40) r = fips_schedule key 40"
    unfolding r_def using assms by (intro KeyExpansion_take) simp_all
  ultimately have "r = fips_schedule key 40" by simp
  moreover have "[Nk ..< Nb * (Nr + 1)] = [4 ..< 4 + 40]" by simp
  ultimately show ?thesis
    using assms unfolding KeyExpansion_def r_def by (simp only: KeyExpansion_copy) simp
qed

lemma fips_schedule_cong: "take 16 key = take 16 key' \<Longrightarrow> fips_schedule key n = fips_schedule key' n"
  by (induction n) simp_all

lemma AES_init_ctx_fips:
  assumes "16 \<le> length key" "length (RoundKey ctx) = 176"
  shows "AES_init_ctx ctx key = Some (ctx\<lparr>RoundKey := fips_schedule (take 16 key) 40\<rparr>)"
  using KeyExpansion_eq_fips [OF assms] fips_schedule_cong [of key "take 16 key" 40]
  by (simp add: AES_init_ctx_def)

section \<open>The block-cipher interface\<close>

text \<open>What the users of a block cipher rely on: blocks of one length, and decryption that undoes
  encryption under the same key schedule. The client facts are about a message cut into blocks
  that are encrypted one by one.\<close>

locale block_cipher =
  fixes enc dec :: "'k \<Rightarrow> u8 list \<Rightarrow> u8 list" and blen :: nat
  assumes blen_pos: "0 < blen"
    and enc_len: "length b = blen \<Longrightarrow> length (enc k b) = blen"
    and dec_len: "length b = blen \<Longrightarrow> length (dec k b) = blen"
    and dec_enc: "length b = blen \<Longrightarrow> dec k (enc k b) = b"
begin

lemma enc_inject:
  "length b = blen \<Longrightarrow> length b' = blen \<Longrightarrow> enc k b = enc k b' \<Longrightarrow> b = b'"
  by (metis dec_enc)

lemma length_concat_enc:
  "\<forall>b\<in>set bs. length b = blen \<Longrightarrow> length (concat (map (enc k) bs)) = length bs * blen"
  by (induction bs) (simp_all add: enc_len)

lemma map_dec_enc: "\<forall>b\<in>set bs. length b = blen \<Longrightarrow> map (dec k) (map (enc k) bs) = bs"
  by (induction bs) (simp_all add: dec_enc)

lemma enc_blocks_len:
  "\<forall>b\<in>set bs. length b = blen \<Longrightarrow> \<forall>b\<in>set (map (enc k) bs). length b = blen"
  by (simp add: enc_len)

end

interpretation aes: block_cipher "\<lambda>rk b. Cipher b rk" "\<lambda>rk b. InvCipher b rk" 16
  by unfold_locales simp_all

section \<open>CBC and CTR\<close>

lemma XorWithIv_conv: "length buf = 16 \<Longrightarrow> XorWithIv buf iv = map (\<lambda>i. buf ! i XOR iv ! i) [0..<16]"
  by (erule length16E) (simp add: XorWithIv_def upt_rec)

lemma length_XorWithIv [simp]: "length buf = 16 \<Longrightarrow> length (XorWithIv buf iv) = 16"
  by (simp add: XorWithIv_conv)

lemma XorWithIv_twice [simp]: "length buf = 16 \<Longrightarrow> XorWithIv (XorWithIv buf iv) iv = buf"
  by (rule nth_equalityI) (auto simp: XorWithIv_conv)

lemma CBC_loop_roundtrip:
  assumes "AES_CBC_encrypt_loop i len rk iv buf = Some (out, iv')"
    and "RoundKey ctx = rk" "Iv ctx = iv"
  shows "AES_CBC_decrypt_loop i len ctx out = Some (ctx\<lparr>Iv := iv'\<rparr>, buf)"
  using assms
proof (induction i len rk iv buf arbitrary: ctx out rule: AES_CBC_encrypt_loop.induct)
  case (1 i len rk iv buf)
  show ?case
  proof (cases "i < len")
    case True
    define blk where "blk = Cipher (XorWithIv (take 16 buf) iv) rk"
    from "1.prems" True have len16: "16 \<le> length buf"
      by (subst (asm) AES_CBC_encrypt_loop.simps) (auto split: if_splits)
    with "1.prems" True obtain rest where
      rec: "AES_CBC_encrypt_loop (i + 16) len rk blk (drop 16 buf) = Some (rest, iv')"
      and out: "out = blk @ rest"
      by (subst (asm) AES_CBC_encrypt_loop.simps)
        (auto simp: blk_def Let_def bind_eq_Some_conv split: if_splits)
    have "AES_CBC_decrypt_loop (i + 16) len (ctx\<lparr>Iv := blk\<rparr>) rest =
        Some (ctx\<lparr>Iv := blk\<rparr>\<lparr>Iv := iv'\<rparr>, drop 16 buf)"
      using True len16 rec "1.prems"(2) by (intro "1.IH") (simp_all add: blk_def)
    moreover have "length blk = 16" using len16 by (simp add: blk_def)
    ultimately show ?thesis
      using True len16 "1.prems"(2,3) unfolding out
      by (subst AES_CBC_decrypt_loop.simps) (simp add: Let_def blk_def)
  next
    case False
    with "1.prems" show ?thesis
      by (subst (asm) AES_CBC_encrypt_loop.simps, subst AES_CBC_decrypt_loop.simps) simp
  qed
qed

lemma CBC_encrypt_loop_total:
  assumes "i \<le> len" "len \<le> i + length buf" "(len - i) mod 16 = 0"
  shows "\<exists>out iv'. AES_CBC_encrypt_loop i len rk iv buf = Some (out, iv') \<and>
    length out = length buf \<and> drop (len - i) out = drop (len - i) buf"
  using assms
proof (induction i len rk iv buf rule: AES_CBC_encrypt_loop.induct)
  case (1 i len rk iv buf)
  show ?case
  proof (cases "i < len")
    case True
    obtain q where q: "len - i = 16 * q" using "1.prems"(3) by (metis mod_0_imp_dvd dvdE)
    with True have "q \<noteq> 0" by auto
    with q "1.prems" have i16: "i + 16 \<le> len" "16 \<le> length buf" by linarith+
    let ?blk = "Cipher (XorWithIv (take 16 buf) iv) rk"
    have "len - (i + 16) = 16 * (q - 1)" using q by (simp add: algebra_simps)
    then have "(len - (i + 16)) mod 16 = 0" by simp
    then obtain rest iv' where
      "AES_CBC_encrypt_loop (i + 16) len rk ?blk (drop 16 buf) = Some (rest, iv')"
      "length rest = length buf - 16" "drop (len - (i + 16)) rest = drop (len - (i + 16)) (drop 16 buf)"
      using "1.IH" [of ?blk] True i16 "1.prems" by auto
    then show ?thesis
      using True i16 by (subst AES_CBC_encrypt_loop.simps) (simp add: Let_def)
  next
    case False
    with "1.prems" show ?thesis by (subst AES_CBC_encrypt_loop.simps) simp
  qed
qed

subsection \<open>The counter block of CTR\<close>

text \<open>The counter block read as a big-endian number.\<close>

definition be_val :: "u8 list \<Rightarrow> nat" where
  "be_val xs = foldl (\<lambda>a b. 256 * a + unat b) 0 xs"

lemma be_val_snoc [simp]: "be_val (xs @ [b]) = 256 * be_val xs + unat b"
  by (simp add: be_val_def)

lemma be_val_Nil [simp]: "be_val [] = 0"
  by (simp add: be_val_def)

lemma unat_u8_less: "unat (b :: u8) < 256"
  using unsigned_less [of b, where ?'a = nat] by simp

lemma be_val_bound: "be_val xs < 256 ^ length xs"
proof (induction xs rule: rev_induct)
  case (snoc b xs)
  have "256 * be_val xs + unat b < 256 * (be_val xs + 1)" using unat_u8_less [of b] by simp
  also have "\<dots> \<le> 256 * 256 ^ length xs" using snoc by (intro mult_le_mono) simp_all
  finally show ?case by simp
qed simp

lemma length_ctr_increment [simp]: "length (ctr_increment n iv) = length iv"
  by (induction n iv rule: ctr_increment.induct) simp_all

lemma ctr_increment_above: "n \<le> i \<Longrightarrow> ctr_increment n iv ! i = iv ! i"
  by (induction n iv rule: ctr_increment.induct) simp_all

lemma be_val_ctr_increment:
  "n \<le> length iv \<Longrightarrow>
   be_val (take n (ctr_increment n iv)) = (be_val (take n iv) + 1) mod 256 ^ n"
proof (induction n arbitrary: iv)
  case (Suc n)
  then have n: "n < length iv" by simp
  let ?V = "be_val (take n iv)"
  show ?case
  proof (cases "iv ! n = 255")
    case True
    have "be_val (take (Suc n) (ctr_increment (Suc n) iv)) = 256 * ((?V + 1) mod 256 ^ n)"
      using True n Suc.IH [of "iv[n := 0]"]
      by (simp add: take_Suc_conv_app_nth ctr_increment_above)
    also have "\<dots> = (256 * (?V + 1)) mod 256 ^ Suc n" by (simp add: mult_mod_right)
    finally show ?thesis using True n by (simp add: take_Suc_conv_app_nth)
  next
    case False
    then have "unat (iv ! n) \<noteq> 255" by (simp add: word_unat_eq_iff)
    then have b: "unat (iv ! n) + 1 < 256" using unat_u8_less [of "iv ! n"] by simp
    have V: "?V + 1 \<le> 256 ^ n" using be_val_bound [of "take n iv"] n by simp
    have "256 * ?V + (unat (iv ! n) + 1) < 256 * (?V + 1)" using b by simp
    also have "\<dots> \<le> 256 ^ Suc n" using V by simp
    finally have "(256 * ?V + unat (iv ! n) + 1) mod 256 ^ Suc n = 256 * ?V + unat (iv ! n) + 1"
      by (simp only: add.assoc mod_less)
    moreover have "unat (iv ! n + 1) = unat (iv ! n) + 1"
      using b by (simp add: unat_word_ariths)
    ultimately show ?thesis using False n by (simp add: take_Suc_conv_app_nth)
  qed
qed simp

lemma length_CTR_loop [simp]: "length (fst (AES_CTR_loop rk iv buffer bi buf)) = length buf"
  by (induction buf arbitrary: iv buffer bi) (simp_all add: Let_def case_prod_beta)

lemma CTR_loop_twice:
  "AES_CTR_loop rk iv buffer bi buf = (out, iv') \<Longrightarrow> AES_CTR_loop rk iv buffer bi out = (buf, iv')"
  by (induction buf arbitrary: iv buffer bi out)
    (auto simp: Let_def split: prod.splits if_splits)

lemma CTR_loop_nth:
  assumes "i < length buf" "bi \<le> 16"
  shows "fst (AES_CTR_loop rk iv buffer bi buf) ! i =
    buf ! i XOR (if bi + i < 16 then buffer ! (bi + i)
      else Cipher ((ctr_increment 16 ^^ ((bi + i) div 16 - 1)) iv) rk ! ((bi + i) mod 16))"
  using assms
proof (induction buf arbitrary: i iv buffer bi)
  case (Cons b buf)
  show ?case
  proof (cases i)
    case 0
    with Cons.prems show ?thesis by (auto simp: Let_def split: prod.splits)
  next
    case (Suc j)
    show ?thesis
    proof (cases "bi = 16")
      case True
      have idx: "(17 + j) div 16 - 1 = (1 + j) div 16" "(17 + j) mod 16 = (1 + j) mod 16"
        using div_add_self2 [of 16 "1 + j"] mod_add_self2 [of "1 + j" 16] by simp_all
      have step: "(ctr_increment 16 ^^ ((1 + j) div 16 - 1)) (ctr_increment 16 iv) =
          (ctr_increment 16 ^^ ((1 + j) div 16)) iv" if "\<not> 1 + j < 16"
      proof -
        obtain m where "(1 + j) div 16 = Suc m" using \<open>\<not> 1 + j < 16\<close> by (cases "(1 + j) div 16") auto
        then show ?thesis by (simp add: funpow_swap1)
      qed
      have "fst (AES_CTR_loop rk iv buffer bi (b # buf)) ! i =
          fst (AES_CTR_loop rk (ctr_increment 16 iv) (Cipher iv rk) 1 buf) ! j"
        using Suc True by (simp add: Let_def case_prod_beta)
      also have "\<dots> = buf ! j XOR (if 1 + j < 16 then Cipher iv rk ! (1 + j)
          else Cipher ((ctr_increment 16 ^^ ((1 + j) div 16)) iv) rk ! ((1 + j) mod 16))"
        using Cons.IH [of j 1 "ctr_increment 16 iv" "Cipher iv rk"] Cons.prems Suc step by simp
      finally show ?thesis using Suc True idx by simp
    next
      case False
      then show ?thesis
        using Cons.IH [of j "bi + 1" iv buffer] Cons.prems Suc
        by (auto simp: Let_def split: prod.splits)
    qed
  qed
qed simp

section \<open>Evaluation on the NIST vector\<close>

definition nist_key :: "u8 list" where
  "nist_key = [0x2b, 0x7e, 0x15, 0x16, 0x28, 0xae, 0xd2, 0xa6, 0xab, 0xf7, 0x15, 0x88, 0x09, 0xcf, 0x4f, 0x3c]"

definition nist_schedule :: "u8 list" where
  "nist_schedule = [
    0x2b, 0x7e, 0x15, 0x16, 0x28, 0xae, 0xd2, 0xa6, 0xab, 0xf7, 0x15, 0x88, 0x09, 0xcf, 0x4f, 0x3c,
    0xa0, 0xfa, 0xfe, 0x17, 0x88, 0x54, 0x2c, 0xb1, 0x23, 0xa3, 0x39, 0x39, 0x2a, 0x6c, 0x76, 0x05,
    0xf2, 0xc2, 0x95, 0xf2, 0x7a, 0x96, 0xb9, 0x43, 0x59, 0x35, 0x80, 0x7a, 0x73, 0x59, 0xf6, 0x7f,
    0x3d, 0x80, 0x47, 0x7d, 0x47, 0x16, 0xfe, 0x3e, 0x1e, 0x23, 0x7e, 0x44, 0x6d, 0x7a, 0x88, 0x3b,
    0xef, 0x44, 0xa5, 0x41, 0xa8, 0x52, 0x5b, 0x7f, 0xb6, 0x71, 0x25, 0x3b, 0xdb, 0x0b, 0xad, 0x00,
    0xd4, 0xd1, 0xc6, 0xf8, 0x7c, 0x83, 0x9d, 0x87, 0xca, 0xf2, 0xb8, 0xbc, 0x11, 0xf9, 0x15, 0xbc,
    0x6d, 0x88, 0xa3, 0x7a, 0x11, 0x0b, 0x3e, 0xfd, 0xdb, 0xf9, 0x86, 0x41, 0xca, 0x00, 0x93, 0xfd,
    0x4e, 0x54, 0xf7, 0x0e, 0x5f, 0x5f, 0xc9, 0xf3, 0x84, 0xa6, 0x4f, 0xb2, 0x4e, 0xa6, 0xdc, 0x4f,
    0xea, 0xd2, 0x73, 0x21, 0xb5, 0x8d, 0xba, 0xd2, 0x31, 0x2b, 0xf5, 0x60, 0x7f, 0x8d, 0x29, 0x2f,
    0xac, 0x77, 0x66, 0xf3, 0x19, 0xfa, 0xdc, 0x21, 0x28, 0xd1, 0x29, 0x41, 0x57, 0x5c, 0x00, 0x6e,
    0xd0, 0x14, 0xf9, 0xa8, 0xc9, 0xee, 0x25, 0x89, 0xe1, 0x3f, 0x0c, 0xc8, 0xb6, 0x63, 0x0c, 0xa6]"

text \<open>One full round, kept as a constant so that evaluation proceeds round by round.\<close>

definition aes_round :: "u8 \<Rightarrow> u8 list \<Rightarrow> u8 list \<Rightarrow> u8 list" where
  "aes_round r rk s = AddRoundKey r rk (MixColumns (ShiftRows (SubBytes s)))"

lemma Cipher_rounds:
  "Cipher s rk = AddRoundKey 10 rk (ShiftRows (SubBytes (aes_round 9 rk (aes_round 8 rk
     (aes_round 7 rk (aes_round 6 rk (aes_round 5 rk (aes_round 4 rk (aes_round 3 rk
     (aes_round 2 rk (aes_round 1 rk (AddRoundKey 0 rk s))))))))))))"
  by (simp add: Cipher_unroll aes_round_def Let_def)

lemma aes_round_eval:
  "length s = 16 \<Longrightarrow> aes_round 1 rk s = AddRoundKey 1 rk (MixColumns (ShiftRows (SubBytes s)))"
  "length s = 16 \<Longrightarrow>
     aes_round (numeral r) rk s = AddRoundKey (numeral r) rk (MixColumns (ShiftRows (SubBytes s)))"
  by (simp_all add: aes_round_def)

lemmas aes_eval = Cipher_rounds aes_round_eval AddRoundKey_conv ShiftRows_conv SubBytes_conv
  MixColumns_list mix_column_def xtime_alt Let_def upt_rec getSBoxValue_def sbox_def

lemma length_nist_key: "length nist_key = 16"
  by (simp add: nist_key_def)

lemma nist_schedule_eq: "fips_schedule nist_key 40 = nist_schedule"
  by (simp add: nist_key_def nist_schedule_def fips_schedule_numeral fips_extend_def Rcon_def
      fips_next_word_def sched_word_def getSBoxValue_def sbox_def)

section \<open>Properties of the component\<close>

text \<open>C2: decrypting a 16-byte block with the context that encrypted it gives the block back,
  whatever the round keys are (\<^verbatim>\<open>AES_ECB_encrypt\<close>, \<^verbatim>\<open>AES_ECB_decrypt\<close>).\<close>

theorem AES_ECB_roundtrip:
  assumes "length buf = 16"
  shows "AES_ECB_decrypt ctx (AES_ECB_encrypt ctx buf) = buf \<and>
    length (AES_ECB_encrypt ctx buf) = 16"
  using assms aes.dec_enc [OF assms] by (simp add: AES_ECB_decrypt_def AES_ECB_encrypt_def)

theorem AES_ECB_roundtrip_witness:
  "length (replicate 16 (7 :: u8)) = 16 \<and>
   AES_ECB_decrypt \<lparr>RoundKey = nist_schedule, Iv = []\<rparr>
     (AES_ECB_encrypt \<lparr>RoundKey = nist_schedule, Iv = []\<rparr> (replicate 16 7)) = replicate 16 7"
  using AES_ECB_roundtrip [of "replicate 16 7" "\<lparr>RoundKey = nist_schedule, Iv = []\<rparr>"] by simp

text \<open>C3: for a key of at least 16 bytes \<^verbatim>\<open>KeyExpansion\<close> fills the 176 bytes of the context with
  the FIPS-197 schedule of the first 16 key bytes, whatever the memory held before; bytes of the
  key beyond the sixteenth have no influence, and a shorter key is read out of bounds.\<close>

theorem KeyExpansion_fips:
  assumes "length rk = 176"
  shows "KeyExpansion rk key =
    (if length key < 16 then None else Some (fips_schedule (take 16 key) 40))"
  using assms KeyExpansion_eq_fips [of key rk] fips_schedule_cong [of key "take 16 key" 40]
  by (simp add: KeyExpansion_def)

theorem KeyExpansion_fips_witness:
  "KeyExpansion (replicate 176 0) (nist_key @ [1, 2, 3]) = Some nist_schedule \<and>
   KeyExpansion (replicate 176 0) [1, 2, 3] = None"
proof -
  have "take 16 (nist_key @ [1, 2, 3]) = nist_key"
    by (simp add: nist_key_def)
  then show ?thesis
    using KeyExpansion_fips [of "replicate 176 0" "nist_key @ [1, 2, 3]"]
      KeyExpansion_fips [of "replicate 176 0" "[1, 2, 3]"] nist_schedule_eq
      length_nist_key
    by simp
qed

text \<open>The vector of the header comment of \<^verbatim>\<open>aes.c\<close> (NIST SP 800-38A, first ECB-AES128 block):
  initialising a context with its key and encrypting its plain text gives its cipher text.\<close>

theorem AES_ECB_nist_vector:
  "map_option (\<lambda>ctx. AES_ECB_encrypt ctx
      [0x6b, 0xc1, 0xbe, 0xe2, 0x2e, 0x40, 0x9f, 0x96, 0xe9, 0x3d, 0x7e, 0x11, 0x73, 0x93, 0x17, 0x2a])
     (AES_init_ctx \<lparr>RoundKey = replicate 176 0, Iv = replicate 16 0\<rparr>
      [0x2b, 0x7e, 0x15, 0x16, 0x28, 0xae, 0xd2, 0xa6, 0xab, 0xf7, 0x15, 0x88, 0x09, 0xcf, 0x4f, 0x3c]) =
   Some [0x3a, 0xd7, 0x7b, 0xb4, 0x0d, 0x7a, 0x36, 0x60, 0xa8, 0x9e, 0xca, 0xf3, 0x24, 0x66, 0xef, 0x97]"
proof -
  have "AES_init_ctx \<lparr>RoundKey = replicate 176 0, Iv = replicate 16 0\<rparr> nist_key =
      Some \<lparr>RoundKey = nist_schedule, Iv = replicate 16 0\<rparr>"
    using KeyExpansion_eq_fips [of nist_key "replicate 176 0"] nist_schedule_eq length_nist_key
    by (simp add: AES_init_ctx_def)
  moreover have "Cipher
      [0x6b, 0xc1, 0xbe, 0xe2, 0x2e, 0x40, 0x9f, 0x96, 0xe9, 0x3d, 0x7e, 0x11, 0x73, 0x93, 0x17, 0x2a]
      nist_schedule =
     [0x3a, 0xd7, 0x7b, 0xb4, 0x0d, 0x7a, 0x36, 0x60, 0xa8, 0x9e, 0xca, 0xf3, 0x24, 0x66, 0xef, 0x97]"
    by (simp add: aes_eval nist_schedule_def)
  ultimately show ?thesis by (simp add: AES_ECB_encrypt_def nist_key_def)
qed

text \<open>CBC on a whole number of blocks inside the buffer succeeds, changes only those bytes,
  and decrypting from the same initial vector restores the buffer and leaves the same chaining
  vector behind.\<close>

theorem AES_CBC_roundtrip:
  assumes "len mod 16 = 0" "len \<le> length buf"
  shows "\<exists>ctx' out. AES_CBC_encrypt_buffer ctx buf len = Some (ctx', out) \<and>
    length out = length buf \<and> drop len out = drop len buf \<and>
    AES_CBC_decrypt_buffer ctx out len = Some (ctx', buf)"
proof -
  obtain out iv' where
    enc: "AES_CBC_encrypt_loop 0 len (RoundKey ctx) (Iv ctx) buf = Some (out, iv')"
    and "length out = length buf" "drop len out = drop len buf"
    using CBC_encrypt_loop_total [of 0 len buf "RoundKey ctx" "Iv ctx"] assms by auto
  moreover have "AES_CBC_decrypt_loop 0 len ctx out = Some (ctx\<lparr>Iv := iv'\<rparr>, buf)"
    using enc by (rule CBC_loop_roundtrip) simp_all
  ultimately show ?thesis
    by (simp add: AES_CBC_encrypt_buffer_def AES_CBC_decrypt_buffer_def)
qed

theorem AES_CBC_roundtrip_witness:
  "\<exists>ctx' out. AES_CBC_encrypt_buffer \<lparr>RoundKey = nist_schedule, Iv = replicate 16 9\<rparr>
      (replicate 32 5) 32 = Some (ctx', out) \<and>
    AES_CBC_decrypt_buffer \<lparr>RoundKey = nist_schedule, Iv = replicate 16 9\<rparr> out 32 =
      Some (ctx', replicate 32 5)"
  using AES_CBC_roundtrip [of 32 "replicate 32 5" "\<lparr>RoundKey = nist_schedule, Iv = replicate 16 9\<rparr>"]
  by auto

text \<open>CTR exclusive-ors byte \<open>i\<close> with byte \<open>i mod 16\<close> of the encryption of the counter block
  after \<open>i div 16\<close> increments, an increment adds 1 to the 128-bit big-endian counter with
  wrap-around, and running it again from the same counter restores the buffer.\<close>

theorem AES_CTR_keystream:
  assumes "len \<le> length buf" "length (Iv ctx) = 16"
  shows "\<exists>ctx' out. AES_CTR_xcrypt_buffer ctx buf len = Some (ctx', out) \<and>
    (\<forall>i<len. out ! i = buf ! i XOR
       Cipher ((ctr_increment 16 ^^ (i div 16)) (Iv ctx)) (RoundKey ctx) ! (i mod 16)) \<and>
    be_val (ctr_increment 16 (Iv ctx)) = (be_val (Iv ctx) + 1) mod 2 ^ 128 \<and>
    AES_CTR_xcrypt_buffer ctx out len = Some (ctx', buf)"
proof -
  obtain out iv' where loop:
    "AES_CTR_loop (RoundKey ctx) (Iv ctx) [] 16 (take len buf) = (out, iv')" by fastforce
  have len: "length out = len"
    using length_CTR_loop [of "RoundKey ctx" "Iv ctx" "[]" 16 "take len buf"] loop assms(1) by simp
  have "out ! i = buf ! i XOR
      Cipher ((ctr_increment 16 ^^ (i div 16)) (Iv ctx)) (RoundKey ctx) ! (i mod 16)" if "i < len" for i
  proof -
    have "(16 + i) div 16 - 1 = i div 16" by simp
    then show ?thesis
      using CTR_loop_nth [of i "take len buf" 16 "RoundKey ctx" "Iv ctx" "[]"] loop that assms(1)
      by simp
  qed
  moreover have "be_val (ctr_increment 16 (Iv ctx)) = (be_val (Iv ctx) + 1) mod 2 ^ 128"
    using be_val_ctr_increment [of 16 "Iv ctx"] assms(2) by simp
  ultimately show ?thesis
    using loop CTR_loop_twice [OF loop] assms(1) len
    by (simp add: AES_CTR_xcrypt_buffer_def nth_append)
qed

theorem AES_CTR_keystream_witness:
  "\<exists>ctx' out. AES_CTR_xcrypt_buffer \<lparr>RoundKey = nist_schedule, Iv = replicate 16 255\<rparr>
      [1, 2, 3] 3 = Some (ctx', out) \<and>
    AES_CTR_xcrypt_buffer \<lparr>RoundKey = nist_schedule, Iv = replicate 16 255\<rparr> out 3 =
      Some (ctx', [1, 2, 3])"
  using AES_CTR_keystream [of 3 "[1, 2, 3]" "\<lparr>RoundKey = nist_schedule, Iv = replicate 16 255\<rparr>"]
  by auto

end
