(* ===== verification/Xxhash.thy ===== *)
theory Xxhash
  imports Prelude
begin

text \<open>
  The XXH32 and XXH64 hash families of \<^verbatim>\<open>src/src/xxhash.h\<close> (\<^verbatim>\<open>xxhash.c\<close> instantiates them);
  \<^verbatim>\<open>file.c\<close> derives file identifiers with \<^verbatim>\<open>XXH64\<close>. Modelled for the default configuration on a
  little-endian machine: one-shot functions, streaming state, canonical form. A pointer into the
  input is the list of the bytes from there on. XXH3 is not modelled.

  \<open>Xxhash_Correct\<close> shows that feeding a message to the streaming interface in any pieces gives the
  one-shot hash of the whole message.
\<close>

section \<open>Memory reads and rotations\<close>

definition XXH_rotl32 :: "u32 \<Rightarrow> nat \<Rightarrow> u32" where
  "XXH_rotl32 x r = push_bit r x OR drop_bit (32 - r) x"

definition XXH_rotl64 :: "u64 \<Rightarrow> nat \<Rightarrow> u64" where
  "XXH_rotl64 x r = push_bit r x OR drop_bit (64 - r) x"

definition XXH_readLE32 :: "u8 list \<Rightarrow> u32" where
  "XXH_readLE32 p = ucast (p ! 0) OR push_bit 8 (ucast (p ! 1)) OR push_bit 16 (ucast (p ! 2))
     OR push_bit 24 (ucast (p ! 3))"

definition XXH_readBE32 :: "u8 list \<Rightarrow> u32" where
  "XXH_readBE32 p = ucast (p ! 3) OR push_bit 8 (ucast (p ! 2)) OR push_bit 16 (ucast (p ! 1))
     OR push_bit 24 (ucast (p ! 0))"

definition XXH_readLE64 :: "u8 list \<Rightarrow> u64" where
  "XXH_readLE64 p = ucast (p ! 0) OR push_bit 8 (ucast (p ! 1)) OR push_bit 16 (ucast (p ! 2))
     OR push_bit 24 (ucast (p ! 3)) OR push_bit 32 (ucast (p ! 4)) OR push_bit 40 (ucast (p ! 5))
     OR push_bit 48 (ucast (p ! 6)) OR push_bit 56 (ucast (p ! 7))"

definition XXH_readBE64 :: "u8 list \<Rightarrow> u64" where
  "XXH_readBE64 p = ucast (p ! 7) OR push_bit 8 (ucast (p ! 6)) OR push_bit 16 (ucast (p ! 5))
     OR push_bit 24 (ucast (p ! 4)) OR push_bit 32 (ucast (p ! 3)) OR push_bit 40 (ucast (p ! 2))
     OR push_bit 48 (ucast (p ! 1)) OR push_bit 56 (ucast (p ! 0))"

definition XXH_swap32 :: "u32 \<Rightarrow> u32" where
  "XXH_swap32 x =
     (push_bit 24 x AND 0xff000000) OR (push_bit 8 x AND 0x00ff0000) OR
     (drop_bit 8 x AND 0x0000ff00) OR (drop_bit 24 x AND 0x000000ff)"

definition XXH_swap64 :: "u64 \<Rightarrow> u64" where
  "XXH_swap64 x =
     (push_bit 56 x AND 0xff00000000000000) OR (push_bit 40 x AND 0x00ff000000000000) OR
     (push_bit 24 x AND 0x0000ff0000000000) OR (push_bit 8 x AND 0x000000ff00000000) OR
     (drop_bit 8 x AND 0x00000000ff000000) OR (drop_bit 24 x AND 0x0000000000ff0000) OR
     (drop_bit 40 x AND 0x000000000000ff00) OR (drop_bit 56 x AND 0x00000000000000ff)"

text \<open>The bytes of an integer in memory, least significant first.\<close>

definition le_bytes :: "nat \<Rightarrow> 'a::len word \<Rightarrow> u8 list" where
  "le_bytes n w = map (\<lambda>i. ucast (drop_bit (8 * i) w)) [0..<n]"

section \<open>XXH32\<close>

abbreviation (input) XXH_PRIME32_1 :: u32 where "XXH_PRIME32_1 \<equiv> 0x9E3779B1"
abbreviation (input) XXH_PRIME32_2 :: u32 where "XXH_PRIME32_2 \<equiv> 0x85EBCA77"
abbreviation (input) XXH_PRIME32_3 :: u32 where "XXH_PRIME32_3 \<equiv> 0xC2B2AE3D"
abbreviation (input) XXH_PRIME32_4 :: u32 where "XXH_PRIME32_4 \<equiv> 0x27D4EB2F"
abbreviation (input) XXH_PRIME32_5 :: u32 where "XXH_PRIME32_5 \<equiv> 0x165667B1"

definition XXH32_round :: "u32 \<Rightarrow> u32 \<Rightarrow> u32" where
  "XXH32_round acc input = XXH_rotl32 (acc + input * XXH_PRIME32_2) 13 * XXH_PRIME32_1"

definition XXH32_avalanche :: "u32 \<Rightarrow> u32" where
  "XXH32_avalanche hash =
     (let hash = hash XOR drop_bit 15 hash; hash = hash * XXH_PRIME32_2;
          hash = hash XOR drop_bit 13 hash; hash = hash * XXH_PRIME32_3
      in hash XOR drop_bit 16 hash)"

text \<open>The two loops of \<^verbatim>\<open>XXH32_finalize\<close> in the compact variant (\<^verbatim>\<open>XXH32_ENDJMP\<close> is 0).\<close>

fun XXH32_finalize_words :: "u32 \<Rightarrow> u8 list \<Rightarrow> nat \<Rightarrow> u32 \<times> u8 list \<times> nat" where
  "XXH32_finalize_words hash ptr len =
     (if 4 \<le> len
      then XXH32_finalize_words
             (XXH_rotl32 (hash + XXH_readLE32 ptr * XXH_PRIME32_3) 17 * XXH_PRIME32_4)
             (drop 4 ptr) (len - 4)
      else (hash, ptr, len))"

fun XXH32_finalize_bytes :: "u32 \<Rightarrow> u8 list \<Rightarrow> nat \<Rightarrow> u32" where
  "XXH32_finalize_bytes hash ptr 0 = hash"
| "XXH32_finalize_bytes hash ptr (Suc len) =
     XXH32_finalize_bytes (XXH_rotl32 (hash + ucast (ptr ! 0) * XXH_PRIME32_5) 11 * XXH_PRIME32_1)
       (drop 1 ptr) len"

definition XXH32_finalize :: "u32 \<Rightarrow> u8 list \<Rightarrow> nat \<Rightarrow> u32" where
  "XXH32_finalize hash ptr len =
     (let (hash, ptr, len) = XXH32_finalize_words hash ptr (len mod 16)
      in XXH32_avalanche (XXH32_finalize_bytes hash ptr len))"

type_synonym lanes32 = "u32 \<times> u32 \<times> u32 \<times> u32"

definition XXH32_lanes :: "u32 \<Rightarrow> lanes32" where
  "XXH32_lanes seed = (seed + XXH_PRIME32_1 + XXH_PRIME32_2, seed + XXH_PRIME32_2, seed + 0,
     seed - XXH_PRIME32_1)"

fun XXH32_stripe :: "lanes32 \<Rightarrow> u8 list \<Rightarrow> lanes32" where
  "XXH32_stripe (v1, v2, v3, v4) input =
     (XXH32_round v1 (XXH_readLE32 input), XXH32_round v2 (XXH_readLE32 (drop 4 input)),
      XXH32_round v3 (XXH_readLE32 (drop 8 input)), XXH32_round v4 (XXH_readLE32 (drop 12 input)))"

text \<open>\<^verbatim>\<open>do { ... } while (input < limit)\<close>: the body runs once and again while a whole stripe is
  left.\<close>

function XXH32_stripe_loop :: "lanes32 \<Rightarrow> u8 list \<Rightarrow> lanes32 \<times> u8 list" where
  "XXH32_stripe_loop v input =
     (let v = XXH32_stripe v input; rest = drop 16 input
      in if 16 \<le> length rest then XXH32_stripe_loop v rest else (v, rest))"
  by pat_completeness auto
termination
  by (relation "measure (\<lambda>(v, input). length input)") auto

fun XXH32_merge :: "lanes32 \<Rightarrow> u32" where
  "XXH32_merge (v1, v2, v3, v4) =
     XXH_rotl32 v1 1 + XXH_rotl32 v2 7 + XXH_rotl32 v3 12 + XXH_rotl32 v4 18"

definition XXH32_endian_align :: "u8 list \<Rightarrow> u32 \<Rightarrow> u32" where
  "XXH32_endian_align input seed =
     (let len = length input;
          (h32, rest) =
            (if 16 \<le> len
             then let (v, rest) = XXH32_stripe_loop (XXH32_lanes seed) input
                  in (XXH32_merge v, rest)
             else (seed + XXH_PRIME32_5, input))
      in XXH32_finalize (h32 + word_of_nat len) rest (len mod 16))"

definition XXH32 :: "u8 list \<Rightarrow> u32 \<Rightarrow> u32" where
  "XXH32 input seed = XXH32_endian_align input seed"

record XXH32_state =
  total_len_32 :: u32
  large_len :: bool
  v32 :: lanes32
  mem32 :: "u8 list"
  memsize32 :: nat

definition XXH32_reset :: "u32 \<Rightarrow> XXH32_state" where
  "XXH32_reset seed =
     \<lparr>total_len_32 = 0, large_len = False, v32 = XXH32_lanes seed, mem32 = replicate 16 0,
      memsize32 = 0\<rparr>"

definition XXH32_update :: "XXH32_state \<Rightarrow> u8 list \<Rightarrow> XXH32_state" where
  "XXH32_update st input =
     (let len = length input;
          st = st\<lparr>total_len_32 := total_len_32 st + word_of_nat len\<rparr>;
          st = st\<lparr>large_len := large_len st \<or> 16 \<le> len \<or> 16 \<le> total_len_32 st\<rparr>
      in if memsize32 st + len < 16
         then st\<lparr>mem32 := take (memsize32 st) (mem32 st) @ input @ drop (memsize32 st + len) (mem32 st),
                 memsize32 := memsize32 st + len\<rparr>
         else let (st, p) =
                (if memsize32 st \<noteq> 0
                 then let n = 16 - memsize32 st;
                          m = take (memsize32 st) (mem32 st) @ take n input
                      in (st\<lparr>mem32 := m, v32 := XXH32_stripe (v32 st) m, memsize32 := 0\<rparr>, drop n input)
                 else (st, input));
              (v, p) = (if 16 \<le> length p then XXH32_stripe_loop (v32 st) p else (v32 st, p));
              st = st\<lparr>v32 := v\<rparr>
          in if p \<noteq> []
             then st\<lparr>mem32 := p @ drop (length p) (mem32 st), memsize32 := length p\<rparr>
             else st)"

definition XXH32_digest :: "XXH32_state \<Rightarrow> u32" where
  "XXH32_digest st =
     (let h32 = (if large_len st then XXH32_merge (v32 st)
                 else fst (snd (snd (v32 st))) + XXH_PRIME32_5);
          h32 = h32 + total_len_32 st
      in XXH32_finalize h32 (mem32 st) (memsize32 st))"

definition XXH32_canonicalFromHash :: "u32 \<Rightarrow> u8 list" where
  "XXH32_canonicalFromHash hash = le_bytes 4 (XXH_swap32 hash)"

definition XXH32_hashFromCanonical :: "u8 list \<Rightarrow> u32" where
  "XXH32_hashFromCanonical src = XXH_readBE32 src"

section \<open>XXH64\<close>

abbreviation (input) XXH_PRIME64_1 :: u64 where "XXH_PRIME64_1 \<equiv> 0x9E3779B185EBCA87"
abbreviation (input) XXH_PRIME64_2 :: u64 where "XXH_PRIME64_2 \<equiv> 0xC2B2AE3D27D4EB4F"
abbreviation (input) XXH_PRIME64_3 :: u64 where "XXH_PRIME64_3 \<equiv> 0x165667B19E3779F9"
abbreviation (input) XXH_PRIME64_4 :: u64 where "XXH_PRIME64_4 \<equiv> 0x85EBCA77C2B2AE63"
abbreviation (input) XXH_PRIME64_5 :: u64 where "XXH_PRIME64_5 \<equiv> 0x27D4EB2F165667C5"

definition XXH64_round :: "u64 \<Rightarrow> u64 \<Rightarrow> u64" where
  "XXH64_round acc input = XXH_rotl64 (acc + input * XXH_PRIME64_2) 31 * XXH_PRIME64_1"

definition XXH64_mergeRound :: "u64 \<Rightarrow> u64 \<Rightarrow> u64" where
  "XXH64_mergeRound acc val = (acc XOR XXH64_round 0 val) * XXH_PRIME64_1 + XXH_PRIME64_4"

definition XXH64_avalanche :: "u64 \<Rightarrow> u64" where
  "XXH64_avalanche hash =
     (let hash = hash XOR drop_bit 33 hash; hash = hash * XXH_PRIME64_2;
          hash = hash XOR drop_bit 29 hash; hash = hash * XXH_PRIME64_3
      in hash XOR drop_bit 32 hash)"

fun XXH64_finalize_words :: "u64 \<Rightarrow> u8 list \<Rightarrow> nat \<Rightarrow> u64 \<times> u8 list \<times> nat" where
  "XXH64_finalize_words hash ptr len =
     (if 8 \<le> len
      then let k1 = XXH64_round 0 (XXH_readLE64 ptr); hash = hash XOR k1
           in XXH64_finalize_words (XXH_rotl64 hash 27 * XXH_PRIME64_1 + XXH_PRIME64_4)
                (drop 8 ptr) (len - 8)
      else (hash, ptr, len))"

fun XXH64_finalize_bytes :: "u64 \<Rightarrow> u8 list \<Rightarrow> nat \<Rightarrow> u64" where
  "XXH64_finalize_bytes hash ptr 0 = hash"
| "XXH64_finalize_bytes hash ptr (Suc len) =
     XXH64_finalize_bytes (XXH_rotl64 (hash XOR ucast (ptr ! 0) * XXH_PRIME64_5) 11 * XXH_PRIME64_1)
       (drop 1 ptr) len"

definition XXH64_finalize :: "u64 \<Rightarrow> u8 list \<Rightarrow> nat \<Rightarrow> u64" where
  "XXH64_finalize hash ptr len =
     (let (hash, ptr, len) = XXH64_finalize_words hash ptr (len mod 32);
          (hash, ptr, len) =
            (if 4 \<le> len
             then (XXH_rotl64 (hash XOR ucast (XXH_readLE32 ptr) * XXH_PRIME64_1) 23
                     * XXH_PRIME64_2 + XXH_PRIME64_3, drop 4 ptr, len - 4)
             else (hash, ptr, len))
      in XXH64_avalanche (XXH64_finalize_bytes hash ptr len))"

type_synonym lanes64 = "u64 \<times> u64 \<times> u64 \<times> u64"

definition XXH64_lanes :: "u64 \<Rightarrow> lanes64" where
  "XXH64_lanes seed = (seed + XXH_PRIME64_1 + XXH_PRIME64_2, seed + XXH_PRIME64_2, seed + 0,
     seed - XXH_PRIME64_1)"

fun XXH64_stripe :: "lanes64 \<Rightarrow> u8 list \<Rightarrow> lanes64" where
  "XXH64_stripe (v1, v2, v3, v4) input =
     (XXH64_round v1 (XXH_readLE64 input), XXH64_round v2 (XXH_readLE64 (drop 8 input)),
      XXH64_round v3 (XXH_readLE64 (drop 16 input)), XXH64_round v4 (XXH_readLE64 (drop 24 input)))"

function XXH64_stripe_loop :: "lanes64 \<Rightarrow> u8 list \<Rightarrow> lanes64 \<times> u8 list" where
  "XXH64_stripe_loop v input =
     (let v = XXH64_stripe v input; rest = drop 32 input
      in if 32 \<le> length rest then XXH64_stripe_loop v rest else (v, rest))"
  by pat_completeness auto
termination
  by (relation "measure (\<lambda>(v, input). length input)") auto

fun XXH64_merge :: "lanes64 \<Rightarrow> u64" where
  "XXH64_merge (v1, v2, v3, v4) =
     (let h64 = XXH_rotl64 v1 1 + XXH_rotl64 v2 7 + XXH_rotl64 v3 12 + XXH_rotl64 v4 18;
          h64 = XXH64_mergeRound h64 v1;
          h64 = XXH64_mergeRound h64 v2;
          h64 = XXH64_mergeRound h64 v3
      in XXH64_mergeRound h64 v4)"

definition XXH64_endian_align :: "u8 list \<Rightarrow> u64 \<Rightarrow> u64" where
  "XXH64_endian_align input seed =
     (let len = length input;
          (h64, rest) =
            (if 32 \<le> len
             then let (v, rest) = XXH64_stripe_loop (XXH64_lanes seed) input
                  in (XXH64_merge v, rest)
             else (seed + XXH_PRIME64_5, input))
      in XXH64_finalize (h64 + word_of_nat len) rest len)"

definition XXH64 :: "u8 list \<Rightarrow> u64 \<Rightarrow> u64" where
  "XXH64 input seed = XXH64_endian_align input seed"

record XXH64_state =
  total_len :: u64
  v64 :: lanes64
  mem64 :: "u8 list"
  memsize64 :: nat

definition XXH64_reset :: "u64 \<Rightarrow> XXH64_state" where
  "XXH64_reset seed =
     \<lparr>total_len = 0, v64 = XXH64_lanes seed, mem64 = replicate 32 0, memsize64 = 0\<rparr>"

definition XXH64_update :: "XXH64_state \<Rightarrow> u8 list \<Rightarrow> XXH64_state" where
  "XXH64_update st input =
     (let len = length input;
          st = st\<lparr>total_len := total_len st + word_of_nat len\<rparr>
      in if memsize64 st + len < 32
         then st\<lparr>mem64 := take (memsize64 st) (mem64 st) @ input @ drop (memsize64 st + len) (mem64 st),
                 memsize64 := memsize64 st + len\<rparr>
         else let (st, p) =
                (if memsize64 st \<noteq> 0
                 then let n = 32 - memsize64 st;
                          m = take (memsize64 st) (mem64 st) @ take n input
                      in (st\<lparr>mem64 := m, v64 := XXH64_stripe (v64 st) m, memsize64 := 0\<rparr>, drop n input)
                 else (st, input));
              (v, p) = (if 32 \<le> length p then XXH64_stripe_loop (v64 st) p else (v64 st, p));
              st = st\<lparr>v64 := v\<rparr>
          in if p \<noteq> []
             then st\<lparr>mem64 := p @ drop (length p) (mem64 st), memsize64 := length p\<rparr>
             else st)"

definition XXH64_digest :: "XXH64_state \<Rightarrow> u64" where
  "XXH64_digest st =
     (let h64 = (if 32 \<le> total_len st then XXH64_merge (v64 st)
                 else fst (snd (snd (v64 st))) + XXH_PRIME64_5);
          h64 = h64 + total_len st
      in XXH64_finalize h64 (mem64 st) (unat (total_len st)))"

definition XXH64_canonicalFromHash :: "u64 \<Rightarrow> u8 list" where
  "XXH64_canonicalFromHash hash = le_bytes 8 (XXH_swap64 hash)"

definition XXH64_hashFromCanonical :: "u8 list \<Rightarrow> u64" where
  "XXH64_hashFromCanonical src = XXH_readBE64 src"

declare XXH32_finalize_words.simps [simp del] XXH64_finalize_words.simps [simp del]
  XXH32_stripe_loop.simps [simp del] XXH64_stripe_loop.simps [simp del]

end
