(* ===== verification/Xxhash_Correct.thy ===== *)
theory Xxhash_Correct
  imports Xxhash
begin

text \<open>
  The streaming interface of the hash families computes the one-shot hash. Both families consume
  their input in stripes of fixed length; what they have in common is the locale
  \<open>stripe_hash\<close>, interpreted for XXH32 (16-byte stripes) and XXH64 (32-byte stripes).
\<close>

section \<open>Consuming a message stripe by stripe\<close>

text \<open>Reference: lanes after all whole stripes of a message, and the bytes left over.\<close>

function consume :: "('v \<Rightarrow> u8 list \<Rightarrow> 'v) \<Rightarrow> nat \<Rightarrow> 'v \<Rightarrow> u8 list \<Rightarrow> 'v \<times> u8 list" where
  "consume stripe n v bs =
     (if n = 0 \<or> length bs < n then (v, bs) else consume stripe n (stripe v bs) (drop n bs))"
  by pat_completeness auto
termination
  by (relation "measure (\<lambda>(stripe, n, v, bs). length bs)") auto

declare consume.simps [simp del]

locale stripe_hash =
  fixes stripe :: "'v \<Rightarrow> u8 list \<Rightarrow> 'v" and slen :: nat
  assumes slen_pos: "0 < slen"
    and stripe_local: "slen \<le> length xs \<Longrightarrow> stripe v (xs @ ys) = stripe v xs"
begin

lemma consume_short: "length bs < slen \<Longrightarrow> consume stripe slen v bs = (v, bs)"
  by (simp add: consume.simps [of stripe slen v bs])

lemma consume_long:
  "slen \<le> length bs \<Longrightarrow> consume stripe slen v bs = consume stripe slen (stripe v bs) (drop slen bs)"
  using slen_pos by (simp add: consume.simps [of stripe slen v bs])

lemma consume_rest_length:
  "consume stripe slen v bs = (v', r) \<Longrightarrow> length r = length bs mod slen"
proof (induction "length bs" arbitrary: v bs rule: less_induct)
  case less
  show ?case
  proof (cases "length bs < slen")
    case True
    with less.prems show ?thesis by (simp add: consume_short)
  next
    case False
    with less.prems have "consume stripe slen (stripe v bs) (drop slen bs) = (v', r)"
      by (simp add: consume_long)
    with False slen_pos have "length r = (length bs - slen) mod slen"
      using less.hyps [of "drop slen bs"] by simp
    with False show ?thesis by (simp add: le_mod_geq)
  qed
qed

lemma consume_append:
  "consume stripe slen v xs = (v', r) \<Longrightarrow> consume stripe slen v (xs @ ys) = consume stripe slen v' (r @ ys)"
proof (induction "length xs" arbitrary: v xs rule: less_induct)
  case less
  show ?case
  proof (cases "length xs < slen")
    case True
    with less.prems show ?thesis by (simp add: consume_short)
  next
    case False
    with less.prems have "consume stripe slen (stripe v xs) (drop slen xs) = (v', r)"
      by (simp add: consume_long)
    with False slen_pos have "consume stripe slen (stripe v xs) (drop slen xs @ ys) =
        consume stripe slen v' (r @ ys)"
      using less.hyps [of "drop slen xs"] by simp
    with False show ?thesis by (simp add: consume_long stripe_local)
  qed
qed

lemma consume_fill:
  "length m = slen \<Longrightarrow> consume stripe slen v (m @ ys) = consume stripe slen (stripe v m) ys"
  by (simp add: consume_long stripe_local)

end

subsection \<open>The two families satisfy the interface\<close>

lemma XXH_readLE32_local: "4 \<le> length xs \<Longrightarrow> XXH_readLE32 (xs @ ys) = XXH_readLE32 xs"
  by (auto simp: XXH_readLE32_def nth_append)

lemma XXH_readLE64_local: "8 \<le> length xs \<Longrightarrow> XXH_readLE64 (xs @ ys) = XXH_readLE64 xs"
  by (auto simp: XXH_readLE64_def nth_append)

interpretation x32: stripe_hash XXH32_stripe 16
proof
  show "XXH32_stripe v (xs @ ys) = XXH32_stripe v xs" if "16 \<le> length xs" for v xs ys
    using that by (cases v) (simp add: XXH_readLE32_local)
qed simp

interpretation x64: stripe_hash XXH64_stripe 32
proof
  show "XXH64_stripe v (xs @ ys) = XXH64_stripe v xs" if "32 \<le> length xs" for v xs ys
    using that by (cases v) (simp add: XXH_readLE64_local)
qed simp

lemma XXH32_stripe_loop_consume:
  "16 \<le> length input \<Longrightarrow> XXH32_stripe_loop v input = consume XXH32_stripe 16 v input"
proof (induction v input rule: XXH32_stripe_loop.induct)
  case (1 v input)
  then show ?case
    by (subst XXH32_stripe_loop.simps)
      (auto simp: Let_def x32.consume_long [of input] x32.consume_short not_le)
qed

lemma XXH64_stripe_loop_consume:
  "32 \<le> length input \<Longrightarrow> XXH64_stripe_loop v input = consume XXH64_stripe 32 v input"
proof (induction v input rule: XXH64_stripe_loop.induct)
  case (1 v input)
  then show ?case
    by (subst XXH64_stripe_loop.simps)
      (auto simp: Let_def x64.consume_long [of input] x64.consume_short not_le)
qed

lemmas XXH_loops = XXH32_stripe_loop_consume XXH64_stripe_loop_consume

subsection \<open>The finalisation reads only the announced bytes\<close>

lemma XXH32_finalize_words_append:
  "len \<le> length xs \<Longrightarrow> XXH32_finalize_words h xs len = (h', r, l) \<Longrightarrow>
   XXH32_finalize_words h (xs @ ys) len = (h', r @ ys, l) \<and> l \<le> length r"
proof (induction h xs len rule: XXH32_finalize_words.induct)
  case (1 hash ptr len)
  show ?case
  proof (cases "4 \<le> len")
    case True
    with "1" show ?thesis
      by (auto simp: XXH32_finalize_words.simps [of _ _ len] XXH_readLE32_local)
  next
    case False
    with "1.prems" have "h' = hash" "r = ptr" "l = len"
      by (simp_all add: XXH32_finalize_words.simps [of _ _ len])
    with False "1.prems" show ?thesis
      by (simp add: XXH32_finalize_words.simps [of hash "ptr @ ys" len])
  qed
qed

lemma XXH32_finalize_bytes_append:
  "len \<le> length xs \<Longrightarrow> XXH32_finalize_bytes h (xs @ ys) len = XXH32_finalize_bytes h xs len"
  by (induction h xs len rule: XXH32_finalize_bytes.induct) (auto simp: nth_append)

lemma XXH32_finalize_append:
  assumes "len mod 16 \<le> length xs"
  shows "XXH32_finalize h (xs @ ys) len = XXH32_finalize h xs len"
proof -
  obtain h' r l where w: "XXH32_finalize_words h xs (len mod 16) = (h', r, l)"
    by (cases "XXH32_finalize_words h xs (len mod 16)") auto
  from XXH32_finalize_words_append [OF assms w] w show ?thesis
    by (simp add: XXH32_finalize_def XXH32_finalize_bytes_append)
qed

lemma XXH64_finalize_words_append:
  "len \<le> length xs \<Longrightarrow> XXH64_finalize_words h xs len = (h', r, l) \<Longrightarrow>
   XXH64_finalize_words h (xs @ ys) len = (h', r @ ys, l) \<and> l \<le> length r"
proof (induction h xs len rule: XXH64_finalize_words.induct)
  case (1 hash ptr len)
  show ?case
  proof (cases "8 \<le> len")
    case True
    with "1" show ?thesis
      by (auto simp: XXH64_finalize_words.simps [of _ _ len] XXH_readLE64_local Let_def)
  next
    case False
    with "1.prems" have "h' = hash" "r = ptr" "l = len"
      by (simp_all add: XXH64_finalize_words.simps [of _ _ len])
    with False "1.prems" show ?thesis
      by (simp add: XXH64_finalize_words.simps [of hash "ptr @ ys" len])
  qed
qed

lemma XXH64_finalize_bytes_append:
  "len \<le> length xs \<Longrightarrow> XXH64_finalize_bytes h (xs @ ys) len = XXH64_finalize_bytes h xs len"
  by (induction h xs len rule: XXH64_finalize_bytes.induct) (auto simp: nth_append)

lemma XXH64_finalize_append:
  assumes "len mod 32 \<le> length xs"
  shows "XXH64_finalize h (xs @ ys) len = XXH64_finalize h xs len"
proof -
  obtain h' r l where w: "XXH64_finalize_words h xs (len mod 32) = (h', r, l)"
    by (cases "XXH64_finalize_words h xs (len mod 32)") auto
  have "XXH64_finalize_words h (xs @ ys) (len mod 32) = (h', r @ ys, l)" and "l \<le> length r"
    using XXH64_finalize_words_append [OF assms w] by simp_all
  with w show ?thesis
    by (simp add: XXH64_finalize_def XXH64_finalize_bytes_append XXH_readLE32_local)
qed

section \<open>The state represents the bytes fed so far\<close>

definition rep64 :: "u64 \<Rightarrow> XXH64_state \<Rightarrow> u8 list \<Rightarrow> bool" where
  "rep64 seed st bs \<longleftrightarrow>
     total_len st = word_of_nat (length bs) \<and> length (mem64 st) = 32 \<and> memsize64 st < 32 \<and>
     consume XXH64_stripe 32 (XXH64_lanes seed) bs = (v64 st, take (memsize64 st) (mem64 st))"

definition rep32 :: "u32 \<Rightarrow> XXH32_state \<Rightarrow> u8 list \<Rightarrow> bool" where
  "rep32 seed st bs \<longleftrightarrow>
     total_len_32 st = word_of_nat (length bs) \<and> (large_len st \<longleftrightarrow> 16 \<le> length bs) \<and>
     length (mem32 st) = 16 \<and> memsize32 st < 16 \<and>
     consume XXH32_stripe 16 (XXH32_lanes seed) bs = (v32 st, take (memsize32 st) (mem32 st))"

lemma rep64_reset: "rep64 seed (XXH64_reset seed) []"
  by (simp add: rep64_def XXH64_reset_def x64.consume_short)

lemma rep32_reset: "rep32 seed (XXH32_reset seed) []"
  by (simp add: rep32_def XXH32_reset_def x32.consume_short)

lemma rep64_update:
  assumes "rep64 seed st bs"
  shows "rep64 seed (XXH64_update st input) (bs @ input)"
proof -
  let ?m = "take (memsize64 st) (mem64 st)"
  let ?n = "32 - memsize64 st"
  have app: "consume XXH64_stripe 32 (XXH64_lanes seed) (bs @ input) =
      consume XXH64_stripe 32 (v64 st) (?m @ input)"
    using assms by (intro x64.consume_append) (simp add: rep64_def)
  show ?thesis
  proof (cases "memsize64 st + length input < 32")
    case True
    then show ?thesis
      using assms app by (simp add: rep64_def XXH64_update_def x64.consume_short Let_def)
  next
    case False
    obtain v' p where start: "(v', p) = (if memsize64 st = 0 then (v64 st, input)
        else (XXH64_stripe (v64 st) (?m @ take ?n input), drop ?n input))"
      by (cases "memsize64 st = 0") auto
    have "consume XXH64_stripe 32 (v64 st) (?m @ input) = consume XXH64_stripe 32 v' p"
    proof (cases "memsize64 st = 0")
      case False
      have "?m @ input = (?m @ take ?n input) @ drop ?n input" by simp
      moreover have "length (?m @ take ?n input) = 32"
        using assms \<open>\<not> memsize64 st + length input < 32\<close> by (simp add: rep64_def)
      ultimately show ?thesis using start False by (metis x64.consume_fill prod.inject)
    qed (use start in simp)
    moreover obtain v'' q where loop: "consume XXH64_stripe 32 v' p = (v'', q)" by fastforce
    moreover have "length q < 32"
      using x64.consume_rest_length [OF loop] by simp
    moreover have "q = []" if "p = []"
      using loop that by (simp add: x64.consume_short)
    ultimately show ?thesis
      using assms app False start
      by (auto simp: rep64_def XXH64_update_def Let_def XXH_loops x64.consume_short not_le
          split: if_splits prod.splits)
  qed
qed

lemma large_len_update:
  assumes "t32 = (word_of_nat n :: u32)" "large \<longleftrightarrow> 16 \<le> n"
  shows "(large \<or> 16 \<le> m \<or> 16 \<le> t32 + word_of_nat m) \<longleftrightarrow> 16 \<le> n + m"
proof (cases "16 \<le> n \<or> 16 \<le> m")
  case False
  then have "unat (t32 + word_of_nat m) = n + m"
    using assms(1) by (simp add: unat_of_nat flip: of_nat_add)
  with False assms(2) show ?thesis by (simp add: word_le_nat_alt)
qed (use assms(2) in auto)

lemma XXH32_update_frame:
  "total_len_32 (XXH32_update st input) = total_len_32 st + word_of_nat (length input)"
  "large_len (XXH32_update st input) \<longleftrightarrow>
     large_len st \<or> 16 \<le> length input \<or> 16 \<le> total_len_32 st + word_of_nat (length input)"
  by (simp_all add: XXH32_update_def Let_def split: prod.split)

lemma rep32_update:
  assumes "rep32 seed st bs"
  shows "rep32 seed (XXH32_update st input) (bs @ input)"
proof -
  let ?m = "take (memsize32 st) (mem32 st)"
  let ?n = "16 - memsize32 st"
  have app: "consume XXH32_stripe 16 (XXH32_lanes seed) (bs @ input) =
      consume XXH32_stripe 16 (v32 st) (?m @ input)"
    using assms by (intro x32.consume_append) (simp add: rep32_def)
  let ?u = "XXH32_update st input"
  have "large_len ?u \<longleftrightarrow> 16 \<le> length bs + length input"
    using assms by (simp add: XXH32_update_frame large_len_update rep32_def)
  moreover have "total_len_32 ?u = word_of_nat (length bs + length input)"
    using assms by (simp add: XXH32_update_frame rep32_def)
  moreover have "length (mem32 ?u) = 16 \<and> memsize32 ?u < 16 \<and>
      consume XXH32_stripe 16 (XXH32_lanes seed) (bs @ input) =
        (v32 ?u, take (memsize32 ?u) (mem32 ?u))"
  proof (cases "memsize32 st + length input < 16")
    case True
    then show ?thesis
      using assms app by (simp add: rep32_def XXH32_update_def x32.consume_short Let_def)
  next
    case False
    obtain v' p where start: "(v', p) = (if memsize32 st = 0 then (v32 st, input)
        else (XXH32_stripe (v32 st) (?m @ take ?n input), drop ?n input))"
      by (cases "memsize32 st = 0") auto
    have "consume XXH32_stripe 16 (v32 st) (?m @ input) = consume XXH32_stripe 16 v' p"
    proof (cases "memsize32 st = 0")
      case False
      have "?m @ input = (?m @ take ?n input) @ drop ?n input" by simp
      moreover have "length (?m @ take ?n input) = 16"
        using assms \<open>\<not> memsize32 st + length input < 16\<close> by (simp add: rep32_def)
      ultimately show ?thesis using start False by (metis x32.consume_fill prod.inject)
    qed (use start in simp)
    moreover obtain v'' q where loop: "consume XXH32_stripe 16 v' p = (v'', q)" by fastforce
    moreover have "length q < 16"
      using x32.consume_rest_length [OF loop] by simp
    moreover have "q = []" if "p = []"
      using loop that by (simp add: x32.consume_short)
    ultimately show ?thesis
      using assms app False start
      by (auto simp: rep32_def XXH32_update_def Let_def XXH_loops x32.consume_short not_le
          split: if_splits prod.splits)
  qed
  ultimately show ?thesis by (simp add: rep32_def)
qed

section \<open>The digest of the state\<close>

lemma XXH64_digest_rep:
  assumes "rep64 seed st bs" "length bs < 2 ^ 64"
  shows "XXH64_digest st = XXH64 bs seed"
proof -
  let ?m = "take (memsize64 st) (mem64 st)"
  have cons: "consume XXH64_stripe 32 (XXH64_lanes seed) bs = (v64 st, ?m)"
    and len: "unat (total_len st) = length bs"
    using assms by (simp_all add: rep64_def unat_of_nat)
  have "length bs mod 32 \<le> length ?m" using x64.consume_rest_length [OF cons] by simp
  then have fin: "XXH64_finalize h (mem64 st) (length bs) = XXH64_finalize h ?m (length bs)" for h
    using XXH64_finalize_append [of "length bs" ?m h "drop (memsize64 st) (mem64 st)"] by simp
  show ?thesis
  proof (cases "32 \<le> length bs")
    case True
    with cons len fin assms show ?thesis
      by (simp add: XXH64_digest_def XXH64_def XXH64_endian_align_def XXH_loops word_le_nat_alt
          rep64_def Let_def)
  next
    case False
    then have "v64 st = XXH64_lanes seed" "?m = bs"
      using cons by (simp_all add: x64.consume_short not_le)
    with False len fin assms show ?thesis
      by (simp add: XXH64_digest_def XXH64_def XXH64_endian_align_def word_le_nat_alt
          rep64_def Let_def XXH64_lanes_def)
  qed
qed

lemma XXH32_digest_rep:
  assumes "rep32 seed st bs"
  shows "XXH32_digest st = XXH32 bs seed"
proof -
  let ?m = "take (memsize32 st) (mem32 st)"
  have cons: "consume XXH32_stripe 16 (XXH32_lanes seed) bs = (v32 st, ?m)"
    and mem: "memsize32 st = length bs mod 16"
    using assms x32.consume_rest_length [of "XXH32_lanes seed" bs "v32 st" ?m]
    by (simp_all add: rep32_def)
  have fin: "XXH32_finalize h (mem32 st) (memsize32 st) = XXH32_finalize h ?m (length bs mod 16)" for h
    using XXH32_finalize_append [of "length bs mod 16" ?m h "drop (memsize32 st) (mem32 st)"] assms mem
    by (simp add: rep32_def)
  show ?thesis
  proof (cases "16 \<le> length bs")
    case True
    with cons fin assms show ?thesis
      by (simp add: XXH32_digest_def XXH32_def XXH32_endian_align_def XXH_loops rep32_def Let_def)
  next
    case False
    then have "v32 st = XXH32_lanes seed" "?m = bs"
      using cons by (simp_all add: x32.consume_short not_le)
    with False fin assms show ?thesis
      by (simp add: XXH32_digest_def XXH32_def XXH32_endian_align_def rep32_def Let_def
          XXH32_lanes_def)
  qed
qed

lemma rep64_fold: "rep64 seed st bs \<Longrightarrow>
   rep64 seed (fold (\<lambda>c s. XXH64_update s c) cs st) (bs @ concat cs)"
  by (induction cs arbitrary: st bs) (auto dest: rep64_update simp flip: append_assoc)

lemma rep32_fold: "rep32 seed st bs \<Longrightarrow>
   rep32 seed (fold (\<lambda>c s. XXH32_update s c) cs st) (bs @ concat cs)"
  by (induction cs arbitrary: st bs) (auto dest: rep32_update simp flip: append_assoc)

section \<open>Properties of the component\<close>

text \<open>C4: feeding a message to the XXH64 streaming interface in pieces of any sizes and taking the
  digest gives the one-shot \<^verbatim>\<open>XXH64\<close> of the whole message, for messages below $2^{64}$ bytes.\<close>

theorem XXH64_streaming:
  assumes "length (concat cs) < 2 ^ 64"
  shows "XXH64_digest (fold (\<lambda>c s. XXH64_update s c) cs (XXH64_reset seed)) = XXH64 (concat cs) seed"
  using XXH64_digest_rep [OF rep64_fold [OF rep64_reset]] assms by simp

theorem XXH64_streaming_witness:
  "XXH64_digest (fold (\<lambda>c s. XXH64_update s c) [[1, 2, 3], replicate 40 7, [9]] (XXH64_reset 5)) =
   XXH64 ([1, 2, 3] @ replicate 40 7 @ [9]) 5"
  using XXH64_streaming [of "[[1, 2, 3], replicate 40 7, [9]]" 5] by simp

text \<open>The same for XXH32, for messages of any length: the sticky \<^verbatim>\<open>large_len\<close> flag makes the
  digest right even after \<^verbatim>\<open>total_len_32\<close> has wrapped around.\<close>

theorem XXH32_streaming:
  "XXH32_digest (fold (\<lambda>c s. XXH32_update s c) cs (XXH32_reset seed)) = XXH32 (concat cs) seed"
  using XXH32_digest_rep [OF rep32_fold [OF rep32_reset]] by simp

end
