(* ===== verification/Chex.thy ===== *)
theory Chex
  imports Prelude
begin

text \<open>
  The hexadecimal codec of \<^verbatim>\<open>src/src/chex.h\<close>. The character predicates work on 32-bit
  \<^verbatim>\<open>unsigned\<close> values and truncate to \<^verbatim>\<open>unsigned char\<close> as the code does; the two loops
  write to a buffer with checked accesses. The loop counters are natural numbers: they stay
  at most \<^verbatim>\<open>blen\<close> and \<^verbatim>\<open>hlen\<close>, and \<^verbatim>\<open>j\<close> is even, so \<^verbatim>\<open>j+1\<close> never wraps.
\<close>

section \<open>Definitions\<close>

definition chex_isxdigit :: "u32 \<Rightarrow> bool" where
  "chex_isxdigit h =
     (let n09 = (ucast (h - 48) :: u8);
          nAF = (ucast ((h OR 0x20) - 97) :: u8)
      in n09 \<le> 9 - 0 \<or> nAF \<le> 0xf - 0xa)"

definition chex_toxdigit :: "u32 \<Rightarrow> char" where
  "chex_toxdigit nibble = ''0123456789abcdef'' ! unat (nibble AND 0xf)"

definition chex_fromxdigit :: "u32 \<Rightarrow> u8" where
  "chex_fromxdigit h = ucast ((h AND 0xf) + drop_bit 6 h * 9)"

text \<open>A \<^verbatim>\<open>char\<close> argument is promoted through \<^verbatim>\<open>int\<close>: it is sign extended.\<close>

definition promote_char :: "char \<Rightarrow> u32" where
  "promote_char c = scast (byte_of_char c)"

function chex_encode_loop :: "cmem \<Rightarrow> nat \<Rightarrow> u8 list \<Rightarrow> nat \<Rightarrow> nat \<Rightarrow> nat \<Rightarrow> (cmem \<times> nat) option" where
  "chex_encode_loop hex hlen b blen i j =
     (if i < blen \<and> j + 1 < hlen then do {
        x \<leftarrow> peek b i;
        hex \<leftarrow> poke hex (j + 0) (chex_toxdigit (ucast (drop_bit 4 x)));
        hex \<leftarrow> poke hex (j + 1) (chex_toxdigit (ucast x));
        chex_encode_loop hex hlen b blen (i + 1) (j + 2)
      } else Some (hex, j))"
  by pat_completeness auto

termination
  by (relation "measure (\<lambda>(_, _, _, blen, i, _). blen - i)") auto

definition chex_encode :: "cmem \<Rightarrow> nat \<Rightarrow> u8 list \<Rightarrow> nat \<Rightarrow> (cmem \<times> nat) option" where
  "chex_encode hex hlen bin blen = chex_encode_loop hex hlen bin blen 0 0"

function chex_decode_loop :: "u8 list \<Rightarrow> nat \<Rightarrow> cmem \<Rightarrow> nat \<Rightarrow> nat \<Rightarrow> nat \<Rightarrow> (u8 list \<times> nat) option" where
  "chex_decode_loop bin blen hex hlen i j =
     (if i < blen \<and> j + 1 < hlen then do {
        c0 \<leftarrow> peek hex (j + 0);
        c1 \<leftarrow> peek hex (j + 1);
        let hi = chex_fromxdigit (promote_char c0);
        let lo = chex_fromxdigit (promote_char c1);
        bin \<leftarrow> poke bin i (push_bit 4 hi OR lo);
        chex_decode_loop bin blen hex hlen (i + 1) (j + 2)
      } else Some (bin, i))"
  by pat_completeness auto

termination
  by (relation "measure (\<lambda>(_, blen, _, _, i, _). blen - i)") auto

definition chex_decode :: "u8 list \<Rightarrow> nat \<Rightarrow> cmem \<Rightarrow> nat \<Rightarrow> (u8 list \<times> nat) option" where
  "chex_decode bin blen hex hlen = chex_decode_loop bin blen hex hlen 0 0"

declare chex_encode_loop.simps [simp del] chex_decode_loop.simps [simp del]

section \<open>Reference functions\<close>

definition hex_of_byte :: "u8 \<Rightarrow> string" where
  "hex_of_byte x = [chex_toxdigit (ucast (drop_bit 4 x)), chex_toxdigit (ucast x)]"

definition hex_of :: "u8 list \<Rightarrow> string" where
  "hex_of bs = concat (map hex_of_byte bs)"

definition byte_of_hex :: "char \<Rightarrow> char \<Rightarrow> u8" where
  "byte_of_hex c0 c1 = push_bit 4 (chex_fromxdigit (promote_char c0)) OR chex_fromxdigit (promote_char c1)"

fun unhex :: "string \<Rightarrow> u8 list" where
  "unhex (c0 # c1 # cs) = byte_of_hex c0 c1 # unhex cs"
| "unhex cs = []"

section \<open>Digits\<close>

lemma hex_of_simps [simp]:
  "hex_of [] = []" "hex_of (x # xs) = hex_of_byte x @ hex_of xs"
  "hex_of (xs @ ys) = hex_of xs @ hex_of ys"
  by (simp_all add: hex_of_def)

lemma length_hex_of_byte [simp]: "length (hex_of_byte x) = 2"
  by (simp add: hex_of_byte_def)

lemma length_hex_of [simp]: "length (hex_of bs) = 2 * length bs"
  by (induction bs) simp_all

lemma digits_check:
  "list_all (\<lambda>n. let c = ''0123456789abcdef'' ! n
     in chex_fromxdigit (promote_char c) = word_of_nat n \<and> chex_isxdigit (promote_char c) \<and> c \<noteq> NUL) [0..<16]"
  by code_simp

lemma toxdigit_digit:
  "chex_fromxdigit (promote_char (chex_toxdigit w)) = ucast (w AND 0xf)
   \<and> chex_isxdigit (promote_char (chex_toxdigit w)) \<and> chex_toxdigit w \<noteq> NUL"
proof -
  have "w AND mask 4 < 2 ^ 4" by (rule and_mask_less') simp
  then have "unat (w AND 0xf) < 16" by (simp add: mask_eq_exp_minus_1 word_less_nat_alt)
  then show ?thesis
    using digits_check unfolding list_all_upt_iff Let_def chex_toxdigit_def by simp
qed

lemma nibbles_join: "push_bit 4 (ucast ((ucast (drop_bit 4 x) :: u32) AND 0xf)) OR ucast ((ucast x :: u32) AND 0xf) = (x :: u8)"
proof -
  have m: "(0xf :: u32) = mask 4" by (simp add: mask_eq_exp_minus_1)
  show ?thesis unfolding m by (rule bit_word_eqI) (auto simp: bit_simps)
qed

lemma digits_u8:
  "byte_of_hex (chex_toxdigit (ucast (drop_bit 4 x))) (chex_toxdigit (ucast x)) = x"
  by (simp add: byte_of_hex_def toxdigit_digit nibbles_join)

lemma unhex_hex_of [simp]: "unhex (hex_of bs) = bs"
  by (induction bs) (simp_all add: hex_of_byte_def digits_u8)

lemma hex_of_digits: "c \<in> set (hex_of bs) \<Longrightarrow> chex_isxdigit (promote_char c) \<and> c \<noteq> NUL"
  by (induction bs) (auto simp: hex_of_byte_def toxdigit_digit)

section \<open>The loops\<close>

lemma chex_encode_loop_eq:
  assumes "j = 2 * i" "i \<le> k" "k = min blen (hlen div 2)" "blen \<le> length b" "hlen \<le> length hex"
  shows "chex_encode_loop hex hlen b blen i j =
    Some (take j hex @ hex_of (take (k - i) (drop i b)) @ drop (2 * k) hex, 2 * k)"
  using assms
proof (induction hex hlen b blen i j rule: chex_encode_loop.induct)
  case (1 hex hlen b blen i j)
  show ?case
  proof (cases "i < blen \<and> j + 1 < hlen")
    case True
    then have ik: "i < k" and kl: "i < length b" "j + 1 < length hex" using 1(2-6) by auto
    let ?h = "hex[j := chex_toxdigit (ucast (drop_bit 4 (b ! i))), Suc j := chex_toxdigit (ucast (b ! i))]"
    have "chex_encode_loop ?h hlen b blen (i + 1) (j + 2) =
        Some (take (j + 2) ?h @ hex_of (take (k - (i + 1)) (drop (i + 1) b)) @ drop (2 * k) ?h, 2 * k)"
      by (rule "1.IH") (use True kl ik 1(2-6) in \<open>auto simp: peek_def poke_def\<close>)
    moreover have "take (j + 2) ?h = take j hex @ hex_of_byte (b ! i)"
      using kl by (simp add: hex_of_byte_def take_Suc_conv_app_nth)
    moreover have "drop (2 * k) ?h = drop (2 * k) hex" using ik 1(2) by simp
    moreover have "take (k - i) (drop i b) = b ! i # take (k - (i + 1)) (drop (i + 1) b)"
      using ik kl(1) by (simp add: drop_Suc_nth Suc_diff_Suc [symmetric])
    ultimately show ?thesis
      using True kl by (subst chex_encode_loop.simps) (simp add: peek_def poke_def)
  next
    case False
    then have "k = i" using 1(2-6) by (auto simp: min_def split: if_splits)
    with False 1(2) show ?thesis by (subst chex_encode_loop.simps) auto
  qed
qed

lemma chex_encode_eq:
  assumes "blen \<le> length b" "hlen \<le> length hex"
  shows "chex_encode hex hlen b blen =
    (let k = min blen (hlen div 2) in Some (hex_of (take k b) @ drop (2 * k) hex, 2 * k))"
  using chex_encode_loop_eq [of 0 0 _ blen hlen b hex] assms
  by (simp add: chex_encode_def Let_def)

lemma unhex_take_Suc:
  "j + 1 < length hex \<Longrightarrow> unhex (take (2 * Suc n) (drop j hex)) =
     byte_of_hex (hex ! j) (hex ! (j + 1)) # unhex (take (2 * n) (drop (j + 2) hex))"
  by (simp add: drop_Suc_nth [of j] drop_Suc_nth [of "Suc j"])

lemma chex_decode_loop_eq:
  assumes "j = 2 * i" "i \<le> k" "k = min blen (hlen div 2)" "blen \<le> length bin" "hlen \<le> length hex"
  shows "chex_decode_loop bin blen hex hlen i j =
    Some (take i bin @ unhex (take (2 * (k - i)) (drop j hex)) @ drop k bin, k)"
  using assms
proof (induction bin blen hex hlen i j rule: chex_decode_loop.induct)
  case (1 bin blen hex hlen i j)
  show ?case
  proof (cases "i < blen \<and> j + 1 < hlen")
    case True
    then have ik: "i < k" and kl: "i < length bin" "j + 1 < length hex" using 1(2-6) by auto
    let ?b = "bin[i := byte_of_hex (hex ! j) (hex ! (j + 1))]"
    have "chex_decode_loop ?b blen hex hlen (i + 1) (j + 2) =
        Some (take (i + 1) ?b @ unhex (take (2 * (k - (i + 1))) (drop (j + 2) hex)) @ drop k ?b, k)"
      by (rule "1.IH") (use True kl ik 1(2-6) in \<open>auto simp: peek_def poke_def byte_of_hex_def\<close>)
    moreover have "take (i + 1) ?b = take i bin @ [byte_of_hex (hex ! j) (hex ! (j + 1))]"
      using kl by (simp add: take_Suc_conv_app_nth)
    moreover have "drop k ?b = drop k bin" using ik by simp
    moreover have "unhex (take (2 * (k - i)) (drop j hex)) =
        byte_of_hex (hex ! j) (hex ! (j + 1)) # unhex (take (2 * (k - (i + 1))) (drop (j + 2) hex))"
      using unhex_take_Suc [OF kl(2), of "k - (i + 1)"] ik by (simp add: Suc_diff_Suc)
    ultimately show ?thesis
      using True kl by (subst chex_decode_loop.simps) (simp add: peek_def poke_def byte_of_hex_def)
  next
    case False
    then have "k = i" using 1(2-6) by (auto simp: min_def split: if_splits)
    with False show ?thesis by (subst chex_decode_loop.simps) auto
  qed
qed

lemma chex_decode_eq:
  assumes "blen \<le> length bin" "hlen \<le> length hex"
  shows "chex_decode bin blen hex hlen =
    (let k = min blen (hlen div 2) in Some (unhex (take (2 * k) hex) @ drop k bin, k))"
  using chex_decode_loop_eq [of 0 0 _ blen hlen bin hex] assms
  by (simp add: chex_decode_def Let_def)

section \<open>Properties of the component\<close>

text \<open>C13: for every buffer size, encoding writes as many whole bytes as fit, touches nothing past
  them, and decoding what was written into a buffer of at least that many bytes returns exactly
  the bytes that were encoded and their number; no access is outside a buffer.\<close>

theorem chex_roundtrip:
  assumes "length b < 2 ^ 32" "length hex < 2 ^ 32" "min (length b) (length hex div 2) \<le> length out"
  shows "\<exists>hex' n. chex_encode hex (length hex) b (length b) = Some (hex', n)
    \<and> n = 2 * min (length b) (length hex div 2)
    \<and> drop n hex' = drop n hex
    \<and> (\<forall>c \<in> set (take n hex'). chex_isxdigit (promote_char c))
    \<and> chex_decode out (length out) hex' n =
        Some (take (n div 2) b @ drop (n div 2) out, n div 2)"
proof -
  let ?k = "min (length b) (length hex div 2)"
  let ?h = "hex_of (take ?k b) @ drop (2 * ?k) hex"
  have lh: "length (hex_of (take ?k b)) = 2 * ?k" by simp
  have "chex_encode hex (length hex) b (length b) = Some (?h, 2 * ?k)"
    by (simp add: chex_encode_eq Let_def)
  moreover have "chex_decode out (length out) ?h (2 * ?k) = Some (take ?k b @ drop ?k out, ?k)"
  proof -
    have "min (length out) ?k = ?k" using assms(3) by simp
    moreover have "2 * ?k \<le> length ?h" by (subst length_append) simp
    ultimately show ?thesis by (simp add: chex_decode_eq Let_def)
  qed
  moreover have "take (2 * ?k) ?h = hex_of (take ?k b)" "drop (2 * ?k) ?h = drop (2 * ?k) hex"
    by simp_all
  ultimately show ?thesis by (auto dest: hex_of_digits)
qed

theorem chex_roundtrip_witness:
  "\<exists>hex' n. chex_encode (replicate 7 NUL) 7 (replicate 2 0x5a @ replicate 2 0xff) 4 = Some (hex', n) \<and> n = 6
    \<and> chex_decode (replicate 5 9) 5 hex' n = Some (replicate 2 0x5a @ [0xff] @ replicate 2 9, 3)"
  using chex_roundtrip [of "replicate 2 0x5a @ replicate 2 0xff" "replicate 7 NUL" "replicate 5 9"]
  by auto

end
