(* ===== verification/Node.thy ===== *)
theory Node
  imports Prelude
begin

text \<open>
  The machine node of \<^verbatim>\<open>src/src/node.c\<close>. A \<^verbatim>\<open>kxnode\<close> is its 67 bytes (\<^verbatim>\<open>ip\<close> at 0,
  \<^verbatim>\<open>mac\<close> at 16, \<^verbatim>\<open>uuid\<close> at 34; no padding, all members are \<^verbatim>\<open>char\<close> arrays), so that the
  writes at index \<^verbatim>\<open>size\<close> land where the code puts them: in the next member, or outside the
  object. What the operating system answers is a record of the environment; what the
  allocator hands out is a function from sizes to bytes.
\<close>

section \<open>Data\<close>

type_synonym kxnode = cmem

abbreviation (input) MAX_IP_LENGTH :: nat where "MAX_IP_LENGTH \<equiv> 16"
abbreviation (input) MAX_MAC_LENGTH :: nat where "MAX_MAC_LENGTH \<equiv> 18"
abbreviation (input) MAX_UUID_LENGTH :: nat where "MAX_UUID_LENGTH \<equiv> 33"

abbreviation (input) ip_off :: nat where "ip_off \<equiv> 0"
abbreviation (input) mac_off :: nat where "mac_off \<equiv> 16"
abbreviation (input) uuid_off :: nat where "uuid_off \<equiv> 34"
abbreviation (input) sizeof_kxnode :: nat where "sizeof_kxnode \<equiv> 67"

datatype family = AF_INET | AF_other

text \<open>One entry of the interface list: its address, when it has one, with what
  \<^verbatim>\<open>getnameinfo\<close> answers for it (\<open>None\<close> when it fails).\<close>

record ifaddr =
  ifa_addr :: "(family \<times> string option) option"

record node_env =
  getifaddrs :: "ifaddr list option"
  socket_ok :: bool
  hwaddr :: "u8 list option"
  machine_id :: "cmem option"

section \<open>Operations\<close>

fun first_ipaddr :: "ifaddr list \<Rightarrow> string" where
  "first_ipaddr [] = ''unknow''"
| "first_ipaddr (ifa # rest) =
     (case ifa_addr ifa of
        None \<Rightarrow> first_ipaddr rest
      | Some (family, s) \<Rightarrow>
          if family = AF_INET then
            (case s of
               None \<Rightarrow> ''unknow''
             | Some host \<Rightarrow> if take 4 host \<noteq> ''127.'' then host else first_ipaddr rest)
          else first_ipaddr rest)"

definition kx_get_ipaddr :: "node_env \<Rightarrow> cmem \<Rightarrow> nat \<Rightarrow> nat \<Rightarrow> (cmem \<times> int) option" where
  "kx_get_ipaddr env m ip sz =
     (case getifaddrs env of
        None \<Rightarrow> do {
          m \<leftarrow> strncpy m ip ''unknow'' (sz - 1);
          m \<leftarrow> poke m (ip + sz) NUL;
          Some (m, 0)
        }
      | Some ifaddr \<Rightarrow> do {
          m \<leftarrow> strncpy m ip (first_ipaddr ifaddr) (sz - 1);
          m \<leftarrow> poke m (ip + sz) NUL;
          Some (m, 0)
        })"

definition hex_upper :: "nat \<Rightarrow> char" where
  "hex_upper n = ''0123456789ABCDEF'' ! n"

definition fmt_02X :: "u8 \<Rightarrow> string" where
  "fmt_02X b = [hex_upper (unat b div 16), hex_upper (unat b mod 16)]"

definition fmt_mac :: "u8 list \<Rightarrow> string" where
  "fmt_mac a = fmt_02X (a ! 0) @ '':'' @ fmt_02X (a ! 1) @ '':'' @ fmt_02X (a ! 2) @ '':''
     @ fmt_02X (a ! 3) @ '':'' @ fmt_02X (a ! 4) @ '':'' @ fmt_02X (a ! 5)"

definition kx_get_mac :: "node_env \<Rightarrow> cmem \<Rightarrow> nat \<Rightarrow> nat \<Rightarrow> (cmem \<times> int) option" where
  "kx_get_mac env m mac sz =
     (if \<not> socket_ok env then do {
        m \<leftarrow> snprintf m mac sz ''unkown'';
        Some (m, 0)
      } else
        (case hwaddr env of
           None \<Rightarrow> do {
             m \<leftarrow> snprintf m mac sz ''unkown'';
             Some (m, 0)
           }
         | Some sa_data \<Rightarrow> do {
             m \<leftarrow> snprintf m mac sz (fmt_mac (take 6 sa_data));
             Some (m, 0)
           }))"

definition kx_get_sysuuid :: "node_env \<Rightarrow> cmem \<Rightarrow> nat \<Rightarrow> nat \<Rightarrow> (cmem \<times> int) option" where
  "kx_get_sysuuid env m uuid sz =
     (case machine_id env of
        None \<Rightarrow> do {
          m \<leftarrow> strncpy m uuid ''unknow'' (sz - 1);
          m \<leftarrow> poke m (uuid + sz) NUL;
          Some (m, -1)
        }
      | Some content \<Rightarrow> do {
          let bytes = length (take (sz - 1) content);
          m \<leftarrow> blit m uuid (take (sz - 1) content);
          if bytes > 0 then do {
            m \<leftarrow> poke m (uuid + bytes) NUL;
            Some (m, 0)
          } else do {
            m \<leftarrow> strncpy m uuid ''unknow'' (sz - 1);
            m \<leftarrow> poke m (uuid + sz) NUL;
            Some (m, -1)
          }
        })"

definition kx_creat_node :: "node_env \<Rightarrow> (nat \<Rightarrow> cmem) \<Rightarrow> kxnode option" where
  "kx_creat_node env zmalloc = do {
     let gnode = zmalloc sizeof_kxnode;
     (gnode, _) \<leftarrow> kx_get_ipaddr env gnode ip_off MAX_IP_LENGTH;
     (gnode, _) \<leftarrow> kx_get_mac env gnode mac_off MAX_MAC_LENGTH;
     (gnode, _) \<leftarrow> kx_get_sysuuid env gnode uuid_off MAX_UUID_LENGTH;
     Some gnode
   }"

section \<open>What the fields hold\<close>

definition node_ip :: "node_env \<Rightarrow> string" where
  "node_ip env = (case getifaddrs env of None \<Rightarrow> ''unknow'' | Some l \<Rightarrow> first_ipaddr l)"

definition node_mac :: "node_env \<Rightarrow> string" where
  "node_mac env = (case hwaddr env of Some a \<Rightarrow> if socket_ok env then fmt_mac a else ''unkown'' | None \<Rightarrow> ''unkown'')"

lemma hex_upper_not_NUL: "n < 16 \<Longrightarrow> hex_upper n \<noteq> NUL"
proof -
  assume "n < 16"
  moreover have "list_all (\<lambda>n. hex_upper n \<noteq> NUL) [0..<16]" by code_simp
  ultimately show ?thesis by (simp add: list_all_iff)
qed

lemma fmt_02X_cstring: "NUL \<notin> set (fmt_02X b)"
proof -
  have "unat b < 256" using unsigned_less [of b, where ?'a = nat] by simp
  then show ?thesis
    by (auto simp: fmt_02X_def dest!: sym [of NUL] simp: hex_upper_not_NUL)
qed

lemma length_node_mac: "length (node_mac env) < MAX_MAC_LENGTH"
  by (simp add: node_mac_def fmt_mac_def fmt_02X_def split: option.splits)

lemma is_cstring_node_mac: "is_cstring (node_mac env)"
  using fmt_02X_cstring
  by (auto simp: node_mac_def fmt_mac_def is_cstring_def NUL_def split: option.splits)

lemma kx_get_ipaddr_eq:
  assumes "length m = sizeof_kxnode"
  shows "kx_get_ipaddr env m ip_off MAX_IP_LENGTH =
    Some (strncpy_bytes (node_ip env) 15 @ m ! 15 # NUL # drop 17 m, 0)"
proof -
  have "drop 15 m = m ! 15 # m ! 16 # drop 17 m" using assms drop_Suc_nth [of 15 m] drop_Suc_nth [of 16 m] by simp
  then show ?thesis
    using assms
    by (simp add: kx_get_ipaddr_def node_ip_def strncpy_def blit_def poke_def list_update_append split: option.splits)
qed

lemma kx_get_mac_eq:
  assumes "length m = sizeof_kxnode" "\<forall>a. hwaddr env = Some a \<longrightarrow> 6 \<le> length a"
  shows "kx_get_mac env m mac_off MAX_MAC_LENGTH =
    Some (take 16 m @ node_mac env @ NUL # drop (17 + length (node_mac env)) m, 0)"
proof -
  have "fmt_mac (take 6 a) = fmt_mac a" for a by (simp add: fmt_mac_def)
  then show ?thesis
    using assms length_node_mac [of env]
    by (auto simp: kx_get_mac_def node_mac_def snprintf_def blit_def split: option.splits)
qed

lemma kx_get_sysuuid_eq:
  assumes "length m = sizeof_kxnode" "machine_id env = Some content" "content \<noteq> []"
  shows "kx_get_sysuuid env m uuid_off MAX_UUID_LENGTH =
    Some (take 34 m @ take 32 content @ NUL # drop (35 + min 32 (length content)) m, 0)"
proof -
  let ?n = "min 32 (length content)"
  have "drop (34 + ?n) m = m ! (34 + ?n) # drop (35 + ?n) m"
    using assms(1) drop_Suc_nth [of "34 + ?n" m] by (simp add: add.commute)
  then show ?thesis
    using assms
    by (simp add: kx_get_sysuuid_def blit_def poke_def list_update_append Let_def min.commute)
qed

lemma kx_creat_node_layout:
  assumes "length (zmalloc sizeof_kxnode) = sizeof_kxnode"
    and "\<forall>a. hwaddr env = Some a \<longrightarrow> 6 \<le> length a"
    and "machine_id env = Some content" "content \<noteq> []"
  obtains rest0 rest1 where
    "kx_creat_node env zmalloc =
       Some (strncpy_bytes (node_ip env) 15 @ zmalloc sizeof_kxnode ! 15 # node_mac env @ NUL # rest0
         @ take 32 content @ NUL # rest1)"
    "length rest0 = 17 - length (node_mac env)"
    "length rest1 = 32 - min 32 (length content)"
proof -
  let ?j = "zmalloc sizeof_kxnode"
  let ?m1 = "strncpy_bytes (node_ip env) 15 @ ?j ! 15 # NUL # drop 17 ?j"
  let ?h = "strncpy_bytes (node_ip env) 15 @ ?j ! 15 # node_mac env @ [NUL]"
  let ?m2 = "?h @ drop (17 + length (node_mac env)) ?m1"
  have l1: "length ?m1 = sizeof_kxnode" using assms(1) by simp
  have l2: "length ?m2 = sizeof_kxnode" using l1 length_node_mac [of env] by simp
  let ?r0 = "take (17 - length (node_mac env)) (drop (17 + length (node_mac env)) ?m1)"
  let ?r1 = "drop (35 + min 32 (length content)) ?m2"
  have "take 16 ?m1 = strncpy_bytes (node_ip env) 15 @ [?j ! 15]" by simp
  then have "kx_creat_node env zmalloc =
      Some (take 34 ?m2 @ take 32 content @ NUL # ?r1)"
    using kx_get_ipaddr_eq [OF assms(1), of env] kx_get_mac_eq [OF l1 assms(2)]
      kx_get_sysuuid_eq [OF l2 assms(3,4)]
    by (simp add: kx_creat_node_def)
  moreover have "take 34 ?m2 = ?h @ ?r0"
    using length_node_mac [of env] by (simp add: take_Cons')
  moreover have "length ?r0 = 17 - length (node_mac env)" using l1 length_node_mac [of env] by simp
  moreover have "length ?r1 = 32 - min 32 (length content)" using l2 by simp
  ultimately show thesis by (intro that [of ?r0 ?r1]) simp_all
qed

section \<open>Properties of the component\<close>


abbreviation sample_env :: node_env where
  "sample_env \<equiv> \<lparr>getifaddrs = Some [\<lparr>ifa_addr = Some (AF_INET, Some ''127.0.0.1'')\<rparr>,
      \<lparr>ifa_addr = None\<rparr>, \<lparr>ifa_addr = Some (AF_INET, Some ''10.0.0.7'')\<rparr>],
    socket_ok = True, hwaddr = Some [0, 0x1A, 0x2B, 0x3C, 0x4D, 0x5E], machine_id = Some ''a1b2c3d4''\<rparr>"


text \<open>When \<^verbatim>\<open>/etc/machine-id\<close> cannot be opened or is empty, \<^verbatim>\<open>uuid[size]\<close> writes one byte
  past the end of the node: the run makes an access outside the object.\<close>

theorem kx_creat_node_no_machine_id:
  assumes "length (zmalloc sizeof_kxnode) = sizeof_kxnode"
    and "\<forall>a. hwaddr env = Some a \<longrightarrow> 6 \<le> length a"
    and "machine_id env = None \<or> machine_id env = Some []"
  shows "kx_creat_node env zmalloc = None"
proof -
  have "kx_get_sysuuid env m uuid_off MAX_UUID_LENGTH = None" if "length m = sizeof_kxnode" for m
    using that assms(3) by (auto simp: kx_get_sysuuid_def strncpy_def blit_def poke_def)
  then show ?thesis
    using assms(1) kx_get_mac_eq [OF _ assms(2)] length_node_mac [of env]
    by (simp add: kx_creat_node_def kx_get_ipaddr_eq [OF assms(1)])
qed

theorem kx_creat_node_no_machine_id_witness:
  "kx_creat_node (sample_env\<lparr>machine_id := None\<rparr>) (\<lambda>n. replicate n NUL) = None"
  by (rule kx_creat_node_no_machine_id) simp_all

text \<open>An address of 15 characters, the longest dotted quad, fills the ip field up to its last
  byte, which keeps what the allocator left there; unless that byte is zero, reading the field
  runs on into the mac address.\<close>

theorem kx_creat_node_long_ip:
  assumes "length (zmalloc sizeof_kxnode) = sizeof_kxnode"
    and "\<forall>a. hwaddr env = Some a \<longrightarrow> 6 \<le> length a"
    and "machine_id env = Some content" "content \<noteq> []"
    and "is_cstring (node_ip env)" "length (node_ip env) = 15"
    and "zmalloc sizeof_kxnode ! 15 \<noteq> NUL"
  shows "\<exists>n. kx_creat_node env zmalloc = Some n
    \<and> cstr n ip_off = Some (node_ip env @ [zmalloc sizeof_kxnode ! 15] @ node_mac env)"
proof -
  obtain rest0 rest1 where eq: "kx_creat_node env zmalloc =
       Some (strncpy_bytes (node_ip env) 15 @ zmalloc sizeof_kxnode ! 15 # node_mac env @ NUL # rest0
         @ take 32 content @ NUL # rest1)"
    by (rule kx_creat_node_layout [where zmalloc = zmalloc, OF assms(1-4)])
  have "strncpy_bytes (node_ip env) 15 = node_ip env" using assms(6) by (simp add: strncpy_bytes_def)
  moreover have "is_cstring (node_ip env @ [zmalloc sizeof_kxnode ! 15] @ node_mac env)"
    using assms(5,7) is_cstring_node_mac [of env] by (auto simp: is_cstring_def)
  ultimately show ?thesis using eq cstr_append by fastforce
qed

theorem kx_creat_node_long_ip_witness:
  "\<exists>n. kx_creat_node (sample_env\<lparr>getifaddrs := Some [\<lparr>ifa_addr = Some (AF_INET, Some ''192.168.100.200'')\<rparr>]\<rparr>)
         (\<lambda>n. replicate n (CHR ''x'')) = Some n
    \<and> cstr n ip_off = Some (''192.168.100.200x'' @ ''00:1A:2B:3C:4D:5E'')"
proof -
  let ?env = "sample_env\<lparr>getifaddrs := Some [\<lparr>ifa_addr = Some (AF_INET, Some ''192.168.100.200'')\<rparr>]\<rparr>"
  have "node_ip ?env = ''192.168.100.200''" by (simp add: node_ip_def)
  moreover have "node_mac ?env = ''00:1A:2B:3C:4D:5E''"
    by (simp add: node_mac_def fmt_mac_def fmt_02X_def hex_upper_def)
  ultimately show ?thesis
    using kx_creat_node_long_ip [of "\<lambda>n. replicate n (CHR ''x'')" ?env "''a1b2c3d4''"]
    by (auto simp: is_cstring_def NUL_def)
qed

end
