(* ===== verification/User.thy ===== *)
theory User
  imports Node Chex Aes_Correct
begin

text \<open>
  The user object of \<^verbatim>\<open>src/src/user.c\<close> and the derivation of the user's key. The three
  \<^verbatim>\<open>char\<close> arrays at the front of \<^verbatim>\<open>kxuser\<close> are one run of 101 bytes (\<^verbatim>\<open>username\<close> at 0,
  \<^verbatim>\<open>pwd\<close> at 32, \<^verbatim>\<open>trustid\<close> at 64), because the code writes a terminator at index
  \<^verbatim>\<open>sizeof\<close> of an array, which is the first byte of the next one; the members behind
  them are fields of the record.
\<close>

section \<open>Data\<close>

abbreviation (input) username_off :: nat where "username_off \<equiv> 0"
abbreviation (input) pwd_off :: nat where "pwd_off \<equiv> 32"
abbreviation (input) trustid_off :: nat where "trustid_off \<equiv> 64"
abbreviation (input) sizeof_kxuser :: nat where "sizeof_kxuser \<equiv> 128"

record kxuser =
  chars :: cmem
  isonline :: int
  node :: "kxnode option"
  key :: "u8 list"

section \<open>Key derivation\<close>

definition is_space :: "char \<Rightarrow> bool" where
  "is_space c \<longleftrightarrow> c \<in> {CHR '' '', CHR 0x09, CHR 0x0A, CHR 0x0B, CHR 0x0C, CHR 0x0D}"

definition hex_digit_val :: "char \<Rightarrow> nat" where
  "hex_digit_val c = unat (chex_fromxdigit (promote_char c))"

text \<open>\<^verbatim>\<open>sscanf(s, "%02hhx", p)\<close>: leading white space is skipped, at most two characters are read
  (an optional sign, then hexadecimal digits), the value is stored modulo 256. Without a digit
  nothing is stored.\<close>

definition sscanf_02hhx :: "string \<Rightarrow> u8 option" where
  "sscanf_02hhx s =
     (let t = take 2 (dropWhile is_space s);
          neg = (t \<noteq> [] \<and> hd t = CHR ''-'');
          u = (if t \<noteq> [] \<and> hd t \<in> {CHR ''-'', CHR ''+''} then tl t else t);
          ds = takeWhile (\<lambda>c. chex_isxdigit (promote_char c)) u;
          v = foldl (\<lambda>a c. 16 * a + hex_digit_val c) 0 ds
      in if ds = [] then None else Some (if neg then - word_of_nat v else word_of_nat v))"

function creat_key_loop :: "cmem \<Rightarrow> u8 list \<Rightarrow> nat \<Rightarrow> nat \<Rightarrow> u8 list option" where
  "creat_key_loop hex k len i =
     (if i < len then do {
        s \<leftarrow> cstr hex (2 * i);
        k \<leftarrow> (case sscanf_02hhx s of None \<Rightarrow> Some k | Some v \<Rightarrow> poke k i v);
        creat_key_loop hex k len (i + 1)
      } else Some k)"
  by pat_completeness auto

termination
  by (relation "measure (\<lambda>(_, _, len, i). len - i)") auto

declare creat_key_loop.simps [simp del]

definition kx_user_creat_key :: "(nat \<Rightarrow> cmem) \<Rightarrow> kxuser \<Rightarrow> kxuser option" where
  "kx_user_creat_key zmalloc user = do {
     let str = replicate 64 NUL;
     let hex = replicate 128 NUL;
     n \<leftarrow> node user;
     uuid \<leftarrow> cstr n uuid_off;
     username \<leftarrow> cstr (chars user) username_off;
     str \<leftarrow> snprintf str 0 64 (uuid @ username);
     s \<leftarrow> cstr str 0;
     (hex, _) \<leftarrow> chex_encode hex 128 (map byte_of_char str) (length s);
     h \<leftarrow> cstr hex 0;
     let len = length h div 2;
     let k = map byte_of_char (zmalloc len);
     k \<leftarrow> creat_key_loop hex k len 0;
     Some (user\<lparr>key := k\<rparr>)
   }"

definition kx_creat_user :: "(nat \<Rightarrow> cmem) \<Rightarrow> kxnode option \<Rightarrow> string \<Rightarrow> string \<Rightarrow> kxuser option" where
  "kx_creat_user zmalloc gnode name pwd = do {
     let m = take 101 (zmalloc sizeof_kxuser);
     m \<leftarrow> strncpy m username_off name 31;
     m \<leftarrow> poke m (username_off + 32) NUL;
     m \<leftarrow> strncpy m pwd_off pwd 31;
     m \<leftarrow> poke m (pwd_off + 32) NUL;
     m \<leftarrow> memset m trustid_off NUL 37;
     kx_user_creat_key zmalloc \<lparr>chars = m, isonline = 0, node = gnode, key = []\<rparr>
   }"

section \<open>Lemmas\<close>

lemma toxdigit_plain:
  "\<not> is_space (chex_toxdigit w) \<and> chex_toxdigit w \<noteq> CHR ''-'' \<and> chex_toxdigit w \<noteq> CHR ''+''"
proof -
  have "list_all (\<lambda>n. \<not> is_space (''0123456789abcdef'' ! n)
      \<and> ''0123456789abcdef'' ! n \<noteq> CHR ''-'' \<and> ''0123456789abcdef'' ! n \<noteq> CHR ''+'') [0..<16]"
    by code_simp
  moreover have "unat (w AND 0xf) < 16"
  proof -
    have "w AND mask 4 < 2 ^ 4" by (rule and_mask_less') simp
    then show ?thesis by (simp add: mask_eq_exp_minus_1 word_less_nat_alt)
  qed
  ultimately show ?thesis by (simp add: list_all_upt_iff chex_toxdigit_def)
qed

lemma sscanf_hex_of_byte: "sscanf_02hhx (hex_of_byte x @ rest) = Some x"
proof -
  define hi lo :: u8 where "hi = ucast ((ucast (drop_bit 4 x) :: u32) AND 0xf)"
    and "lo = ucast ((ucast x :: u32) AND 0xf)"
  have m: "(0xf :: u32) = mask 4" by (simp add: mask_eq_exp_minus_1)
  have "push_bit 4 hi + lo = push_bit 4 hi OR lo"
    by (rule disjunctive_add) (auto simp: hi_def lo_def m bit_simps)
  also have "\<dots> = x" by (simp add: hi_def lo_def nibbles_join)
  finally have "16 * hi + lo = x" by (simp add: push_bit_eq_mult mult.commute)
  then show ?thesis
    using toxdigit_plain
    by (simp add: sscanf_02hhx_def hex_of_byte_def Let_def toxdigit_digit hex_digit_val_def hi_def lo_def)
qed

lemma hex_of_cstring: "is_cstring (hex_of bs)"
  using hex_of_digits by (auto simp: is_cstring_def)

lemma drop_hex_of: "drop (2 * i) (hex_of bs) = hex_of (drop i bs)"
proof (induction bs arbitrary: i)
  case (Cons b bs)
  then show ?case by (cases i) (simp_all add: hex_of_byte_def)
qed simp

lemma creat_key_loop_eq:
  assumes "i \<le> length bs" "length k = length bs"
  shows "creat_key_loop (hex_of bs @ NUL # rest) k (length bs) i = Some (take i k @ drop i bs)"
  using assms
proof (induction "length bs - i" arbitrary: i k)
  case 0
  then show ?case by (simp add: creat_key_loop.simps)
next
  case (Suc n)
  then have i: "i < length bs" by simp
  have "cstr (hex_of bs @ NUL # rest) (2 * i) = Some (hex_of (drop i bs))"
    using cstr_append [OF hex_of_cstring, of "drop i bs" rest] i
    by (simp add: cstr_def drop_hex_of)
  moreover have "hex_of (drop i bs) = hex_of_byte (bs ! i) @ hex_of (drop (i + 1) bs)"
    using i by (simp add: drop_Suc_nth)
  moreover have "creat_key_loop (hex_of bs @ NUL # rest) (k[i := bs ! i]) (length bs) (i + 1) =
      Some (take (i + 1) (k[i := bs ! i]) @ drop (i + 1) bs)"
    using Suc by simp
  moreover have "take (i + 1) (k[i := bs ! i]) = take i k @ [bs ! i]"
    using i Suc.prems by (simp add: take_Suc_conv_app_nth)
  ultimately show ?case
    using i Suc.prems
    by (subst creat_key_loop.simps) (simp add: sscanf_hex_of_byte poke_def drop_Suc_nth)
qed

lemma kx_user_creat_key_eq:
  assumes "\<And>n. length (zmalloc n) = n" "node user = Some n" "cstr n uuid_off = Some uuid"
    and "cstr (chars user) username_off = Some name"
  shows "kx_user_creat_key zmalloc user =
    Some (user\<lparr>key := map byte_of_char (take 63 (uuid @ name))\<rparr>)"
proof -
  let ?s = "take 63 (uuid @ name)"
  let ?r = "replicate (63 - length ?s) NUL"
  have cs: "is_cstring ?s"
    using assms(3,4)[THEN cstr_is_cstring] is_cstring_take [of "uuid @ name" 63] by (simp add: is_cstring_def)
  have l: "length ?s \<le> 63" by simp
  have sn: "snprintf (replicate 64 NUL) 0 64 (uuid @ name) = Some (?s @ NUL # ?r)"
    by (simp add: snprintf_def blit_def)
  have sl: "cstr (?s @ NUL # ?r) 0 = Some ?s" by (rule cstr_append [OF cs])
  let ?bs = "map byte_of_char ?s"
  let ?hr = "replicate (127 - 2 * length ?s) NUL"
  have "chex_encode (replicate 128 NUL) 128 (map byte_of_char (?s @ NUL # ?r)) (length ?s) =
      Some (hex_of ?bs @ replicate (128 - 2 * length ?s) NUL, 2 * length ?s)"
    using l by (subst chex_encode_eq) (simp_all add: Let_def)
  moreover have "replicate (128 - 2 * length ?s) NUL = NUL # ?hr"
  proof -
    have "128 - 2 * length ?s = Suc (127 - 2 * length ?s)" using l by linarith
    then show ?thesis by (simp only: replicate_Suc)
  qed
  moreover have "creat_key_loop (hex_of ?bs @ NUL # ?hr) (map byte_of_char (zmalloc (length ?bs))) (length ?bs) 0 = Some ?bs"
    using creat_key_loop_eq [of 0 ?bs _ ?hr] assms(1) by simp
  moreover have "cstr (hex_of ?bs @ NUL # ?hr) 0 = Some (hex_of ?bs)"
    by (rule cstr_append [OF hex_of_cstring])
  ultimately show ?thesis
    using assms(2-4) sn sl unfolding kx_user_creat_key_def Let_def
    by (simp del: map_append take_append)
qed

text \<open>The characters of a new user, for any name and password.\<close>

lemma creat_user_chars:
  assumes "\<And>n. length (zmalloc n) = n"
  shows "kx_creat_user zmalloc gnode name pwd =
    kx_user_creat_key zmalloc \<lparr>chars = strncpy_bytes name 31 @ zmalloc sizeof_kxuser ! 31 #
        strncpy_bytes pwd 31 @ zmalloc sizeof_kxuser ! 63 # replicate 37 NUL,
      isonline = 0, node = gnode, key = []\<rparr>"
proof -
  let ?z = "take 101 (zmalloc sizeof_kxuser)"
  have d: "drop 31 ?z = ?z ! 31 # ?z ! 32 # drop 33 ?z" "drop 63 ?z = ?z ! 63 # ?z ! 64 # drop 65 ?z"
    using drop_Suc_nth [of 31 ?z] drop_Suc_nth [of 32 ?z] drop_Suc_nth [of 63 ?z] drop_Suc_nth [of 64 ?z]
    by (simp_all add: assms)
  have s1: "strncpy ?z 0 name 31 = Some (strncpy_bytes name 31 @ ?z ! 31 # ?z ! 32 # drop 33 ?z)"
    using assms d(1) by (simp add: strncpy_def blit_def)
  let ?a = "strncpy_bytes name 31 @ ?z ! 31 # NUL # drop 33 ?z"
  have s2: "strncpy ?a 32 pwd 31 = Some (strncpy_bytes name 31 @ ?z ! 31 # strncpy_bytes pwd 31 @ ?z ! 63 # ?z ! 64 # drop 65 ?z)"
    using assms d(2) by (simp add: strncpy_def blit_def)
  show ?thesis
    using s1 s2 unfolding kx_creat_user_def Let_def
    by (simp add: poke_def memset_def blit_def list_update_append assms)
qed

section \<open>Properties of the component\<close>

text \<open>C11: for a name and a password of at most 30 characters, creating a user on a node makes no
  access out of bounds, the strings of the object read back as the arguments, the trust id is
  empty, the user is offline, and the key is the bytes of the node's uuid followed by the name,
  cut to 63 characters: the detour over the hexadecimal string is the identity.\<close>

theorem kx_creat_user_fields:
  assumes "\<And>n. length (zmalloc n) = n" "cstr n uuid_off = Some uuid"
    and "is_cstring name" "length name \<le> 30" "is_cstring pwd" "length pwd \<le> 30"
  shows "\<exists>u. kx_creat_user zmalloc (Some n) name pwd = Some u
    \<and> cstr (chars u) username_off = Some name \<and> cstr (chars u) pwd_off = Some pwd
    \<and> cstr (chars u) trustid_off = Some [] \<and> isonline u = 0
    \<and> key u = map byte_of_char (take 63 (uuid @ name))"
proof -
  let ?m = "strncpy_bytes name 31 @ zmalloc sizeof_kxuser ! 31 #
        strncpy_bytes pwd 31 @ zmalloc sizeof_kxuser ! 63 # replicate 37 NUL"
  have "cstr ?m username_off = Some name"
    using assms(4) by (simp add: strncpy_bytes_split cstr_append [OF assms(3)])
  moreover have "cstr ?m pwd_off = Some pwd"
    using assms(6) cstr_mid [OF assms(5), of "strncpy_bytes name 31 @ [zmalloc sizeof_kxuser ! 31]" 32]
    by (simp add: strncpy_bytes_split [of pwd])
  moreover have "cstr ?m trustid_off = Some []"
    by (simp add: cstr_def numeral_eq_Suc)
  ultimately show ?thesis
    using kx_user_creat_key_eq [OF assms(1) _ assms(2)] by (simp add: creat_user_chars [OF assms(1)])
qed

theorem kx_creat_user_fields_witness:
  "\<exists>u. kx_creat_user (\<lambda>n. replicate n (CHR ''x'')) (Some (replicate 34 (CHR ''n'') @ ''0a1b'' @ [NUL])) ''bob'' ''pw'' = Some u
    \<and> cstr (chars u) username_off = Some ''bob'' \<and> cstr (chars u) pwd_off = Some ''pw''
    \<and> key u = map byte_of_char ''0a1bbob''"
proof -
  have "cstr (replicate 34 (CHR ''n'') @ ''0a1b'' @ [NUL]) uuid_off = Some ''0a1b''"
    by (rule cstr_mid) (simp_all add: is_cstring_def NUL_def)
  from kx_creat_user_fields [OF _ this, of "\<lambda>n. replicate n (CHR ''x'')" "''bob''" "''pw''"]
  show ?thesis by (auto simp: is_cstring_def NUL_def)
qed

text \<open>C35: on a node whose uuid has at least 16 characters the AES key schedule is the same for
  every user: two users with different names and passwords get the same AES context.\<close>

theorem kx_user_same_aes_key:
  assumes "\<And>n. length (zmalloc n) = n" "cstr n uuid_off = Some uuid" "16 \<le> length uuid"
    and "is_cstring name1" "length name1 \<le> 30" "is_cstring name2" "length name2 \<le> 30"
    and "length (RoundKey ctx) = 176"
  shows "\<exists>u1 u2 ctx'. kx_creat_user zmalloc (Some n) name1 pwd1 = Some u1
    \<and> kx_creat_user zmalloc (Some n) name2 pwd2 = Some u2
    \<and> AES_init_ctx ctx (key u1) = Some ctx' \<and> AES_init_ctx ctx (key u2) = Some ctx'"
proof -
  have "\<exists>u. kx_creat_user zmalloc (Some n) name pwd = Some u
      \<and> AES_init_ctx ctx (key u) = Some (ctx\<lparr>RoundKey := fips_schedule (map byte_of_char (take 16 uuid)) 40\<rparr>)"
    if "is_cstring name" "length name \<le> 30" for name pwd
    using kx_user_creat_key_eq [OF assms(1) _ assms(2)] cstr_append [OF that(1)] that(2) assms(3,8)
    by (simp add: creat_user_chars [OF assms(1)] strncpy_bytes_split AES_init_ctx_fips take_map)
  with assms(4-7) show ?thesis by blast
qed

theorem kx_user_same_aes_key_witness:
  "\<exists>u1 u2 ctx'. kx_creat_user (\<lambda>n. replicate n (CHR ''x'')) (Some (replicate 66 (CHR ''7'') @ [NUL])) ''alice'' ''a'' = Some u1
    \<and> kx_creat_user (\<lambda>n. replicate n (CHR ''x'')) (Some (replicate 66 (CHR ''7'') @ [NUL])) ''bob'' ''b'' = Some u2
    \<and> AES_init_ctx \<lparr>RoundKey = replicate 176 0, Iv = []\<rparr> (key u1) = Some ctx'
    \<and> AES_init_ctx \<lparr>RoundKey = replicate 176 0, Iv = []\<rparr> (key u2) = Some ctx'"
proof -
  have "cstr (replicate 34 (CHR ''7'') @ replicate 32 (CHR ''7'') @ [NUL]) uuid_off = Some (replicate 32 (CHR ''7''))"
    by (rule cstr_mid) (simp_all add: is_cstring_def NUL_def)
  then have "cstr (replicate 66 (CHR ''7'') @ [NUL]) uuid_off = Some (replicate 32 (CHR ''7''))"
    by (simp flip: replicate_add append_assoc)
  from kx_user_same_aes_key [OF _ this, of "\<lambda>n. replicate n (CHR ''x'')" "''alice''" "''bob''"
      "\<lparr>RoundKey = replicate 176 0, Iv = []\<rparr>" "''a''" "''b''"]
  show ?thesis by (simp add: is_cstring_def NUL_def)
qed

end
