(* ===== verification/File.thy ===== *)
theory File
  imports Aes_Correct Xxhash User
begin

text \<open>
  File encryption, \<^verbatim>\<open>src/src/file.c\<close>. The file system is a map from paths to contents with the
  access rights \<^verbatim>\<open>fopen\<close> checks; an open stream is the content and the position, with the
  \<^verbatim>\<open>stdio\<close> operations the code uses. Reads and writes on an open stream do not fail. File
  sizes and block numbers are natural numbers: files are below $2^{63}$ bytes, so no
  \<^verbatim>\<open>size_t\<close> expression of the code wraps.
\<close>

section \<open>File system and streams\<close>

record filesys =
  content :: "string \<rightharpoonup> bytes"
  can_read :: "string \<Rightarrow> bool"
  can_write :: "string \<Rightarrow> bool"

record stream =
  data :: bytes
  pos :: nat

definition fopen_rb :: "filesys \<Rightarrow> string \<Rightarrow> stream option" where
  "fopen_rb fs path =
     (if can_read fs path then map_option (\<lambda>c. \<lparr>data = c, pos = 0\<rparr>) (content fs path) else None)"

definition fopen_rb_plus :: "filesys \<Rightarrow> string \<Rightarrow> stream option" where
  "fopen_rb_plus fs path =
     (if can_read fs path \<and> can_write fs path
      then map_option (\<lambda>c. \<lparr>data = c, pos = 0\<rparr>) (content fs path) else None)"

definition fseek_set :: "stream \<Rightarrow> nat \<Rightarrow> stream" where
  "fseek_set fp off = fp\<lparr>pos := off\<rparr>"

definition fseek_end :: "stream \<Rightarrow> stream" where
  "fseek_end fp = fp\<lparr>pos := length (data fp)\<rparr>"

definition fread :: "stream \<Rightarrow> nat \<Rightarrow> bytes \<times> stream" where
  "fread fp n = (let d = take n (drop (pos fp) (data fp)) in (d, fp\<lparr>pos := pos fp + length d\<rparr>))"

text \<open>Writing overwrites and extends; a gap behind the end is filled with zeros.\<close>

definition fwrite :: "stream \<Rightarrow> bytes \<Rightarrow> stream" where
  "fwrite fp buf = fp\<lparr>data := take (pos fp) (data fp @ replicate (pos fp - length (data fp)) 0) @ buf
      @ drop (pos fp + length buf) (data fp), pos := pos fp + length buf\<rparr>"

section \<open>The code\<close>

abbreviation (input) AES_BLOCK_SIZE :: nat where "AES_BLOCK_SIZE \<equiv> 16"
abbreviation (input) MAXFILESIZE :: nat where "MAXFILESIZE \<equiv> 100 * 1024 * 1024"

definition calculate_xxhash :: "filesys \<Rightarrow> string \<Rightarrow> u64" where
  "calculate_xxhash fs file_path =
     (case fopen_rb fs file_path of
        None \<Rightarrow> 0
      | Some fp \<Rightarrow>
          (let fp = fseek_end fp;
               file_size = pos fp;
               fp = fseek_set fp 0;
               (buffer, fp) = fread fp file_size
           in if length buffer \<noteq> file_size then 0 else XXH64 buffer 0))"

text \<open>The body of the two block loops: read a block, fill it when it is short, transform it and
  write it back in place. The next read continues at the position behind the write.\<close>

definition crypt_block :: "(bytes \<Rightarrow> bytes) \<Rightarrow> nat \<Rightarrow> stream \<Rightarrow> stream" where
  "crypt_block f block fp =
     (let (buffer, fp) = fread fp AES_BLOCK_SIZE;
          bytesRead = length buffer;
          buffer = (if bytesRead < AES_BLOCK_SIZE
                    then buffer @ replicate (AES_BLOCK_SIZE - bytesRead) (word_of_nat (AES_BLOCK_SIZE - bytesRead))
                    else buffer);
          buffer = f buffer;
          fp = fseek_set fp (block * AES_BLOCK_SIZE)
      in fwrite fp buffer)"

definition encrypt_file :: "AES_ctx \<Rightarrow> filesys \<Rightarrow> string \<Rightarrow> bytes \<Rightarrow> (filesys \<times> int) option" where
  "encrypt_file ctx0 fs filename k =
     (case fopen_rb_plus fs filename of
        None \<Rightarrow> Some (fs, -1)
      | Some fp \<Rightarrow> do {
          let fp = fseek_end fp;
          let fileSize = pos fp;
          let fp = fseek_set fp 0;
          let numBlocks = (fileSize + AES_BLOCK_SIZE - 1) div AES_BLOCK_SIZE;
          ctx \<leftarrow> AES_init_ctx ctx0 k;
          let fp = fold (crypt_block (AES_ECB_encrypt ctx)) [0..<numBlocks] fp;
          Some (fs\<lparr>content := (content fs)(filename \<mapsto> data fp)\<rparr>, 0)
        })"

definition decrypt_file :: "AES_ctx \<Rightarrow> filesys \<Rightarrow> string \<Rightarrow> bytes \<Rightarrow> (filesys \<times> int) option" where
  "decrypt_file ctx0 fs filename k =
     (case fopen_rb_plus fs filename of
        None \<Rightarrow> Some (fs, -1)
      | Some fp \<Rightarrow> do {
          let fp = fseek_end fp;
          let fileSize = pos fp;
          let fp = fseek_set fp 0;
          let numBlocks = (fileSize + AES_BLOCK_SIZE - 1) div AES_BLOCK_SIZE;
          ctx \<leftarrow> AES_init_ctx ctx0 k;
          let fp = fold (crypt_block (AES_ECB_decrypt ctx)) [0..<numBlocks] fp;
          Some (fs\<lparr>content := (content fs)(filename \<mapsto> data fp)\<rparr>, 0)
        })"

datatype kxfiletype = KXCIPHER | KXPLAIN

record kxfile =
  fname :: cmem
  fullname :: cmem
  uuid :: u64
  type :: kxfiletype

text \<open>The POSIX \<^verbatim>\<open>basename\<close>: the last component, trailing slashes ignored.\<close>

definition basename :: "string \<Rightarrow> string" where
  "basename p =
     (let q = rev (dropWhile (\<lambda>c. c = CHR ''/'') (rev p))
      in if p = [] then ''.'' else if q = [] then ''/''
         else rev (takeWhile (\<lambda>c. c \<noteq> CHR ''/'') (rev q)))"

abbreviation (input) NAME_MAX :: nat where "NAME_MAX \<equiv> 255"
abbreviation (input) PATH_MAX :: nat where "PATH_MAX \<equiv> 4096"

text \<open>\<open>user\<close> is \<^verbatim>\<open>client.user\<close>, a null pointer until a user is registered. A failed
  \<^verbatim>\<open>stat\<close> leaves \<^verbatim>\<open>st\<close> uninitialised, which decides only which message is printed.\<close>

definition kx_crypt_file ::
    "AES_ctx \<Rightarrow> kxuser option \<Rightarrow> filesys \<Rightarrow> string \<Rightarrow> (filesys \<times> kxfile option) option" where
  "kx_crypt_file ctx0 user fs path =
     (case content fs path of
        None \<Rightarrow> Some (fs, None)
      | Some c \<Rightarrow>
          if length c > MAXFILESIZE then Some (fs, None)
          else do {
            u \<leftarrow> user;
            (fs, r) \<leftarrow> encrypt_file ctx0 fs path (key u);
            if r = -1 then Some (fs, None)
            else (let h = calculate_xxhash fs path
                  in if h = 0 then Some (fs, None)
                     else Some (fs, Some \<lparr>fname = strncpy_bytes (basename path) NAME_MAX,
                            fullname = strncpy_bytes path PATH_MAX, uuid = h, type = KXCIPHER\<rparr>))
          })"

definition kx_decrypt_file :: "AES_ctx \<Rightarrow> filesys \<Rightarrow> string \<Rightarrow> bytes \<Rightarrow> (filesys \<times> int) option" where
  "kx_decrypt_file ctx0 fs path k = decrypt_file ctx0 fs path k"

definition kx_get_file_uuid :: "filesys \<Rightarrow> string \<Rightarrow> u64" where
  "kx_get_file_uuid fs path = calculate_xxhash fs path"

section \<open>Reference: a whole-file transformation in blocks\<close>

definition pad16 :: "bytes \<Rightarrow> bytes" where
  "pad16 c = (let r = (16 - length c mod 16) mod 16 in c @ replicate r (word_of_nat r))"

function blocks_map :: "nat \<Rightarrow> (bytes \<Rightarrow> bytes) \<Rightarrow> bytes \<Rightarrow> bytes" where
  "blocks_map n f bs = (if bs = [] \<or> n = 0 then [] else f (take n bs) @ blocks_map n f (drop n bs))"
  by pat_completeness auto

termination
  by (relation "measure (\<lambda>(_, _, bs). length bs)") auto

declare blocks_map.simps [simp del]

lemma blocks_map_Nil [simp]: "blocks_map n f [] = []"
  by (simp add: blocks_map.simps)

lemma blocks_map_append_block:
  "0 < n \<Longrightarrow> length xs = m * n \<Longrightarrow> length b = n \<Longrightarrow> blocks_map n f (xs @ b) = blocks_map n f xs @ f b"
proof (induction m arbitrary: xs)
  case 0
  then show ?case by (auto simp: blocks_map.simps [of n f b])
next
  case (Suc m)
  then have "n \<le> length xs" "xs \<noteq> []" by auto
  moreover have "blocks_map n f (drop n xs @ b) = blocks_map n f (drop n xs) @ f b"
    using Suc by simp
  ultimately show ?case
    using \<open>0 < n\<close> blocks_map.simps [of n f "xs @ b"] blocks_map.simps [of n f xs] by simp
qed

lemma length_blocks_map:
  "(\<And>b. length b = n \<Longrightarrow> length (f b) = n) \<Longrightarrow> 0 < n \<Longrightarrow> length xs = m * n \<Longrightarrow>
   length (blocks_map n f xs) = m * n"
proof (induction m arbitrary: xs)
  case (Suc m)
  then have "n \<le> length xs" "xs \<noteq> []" by auto
  with Suc show ?case by (simp add: blocks_map.simps [of n f xs])
qed simp

text \<open>The block-cipher contract carries over to whole files.\<close>

context block_cipher
begin

lemma blocks_dec_enc:
  "length bs = m * blen \<Longrightarrow> blocks_map blen (dec k) (blocks_map blen (enc k) bs) = bs"
proof (induction m arbitrary: bs)
  case (Suc m)
  then have l: "length (take blen bs) = blen" "bs \<noteq> []" using blen_pos by auto
  then have "enc k (take blen bs) \<noteq> []" using blen_pos enc_len [of "take blen bs" k] by auto
  moreover have "blocks_map blen (dec k) (blocks_map blen (enc k) (drop blen bs)) = drop blen bs"
    using Suc by simp
  ultimately show ?case
    using l blen_pos enc_len [OF l(1), of k]
    by (simp add: blocks_map.simps [of blen _ bs] blocks_map.simps [of blen "dec k" "enc k (take blen bs) @ _"] dec_enc)
qed simp

end

section \<open>The block loop transforms the padded content\<close>

lemma le_nblocks: "n \<le> (l + 15) div 16 \<longleftrightarrow> n * 16 \<le> l + (15 :: nat)"
  by (rule less_eq_div_iff_mult_less_eq) simp

lemma nblocks_bound: "l \<le> 16 * ((l + 15) div (16 :: nat))"
  using le_nblocks [of "(l + 15) div 16 + 1" l] by linarith

lemma length_pad16: "length (pad16 c) = (length c + 15) div 16 * 16"
proof -
  define q r where "q = length c div 16" and "r = length c mod 16"
  have "length c = 16 * q + r" "r < 16" by (simp_all add: q_def r_def)
  then have "length c + (16 - r) mod 16 = (length c + 15) div 16 * 16"
  proof (cases "r = 0")
    case False
    with \<open>length c = 16 * q + r\<close> \<open>r < 16\<close> have "(length c + 15) div 16 = q + 1"
      by (intro div_nat_eqI) auto
    with False \<open>length c = 16 * q + r\<close> \<open>r < 16\<close> show ?thesis by simp
  qed simp
  then have "length c + (16 - length c mod 16) mod 16 = (length c + 15) div 16 * 16" by (simp add: r_def)
  then show ?thesis by (simp add: pad16_def Let_def)
qed

lemma pad16_block:
  assumes "16 * b < length c"
  shows "take 16 (drop (16 * b) (pad16 c)) =
    (let d = take 16 (drop (16 * b) c) in
     if length d < 16 then d @ replicate (16 - length d) (word_of_nat (16 - length d)) else d)"
proof (cases "16 * b + 16 \<le> length c")
  case True
  then show ?thesis by (simp add: pad16_def Let_def)
next
  case False
  then have "length c div 16 = b" using assms by (intro div_nat_eqI) auto
  then have "length c - 16 * b = length c mod 16" "0 < length c mod 16"
    using assms by (auto simp: minus_mult_div_eq_mod [symmetric])
  moreover have "length c mod 16 < 16" by simp
  ultimately show ?thesis
    using assms False by (simp add: pad16_def Let_def)
qed

lemma crypt_block_step:
  assumes f: "\<And>b. length b = 16 \<Longrightarrow> length (f b) = 16" and b: "16 * b < length c"
    and d: "data fp = blocks_map 16 f (take (16 * b) (pad16 c)) @ drop (16 * b) c" and p: "pos fp = 16 * b"
  shows "data (crypt_block f b fp) = blocks_map 16 f (take (16 * b + 16) (pad16 c)) @ drop (16 * b + 16) c
    \<and> pos (crypt_block f b fp) = 16 * b + 16"
proof -
  let ?blk = "take 16 (drop (16 * b) (pad16 c))"
  have lp: "16 * b + 16 \<le> length (pad16 c)" using b le_nblocks [of "b + 1" "length c"] by (simp add: length_pad16)
  have lm: "length (blocks_map 16 f (take (16 * b) (pad16 c))) = 16 * b"
    using length_blocks_map [OF f, where xs = "take (16 * b) (pad16 c)" and m = b] lp by (simp add: mult.commute)
  have lb: "length ?blk = 16" using lp by simp
  have "take (16 * b + 16) (pad16 c) = take (16 * b) (pad16 c) @ ?blk" by (simp add: take_add)
  then have bm: "blocks_map 16 f (take (16 * b + 16) (pad16 c)) =
      blocks_map 16 f (take (16 * b) (pad16 c)) @ f ?blk"
    using blocks_map_append_block [of 16 "take (16 * b) (pad16 c)" b ?blk f] lp lb by (simp add: mult.commute)
  have rd: "fread fp 16 = (take 16 (drop (16 * b) c), fp\<lparr>pos := 16 * b + min 16 (length c - 16 * b)\<rparr>)"
    by (simp add: fread_def d p lm Let_def min.commute)
  have "crypt_block f b fp = fwrite (fp\<lparr>pos := 16 * b\<rparr>) (f ?blk)"
    unfolding crypt_block_def rd pad16_block [OF b] by (simp add: fseek_set_def Let_def mult.commute)
  then show ?thesis unfolding bm using f [OF lb] by (simp add: fwrite_def d lm add.commute)
qed

lemma crypt_blocks:
  assumes f: "\<And>b. length b = 16 \<Longrightarrow> length (f b) = 16" and n: "n \<le> (length c + 15) div 16"
  shows "data (fold (crypt_block f) [0..<n] \<lparr>data = c, pos = 0\<rparr>) =
      blocks_map 16 f (take (16 * n) (pad16 c)) @ drop (16 * n) c
    \<and> pos (fold (crypt_block f) [0..<n] \<lparr>data = c, pos = 0\<rparr>) = 16 * n"
  using n
proof (induction n)
  case (Suc n)
  then have "16 * n < length c" using le_nblocks [of "Suc n" "length c"] by simp
  with Suc crypt_block_step [OF f, where b = n and c = c] show ?case by (simp add: add.commute)
qed simp

lemma crypt_all_blocks:
  assumes "\<And>b. length b = 16 \<Longrightarrow> length (f b) = 16"
  shows "data (fold (crypt_block f) [0..<(15 + length c) div 16] \<lparr>data = c, pos = 0\<rparr>) =
    blocks_map 16 f (pad16 c)"
proof -
  have "length c \<le> 16 * ((length c + 15) div 16)" by (rule nblocks_bound)
  then show ?thesis using crypt_blocks [OF assms, where n = "(length c + 15) div 16" and c = c] by (simp add: length_pad16 add.commute)
qed

lemmas stream_simps = fopen_rb_def fopen_rb_plus_def fseek_end_def fseek_set_def fread_def

lemma encrypt_file_eq:
  assumes "content fs path = Some c" "can_read fs path" "can_write fs path"
    and "16 \<le> length k" "length (RoundKey ctx0) = 176"
  shows "encrypt_file ctx0 fs path k =
    Some (fs\<lparr>content := (content fs)(path \<mapsto>
      blocks_map 16 (\<lambda>b. Cipher b (fips_schedule (take 16 k) 40)) (pad16 c))\<rparr>, 0)"
  using assms crypt_all_blocks [of "\<lambda>b. Cipher b (fips_schedule (take 16 k) 40)" c]
  by (simp add: encrypt_file_def stream_simps AES_init_ctx_fips AES_ECB_encrypt_def [abs_def] Let_def)

lemma decrypt_file_eq:
  assumes "content fs path = Some c" "can_read fs path" "can_write fs path"
    and "16 \<le> length k" "length (RoundKey ctx0) = 176"
  shows "decrypt_file ctx0 fs path k =
    Some (fs\<lparr>content := (content fs)(path \<mapsto>
      blocks_map 16 (\<lambda>b. InvCipher b (fips_schedule (take 16 k) 40)) (pad16 c))\<rparr>, 0)"
  using assms crypt_all_blocks [of "\<lambda>b. InvCipher b (fips_schedule (take 16 k) 40)" c]
  by (simp add: decrypt_file_def stream_simps AES_init_ctx_fips AES_ECB_decrypt_def [abs_def] Let_def)

lemma calculate_xxhash_eq:
  "calculate_xxhash fs path =
    (case content fs path of Some c \<Rightarrow> if can_read fs path then XXH64 c 0 else 0 | None \<Rightarrow> 0)"
  by (simp add: calculate_xxhash_def stream_simps Let_def split: option.splits)

lemma pad16_id: "length c mod 16 = 0 \<Longrightarrow> pad16 c = c"
  by (simp add: pad16_def)

section \<open>Properties of the component\<close>

text \<open>C1: encrypting a readable and writable file and decrypting the result with a key that has the
  same first 16 bytes both report success, touch no other file, and leave the original content
  followed by its padding: the content is restored exactly when its size is a multiple of 16,
  because decryption never removes the fill bytes.\<close>

theorem decrypt_encrypt_file:
  assumes "content fs path = Some c" "can_read fs path" "can_write fs path"
    and "16 \<le> length k" "16 \<le> length k'" "take 16 k' = take 16 k" "length (RoundKey ctx0) = 176"
  shows "\<exists>fs1. encrypt_file ctx0 fs path k = Some (fs1, 0)
    \<and> decrypt_file ctx0 fs1 path k' = Some (fs\<lparr>content := (content fs)(path \<mapsto> pad16 c)\<rparr>, 0)
    \<and> (pad16 c = c \<longleftrightarrow> length c mod 16 = 0)"
proof -
  let ?rk = "fips_schedule (take 16 k) 40"
  let ?e = "blocks_map 16 (\<lambda>b. Cipher b ?rk) (pad16 c)"
  let ?fs1 = "fs\<lparr>content := (content fs)(path \<mapsto> ?e)\<rparr>"
  have le: "length ?e = (length c + 15) div 16 * 16"
    by (rule length_blocks_map) (simp_all add: length_pad16)
  have "encrypt_file ctx0 fs path k = Some (?fs1, 0)"
    using assms by (simp add: encrypt_file_eq)
  moreover have "decrypt_file ctx0 ?fs1 path k' = Some (fs\<lparr>content := (content fs)(path \<mapsto> pad16 c)\<rparr>, 0)"
    using decrypt_file_eq [of ?fs1 path ?e k' ctx0] assms le
      aes.blocks_dec_enc [OF length_pad16, of ?rk c] by (simp add: pad16_id)
  moreover have "pad16 c = c \<longleftrightarrow> length c mod 16 = 0"
  proof
    assume "pad16 c = c"
    then have "length c = (length c + 15) div 16 * 16" by (metis length_pad16)
    then have "16 dvd length c" by (rule dvdI [OF trans]) (rule mult.commute)
    then show "length c mod 16 = 0" by simp
  qed (rule pad16_id)
  ultimately show ?thesis by (intro exI [of _ ?fs1] conjI)
qed

abbreviation sample_fs :: filesys where
  "sample_fs \<equiv> \<lparr>content = [''a.txt'' \<mapsto> [1, 2, 3]], can_read = (\<lambda>_. True), can_write = (\<lambda>_. True)\<rparr>"

abbreviation sample_ctx :: AES_ctx where
  "sample_ctx \<equiv> \<lparr>RoundKey = replicate 176 0, Iv = []\<rparr>"

theorem decrypt_encrypt_file_witness:
  "\<exists>fs1 fs2. encrypt_file sample_ctx sample_fs ''a.txt'' (replicate 16 7) = Some (fs1, 0)
    \<and> decrypt_file sample_ctx fs1 ''a.txt'' (replicate 17 7) = Some (fs2, 0)
    \<and> content fs2 ''a.txt'' = Some ([1, 2, 3] @ replicate 13 13)"
  using decrypt_encrypt_file [of sample_fs "''a.txt''" "[1, 2, 3]" "replicate 16 7" "replicate 17 7" sample_ctx]
  by (auto simp: pad16_def)

text \<open>C10: \<^verbatim>\<open>kx_crypt_file\<close> on a file of at most 100 MB with a key of at least 16 bytes replaces the
  content by the AES-128 ECB encryption of the padded content, whose size is the next multiple
  of 16, and the object it returns carries the XXH64 of the new content as uuid, the path and
  the base name. When that hash is 0 it reports failure although the file is already encrypted.\<close>

theorem kx_crypt_file_result:
  assumes "content fs path = Some c" "length c \<le> MAXFILESIZE" "can_read fs path" "can_write fs path"
    and "16 \<le> length (key u)" "length (RoundKey ctx0) = 176"
    and "e = blocks_map 16 (\<lambda>b. Cipher b (fips_schedule (take 16 (key u)) 40)) (pad16 c)"
  shows "kx_crypt_file ctx0 (Some u) fs path =
      Some (fs\<lparr>content := (content fs)(path \<mapsto> e)\<rparr>,
        if XXH64 e 0 = 0 then None
        else Some \<lparr>fname = strncpy_bytes (basename path) NAME_MAX, fullname = strncpy_bytes path PATH_MAX,
                   uuid = XXH64 e 0, type = KXCIPHER\<rparr>)
    \<and> length e = (length c + 15) div 16 * 16"
proof -
  have "length e = (length c + 15) div 16 * 16"
    unfolding assms(7) by (rule length_blocks_map) (simp_all add: length_pad16)
  then show ?thesis
    using encrypt_file_eq [OF assms(1,3,4,5,6)] assms
    by (simp add: kx_crypt_file_def calculate_xxhash_eq Let_def)
qed

theorem kx_crypt_file_result_witness:
  "\<exists>fs' r. kx_crypt_file sample_ctx (Some \<lparr>chars = [], isonline = 0, node = None, key = replicate 16 7\<rparr>) sample_fs ''a.txt'' = Some (fs', r)
    \<and> (\<exists>e. content fs' ''a.txt'' = Some e \<and> length e = 16)"
  using kx_crypt_file_result [of sample_fs "''a.txt''" "[1, 2, 3]"
      "\<lparr>chars = [], isonline = 0, node = None, key = replicate 16 7\<rparr>" sample_ctx, OF _ _ _ _ _ _ refl]
  by simp

text \<open>C34: the refusals leave every file as it was: a missing file, a file above the size limit, and
  a file that cannot be opened for update. A missing user or a key shorter than 16 bytes is an
  access out of bounds, not a refusal.\<close>

theorem kx_crypt_file_refusals:
  "(content fs path = None \<longrightarrow> kx_crypt_file ctx0 user fs path = Some (fs, None))
   \<and> (content fs path = Some c \<and> MAXFILESIZE < length c \<longrightarrow> kx_crypt_file ctx0 user fs path = Some (fs, None))
   \<and> (content fs path = Some c \<and> length c \<le> MAXFILESIZE \<and> \<not> (can_read fs path \<and> can_write fs path)
        \<longrightarrow> kx_crypt_file ctx0 (Some u) fs path = Some (fs, None))
   \<and> (content fs path = Some c \<and> length c \<le> MAXFILESIZE \<longrightarrow> kx_crypt_file ctx0 None fs path = None)
   \<and> (content fs path = Some c \<and> length c \<le> MAXFILESIZE \<and> can_read fs path \<and> can_write fs path
        \<and> length (key u) < 16 \<longrightarrow> kx_crypt_file ctx0 (Some u) fs path = None)"
  by (auto simp: kx_crypt_file_def encrypt_file_def fopen_rb_plus_def AES_init_ctx_def KeyExpansion_def)

theorem kx_crypt_file_refusals_witness:
  "kx_crypt_file sample_ctx None sample_fs ''b.txt'' = Some (sample_fs, None)
   \<and> kx_crypt_file sample_ctx None sample_fs ''a.txt'' = None"
  using kx_crypt_file_refusals [of sample_fs "''b.txt''" sample_ctx None]
    kx_crypt_file_refusals [of sample_fs "''a.txt''" sample_ctx None "[1, 2, 3]"] by simp

end
