(* ===== verification/Adlist.thy ===== *)
theory Adlist
  imports Prelude
begin

text \<open>
  The doubly linked list of \<^verbatim>\<open>src/src/adlist.c\<close> on an explicit heap of nodes. A pointer is
  an optional address, \<open>None\<close> being the null pointer; reading through a null or dangling pointer
  gives \<open>None\<close> as the result of the operation. \<^verbatim>\<open>zmalloc\<close> never returns a null pointer (it aborts
  instead), so an operation that allocates takes the address it was given as an argument.
  Calls of the \<^verbatim>\<open>free\<close> method are returned as the sequence of values it received.

  The representation predicate \<open>list_rep\<close> relates heap and list header to a sequence of
  (address, value) pairs; every operation is shown to implement the corresponding operation on
  that sequence.
\<close>

section \<open>Data\<close>

type_synonym addr = nat
type_synonym ptr = "addr option"

record 'v listNode =
  prev :: ptr
  "next" :: ptr
  "value" :: 'v

type_synonym 'v heap = "addr \<rightharpoonup> 'v listNode"

record listIter =
  iter_next :: ptr
  direction :: int

record 'v list_hdr =
  head :: ptr
  tail :: ptr
  dup :: "('v \<Rightarrow> 'v option) option"
  free :: bool
  match :: "('v \<Rightarrow> 'v \<Rightarrow> bool) option"
  len :: u64

abbreviation (input) AL_START_HEAD :: int where "AL_START_HEAD \<equiv> 0"
abbreviation (input) AL_START_TAIL :: int where "AL_START_TAIL \<equiv> 1"

section \<open>Accesses through pointers\<close>

definition load :: "'v heap \<Rightarrow> ptr \<Rightarrow> 'v listNode option" where
  "load h p = Option.bind p h"

definition set_prev :: "'v heap \<Rightarrow> ptr \<Rightarrow> ptr \<Rightarrow> 'v heap option" where
  "set_prev h p v = do { a \<leftarrow> p; nd \<leftarrow> h a; Some (h(a \<mapsto> nd\<lparr>prev := v\<rparr>)) }"

definition set_next :: "'v heap \<Rightarrow> ptr \<Rightarrow> ptr \<Rightarrow> 'v heap option" where
  "set_next h p v = do { a \<leftarrow> p; nd \<leftarrow> h a; Some (h(a \<mapsto> nd\<lparr>next := v\<rparr>)) }"

definition zfree_node :: "'v heap \<Rightarrow> ptr \<Rightarrow> 'v heap option" where
  "zfree_node h p = do { a \<leftarrow> p; _ \<leftarrow> h a; Some (h(a := None)) }"

section \<open>Operations\<close>

definition listCreate :: "'v list_hdr" where
  "listCreate = \<lparr>head = None, tail = None, dup = None, free = False, match = None, len = 0\<rparr>"

text \<open>\<open>while (len--)\<close>: the counter is the number of remaining iterations.\<close>

fun listEmpty_loop :: "'v heap \<Rightarrow> bool \<Rightarrow> ptr \<Rightarrow> nat \<Rightarrow> ('v heap \<times> 'v list) option" where
  "listEmpty_loop h fr current 0 = Some (h, [])"
| "listEmpty_loop h fr current (Suc n) = do {
     nd \<leftarrow> load h current;
     h \<leftarrow> zfree_node h current;
     (h, freed) \<leftarrow> listEmpty_loop h fr (next nd) n;
     Some (h, (if fr then [value nd] else []) @ freed)
   }"

definition listEmpty :: "'v heap \<Rightarrow> 'v list_hdr \<Rightarrow> ('v heap \<times> 'v list_hdr \<times> 'v list) option" where
  "listEmpty h l = do {
     (h, freed) \<leftarrow> listEmpty_loop h (free l) (head l) (unat (len l));
     Some (h, l\<lparr>head := None, tail := None, len := 0\<rparr>, freed)
   }"

definition listRelease :: "'v heap \<Rightarrow> 'v list_hdr \<Rightarrow> ('v heap \<times> 'v list) option" where
  "listRelease h l = do { (h, l, freed) \<leftarrow> listEmpty h l; Some (h, freed) }"

definition listAddNodeHead :: "'v heap \<Rightarrow> 'v list_hdr \<Rightarrow> addr \<Rightarrow> 'v \<Rightarrow> ('v heap \<times> 'v list_hdr) option" where
  "listAddNodeHead h l a v =
     (if len l = 0 then
        Some (h(a \<mapsto> \<lparr>prev = None, next = None, value = v\<rparr>),
              l\<lparr>head := Some a, tail := Some a, len := len l + 1\<rparr>)
      else do {
        let h = h(a \<mapsto> \<lparr>prev = None, next = head l, value = v\<rparr>);
        h \<leftarrow> set_prev h (head l) (Some a);
        Some (h, l\<lparr>head := Some a, len := len l + 1\<rparr>)
      })"

definition listAddNodeTail :: "'v heap \<Rightarrow> 'v list_hdr \<Rightarrow> addr \<Rightarrow> 'v \<Rightarrow> ('v heap \<times> 'v list_hdr) option" where
  "listAddNodeTail h l a v =
     (if len l = 0 then
        Some (h(a \<mapsto> \<lparr>prev = None, next = None, value = v\<rparr>),
              l\<lparr>head := Some a, tail := Some a, len := len l + 1\<rparr>)
      else do {
        let h = h(a \<mapsto> \<lparr>prev = tail l, next = None, value = v\<rparr>);
        h \<leftarrow> set_next h (tail l) (Some a);
        Some (h, l\<lparr>tail := Some a, len := len l + 1\<rparr>)
      })"

definition listInsertNode ::
    "'v heap \<Rightarrow> 'v list_hdr \<Rightarrow> ptr \<Rightarrow> addr \<Rightarrow> 'v \<Rightarrow> bool \<Rightarrow> ('v heap \<times> 'v list_hdr) option" where
  "listInsertNode h l old_node a v after = do {
     old \<leftarrow> load h old_node;
     let nd = (if after then \<lparr>prev = old_node, next = next old, value = v\<rparr>
               else \<lparr>prev = prev old, next = old_node, value = v\<rparr>);
     let l = (if after then (if tail l = old_node then l\<lparr>tail := Some a\<rparr> else l)
              else (if head l = old_node then l\<lparr>head := Some a\<rparr> else l));
     let h = h(a \<mapsto> nd);
     h \<leftarrow> (if prev nd \<noteq> None then set_next h (prev nd) (Some a) else Some h);
     h \<leftarrow> (if next nd \<noteq> None then set_prev h (next nd) (Some a) else Some h);
     Some (h, l\<lparr>len := len l + 1\<rparr>)
   }"

definition listDelNode :: "'v heap \<Rightarrow> 'v list_hdr \<Rightarrow> ptr \<Rightarrow> ('v heap \<times> 'v list_hdr \<times> 'v list) option" where
  "listDelNode h l node = do {
     nd \<leftarrow> load h node;
     (h, l) \<leftarrow> (if prev nd \<noteq> None
        then do { h \<leftarrow> set_next h (prev nd) (next nd); Some (h, l) }
        else Some (h, l\<lparr>head := next nd\<rparr>));
     nd \<leftarrow> load h node;
     (h, l) \<leftarrow> (if next nd \<noteq> None
        then do { h \<leftarrow> set_prev h (next nd) (prev nd); Some (h, l) }
        else Some (h, l\<lparr>tail := prev nd\<rparr>));
     nd \<leftarrow> load h node;
     h \<leftarrow> zfree_node h node;
     Some (h, l\<lparr>len := len l - 1\<rparr>, if free l then [value nd] else [])
   }"

definition listGetIterator :: "'v list_hdr \<Rightarrow> int \<Rightarrow> listIter" where
  "listGetIterator l dir =
     \<lparr>iter_next = (if dir = AL_START_HEAD then head l else tail l), direction = dir\<rparr>"

definition listRewind :: "'v list_hdr \<Rightarrow> listIter" where
  "listRewind l = \<lparr>iter_next = head l, direction = AL_START_HEAD\<rparr>"

definition listRewindTail :: "'v list_hdr \<Rightarrow> listIter" where
  "listRewindTail l = \<lparr>iter_next = tail l, direction = AL_START_TAIL\<rparr>"

definition listNext :: "'v heap \<Rightarrow> listIter \<Rightarrow> (ptr \<times> listIter) option" where
  "listNext h iter =
     (if iter_next iter \<noteq> None then do {
        nd \<leftarrow> load h (iter_next iter);
        Some (iter_next iter,
          iter\<lparr>iter_next := (if direction iter = AL_START_HEAD then next nd else prev nd)\<rparr>)
      } else Some (None, iter))"

text \<open>The loops over an iterator do not return on a cyclic list: they are partial.\<close>

partial_function (option) listDup_loop ::
    "'v heap \<Rightarrow> 'v list_hdr \<Rightarrow> listIter \<Rightarrow> addr list \<Rightarrow> ('v heap \<times> 'v list_hdr option \<times> 'v list) option" where
  "listDup_loop h copy iter pool = do {
     r \<leftarrow> listNext h iter;
     (case fst r of
        None \<Rightarrow> Some (h, Some copy, [])
      | Some a \<Rightarrow> do {
          nd \<leftarrow> h a;
          (case (case dup copy of Some f \<Rightarrow> f (value nd) | None \<Rightarrow> Some (value nd)) of
             None \<Rightarrow> do { r \<leftarrow> listRelease h copy; Some (fst r, None, snd r) }
           | Some v \<Rightarrow>
               (case pool of
                  [] \<Rightarrow> None
                | b # bs \<Rightarrow> do {
                    s \<leftarrow> listAddNodeTail h copy b v;
                    listDup_loop (fst s) (snd s) (snd r) bs
                  }))
        })
   }"

definition listDup :: "'v heap \<Rightarrow> 'v list_hdr \<Rightarrow> addr list \<Rightarrow> ('v heap \<times> 'v list_hdr option \<times> 'v list) option" where
  "listDup h orig pool =
     listDup_loop h (listCreate\<lparr>dup := dup orig, free := free orig, match := match orig\<rparr>)
       (listRewind orig) pool"

partial_function (option) listSearchKey_loop ::
    "'v heap \<Rightarrow> ('v \<Rightarrow> 'v \<Rightarrow> bool) option \<Rightarrow> 'v \<Rightarrow> listIter \<Rightarrow> ptr option" where
  "listSearchKey_loop h mt key iter = do {
     r \<leftarrow> listNext h iter;
     (case fst r of
        None \<Rightarrow> Some None
      | Some a \<Rightarrow> do {
          nd \<leftarrow> h a;
          if (case mt of Some f \<Rightarrow> f (value nd) key | None \<Rightarrow> key = value nd) then Some (Some a)
          else listSearchKey_loop h mt key (snd r)
        })
   }"

definition listSearchKey :: "'v heap \<Rightarrow> 'v list_hdr \<Rightarrow> 'v \<Rightarrow> ptr option" where
  "listSearchKey h l key = listSearchKey_loop h (match l) key (listRewind l)"

text \<open>\<open>while (index-- && n)\<close>: at most \<open>index\<close> steps, stopping at a null pointer.\<close>

fun listIndex_loop :: "'v heap \<Rightarrow> ('v listNode \<Rightarrow> ptr) \<Rightarrow> nat \<Rightarrow> ptr \<Rightarrow> ptr option" where
  "listIndex_loop h step 0 n = Some n"
| "listIndex_loop h step (Suc index) n =
     (if n \<noteq> None then do { nd \<leftarrow> load h n; listIndex_loop h step index (step nd) } else Some n)"

text \<open>The negation of the smallest \<^verbatim>\<open>long\<close> overflows.\<close>

definition listIndex :: "'v heap \<Rightarrow> 'v list_hdr \<Rightarrow> int \<Rightarrow> ptr option" where
  "listIndex h l index =
     (if index < 0 then
        if index \<le> - (2 ^ 63) then None
        else listIndex_loop h prev (nat (- index - 1)) (tail l)
      else listIndex_loop h next (nat index) (head l))"

definition listRotate :: "'v heap \<Rightarrow> 'v list_hdr \<Rightarrow> ('v heap \<times> 'v list_hdr) option" where
  "listRotate h l =
     (let tl = tail l in
      if len l \<le> 1 then Some (h, l)
      else do {
        nd \<leftarrow> load h tl;
        let l = l\<lparr>tail := prev nd\<rparr>;
        h \<leftarrow> set_next h (tail l) None;
        h \<leftarrow> set_prev h (head l) tl;
        h \<leftarrow> set_prev h tl None;
        h \<leftarrow> set_next h tl (head l);
        Some (h, l\<lparr>head := tl\<rparr>)
      })"

definition listJoin :: "'v heap \<Rightarrow> 'v list_hdr \<Rightarrow> 'v list_hdr \<Rightarrow> ('v heap \<times> 'v list_hdr \<times> 'v list_hdr) option" where
  "listJoin h l ol = do {
     h \<leftarrow> (if head ol \<noteq> None then set_prev h (head ol) (tail l) else Some h);
     (h, l) \<leftarrow> (if tail l \<noteq> None
        then do { h \<leftarrow> set_next h (tail l) (head ol); Some (h, l) }
        else Some (h, l\<lparr>head := head ol\<rparr>));
     let l = (if tail ol \<noteq> None then l\<lparr>tail := tail ol\<rparr> else l);
     let l = l\<lparr>len := len l + len ol\<rparr>;
     Some (h, l, ol\<lparr>head := None, tail := None, len := 0\<rparr>)
   }"

declare listDup_loop.simps [code] listSearchKey_loop.simps [code]

section \<open>Representation\<close>

type_synonym 'v cells = "(addr \<times> 'v) list"

abbreviation addrs :: "'v cells \<Rightarrow> addr list" where
  "addrs xs \<equiv> map fst xs"

definition firstp :: "'v cells \<Rightarrow> ptr \<Rightarrow> ptr" where
  "firstp xs n = (case xs of [] \<Rightarrow> n | x # _ \<Rightarrow> Some (fst x))"

definition lastp :: "ptr \<Rightarrow> 'v cells \<Rightarrow> ptr" where
  "lastp p xs = (if xs = [] then p else Some (fst (last xs)))"

fun dlseg :: "'v heap \<Rightarrow> ptr \<Rightarrow> 'v cells \<Rightarrow> ptr \<Rightarrow> bool" where
  "dlseg h p [] n = True"
| "dlseg h p ((a, v) # xs) n \<longleftrightarrow>
     h a = Some \<lparr>prev = p, next = firstp xs n, value = v\<rparr> \<and> dlseg h (Some a) xs n"

definition list_rep :: "'v heap \<Rightarrow> 'v list_hdr \<Rightarrow> 'v cells \<Rightarrow> bool" where
  "list_rep h l xs \<longleftrightarrow> dlseg h None xs None \<and> distinct (addrs xs)
     \<and> head l = firstp xs None \<and> tail l = lastp None xs
     \<and> len l = of_nat (length xs) \<and> length xs < 2 ^ 64"

text \<open>Room for one more node: the counter does not wrap.\<close>

abbreviation room :: "'v cells \<Rightarrow> bool" where
  "room xs \<equiv> length xs + 1 < 2 ^ 64"

lemma firstp_simps [simp]:
  "firstp [] n = n" "firstp (x # xs) n = Some (fst x)"
  "firstp (xs @ ys) n = firstp xs (firstp ys n)"
  by (auto simp: firstp_def split: list.splits)

lemma lastp_simps [simp]:
  "lastp p [] = p" "lastp p (x # xs) = lastp (Some (fst x)) xs"
  "lastp p (xs @ ys) = lastp (lastp p xs) ys"
  by (auto simp: lastp_def)

lemma dlseg_append [simp]:
  "dlseg h p (xs @ ys) n \<longleftrightarrow> dlseg h p xs (firstp ys n) \<and> dlseg h (lastp p xs) ys n"
  by (induction h p xs n rule: dlseg.induct) auto

lemma dlseg_frame: "a \<notin> set (addrs xs) \<Longrightarrow> dlseg (h(a := c)) p xs n = dlseg h p xs n"
  by (induction h p xs n rule: dlseg.induct) auto

lemma dlseg_cong: "(\<And>a. a \<in> set (addrs xs) \<Longrightarrow> h' a = h a) \<Longrightarrow> dlseg h' p xs n = dlseg h p xs n"
  by (induction h p xs n rule: dlseg.induct) auto

lemma dlseg_dom: "dlseg h p xs n \<Longrightarrow> a \<in> set (addrs xs) \<Longrightarrow> h a \<noteq> None"
  by (induction h p xs n rule: dlseg.induct) auto

lemma fresh_not_in: "dlseg h p xs n \<Longrightarrow> h a = None \<Longrightarrow> a \<notin> set (addrs xs)"
  using dlseg_dom by fastforce

lemma lastp_cases: "xs = [] \<or> (\<exists>ys a v. xs = ys @ [(a, v)])"
  by (cases xs rule: rev_cases) auto

lemmas heap_simps = load_def set_prev_def set_next_def zfree_node_def

lemma unat_len: "list_rep h l xs \<Longrightarrow> unat (len l) = length xs"
  by (simp add: list_rep_def unat_of_nat)

lemma len_0_iff: "list_rep h l xs \<Longrightarrow> len l = 0 \<longleftrightarrow> xs = []"
  using unat_len [of h l xs] by (metis length_0_conv unat_eq_0)

lemma dlseg_values: "dlseg h p xs n \<Longrightarrow> map (\<lambda>a. map_option value (h a)) (addrs xs) = map Some (map snd xs)"
  by (induction h p xs n rule: dlseg.induct) auto

section \<open>Each operation on the represented sequence\<close>

lemma listCreate_rep: "list_rep h listCreate []"
  by (simp add: list_rep_def listCreate_def)

lemma listAddNodeHead_rep:
  assumes "list_rep h l xs" "h a = None" "room xs"
  shows "\<exists>h' l'. listAddNodeHead h l a v = Some (h', l') \<and> list_rep h' l' ((a, v) # xs)
    \<and> (\<forall>b. b \<notin> insert a (set (addrs xs)) \<longrightarrow> h' b = h b)"
proof (cases xs)
  case Nil
  then show ?thesis using assms len_0_iff [OF assms(1)]
    by (simp add: listAddNodeHead_def list_rep_def)
next
  case (Cons x ys)
  obtain b w where x: "x = (b, w)" by (cases x)
  have "a \<notin> set (addrs xs)" using assms fresh_not_in unfolding list_rep_def by blast
  then show ?thesis using assms len_0_iff [OF assms(1)] Cons x
    by (auto simp: listAddNodeHead_def list_rep_def heap_simps dlseg_frame)
qed

lemma listAddNodeTail_rep:
  assumes "list_rep h l xs" "h a = None" "room xs"
  shows "\<exists>h' l'. listAddNodeTail h l a v = Some (h', l') \<and> list_rep h' l' (xs @ [(a, v)])
    \<and> (\<forall>b. b \<notin> insert a (set (addrs xs)) \<longrightarrow> h' b = h b) \<and> dup l' = dup l \<and> free l' = free l"
proof (cases xs rule: rev_cases)
  case Nil
  then show ?thesis using assms len_0_iff [OF assms(1)]
    by (simp add: listAddNodeTail_def list_rep_def)
next
  case (snoc ys x)
  obtain b w where x: "x = (b, w)" by (cases x)
  have "a \<notin> set (addrs xs)" using assms fresh_not_in unfolding list_rep_def by blast
  then show ?thesis using assms len_0_iff [OF assms(1)] snoc x
    by (auto simp: listAddNodeTail_def list_rep_def heap_simps dlseg_frame)
qed

lemma listInsertNode_after:
  assumes "list_rep h l (xs @ (b, w) # ys)" "h a = None" "room (xs @ (b, w) # ys)"
  shows "\<exists>h' l'. listInsertNode h l (Some b) a v True = Some (h', l')
    \<and> list_rep h' l' (xs @ (b, w) # (a, v) # ys)
    \<and> (\<forall>c. c \<notin> insert a (set (addrs (xs @ (b, w) # ys))) \<longrightarrow> h' c = h c)"
proof -
  have a: "a \<notin> set (addrs (xs @ (b, w) # ys))" using assms fresh_not_in unfolding list_rep_def by blast
  show ?thesis
  proof (cases ys)
    case Nil
    with a assms show ?thesis
      by (auto simp: listInsertNode_def list_rep_def heap_simps dlseg_frame)
  next
    case (Cons y zs)
    obtain c u where y: "y = (c, u)" by (cases y)
    have "lastp (Some b) ys \<noteq> Some b"
      using assms(1) Cons unfolding list_rep_def lastp_def by (auto dest: arg_cong [of _ _ fst])
    with Cons y a assms show ?thesis
      by (auto simp: listInsertNode_def list_rep_def heap_simps dlseg_frame)
  qed
qed

lemma listInsertNode_before:
  assumes "list_rep h l (xs @ (b, w) # ys)" "h a = None" "room (xs @ (b, w) # ys)"
  shows "\<exists>h' l'. listInsertNode h l (Some b) a v False = Some (h', l')
    \<and> list_rep h' l' (xs @ (a, v) # (b, w) # ys)
    \<and> (\<forall>c. c \<notin> insert a (set (addrs (xs @ (b, w) # ys))) \<longrightarrow> h' c = h c)"
proof -
  have a: "a \<notin> set (addrs (xs @ (b, w) # ys))" using assms fresh_not_in unfolding list_rep_def by blast
  show ?thesis
  proof (cases xs rule: rev_cases)
    case Nil
    with a assms show ?thesis
      by (auto simp: listInsertNode_def list_rep_def heap_simps dlseg_frame)
  next
    case (snoc zs y)
    obtain c u where y: "y = (c, u)" by (cases y)
    have "firstp xs (Some b) \<noteq> Some b" using assms(1) snoc unfolding list_rep_def
      by (cases zs) auto
    with snoc y a assms show ?thesis
      by (auto simp: listInsertNode_def list_rep_def heap_simps dlseg_frame)
  qed
qed

lemma listDelNode_rep:
  assumes "list_rep h l (xs @ (b, w) # ys)"
  shows "\<exists>h' l'. listDelNode h l (Some b) = Some (h', l', if free l then [w] else [])
    \<and> list_rep h' l' (xs @ ys) \<and> h' b = None
    \<and> (\<forall>c. c \<notin> set (addrs (xs @ (b, w) # ys)) \<longrightarrow> h' c = h c)"
proof (cases xs rule: rev_cases)
  case Nil
  show ?thesis
  proof (cases ys)
    case Nil
    with \<open>xs = []\<close> assms show ?thesis
      by (auto simp: listDelNode_def list_rep_def heap_simps)
  next
    case (Cons y zs)
    obtain c u where y: "y = (c, u)" by (cases y)
    with Cons \<open>xs = []\<close> assms show ?thesis
      by (auto simp: listDelNode_def list_rep_def heap_simps dlseg_frame)
  qed
next
  case (snoc xs' x)
  obtain d t where x: "x = (d, t)" by (cases x)
  show ?thesis
  proof (cases ys)
    case Nil
    with snoc x assms show ?thesis
      by (auto simp: listDelNode_def list_rep_def heap_simps dlseg_frame)
  next
    case (Cons y zs)
    obtain c u where y: "y = (c, u)" by (cases y)
    with snoc x Cons assms show ?thesis
      by (auto simp: listDelNode_def list_rep_def heap_simps dlseg_frame)
  qed
qed

lemma listEmpty_loop_eq:
  assumes "dlseg h p xs None" "distinct (addrs xs)"
  shows "\<exists>h'. listEmpty_loop h fr (firstp xs None) (length xs) = Some (h', if fr then map snd xs else [])
    \<and> (\<forall>a. h' a = (if a \<in> set (addrs xs) then None else h a))"
  using assms
proof (induction xs arbitrary: h p)
  case (Cons x xs)
  obtain a v where x: "x = (a, v)" by (cases x)
  have "dlseg (h(a := None)) (Some a) xs None" using Cons.prems x by (simp add: dlseg_frame)
  then obtain h' where "listEmpty_loop (h(a := None)) fr (firstp xs None) (length xs) = Some (h', if fr then map snd xs else [])"
    "\<forall>b. h' b = (if b \<in> set (addrs xs) then None else (h(a := None)) b)"
    using Cons.IH Cons.prems x by fastforce
  with Cons.prems x show ?case by (auto simp: heap_simps)
qed simp

lemma listEmpty_rep:
  assumes "list_rep h l xs"
  shows "\<exists>h' l'. listEmpty h l = Some (h', l', if free l then map snd xs else [])
    \<and> list_rep h' l' [] \<and> (\<forall>a. h' a = (if a \<in> set (addrs xs) then None else h a))"
  using listEmpty_loop_eq [of h None xs "free l"] assms unat_len [OF assms]
  by (auto simp: listEmpty_def list_rep_def)

lemma listNext_head:
  "dlseg h p xs None \<Longrightarrow> listNext h \<lparr>iter_next = firstp xs None, direction = AL_START_HEAD\<rparr> =
     Some (firstp xs None, \<lparr>iter_next = firstp (List.tl xs) None, direction = AL_START_HEAD\<rparr>)"
  by (cases xs) (auto simp: listNext_def heap_simps)

lemma listNext_tail:
  "dlseg h None xs n \<Longrightarrow> listNext h \<lparr>iter_next = lastp None xs, direction = AL_START_TAIL\<rparr> =
     Some (lastp None xs, \<lparr>iter_next = lastp None (butlast xs), direction = AL_START_TAIL\<rparr>)"
  using lastp_cases [of xs] by (auto simp: listNext_def heap_simps)

text \<open>What \<open>k\<close> calls of \<^verbatim>\<open>listNext\<close> return, as a list.\<close>

fun listNext_run :: "'v heap \<Rightarrow> nat \<Rightarrow> listIter \<Rightarrow> ptr list option" where
  "listNext_run h 0 iter = Some []"
| "listNext_run h (Suc k) iter = do {
     (p, iter) \<leftarrow> listNext h iter; ps \<leftarrow> listNext_run h k iter; Some (p # ps) }"

lemma listNext_run_head:
  "dlseg h p xs None \<Longrightarrow>
   listNext_run h (Suc (length xs)) \<lparr>iter_next = firstp xs None, direction = AL_START_HEAD\<rparr> =
     Some (map Some (addrs xs) @ [None])"
proof (induction xs arbitrary: p)
  case Nil
  then show ?case by (simp add: listNext_def)
next
  case (Cons x xs)
  obtain a v where x: "x = (a, v)" by (cases x)
  have "listNext h \<lparr>iter_next = firstp (x # xs) None, direction = AL_START_HEAD\<rparr> =
      Some (Some a, \<lparr>iter_next = firstp xs None, direction = AL_START_HEAD\<rparr>)"
    using listNext_head [OF Cons.prems] x by simp
  moreover have "dlseg h (Some a) xs None" using Cons.prems x by simp
  ultimately show ?case using Cons.IH x by (simp del: listNext_run.simps(2) add: listNext_run.simps(2) [of h "Suc (length xs)"])
qed

lemma listNext_run_tail:
  "dlseg h None xs n \<Longrightarrow>
   listNext_run h (Suc (length xs)) \<lparr>iter_next = lastp None xs, direction = AL_START_TAIL\<rparr> =
     Some (map Some (rev (addrs xs)) @ [None])"
proof (induction xs arbitrary: n rule: rev_induct)
  case Nil
  then show ?case by (simp add: listNext_def)
next
  case (snoc x xs)
  obtain a v where x: "x = (a, v)" by (cases x)
  have "listNext h \<lparr>iter_next = lastp None (xs @ [x]), direction = AL_START_TAIL\<rparr> =
      Some (Some a, \<lparr>iter_next = lastp None xs, direction = AL_START_TAIL\<rparr>)"
    using listNext_tail [OF snoc.prems] x by simp
  moreover have "dlseg h None xs (Some a)" using snoc.prems x by simp
  ultimately show ?case using snoc.IH x
    by (simp del: listNext_run.simps(2) add: listNext_run.simps(2) [of h "Suc (length xs)"])
qed

definition matches :: "('v \<Rightarrow> 'v \<Rightarrow> bool) option \<Rightarrow> 'v \<Rightarrow> 'v \<Rightarrow> bool" where
  "matches mt key v = (case mt of Some f \<Rightarrow> f v key | None \<Rightarrow> key = v)"

lemma listSearchKey_loop_eq:
  "dlseg h p xs None \<Longrightarrow>
   listSearchKey_loop h mt key \<lparr>iter_next = firstp xs None, direction = AL_START_HEAD\<rparr> =
     Some (map_option fst (find (\<lambda>x. matches mt key (snd x)) xs))"
proof (induction xs arbitrary: p)
  case Nil
  then show ?case by (subst listSearchKey_loop.simps) (simp add: listNext_def)
next
  case (Cons x xs)
  obtain a v where x: "x = (a, v)" by (cases x)
  with Cons.prems have "dlseg h (Some a) xs None" by simp
  then show ?case
    using Cons.IH listNext_head [OF Cons.prems] Cons.prems x
    by (subst listSearchKey_loop.simps) (auto simp flip: matches_def)
qed

lemma listIndex_loop_next:
  "dlseg h p xs None \<Longrightarrow> listIndex_loop h next i (firstp xs None) = Some (firstp (drop i xs) None)"
proof (induction i arbitrary: p xs)
  case (Suc i)
  then show ?case by (cases xs) (auto simp: heap_simps)
qed simp

lemma listIndex_loop_prev:
  "dlseg h None xs n \<Longrightarrow> listIndex_loop h prev i (lastp None xs) = Some (lastp None (take (length xs - i) xs))"
proof (induction i arbitrary: n xs)
  case (Suc i)
  then show ?case by (cases xs rule: rev_cases) (auto simp: heap_simps)
qed simp

lemma listRotate_rep:
  assumes "list_rep h l (xs @ [x])"
  shows "\<exists>h' l'. listRotate h l = Some (h', l') \<and> list_rep h' l' (x # xs)
    \<and> (\<forall>c. c \<notin> set (addrs (xs @ [x])) \<longrightarrow> h' c = h c)"
proof -
  obtain a v where x: "x = (a, v)" by (cases x)
  have l: "len l \<le> 1 \<longleftrightarrow> xs = []"
    using unat_len [OF assms] by (auto simp: word_le_nat_alt)
  show ?thesis
  proof (cases xs rule: rev_cases)
    case Nil
    with l assms show ?thesis by (auto simp: listRotate_def Let_def)
  next
    case (snoc ys y)
    obtain b w where y: "y = (b, w)" by (cases y)
    show ?thesis
    proof (cases ys)
      case Nil
      with snoc x y l assms show ?thesis
        by (auto simp: listRotate_def Let_def list_rep_def heap_simps dlseg_frame)
    next
      case (Cons z zs)
      obtain c u where "z = (c, u)" by (cases z)
      with Cons snoc x y l assms show ?thesis
        by (auto simp: listRotate_def Let_def list_rep_def heap_simps dlseg_frame)
    qed
  qed
qed

lemma listJoin_rep:
  assumes "list_rep h l xs" "list_rep h ol ys" "set (addrs xs) \<inter> set (addrs ys) = {}"
    and "length xs + length ys < 2 ^ 64"
  shows "\<exists>h' l' ol'. listJoin h l ol = Some (h', l', ol') \<and> list_rep h' l' (xs @ ys) \<and> list_rep h' ol' []"
proof (cases xs rule: rev_cases)
  case Nil
  then show ?thesis
    using assms by (cases ys) (auto simp: listJoin_def list_rep_def heap_simps lastp_def dlseg_frame)
next
  case (snoc xs' x)
  obtain a v where x: "x = (a, v)" by (cases x)
  show ?thesis
  proof (cases ys)
    case Nil
    with snoc x assms show ?thesis
      by (auto simp: listJoin_def list_rep_def heap_simps fun_upd_idem)
  next
    case (Cons y ys')
    obtain b w where "y = (b, w)" by (cases y)
    with snoc x Cons assms show ?thesis
      by (auto simp: listJoin_def list_rep_def heap_simps dlseg_frame lastp_def)
  qed
qed

section \<open>Duplication\<close>

definition dupf :: "'v list_hdr \<Rightarrow> 'v \<Rightarrow> 'v option" where
  "dupf l v = (case dup l of Some f \<Rightarrow> f v | None \<Rightarrow> Some v)"

lemma dupf_eq: "dup l = dup l' \<Longrightarrow> dupf l = dupf l'"
  by (simp add: fun_eq_iff dupf_def)

lemma listDup_loop_step:
  assumes "dlseg h p ((a, v) # xs) None"
  shows "listDup_loop h copy \<lparr>iter_next = Some a, direction = AL_START_HEAD\<rparr> pool =
    (case dupf copy v of
       None \<Rightarrow> do { r \<leftarrow> listRelease h copy; Some (fst r, None, snd r) }
     | Some v' \<Rightarrow> (case pool of [] \<Rightarrow> None | b # bs \<Rightarrow> do {
         s \<leftarrow> listAddNodeTail h copy b v';
         listDup_loop (fst s) (snd s) \<lparr>iter_next = firstp xs None, direction = AL_START_HEAD\<rparr> bs }))"
  using assms listNext_head [OF assms]
  by (subst listDup_loop.simps) (simp add: dupf_def split: option.split list.split)

lemma listDup_loop_Nil:
  "listDup_loop h copy \<lparr>iter_next = None, direction = d\<rparr> pool = Some (h, Some copy, [])"
  by (subst listDup_loop.simps) (simp add: listNext_def)

lemma dlseg_after_add:
  assumes "dlseg h p (x # xs) None" "x = (a, v)" "set (addrs (x # xs)) \<inter> set (addrs cs) = {}"
    and "b \<notin> set (addrs (x # xs))" "\<forall>c. c \<notin> insert b (set (addrs cs)) \<longrightarrow> h1 c = h c"
  shows "dlseg h1 (Some a) xs None"
proof (subst dlseg_cong)
  show "h1 c = h c" if "c \<in> set (addrs xs)" for c
  proof -
    from that have "c \<in> set (addrs (x # xs))" by simp
    with assms(3,4) have "c \<notin> set (addrs cs)" "c \<noteq> b" by blast+
    with assms(5) show ?thesis by simp
  qed
  show "dlseg h (Some a) xs None" using assms(1,2) by simp
qed

lemma pool_after_add:
  assumes "list_rep h copy cs" "\<forall>c \<in> set bs. h c = None" "b \<notin> set bs"
    and "\<forall>c. c \<notin> insert b (set (addrs cs)) \<longrightarrow> h1 c = h c"
  shows "\<forall>c \<in> set bs. h1 c = None"
proof
  fix c assume "c \<in> set bs"
  with assms(2) have "h c = None" by simp
  moreover from this have "c \<notin> set (addrs cs)" using assms(1) fresh_not_in unfolding list_rep_def by blast
  moreover have "c \<noteq> b" using \<open>c \<in> set bs\<close> assms(3) by auto
  ultimately show "h1 c = None" using assms(4) by simp
qed

lemma listDup_loop_some:
  assumes "dlseg h p xs None" "list_rep h copy cs" "set (addrs xs) \<inter> set (addrs cs) = {}"
    and "length pool = length xs" "distinct pool" "\<forall>a \<in> set pool. h a = None"
    and "length cs + length xs < 2 ^ 64" "those (map (dupf copy) (map snd xs)) = Some vs"
  shows "\<exists>h' copy'. listDup_loop h copy \<lparr>iter_next = firstp xs None, direction = AL_START_HEAD\<rparr> pool =
      Some (h', Some copy', []) \<and> list_rep h' copy' (cs @ zip pool vs)
    \<and> (\<forall>a. a \<notin> set (addrs cs) \<union> set pool \<longrightarrow> h' a = h a)"
  using assms
proof (induction xs arbitrary: h copy cs pool p vs)
  case Nil
  then show ?case by (simp add: listDup_loop_Nil)
next
  case (Cons x xs)
  obtain a v where x: "x = (a, v)" by (cases x)
  obtain b bs where s: "pool = b # bs" using Cons.prems(4) by (cases pool) auto
  from Cons.prems(8) x obtain w ws where w: "dupf copy v = Some w" and vs: "vs = w # ws"
    and ws: "those (map (dupf copy) (map snd xs)) = Some ws" by (auto split: option.splits)
  have "room cs" "h b = None" using Cons.prems(6,7) s by auto
  then obtain h1 c1 where add: "listAddNodeTail h copy b w = Some (h1, c1)"
    and r1: "list_rep h1 c1 (cs @ [(b, w)])" and fr: "\<forall>c. c \<notin> insert b (set (addrs cs)) \<longrightarrow> h1 c = h c"
    and d: "dup c1 = dup copy"
    using listAddNodeTail_rep [OF Cons.prems(2) \<open>h b = None\<close> \<open>room cs\<close>, of w] by auto
  have bn: "b \<notin> set (addrs (x # xs))" by (rule fresh_not_in [OF Cons.prems(1) \<open>h b = None\<close>])
  have seg: "dlseg h1 (Some a) xs None" by (rule dlseg_after_add [OF Cons.prems(1) x Cons.prems(3) bn fr])
  have "\<exists>h' copy'. listDup_loop h1 c1 \<lparr>iter_next = firstp xs None, direction = AL_START_HEAD\<rparr> bs =
      Some (h', Some copy', []) \<and> list_rep h' copy' ((cs @ [(b, w)]) @ zip bs ws)
    \<and> (\<forall>a. a \<notin> set (addrs (cs @ [(b, w)])) \<union> set bs \<longrightarrow> h' a = h1 a)"
  proof (rule Cons.IH [OF seg r1])
    show "\<forall>c \<in> set bs. h1 c = None"
      by (rule pool_after_add [OF Cons.prems(2) _ _ fr]) (use Cons.prems(5,6) s in auto)
    show "those (map (dupf c1) (map snd xs)) = Some ws" using ws dupf_eq [OF d] by simp
  qed (use Cons.prems(3-7) s bn in auto)
  then obtain h' copy' where "listDup_loop h1 c1 \<lparr>iter_next = firstp xs None, direction = AL_START_HEAD\<rparr> bs =
      Some (h', Some copy', [])" "list_rep h' copy' (cs @ (b, w) # zip bs ws)"
    "\<forall>a. a \<notin> set (addrs cs) \<union> insert b (set bs) \<longrightarrow> h' a = h1 a" by auto
  with listDup_loop_step [OF Cons.prems(1) [unfolded x]] add w s vs x fr show ?case by auto
qed

text \<open>When the duplication method fails, the nodes copied so far are freed again.\<close>

lemma listDup_loop_none:
  assumes "dlseg h p xs None" "list_rep h copy cs" "set (addrs xs) \<inter> set (addrs cs) = {}"
    and "length pool = length xs" "distinct pool" "\<forall>a \<in> set pool. h a = None"
    and "length cs + length xs < 2 ^ 64" "those (map (dupf copy) (map snd xs)) = None"
  shows "\<exists>h' freed. listDup_loop h copy \<lparr>iter_next = firstp xs None, direction = AL_START_HEAD\<rparr> pool =
      Some (h', None, freed) \<and> (\<forall>a. h' a = (if a \<in> set (addrs cs) then None else h a))"
  using assms
proof (induction xs arbitrary: h copy cs pool p)
  case (Cons x xs)
  obtain a v where x: "x = (a, v)" by (cases x)
  obtain b bs where s: "pool = b # bs" using Cons.prems(4) by (cases pool) auto
  show ?case
  proof (cases "dupf copy v")
    case None
    with listDup_loop_step [OF Cons.prems(1) [unfolded x]] listEmpty_rep [OF Cons.prems(2)] x show ?thesis
      by (auto simp: listRelease_def)
  next
    case (Some w)
    have "room cs" "h b = None" using Cons.prems(6,7) s by auto
    then obtain h1 c1 where add: "listAddNodeTail h copy b w = Some (h1, c1)"
      and r1: "list_rep h1 c1 (cs @ [(b, w)])" and fr: "\<forall>c. c \<notin> insert b (set (addrs cs)) \<longrightarrow> h1 c = h c"
      and d: "dup c1 = dup copy"
      using listAddNodeTail_rep [OF Cons.prems(2) \<open>h b = None\<close> \<open>room cs\<close>, of w] by auto
    have bn: "b \<notin> set (addrs (x # xs))" by (rule fresh_not_in [OF Cons.prems(1) \<open>h b = None\<close>])
    have seg: "dlseg h1 (Some a) xs None" by (rule dlseg_after_add [OF Cons.prems(1) x Cons.prems(3) bn fr])
    have "\<exists>h' freed. listDup_loop h1 c1 \<lparr>iter_next = firstp xs None, direction = AL_START_HEAD\<rparr> bs =
        Some (h', None, freed) \<and> (\<forall>a. h' a = (if a \<in> set (addrs (cs @ [(b, w)])) then None else h1 a))"
    proof (rule Cons.IH [OF seg r1])
      show "\<forall>c \<in> set bs. h1 c = None"
        by (rule pool_after_add [OF Cons.prems(2) _ _ fr]) (use Cons.prems(5,6) s in auto)
      show "those (map (dupf c1) (map snd xs)) = None"
        using Cons.prems(8) Some dupf_eq [OF d] x by simp
    qed (use Cons.prems(3-7) s bn in auto)
    then obtain h' freed where "listDup_loop h1 c1 \<lparr>iter_next = firstp xs None, direction = AL_START_HEAD\<rparr> bs =
        Some (h', None, freed)" "\<forall>a. h' a = (if a \<in> insert b (set (addrs cs)) then None else h1 a)" by auto
    with listDup_loop_step [OF Cons.prems(1) [unfolded x]] add Some s x fr \<open>h b = None\<close> show ?thesis by auto
  qed
qed simp

section \<open>The list as an abstract sequence\<close>

text \<open>The contract a client of the list relies on: a store that represents a sequence of values,
  which grows at both ends as long as fresh addresses are handed out.\<close>

locale seq_store =
  fixes rep :: "'s \<Rightarrow> 'v list \<Rightarrow> bool" and fresh :: "'s \<Rightarrow> addr \<Rightarrow> bool"
    and add_head add_tail :: "'s \<Rightarrow> addr \<Rightarrow> 'v \<Rightarrow> 's option"
  assumes add_head: "rep s vs \<Longrightarrow> fresh s a \<Longrightarrow> length vs + 1 < 2 ^ 64 \<Longrightarrow>
      \<exists>s'. add_head s a v = Some s' \<and> rep s' (v # vs) \<and> (\<forall>b. fresh s b \<and> b \<noteq> a \<longrightarrow> fresh s' b)"
    and add_tail: "rep s vs \<Longrightarrow> fresh s a \<Longrightarrow> length vs + 1 < 2 ^ 64 \<Longrightarrow>
      \<exists>s'. add_tail s a v = Some s' \<and> rep s' (vs @ [v]) \<and> (\<forall>b. fresh s b \<and> b \<noteq> a \<longrightarrow> fresh s' b)"
begin

primrec add_all :: "('s \<Rightarrow> addr \<Rightarrow> 'v \<Rightarrow> 's option) \<Rightarrow> 's \<Rightarrow> (addr \<times> 'v) list \<Rightarrow> 's option" where
  "add_all f s [] = Some s"
| "add_all f s (x # xs) = Option.bind (f s (fst x) (snd x)) (\<lambda>s. add_all f s xs)"

lemma add_all_tail:
  "rep s vs \<Longrightarrow> distinct (map fst xs) \<Longrightarrow> \<forall>x \<in> set xs. fresh s (fst x) \<Longrightarrow>
   length vs + length xs < 2 ^ 64 \<Longrightarrow>
   \<exists>s'. add_all add_tail s xs = Some s' \<and> rep s' (vs @ map snd xs)"
proof (induction xs arbitrary: s vs)
  case (Cons x xs)
  then obtain s1 where s1: "add_tail s (fst x) (snd x) = Some s1" "rep s1 (vs @ [snd x])"
    "\<forall>b. fresh s b \<and> b \<noteq> fst x \<longrightarrow> fresh s1 b"
    using add_tail [of s vs "fst x" "snd x"] by auto
  have "\<forall>y \<in> set xs. fresh s1 (fst y)"
  proof
    fix y assume "y \<in> set xs"
    then have "fst y \<in> set (map fst xs)" by simp
    with Cons.prems(2) have "fst y \<noteq> fst x" by (metis distinct.simps(2) list.simps(9))
    with Cons.prems(3) s1(3) \<open>y \<in> set xs\<close> show "fresh s1 (fst y)" by simp
  qed
  with Cons.IH [of s1 "vs @ [snd x]"] Cons.prems s1 show ?case by auto
qed simp

lemma add_all_head:
  "rep s vs \<Longrightarrow> distinct (map fst xs) \<Longrightarrow> \<forall>x \<in> set xs. fresh s (fst x) \<Longrightarrow>
   length vs + length xs < 2 ^ 64 \<Longrightarrow>
   \<exists>s'. add_all add_head s xs = Some s' \<and> rep s' (rev (map snd xs) @ vs)"
proof (induction xs arbitrary: s vs)
  case (Cons x xs)
  then obtain s1 where s1: "add_head s (fst x) (snd x) = Some s1" "rep s1 (snd x # vs)"
    "\<forall>b. fresh s b \<and> b \<noteq> fst x \<longrightarrow> fresh s1 b"
    using add_head [of s vs "fst x" "snd x"] by auto
  have "\<forall>y \<in> set xs. fresh s1 (fst y)"
  proof
    fix y assume "y \<in> set xs"
    then have "fst y \<in> set (map fst xs)" by simp
    with Cons.prems(2) have "fst y \<noteq> fst x" by (metis distinct.simps(2) list.simps(9))
    with Cons.prems(3) s1(3) \<open>y \<in> set xs\<close> show "fresh s1 (fst y)" by simp
  qed
  with Cons.IH [of s1 "snd x # vs"] Cons.prems s1 show ?case by auto
qed simp

end

definition val_rep :: "'v heap \<times> 'v list_hdr \<Rightarrow> 'v list \<Rightarrow> bool" where
  "val_rep s vs \<longleftrightarrow> (\<exists>xs. list_rep (fst s) (snd s) xs \<and> map snd xs = vs)"

interpretation adlist: seq_store val_rep "\<lambda>s a. fst s a = None"
  "\<lambda>s a v. listAddNodeHead (fst s) (snd s) a v" "\<lambda>s a v. listAddNodeTail (fst s) (snd s) a v"
proof unfold_locales
  fix s :: "'v heap \<times> 'v list_hdr" and vs a v
  assume "val_rep s vs" and a: "fst s a = None" and "length vs + 1 < 2 ^ 64"
  then obtain xs where r: "list_rep (fst s) (snd s) xs" and vs: "map snd xs = vs" and rm: "room xs"
    by (auto simp: val_rep_def)
  have fr: "b \<notin> set (addrs xs)" if "fst s b = None" for b
    using r that fresh_not_in unfolding list_rep_def by blast
  show "\<exists>s'. listAddNodeHead (fst s) (snd s) a v = Some s' \<and> val_rep s' (v # vs)
      \<and> (\<forall>b. fst s b = None \<and> b \<noteq> a \<longrightarrow> fst s' b = None)"
    using listAddNodeHead_rep [OF r a rm, of v] vs fr by (fastforce simp: val_rep_def)
  show "\<exists>s'. listAddNodeTail (fst s) (snd s) a v = Some s' \<and> val_rep s' (vs @ [v])
      \<and> (\<forall>b. fst s b = None \<and> b \<noteq> a \<longrightarrow> fst s' b = None)"
    using listAddNodeTail_rep [OF r a rm, of v] vs fr by (fastforce simp: val_rep_def)
qed

section \<open>Refinement: sequences of operations\<close>

datatype 'v list_op =
    OpAddHead addr 'v
  | OpAddTail addr 'v
  | OpInsert addr addr 'v bool
  | OpDel addr
  | OpRotate
  | OpEmpty

fun run_op :: "'v list_op \<Rightarrow> 'v heap \<times> 'v list_hdr \<Rightarrow> ('v heap \<times> 'v list_hdr) option" where
  "run_op (OpAddHead a v) (h, l) = listAddNodeHead h l a v"
| "run_op (OpAddTail a v) (h, l) = listAddNodeTail h l a v"
| "run_op (OpInsert b a v after) (h, l) = listInsertNode h l (Some b) a v after"
| "run_op (OpDel b) (h, l) = map_option (\<lambda>(h, l, _). (h, l)) (listDelNode h l (Some b))"
| "run_op OpRotate (h, l) = listRotate h l"
| "run_op OpEmpty (h, l) = map_option (\<lambda>(h, l, _). (h, l)) (listEmpty h l)"

text \<open>The same operations on the sequence; they are defined when the address handed out by the
  allocator is not in use and the node named is in the list.\<close>

fun abs_op :: "'v list_op \<Rightarrow> 'v cells \<Rightarrow> 'v cells option" where
  "abs_op (OpAddHead a v) xs = (if a \<notin> set (addrs xs) \<and> room xs then Some ((a, v) # xs) else None)"
| "abs_op (OpAddTail a v) xs = (if a \<notin> set (addrs xs) \<and> room xs then Some (xs @ [(a, v)]) else None)"
| "abs_op (OpInsert b a v after) xs =
     (let us = takeWhile (\<lambda>x. fst x \<noteq> b) xs; ys = dropWhile (\<lambda>x. fst x \<noteq> b) xs in
      if a \<notin> set (addrs xs) \<and> room xs \<and> ys \<noteq> []
      then Some (us @ (if after then hd ys # (a, v) # List.tl ys else (a, v) # ys)) else None)"
| "abs_op (OpDel b) xs = (if b \<in> set (addrs xs) then Some (filter (\<lambda>x. fst x \<noteq> b) xs) else None)"
| "abs_op OpRotate xs = Some (if xs = [] then [] else last xs # butlast xs)"
| "abs_op OpEmpty xs = Some []"

fun run_ops :: "'v list_op list \<Rightarrow> 'v heap \<times> 'v list_hdr \<Rightarrow> ('v heap \<times> 'v list_hdr) option" where
  "run_ops [] s = Some s"
| "run_ops (c # cs) s = Option.bind (run_op c s) (run_ops cs)"

fun abs_ops :: "'v list_op list \<Rightarrow> 'v cells \<Rightarrow> 'v cells option" where
  "abs_ops [] xs = Some xs"
| "abs_ops (c # cs) xs = Option.bind (abs_op c xs) (abs_ops cs)"

text \<open>The heap holds the nodes of the list and nothing else.\<close>

definition heap_rep :: "'v heap \<times> 'v list_hdr \<Rightarrow> 'v cells \<Rightarrow> bool" where
  "heap_rep s xs \<longleftrightarrow> list_rep (fst s) (snd s) xs \<and> (\<forall>a. a \<notin> set (addrs xs) \<longrightarrow> fst s a = None)"

lemma split_at_addr:
  assumes "distinct (addrs xs)" "b \<in> set (addrs xs)"
  obtains us w ys where "xs = us @ (b, w) # ys" "takeWhile (\<lambda>x. fst x \<noteq> b) xs = us"
    "dropWhile (\<lambda>x. fst x \<noteq> b) xs = (b, w) # ys" "filter (\<lambda>x. fst x \<noteq> b) xs = us @ ys"
proof -
  from assms(2) obtain w where "(b, w) \<in> set xs" by auto
  then obtain us ys where xs: "xs = us @ (b, w) # ys" by (auto dest: split_list)
  with assms(1) have "\<forall>x \<in> set us. fst x \<noteq> b" "\<forall>x \<in> set ys. fst x \<noteq> b" by force+
  with xs show thesis by (intro that [of us w ys]) (simp_all add: takeWhile_tail dropWhile_append3)
qed

lemma dropWhile_in: "dropWhile (\<lambda>x. fst x \<noteq> b) xs \<noteq> [] \<Longrightarrow> b \<in> set (addrs xs)"
  by (induction xs) (auto split: if_splits)

lemma run_op_sim:
  assumes "heap_rep s xs" "abs_op c xs = Some ys"
  shows "\<exists>s'. run_op c s = Some s' \<and> heap_rep s' ys"
proof -
  obtain h l where s: "s = (h, l)" by (cases s)
  have r: "list_rep h l xs" and out: "\<forall>a. a \<notin> set (addrs xs) \<longrightarrow> h a = None"
    and dist: "distinct (addrs xs)"
    using assms(1) s by (simp_all add: heap_rep_def list_rep_def)
  show ?thesis
  proof (cases c)
    case (OpAddHead a v)
    with assms(2) have "h a = None" "room xs" "ys = (a, v) # xs" using out by (auto split: if_splits)
    with listAddNodeHead_rep [OF r, of a v] out OpAddHead s show ?thesis by (fastforce simp: heap_rep_def)
  next
    case (OpAddTail a v)
    with assms(2) have "h a = None" "room xs" "ys = xs @ [(a, v)]" using out by (auto split: if_splits)
    with listAddNodeTail_rep [OF r, of a v] out OpAddTail s show ?thesis by (fastforce simp: heap_rep_def)
  next
    case (OpInsert b a v after)
    with assms(2) have a: "h a = None" and rm: "room xs" and b: "b \<in> set (addrs xs)"
      using out dropWhile_in by (auto simp: Let_def split: if_splits)
    obtain us w zs where xs: "xs = us @ (b, w) # zs" "takeWhile (\<lambda>x. fst x \<noteq> b) xs = us"
      "dropWhile (\<lambda>x. fst x \<noteq> b) xs = (b, w) # zs" by (rule split_at_addr [OF dist b])
    show ?thesis
    proof (cases after)
      case True
      with assms(2) OpInsert xs(2,3) have "ys = us @ (b, w) # (a, v) # zs" by (simp add: Let_def split: if_splits)
      with listInsertNode_after [OF r [unfolded xs(1)] a rm [unfolded xs(1)], of v] OpInsert s xs(1) out True
      show ?thesis by (fastforce simp: heap_rep_def)
    next
      case False
      with assms(2) OpInsert xs(2,3) have "ys = us @ (a, v) # (b, w) # zs" by (simp add: Let_def split: if_splits)
      with listInsertNode_before [OF r [unfolded xs(1)] a rm [unfolded xs(1)], of v] OpInsert s xs(1) out False
      show ?thesis by (fastforce simp: heap_rep_def)
    qed
  next
    case (OpDel b)
    with assms(2) have b: "b \<in> set (addrs xs)" by (auto split: if_splits)
    obtain us w zs where xs: "xs = us @ (b, w) # zs" "filter (\<lambda>x. fst x \<noteq> b) xs = us @ zs"
      by (rule split_at_addr [OF dist b])
    with assms(2) OpDel b have ys: "ys = us @ zs" by simp
    obtain h' l' where d: "listDelNode h l (Some b) = Some (h', l', if free l then [w] else [])"
      "list_rep h' l' ys" "h' b = None" and fr: "\<forall>c. c \<notin> set (addrs (us @ (b, w) # zs)) \<longrightarrow> h' c = h c"
      using listDelNode_rep [OF r [unfolded xs(1)]] ys by blast
    have "h' c = None" if "c \<notin> set (addrs ys)" for c
      by (cases "c = b") (use that d(3) fr out xs(1) ys in simp_all)
    with d OpDel s show ?thesis by (simp add: heap_rep_def)
  next
    case OpRotate
    show ?thesis
    proof (cases xs rule: rev_cases)
      case Nil
      with r OpRotate s assms show ?thesis
        by (auto simp: listRotate_def list_rep_def)
    next
      case (snoc us x)
      with assms(2) OpRotate have "ys = x # us" by simp
      with listRotate_rep [OF r [unfolded snoc]] OpRotate s snoc out show ?thesis
        by (fastforce simp: heap_rep_def)
    qed
  next
    case OpEmpty
    with listEmpty_rep [OF r] s assms(2) out show ?thesis by (fastforce simp: heap_rep_def)
  qed
qed

lemma run_ops_sim:
  "heap_rep s xs \<Longrightarrow> abs_ops cs xs = Some ys \<Longrightarrow> \<exists>s'. run_ops cs s = Some s' \<and> heap_rep s' ys"
proof (induction cs arbitrary: s xs)
  case (Cons c cs)
  then obtain zs where "abs_op c xs = Some zs" "abs_ops cs zs = Some ys"
    by (auto split: Option.bind_splits)
  with run_op_sim [OF Cons.prems(1)] Cons.IH show ?case by fastforce
qed simp

lemma heap_rep_create: "heap_rep (Map.empty, listCreate) []"
  by (simp add: heap_rep_def listCreate_rep)

section \<open>Properties of the component\<close>

text \<open>C8: starting from a created list, any sequence of head and tail insertions, insertions before or
  after a node, deletions, rotations and emptyings that is legal on the abstract sequence (fresh
  addresses, named nodes present, no counter overflow) runs without touching a null or dangling
  pointer, ends in a well-formed doubly linked list for the abstract result, and leaves no other
  node in the heap.\<close>

theorem adlist_refinement:
  assumes "abs_ops cs [] = Some ys"
  shows "\<exists>h l. run_ops cs (Map.empty, listCreate) = Some (h, l) \<and> list_rep h l ys
    \<and> dom h = set (addrs ys)"
proof -
  obtain s where s: "run_ops cs (Map.empty, listCreate) = Some s" "heap_rep s ys"
    using run_ops_sim [OF heap_rep_create assms] by blast
  obtain h l where hl: "s = (h, l)" by (cases s)
  have "a \<in> dom h \<longleftrightarrow> a \<in> set (addrs ys)" for a
    using s(2) hl dlseg_dom [of h None ys None a] by (auto simp: heap_rep_def list_rep_def)
  then have "dom h = set (addrs ys)" by blast
  with s hl show ?thesis by (simp add: heap_rep_def)
qed

theorem adlist_refinement_witness:
  "\<exists>h l. run_ops [OpAddTail 1 ''x'', OpAddTail 2 ''y'', OpInsert 2 3 ''z'' False, OpRotate, OpDel 1]
      (Map.empty, listCreate) = Some (h, l) \<and> list_rep h l [(2, ''y''), (3, ''z'')] \<and> dom h = {2, 3}"
  using adlist_refinement [of "[OpAddTail 1 ''x'', OpAddTail 2 ''y'', OpInsert 2 3 ''z'' False, OpRotate, OpDel 1]"
      "[(2, ''y''), (3, ''z'')]"]
  by simp

text \<open>Adding values one after the other at the tail of a new list (the contract of the sequence
  store), an iterator from the head returns the nodes in the order of insertion and then the null
  pointer, an iterator from the tail returns them in reverse.\<close>

theorem adlist_build_iterate:
  assumes "distinct (map fst xs)" "length xs < 2 ^ 64"
  shows "\<exists>h l ps. adlist.add_all (\<lambda>s a v. listAddNodeTail (fst s) (snd s) a v) (Map.empty, listCreate) xs = Some (h, l)
    \<and> listNext_run h (Suc (length xs)) (listRewind l) = Some (map Some ps @ [None])
    \<and> listNext_run h (Suc (length xs)) (listRewindTail l) = Some (map Some (rev ps) @ [None])
    \<and> map (\<lambda>p. map_option value (h p)) ps = map Some (map snd xs)"
proof -
  have "val_rep (Map.empty, listCreate) []" by (simp add: val_rep_def listCreate_rep)
  then obtain s where s: "adlist.add_all (\<lambda>s a v. listAddNodeTail (fst s) (snd s) a v) (Map.empty, listCreate) xs = Some s"
    "val_rep s (map snd xs)"
    using adlist.add_all_tail [of "(Map.empty, listCreate)" "[]" xs] assms by auto
  obtain h l where hl: "s = (h, l)" by (cases s)
  from s(2) hl obtain ys where r: "list_rep h l ys" and v: "map snd ys = map snd xs"
    by (auto simp: val_rep_def)
  have len: "length ys = length xs" using arg_cong [OF v, of length] by simp
  have seg: "dlseg h None ys None" using r by (simp add: list_rep_def)
  have "map (\<lambda>p. map_option value (h p)) (addrs ys) = map Some (map snd ys)"
    using dlseg_values [OF seg] .
  then show ?thesis
    using s(1) hl listNext_run_head [OF seg] listNext_run_tail [OF seg] r v len
    by (intro exI [of _ h] exI [of _ l] exI [of _ "addrs ys"])
      (simp add: listRewind_def listRewindTail_def list_rep_def del: listNext_run.simps)
qed

theorem adlist_build_iterate_witness:
  "\<exists>h l ps. adlist.add_all (\<lambda>s a v. listAddNodeTail (fst s) (snd s) a v) (Map.empty, listCreate) [(4, ''a''), (7, ''b'')] = Some (h, l)
    \<and> listNext_run h (Suc (Suc (Suc 0))) (listRewind l) = Some (map Some ps @ [None])
    \<and> listNext_run h (Suc (Suc (Suc 0))) (listRewindTail l) = Some (map Some (rev ps) @ [None])
    \<and> map (\<lambda>p. map_option value (h p)) ps = [Some ''a'', Some ''b'']"
  using adlist_build_iterate [of "[(4, ''a''), (7, ''b'')]"]
  by (simp del: listNext_run.simps adlist.add_all.simps)

text \<open>Duplicating a list leaves the original as it is. When the duplication method (the identity
  if there is none) succeeds on every value the copy represents the duplicated values on the fresh
  nodes; when it fails on some value the result is the null pointer and every node allocated for
  the copy has been freed again.\<close>

theorem listDup_spec:
  assumes "list_rep h orig xs" "length pool = length xs" "distinct pool" "\<forall>a \<in> set pool. h a = None"
  shows "(case those (map (dupf orig) (map snd xs)) of
      Some vs \<Rightarrow> \<exists>h' copy. listDup h orig pool = Some (h', Some copy, []) \<and> list_rep h' copy (zip pool vs)
        \<and> list_rep h' orig xs
    | None \<Rightarrow> \<exists>freed. listDup h orig pool = Some (h, None, freed))"
proof -
  let ?c = "listCreate\<lparr>dup := dup orig, free := free orig, match := match orig\<rparr>"
  have c: "list_rep h ?c []" by (simp add: list_rep_def listCreate_def)
  have d: "dupf ?c = dupf orig" by (rule dupf_eq) simp
  have seg: "dlseg h None xs None" and lx: "length xs < 2 ^ 64" and hd: "head orig = firstp xs None"
    using assms(1) by (simp_all add: list_rep_def)
  show ?thesis
  proof (cases "those (map (dupf orig) (map snd xs))")
    case None
    obtain h' freed where "listDup h orig pool = Some (h', None, freed)" "\<forall>a. h' a = h a"
      using listDup_loop_none [OF seg c, of pool] None d assms(2-4) lx hd by (auto simp: listDup_def listRewind_def)
    with None show ?thesis by (simp add: fun_eq_iff [symmetric])
  next
    case (Some vs)
    obtain h' copy where e: "listDup h orig pool = Some (h', Some copy, [])" "list_rep h' copy (zip pool vs)"
      and fr: "\<forall>a. a \<notin> set pool \<longrightarrow> h' a = h a"
      using listDup_loop_some [OF seg c, of pool vs] Some d assms(2-4) lx hd by (auto simp: listDup_def listRewind_def)
    have "h' a = h a" if "a \<in> set (addrs xs)" for a
      using fr dlseg_dom [OF seg that] assms(4) by metis
    then have "list_rep h' orig xs" using assms(1) dlseg_cong [of xs h' h None None] by (simp add: list_rep_def)
    with Some e show ?thesis by auto
  qed
qed

theorem listDup_spec_witness:
  "\<exists>h' copy. listDup [1 \<mapsto> \<lparr>prev = None, next = None, value = ''v''\<rparr>]
      (listCreate\<lparr>head := Some 1, tail := Some 1, len := 1\<rparr>) [5] = Some (h', Some copy, [])
    \<and> list_rep h' copy [(5, ''v'')]"
  using listDup_spec [of "[1 \<mapsto> \<lparr>prev = None, next = None, value = ''v''\<rparr>]"
      "listCreate\<lparr>head := Some 1, tail := Some 1, len := 1\<rparr>" "[(1, ''v'')]" "[5]"]
  by (auto simp: list_rep_def listCreate_def dupf_def)

text \<open>Indexing a list counts from the head for a non-negative index and from the tail for a
  negative one (-1 is the last node) and gives the null pointer exactly when the index is out of
  range.\<close>

theorem listIndex_spec:
  assumes "list_rep h l xs" "- (2 ^ 63) < i" "i < 2 ^ 63"
  shows "listIndex h l i = Some
    (if 0 \<le> i \<and> nat i < length xs then Some (fst (xs ! nat i))
     else if i < 0 \<and> nat (- i) \<le> length xs then Some (fst (xs ! (length xs - nat (- i))))
     else None)"
proof (cases "i < 0")
  case True
  define k where "k = nat (- i - 1)"
  have k: "nat (- i) = Suc k" using True by (simp add: k_def)
  have "listIndex h l i = Some (lastp None (take (length xs - k) xs))"
    using True assms listIndex_loop_prev [of h xs None k] by (simp add: listIndex_def list_rep_def k_def)
  moreover have "lastp None (take (length xs - k) xs) =
      (if Suc k \<le> length xs then Some (fst (xs ! (length xs - Suc k))) else None)"
    by (cases k; cases xs) (auto simp: lastp_def last_conv_nth min_def)
  ultimately show ?thesis using True k by simp
next
  case False
  have "listIndex h l i = Some (firstp (drop (nat i) xs) None)"
    using False assms listIndex_loop_next [of h None xs "nat i"] by (simp add: listIndex_def list_rep_def)
  moreover have "firstp (drop (nat i) xs) None = (if nat i < length xs then Some (fst (xs ! nat i)) else None)"
    by (cases "nat i < length xs") (simp_all add: drop_Suc_nth)
  ultimately show ?thesis using False by simp
qed

theorem listIndex_spec_witness:
  "listIndex [1 \<mapsto> \<lparr>prev = None, next = None, value = ''v''\<rparr>]
      (listCreate\<lparr>head := Some 1, tail := Some 1, len := 1\<rparr>) (-1) = Some (Some 1)"
  using listIndex_spec [of "[1 \<mapsto> \<lparr>prev = None, next = None, value = ''v''\<rparr>]"
      "listCreate\<lparr>head := Some 1, tail := Some 1, len := 1\<rparr>" "[(1, ''v'')]" "-1"]
  by (simp add: list_rep_def listCreate_def)

text \<open>Searching returns the first node whose value matches (by the match method, or by equality
  without one) and the null pointer when there is none; joining two lists over disjoint nodes
  represents the concatenation and leaves the second list empty.\<close>

theorem adlist_search_join:
  assumes "list_rep h l xs" "list_rep h ol ys" "set (addrs xs) \<inter> set (addrs ys) = {}"
    and "length xs + length ys < 2 ^ 64"
  shows "listSearchKey h l k = Some (map_option fst (find (\<lambda>x. matches (match l) k (snd x)) xs))
    \<and> (\<exists>h' l' ol'. listJoin h l ol = Some (h', l', ol') \<and> list_rep h' l' (xs @ ys) \<and> list_rep h' ol' [])"
  using listJoin_rep [OF assms] listSearchKey_loop_eq [of h None xs "match l" k] assms(1)
  by (simp add: listSearchKey_def listRewind_def list_rep_def)

theorem adlist_search_join_witness:
  "listSearchKey [1 \<mapsto> \<lparr>prev = None, next = None, value = ''v''\<rparr>]
      (listCreate\<lparr>head := Some 1, tail := Some 1, len := 1\<rparr>) ''v'' = Some (Some 1)"
  using adlist_search_join [of "[1 \<mapsto> \<lparr>prev = None, next = None, value = ''v''\<rparr>]"
      "listCreate\<lparr>head := Some 1, tail := Some 1, len := 1\<rparr>" "[(1, ''v'')]" listCreate "[]" "''v''"]
  by (simp add: list_rep_def listCreate_def matches_def)

end
