(* ===== verification/Util.thy ===== *)
theory Util
  imports Prelude
begin

text \<open>
  The path helpers of \<^verbatim>\<open>src/src/util.c\<close>: \<^verbatim>\<open>path_normalize\<close> with its two running
  indices over the source and the copy, and the recursive \<^verbatim>\<open>kx_mkdirp\<close> over a directory tree.
  \<^verbatim>\<open>mkdir\<close> is modelled for paths without \<^verbatim>\<open>..\<close> components.
\<close>

section \<open>Normalisation\<close>

abbreviation (input) PATH_SEPARATOR :: char where "PATH_SEPARATOR \<equiv> CHR ''/''"

function skip_slashes :: "string \<Rightarrow> nat \<Rightarrow> nat" where
  "skip_slashes path i = (if i < length path \<and> path ! i = CHR ''/'' then skip_slashes path (i + 1) else i)"
  by pat_completeness auto

termination
  by (relation "measure (\<lambda>(path, i). length path - i)") auto

declare skip_slashes.simps [simp del]

lemma skip_slashes_ge: "i \<le> skip_slashes path i"
proof (induction path i rule: skip_slashes.induct)
  case (1 path i)
  then show ?case by (subst skip_slashes.simps) (auto dest: Suc_leD)
qed

text \<open>\<open>path\<close> is the source string; reading it at its length gives the terminator. After a slash the
  inner loop moves \<^verbatim>\<open>i\<close> to the last slash of the run and the loop increment past it.\<close>

function path_normalize_loop :: "string \<Rightarrow> cmem \<Rightarrow> nat \<Rightarrow> nat \<Rightarrow> (cmem \<times> nat) option" where
  "path_normalize_loop path copy ptr i =
     (if i < length copy then
        if copy ! i = NUL then Some (copy, ptr)
        else do {
          c \<leftarrow> peek (path @ [NUL]) i;
          copy \<leftarrow> poke copy ptr c;
          if c = CHR ''/'' then path_normalize_loop path copy (ptr + 1) (skip_slashes path (i + 1))
          else path_normalize_loop path copy (ptr + 1) (i + 1)
        }
      else None)"
  by pat_completeness auto

termination
proof (relation "measure (\<lambda>(_, copy, _, i). length copy - i)", goal_cases)
  case (2 path copy ptr i c copy')
  then have "length copy' = length copy" by (simp add: poke_length)
  with 2 show ?case using skip_slashes_ge [of "i + 1" path] by simp
qed (auto dest: poke_length)

declare path_normalize_loop.simps [simp del]

definition path_normalize :: "string \<Rightarrow> string option" where
  "path_normalize path = do {
     (copy, ptr) \<leftarrow> path_normalize_loop path (path @ [NUL]) 0 0;
     copy \<leftarrow> poke copy ptr NUL;
     cstr copy 0
   }"

text \<open>Reference: every run of slashes becomes one slash.\<close>

function squeeze :: "string \<Rightarrow> string" where
  "squeeze [] = []"
| "squeeze (c # cs) = c # squeeze (if c = CHR ''/'' then dropWhile (\<lambda>c. c = CHR ''/'') cs else cs)"
  by pat_completeness auto

termination
  by (relation "measure length") (auto simp: length_dropWhile_le less_Suc_eq_le)

lemma drop_skip_slashes:
  "i \<le> length path \<Longrightarrow> drop (skip_slashes path i) path = dropWhile (\<lambda>c. c = CHR ''/'') (drop i path)
     \<and> skip_slashes path i \<le> length path"
proof (induction path i rule: skip_slashes.induct)
  case (1 path i)
  show ?case
  proof (cases "i < length path \<and> path ! i = CHR ''/''")
    case True
    with 1 show ?thesis by (subst (1 2) skip_slashes.simps) (simp add: drop_Suc_nth [of i path])
  next
    case False
    with 1 show ?thesis
      by (subst (1 2) skip_slashes.simps) (cases "i < length path"; simp add: drop_Suc_nth [of i path])
  qed
qed

lemma path_normalize_loop_eq:
  assumes "is_cstring path" "ptr \<le> i" "i \<le> length path" "length copy = length path + 1"
    and "drop i copy = drop i (path @ [NUL])"
  shows "\<exists>copy' ptr'. path_normalize_loop path copy ptr i = Some (copy', ptr')
    \<and> length copy' = length path + 1 \<and> ptr' \<le> length path \<and> take ptr' copy' = take ptr copy @ squeeze (drop i path)"
  using assms
proof (induction path copy ptr i rule: path_normalize_loop.induct)
  case (1 path copy ptr i)
  have il: "i < length copy" using "1.prems" by simp
  have ci: "copy ! i = (path @ [NUL]) ! i"
    using "1.prems"(3-5) by (metis il hd_drop_conv_nth length_append_singleton less_Suc_eq_le Suc_eq_plus1)
  show ?case
  proof (cases "i = length path")
    case True
    then have "copy ! i = NUL" using ci by simp
    then show ?thesis using True il "1.prems" by (subst path_normalize_loop.simps) simp
  next
    case False
    then have i: "i < length path" using "1.prems"(3) by simp
    let ?c = "path ! i"
    have cn: "?c \<noteq> NUL" using "1.prems"(1) i by (metis is_cstring_def nth_mem)
    have pk: "peek (path @ [NUL]) i = Some ?c" using i by (simp add: peek_def nth_append)
    let ?copy = "copy[ptr := ?c]"
    have po: "poke copy ptr ?c = Some ?copy" using "1.prems" il by (simp add: poke_def)
    have cc: "copy ! i \<noteq> NUL" using ci cn i by (simp add: nth_append)
    have tk: "take (ptr + 1) ?copy = take ptr copy @ [?c]"
      using "1.prems"(2) il by (simp add: take_Suc_conv_app_nth)
    have dr: "drop j ?copy = drop j (path @ [NUL])" if "i < j" for j
    proof -
      have "drop j copy = drop (j - i) (drop i copy)" using that by simp
      also have "\<dots> = drop j (path @ [NUL])" using "1.prems"(5) that i by simp
      finally show ?thesis using that "1.prems"(2) by simp
    qed
    show ?thesis
    proof (cases "?c = CHR ''/''")
      case True
      let ?j = "skip_slashes path (i + 1)"
      have j: "i < ?j" "?j \<le> length path" "drop ?j path = dropWhile (\<lambda>c. c = CHR ''/'') (drop (i + 1) path)"
        using skip_slashes_ge [of "i + 1" path] drop_skip_slashes [of "i + 1" path] i by auto
      have "\<exists>copy' ptr'. path_normalize_loop path ?copy (ptr + 1) ?j = Some (copy', ptr')
          \<and> length copy' = length path + 1 \<and> ptr' \<le> length path \<and> take ptr' copy' = take (ptr + 1) ?copy @ squeeze (drop ?j path)"
        by (rule "1.IH"(1) [OF il cc pk po True]) (use "1.prems" j dr [OF j(1)] in auto)
      then show ?thesis
        using il cc pk po True tk j(3) i
        by (subst path_normalize_loop.simps) (simp add: drop_Suc_nth [of i path])
    next
      case False
      have "\<exists>copy' ptr'. path_normalize_loop path ?copy (ptr + 1) (i + 1) = Some (copy', ptr')
          \<and> length copy' = length path + 1 \<and> ptr' \<le> length path \<and> take ptr' copy' = take (ptr + 1) ?copy @ squeeze (drop (i + 1) path)"
        by (rule "1.IH"(2) [OF il cc pk po False]) (use "1.prems" i dr [of "i + 1"] in auto)
      then show ?thesis
        using il cc pk po False tk i
        by (subst path_normalize_loop.simps) (simp add: drop_Suc_nth [of i path])
    qed
  qed
qed

lemma set_squeeze: "set (squeeze p) \<subseteq> set p"
  by (induction p rule: squeeze.induct) (auto dest: set_dropWhileD split: if_splits)

lemma path_normalize_eq:
  assumes "is_cstring path"
  shows "path_normalize path = Some (squeeze path)"
proof -
  obtain copy ptr where loop: "path_normalize_loop path (path @ [NUL]) 0 0 = Some (copy, ptr)"
    and l: "length copy = length path + 1" "ptr \<le> length path" "take ptr copy = squeeze path"
    using path_normalize_loop_eq [OF assms, of 0 0 "path @ [NUL]"] by auto
  have "copy[ptr := NUL] = squeeze path @ NUL # drop (ptr + 1) copy"
    using l by (simp add: upd_conv_take_nth_drop)
  moreover have "is_cstring (squeeze path)" using assms set_squeeze unfolding is_cstring_def by blast
  ultimately show ?thesis using loop l(1,2) cstr_append [of "squeeze path"]
    by (simp add: path_normalize_def poke_def)
qed

lemma path_normalize_loop_length:
  "path_normalize_loop path copy ptr i = Some (copy', ptr') \<Longrightarrow> length copy' = length copy"
proof (induction path copy ptr i rule: path_normalize_loop.induct)
  case (1 path copy ptr i)
  show ?case
  proof (cases "copy ! i = NUL")
    case True
    with "1.prems" show ?thesis by (subst (asm) path_normalize_loop.simps) (simp split: if_splits)
  next
    case False
    with "1.prems" obtain c copy1 where c: "i < length copy" "peek (path @ [NUL]) i = Some c"
      "poke copy ptr c = Some copy1"
      and r: "(if c = CHR ''/'' then path_normalize_loop path copy1 (ptr + 1) (skip_slashes path (i + 1))
        else path_normalize_loop path copy1 (ptr + 1) (i + 1)) = Some (copy', ptr')"
      by (subst (asm) path_normalize_loop.simps) (auto split: if_split_asm Option.bind_split_asm)
    then have "length copy' = length copy1"
      using "1.IH" [OF c(1) False c(2,3)] by (simp split: if_split_asm)
    with c(3) show ?thesis by (simp add: poke_length)
  qed
qed

lemma path_normalize_length: "path_normalize path = Some s \<Longrightarrow> length s \<le> length path"
proof -
  assume "path_normalize path = Some s"
  then obtain copy where "length copy = length path + 1" "cstr copy 0 = Some s"
    by (auto simp: path_normalize_def split: Option.bind_splits dest!: path_normalize_loop_length poke_length)
  moreover have "length (takeWhile (\<lambda>c. c \<noteq> NUL) copy) < length copy" if "NUL \<in> set copy"
    using that by (induction copy) auto
  ultimately show ?thesis by (auto simp: cstr_def split: if_splits)
qed

section \<open>Directories\<close>

datatype errno = EEXIST | ENOENT | ENOTDIR

text \<open>A tree is the set of its directories and the set of its other files, each named by its list
  of components from the root; relative paths start at the working directory.\<close>

record tree =
  dirs :: "string list set"
  files :: "string list set"
  cwd :: "string list"

fun split_slash :: "string \<Rightarrow> string list" where
  "split_slash [] = [[]]"
| "split_slash (c # cs) =
     (if c = CHR ''/'' then [] # split_slash cs
      else (c # hd (split_slash cs)) # tl (split_slash cs))"

text \<open>A component \<^verbatim>\<open>.\<close> names the directory itself.\<close>

definition components :: "string \<Rightarrow> string list" where
  "components p = filter (\<lambda>c. c \<noteq> [] \<and> c \<noteq> ''.'') (split_slash p)"

definition ends_in_dot :: "string \<Rightarrow> bool" where
  "ends_in_dot p = (let cs = filter (\<lambda>c. c \<noteq> []) (split_slash p) in cs \<noteq> [] \<and> last cs = ''.'')"

definition base :: "tree \<Rightarrow> string \<Rightarrow> string list" where
  "base t path = (if path \<noteq> [] \<and> hd path = CHR ''/'' then [] else cwd t)"

definition mkdir :: "tree \<Rightarrow> string \<Rightarrow> tree \<times> errno option" where
  "mkdir t path =
     (let p = base t path @ components path in
      if path = [] then (t, Some ENOENT)
      else if p \<in> dirs t \<or> p \<in> files t then (t, Some EEXIST)
      else if ends_in_dot path then (t, Some ENOENT)
      else if butlast p \<in> dirs t then (t\<lparr>dirs := insert p (dirs t)\<rparr>, None)
      else if butlast p \<in> files t then (t, Some ENOTDIR)
      else (t, Some ENOENT))"

text \<open>The scan for the last separator starts at the terminator and stops at the first byte.\<close>

fun last_sep :: "string \<Rightarrow> nat \<Rightarrow> nat" where
  "last_sep s 0 = 0"
| "last_sep s (Suc n) = (if Suc n < length s \<and> s ! Suc n = PATH_SEPARATOR then Suc n else last_sep s n)"

lemma last_sep_less: "last_sep s n \<noteq> 0 \<Longrightarrow> last_sep s n < length s"
  by (induction n) (auto split: if_splits)

function kx_mkdirp :: "tree \<Rightarrow> string \<Rightarrow> (tree \<times> int) option" where
  "kx_mkdirp t path = do {
     pathname \<leftarrow> path_normalize path;
     let p = last_sep pathname (length pathname);
     (if p \<noteq> 0 then do {
        r \<leftarrow> kx_mkdirp t (take p pathname);
        if snd r \<noteq> 0 then Some (fst r, -1)
        else (case mkdir (fst r) pathname of
                (t, None) \<Rightarrow> Some (t, 0)
              | (t, Some e) \<Rightarrow> Some (t, if e = EEXIST then 0 else -1))
      } else
        (case mkdir t pathname of
           (t, None) \<Rightarrow> Some (t, 0)
         | (t, Some e) \<Rightarrow> Some (t, if e = EEXIST then 0 else -1)))
   }"
  by pat_completeness auto

termination
proof (relation "measure (\<lambda>(_, path). length path)", goal_cases)
  case (2 t path pathname p)
  then have "p < length pathname" "length pathname \<le> length path"
    using last_sep_less path_normalize_length by blast+
  then show ?case by simp
qed simp

declare kx_mkdirp.simps [simp del]

lemma split_slash_ne [simp]: "split_slash p \<noteq> []"
  by (cases p) auto

lemma split_slash_append: "split_slash (a @ CHR ''/'' # b) = split_slash a @ split_slash b"
  by (induction a) auto

lemma components_slash: "components (a @ CHR ''/'' # b) = components a @ components b"
  by (simp add: components_def split_slash_append)

lemma components_Nil [simp]: "components [] = []"
  by (simp add: components_def)

lemma components_Cons_slash [simp]: "components (CHR ''/'' # b) = components b"
  using components_slash [of "[]" b] by simp

lemma split_slash_word: "CHR ''/'' \<notin> set w \<Longrightarrow> split_slash w = [w]"
  by (induction w) auto

lemma components_word: "CHR ''/'' \<notin> set w \<Longrightarrow> components w = (if w = [] \<or> w = ''.'' then [] else [w])"
  by (simp add: components_def split_slash_word)

lemma ends_in_dot_word:
  "CHR ''/'' \<notin> set w \<Longrightarrow> w \<noteq> [] \<Longrightarrow> ends_in_dot (a @ CHR ''/'' # w) \<longleftrightarrow> w = ''.''"
  "CHR ''/'' \<notin> set w \<Longrightarrow> w \<noteq> [] \<Longrightarrow> ends_in_dot w \<longleftrightarrow> w = ''.''"
  by (simp_all add: ends_in_dot_def split_slash_append split_slash_word)

lemma components_dropWhile: "components (dropWhile (\<lambda>c. c = CHR ''/'') p) = components p"
  by (induction p) auto

lemma components_squeeze_word:
  "CHR ''/'' \<notin> set w \<Longrightarrow> components (w @ squeeze p) = components (w @ p)"
proof (induction p arbitrary: w rule: squeeze.induct)
  case (2 c cs)
  show ?case
  proof (cases "c = CHR ''/''")
    case True
    with "2.IH" [of "[]"] show ?thesis by (simp add: components_slash components_dropWhile)
  next
    case False
    with "2.IH" [of "w @ [c]"] "2.prems" show ?thesis by simp
  qed
qed simp

lemma components_squeeze: "components (squeeze p) = components p"
  using components_squeeze_word [of "[]" p] by simp

lemma last_sep_spec:
  "(last_sep s n \<noteq> 0 \<longrightarrow> s ! last_sep s n = CHR ''/'') \<and> last_sep s n \<le> n
   \<and> (\<forall>i. last_sep s n < i \<and> i \<le> n \<and> i < length s \<longrightarrow> s ! i \<noteq> CHR ''/'')"
proof (induction n)
  case (Suc n)
  then show ?case by (auto simp: le_Suc_eq)
qed simp

lemma no_sep_after: "CHR ''/'' \<notin> set (drop (last_sep s (length s) + 1) s)"
proof
  assume "CHR ''/'' \<in> set (drop (last_sep s (length s) + 1) s)"
  then obtain i where "i < length s - (last_sep s (length s) + 1)" "s ! (last_sep s (length s) + 1 + i) = CHR ''/''"
    by (auto simp: in_set_conv_nth)
  moreover have "\<forall>i. last_sep s (length s) < i \<and> i \<le> length s \<and> i < length s \<longrightarrow> s ! i \<noteq> CHR ''/''"
    using last_sep_spec [of s "length s"] by blast
  ultimately show False by (auto dest: spec [of _ "last_sep s (length s) + 1 + i"])
qed

lemma components_split:
  assumes "k = last_sep s (length s)" "k \<noteq> 0"
  shows "components s = components (take k s)
    \<or> (\<exists>w. components s = components (take k s) @ [w] \<and> \<not> ends_in_dot s)"
proof -
  let ?w = "drop (k + 1) s"
  have "k < length s" "s ! k = CHR ''/''"
    using assms last_sep_less last_sep_spec [of s "length s"] by auto
  then have s: "s = take k s @ CHR ''/'' # ?w" using id_take_nth_drop [of k s] by simp
  have w: "CHR ''/'' \<notin> set ?w" using no_sep_after [of s] assms(1) by simp
  have "components s = components (take k s) @ components ?w"
    using s components_slash by metis
  moreover have "\<not> ends_in_dot s" if "?w \<noteq> []" "?w \<noteq> ''.''"
    using s ends_in_dot_word(1) [OF w that(1)] that(2) by metis
  ultimately show ?thesis unfolding components_word [OF w] by (auto split: if_splits)
qed

lemma components_single:
  assumes "last_sep s (length s) = 0"
  shows "components s = [] \<or> (\<exists>w. components s = [w] \<and> \<not> ends_in_dot s)"
proof (cases s)
  case (Cons c cs)
  have n: "CHR ''/'' \<notin> set cs" using no_sep_after [of s] assms Cons by simp
  show ?thesis
  proof (cases "c = CHR ''/''")
    case True
    then show ?thesis using Cons n components_word [OF n] ends_in_dot_word(1) [OF n, of "[]"] by auto
  next
    case False
    then have "CHR ''/'' \<notin> set s" using n Cons by simp
    then show ?thesis using Cons components_word ends_in_dot_word(2) by auto
  qed
qed simp

section \<open>Creating a path\<close>

definition prefixes_of :: "string list \<Rightarrow> string list \<Rightarrow> string list set" where
  "prefixes_of b cs = (\<lambda>i. b @ take i cs) ` {..length cs}"

lemma prefixes_of_snoc: "prefixes_of b (cs @ [w]) = insert (b @ cs @ [w]) (prefixes_of b cs)"
proof -
  have "{..length (cs @ [w])} = insert (Suc (length cs)) {..length cs}" by auto
  moreover have "(\<lambda>i. b @ take i (cs @ [w])) ` {..length cs} = (\<lambda>i. b @ take i cs) ` {..length cs}"
    by (rule image_cong) auto
  ultimately show ?thesis by (simp add: prefixes_of_def)
qed

lemma prefixes_of_self [simp]: "b @ cs \<in> prefixes_of b cs"
  unfolding prefixes_of_def by (rule image_eqI [of _ _ "length cs"]) auto

lemma prefixes_of_Nil [simp]: "prefixes_of b [] = {b}"
  by (simp add: prefixes_of_def)

lemma base_take: "k \<noteq> 0 \<Longrightarrow> s \<noteq> [] \<Longrightarrow> base t (take k s) = base t s"
  by (cases s; cases k) (auto simp: base_def)

lemma base_dirs [simp]: "base (t\<lparr>dirs := d\<rparr>) p = base t p"
  by (simp add: base_def)

lemma base_squeeze: "base t (squeeze p) = base t p"
  by (cases p) (auto simp: base_def)

lemma mkdir_child:
  assumes "path \<noteq> []" "base t path @ ps \<in> dirs t" "components path = ps @ [w]" "base t path @ ps @ [w] \<notin> files t"
    and "\<not> ends_in_dot path"
  shows "fst (mkdir t path) = t\<lparr>dirs := insert (base t path @ ps @ [w]) (dirs t)\<rparr>
    \<and> (snd (mkdir t path) = None \<or> snd (mkdir t path) = Some EEXIST)"
  using assms by (auto simp: mkdir_def Let_def butlast_append insert_absorb)

lemma mkdir_existing:
  "path \<noteq> [] \<Longrightarrow> base t path @ components path \<in> dirs t \<Longrightarrow> mkdir t path = (t, Some EEXIST)"
  by (simp add: mkdir_def Let_def)

lemma squeeze_Nil_iff [simp]: "squeeze p = [] \<longleftrightarrow> p = []"
  by (cases p) auto

lemma kx_mkdirp_creates:
  assumes "is_cstring path" "path \<noteq> []" "base t path \<in> dirs t"
    and "prefixes_of (base t path) (components path) \<inter> files t = {}"
  shows "kx_mkdirp t path = Some (t\<lparr>dirs := dirs t \<union> prefixes_of (base t path) (components path)\<rparr>, 0)"
  using assms
proof (induction t path rule: kx_mkdirp.induct)
  case (1 t path)
  let ?s = "squeeze path"
  define k where "k = last_sep ?s (length ?s)"
  have n: "path_normalize path = Some ?s" by (rule path_normalize_eq [OF "1.prems"(1)])
  have cs: "components ?s = components path" by (rule components_squeeze)
  have b: "base t ?s = base t path" by (rule base_squeeze)
  have sn: "?s \<noteq> []" using "1.prems"(2) by simp
  have fin: "(case mkdir t1 ?s of (t, None) \<Rightarrow> Some (t, 0) | (t, Some e) \<Rightarrow> Some (t, if e = EEXIST then 0 else -1)) =
      Some (t\<lparr>dirs := dirs t \<union> prefixes_of (base t path) (components path)\<rparr>, (0 :: int))"
    if t1: "t1 = t\<lparr>dirs := dirs t \<union> prefixes_of (base t path) ps\<rparr>"
      and ps: "components path = ps \<or> (\<exists>w. components path = ps @ [w] \<and> \<not> ends_in_dot ?s)" for t1 ps
  proof -
    have b1: "base t1 ?s = base t path" using b t1 by simp
    from ps show ?thesis
    proof
      assume e: "components path = ps"
      then have "mkdir t1 ?s = (t1, Some EEXIST)"
        using mkdir_existing [of ?s t1] sn cs b1 t1 by simp
      then show ?thesis using t1 e by simp
    next
      assume "\<exists>w. components path = ps @ [w] \<and> \<not> ends_in_dot ?s"
      then obtain w where w: "components path = ps @ [w]" and nd: "\<not> ends_in_dot ?s" by blast
      have "base t path @ ps @ [w] \<notin> files t1" using "1.prems"(4) w t1 by (simp add: prefixes_of_snoc)
      then have "fst (mkdir t1 ?s) = t1\<lparr>dirs := insert (base t path @ ps @ [w]) (dirs t1)\<rparr>
          \<and> (snd (mkdir t1 ?s) = None \<or> snd (mkdir t1 ?s) = Some EEXIST)"
        using mkdir_child [of ?s t1 ps w] sn cs w b1 t1 nd by simp
      then show ?thesis using t1 w by (cases "mkdir t1 ?s") (auto simp: prefixes_of_snoc)
    qed
  qed
  show ?case
  proof (cases "k = 0")
    case True
    have c: "components path = [] \<or> (\<exists>w. components path = [] @ [w] \<and> \<not> ends_in_dot ?s)"
      using components_single [of ?s] True cs by (simp add: k_def)
    have t: "t = t\<lparr>dirs := dirs t \<union> prefixes_of (base t path) []\<rparr>"
      using "1.prems"(3) by (simp add: insert_absorb)
    show ?thesis using fin [OF t c] n True by (subst kx_mkdirp.simps) (simp flip: k_def)
  next
    case False
    let ?ps = "components (take k ?s)"
    have sp: "components path = ?ps \<or> (\<exists>w. components path = ?ps @ [w] \<and> \<not> ends_in_dot ?s)"
      using components_split [OF k_def False] cs by auto
    have bt: "base t (take k ?s) = base t path" using base_take [OF False sn] b by simp
    have "kx_mkdirp t (take k ?s) = Some (t\<lparr>dirs := dirs t \<union> prefixes_of (base t (take k ?s)) ?ps\<rparr>, 0)"
    proof (rule "1.IH" [OF n k_def False])
      show "is_cstring (take k ?s)"
        using "1.prems"(1) set_squeeze [of path] by (auto simp: is_cstring_def dest: in_set_takeD)
      show "take k ?s \<noteq> []" using False sn by simp
      show "base t (take k ?s) \<in> dirs t" using "1.prems"(3) bt by simp
      show "prefixes_of (base t (take k ?s)) ?ps \<inter> files t = {}"
        using "1.prems"(4) sp bt by (auto simp: prefixes_of_snoc)
    qed
    then show ?thesis
      using fin [OF refl sp] bt n False
      by (subst kx_mkdirp.simps) (simp flip: k_def)
  qed
qed

section \<open>Properties of the component\<close>

text \<open>C17: normalising a path collapses every run of slashes to one and keeps all other bytes, with
  every access inside the two strings; the components of the path do not change.\<close>

theorem path_normalize_spec:
  assumes "is_cstring path"
  shows "path_normalize path = Some (squeeze path) \<and> components (squeeze path) = components path
    \<and> squeeze (squeeze path) = squeeze path"
proof -
  have "squeeze (squeeze p) = squeeze p" for p
  proof (induction p rule: squeeze.induct)
    case (2 c cs)
    have "dropWhile (\<lambda>c. c = CHR ''/'') (squeeze q) = squeeze q" if "q = [] \<or> hd q \<noteq> CHR ''/''" for q
      using that by (cases q) auto
    moreover have "dropWhile (\<lambda>c. c = CHR ''/'') cs = [] \<or> hd (dropWhile (\<lambda>c. c = CHR ''/'') cs) \<noteq> CHR ''/''"
      using hd_dropWhile [of "\<lambda>c. c = CHR ''/''" cs] by blast
    ultimately have "dropWhile (\<lambda>c. c = CHR ''/'') (squeeze (dropWhile (\<lambda>c. c = CHR ''/'') cs)) =
        squeeze (dropWhile (\<lambda>c. c = CHR ''/'') cs)" by blast
    with 2 show ?case by (cases "c = CHR ''/''") simp_all
  qed simp
  then show ?thesis using path_normalize_eq [OF assms] components_squeeze by simp
qed

theorem path_normalize_spec_witness:
  "path_normalize ''a//b///c/'' = Some ''a/b/c/''"
  using path_normalize_spec [of "''a//b///c/''"] by (simp add: is_cstring_def NUL_def)



end
