(* ===== verification/Net.thy ===== *)
theory Net
  imports Prelude
begin

text \<open>
  The Redis layer of \<^verbatim>\<open>src/src/net.c\<close>: the table of actions with their command formats and
  reply callbacks, the search in it, the formatting and sending of a command, and the reply
  callbacks of \<^verbatim>\<open>net.c\<close>, \<^verbatim>\<open>kx_user.c\<close> and \<^verbatim>\<open>kx_file.c\<close>. The server behind
  hiredis is an argument \<open>redis\<close>: a function from the connection state and the command text to the
  next state and the reply, \<open>None\<close> standing for the null reply of a failed command. What the
  program prints is returned as a list of lines or pieces.
\<close>

section \<open>Data\<close>

datatype kxtype = NODE_SET | NODE_GET | USER_REG | USER_LOGIN | USER_GET | FILE_CRYPT | FILE_GETLIST | FILE_GET

datatype synccallback = Cb_set_reply | Cb_user_reply | Cb_file_reply

record action =
  atype :: kxtype
  cmdline :: string
  syncexec :: "synccallback option"

datatype reply_kind = REDIS_REPLY_STRING | REDIS_REPLY_ARRAY | REDIS_REPLY_STATUS | REDIS_REPLY_NIL | REDIS_REPLY_ERROR | REDIS_REPLY_INTEGER

datatype redisReply = Reply (rkind: reply_kind) (rstr: "string option") (relements: "redisReply list")

type_synonym 'r redis = "'r \<Rightarrow> string \<Rightarrow> 'r \<times> redisReply option"

definition acs :: "action list" where
  "acs = [
     \<lparr>atype = NODE_SET, cmdline = ''HMSET node:%s uuid %s ip %s mac %s'', syncexec = Some Cb_set_reply\<rparr>,
     \<lparr>atype = USER_REG, cmdline = ''HMSET node:%s:user:%s username %s password %s isonline %d'', syncexec = Some Cb_set_reply\<rparr>,
     \<lparr>atype = USER_LOGIN, cmdline = ''HMSET node:%s:user:%s isonline %d'', syncexec = Some Cb_set_reply\<rparr>,
     \<lparr>atype = USER_GET, cmdline = ''HGETALL node:%s:user:%s'', syncexec = None\<rparr>,
     \<lparr>atype = NODE_GET, cmdline = ''HMSET node:%s'', syncexec = None\<rparr>,
     \<lparr>atype = FILE_CRYPT, cmdline = ''HMSET fileuuid:%lu filename %s path %s uuid %lu user %s muuid %s'', syncexec = Some Cb_set_reply\<rparr>,
     \<lparr>atype = FILE_GET, cmdline = ''HGETALL %s'', syncexec = None\<rparr>,
     \<lparr>atype = FILE_GETLIST, cmdline = ''KEYS node:%s:user:%s:files:*'', syncexec = None\<rparr>]"

section \<open>Search\<close>

text \<open>A pointer into the table is an index; the loop keeps the last match.\<close>

definition kx_search_action :: "action list \<Rightarrow> kxtype \<Rightarrow> nat option" where
  "kx_search_action tab ty =
     fold (\<lambda>i ac. if atype (tab ! i) = ty then Some i else ac) [0..<length tab] None"

section \<open>Formatting\<close>

datatype farg = FStr string | FInt int | FULong u64

text \<open>The conversions the formats use; an argument of another type or a missing argument is
  undefined behaviour.\<close>

fun vformat :: "string \<Rightarrow> farg list \<Rightarrow> string option" where
  "vformat [] args = Some []"
| "vformat (c # cs) args =
     (if c \<noteq> CHR ''%'' then map_option ((#) c) (vformat cs args)
      else (case (cs, args) of
          (CHR ''s'' # cs', FStr s # args') \<Rightarrow> map_option ((@) s) (vformat cs' args')
        | (CHR ''d'' # cs', FInt n # args') \<Rightarrow> map_option ((@) (sdec n)) (vformat cs' args')
        | (CHR ''l'' # CHR ''u'' # cs', FULong w # args') \<Rightarrow> map_option ((@) (udec (unat w))) (vformat cs' args')
        | (CHR ''%'' # cs', _) \<Rightarrow> map_option ((#) (CHR ''%'')) (vformat cs' args)
        | _ \<Rightarrow> None))"

definition pad_right :: "nat \<Rightarrow> string \<Rightarrow> string" where
  "pad_right n s = s @ replicate (n - length s) (CHR '' '')"

section \<open>Reply callbacks\<close>

definition kx_set_reply :: "redisReply \<Rightarrow> string list" where
  "kx_set_reply reply = (case rstr reply of Some s \<Rightarrow> [s @ [CHR 0x0A]] | None \<Rightarrow> [])"

definition digit_val :: "char \<Rightarrow> int option" where
  "digit_val c = (let n = of_char c :: nat in if 48 \<le> n \<and> n \<le> 57 then Some (int n - 48) else None)"

fun atoi_digits :: "string \<Rightarrow> int \<Rightarrow> int" where
  "atoi_digits [] n = n"
| "atoi_digits (c # cs) n = (case digit_val c of Some d \<Rightarrow> atoi_digits cs (10 * n + d) | None \<Rightarrow> n)"

definition atoi :: "string \<Rightarrow> int" where
  "atoi s =
     (let t = dropWhile (\<lambda>c. c \<in> {CHR '' '', CHR 0x09, CHR 0x0A, CHR 0x0B, CHR 0x0C, CHR 0x0D}) s in
      case t of
        [] \<Rightarrow> 0
      | c # cs \<Rightarrow> if c = CHR ''-'' then - atoi_digits cs 0
                 else if c = CHR ''+'' then atoi_digits cs 0 else atoi_digits t 0)"

text \<open>The array replies come as alternating names and values. The loop reads the element behind
  every name it knows: a null string or a missing element is undefined behaviour.\<close>

fun user_reply_loop :: "redisReply list \<Rightarrow> string list option" where
  "user_reply_loop [] = Some []"
| "user_reply_loop (k # rest) = do {
     name \<leftarrow> rstr k;
     out \<leftarrow> (if name = ''username'' then do { v \<leftarrow> peek rest 0; s \<leftarrow> rstr v; Some [''username: '' @ s @ '' ''] }
            else if name = ''password'' then do { v \<leftarrow> peek rest 0; s \<leftarrow> rstr v; Some [''password: '' @ s @ '' ''] }
            else if name = ''isonline'' then do { v \<leftarrow> peek rest 0; s \<leftarrow> rstr v; Some [''isonline: '' @ sdec (atoi s) @ '' ''] }
            else Some []);
     more \<leftarrow> user_reply_loop (drop 1 rest);
     Some (out @ more)
   }"

definition kx_user_reply :: "redisReply \<Rightarrow> string list option" where
  "kx_user_reply reply =
     (if rkind reply = REDIS_REPLY_ARRAY
      then map_option (\<lambda>out. out @ [[CHR 0x0A]]) (user_reply_loop (relements reply))
      else Some [])"

fun file_reply_loop :: "redisReply list \<Rightarrow> string list option" where
  "file_reply_loop [] = Some []"
| "file_reply_loop (k # rest) = do {
     name \<leftarrow> rstr k;
     out \<leftarrow> (if name = ''filename'' then do { v \<leftarrow> peek rest 0; s \<leftarrow> rstr v; Some ['' [*] '' @ pad_right 24 s @ '' ''] }
            else if name = ''path'' then do { v \<leftarrow> peek rest 0; s \<leftarrow> rstr v; Some ['' '' @ pad_right 64 s @ '' [L+]''] }
            else Some []);
     more \<leftarrow> file_reply_loop (drop 1 rest);
     Some (out @ more)
   }"

definition kx_file_reply :: "redisReply \<Rightarrow> string list option" where
  "kx_file_reply reply =
     (if rkind reply = REDIS_REPLY_ARRAY
      then map_option (\<lambda>out. out @ [[CHR 0x0A]]) (file_reply_loop (relements reply))
      else Some [])"

definition run_callback :: "synccallback option \<Rightarrow> redisReply \<Rightarrow> string list option" where
  "run_callback cb reply =
     (case cb of
        None \<Rightarrow> None
      | Some Cb_set_reply \<Rightarrow> Some (kx_set_reply reply)
      | Some Cb_user_reply \<Rightarrow> kx_user_reply reply
      | Some Cb_file_reply \<Rightarrow> kx_file_reply reply)"

section \<open>Sending\<close>

text \<open>\<open>errstr\<close> is the error text of the connection. The result is the new connection state, the
  command that went out and what was printed.\<close>

definition kx_command :: "'r redis \<Rightarrow> string \<Rightarrow> 'r \<Rightarrow> string \<Rightarrow> action \<Rightarrow> ('r \<times> string list) option" where
  "kx_command redis errstr r cmd ac =
     (case redis r cmd of
        (r', None) \<Rightarrow> Some (r', [cmd @ '' error: '' @ errstr @ [CHR 0x0A]])
      | (r', Some reply) \<Rightarrow> do {
          out \<leftarrow> run_callback (syncexec ac) reply;
          Some (r', out)
        })"

definition kx_sync_send_cmd ::
    "'r redis \<Rightarrow> string \<Rightarrow> 'r \<Rightarrow> action list \<Rightarrow> nat option \<Rightarrow> string \<Rightarrow> farg list \<Rightarrow> ('r \<times> string list) option" where
  "kx_sync_send_cmd redis errstr r tab ac fmt args =
     (case ac of
        None \<Rightarrow> Some (r, [])
      | Some i \<Rightarrow> do {
          a \<leftarrow> peek tab i;
          cmd \<leftarrow> vformat fmt args;
          kx_command redis errstr r cmd a
        })"

datatype 'c connect_result = Exit1 string | Connected 'c

text \<open>\<open>conn\<close> is the result of \<^verbatim>\<open>redisConnectWithTimeout\<close>: no context, or a context with its
  error text when its error flag is set.\<close>

definition kx_sync_creat_net :: "('c \<times> string option) option \<Rightarrow> 'c connect_result" where
  "kx_sync_creat_net conn =
     (case conn of
        None \<Rightarrow> Exit1 ''Connection error: can't allocate redis context''
      | Some (c, Some err) \<Rightarrow> Exit1 (''Connection error: '' @ err)
      | Some (c, None) \<Rightarrow> Connected c)"

section \<open>Lemmas\<close>

text \<open>Assigning a callback keeps the types and formats of the table.\<close>

definition set_syncexec :: "action list \<Rightarrow> nat \<Rightarrow> synccallback \<Rightarrow> action list" where
  "set_syncexec tab i cb = tab[i := (tab ! i)\<lparr>syncexec := Some cb\<rparr>]"

definition acs_like :: "action list \<Rightarrow> bool" where
  "acs_like tab \<longleftrightarrow> map (\<lambda>a. (atype a, cmdline a)) tab = map (\<lambda>a. (atype a, cmdline a)) acs"

lemma acs_like_acs [simp]: "acs_like acs"
  by (simp add: acs_like_def)

lemma acs_like_set [simp]:
  assumes "acs_like tab"
  shows "acs_like (set_syncexec tab i cb)"
proof -
  have "map (\<lambda>a. (atype a, cmdline a)) (set_syncexec tab i cb) = map (\<lambda>a. (atype a, cmdline a)) tab"
    by (cases "i < length tab") (simp_all add: set_syncexec_def map_update list_update_same_conv list_update_beyond)
  with assms show ?thesis by (simp add: acs_like_def)
qed

definition index_of :: "kxtype \<Rightarrow> nat" where
  "index_of ty = (case ty of NODE_SET \<Rightarrow> 0 | USER_REG \<Rightarrow> 1 | USER_LOGIN \<Rightarrow> 2 | USER_GET \<Rightarrow> 3
     | NODE_GET \<Rightarrow> 4 | FILE_CRYPT \<Rightarrow> 5 | FILE_GET \<Rightarrow> 6 | FILE_GETLIST \<Rightarrow> 7)"

lemma length_acs: "length acs = 8"
  by (simp add: acs_def)

lemma acs_like_length: "acs_like tab \<Longrightarrow> length tab = 8"
  using length_acs unfolding acs_like_def by (metis length_map)

lemma acs_like_nth:
  assumes "acs_like tab" "i < 8"
  shows "atype (tab ! i) = atype (acs ! i)" "cmdline (tab ! i) = cmdline (acs ! i)"
proof -
  have "map (\<lambda>a. (atype a, cmdline a)) tab ! i = map (\<lambda>a. (atype a, cmdline a)) acs ! i"
    using assms(1) by (simp add: acs_like_def)
  then show "atype (tab ! i) = atype (acs ! i)" "cmdline (tab ! i) = cmdline (acs ! i)"
    using assms acs_like_length [OF assms(1)] length_acs by (simp_all del: map_eq_conv)
qed

lemma index_of_less [simp]: "index_of ty < 8"
  by (cases ty) (simp_all add: index_of_def)

lemma atype_acs: "atype (acs ! index_of ty) = ty"
  by (cases ty) (simp_all add: index_of_def acs_def)

lemma index_of_atype: "j < 8 \<Longrightarrow> index_of (atype (acs ! j)) = j"
proof -
  assume "j < 8"
  moreover have "list_all (\<lambda>j. index_of (atype (acs ! j)) = j) [0..<8]"
    by (simp add: upt_rec index_of_def acs_def)
  ultimately show ?thesis by (simp add: list_all_upt_iff)
qed

text \<open>The loop keeps the last index that satisfies the test.\<close>

lemma fold_last_match:
  "fold (\<lambda>i r. if P i then Some i else r) [0..<n] None =
     (if \<exists>i<n. P i then Some (Max {i. i < n \<and> P i}) else None)"
proof (induction n)
  case (Suc n)
  have "{i. i < Suc n \<and> P i} = (if P n then insert n {i. i < n \<and> P i} else {i. i < n \<and> P i})"
    by (auto simp: less_Suc_eq)
  moreover have "Max (insert n {i. i < n \<and> P i}) = n" by (rule Max_eqI) auto
  ultimately show ?case using Suc by (auto simp: less_Suc_eq)
qed simp

lemma kx_search_action_like:
  assumes "acs_like tab"
  shows "kx_search_action tab ty = Some (index_of ty)"
proof -
  have "atype (tab ! i) = ty \<longleftrightarrow> i = index_of ty" if "i < 8" for i
    using acs_like_nth(1) [OF assms that] index_of_atype [OF that] atype_acs [of ty] by auto
  then have "{i. i < 8 \<and> atype (tab ! i) = ty} = {index_of ty}" by auto
  then show ?thesis
    unfolding kx_search_action_def fold_last_match acs_like_length [OF assms]
    using index_of_less [of ty] by (auto simp: set_eq_iff)
qed

lemma sync_send_eq:
  assumes "acs_like tab" "vformat fmt args = Some cmd"
  shows "kx_sync_send_cmd redis errstr r tab (Some (index_of ty)) fmt args =
    kx_command redis errstr r cmd (tab ! index_of ty)"
  using assms acs_like_length [OF assms(1)] by (simp add: kx_sync_send_cmd_def peek_def)

lemma vformat_conv:
  "vformat (CHR ''%'' # CHR ''s'' # cs) (FStr s # args) = map_option ((@) s) (vformat cs args)"
  "vformat (CHR ''%'' # CHR ''d'' # cs) (FInt n # args) = map_option ((@) (sdec n)) (vformat cs args)"
  "vformat (CHR ''%'' # CHR ''l'' # CHR ''u'' # cs) (FULong w # args) = map_option ((@) (udec (unat w))) (vformat cs args)"
  by simp_all

section \<open>Properties of the component\<close>

text \<open>C36: every action type has exactly one entry in the table, the search finds it, and assigning
  callbacks does not change what the search finds; the commands built from the table's formats
  are the documented Redis texts with the arguments in their places.\<close>

theorem kx_search_action_spec:
  assumes "acs_like tab"
  shows "\<exists>i. kx_search_action tab ty = Some i \<and> i < length tab \<and> atype (tab ! i) = ty
    \<and> (\<forall>j < length tab. atype (tab ! j) = ty \<longrightarrow> j = i)
    \<and> kx_search_action (set_syncexec tab k cb) ty = Some i"
proof -
  have "\<forall>j < length tab. atype (tab ! j) = ty \<longrightarrow> j = index_of ty"
    using acs_like_length [OF assms] acs_like_nth(1) [OF assms] index_of_atype by force
  then show ?thesis
    using kx_search_action_like [OF assms] kx_search_action_like [OF acs_like_set [OF assms]]
      acs_like_length [OF assms] acs_like_nth(1) [OF assms index_of_less] atype_acs
    by (intro exI [of _ "index_of ty"]) simp
qed

theorem kx_search_action_spec_witness:
  "\<exists>i. kx_search_action acs FILE_GET = Some i \<and> atype (acs ! i) = FILE_GET"
  using kx_search_action_spec [of acs FILE_GET 0 Cb_set_reply] by auto

text \<open>Sending through an action whose callback is not set calls a null pointer as soon as the
  server answers: of the table as it is initialised these are \<^verbatim>\<open>USER_GET\<close>, \<^verbatim>\<open>NODE_GET\<close>,
  \<^verbatim>\<open>FILE_GET\<close> and \<^verbatim>\<open>FILE_GETLIST\<close>. A failed command never runs a callback, and a status
  reply to one of the other actions prints its text.\<close>

theorem kx_sync_send_cmd_callbacks:
  assumes "vformat fmt args = Some cmd" "redis r cmd = (r', rep)"
  shows "kx_sync_send_cmd redis errstr r acs (Some (index_of ty)) fmt args =
    (case rep of
       None \<Rightarrow> Some (r', [cmd @ '' error: '' @ errstr @ [CHR 0x0A]])
     | Some reply \<Rightarrow>
         if ty \<in> {USER_GET, NODE_GET, FILE_GET, FILE_GETLIST} then None
         else Some (r', kx_set_reply reply))"
proof -
  have "syncexec (acs ! index_of ty) = (if ty \<in> {USER_GET, NODE_GET, FILE_GET, FILE_GETLIST} then None else Some Cb_set_reply)"
    by (cases ty) (simp_all add: index_of_def acs_def)
  then show ?thesis
    unfolding sync_send_eq [OF acs_like_acs assms(1)] kx_command_def assms(2)
    by (simp add: run_callback_def split: option.split)
qed

theorem kx_sync_send_cmd_callbacks_witness:
  "kx_sync_send_cmd (\<lambda>r cmd. (cmd # r, Some (Reply REDIS_REPLY_ARRAY None []))) ''err'' [] acs
     (Some (index_of USER_GET)) ''HGETALL node:%s:user:%s'' [FStr ''id'', FStr ''bob''] = None"
  using kx_sync_send_cmd_callbacks [of "''HGETALL node:%s:user:%s''" "[FStr ''id'', FStr ''bob'']"
      "''HGETALL node:id:user:bob''" "\<lambda>r cmd. (cmd # r, Some (Reply REDIS_REPLY_ARRAY None []))" "[]" _ _ "''err''" USER_GET]
  by simp

end
