(* ===== verification/Getopt.thy ===== *)
theory Getopt
  imports Prelude
begin

text \<open>
  \<^verbatim>\<open>getopt_long\<close> of the C library as the commands use it: short options in clusters with or
  without arguments, long options without arguments that may be abbreviated, arguments that are
  not options skipped (the library permutes them behind the options), \<^verbatim>\<open>--\<close> ending the scan.
  A call yields an option with its \<^verbatim>\<open>optarg\<close> and, for a long option, the index stored through
  \<^verbatim>\<open>longindex\<close>. What a call returns does not depend on what the program does with the previous
  option, so the calls of one command line are the list \<open>getopt_events\<close>; the final \<^verbatim>\<open>-1\<close> is its
  end.
\<close>

record opt_event =
  opt :: char
  optarg :: "string option"
  longind :: "nat option"

type_synonym long_opts = "(string \<times> char) list"

definition unknown_opt :: opt_event where
  "unknown_opt = \<lparr>opt = CHR ''?'', optarg = None, longind = None\<rparr>"

text \<open>Whether a short option is known and takes an argument.\<close>

fun opt_kind :: "string \<Rightarrow> char \<Rightarrow> bool option" where
  "opt_kind [] c = None"
| "opt_kind (x # xs) c = (if x = c then Some (xs \<noteq> [] \<and> hd xs = CHR '':'') else opt_kind xs c)"

definition is_opt :: "string \<Rightarrow> bool" where
  "is_opt a \<longleftrightarrow> 2 \<le> length a \<and> hd a = CHR ''-''"

fun short_opt :: "string \<Rightarrow> string \<Rightarrow> string list \<Rightarrow> opt_event \<times> string \<times> string list" where
  "short_opt optstring [] rest = (unknown_opt, [], rest)"
| "short_opt optstring (c # cs) rest =
     (case (if c = CHR '':'' then None else opt_kind optstring c) of
        None \<Rightarrow> (unknown_opt, cs, rest)
      | Some False \<Rightarrow> (\<lparr>opt = c, optarg = None, longind = None\<rparr>, cs, rest)
      | Some True \<Rightarrow>
          if cs \<noteq> [] then (\<lparr>opt = c, optarg = Some cs, longind = None\<rparr>, [], rest)
          else (case rest of
                  [] \<Rightarrow> (unknown_opt, [], [])
                | r # rs \<Rightarrow> (\<lparr>opt = c, optarg = Some r, longind = None\<rparr>, [], rs)))"

definition long_opt :: "long_opts \<Rightarrow> string \<Rightarrow> opt_event" where
  "long_opt longs a =
     (let name = takeWhile (\<lambda>c. c \<noteq> CHR ''='') a;
          exact = filter (\<lambda>i. fst (longs ! i) = name) [0..<length longs];
          abbrev = filter (\<lambda>i. take (length name) (fst (longs ! i)) = name) [0..<length longs];
          found = (if exact \<noteq> [] then Some (hd exact) else if length abbrev = 1 then Some (hd abbrev) else None)
      in case found of
           None \<Rightarrow> unknown_opt
         | Some i \<Rightarrow> if CHR ''='' \<in> set a then unknown_opt
                    else \<lparr>opt = snd (longs ! i), optarg = None, longind = Some i\<rparr>)"

text \<open>One call: \<open>nextchar\<close> is what is left of the current cluster, \<open>rest\<close> the arguments not yet
  scanned.\<close>

definition getopt_step :: "string \<Rightarrow> long_opts \<Rightarrow> string \<Rightarrow> string list \<Rightarrow> (opt_event \<times> string \<times> string list) option" where
  "getopt_step optstring longs nextchar rest =
     (if nextchar \<noteq> [] then Some (short_opt optstring nextchar rest)
      else (case dropWhile (\<lambda>a. \<not> is_opt a) rest of
              [] \<Rightarrow> None
            | a # as \<Rightarrow>
                if a = ''--'' then None
                else if take 2 a = ''--'' then Some (long_opt longs (drop 2 a), [], as)
                else Some (short_opt optstring (tl a) as)))"

definition scan_size :: "string \<Rightarrow> string list \<Rightarrow> nat" where
  "scan_size nextchar rest = length nextchar + sum_list (map length rest)"

lemma short_opt_size:
  "short_opt optstring (c # cs) rest = (ev, nc, rest') \<Longrightarrow> scan_size nc rest' < scan_size (c # cs) rest"
  by (auto simp: scan_size_def split: option.splits bool.splits if_splits list.splits)

lemma dropWhile_size: "sum_list (map length (dropWhile P rest)) \<le> sum_list (map length rest)"
  by (induction rest) auto

lemma getopt_step_size:
  assumes "getopt_step optstring longs nextchar rest = Some (ev, nc, rest')"
  shows "scan_size nc rest' < scan_size nextchar rest"
proof (cases nextchar)
  case (Cons c cs)
  with assms show ?thesis using short_opt_size by (simp add: getopt_step_def)
next
  case Nil
  with assms obtain a as where d: "dropWhile (\<lambda>a. \<not> is_opt a) rest = a # as"
    by (auto simp: getopt_step_def split: list.splits)
  then have "is_opt a" using hd_dropWhile [of "\<lambda>a. \<not> is_opt a" rest] by auto
  then obtain x y zs where a: "a = x # y # zs" by (cases a; cases "tl a") (auto simp: is_opt_def)
  have "length a + sum_list (map length as) \<le> sum_list (map length rest)"
    using dropWhile_size [of "\<lambda>a. \<not> is_opt a" rest] d by simp
  moreover have "scan_size nc rest' < length a + sum_list (map length as)"
    using assms Nil d a short_opt_size [of optstring y zs as]
    by (auto simp: getopt_step_def scan_size_def split: if_splits)
  ultimately show ?thesis using Nil by (simp add: scan_size_def)
qed

function getopt_events :: "string \<Rightarrow> long_opts \<Rightarrow> string \<Rightarrow> string list \<Rightarrow> opt_event list" where
  "getopt_events optstring longs nextchar rest =
     (case getopt_step optstring longs nextchar rest of
        None \<Rightarrow> []
      | Some (ev, nc, rest') \<Rightarrow> ev # getopt_events optstring longs nc rest')"
  by pat_completeness auto

termination
  by (relation "measure (\<lambda>(_, _, nextchar, rest). scan_size nextchar rest)")
    (auto dest: getopt_step_size)

declare getopt_events.simps [simp del]

text \<open>The options of a command line; element 0 is the name of the command.\<close>

definition getopt_long :: "string \<Rightarrow> long_opts \<Rightarrow> string list \<Rightarrow> opt_event list" where
  "getopt_long optstring longs argv = getopt_events optstring longs [] (tl argv)"

section \<open>Lemmas\<close>

lemma getopt_events_Nil [simp]: "getopt_events optstring longs [] [] = []"
  by (simp add: getopt_events.simps getopt_step_def)

lemma getopt_events_flag:
  assumes "opt_kind optstring c = Some False" "c \<noteq> CHR '':''" "c \<noteq> CHR ''-''"
  shows "getopt_events optstring longs [] ([CHR ''-'', c] # rest) =
    \<lparr>opt = c, optarg = None, longind = None\<rparr> # getopt_events optstring longs [] rest"
  using assms by (subst getopt_events.simps) (simp add: getopt_step_def is_opt_def)

lemma getopt_events_arg:
  assumes "opt_kind optstring c = Some True" "c \<noteq> CHR '':''" "c \<noteq> CHR ''-''"
  shows "getopt_events optstring longs [] ([CHR ''-'', c] # a # rest) =
    \<lparr>opt = c, optarg = Some a, longind = None\<rparr> # getopt_events optstring longs [] rest"
  using assms by (subst getopt_events.simps) (simp add: getopt_step_def is_opt_def)

lemma getopt_events_missing:
  assumes "opt_kind optstring c = Some True" "c \<noteq> CHR '':''" "c \<noteq> CHR ''-''"
  shows "getopt_events optstring longs [] [[CHR ''-'', c]] = [unknown_opt]"
  using assms by (subst getopt_events.simps) (simp add: getopt_step_def is_opt_def)

lemma getopt_events_unknown:
  assumes "opt_kind optstring c = None" "c \<noteq> CHR ''-''"
  shows "getopt_events optstring longs [] ([CHR ''-'', c] # rest) =
    unknown_opt # getopt_events optstring longs [] rest"
  using assms by (subst getopt_events.simps) (simp add: getopt_step_def is_opt_def)

lemma getopt_events_operand:
  assumes "\<not> is_opt a"
  shows "getopt_events optstring longs [] (a # rest) = getopt_events optstring longs [] rest"
  using assms by (subst (1 2) getopt_events.simps) (simp add: getopt_step_def)

lemmas getopt_simps = getopt_events_flag getopt_events_arg getopt_events_missing
  getopt_events_unknown getopt_events_operand

end
