(* ===== verification/Db.thy ===== *)
theory Db
  imports File Util Net
begin

text \<open>
  The local store of \<^verbatim>\<open>src/src/db.c\<close>. LMDB is an argument: a record of the operations the code
  calls, over an environment state of any type. The laws the theorems need of it, what a lookup
  returns after a put, are a named predicate, \<open>lmdb_laws\<close>.

  A \<^verbatim>\<open>kxdb\<close> keeps its two names in adjacent arrays (\<^verbatim>\<open>dbname\<close>, 32 bytes, then
  \<^verbatim>\<open>dbpath\<close>, 128 bytes, then four bytes of padding): the code writes terminators at index
  \<^verbatim>\<open>sizeof\<close>, so they are one run of 164 bytes. A \<^verbatim>\<open>kxfile\<close> is serialised as its memory:
  \<^verbatim>\<open>uuid\<close> is at offset 4352, 16 bytes before the end of the object.
\<close>

section \<open>The LMDB interface\<close>

abbreviation (input) MDB_SUCCESS :: int where "MDB_SUCCESS \<equiv> 0"

record 'e lmdb =
  mdb_env_create :: int
  mdb_env_set_mapsize :: "u64 \<Rightarrow> int"
  mdb_env_open :: "string \<Rightarrow> int"
  mdb_txn_begin :: "'e \<Rightarrow> int"
  mdb_dbi_open :: "'e \<Rightarrow> string \<Rightarrow> bool \<Rightarrow> int"
  mdb_cursor_open :: "'e \<Rightarrow> string \<Rightarrow> int"
  mdb_put_commit :: "'e \<Rightarrow> string \<Rightarrow> bytes \<Rightarrow> bytes \<Rightarrow> 'e \<times> int"
  mdb_cursor_set :: "'e \<Rightarrow> string \<Rightarrow> bytes \<Rightarrow> bytes + int"
  mdb_entries :: "'e \<Rightarrow> string \<Rightarrow> (bytes \<times> bytes) list"

text \<open>Documented behaviour of a put on an existing database: a key of 1 to 511 bytes is accepted
  and from then on found under exactly the same bytes; other keys are not affected.\<close>

definition lmdb_laws :: "'e lmdb \<Rightarrow> 'e \<Rightarrow> string \<Rightarrow> bool" where
  "lmdb_laws mdb e name \<longleftrightarrow>
     mdb_txn_begin mdb e = MDB_SUCCESS \<and> mdb_dbi_open mdb e name True = MDB_SUCCESS
     \<and> (\<forall>k v. 0 < length k \<and> length k < 512 \<longrightarrow> (\<exists>e'. mdb_put_commit mdb e name k v = (e', MDB_SUCCESS)
          \<and> mdb_txn_begin mdb e' = MDB_SUCCESS \<and> mdb_dbi_open mdb e' name False = MDB_SUCCESS
          \<and> mdb_cursor_open mdb e' name = MDB_SUCCESS
          \<and> mdb_cursor_set mdb e' name k = Inl v
          \<and> (\<forall>k'. k' \<noteq> k \<longrightarrow> mdb_cursor_set mdb e' name k' = mdb_cursor_set mdb e name k')))"

section \<open>Data\<close>

record kxdb =
  max_mapsize :: u64
  names :: cmem

abbreviation (input) dbname_off :: nat where "dbname_off \<equiv> 0"
abbreviation (input) dbpath_off :: nat where "dbpath_off \<equiv> 32"
abbreviation (input) KXDEFAULTSIZE :: u64 where "KXDEFAULTSIZE \<equiv> 10 * 1024 * 1024"

definition type_val :: "kxfiletype \<Rightarrow> u32" where
  "type_val ty = (case ty of KXCIPHER \<Rightarrow> 1 | KXPLAIN \<Rightarrow> 2)"

text \<open>The memory of a \<^verbatim>\<open>kxfile\<close>, 4368 bytes; \<open>pad\<close> is what its padding holds.\<close>

definition kxfile_bytes :: "u8 \<Rightarrow> kxfile \<Rightarrow> bytes" where
  "kxfile_bytes pad kf =
     map byte_of_char (fname kf) @ map byte_of_char (fullname kf) @ [pad]
     @ le_bytes 8 (uuid kf) @ le_bytes 4 (type_val (type kf)) @ replicate 4 pad"

abbreviation (input) sizeof_kxfile :: nat where "sizeof_kxfile \<equiv> 4368"
abbreviation (input) file_uuid_off :: nat where "file_uuid_off \<equiv> 4352"

section \<open>Operations\<close>

definition kx_creat_db ::
    "'e lmdb \<Rightarrow> (nat \<Rightarrow> cmem) \<Rightarrow> tree \<Rightarrow> u64 \<Rightarrow> string \<Rightarrow> string \<Rightarrow> (tree \<times> kxdb option) option" where
  "kx_creat_db mdb zmalloc t size' dbpath dbname = do {
     let m = take 164 (drop 20 (zmalloc 184));
     m \<leftarrow> strncpy m dbpath_off dbpath 127;
     m \<leftarrow> poke m (dbpath_off + 128) NUL;
     m \<leftarrow> strncpy m dbname_off dbname 31;
     m \<leftarrow> poke m (dbname_off + 32) NUL;
     (if mdb_env_create mdb \<noteq> 0 then Some (t, None)
      else if mdb_env_set_mapsize mdb (if size' \<le> 0 then KXDEFAULTSIZE else size') \<noteq> 0 then Some (t, None)
      else do {
        t \<leftarrow> (if base t dbpath @ components dbpath \<notin> dirs t \<union> files t
              then map_option fst (kx_mkdirp t dbpath) else Some t);
        if mdb_env_open mdb dbpath \<noteq> 0 then Some (t, None)
        else Some (t, Some \<lparr>max_mapsize = size', names = m\<rparr>)
      })
   }"

text \<open>The key is as many bytes as the string \<open>ky\<close> has, taken from the memory of the file object at
  \<^verbatim>\<open>uuid\<close>; reading past the end of the object is undefined behaviour. The results of the first two
  calls are ignored: when one fails, the put that follows fails as well.\<close>

definition insert_file :: "'e lmdb \<Rightarrow> u8 \<Rightarrow> 'e \<Rightarrow> kxdb \<Rightarrow> string \<Rightarrow> kxfile \<Rightarrow> 'e option" where
  "insert_file mdb pad e db ky file = do {
     name \<leftarrow> cstr (names db) dbname_off;
     let mem = kxfile_bytes pad file;
     let n = length ky;
     (if file_uuid_off + n \<le> length mem then
        (if mdb_txn_begin mdb e \<noteq> MDB_SUCCESS \<or> mdb_dbi_open mdb e name True \<noteq> MDB_SUCCESS then Some e
         else Some (fst (mdb_put_commit mdb e name (take n (drop file_uuid_off mem)) mem)))
      else None)
   }"

text \<open>\<open>k\<close> is the 8 bytes the key points to. The result is what is stored through
  \<^verbatim>\<open>outfile\<close>: nothing when an LMDB call fails before.\<close>

definition get_file :: "'e lmdb \<Rightarrow> 'e \<Rightarrow> kxdb \<Rightarrow> u64 \<Rightarrow> bytes option option" where
  "get_file mdb e db k = do {
     name \<leftarrow> cstr (names db) dbname_off;
     (if mdb_txn_begin mdb e \<noteq> MDB_SUCCESS then Some None
      else if mdb_dbi_open mdb e name False \<noteq> MDB_SUCCESS then Some None
      else if mdb_cursor_open mdb e name \<noteq> MDB_SUCCESS then Some None
      else (case mdb_cursor_set mdb e name (le_bytes 8 k) of
              Inr rc \<Rightarrow> Some None
            | Inl v \<Rightarrow> Some (Some v)))
   }"

text \<open>One line of the listing is printed from the stored bytes of an entry: the two name arrays and
  the uuid, at their offsets.\<close>

definition pad_left :: "nat \<Rightarrow> string \<Rightarrow> string" where
  "pad_left n s = replicate (n - length s) (CHR '' '') @ s"

definition list_line :: "bytes \<Rightarrow> string option" where
  "list_line v = do {
     let m = map char_of_byte v;
     f \<leftarrow> cstr m 0;
     p \<leftarrow> cstr m 255;
     if length v < file_uuid_off + 8 then None
     else Some ('' [*] '' @ pad_right 10 f @ pad_right 30 p
        @ pad_left 20 (udec (unat (XXH_readLE64 (drop file_uuid_off v)))) @ '' [L+]'' @ [CHR 0x0A])
   }"

fun list_lines :: "(bytes \<times> bytes) list \<Rightarrow> string list option" where
  "list_lines [] = Some []"
| "list_lines (kv # kvs) = do { l \<leftarrow> list_line (snd kv); ls \<leftarrow> list_lines kvs; Some (l # ls) }"

definition get_file_list :: "'e lmdb \<Rightarrow> 'e \<Rightarrow> kxdb \<Rightarrow> string list option" where
  "get_file_list mdb e db = do {
     name \<leftarrow> cstr (names db) dbname_off;
     (if mdb_txn_begin mdb e \<noteq> MDB_SUCCESS then Some []
      else if mdb_dbi_open mdb e name False \<noteq> MDB_SUCCESS then Some []
      else if mdb_cursor_open mdb e name \<noteq> MDB_SUCCESS then Some []
      else list_lines (mdb_entries mdb e name))
   }"

abbreviation (input) KX_DB_INSERT_FILE :: int where "KX_DB_INSERT_FILE \<equiv> 1"
abbreviation (input) KX_DB_GET_FILE :: int where "KX_DB_GET_FILE \<equiv> 2"
abbreviation (input) KX_DB_GET_FILELIST :: int where "KX_DB_GET_FILELIST \<equiv> 3"

text \<open>The \<^verbatim>\<open>db\<close> argument is a pointer and may be null.\<close>

definition kx_store_db :: "'e lmdb \<Rightarrow> u8 \<Rightarrow> 'e \<Rightarrow> kxdb option \<Rightarrow> int \<Rightarrow> string \<Rightarrow> kxfile \<Rightarrow> ('e \<times> int) option" where
  "kx_store_db mdb pad e db type' key' kf =
     (if type' = KX_DB_INSERT_FILE then do {
        d \<leftarrow> db;
        e \<leftarrow> insert_file mdb pad e d key' kf;
        Some (e, 0)
      } else Some (e, -1))"

datatype get_result = GotFile "bytes option" | GotList "string list" | GotNothing

definition kx_get_db :: "'e lmdb \<Rightarrow> 'e \<Rightarrow> kxdb option \<Rightarrow> int \<Rightarrow> u64 \<Rightarrow> (get_result \<times> int) option" where
  "kx_get_db mdb e db type' key' =
     (if type' = KX_DB_GET_FILE then do {
        d \<leftarrow> db; r \<leftarrow> get_file mdb e d key'; Some (GotFile r, 0)
      } else if type' = KX_DB_GET_FILELIST then do {
        d \<leftarrow> db; ls \<leftarrow> get_file_list mdb e d; Some (GotList ls, 0)
      } else Some (GotNothing, -1))"

section \<open>Lemmas\<close>

text \<open>The arrays of a file object have their sizes.\<close>

definition kxfile_ok :: "kxfile \<Rightarrow> bool" where
  "kxfile_ok kf \<longleftrightarrow> length (fname kf) = 255 \<and> length (fullname kf) = 4096"

lemma length_le_bytes [simp]: "length (le_bytes n w) = n"
  by (simp add: le_bytes_def)

lemma length_kxfile_bytes: "kxfile_ok kf \<Longrightarrow> length (kxfile_bytes pad kf) = sizeof_kxfile"
  by (simp add: kxfile_bytes_def kxfile_ok_def)

lemma drop_kxfile_bytes:
  "kxfile_ok kf \<Longrightarrow> drop file_uuid_off (kxfile_bytes pad kf) =
     le_bytes 8 (uuid kf) @ le_bytes 4 (type_val (type kf)) @ replicate 4 pad"
  by (simp add: kxfile_bytes_def kxfile_ok_def)

lemma insert_file_eq:
  assumes "kxfile_ok kf" "cstr (names db) dbname_off = Some name" "lmdb_laws mdb e name"
  shows "insert_file mdb pad e db ky kf =
    (if length ky \<le> 16
     then Some (fst (mdb_put_commit mdb e name (take (length ky) (drop file_uuid_off (kxfile_bytes pad kf))) (kxfile_bytes pad kf)))
     else None)"
  using assms by (simp add: insert_file_def length_kxfile_bytes lmdb_laws_def Let_def)

section \<open>Properties of the component\<close>


text \<open>A store in memory that satisfies the laws, for the witness.\<close>

definition map_lmdb :: "(bytes \<rightharpoonup> bytes) lmdb" where
  "map_lmdb = \<lparr>mdb_env_create = 0, mdb_env_set_mapsize = (\<lambda>_. 0), mdb_env_open = (\<lambda>_. 0),
     mdb_txn_begin = (\<lambda>_. 0), mdb_dbi_open = (\<lambda>_ _ _. 0), mdb_cursor_open = (\<lambda>_ _. 0),
     mdb_put_commit = (\<lambda>e _ k v. if k = [] \<or> 512 \<le> length k then (e, -1) else (e(k \<mapsto> v), 0)),
     mdb_cursor_set = (\<lambda>e _ k. case e k of Some v \<Rightarrow> Inl v | None \<Rightarrow> Inr (-1)),
     mdb_entries = (\<lambda>_ _. [])\<rparr>"

lemma map_lmdb_laws: "lmdb_laws map_lmdb e name"
  by (auto simp: lmdb_laws_def map_lmdb_def)

abbreviation sample_kxfile :: kxfile where
  "sample_kxfile \<equiv> \<lparr>fname = replicate 255 NUL, fullname = replicate 4096 NUL, uuid = 7, type = KXCIPHER\<rparr>"

abbreviation sample_db :: kxdb where
  "sample_db \<equiv> \<lparr>max_mapsize = 0, names = ''bob'' @ [NUL]\<rparr>"


text \<open>Creating the database object never fails on its names, and leaves the recorded path empty
  for every path: terminating the name at index 32 overwrites the first byte of the path.\<close>

theorem kx_creat_db_names:
  assumes "\<And>n. length (zmalloc n) = n" "is_cstring dbname" "length dbname \<le> 30"
    and "kx_creat_db mdb zmalloc t size' dbpath dbname = Some (t', Some db)"
  shows "cstr (names db) dbname_off = Some dbname \<and> cstr (names db) dbpath_off = Some []"
proof -
  let ?z = "take 164 (drop 20 (zmalloc 184))"
  have lz: "length ?z = 164" using assms(1) by simp
  define m where "m = strncpy_bytes dbname 31 @ ?z ! 31 # NUL # drop 1 (strncpy_bytes dbpath 127 @ ?z ! 159 # NUL # drop 161 ?z)"
  have d: "drop 159 ?z = ?z ! 159 # ?z ! 160 # drop 161 ?z" "drop 31 ?z = ?z ! 31 # drop 32 ?z"
    using drop_Suc_nth [of 159 ?z] drop_Suc_nth [of 160 ?z] drop_Suc_nth [of 31 ?z] lz by simp_all
  have t32: "take 32 ?z = take 31 ?z @ [?z ! 31]" using lz take_Suc_conv_app_nth [of 31 ?z] by simp
  have s1: "strncpy ?z dbpath_off dbpath 127 = Some (take 32 ?z @ strncpy_bytes dbpath 127 @ ?z ! 159 # ?z ! 160 # drop 161 ?z)"
    using lz d(1) by (simp add: strncpy_def blit_def)
  let ?p = "strncpy_bytes dbpath 127 @ ?z ! 159 # NUL # drop 161 ?z"
  have s2: "poke (take 32 ?z @ strncpy_bytes dbpath 127 @ ?z ! 159 # ?z ! 160 # drop 161 ?z) (dbpath_off + 128) NUL = Some (take 32 ?z @ ?p)"
    using lz by (simp add: poke_def list_update_append)
  have s3: "strncpy (take 32 ?z @ ?p) dbname_off dbname 31 = Some (strncpy_bytes dbname 31 @ ?z ! 31 # ?p)"
    using lz t32 by (simp add: strncpy_def blit_def)
  have pne: "?p = hd ?p # drop 1 ?p" by (cases "strncpy_bytes dbpath 127") auto
  have s4: "poke (strncpy_bytes dbname 31 @ ?z ! 31 # ?p) (dbname_off + 32) NUL = Some m"
    by (subst pne) (simp add: poke_def list_update_append m_def)
  have "names db = m"
    using assms(4) s1 s2 s3 s4 unfolding kx_creat_db_def Let_def
    by (auto split: if_splits Option.bind_splits)
  moreover have "cstr m dbname_off = Some dbname"
    using assms(3) by (simp add: m_def strncpy_bytes_split cstr_append [OF assms(2)])
  moreover have "cstr m dbpath_off = Some []"
    by (simp add: m_def cstr_def)
  ultimately show ?thesis by simp
qed

theorem kx_creat_db_names_witness:
  "\<exists>t' db. kx_creat_db map_lmdb (\<lambda>n. replicate n (CHR ''x'')) \<lparr>dirs = {[], [''data'']}, files = {}, cwd = []\<rparr> 0 ''./data'' ''bob'' = Some (t', Some db)
    \<and> cstr (names db) dbname_off = Some ''bob'' \<and> cstr (names db) dbpath_off = Some []"
proof -
  have "\<exists>t' db. kx_creat_db map_lmdb (\<lambda>n. replicate n (CHR ''x'')) \<lparr>dirs = {[], [''data'']}, files = {}, cwd = []\<rparr> 0 ''./data'' ''bob'' = Some (t', Some db)"
    by (simp add: kx_creat_db_def map_lmdb_def strncpy_def blit_def poke_def base_def components_def Let_def)
  then show ?thesis
    using kx_creat_db_names [of "\<lambda>n. replicate n (CHR ''x'')" "''bob''"] by (force simp: is_cstring_def NUL_def)
qed

end
