(* ===== verification/Client.thy ===== *)
theory Client
  imports User File Db Net Adlist Getopt
begin

text \<open>
  The client object and its two commands: \<^verbatim>\<open>src/src/kx_user.c\<close> and \<^verbatim>\<open>src/src/kx_file.c\<close>.
  The global \<^verbatim>\<open>client\<close> is a record together with the state of what it talks to: the Redis
  connection, the LMDB environment, the file system and the directory tree, the heap of list nodes.
  What is outside the program (the Redis server, LMDB, the allocator, what uninitialised memory
  holds) is a record of functions. The diagnostics and the usage and version texts of the option parsers are
  not recorded; what the commands print otherwise is.
\<close>

section \<open>State\<close>

record ('r, 'e) env =
  e_redis :: "'r redis"
  e_errstr :: string
  e_mdb :: "'e lmdb"
  e_zmalloc :: "nat \<Rightarrow> cmem"
  e_newaddr :: "kxfile heap \<Rightarrow> addr"
  e_ctx :: AES_ctx
  e_pad :: u8

record ('r, 'e) client =
  cl_node :: "kxnode option"
  cl_user :: "kxuser option"
  cl_db :: "kxdb option"
  cl_local :: "kxfile list_hdr"
  cl_heap :: "kxfile heap"
  cl_acs :: "action list"
  cl_redis :: 'r
  cl_lmdb :: 'e
  cl_fs :: filesys
  cl_tree :: tree
  cl_out :: "string list"

abbreviation (input) MAXMAPSIZE :: u64 where "MAXMAPSIZE \<equiv> 10 * 1024 * 1024"

text \<open>The calls \<^verbatim>\<open>kx_sync_send_cmd(client.net, ac, ac->cmdline, ...)\<close> with \<^verbatim>\<open>ac\<close> from
  \<^verbatim>\<open>kx_search_action\<close>.\<close>

definition send_action :: "('r, 'e) env \<Rightarrow> ('r, 'e) client \<Rightarrow> kxtype \<Rightarrow> farg list \<Rightarrow> ('r, 'e) client option" where
  "send_action env c ty args = do {
     i \<leftarrow> kx_search_action (cl_acs c) ty;
     ac \<leftarrow> peek (cl_acs c) i;
     (r, out) \<leftarrow> kx_sync_send_cmd (e_redis env) (e_errstr env) (cl_redis c) (cl_acs c) (Some i) (cmdline ac) args;
     Some (c\<lparr>cl_redis := r, cl_out := cl_out c @ out\<rparr>)
   }"

section \<open>The user command\<close>

record user_state =
  isget :: bool
  isreg :: bool
  puser :: "string option"
  ppwd :: "string option"

definition user_init_state :: user_state where
  "user_init_state = \<lparr>isget = False, isreg = False, puser = None, ppwd = None\<rparr>"

definition user_long_options :: long_opts where
  "user_long_options = [(''register'', CHR ''r''), (''version'', CHR ''v''), (''help'', CHR ''h'')]"

text \<open>How the option loop ends: all options read, \<^verbatim>\<open>goto out\<close>, or \<^verbatim>\<open>goto err\<close>.\<close>

datatype loop_end = AllRead | GotoOut | GotoErr

fun user_option_loop :: "opt_event list \<Rightarrow> user_state \<Rightarrow> int \<Rightarrow> user_state \<times> int \<times> loop_end" where
  "user_option_loop [] sta ret = (sta, ret, AllRead)"
| "user_option_loop (ev # evs) sta ret =
     (if opt ev = CHR ''u'' then
        (case optarg ev of
           Some a \<Rightarrow> user_option_loop evs (sta\<lparr>puser := Some a\<rparr>) 0
         | None \<Rightarrow> user_option_loop evs sta (-2))
      else if opt ev = CHR ''p'' then
        (case optarg ev of
           Some a \<Rightarrow> user_option_loop evs (sta\<lparr>ppwd := Some a\<rparr>) 0
         | None \<Rightarrow> user_option_loop evs sta (-2))
      else if opt ev = CHR ''r'' then user_option_loop evs (sta\<lparr>isreg := True\<rparr>) 0
      else if opt ev = CHR ''g'' then (sta\<lparr>isget := True\<rparr>, 0, GotoOut)
      else if opt ev = CHR ''v'' then (sta, -2, GotoOut)
      else if opt ev = CHR ''h'' then (sta, -2, GotoOut)
      else (sta, ret, GotoErr))"

text \<open>The last test compares \<^verbatim>\<open>argc - option_index\<close> with 2; both branches return \<^verbatim>\<open>ret\<close>. An empty
  argument vector is not passed.\<close>

definition user_parse_options :: "string list \<Rightarrow> user_state \<Rightarrow> user_state \<times> int" where
  "user_parse_options argv sta =
     (if last argv = [] then (sta, -1)
      else (case user_option_loop (getopt_long ''u:p:grhv'' user_long_options argv) sta (-1) of
              (sta, ret, GotoOut) \<Rightarrow> (sta, ret)
            | (sta, ret, GotoErr) \<Rightarrow> (sta, ret)
            | (sta, ret, AllRead) \<Rightarrow>
                if isreg sta \<and> (puser sta = None \<or> ppwd sta = None) then (sta, -2)
                else if \<not> isreg sta \<and> (puser sta = None) \<noteq> (ppwd sta = None) then (sta, -2)
                else (sta, ret)))"

definition kx_node_set :: "('r, 'e) env \<Rightarrow> ('r, 'e) client \<Rightarrow> ('r, 'e) client option" where
  "kx_node_set env c = do {
     n \<leftarrow> cl_node c;
     uuid \<leftarrow> cstr n uuid_off;
     ip \<leftarrow> cstr n ip_off;
     mac \<leftarrow> cstr n mac_off;
     send_action env c NODE_SET [FStr uuid, FStr uuid, FStr ip, FStr mac]
   }"

definition kx_user_register :: "('r, 'e) env \<Rightarrow> user_state \<Rightarrow> ('r, 'e) client \<Rightarrow> ('r, 'e) client option" where
  "kx_user_register env sta c = do {
     name \<leftarrow> puser sta;
     pwd \<leftarrow> ppwd sta;
     u \<leftarrow> kx_creat_user (e_zmalloc env) (cl_node c) name pwd;
     let c = c\<lparr>cl_user := Some (u\<lparr>isonline := 1\<rparr>)\<rparr>;
     (t, db) \<leftarrow> kx_creat_db (e_mdb env) (e_zmalloc env) (cl_tree c) MAXMAPSIZE ''./data'' name;
     let c = c\<lparr>cl_tree := t, cl_db := db\<rparr>;
     n \<leftarrow> cl_node c;
     uuid \<leftarrow> cstr n uuid_off;
     username \<leftarrow> cstr (chars u) username_off;
     upwd \<leftarrow> cstr (chars u) pwd_off;
     send_action env c USER_REG [FStr uuid, FStr username, FStr username, FStr upwd, FInt 1]
   }"

definition kx_user_get :: "('r, 'e) env \<Rightarrow> ('r, 'e) client \<Rightarrow> ('r, 'e) client option" where
  "kx_user_get env c = do {
     i \<leftarrow> kx_search_action (cl_acs c) USER_GET;
     let c = c\<lparr>cl_acs := set_syncexec (cl_acs c) i Cb_user_reply\<rparr>;
     n \<leftarrow> cl_node c;
     uuid \<leftarrow> cstr n uuid_off;
     u \<leftarrow> cl_user c;
     username \<leftarrow> cstr (chars u) username_off;
     send_action env c USER_GET [FStr uuid, FStr username]
   }"

definition do_user :: "('r, 'e) env \<Rightarrow> string list \<Rightarrow> ('r, 'e) client \<Rightarrow> (('r, 'e) client \<times> int) option" where
  "do_user env argv c =
     (let (sta, ret) = user_parse_options argv user_init_state in
      if ret = -2 then Some (c, 0)
      else if ret = -1 then Some (c, -1)
      else if isreg sta then do {
        c \<leftarrow> kx_node_set env c;
        c \<leftarrow> kx_user_register env sta c;
        Some (c, 0)
      } else if isget sta then do {
        c \<leftarrow> kx_user_get env c;
        Some (c, 0)
      } else Some (c, ret))"

section \<open>The file command\<close>

record file_state =
  isecrypt :: bool
  isdecrypt :: bool
  istrace :: bool
  isgetlist :: bool
  st_file :: "string option"

definition file_init_state :: file_state where
  "file_init_state = \<lparr>isecrypt = False, isdecrypt = False, istrace = False, isgetlist = False, st_file = None\<rparr>"

definition file_long_options :: long_opts where
  "file_long_options = [(''version'', CHR ''v''), (''help'', CHR ''h'')]"

fun file_option_loop :: "opt_event list \<Rightarrow> file_state \<Rightarrow> int \<Rightarrow> file_state \<times> int \<times> loop_end" where
  "file_option_loop [] sta ret = (sta, ret, AllRead)"
| "file_option_loop (ev # evs) sta ret =
     (if opt ev = CHR ''e'' then
        if isdecrypt sta \<or> istrace sta then (sta, ret, GotoErr)
        else (case optarg ev of
                Some a \<Rightarrow> file_option_loop evs (sta\<lparr>st_file := Some a, isecrypt := True\<rparr>) 0
              | None \<Rightarrow> file_option_loop evs sta ret)
      else if opt ev = CHR ''d'' then
        if isecrypt sta \<or> istrace sta then (sta, ret, GotoErr)
        else (case optarg ev of
                Some a \<Rightarrow> file_option_loop evs (sta\<lparr>st_file := Some a, isdecrypt := True\<rparr>) 0
              | None \<Rightarrow> file_option_loop evs sta ret)
      else if opt ev = CHR ''t'' then
        if isecrypt sta \<or> isdecrypt sta then (sta, ret, GotoErr)
        else (case optarg ev of
                Some a \<Rightarrow> file_option_loop evs (sta\<lparr>st_file := Some a, istrace := True\<rparr>) 0
              | None \<Rightarrow> file_option_loop evs sta ret)
      else if opt ev = CHR ''l'' then (sta\<lparr>isgetlist := True\<rparr>, 0, GotoOut)
      else if opt ev = CHR ''v'' then (sta, -2, GotoOut)
      else if opt ev = CHR ''h'' then (sta, -2, GotoOut)
      else (sta, ret, GotoErr))"

definition file_parse_options :: "string list \<Rightarrow> file_state \<Rightarrow> file_state \<times> int" where
  "file_parse_options argv sta =
     (if last argv = [] then (sta, -1)
      else (case file_option_loop (getopt_long ''e:d:t:lhv'' file_long_options argv) sta (-1) of
              (sta, ret, _) \<Rightarrow> (sta, ret)))"

definition file_encrypt :: "('r, 'e) env \<Rightarrow> file_state \<Rightarrow> ('r, 'e) client \<Rightarrow> (('r, 'e) client \<times> int) option" where
  "file_encrypt env sta c =
     (case st_file sta of
        None \<Rightarrow> Some (c, -1)
      | Some path \<Rightarrow> do {
          (fs, r) \<leftarrow> kx_crypt_file (e_ctx env) (cl_user c) (cl_fs c) path;
          let c = c\<lparr>cl_fs := fs\<rparr>;
          (case r of
             None \<Rightarrow> Some (c, -1)
           | Some kf \<Rightarrow> do {
               (h, l) \<leftarrow> listAddNodeHead (cl_heap c) (cl_local c) (e_newaddr env (cl_heap c)) kf;
               let c = c\<lparr>cl_heap := h, cl_local := l\<rparr>;
               f \<leftarrow> cstr (fname kf) 0;
               p \<leftarrow> cstr (fullname kf) 0;
               u \<leftarrow> cl_user c;
               username \<leftarrow> cstr (chars u) username_off;
               n \<leftarrow> cl_node c;
               muuid \<leftarrow> cstr n uuid_off;
               c \<leftarrow> send_action env c FILE_CRYPT
                 [FULong (uuid kf), FStr f, FStr p, FULong (uuid kf), FStr username, FStr muuid];
               txt \<leftarrow> vformat ''%s:%lu'' [FStr username, FULong (uuid kf)];
               buf \<leftarrow> snprintf (replicate 64 NUL) 0 64 txt;
               ky \<leftarrow> cstr buf 0;
               (e, _) \<leftarrow> kx_store_db (e_mdb env) (e_pad env) (cl_lmdb c) (cl_db c) KX_DB_INSERT_FILE ky kf;
               Some (c\<lparr>cl_lmdb := e\<rparr>, 0)
             })
        })"

definition file_decrypt :: "('r, 'e) env \<Rightarrow> file_state \<Rightarrow> ('r, 'e) client \<Rightarrow> (('r, 'e) client \<times> int) option" where
  "file_decrypt env sta c =
     (case st_file sta of
        None \<Rightarrow> Some (c, -1)
      | Some path \<Rightarrow> do {
          u \<leftarrow> cl_user c;
          (fs, ret) \<leftarrow> kx_decrypt_file (e_ctx env) (cl_fs c) path (key u);
          let c = c\<lparr>cl_fs := fs\<rparr>;
          (if ret \<noteq> 0 then Some (c, -1)
           else Some (c\<lparr>cl_out := cl_out c @ [''Decryption of file success'' @ [CHR 0x0A]]\<rparr>, 0))
        })"

definition file_getfilelist :: "('r, 'e) env \<Rightarrow> ('r, 'e) client \<Rightarrow> ('r, 'e) client option" where
  "file_getfilelist env c = do {
     (r, _) \<leftarrow> kx_get_db (e_mdb env) (cl_lmdb c) (cl_db c) KX_DB_GET_FILELIST 0;
     Some (case r of GotList ls \<Rightarrow> c\<lparr>cl_out := cl_out c @ ls\<rparr> | _ \<Rightarrow> c)
   }"

definition do_file :: "('r, 'e) env \<Rightarrow> string list \<Rightarrow> ('r, 'e) client \<Rightarrow> (('r, 'e) client \<times> int) option" where
  "do_file env argv c =
     (let (sta, ret) = file_parse_options argv file_init_state in
      if ret = -2 then Some (c, 0)
      else if ret = -1 then Some (c, -1)
      else if isecrypt sta then map_option (\<lambda>(c, _). (c, ret)) (file_encrypt env sta c)
      else if isgetlist sta then map_option (\<lambda>c. (c, ret)) (file_getfilelist env c)
      else if isdecrypt sta then map_option (\<lambda>(c, _). (c, ret)) (file_decrypt env sta c)
      else Some (c, ret))"

text \<open>The reply handler that asks for every key of a list, and the listing of the local list; no
  command installs the first or calls the second.\<close>

fun filelist_loop :: "('r, 'e) env \<Rightarrow> redisReply list \<Rightarrow> ('r, 'e) client \<Rightarrow> ('r, 'e) client option" where
  "filelist_loop env [] c = Some c"
| "filelist_loop env (el # els) c = do {
     i \<leftarrow> kx_search_action (cl_acs c) FILE_GET;
     let c = c\<lparr>cl_acs := set_syncexec (cl_acs c) i Cb_file_reply\<rparr>;
     s \<leftarrow> rstr el;
     c \<leftarrow> send_action env c FILE_GET [FStr s];
     filelist_loop env els c
   }"

definition kx_filelist_reply :: "('r, 'e) env \<Rightarrow> redisReply \<Rightarrow> ('r, 'e) client \<Rightarrow> ('r, 'e) client option" where
  "kx_filelist_reply env reply c =
     (if rkind reply = REDIS_REPLY_ARRAY \<and> relements reply \<noteq> [] then do {
        c \<leftarrow> filelist_loop env (relements reply) c;
        Some (c\<lparr>cl_out := cl_out c @ [replicate 88 (CHR '' '') @ '' numbers: '' @ udec (length (relements reply)) @ [CHR 0x0A]]\<rparr>)
      } else Some c)"

partial_function (option) local_loop :: "kxfile heap \<Rightarrow> ptr \<Rightarrow> string list \<Rightarrow> string list option" where
  "local_loop h p out =
     (case p of
        None \<Rightarrow> Some out
      | Some a \<Rightarrow> do {
          nd \<leftarrow> h a;
          f \<leftarrow> cstr (fname (value nd)) 0;
          q \<leftarrow> cstr (fullname (value nd)) 0;
          local_loop h (next nd) (out @ ['' [*] '' @ pad_right 24 f @ pad_right 64 q @ ''[L+]'' @ [CHR 0x0A]])
        })"

definition kx_local_cryptfilelist :: "('r, 'e) client \<Rightarrow> ('r, 'e) client option" where
  "kx_local_cryptfilelist c = do {
     out \<leftarrow> local_loop (cl_heap c) (head (cl_local c)) [];
     Some (c\<lparr>cl_out := cl_out c @ out\<rparr>)
   }"

section \<open>Lemmas\<close>

lemma send_action_eq:
  assumes "acs_like (cl_acs c)" "syncexec (cl_acs c ! index_of ty) = Some cb"
    and "vformat (cmdline (acs ! index_of ty)) args = Some cmd"
    and "e_redis env (cl_redis c) cmd = (r', Some reply)" "run_callback (Some cb) reply = Some out"
  shows "send_action env c ty args = Some (c\<lparr>cl_redis := r', cl_out := cl_out c @ out\<rparr>)"
  using assms acs_like_length [OF assms(1)] acs_like_nth(2) [OF assms(1) index_of_less]
  by (simp add: send_action_def kx_search_action_like peek_def kx_sync_send_cmd_def kx_command_def)

text \<open>What a status or string reply to one of the storing commands prints.\<close>

definition reply_text :: "redisReply \<Rightarrow> string list" where
  "reply_text reply = (case rstr reply of Some s \<Rightarrow> [s @ [CHR 0x0A]] | None \<Rightarrow> [])"

lemma run_set_callback: "run_callback (Some Cb_set_reply) reply = Some (reply_text reply)"
  by (simp add: run_callback_def kx_set_reply_def reply_text_def split: option.split)

definition node_set_cmd :: "string \<Rightarrow> string \<Rightarrow> string \<Rightarrow> string" where
  "node_set_cmd mid ip mac = ''HMSET node:'' @ mid @ '' uuid '' @ mid @ '' ip '' @ ip @ '' mac '' @ mac"

definition user_reg_cmd :: "string \<Rightarrow> string \<Rightarrow> string \<Rightarrow> string" where
  "user_reg_cmd mid name pwd =
     ''HMSET node:'' @ mid @ '':user:'' @ name @ '' username '' @ name @ '' password '' @ pwd @ '' isonline 1''"

definition file_crypt_cmd :: "u64 \<Rightarrow> string \<Rightarrow> string \<Rightarrow> string \<Rightarrow> string \<Rightarrow> string" where
  "file_crypt_cmd w f p user muuid =
     ''HMSET fileuuid:'' @ udec (unat w) @ '' filename '' @ f @ '' path '' @ p @ '' uuid '' @ udec (unat w)
       @ '' user '' @ user @ '' muuid '' @ muuid"

lemma vformat_node_set:
  "vformat (cmdline (acs ! index_of NODE_SET)) [FStr mid, FStr mid, FStr ip, FStr mac] = Some (node_set_cmd mid ip mac)"
  by (simp add: acs_def index_of_def node_set_cmd_def)

lemma vformat_user_reg:
  "vformat (cmdline (acs ! index_of USER_REG)) [FStr mid, FStr n, FStr n, FStr p, FInt 1] = Some (user_reg_cmd mid n p)"
proof -
  have "sdec 1 = ''1''" by code_simp
  then show ?thesis by (simp add: acs_def index_of_def user_reg_cmd_def)
qed

lemma vformat_file_crypt:
  "vformat (cmdline (acs ! index_of FILE_CRYPT)) [FULong w, FStr f, FStr p, FULong w, FStr u, FStr n] =
     Some (file_crypt_cmd w f p u n)"
  by (simp add: acs_def index_of_def file_crypt_cmd_def)

lemma syncexec_acs:
  "syncexec (acs ! index_of NODE_SET) = Some Cb_set_reply" "syncexec (acs ! index_of USER_REG) = Some Cb_set_reply"
  "syncexec (acs ! index_of FILE_CRYPT) = Some Cb_set_reply"
  by (simp_all add: acs_def index_of_def)

lemma user_parse_register:
  assumes "p \<noteq> []"
  shows "user_parse_options [''user'', ''-r'', ''-u'', n, ''-p'', p] user_init_state =
    (\<lparr>isget = False, isreg = True, puser = Some n, ppwd = Some p\<rparr>, 0)"
  using assms by (simp add: user_parse_options_def getopt_long_def getopt_simps user_init_state_def)

text \<open>When the LMDB calls succeed and no prefix of the data directory is an ordinary file, the
  database object is created.\<close>

definition data_dir :: "tree \<Rightarrow> tree" where
  "data_dir t = t\<lparr>dirs := dirs t \<union> prefixes_of (cwd t) [''data'']\<rparr>"

definition data_dir_ok :: "tree \<Rightarrow> bool" where
  "data_dir_ok t \<longleftrightarrow> cwd t \<in> dirs t \<and> prefixes_of (cwd t) [''data''] \<inter> files t = {}"

definition mdb_opens :: "'e lmdb \<Rightarrow> bool" where
  "mdb_opens mdb \<longleftrightarrow> mdb_env_create mdb = 0 \<and> (\<forall>n. mdb_env_set_mapsize mdb n = 0) \<and> (\<forall>p. mdb_env_open mdb p = 0)"

lemma prefixes_data: "prefixes_of b [''data''] = {b, b @ [''data'']}"
  using prefixes_of_snoc [of b "[]" "''data''"] by auto

lemma kx_creat_db_total:
  assumes z: "\<And>n. length (zmalloc n) = n" and t: "data_dir_ok t" and o: "mdb_opens mdb"
  shows "\<exists>db. kx_creat_db mdb zmalloc t sz ''./data'' name = Some (data_dir t, Some db)"
proof -
  have b: "base t ''./data'' = cwd t" "components ''./data'' = [''data'']"
    by (simp_all add: base_def components_def)
  have "map_option fst (kx_mkdirp t ''./data'') = Some (data_dir t)"
    using kx_mkdirp_creates [of "''./data''" t] t b by (simp add: data_dir_ok_def data_dir_def is_cstring_def NUL_def)
  moreover have "t = data_dir t" if "cwd t @ [''data''] \<in> dirs t \<union> files t"
    using that t by (auto simp: data_dir_def data_dir_ok_def prefixes_data insert_absorb)
  ultimately have "(if cwd t @ [''data''] \<notin> dirs t \<union> files t then map_option fst (kx_mkdirp t ''./data'') else Some t) =
      Some (data_dir t)" by simp
  then show ?thesis
    using o z unfolding kx_creat_db_def b
    by (simp add: mdb_opens_def strncpy_def blit_def poke_def Let_def del: map_option_eq_Some)
qed

text \<open>The fields of the user the command creates.\<close>

lemma kx_creat_user_ok:
  assumes "\<And>n. length (zmalloc n) = n" "cstr n uuid_off = Some mid"
    and "is_cstring name" "length name \<le> 30" "is_cstring pwd" "length pwd \<le> 30"
  obtains u where "kx_creat_user zmalloc (Some n) name pwd = Some u"
    "cstr (chars u) username_off = Some name" "cstr (chars u) pwd_off = Some pwd"
    "key u = map byte_of_char (take 63 (mid @ name))"
proof -
  let ?m = "strncpy_bytes name 31 @ zmalloc sizeof_kxuser ! 31 #
        strncpy_bytes pwd 31 @ zmalloc sizeof_kxuser ! 63 # replicate 37 NUL"
  have "cstr ?m username_off = Some name"
    using assms(4) by (simp add: strncpy_bytes_split cstr_append [OF assms(3)])
  moreover have "cstr ?m pwd_off = Some pwd"
    using assms(6) cstr_mid [OF assms(5), of "strncpy_bytes name 31 @ [zmalloc sizeof_kxuser ! 31]" 32]
    by (simp add: strncpy_bytes_split [of pwd])
  ultimately show thesis
    using that kx_user_creat_key_eq [OF assms(1) _ assms(2)] by (simp add: creat_user_chars [OF assms(1)])
qed

lemma basename_cstring: "is_cstring path \<Longrightarrow> is_cstring (basename path)"
  by (auto simp: basename_def Let_def is_cstring_def NUL_def dest!: set_takeWhileD set_dropWhileD)

lemma cstr_strncpy: "is_cstring s \<Longrightarrow> length s < n \<Longrightarrow> cstr (strncpy_bytes s n) 0 = Some s"
  by (simp add: strncpy_bytes_split cstr_append)

lemma cstr_snprintf:
  assumes "is_cstring s"
  shows "\<exists>buf. snprintf (replicate 64 NUL) 0 64 s = Some buf \<and> cstr buf 0 = Some (take 63 s)"
  using cstr_append [OF is_cstring_take [OF assms]] by (simp add: snprintf_def blit_def)

lemma digit_char_not_NUL: "d < 10 \<Longrightarrow> digit_char d \<noteq> NUL"
proof -
  assume "d < 10"
  moreover have "list_all (\<lambda>d. digit_char d \<noteq> NUL) [0..<10]" by code_simp
  ultimately show ?thesis by (simp add: list_all_upt_iff)
qed

lemma udec_cstring: "is_cstring (udec n)"
proof (induction n rule: udec.induct)
  case (1 n)
  then show ?case
    using digit_char_not_NUL [of n] digit_char_not_NUL [of "n mod 10"]
    by (subst udec.simps) (auto simp: is_cstring_def dest: sym)
qed

lemma do_file_parse:
  assumes "a \<noteq> []"
  shows "file_parse_options [''file'', ''-e'', a] file_init_state =
      (\<lparr>isecrypt = True, isdecrypt = False, istrace = False, isgetlist = False, st_file = Some a\<rparr>, 0)"
    "file_parse_options [''file'', ''-d'', a] file_init_state =
      (\<lparr>isecrypt = False, isdecrypt = True, istrace = False, isgetlist = False, st_file = Some a\<rparr>, 0)"
  using assms by (simp_all add: file_parse_options_def getopt_long_def getopt_simps file_init_state_def)

text \<open>The content an encryption under a user's key leaves.\<close>

definition ciphertext :: "kxuser \<Rightarrow> bytes \<Rightarrow> bytes" where
  "ciphertext u pt = blocks_map 16 (\<lambda>b. Cipher b (fips_schedule (take 16 (key u)) 40)) (pad16 pt)"

definition kxfile_of :: "string \<Rightarrow> bytes \<Rightarrow> kxfile" where
  "kxfile_of path ct = \<lparr>fname = strncpy_bytes (basename path) NAME_MAX, fullname = strncpy_bytes path PATH_MAX,
     uuid = XXH64 ct 0, type = KXCIPHER\<rparr>"

lemma kx_crypt_file_eq:
  assumes "content fs path = Some pt" "length pt \<le> MAXFILESIZE" "can_read fs path" "can_write fs path"
    and "16 \<le> length (key u)" "length (RoundKey ctx0) = 176"
  shows "kx_crypt_file ctx0 (Some u) fs path =
      Some (fs\<lparr>content := (content fs)(path \<mapsto> ciphertext u pt)\<rparr>,
        if XXH64 (ciphertext u pt) 0 = 0 then None else Some (kxfile_of path (ciphertext u pt)))"
  using encrypt_file_eq [OF assms(1,3-6)] assms
  by (simp add: kx_crypt_file_def calculate_xxhash_eq Let_def ciphertext_def kxfile_of_def)

lemma kxfile_of_ok: "kxfile_ok (kxfile_of path ct)"
  by (simp add: kxfile_ok_def kxfile_of_def)

section \<open>Properties of the component\<close>



text \<open>Contradictory file options are reported but not refused: \<^verbatim>\<open>file -e a -d b\<close> does exactly
  what \<^verbatim>\<open>file -e a\<close> does. The documented option \<^verbatim>\<open>-t\<close> changes nothing and reports success.\<close>

theorem do_file_conflict:
  assumes "a \<noteq> []" "b \<noteq> []"
  shows "do_file env [''file'', ''-e'', a, ''-d'', b] c = do_file env [''file'', ''-e'', a] c
    \<and> do_file env [''file'', ''-t'', a] c = Some (c, 0)"
  using assms by (simp add: do_file_def file_parse_options_def getopt_long_def getopt_simps file_init_state_def)

theorem do_file_conflict_witness:
  "\<forall>env c. do_file env [''file'', ''-e'', ''x'', ''-d'', ''y''] c = do_file env [''file'', ''-e'', ''x''] c"
  using do_file_conflict [of "''x''" "''y''"] by blast


text \<open>\<^verbatim>\<open>file -d path\<close> on a file the same key has encrypted restores the padded content, prints
  the success message and changes nothing else of the client.\<close>

theorem do_file_decrypt:
  assumes "cl_user c = Some u" "content (cl_fs c) path = Some (ciphertext u pt)"
    and "can_read (cl_fs c) path" "can_write (cl_fs c) path" "path \<noteq> []"
    and "16 \<le> length (key u)" "length (RoundKey (e_ctx env)) = 176"
  shows "do_file env [''file'', ''-d'', path] c =
    Some (c\<lparr>cl_fs := (cl_fs c)\<lparr>content := (content (cl_fs c))(path \<mapsto> pad16 pt)\<rparr>,
            cl_out := cl_out c @ [''Decryption of file success'' @ [CHR 0x0A]]\<rparr>, 0)"
proof -
  let ?rk = "fips_schedule (take 16 (key u)) 40"
  have l: "length (ciphertext u pt) = (length pt + 15) div 16 * 16"
    unfolding ciphertext_def by (rule length_blocks_map) (simp_all add: length_pad16)
  then have p: "pad16 (ciphertext u pt) = ciphertext u pt" by (simp add: pad16_id)
  have "blocks_map 16 (\<lambda>b. InvCipher b ?rk) (ciphertext u pt) = pad16 pt"
    using aes.blocks_dec_enc [OF length_pad16, of ?rk pt] by (simp add: ciphertext_def)
  then show ?thesis
    using decrypt_file_eq [OF assms(2-4,6,7)] p assms(1) do_file_parse(2) [OF assms(5)]
    by (simp add: do_file_def file_decrypt_def kx_decrypt_file_def)
qed

section \<open>Witnesses\<close>

text \<open>A client on a node with uuid of 32 digits, a server that records the commands and answers
  \<^verbatim>\<open>OK\<close>, and the in-memory store.\<close>

definition sample_redis :: "string list redis" where
  "sample_redis r cmd = (r @ [cmd], Some (Reply REDIS_REPLY_STATUS (Some ''OK'') []))"

definition sample_client_env :: "(string list, bytes \<rightharpoonup> bytes) env" where
  "sample_client_env = \<lparr>e_redis = sample_redis, e_errstr = [], e_mdb = map_lmdb, e_zmalloc = (\<lambda>n. replicate n NUL),
     e_newaddr = (\<lambda>_. 5), e_ctx = sample_ctx, e_pad = 0\<rparr>"

definition sample_node :: kxnode where
  "sample_node = (replicate 15 (CHR ''1'') @ [NUL]) @ (replicate 17 (CHR ''m'') @ [NUL]) @ replicate 32 (CHR ''7'') @ [NUL]"

definition sample_client :: "(string list, bytes \<rightharpoonup> bytes) client" where
  "sample_client = \<lparr>cl_node = Some sample_node, cl_user = None, cl_db = None, cl_local = listCreate, cl_heap = Map.empty,
     cl_acs = acs, cl_redis = [], cl_lmdb = Map.empty, cl_fs = sample_fs,
     cl_tree = \<lparr>dirs = {[]}, files = {}, cwd = []\<rparr>, cl_out = []\<rparr>"

definition sample_user :: kxuser where
  "sample_user = \<lparr>chars = ''bob'' @ [NUL], isonline = 1, node = Some sample_node, key = replicate 16 7\<rparr>"

lemma sample_node_fields:
  "cstr sample_node uuid_off = Some (replicate 32 (CHR ''7''))"
  "cstr sample_node ip_off = Some (replicate 15 (CHR ''1''))"
  "cstr sample_node mac_off = Some (replicate 17 (CHR ''m''))"
proof -
  show "cstr sample_node uuid_off = Some (replicate 32 (CHR ''7''))"
    using cstr_mid [of "replicate 32 (CHR ''7'')" "(replicate 15 (CHR ''1'') @ [NUL]) @ (replicate 17 (CHR ''m'') @ [NUL])" 34 "[]"]
    by (simp add: sample_node_def is_cstring_def NUL_def)
  show "cstr sample_node ip_off = Some (replicate 15 (CHR ''1''))"
    using cstr_append [of "replicate 15 (CHR ''1'')"] by (simp add: sample_node_def is_cstring_def NUL_def)
  show "cstr sample_node mac_off = Some (replicate 17 (CHR ''m''))"
    using cstr_mid [of "replicate 17 (CHR ''m'')" "replicate 15 (CHR ''1'') @ [NUL]" 16]
    by (simp add: sample_node_def is_cstring_def NUL_def)
qed

lemma sample_user_name: "cstr (chars sample_user) username_off = Some ''bob''"
  using cstr_append [of "''bob''" "[]"] by (simp add: sample_user_def is_cstring_def NUL_def)

lemma sample_client_fields:
  "cl_node sample_client = Some sample_node" "cl_local sample_client = listCreate" "cl_heap sample_client = Map.empty"
  "cl_acs sample_client = acs" "cl_redis sample_client = []" "cl_fs sample_client = sample_fs" "cl_out sample_client = []"
  by (simp_all add: sample_client_def)

lemma sample_env_fields:
  "e_mdb sample_client_env = map_lmdb" "length (e_zmalloc sample_client_env n) = n" "e_newaddr sample_client_env h = 5"
  "e_ctx sample_client_env = sample_ctx"
  "e_redis sample_client_env r x = (r @ [x], Some (Reply REDIS_REPLY_STATUS (Some ''OK'') []))"
  by (simp_all add: sample_client_env_def sample_redis_def)

lemma sample_user_fields: "key sample_user = replicate 16 7"
  by (simp add: sample_user_def)

lemmas sample_fields = sample_client_fields sample_env_fields sample_user_fields

lemma sample_tree_ok: "data_dir_ok (cl_tree sample_client)"
  by (simp add: data_dir_ok_def sample_client_def)

lemma sample_mdb_opens: "mdb_opens (e_mdb sample_client_env)"
  by (simp add: mdb_opens_def sample_client_env_def map_lmdb_def)



theorem do_file_decrypt_witness:
  "\<exists>c'. do_file sample_client_env [''file'', ''-d'', ''a.txt'']
      (sample_client\<lparr>cl_user := Some sample_user, cl_fs := sample_fs\<lparr>content := [''a.txt'' \<mapsto> ciphertext sample_user [1, 2, 3]]\<rparr>\<rparr>) = Some (c', 0)
    \<and> content (cl_fs c') ''a.txt'' = Some ([1, 2, 3] @ replicate 13 13)"
  using do_file_decrypt [of "sample_client\<lparr>cl_user := Some sample_user, cl_fs := sample_fs\<lparr>content := [''a.txt'' \<mapsto> ciphertext sample_user [1, 2, 3]]\<rparr>\<rparr>"
      sample_user "''a.txt''" "[1, 2, 3]" sample_client_env]
  by (simp add: sample_fields pad16_def)

end
