(* ===== verification/Mq.thy ===== *)
theory Mq
  imports Net
begin

text \<open>
  The MQTT layer: \<^verbatim>\<open>src/src/mq.c\<close> and the callbacks \<^verbatim>\<open>src/src/rkx.c\<close> installs. libmosquitto is
  outside the program: its client object is the callbacks registered with it and whether it has
  been destroyed; the results of its calls are arguments. What a callback does is the list of its
  calls into the library and its output lines, in order.

  The second part is the start of the program: the main thread creates the MQTT thread and waits on
  a condition variable that the subscribe callback signals. It is a step relation over the two
  threads and the broker.
\<close>

section \<open>The manager object\<close>

datatype callback = Default_connect | Rkx_connect | Rkx_subscribe | Rkx_message | Other_cb

record mosquitto =
  connect_cb :: "callback option"
  subscribe_cb :: "callback option"
  message_cb :: "callback option"
  log_cb :: "callback option"
  destroyed :: bool

record kxmq =
  mosq :: mosquitto
  keepalive :: int
  host :: string
  port :: int
  topic :: string
  on_connect_cb :: "callback option"
  on_subscribe_cb :: "callback option"
  on_message_cb :: "callback option"
  on_log_cb :: "callback option"

text \<open>\<open>new_ok\<close> tells whether \<^verbatim>\<open>mosquitto_new\<close> returned an object.\<close>

definition kx_mq_init :: "bool \<Rightarrow> string \<Rightarrow> int \<Rightarrow> string \<Rightarrow> kxmq option" where
  "kx_mq_init new_ok h p tp =
     (if \<not> new_ok then None
      else Some \<lparr>mosq = \<lparr>connect_cb = None, subscribe_cb = None, message_cb = None, log_cb = None, destroyed = False\<rparr>,
        keepalive = 60, host = h, port = p, topic = tp,
        on_connect_cb = None, on_subscribe_cb = None, on_message_cb = None, on_log_cb = None\<rparr>)"

text \<open>Destroying a client twice is undefined behaviour.\<close>

definition mosquitto_destroy :: "mosquitto \<Rightarrow> mosquitto option" where
  "mosquitto_destroy m = (if destroyed m then None else Some (m\<lparr>destroyed := True\<rparr>))"

definition kx_mq_free :: "kxmq option \<Rightarrow> unit option" where
  "kx_mq_free kq = (case kq of None \<Rightarrow> Some () | Some q \<Rightarrow> do { _ \<leftarrow> mosquitto_destroy (mosq q); Some () })"

text \<open>\<open>rc\<close> is the result of \<^verbatim>\<open>mosquitto_connect\<close>; on success the call blocks in the network loop
  until the client disconnects.\<close>

definition kx_mq_loop_start :: "int \<Rightarrow> kxmq \<Rightarrow> (kxmq \<times> int) option" where
  "kx_mq_loop_start rc kq =
     (if destroyed (mosq kq) then None
      else if rc \<noteq> 0 then do {
        m \<leftarrow> mosquitto_destroy (mosq kq);
        Some (kq\<lparr>mosq := m\<rparr>, -1)
      } else Some (kq, 0))"

definition kx_mq_set_connect_cb :: "kxmq \<Rightarrow> callback option \<Rightarrow> kxmq" where
  "kx_mq_set_connect_cb kq fconnect =
     kq\<lparr>on_connect_cb := (if fconnect \<noteq> None then fconnect else Some Default_connect),
        mosq := (mosq kq)\<lparr>connect_cb := fconnect\<rparr>\<rparr>"

definition kx_mq_set_subscribe_cb :: "kxmq \<Rightarrow> callback option \<Rightarrow> kxmq" where
  "kx_mq_set_subscribe_cb kq fsubscribe = kq\<lparr>mosq := (mosq kq)\<lparr>subscribe_cb := fsubscribe\<rparr>\<rparr>"

definition kx_mq_set_message_cb :: "kxmq \<Rightarrow> callback option \<Rightarrow> kxmq" where
  "kx_mq_set_message_cb kq fmessage = kq\<lparr>mosq := (mosq kq)\<lparr>message_cb := fmessage\<rparr>\<rparr>"

definition kx_mq_set_log_cb :: "kxmq \<Rightarrow> callback option \<Rightarrow> kxmq" where
  "kx_mq_set_log_cb kq flog = kq\<lparr>mosq := (mosq kq)\<lparr>log_cb := flog\<rparr>\<rparr>"

section \<open>Callbacks\<close>

datatype mq_call = Print string | Disconnect | Subscribe string nat

text \<open>\<open>connack\<close> and \<open>strerror\<close> are the library's texts; \<open>sub_rc\<close> is the result of
  \<^verbatim>\<open>mosquitto_subscribe\<close>. A refused connection does not end the callback: it subscribes all the
  same.\<close>

definition on_connect :: "(int \<Rightarrow> string) \<Rightarrow> (int \<Rightarrow> string) \<Rightarrow> string \<Rightarrow> int \<Rightarrow> int \<Rightarrow> mq_call list" where
  "on_connect connack strerror tp reason_code sub_rc =
     [Print (''on_connect: '' @ connack reason_code)]
     @ (if reason_code \<noteq> 0 then [Disconnect] else [])
     @ [Subscribe tp 1]
     @ (if sub_rc \<noteq> 0 then [Print (''Error subscribing: '' @ strerror sub_rc), Disconnect] else [])"

definition rkx_connect_cb :: "(int \<Rightarrow> string) \<Rightarrow> (int \<Rightarrow> string) \<Rightarrow> string \<Rightarrow> int \<Rightarrow> int \<Rightarrow> mq_call list" where
  "rkx_connect_cb connack strerror tp reason_code sub_rc =
     [Print (''MQTT connect: '' @ connack reason_code)]
     @ (if reason_code \<noteq> 0 then [Disconnect] else [])
     @ [Subscribe tp 1]
     @ (if sub_rc \<noteq> 0 then [Print (''MQTT Error subscribing: '' @ strerror sub_rc), Disconnect] else [])"

fun qos_lines :: "(nat \<Rightarrow> int \<Rightarrow> string) \<Rightarrow> nat \<Rightarrow> int list \<Rightarrow> mq_call list \<times> bool" where
  "qos_lines fmt i [] = ([], False)"
| "qos_lines fmt i (q # qs) =
     (let (ls, have) = qos_lines fmt (i + 1) qs in (Print (fmt i q) # ls, q \<le> 2 \<or> have))"

definition on_subscribe :: "int list \<Rightarrow> mq_call list" where
  "on_subscribe granted_qos =
     (let (ls, have_subscription) =
            qos_lines (\<lambda>i q. ''on_subscribe: '' @ udec i @ '':granted qos = '' @ sdec q) 0 granted_qos
      in ls @ (if \<not> have_subscription then [Print ''Error: All subscriptions rejected.'', Disconnect] else []))"

text \<open>The callback of the program sets \<^verbatim>\<open>g_cbComplete\<close> and signals after its report, whether or
  not a subscription was granted.\<close>

definition rkx_subscribe_cb :: "int list \<Rightarrow> mq_call list \<times> bool" where
  "rkx_subscribe_cb granted_qos =
     (let (ls, have_subscription) =
            qos_lines (\<lambda>i q. ''MQTT QoS level for topic '' @ udec i @ '' : granted qos = '' @ sdec q) 0 granted_qos
      in (ls @ (if \<not> have_subscription then [Print ''Error: All subscriptions rejected.'', Disconnect] else []), True))"

definition on_message :: "string \<Rightarrow> int \<Rightarrow> string \<Rightarrow> mq_call list" where
  "on_message tp qos payload = [Print (tp @ '' '' @ sdec qos @ '' '' @ payload)]"

definition rkx_message_cb :: "string \<Rightarrow> int \<Rightarrow> string \<Rightarrow> mq_call list" where
  "rkx_message_cb tp qos payload = [Print (tp @ '' '' @ sdec qos @ '' '' @ payload)]"

definition on_logcb :: "string \<Rightarrow> mq_call list" where
  "on_logcb str = [Print str]"

section \<open>The start of the program\<close>

text \<open>The main thread: before the creation of the MQTT thread, waiting on the condition, in the
  command loop. The MQTT thread: not created, connecting, in the network loop with or without an
  outstanding subscription, out of the loop.\<close>

datatype main_pc = M_Start | M_Wait | M_Run
datatype mq_pc = T_None | T_Connect | T_Loop | T_SubSent | T_Joined | T_Ended

record start_state =
  main_at :: main_pc
  mq_at :: mq_pc
  g_cbComplete :: bool
  exited :: bool
  refused :: bool

definition start_init :: start_state where
  "start_init = \<lparr>main_at = M_Start, mq_at = T_None, g_cbComplete = False, exited = False, refused = False\<rparr>"

text \<open>\<open>mosquitto_subscribe\<close> on a client that has just disconnected fails, so after a refused
  connection no subscription is outstanding and the network loop ends.\<close>

inductive start_step :: "start_state \<Rightarrow> start_state \<Rightarrow> bool" where
  create: "main_at s = M_Start \<Longrightarrow> \<not> exited s \<Longrightarrow> start_step s (s\<lparr>main_at := M_Wait, mq_at := T_Connect\<rparr>)"
| create_fails: "main_at s = M_Start \<Longrightarrow> \<not> exited s \<Longrightarrow> start_step s (s\<lparr>exited := True\<rparr>)"
| connect_fails: "mq_at s = T_Connect \<Longrightarrow> \<not> exited s \<Longrightarrow> start_step s (s\<lparr>mq_at := T_Ended, exited := True\<rparr>)"
| connect_ok: "mq_at s = T_Connect \<Longrightarrow> \<not> exited s \<Longrightarrow> start_step s (s\<lparr>mq_at := T_Loop\<rparr>)"
| connack_ok: "mq_at s = T_Loop \<Longrightarrow> \<not> exited s \<Longrightarrow> start_step s (s\<lparr>mq_at := T_SubSent\<rparr>)"
| connack_refused: "mq_at s = T_Loop \<Longrightarrow> \<not> exited s \<Longrightarrow> start_step s (s\<lparr>mq_at := T_Ended, refused := True\<rparr>)"
| suback: "mq_at s = T_SubSent \<Longrightarrow> \<not> exited s \<Longrightarrow> rkx_subscribe_cb qos = (calls, done) \<Longrightarrow>
    start_step s (s\<lparr>mq_at := (if Disconnect \<in> set calls then T_Ended else T_Joined), g_cbComplete := done\<rparr>)"
| wake: "main_at s = M_Wait \<Longrightarrow> g_cbComplete s \<Longrightarrow> \<not> exited s \<Longrightarrow> start_step s (s\<lparr>main_at := M_Run\<rparr>)"

inductive_cases start_stepE: "start_step s s'"

inductive start_reach :: "start_state \<Rightarrow> bool" where
  init: "start_reach start_init"
| step: "start_reach s \<Longrightarrow> start_step s s' \<Longrightarrow> start_reach s'"

section \<open>Lemmas\<close>

lemma qos_lines_have: "snd (qos_lines fmt i qs) \<longleftrightarrow> (\<exists>q \<in> set qs. q \<le> 2)"
  by (induction qs arbitrary: i) (auto simp: case_prod_beta Let_def)

lemma qos_lines_no_disconnect: "Disconnect \<notin> set (fst (qos_lines fmt i qs))"
  by (induction qs arbitrary: i) (auto simp: case_prod_beta Let_def)

definition start_inv :: "start_state \<Rightarrow> bool" where
  "start_inv s \<longleftrightarrow>
     (main_at s = M_Start \<longrightarrow> mq_at s = T_None \<and> \<not> g_cbComplete s)
     \<and> (main_at s = M_Run \<longrightarrow> g_cbComplete s)
     \<and> (g_cbComplete s \<longrightarrow> mq_at s \<in> {T_Joined, T_Ended} \<and> \<not> refused s)
     \<and> (refused s \<longrightarrow> mq_at s = T_Ended \<and> main_at s = M_Wait)
     \<and> (mq_at s \<noteq> T_None \<longrightarrow> main_at s \<noteq> M_Start)"

lemma start_inv_step:
  assumes "start_inv s" "start_step s s'"
  shows "start_inv s'"
  using assms(2)
proof cases
  case connack_refused
  then show ?thesis using assms(1) by (cases "main_at s") (auto simp: start_inv_def)
next
  case (suback qos calls b)
  then show ?thesis using assms(1)
    by (auto simp: start_inv_def rkx_subscribe_cb_def case_prod_beta Let_def)
qed (use assms(1) in \<open>auto simp: start_inv_def\<close>)

lemma start_inv_reach: "start_reach s \<Longrightarrow> start_inv s"
proof (induction rule: start_reach.induct)
  case init
  show ?case by (simp add: start_inv_def start_init_def)
next
  case (step s s')
  then show ?case by (blast intro: start_inv_step)
qed

lemma refused_stuck:
  assumes "start_inv s" "refused s"
  shows "\<not> start_step s s'"
proof
  assume "start_step s s'"
  moreover have "mq_at s = T_Ended" "main_at s = M_Wait" "\<not> g_cbComplete s"
    using assms by (auto simp: start_inv_def)
  ultimately show False by (auto elim: start_stepE)
qed

section \<open>Properties of the component\<close>



text \<open>The callbacks: a refused connection is followed by a disconnect and then by a subscription
  attempt; the subscribe callback disconnects exactly when no granted level is at most 2 and
  completes the start in either case.\<close>

theorem mq_callbacks:
  "rkx_connect_cb connack strerror tp rc sub_rc =
      Print (''MQTT connect: '' @ connack rc) # (if rc \<noteq> 0 then [Disconnect] else []) @ Subscribe tp 1 #
      (if sub_rc \<noteq> 0 then [Print (''MQTT Error subscribing: '' @ strerror sub_rc), Disconnect] else [])
   \<and> (Disconnect \<in> set (fst (rkx_subscribe_cb qos)) \<longleftrightarrow> (\<forall>q \<in> set qos. 2 < q))
   \<and> snd (rkx_subscribe_cb qos)
   \<and> (Disconnect \<in> set (on_subscribe qos) \<longleftrightarrow> (\<forall>q \<in> set qos. 2 < q))"
  using qos_lines_no_disconnect qos_lines_have
  by (fastforce simp: rkx_connect_cb_def rkx_subscribe_cb_def on_subscribe_def case_prod_beta Let_def not_le)

theorem mq_callbacks_witness:
  "Disconnect \<in> set (fst (rkx_subscribe_cb [128]))"
  using mq_callbacks [of "\<lambda>_. []" "\<lambda>_. []" "[]" 0 0 "[128]"] by simp



end
