(* ===== verification/Shell.thy ===== *)
theory Shell
  imports Client Mq
begin

text \<open>
  The command shell of \<^verbatim>\<open>src/src/rkx.c\<close> and the external commands of
  \<^verbatim>\<open>src/src/kx_command.c\<close>. A line is the memory linenoise returns; \<^verbatim>\<open>split_str\<close> works on it in
  place and returns offsets. Both of its passes are loops that may not return, so they are partial:
  \<open>None\<close> is a run that does not end or leaves the buffer.
\<close>

section \<open>Splitting a line\<close>

function skip_while :: "(char \<Rightarrow> bool) \<Rightarrow> cmem \<Rightarrow> nat \<Rightarrow> nat option" where
  "skip_while P m p = (if p < length m then (if P (m ! p) then skip_while P m (p + 1) else Some p) else None)"
  by pat_completeness auto

termination
  by (relation "measure (\<lambda>(_, m, p). length m - p)") auto

declare skip_while.simps [simp del]

abbreviation (input) NL :: char where "NL \<equiv> CHR 0x0A"

abbreviation (input) is_word_char :: "char \<Rightarrow> bool" where
  "is_word_char c \<equiv> c \<noteq> CHR '' '' \<and> c \<noteq> NL \<and> c \<noteq> NUL"

partial_function (option) count_loop :: "cmem \<Rightarrow> nat \<Rightarrow> nat \<Rightarrow> nat option" where
  "count_loop m p argc = do {
     c \<leftarrow> peek m p;
     if c \<noteq> NUL then do {
       p \<leftarrow> skip_while (\<lambda>c. c = CHR '' '') m p;
       c \<leftarrow> peek m p;
       q \<leftarrow> skip_while is_word_char m p;
       count_loop m q (if c \<noteq> NUL then argc + 1 else argc)
     } else Some argc
   }"

partial_function (option) fill_loop :: "cmem \<Rightarrow> nat \<Rightarrow> nat \<Rightarrow> nat list \<Rightarrow> (cmem \<times> nat list) option" where
  "fill_loop m p argc argv = do {
     c \<leftarrow> peek m p;
     if length argv < argc \<and> c \<noteq> NUL then do {
       p \<leftarrow> skip_while (\<lambda>c. c = CHR '' '') m p;
       c \<leftarrow> peek m p;
       q \<leftarrow> skip_while is_word_char m p;
       d \<leftarrow> peek m q;
       (if d \<noteq> NUL then do {
          m \<leftarrow> poke m q NUL;
          fill_loop m (q + 1) argc (if c \<noteq> NUL then argv @ [p] else argv)
        } else fill_loop m q argc (if c \<noteq> NUL then argv @ [p] else argv))
     } else Some (m, argv)
   }"

text \<open>The result is the line with terminators written into it and the offsets of the arguments;
  \<^verbatim>\<open>malloc\<close> is taken to succeed.\<close>

definition split_str :: "cmem \<Rightarrow> (cmem \<times> nat list) option" where
  "split_str line = do {
     argc \<leftarrow> count_loop line 0 0;
     fill_loop line 0 argc []
   }"

section \<open>Commands\<close>

datatype cmd = Do_user | Do_file | Do_command | Shell_usage

definition cmds :: "(string \<times> cmd) list" where
  "cmds = [(''user'', Do_user), (''file'', Do_file), (''ls'', Do_command), (''cd'', Do_command), (''help'', Shell_usage)]"

definition get_cmd :: "string \<Rightarrow> cmd option" where
  "get_cmd name = map_option snd (find (\<lambda>x. fst x = name) cmds)"

datatype sys_call = System string | Chdir string

fun command_text :: "string list \<Rightarrow> string" where
  "command_text [] = []"
| "command_text (a # as) = a @ '' '' @ command_text as"

text \<open>The buffer has one byte per character and a terminator; the terminator then replaces the last
  blank. \<^verbatim>\<open>cd\<close> reads the second argument whether there is one or not.\<close>

definition do_command :: "string list \<Rightarrow> (sys_call list \<times> int) option" where
  "do_command argv = do {
     let command = command_text argv @ [NUL];
     command \<leftarrow> (if length command < 2 then None else poke command (length command - 2) NUL);
     text' \<leftarrow> cstr command 0;
     a0 \<leftarrow> peek argv 0;
     (if a0 = ''cd'' then do {
        a1 \<leftarrow> peek argv 1;
        Some ([System text', Chdir a1], 0)
      } else Some ([System text'], 0))
   }"

definition shell_usage :: "string list" where
  "shell_usage = [''The following commands are supported:'', '' * user'', '' * file'', '' * ls'', '' * cd'',
     '' * help'', '' * mkdir'', '' * touch'', '' * quit'', '' * rm'', '' * stat'', '' * tail'', '' * truncate'',
     '' * clear'', '' * flock'', '' * mv'']"

record ('r, 'e) shell =
  sh_client :: "('r, 'e) client"
  sh_calls :: "sys_call list"

text \<open>The arguments of a command are the strings at the offsets.\<close>

fun arg_strings :: "cmem \<Rightarrow> nat list \<Rightarrow> string list option" where
  "arg_strings m [] = Some []"
| "arg_strings m (p # ps) = do { s \<leftarrow> cstr m p; ss \<leftarrow> arg_strings m ps; Some (s # ss) }"

definition execute :: "('r, 'e) env \<Rightarrow> cmd \<Rightarrow> string list \<Rightarrow> ('r, 'e) shell \<Rightarrow> ('r, 'e) shell option" where
  "execute env cm argv s =
     (case cm of
        Do_user \<Rightarrow> map_option (\<lambda>(c, _). s\<lparr>sh_client := c\<rparr>) (do_user env argv (sh_client s))
      | Do_file \<Rightarrow> map_option (\<lambda>(c, _). s\<lparr>sh_client := c\<rparr>) (do_file env argv (sh_client s))
      | Do_command \<Rightarrow> map_option (\<lambda>(calls, _). s\<lparr>sh_calls := sh_calls s @ calls\<rparr>) (do_command argv)
      | Shell_usage \<Rightarrow> Some (s\<lparr>sh_client := (sh_client s)\<lparr>cl_out := cl_out (sh_client s) @ shell_usage\<rparr>\<rparr>))"

text \<open>One turn of the loop for a line read, and the loop over the lines until end of input.\<close>

definition kx_line :: "('r, 'e) env \<Rightarrow> cmem \<Rightarrow> ('r, 'e) shell \<Rightarrow> ('r, 'e) shell option" where
  "kx_line env line s = do {
     c \<leftarrow> peek line 0;
     if c \<noteq> NUL \<and> c \<noteq> CHR ''/'' then do {
       (m, offs) \<leftarrow> split_str line;
       argv \<leftarrow> arg_strings m offs;
       (case argv of
          [] \<Rightarrow> Some s
        | a # _ \<Rightarrow> (case get_cmd a of None \<Rightarrow> Some s | Some cm \<Rightarrow> execute env cm argv s))
     } else Some s
   }"

fun kx_loop :: "('r, 'e) env \<Rightarrow> cmem list \<Rightarrow> ('r, 'e) shell \<Rightarrow> ('r, 'e) shell option" where
  "kx_loop env [] s = Some s"
| "kx_loop env (line # lines) s = do { s \<leftarrow> kx_line env line s; kx_loop env lines s }"

text \<open>\<^verbatim>\<open>rkx_init\<close>: the two lists, the node, no user, the Redis connection, no database, the MQTT
  manager with its callbacks. A failed Redis connection leaves the program.\<close>

datatype ('r, 'e) init_result = InitExit string | Inited "('r, 'e) client" "kxfile list_hdr" "kxmq option"

definition rkx_init :: "node_env \<Rightarrow> ('r, 'e) env \<Rightarrow> ('r \<times> string option) option \<Rightarrow> bool \<Rightarrow> 'e \<Rightarrow> filesys \<Rightarrow> tree \<Rightarrow> ('r, 'e) init_result option" where
  "rkx_init nenv env conn mosq_ok e fs t = do {
     n \<leftarrow> kx_creat_node nenv (e_zmalloc env);
     (case kx_sync_creat_net conn of
        Exit1 msg \<Rightarrow> Some (InitExit msg)
      | Connected r \<Rightarrow>
          Some (Inited \<lparr>cl_node = Some n, cl_user = None, cl_db = None, cl_local = listCreate, cl_heap = Map.empty,
                  cl_acs = acs, cl_redis = r, cl_lmdb = e, cl_fs = fs, cl_tree = t, cl_out = []\<rparr>
                listCreate
                (map_option (\<lambda>kq. kx_mq_set_message_cb (kx_mq_set_subscribe_cb (kx_mq_set_connect_cb kq (Some Rkx_connect))
                     (Some Rkx_subscribe)) (Some Rkx_message))
                   (kx_mq_init mosq_ok ''127.0.0.1'' 1883 ''test/topic''))))
   }"

section \<open>Words of a line\<close>

fun split_blank :: "string \<Rightarrow> string list" where
  "split_blank [] = [[]]"
| "split_blank (c # cs) =
     (if c = CHR '' '' then [] # split_blank cs else (c # hd (split_blank cs)) # tl (split_blank cs))"

definition blank_words :: "string \<Rightarrow> string list" where
  "blank_words s = filter (\<lambda>w. w \<noteq> []) (split_blank s)"

lemma split_blank_ne [simp]: "split_blank s \<noteq> []"
  by (cases s) auto

lemma split_blank_append: "split_blank (a @ CHR '' '' # b) = split_blank a @ split_blank b"
  by (induction a) auto

lemma split_blank_word: "CHR '' '' \<notin> set w \<Longrightarrow> split_blank w = [w]"
  by (induction w) auto

lemma blank_words_simps [simp]:
  "blank_words [] = []" "blank_words (CHR '' '' # s) = blank_words s"
  by (simp_all add: blank_words_def)

lemma blank_words_blanks [simp]: "blank_words (replicate k (CHR '' '') @ s) = blank_words s"
  by (induction k) simp_all

lemma blank_words_word:
  "CHR '' '' \<notin> set w \<Longrightarrow> w \<noteq> [] \<Longrightarrow> blank_words w = [w]"
  "CHR '' '' \<notin> set w \<Longrightarrow> w \<noteq> [] \<Longrightarrow> blank_words (w @ CHR '' '' # s) = w # blank_words s"
  by (simp_all add: blank_words_def split_blank_append split_blank_word)

text \<open>A line is blanks, a word, and a rest that is empty or starts with a blank.\<close>

lemma dropWhile_shape: "dropWhile P xs = [] \<or> (\<exists>c cs. dropWhile P xs = c # cs \<and> \<not> P c)"
  by (induction xs) auto

lemma line_shape:
  obtains k w u where "s = replicate k (CHR '' '') @ w @ u" "CHR '' '' \<notin> set w"
    "u = [] \<or> (\<exists>v. u = CHR '' '' # v)" "w = [] \<longrightarrow> u = []"
proof -
  let ?t = "dropWhile (\<lambda>c. c = CHR '' '') s"
  let ?w = "takeWhile (\<lambda>c. c \<noteq> CHR '' '') ?t"
  let ?u = "dropWhile (\<lambda>c. c \<noteq> CHR '' '') ?t"
  have "takeWhile (\<lambda>c. c = CHR '' '') s = replicate (length (takeWhile (\<lambda>c. c = CHR '' '') s)) (CHR '' '')"
    by (rule replicate_eqI) (auto dest: set_takeWhileD)
  then have "s = replicate (length (takeWhile (\<lambda>c. c = CHR '' '') s)) (CHR '' '') @ ?w @ ?u"
    by (metis takeWhile_dropWhile_id)
  moreover have "CHR '' '' \<notin> set ?w" by (auto dest: set_takeWhileD)
  moreover have "?u = [] \<or> (\<exists>v. ?u = CHR '' '' # v)"
    using dropWhile_shape [of "\<lambda>c. c \<noteq> CHR '' ''" ?t] by blast
  moreover have "?w = [] \<longrightarrow> ?u = []"
    using dropWhile_shape [of "\<lambda>c. c = CHR '' ''" s]
  proof (elim disjE exE conjE)
    fix c cs
    assume t: "?t = c # cs" and "c \<noteq> CHR '' ''"
    then have "?w = c # takeWhile (\<lambda>c. c \<noteq> CHR '' '') cs" by (simp add: t)
    then show ?thesis by simp
  next
    assume t: "?t = []"
    show ?thesis unfolding t by simp
  qed
  ultimately show thesis by (rule that)
qed

lemma blank_words_shape:
  assumes "CHR '' '' \<notin> set w" "u = [] \<or> (\<exists>v. u = CHR '' '' # v)" "w \<noteq> []"
  shows "blank_words (w @ u) = w # blank_words u"
  using assms by (auto simp: blank_words_word)

lemma skip_while_eq:
  "\<forall>c \<in> set xs. P c \<Longrightarrow> ys \<noteq> [] \<Longrightarrow> \<not> P (hd ys) \<Longrightarrow> length pre = p \<Longrightarrow>
   skip_while P (pre @ xs @ ys) p = Some (p + length xs)"
proof (induction xs arbitrary: pre p)
  case Nil
  then show ?case by (subst skip_while.simps) (auto simp: nth_append hd_conv_nth)
next
  case (Cons x xs)
  have "skip_while P ((pre @ [x]) @ xs @ ys) (p + 1) = Some (p + 1 + length xs)"
    by (rule Cons.IH) (use Cons.prems in auto)
  moreover have "(pre @ (x # xs) @ ys) ! p = x" using Cons.prems(4) by auto
  ultimately show ?case using Cons.prems by (subst skip_while.simps) simp
qed

text \<open>One turn of either pass over a line of the shape above: where the word starts and ends.\<close>

lemma peek_append [simp]: "length pre = p \<Longrightarrow> ys \<noteq> [] \<Longrightarrow> peek (pre @ ys) p = Some (hd ys)"
  by (auto simp: peek_def nth_append hd_conv_nth)

lemma turn_skip:
  fixes pre w u rest :: string and k :: nat
  defines "m \<equiv> pre @ (replicate k (CHR '' '') @ w @ u) @ NUL # rest"
  assumes "CHR '' '' \<notin> set w" "u = [] \<or> (\<exists>v. u = CHR '' '' # v)" "w = [] \<longrightarrow> u = []"
    "NUL \<notin> set w" "NL \<notin> set w"
  shows "skip_while (\<lambda>c. c = CHR '' '') m (length pre) = Some (length pre + k)"
    "peek m (length pre + k) = Some (hd (w @ NUL # rest))"
    "skip_while is_word_char m (length pre + k) = Some (length pre + k + length w)"
    "peek m (length pre + k + length w) = Some (hd (u @ NUL # rest))"
proof -
  have hd: "hd (w @ u @ NUL # rest) = hd (w @ NUL # rest)" using assms(4) by (cases w) auto
  have nb: "hd (w @ NUL # rest) \<noteq> CHR '' ''" using assms(2) by (cases w) (auto simp: NUL_def)
  have "skip_while (\<lambda>c. c = CHR '' '') (pre @ replicate k (CHR '' '') @ (w @ u @ NUL # rest)) (length pre)
      = Some (length pre + length (replicate k (CHR '' '')))"
    by (rule skip_while_eq) (use nb hd in auto)
  then show "skip_while (\<lambda>c. c = CHR '' '') m (length pre) = Some (length pre + k)"
    by (simp add: m_def)
  show "peek m (length pre + k) = Some (hd (w @ NUL # rest))"
    using peek_append [of "pre @ replicate k (CHR '' '')" "length pre + k" "w @ u @ NUL # rest"]
    by (simp add: m_def hd)
  have w: "\<forall>c \<in> set w. is_word_char c" using assms(2,5,6) by auto
  have u: "\<not> is_word_char (hd (u @ NUL # rest))" using assms(3) by auto
  have "skip_while is_word_char ((pre @ replicate k (CHR '' '')) @ w @ (u @ NUL # rest)) (length pre + k)
      = Some (length pre + k + length w)"
    by (rule skip_while_eq) (use w u in auto)
  then show "skip_while is_word_char m (length pre + k) = Some (length pre + k + length w)"
    by (simp add: m_def)
  show "peek m (length pre + k + length w) = Some (hd (u @ NUL # rest))"
    using peek_append [of "pre @ replicate k (CHR '' '') @ w" "length pre + k + length w" "u @ NUL # rest"]
    by (simp add: m_def)
qed

lemma hd_clean: "NUL \<notin> set s \<Longrightarrow> s \<noteq> [] \<Longrightarrow> hd (s @ t) \<noteq> NUL"
  by (cases s) auto

lemma peek_end: "peek (pre @ NUL # rest) (length pre) = Some NUL"
  by simp

lemma count_loop_words:
  "NUL \<notin> set s \<Longrightarrow> NL \<notin> set s \<Longrightarrow>
   count_loop (pre @ s @ NUL # rest) (length pre) n = Some (n + length (blank_words s))"
proof (induction "length s" arbitrary: s pre n rule: less_induct)
  case less
  show ?case
  proof (cases "s = []")
    case True
    then show ?thesis by (subst count_loop.simps) (simp add: peek_end)
  next
    case False
    obtain k w u where s: "s = replicate k (CHR '' '') @ w @ u" and w: "CHR '' '' \<notin> set w"
      and u: "u = [] \<or> (\<exists>v. u = CHR '' '' # v)" and wu: "w = [] \<longrightarrow> u = []"
      by (rule line_shape)
    have nw: "NUL \<notin> set w" "NL \<notin> set w" using less.prems by (auto simp: s)
    note turn = turn_skip [OF w u wu nw, of pre k rest, folded s]
    have hd: "hd (s @ NUL # rest) \<noteq> NUL" using False less.prems by (cases s) auto
    have less': "length u < length s" using False wu by (cases "w = []") (auto simp: s)
    have "count_loop ((pre @ replicate k (CHR '' '') @ w) @ u @ NUL # rest) (length (pre @ replicate k (CHR '' '') @ w)) n'
        = Some (n' + length (blank_words u))" for n'
      by (rule less.hyps [OF less']) (use less.prems in \<open>auto simp: s\<close>)
    then have IH: "count_loop (pre @ s @ NUL # rest) (length pre + k + length w) n' = Some (n' + length (blank_words u))" for n'
      by (simp add: s add.assoc)
    have c: "(hd (w @ NUL # rest) \<noteq> NUL) = (w \<noteq> [])" using nw by (cases w) auto
    have "blank_words s = (if w = [] then [] else w # blank_words u)"
      using w u wu by (auto simp: s blank_words_shape)
    then show ?thesis
      using wu by (subst count_loop.simps) (simp add: turn IH hd c)
  qed
qed

lemma fill_loop_stop: "argc \<le> length argv \<Longrightarrow> p < length m \<Longrightarrow> fill_loop m p argc argv = Some (m, argv)"
  by (subst fill_loop.simps) (simp add: peek_def)

text \<open>The second pass: the bytes it overwrites are the blanks after words, and each offset it stores is
  the start of a word that now ends in a terminator.\<close>

lemma fill_loop_words:
  "NUL \<notin> set s \<Longrightarrow> NL \<notin> set s \<Longrightarrow> argc = length argv + length (blank_words s) \<Longrightarrow>
   \<exists>t new. length t = length s \<and> fill_loop (pre @ s @ NUL # rest) (length pre) argc argv = Some (pre @ t @ NUL # rest, argv @ new) \<and>
     map (cstr (pre @ t @ NUL # rest)) new = map Some (blank_words s)"
proof (induction "length s" arbitrary: s pre argv rule: less_induct)
  case less
  obtain k w u where s: "s = replicate k (CHR '' '') @ w @ u" and w: "CHR '' '' \<notin> set w"
    and u: "u = [] \<or> (\<exists>v. u = CHR '' '' # v)" and wu: "w = [] \<longrightarrow> u = []"
    by (rule line_shape)
  let ?m = "pre @ s @ NUL # rest" and ?b = "replicate k (CHR '' '')"
  show ?case
  proof (cases "w = []")
    case True
    then have "blank_words s = []" using wu blank_words_blanks [of k "[]"] by (simp add: s)
    then have "fill_loop ?m (length pre) argc argv = Some (?m, argv)"
      using less.prems(3) by (intro fill_loop_stop) auto
    then show ?thesis by (intro exI [of _ s] exI [of _ "[]"]) (simp add: \<open>blank_words s = []\<close>)
  next
    case False
    have nw: "NUL \<notin> set w" "NL \<notin> set w" using less.prems by (auto simp: s)
    note turn = turn_skip [OF w u wu nw, of pre k rest, folded s]
    have hd: "hd (s @ NUL # rest) \<noteq> NUL"  by (rule hd_clean [OF less.prems(1)]) (simp add: s False)
    have c: "hd (w @ NUL # rest) \<noteq> NUL" using nw False by (cases w) auto
    have bw: "blank_words s = w # blank_words u" using w u False by (simp add: s blank_words_shape)
    have lt: "length argv < argc" using less.prems(3) by (simp add: bw)
    have cw: "is_cstring w" using nw by (simp add: is_cstring_def)
    consider "u = []" | v where "u = CHR '' '' # v" using u by blast
    then show ?thesis
    proof cases
      case 1
      have "fill_loop ?m (length pre + k + length w) argc (argv @ [length pre + k]) = Some (?m, argv @ [length pre + k])"
        by (rule fill_loop_stop) (use less.prems(3) bw 1 in \<open>auto simp: s\<close>)
      then have "fill_loop ?m (length pre) argc argv = Some (?m, argv @ [length pre + k])"
        using 1 by (subst fill_loop.simps) (simp add: turn hd c lt)
      moreover have "cstr ?m (length pre + k) = Some w"
        using cstr_mid [OF cw, of "pre @ ?b" "length pre + k" rest] by (simp add: s 1)
      ultimately show ?thesis using 1 by (intro exI [of _ s] exI [of _ "[length pre + k]"]) (simp add: bw)
    next
      case (2 v)
      let ?pre = "pre @ ?b @ w @ [NUL]"
      have poke: "poke ?m (length pre + k + length w) NUL = Some (?pre @ v @ NUL # rest)"
        by (simp add: s 2 poke_def list_update_append)
      have "\<exists>t new. length t = length v \<and>
          fill_loop (?pre @ v @ NUL # rest) (length ?pre) argc (argv @ [length pre + k])
            = Some (?pre @ t @ NUL # rest, (argv @ [length pre + k]) @ new) \<and>
          map (cstr (?pre @ t @ NUL # rest)) new = map Some (blank_words v)"
        by (rule less.hyps) (use less.prems bw 2 in \<open>auto simp: s\<close>)
      then obtain t new where t: "length t = length v"
          "fill_loop (?pre @ v @ NUL # rest) (length ?pre) argc (argv @ [length pre + k])
            = Some (?pre @ t @ NUL # rest, (argv @ [length pre + k]) @ new)"
          "map (cstr (?pre @ t @ NUL # rest)) new = map Some (blank_words v)" by blast
      have bwu: "blank_words (w @ CHR '' '' # v) = w # blank_words v"
        using bw by (simp add: s 2)
      have sp: "CHR '' '' \<noteq> NUL" by (simp add: NUL_def)
      have len: "length ?pre = Suc (length pre + k + length w)" by simp
      have "fill_loop ?m (length pre) argc argv = Some (?pre @ t @ NUL # rest, (argv @ [length pre + k]) @ new)"
        using t(2) unfolding len by (subst fill_loop.simps) (simp add: turn hd c lt poke 2 sp)
      moreover have "cstr (?pre @ t @ NUL # rest) (length pre + k) = Some w"
        using cstr_mid [OF cw, of "pre @ ?b" "length pre + k" "t @ NUL # rest"] by simp
      ultimately show ?thesis
        using t(1,3) by (intro exI [of _ "?b @ w @ NUL # t"] exI [of _ "(length pre + k) # new"]) (simp add: bw bwu 2 s)
    qed
  qed
qed

lemma arg_strings_map: "map (cstr m) ps = map Some ss \<Longrightarrow> arg_strings m ps = Some ss"
  by (induction ps arbitrary: ss) auto

lemma skip_while_range:
  "skip_while P m p = Some q \<Longrightarrow> p \<le> q \<and> (\<forall>j. p \<le> j \<longrightarrow> j < q \<longrightarrow> P (m ! j))"
proof (induction P m p rule: skip_while.induct)
  case (1 P m p)
  have "p < length m" and step: "q = p \<or> (P (m ! p) \<and> skip_while P m (p + 1) = Some q)"
    using "1.prems" by (subst (asm) skip_while.simps, auto split: if_splits)+
  then show ?case using "1.IH" by (metis (no_types, lifting) Suc_eq_plus1 Suc_leI le_antisym le_imp_less_Suc le_less nat_le_linear not_less)
qed

text \<open>A newline stops both inner loops of the counting pass and is never passed.\<close>

lemma count_loop_newline:
  assumes "count_loop m p n = Some r"
  shows "i < length m \<Longrightarrow> m ! i = NL \<Longrightarrow> p \<le> i \<Longrightarrow> \<forall>j. p \<le> j \<longrightarrow> j < i \<longrightarrow> m ! j \<noteq> NUL \<Longrightarrow> False"
proof (induction rule: count_loop.raw_induct [OF _ assms])
  case (1 loop m p n r)
  have nl: "NL \<noteq> NUL" by (simp add: NUL_def)
  have "m ! p \<noteq> NUL" using "1.prems" nl by (cases "p = i") auto
  then obtain p' q n' where s1: "skip_while (\<lambda>c. c = CHR '' '') m p = Some p'"
    and s2: "skip_while is_word_char m p' = Some q" and rec: "loop m q n' = Some r"
    using "1.hyps" "1.prems"(1,3) by (auto simp: peek_def Option.bind_eq_Some_conv split: if_splits)
  have p': "p' \<le> i" using skip_while_range [OF s1] "1.prems"(2,3) by fastforce
  then have "q \<le> i" using skip_while_range [OF s2] "1.prems"(2) by fastforce
  moreover have "p \<le> q" using skip_while_range [OF s1] skip_while_range [OF s2] by linarith
  ultimately show False using "1.IH" [OF rec "1.prems"(1,2)] "1.prems"(4) by auto
qed

fun unwords :: "string list \<Rightarrow> string" where
  "unwords [] = []"
| "unwords [a] = a"
| "unwords (a # b # as) = a @ '' '' @ unwords (b # as)"

lemma command_text_unwords: "argv \<noteq> [] \<Longrightarrow> command_text argv = unwords argv @ '' ''"
  by (induction argv rule: unwords.induct) auto

lemma is_cstring_unwords: "\<forall>a \<in> set argv. is_cstring a \<Longrightarrow> is_cstring (unwords argv)"
  by (induction argv rule: unwords.induct) (auto simp: is_cstring_def NUL_def)

lemma do_command_eq:
  assumes "\<forall>a \<in> set argv. is_cstring a"
  shows "do_command argv =
     (if argv = [] then None
      else if hd argv = ''cd'' then (if length argv = 1 then None else Some ([System (unwords argv), Chdir (argv ! 1)], 0))
      else Some ([System (unwords argv)], 0))"
proof (cases argv)
  case Nil
  then show ?thesis by (simp add: do_command_def)
next
  case (Cons a as)
  have ct: "command_text argv = unwords argv @ '' ''" using Cons by (intro command_text_unwords) simp
  have "poke (command_text argv @ [NUL]) (length (command_text argv @ [NUL]) - 2) NUL = Some (unwords argv @ [NUL, NUL])"
    unfolding ct by (simp add: poke_def list_update_append)
  moreover have "\<not> length (command_text argv @ [NUL]) < 2" unfolding ct by simp
  moreover have "cstr (unwords argv @ [NUL, NUL]) 0 = Some (unwords argv)"
    using cstr_append [OF is_cstring_unwords [OF assms]] by simp
  ultimately show ?thesis using Cons by (auto simp: do_command_def peek_def)
qed

lemma blank_words_subset: "w \<in> set (blank_words s) \<Longrightarrow> set w \<subseteq> set s"
proof -
  have "\<forall>w \<in> set (split_blank s). set w \<subseteq> set s"
  proof (induction s)
    case (Cons c cs)
    obtain w ws where "split_blank cs = w # ws" by (cases "split_blank cs") auto
    then show ?case using Cons by auto
  qed simp
  then show "w \<in> set (blank_words s) \<Longrightarrow> set w \<subseteq> set s" by (auto simp: blank_words_def)
qed

lemma split_str_eq:
  assumes "NUL \<notin> set s" "NL \<notin> set s"
  shows "\<exists>t offs. split_str (s @ NUL # rest) = Some (t @ NUL # rest, offs) \<and> length t = length s \<and>
    arg_strings (t @ NUL # rest) offs = Some (blank_words s)"
proof -
  have "\<exists>t new. length t = length s \<and>
      fill_loop ([] @ s @ NUL # rest) (length []) (length (blank_words s)) [] = Some ([] @ t @ NUL # rest, [] @ new) \<and>
      map (cstr ([] @ t @ NUL # rest)) new = map Some (blank_words s)"
    using fill_loop_words [OF assms, of "length (blank_words s)" "[]" "[]" rest] by simp
  then obtain t offs where "length t = length s" "fill_loop (s @ NUL # rest) 0 (length (blank_words s)) [] = Some (t @ NUL # rest, offs)"
      and m: "map (cstr (t @ NUL # rest)) offs = map Some (blank_words s)"
    by (metis append_Nil list.size(3))
  then show ?thesis
    using count_loop_words [OF assms, of "[]" rest 0] arg_strings_map [OF m] by (simp add: split_str_def)
qed

lemma kx_line_eq:
  assumes "NUL \<notin> set s" "NL \<notin> set s" "s \<noteq> []" "hd s \<noteq> CHR ''/''"
  shows "kx_line env (s @ NUL # rest) sh =
    (case blank_words s of [] \<Rightarrow> Some sh
     | a # as \<Rightarrow> (case get_cmd a of None \<Rightarrow> Some sh | Some cm \<Rightarrow> execute env cm (a # as) sh))"
proof -
  obtain t offs where "split_str (s @ NUL # rest) = Some (t @ NUL # rest, offs)" "arg_strings (t @ NUL # rest) offs = Some (blank_words s)"
    using split_str_eq [OF assms(1,2), of rest] by blast
  moreover have "peek (s @ NUL # rest) 0 = Some (hd s)" "hd s \<noteq> NUL"
    using hd_clean [OF assms(1,3), of "[]"] peek_append [of "[]" 0 "s @ NUL # rest"] assms(3) by simp_all
  ultimately show ?thesis using assms(4) by (cases "blank_words s") (simp_all add: kx_line_def)
qed

lemma split_str_cases:
  assumes "NUL \<notin> set s"
  shows "NL \<notin> set s \<Longrightarrow> \<exists>m offs. split_str (s @ NUL # rest) = Some (m, offs) \<and> length m = length (s @ NUL # rest) \<and>
           arg_strings m offs = Some (blank_words s)"
    and "NL \<in> set s \<Longrightarrow> split_str (s @ NUL # rest) = None"
proof -
  assume "NL \<notin> set s"
  then show "\<exists>m offs. split_str (s @ NUL # rest) = Some (m, offs) \<and> length m = length (s @ NUL # rest) \<and>
      arg_strings m offs = Some (blank_words s)"
    using split_str_eq [OF assms, of rest] by fastforce
next
  assume "NL \<in> set s"
  then obtain i where i: "i < length s" "s ! i = NL" by (auto simp: in_set_conv_nth)
  have "count_loop (s @ NUL # rest) 0 0 = None"
  proof (rule ccontr)
    assume "count_loop (s @ NUL # rest) 0 0 \<noteq> None"
    then obtain r where "count_loop (s @ NUL # rest) 0 0 = Some r" by blast
    moreover have "\<forall>j. 0 \<le> j \<longrightarrow> j < i \<longrightarrow> (s @ NUL # rest) ! j \<noteq> NUL"
      using i(1) assms by (auto simp: nth_append in_set_conv_nth)
    ultimately show False using count_loop_newline [of "s @ NUL # rest" 0 0 r i] i by (simp add: nth_append)
  qed
  then show "split_str (s @ NUL # rest) = None" by (simp add: split_str_def)
qed

lemma kx_line_cases:
  assumes "NUL \<notin> set s" "NL \<notin> set s" "s \<noteq> []" "hd s \<noteq> CHR ''/''"
  shows "blank_words s = [] \<Longrightarrow> kx_line env (s @ NUL # rest) sh = Some sh"
    and "blank_words s = a # as \<Longrightarrow> a \<notin> {''user'', ''file'', ''ls'', ''cd'', ''help''} \<Longrightarrow> kx_line env (s @ NUL # rest) sh = Some sh"
    and "blank_words s = ''ls'' # as \<Longrightarrow>
      kx_line env (s @ NUL # rest) sh = Some (sh\<lparr>sh_calls := sh_calls sh @ [System (unwords (''ls'' # as))]\<rparr>)"
    and "blank_words s = [''cd''] \<Longrightarrow> kx_line env (s @ NUL # rest) sh = None"
    and "blank_words s = ''cd'' # d # as \<Longrightarrow>
      kx_line env (s @ NUL # rest) sh = Some (sh\<lparr>sh_calls := sh_calls sh @ [System (unwords (''cd'' # d # as)), Chdir d]\<rparr>)"
    and "blank_words s = ''user'' # as \<Longrightarrow>
      kx_line env (s @ NUL # rest) sh = map_option (\<lambda>(c, _). sh\<lparr>sh_client := c\<rparr>) (do_user env (''user'' # as) (sh_client sh))"
    and "blank_words s = ''file'' # as \<Longrightarrow>
      kx_line env (s @ NUL # rest) sh = map_option (\<lambda>(c, _). sh\<lparr>sh_client := c\<rparr>) (do_file env (''file'' # as) (sh_client sh))"
proof -
  have "\<forall>w \<in> set (blank_words s). is_cstring w"
    using blank_words_subset [of _ s] assms(1) unfolding is_cstring_def by blast
  then have cmd: "do_command (blank_words s) =
     (if blank_words s = [] then None
      else if hd (blank_words s) = ''cd'' then (if length (blank_words s) = 1 then None
        else Some ([System (unwords (blank_words s)), Chdir (blank_words s ! 1)], 0))
      else Some ([System (unwords (blank_words s))], 0))"
    by (rule do_command_eq)
  note line = kx_line_eq [OF assms, where rest = rest and env = env and sh = sh]
  show "blank_words s = [] \<Longrightarrow> kx_line env (s @ NUL # rest) sh = Some sh" using line by simp
  show "blank_words s = a # as \<Longrightarrow> a \<notin> {''user'', ''file'', ''ls'', ''cd'', ''help''} \<Longrightarrow> kx_line env (s @ NUL # rest) sh = Some sh"
    using line by (auto simp: get_cmd_def cmds_def)
  show "blank_words s = ''ls'' # as \<Longrightarrow>
      kx_line env (s @ NUL # rest) sh = Some (sh\<lparr>sh_calls := sh_calls sh @ [System (unwords (''ls'' # as))]\<rparr>)"
    using line cmd by (simp add: get_cmd_def cmds_def execute_def)
  show "blank_words s = [''cd''] \<Longrightarrow> kx_line env (s @ NUL # rest) sh = None"
    using line cmd by (simp add: get_cmd_def cmds_def execute_def)
  show "blank_words s = ''cd'' # d # as \<Longrightarrow>
      kx_line env (s @ NUL # rest) sh = Some (sh\<lparr>sh_calls := sh_calls sh @ [System (unwords (''cd'' # d # as)), Chdir d]\<rparr>)"
    using line cmd by (simp add: get_cmd_def cmds_def execute_def)
  show "blank_words s = ''user'' # as \<Longrightarrow>
      kx_line env (s @ NUL # rest) sh = map_option (\<lambda>(c, _). sh\<lparr>sh_client := c\<rparr>) (do_user env (''user'' # as) (sh_client sh))"
    using line by (simp add: get_cmd_def cmds_def execute_def)
  show "blank_words s = ''file'' # as \<Longrightarrow>
      kx_line env (s @ NUL # rest) sh = map_option (\<lambda>(c, _). sh\<lparr>sh_client := c\<rparr>) (do_file env (''file'' # as) (sh_client sh))"
    using line by (simp add: get_cmd_def cmds_def execute_def)
qed

section \<open>Properties\<close>

text \<open>C18: \<^verbatim>\<open>split_str\<close> on a line without a newline returns, keeps the size of the buffer and
  delivers as arguments exactly the non-empty words between blanks, in order, however many blanks there
  are. A line with a newline in it makes its counting pass run for ever.\<close>

theorem split_str_words:
  assumes "NUL \<notin> set s"
  shows "(NL \<notin> set s \<longrightarrow> (\<exists>m offs. split_str (s @ NUL # rest) = Some (m, offs) \<and> length m = length (s @ NUL # rest) \<and>
           arg_strings m offs = Some (blank_words s))) \<and>
         (NL \<in> set s \<longrightarrow> split_str (s @ NUL # rest) = None)"
  using split_str_cases [OF assms] by blast

theorem split_str_words_witness:
  "(\<exists>m offs. split_str (''file  -e '' @ [NUL]) = Some (m, offs) \<and> arg_strings m offs = Some [''file'', ''-e'']) \<and>
   split_str (''ls\<newline>'' @ [NUL]) = None"
  using split_str_words [of "''file  -e ''" "[]"] split_str_words [of "''ls\<newline>''" "[]"]
  by (auto simp: NUL_def blank_words_def)



end
