(* ===== verification/History.thy ===== *)
theory History
  imports Prelude
begin

text \<open>
  The history of \<^verbatim>\<open>src/src/linenoise.c\<close>: an array of \<^verbatim>\<open>history_max_len\<close> string pointers of which the
  first \<^verbatim>\<open>history_len\<close> are lines, allocated at the first addition, shifted when it is full, resized,
  written to a file and read back. \<^verbatim>\<open>malloc\<close> and \<^verbatim>\<open>strdup\<close> are taken to succeed.
\<close>

section \<open>The array and its operations\<close>

record hist =
  h_lines :: "string option list option"
  h_len :: nat
  h_max :: nat

abbreviation (input) LINENOISE_DEFAULT_HISTORY_MAX_LEN :: nat where "LINENOISE_DEFAULT_HISTORY_MAX_LEN \<equiv> 100"
abbreviation (input) LINENOISE_MAX_LINE :: nat where "LINENOISE_MAX_LINE \<equiv> 4096"
abbreviation (input) NL :: char where "NL \<equiv> CHR 0x0A"
abbreviation (input) CR :: char where "CR \<equiv> CHR 0x0D"

definition hist_init :: hist where
  "hist_init = \<lparr>h_lines = None, h_len = 0, h_max = LINENOISE_DEFAULT_HISTORY_MAX_LEN\<rparr>"

definition history_array :: "hist \<Rightarrow> string option list" where
  "history_array h = (case h_lines h of None \<Rightarrow> replicate (h_max h) None | Some a \<Rightarrow> a)"

definition linenoiseHistoryAdd :: "string \<Rightarrow> hist \<Rightarrow> (hist \<times> int) option" where
  "linenoiseHistoryAdd line h =
     (if h_max h = 0 then Some (h, 0)
      else do {
        let arr = history_array h;
        dup \<leftarrow> (if h_len h \<noteq> 0 then do { e \<leftarrow> peek arr (h_len h - 1); s \<leftarrow> e; Some (s = line) } else Some False);
        if dup then Some (h\<lparr>h_lines := Some arr\<rparr>, 0)
        else do {
          (arr, n) \<leftarrow> (if h_len h = h_max h then do { arr \<leftarrow> memmove arr 0 1 (h_max h - 1); Some (arr, h_len h - 1) }
                       else Some (arr, h_len h));
          arr \<leftarrow> poke arr n (Some line);
          Some (h\<lparr>h_lines := Some arr, h_len := n + 1\<rparr>, 1)
        }
      })"

definition linenoiseHistorySetMaxLen :: "int \<Rightarrow> hist \<Rightarrow> (hist \<times> int) option" where
  "linenoiseHistorySetMaxLen len h =
     (if len < 1 then Some (h, 0)
      else do {
        new \<leftarrow> (case h_lines h of
                  None \<Rightarrow> Some None
                | Some arr \<Rightarrow> do {
                    let tocopy = (if nat len < h_len h then nat len else h_len h);
                    a \<leftarrow> (if h_len h \<le> length arr
                          then blit (replicate (nat len) None) 0 (take tocopy (drop (h_len h - tocopy) arr)) else None);
                    Some (Some a)
                  });
        Some (h\<lparr>h_lines := new, h_max := nat len, h_len := (if h_len h > nat len then nat len else h_len h)\<rparr>, 1)
      })"

text \<open>The entries a loop over the first \<^verbatim>\<open>history_len\<close> pointers reads; a null pointer among them is
  undefined.\<close>

definition history_entries :: "hist \<Rightarrow> string list option" where
  "history_entries h =
     (case h_lines h of
        None \<Rightarrow> if h_len h = 0 then Some [] else None
      | Some arr \<Rightarrow> if h_len h \<le> length arr then those (take (h_len h) arr) else None)"

text \<open>The result is the new content of the file, if it could be opened, and the code.\<close>

definition linenoiseHistorySave :: "bool \<Rightarrow> hist \<Rightarrow> (string option \<times> int) option" where
  "linenoiseHistorySave fopen_ok h =
     (if \<not> fopen_ok then Some (None, -1)
      else do { ls \<leftarrow> history_entries h; Some (Some (concat (map (\<lambda>l. l @ [NL]) ls)), 0) })"

text \<open>\<^verbatim>\<open>fgets\<close> with a buffer of \<open>n\<close> bytes: at most \<open>n - 1\<close> characters, up to and including a newline.\<close>

definition fgets :: "nat \<Rightarrow> string \<Rightarrow> (string \<times> string) option" where
  "fgets n s = (if s = [] then None
     else let k = min (n - 1) (length (takeWhile (\<lambda>c. c \<noteq> NL) s) + 1) in Some (take k s, drop k s))"

definition cut_line :: "string \<Rightarrow> string" where
  "cut_line b = (let s = takeWhile (\<lambda>c. c \<noteq> NUL) b in
     if CR \<in> set s then takeWhile (\<lambda>c. c \<noteq> CR) s else takeWhile (\<lambda>c. c \<noteq> NL) s)"

lemma fgets_shorter: "fgets n s = Some (b, r) \<Longrightarrow> 1 < n \<Longrightarrow> length r < length s"
  by (auto simp: fgets_def Let_def split: if_splits)

function load_loop :: "string \<Rightarrow> hist \<Rightarrow> hist option" where
  "load_loop s h =
     (case fgets LINENOISE_MAX_LINE s of
        None \<Rightarrow> Some h
      | Some (b, r) \<Rightarrow> (case linenoiseHistoryAdd (cut_line b) h of None \<Rightarrow> None | Some (h', _) \<Rightarrow> load_loop r h'))"
  by pat_completeness auto

termination
  by (relation "measure (\<lambda>(s, _). length s)") (auto dest: fgets_shorter)

declare load_loop.simps [simp del]

definition linenoiseHistoryLoad :: "string option \<Rightarrow> hist \<Rightarrow> (hist \<times> int) option" where
  "linenoiseHistoryLoad content h =
     (case content of
        None \<Rightarrow> Some (h, -1)
      | Some s \<Rightarrow> map_option (\<lambda>h'. (h', 0)) (load_loop s h))"

section \<open>The list of lines the array stands for\<close>

definition hist_rep :: "hist \<Rightarrow> string list \<Rightarrow> bool" where
  "hist_rep h ls \<longleftrightarrow> h_len h = length ls \<and> length ls \<le> h_max h \<and>
     (case h_lines h of None \<Rightarrow> ls = []
      | Some arr \<Rightarrow> length arr = h_max h \<and> take (length ls) arr = map Some ls)"

text \<open>The specification: add at the end unless it repeats the last line, keep the newest.\<close>

definition keep_last :: "nat \<Rightarrow> 'a list \<Rightarrow> 'a list" where
  "keep_last n xs = drop (length xs - n) xs"

definition add_spec :: "nat \<Rightarrow> string \<Rightarrow> string list \<Rightarrow> string list" where
  "add_spec mx line ls = (if ls \<noteq> [] \<and> last ls = line then ls else keep_last mx (ls @ [line]))"

lemma length_keep_last: "length (keep_last n xs) = min n (length xs)"
  by (simp add: keep_last_def)

lemma keep_last_short: "length xs \<le> n \<Longrightarrow> keep_last n xs = xs"
  by (simp add: keep_last_def)

lemma length_add_spec: "length ls \<le> mx \<Longrightarrow> length (add_spec mx line ls) \<le> mx"
  by (simp add: add_spec_def length_keep_last)

lemma hist_repE:
  assumes "hist_rep h ls" "h_max h \<noteq> 0"
  obtains rest where "history_array h = map Some ls @ rest" "length ls + length rest = h_max h" "h_len h = length ls"
proof -
  have "length (history_array h) = h_max h" "take (length ls) (history_array h) = map Some ls"
    using assms by (auto simp: hist_rep_def history_array_def split: option.splits)
  then show thesis
    using that [of "drop (length ls) (history_array h)"] assms append_take_drop_id [of "length ls" "history_array h"]
    by (auto simp: hist_rep_def)
qed

lemma hist_repI:
  "length ls + length rest = mx \<Longrightarrow> hist_rep \<lparr>h_lines = Some (map Some ls @ rest), h_len = length ls, h_max = mx\<rparr> ls"
  by (auto simp: hist_rep_def)

lemma drop_but_last: "drop (length xs) (x # map f xs) = [last (x # map f xs)]"
  by (induction xs arbitrary: x) auto

lemma linenoiseHistoryAdd_rep:
  assumes rep: "hist_rep h ls" and mx: "h_max h \<noteq> 0"
  shows "\<exists>h'. linenoiseHistoryAdd line h = Some (h', if ls \<noteq> [] \<and> last ls = line then 0 else 1) \<and>
    hist_rep h' (add_spec (h_max h) line ls) \<and> h_max h' = h_max h"
proof -
  obtain rest where arr: "history_array h = map Some ls @ rest" "length ls + length rest = h_max h" "h_len h = length ls"
    by (rule hist_repE [OF rep mx])
  have last: "ls \<noteq> [] \<Longrightarrow> peek (history_array h) (length ls - 1) = Some (Some (last ls))"
    by (cases ls rule: rev_cases) (simp_all add: arr(1) peek_def nth_append)
  consider "ls \<noteq> [] \<and> last ls = line" | "\<not> (ls \<noteq> [] \<and> last ls = line)" "rest = []" | "\<not> (ls \<noteq> [] \<and> last ls = line)" "rest \<noteq> []"
    by blast
  then show ?thesis
  proof cases
    case 1
    then have "linenoiseHistoryAdd line h = Some (h\<lparr>h_lines := Some (map Some ls @ rest)\<rparr>, 0)"
      using mx arr(3) last by (simp add: linenoiseHistoryAdd_def arr(1))
    then show ?thesis using 1 arr rep by (simp add: add_spec_def hist_rep_def)
  next
    case 2
    then have len: "length ls = h_max h" "ls \<noteq> []" using arr mx by auto
    obtain a as where ls: "ls = a # as" using len by (cases ls) auto
    have hm: "h_max h = Suc (length as)" using len(1) by (simp add: ls)
    have "memmove (history_array h) 0 1 (h_max h - 1) = Some (map Some as @ [Some (last ls)])"
      using len(1) arr(1) 2(2) drop_but_last [of as "Some a"]
      by (simp add: memmove_def blit_def ls flip: last_map) (simp add: last_map)
    moreover have "poke (map Some as @ [Some (last ls)]) (length as) (Some line) = Some (map Some (as @ [line]) @ [])"
      by (simp add: poke_def list_update_append)
    moreover have "add_spec (h_max h) line ls = as @ [line]"
      using 2(1) len(1) by (auto simp: add_spec_def keep_last_def ls)
    moreover have "linenoiseHistoryAdd line h = Some (h\<lparr>h_lines := Some (map Some (as @ [line]) @ []), h_len := length as + 1\<rparr>, 1)"
      using arr(3) last 2(1) calculation(1,2) by (simp add: linenoiseHistoryAdd_def hm ls del: map_append)
    ultimately show ?thesis using 2(1) len(1) by (simp add: hist_rep_def ls)
  next
    case 3
    obtain r rs where rs: "rest = r # rs" using 3(2) by (cases rest) auto
    have "poke (history_array h) (length ls) (Some line) = Some (map Some (ls @ [line]) @ rs)"
      by (simp add: arr(1) rs poke_def list_update_append)
    moreover have "length ls \<noteq> h_max h" using arr(2) 3(2) by auto
    ultimately have "linenoiseHistoryAdd line h = Some (h\<lparr>h_lines := Some (map Some (ls @ [line]) @ rs), h_len := length ls + 1\<rparr>, 1)"
      using mx arr(3) last 3(1) by (cases "ls = []") (simp_all add: linenoiseHistoryAdd_def Let_def del: map_append)
    then show ?thesis using 3(1) arr(2) rs by (simp add: hist_rep_def add_spec_def keep_last_short)
  qed
qed

lemma linenoiseHistorySetMaxLen_rep:
  assumes rep: "hist_rep h ls" and len: "0 < len"
  shows "\<exists>h'. linenoiseHistorySetMaxLen len h = Some (h', 1) \<and> hist_rep h' (keep_last (nat len) ls) \<and> h_max h' = nat len"
proof (cases "h_lines h")
  case None
  then show ?thesis using rep len by (auto simp: hist_rep_def linenoiseHistorySetMaxLen_def keep_last_def)
next
  case (Some arr)
  let ?k = "if nat len < length ls then nat len else length ls"
  have h: "h_len h = length ls" "length ls \<le> length arr" and tk: "take (length ls) arr = map Some ls"
    using rep Some by (auto simp: hist_rep_def)
  have "take ?k (drop (length ls - ?k) arr) = drop (length ls - ?k) (take (length ls) arr)"
    by (simp add: take_drop)
  also have "\<dots> = map Some (keep_last (nat len) ls)" unfolding tk by (auto simp: keep_last_def drop_map)
  finally have new: "take ?k (drop (length ls - ?k) arr) = map Some (keep_last (nat len) ls)" .
  have "blit (replicate (nat len) None) 0 (map Some (keep_last (nat len) ls))
      = Some (map Some (keep_last (nat len) ls) @ replicate (nat len - length (keep_last (nat len) ls)) None)"
    by (simp add: blit_def length_keep_last)
  then show ?thesis
    using Some h new len by (auto simp: linenoiseHistorySetMaxLen_def hist_rep_def length_keep_last)
qed

lemma those_map_Some: "those (map Some ls) = Some ls"
  by (induction ls) simp_all

lemma history_entries_rep: "hist_rep h ls \<Longrightarrow> history_entries h = Some ls"
  by (auto simp: hist_rep_def history_entries_def those_map_Some split: option.splits)

text \<open>The file read by lines.\<close>

function load_lines :: "string \<Rightarrow> string list" where
  "load_lines s = (case fgets LINENOISE_MAX_LINE s of None \<Rightarrow> [] | Some (b, r) \<Rightarrow> cut_line b # load_lines r)"
  by pat_completeness auto

termination
  by (relation "measure length") (auto dest: fgets_shorter)

declare load_lines.simps [simp del]

lemma load_loop_rep:
  "hist_rep h ls \<Longrightarrow> h_max h \<noteq> 0 \<Longrightarrow>
   \<exists>h'. load_loop s h = Some h' \<and> hist_rep h' (fold (add_spec (h_max h)) (load_lines s) ls) \<and> h_max h' = h_max h"
proof (induction s arbitrary: h ls rule: load_lines.induct)
  case (1 s)
  show ?case
  proof (cases "fgets LINENOISE_MAX_LINE s")
    case None
    then show ?thesis using "1.prems" by (simp add: load_loop.simps [of s] load_lines.simps [of s])
  next
    case (Some br)
    obtain b r where br: "br = (b, r)" by (cases br)
    obtain h1 c where add: "linenoiseHistoryAdd (cut_line b) h = Some (h1, c)"
        "hist_rep h1 (add_spec (h_max h) (cut_line b) ls)" "h_max h1 = h_max h"
      using linenoiseHistoryAdd_rep [OF "1.prems"] by blast
    then show ?thesis
      using "1.IH" [OF Some br [symmetric] add(2)] "1.prems"(2) Some br
      by (simp add: load_loop.simps [of s] load_lines.simps [of s])
  qed
qed

text \<open>Lines a file keeps apart, and a history that was built by additions.\<close>

definition plain_line :: "string \<Rightarrow> bool" where
  "plain_line l \<longleftrightarrow> NUL \<notin> set l \<and> CR \<notin> set l \<and> NL \<notin> set l \<and> length l + 1 < LINENOISE_MAX_LINE"

lemma takeWhile_none: "x \<notin> set l \<Longrightarrow> takeWhile (\<lambda>c. c \<noteq> x) l = l"
  by (induction l) auto

lemma takeWhile_at: "x \<notin> set l \<Longrightarrow> takeWhile (\<lambda>c. c \<noteq> x) (l @ x # r) = l"
  by (induction l) auto

lemma fgets_line: "plain_line l \<Longrightarrow> fgets LINENOISE_MAX_LINE (l @ NL # s) = Some (l @ [NL], s)"
  by (simp add: plain_line_def fgets_def Let_def takeWhile_at)

lemma cut_line_plain: "plain_line l \<Longrightarrow> cut_line (l @ [NL]) = l"
  using takeWhile_none [of NUL "l @ [NL]"] takeWhile_at [of NL l "[]"]
  by (simp add: plain_line_def cut_line_def NUL_def)

lemma load_lines_save: "\<forall>l \<in> set ls. plain_line l \<Longrightarrow> load_lines (concat (map (\<lambda>l. l @ [NL]) ls)) = ls"
  by (induction ls) (simp_all add: load_lines.simps fgets_line cut_line_plain, simp add: fgets_def)

lemma fold_add_spec:
  "distinct_adj (acc @ ls) \<Longrightarrow> length (acc @ ls) \<le> mx \<Longrightarrow> fold (add_spec mx) ls acc = acc @ ls"
proof (induction ls arbitrary: acc)
  case (Cons l ls)
  have "add_spec mx l acc = acc @ [l]"
    using Cons.prems by (auto simp: add_spec_def keep_last_short distinct_adj_append_iff)
  then show ?case using Cons.IH [of "acc @ [l]"] Cons.prems by simp
qed simp

section \<open>Properties\<close>

text \<open>C22: the history array implements a bounded list of lines. From a well-formed history, an addition
  succeeds, skips a line equal to the newest one and otherwise appends it, dropping the oldest when the
  array is full; a new maximum keeps the newest lines; the entries read back are the lines.\<close>

theorem history_refinement:
  assumes "hist_rep h ls" "h_max h \<noteq> 0"
  shows "(\<exists>h'. linenoiseHistoryAdd line h = Some (h', if ls \<noteq> [] \<and> last ls = line then 0 else 1) \<and>
            hist_rep h' (add_spec (h_max h) line ls) \<and> h_max h' = h_max h) \<and>
         (0 < n \<longrightarrow> (\<exists>h'. linenoiseHistorySetMaxLen n h = Some (h', 1) \<and> hist_rep h' (keep_last (nat n) ls) \<and>
            h_max h' = nat n)) \<and>
         (n < 1 \<longrightarrow> linenoiseHistorySetMaxLen n h = Some (h, 0)) \<and>
         history_entries h = Some ls"
  using linenoiseHistoryAdd_rep [OF assms, of line] linenoiseHistorySetMaxLen_rep [OF assms(1), of n]
    history_entries_rep [OF assms(1)]
  by (simp add: linenoiseHistorySetMaxLen_def)

theorem history_refinement_witness:
  "\<exists>h'. linenoiseHistoryAdd ''c'' \<lparr>h_lines = Some [Some ''a'', Some ''b''], h_len = 2, h_max = 2\<rparr> = Some (h', 1) \<and>
     hist_rep h' [''b'', ''c'']"
  using history_refinement [of "\<lparr>h_lines = Some [Some ''a'', Some ''b''], h_len = 2, h_max = 2\<rparr>" "[''a'', ''b'']" "''c''"]
  by (auto simp: hist_rep_def add_spec_def keep_last_def)

text \<open>C23: saving a history and loading the file into a fresh one gives the same lines back, when no
  line holds a newline, a carriage return or a zero byte or is longer than the line buffer, no line
  repeats the one before it, and there are at most as many as the default maximum.\<close>

theorem history_save_load:
  assumes "hist_rep h ls" "\<forall>l \<in> set ls. plain_line l" "distinct_adj ls" "length ls \<le> 100"
  shows "\<exists>content h'. linenoiseHistorySave True h = Some (Some content, 0) \<and>
           linenoiseHistoryLoad (Some content) hist_init = Some (h', 0) \<and> hist_rep h' ls"
proof -
  let ?content = "concat (map (\<lambda>l. l @ [NL]) ls)"
  have "hist_rep hist_init []" "h_max hist_init \<noteq> 0" by (simp_all add: hist_rep_def hist_init_def)
  then obtain h' where h': "load_loop ?content hist_init = Some h'"
      "hist_rep h' (fold (add_spec (h_max hist_init)) (load_lines ?content) [])"
    using load_loop_rep by blast
  have "fold (add_spec (h_max hist_init)) (load_lines ?content) [] = ls"
    using fold_add_spec [of "[]" ls 100] assms by (simp add: load_lines_save hist_init_def)
  then show "\<exists>content h'. linenoiseHistorySave True h = Some (Some content, 0) \<and>
      linenoiseHistoryLoad (Some content) hist_init = Some (h', 0) \<and> hist_rep h' ls"
    using h' history_entries_rep [OF assms(1)] by (simp add: linenoiseHistorySave_def linenoiseHistoryLoad_def)
qed

theorem history_save_load_witness:
  "\<exists>content h'. linenoiseHistorySave True \<lparr>h_lines = Some [Some ''ls'', Some ''cd x''], h_len = 2, h_max = 2\<rparr> = Some (Some content, 0) \<and>
     linenoiseHistoryLoad (Some content) hist_init = Some (h', 0) \<and> hist_rep h' [''ls'', ''cd x'']"
  by (rule history_save_load) (simp_all add: hist_rep_def plain_line_def NUL_def)

end
