(* ===== verification/Linenoise.thy ===== *)
theory Linenoise
  imports History
begin

text \<open>
  The line editor of \<^verbatim>\<open>src/src/linenoise.c\<close>. The state of a session is the record
  \<open>linenoiseState\<close>, with the edited buffer as an object of \<open>l_buflen + 1\<close> characters; the globals of
  the file, the characters written to the terminal and whether it accepts writes are the record \<open>tty\<close>.
  The keyboard is a list of read results: a character, or \<open>None\<close> for a failed \<^verbatim>\<open>read\<close>; its end is
  end of file. \<open>None\<close> as the value of an operation is undefined behaviour or a loop that does not end.
\<close>

section \<open>State\<close>

record linenoiseState =
  l_buf :: cmem
  l_buflen :: nat
  l_prompt :: string
  l_pos :: nat
  l_oldpos :: nat
  l_len :: nat
  l_cols :: nat
  l_maxrows :: nat
  l_history_index :: int

text \<open>A hints callback returns the hint with its color and bold flag.\<close>

record tty =
  maskmode :: bool
  mlmode :: bool
  hintsCallback :: "(string \<Rightarrow> (string \<times> int \<times> int) option) option"
  completionCallback :: "(string \<Rightarrow> string list) option"
  t_hist :: hist
  t_out :: string
  t_writes :: bool

abbreviation (input) ESC :: char where "ESC \<equiv> CHR 0x1B"

definition term_write :: "tty \<Rightarrow> string \<Rightarrow> tty" where
  "term_write t s = (if t_writes t then t\<lparr>t_out := t_out t @ s\<rparr> else t)"

text \<open>The settings of the library.\<close>

definition linenoiseMaskModeEnable :: "tty \<Rightarrow> tty" where
  "linenoiseMaskModeEnable t = t\<lparr>maskmode := True\<rparr>"

definition linenoiseMaskModeDisable :: "tty \<Rightarrow> tty" where
  "linenoiseMaskModeDisable t = t\<lparr>maskmode := False\<rparr>"

definition linenoiseSetMultiLine :: "int \<Rightarrow> tty \<Rightarrow> tty" where
  "linenoiseSetMultiLine ml t = t\<lparr>mlmode := (ml \<noteq> 0)\<rparr>"

definition linenoiseSetCompletionCallback :: "(string \<Rightarrow> string list) option \<Rightarrow> tty \<Rightarrow> tty" where
  "linenoiseSetCompletionCallback fn t = t\<lparr>completionCallback := fn\<rparr>"

definition linenoiseSetHintsCallback :: "(string \<Rightarrow> (string \<times> int \<times> int) option) option \<Rightarrow> tty \<Rightarrow> tty" where
  "linenoiseSetHintsCallback fn t = t\<lparr>hintsCallback := fn\<rparr>"

text \<open>What a completion callback calls to add a candidate; the allocations are taken to succeed.\<close>

definition linenoiseAddCompletion :: "string list \<Rightarrow> string \<Rightarrow> string list" where
  "linenoiseAddCompletion lc str = lc @ [str]"

section \<open>Refreshing the line\<close>

text \<open>The append buffer: a copy of a negative number of bytes, or of more than the object holds, is
  undefined.\<close>

definition abAppend :: "string \<Rightarrow> string \<Rightarrow> int \<Rightarrow> string option" where
  "abAppend ab s n = (if 0 \<le> n \<and> nat n \<le> length s then Some (ab @ take (nat n) s) else None)"

definition abAppendStr :: "string \<Rightarrow> string \<Rightarrow> string option" where
  "abAppendStr ab s = abAppend ab s (int (length s))"

definition hint_seq :: "int \<Rightarrow> int \<Rightarrow> string" where
  "hint_seq color bold =
     (if color \<noteq> -1 \<or> bold \<noteq> 0 then [ESC, CHR ''[''] @ sdec bold @ '';'' @ sdec color @ '';49m'' else [])"

definition refreshShowHints :: "string \<Rightarrow> tty \<Rightarrow> linenoiseState \<Rightarrow> nat \<Rightarrow> string option" where
  "refreshShowHints ab t l plen =
     (case hintsCallback t of
        None \<Rightarrow> Some ab
      | Some cb \<Rightarrow>
          (if plen + l_len l < l_cols l then do {
             s \<leftarrow> cstr (l_buf l) 0;
             (case cb s of
                None \<Rightarrow> Some ab
              | Some (hint, color, bold) \<Rightarrow> do {
                  let hintlen = min (length hint) (l_cols l - (plen + l_len l));
                  let color = (if bold = 1 \<and> color = -1 then 37 else color);
                  ab \<leftarrow> abAppendStr ab (hint_seq color bold);
                  ab \<leftarrow> abAppend ab hint (int hintlen);
                  (if color \<noteq> -1 \<or> bold \<noteq> 0 then abAppend ab [ESC, CHR ''['', CHR ''0'', CHR ''m''] 4 else Some ab)
                })
           } else Some ab))"

text \<open>The two loops of \<^verbatim>\<open>refreshSingleLine\<close> on \<^verbatim>\<open>size_t\<close> counters, which wrap below zero when the prompt
  is as wide as the terminal.\<close>

partial_function (option) shift_loop :: "u64 \<Rightarrow> u64 \<Rightarrow> u64 \<Rightarrow> u64 \<Rightarrow> u64 \<Rightarrow> (u64 \<times> u64 \<times> u64) option" where
  "shift_loop plen cols off len pos =
     (if cols \<le> plen + pos then shift_loop plen cols (off + 1) (len - 1) (pos - 1) else Some (off, len, pos))"

partial_function (option) cut_loop :: "u64 \<Rightarrow> u64 \<Rightarrow> u64 \<Rightarrow> u64 option" where
  "cut_loop plen cols len = (if cols < plen + len then cut_loop plen cols (len - 1) else Some len)"

definition to_int :: "u64 \<Rightarrow> int" where
  "to_int x = sint (ucast x :: 32 word)"

text \<open>The text of the line, or as many stars in mask mode; a counter that wrapped is negative as an
  \<^verbatim>\<open>int\<close>.\<close>

definition append_text :: "tty \<Rightarrow> string \<Rightarrow> cmem \<Rightarrow> int \<Rightarrow> string option" where
  "append_text t ab b n =
     (if maskmode t then (if 0 \<le> n then Some (ab @ replicate (nat n) (CHR ''*'')) else None) else abAppend ab b n)"

definition refreshSingleLine :: "tty \<Rightarrow> linenoiseState \<Rightarrow> (tty \<times> linenoiseState) option" where
  "refreshSingleLine t l = do {
     let plen = length (l_prompt l);
     (off, len, pos) \<leftarrow> shift_loop (of_nat plen) (of_nat (l_cols l)) 0 (of_nat (l_len l)) (of_nat (l_pos l));
     len \<leftarrow> cut_loop (of_nat plen) (of_nat (l_cols l)) len;
     ab \<leftarrow> abAppendStr [] [CR];
     ab \<leftarrow> abAppendStr ab (l_prompt l);
     ab \<leftarrow> append_text t ab (drop (unat off) (l_buf l)) (to_int len);
     ab \<leftarrow> refreshShowHints ab t l plen;
     ab \<leftarrow> abAppendStr ab [ESC, CHR ''['', CHR ''0'', CHR ''K''];
     ab \<leftarrow> abAppendStr ab ([CR, ESC, CHR ''[''] @ sdec (to_int (pos + of_nat plen)) @ ''C'');
     Some (term_write t ab, l)
   }"

text \<open>\<^verbatim>\<open>refreshMultiLine\<close> in three parts: clearing the rows used before, the newline that is needed when the
  cursor is at the very end of a row, and placing the cursor.\<close>

definition multi_clear :: "nat \<Rightarrow> nat \<Rightarrow> string" where
  "multi_clear old_rows rpos =
     (if old_rows > rpos then [ESC, CHR ''[''] @ sdec (int old_rows - int rpos) @ ''B'' else []) @
     concat (replicate (old_rows - 1) [CR, ESC, CHR ''['', CHR ''0'', CHR ''K'', ESC, CHR ''['', CHR ''1'', CHR ''A'']) @
     [CR, ESC, CHR ''['', CHR ''0'', CHR ''K'']"

definition raise_maxrows :: "nat \<Rightarrow> linenoiseState \<Rightarrow> linenoiseState" where
  "raise_maxrows rows l = (if rows > l_maxrows l then l\<lparr>l_maxrows := rows\<rparr> else l)"

definition multi_wrap :: "string \<Rightarrow> nat \<Rightarrow> linenoiseState \<Rightarrow> string \<times> nat \<times> linenoiseState" where
  "multi_wrap ab rows l =
     (if l_pos l \<noteq> 0 \<and> l_pos l = l_len l \<and> (l_pos l + length (l_prompt l)) mod l_cols l = 0
      then (ab @ [NL, CR], rows + 1, raise_maxrows (rows + 1) l) else (ab, rows, l))"

definition multi_cursor :: "nat \<Rightarrow> linenoiseState \<Rightarrow> string" where
  "multi_cursor rows l =
     (let plen = length (l_prompt l);
          rpos2 = (plen + l_pos l + l_cols l) div l_cols l;
          col = (plen + l_pos l) mod l_cols l
      in (if rows > rpos2 then [ESC, CHR ''[''] @ sdec (int rows - int rpos2) @ ''A'' else []) @
         (if col \<noteq> 0 then [CR, ESC, CHR ''[''] @ sdec (int col) @ ''C'' else [CR]))"

definition refreshMultiLine :: "tty \<Rightarrow> linenoiseState \<Rightarrow> (tty \<times> linenoiseState) option" where
  "refreshMultiLine t l =
     (if l_cols l = 0 then None else do {
        let plen = length (l_prompt l);
        let rows = (plen + l_len l + l_cols l - 1) div l_cols l;
        let ab = multi_clear (l_maxrows l) ((plen + l_oldpos l + l_cols l) div l_cols l);
        let l = raise_maxrows rows l;
        ab \<leftarrow> abAppendStr ab (l_prompt l);
        ab \<leftarrow> append_text t ab (l_buf l) (int (l_len l));
        ab \<leftarrow> refreshShowHints ab t l plen;
        let (ab, rows, l) = multi_wrap ab rows l;
        ab \<leftarrow> abAppendStr ab (multi_cursor rows l);
        Some (term_write t ab, l\<lparr>l_oldpos := l_pos l\<rparr>)
      })"

definition refreshLine :: "tty \<Rightarrow> linenoiseState \<Rightarrow> (tty \<times> linenoiseState) option" where
  "refreshLine t l = (if mlmode t then refreshMultiLine t l else refreshSingleLine t l)"

section \<open>Editing operations\<close>

text \<open>The result carries the return value of the function: whether a write failed.\<close>

definition linenoiseEditInsert :: "tty \<Rightarrow> linenoiseState \<Rightarrow> char \<Rightarrow> (tty \<times> linenoiseState \<times> int) option" where
  "linenoiseEditInsert t l c =
     (if l_len l < l_buflen l then
        (if l_len l = l_pos l then do {
           b \<leftarrow> poke (l_buf l) (l_pos l) c;
           b \<leftarrow> poke b (l_len l + 1) NUL;
           let l = l\<lparr>l_buf := b, l_pos := l_pos l + 1, l_len := l_len l + 1\<rparr>;
           (if \<not> mlmode t \<and> length (l_prompt l) + l_len l < l_cols l \<and> hintsCallback t = None
            then (if t_writes t then Some (term_write t [if maskmode t then CHR ''*'' else c], l, 0) else Some (t, l, -1))
            else map_option (\<lambda>(t, l). (t, l, 0)) (refreshLine t l))
         } else do {
           b \<leftarrow> memmove (l_buf l) (l_pos l + 1) (l_pos l) (l_len l - l_pos l);
           b \<leftarrow> poke b (l_pos l) c;
           b \<leftarrow> poke b (l_len l + 1) NUL;
           map_option (\<lambda>(t, l). (t, l, 0)) (refreshLine t (l\<lparr>l_buf := b, l_pos := l_pos l + 1, l_len := l_len l + 1\<rparr>))
         })
      else Some (t, l, 0))"

definition linenoiseEditMoveLeft :: "tty \<Rightarrow> linenoiseState \<Rightarrow> (tty \<times> linenoiseState) option" where
  "linenoiseEditMoveLeft t l = (if l_pos l > 0 then refreshLine t (l\<lparr>l_pos := l_pos l - 1\<rparr>) else Some (t, l))"

definition linenoiseEditMoveRight :: "tty \<Rightarrow> linenoiseState \<Rightarrow> (tty \<times> linenoiseState) option" where
  "linenoiseEditMoveRight t l = (if l_pos l \<noteq> l_len l then refreshLine t (l\<lparr>l_pos := l_pos l + 1\<rparr>) else Some (t, l))"

definition linenoiseEditMoveHome :: "tty \<Rightarrow> linenoiseState \<Rightarrow> (tty \<times> linenoiseState) option" where
  "linenoiseEditMoveHome t l = (if l_pos l \<noteq> 0 then refreshLine t (l\<lparr>l_pos := 0\<rparr>) else Some (t, l))"

definition linenoiseEditMoveEnd :: "tty \<Rightarrow> linenoiseState \<Rightarrow> (tty \<times> linenoiseState) option" where
  "linenoiseEditMoveEnd t l = (if l_pos l \<noteq> l_len l then refreshLine t (l\<lparr>l_pos := l_len l\<rparr>) else Some (t, l))"

datatype hdir = LINENOISE_HISTORY_NEXT | LINENOISE_HISTORY_PREV

text \<open>The index into the array is computed in \<^verbatim>\<open>int\<close>; a negative one is outside it.\<close>

definition hist_index :: "hist \<Rightarrow> int \<Rightarrow> nat option" where
  "hist_index h i = (let j = int (h_len h) - 1 - i in if 0 \<le> j then Some (nat j) else None)"

definition linenoiseEditHistoryNext :: "tty \<Rightarrow> linenoiseState \<Rightarrow> hdir \<Rightarrow> (tty \<times> linenoiseState) option" where
  "linenoiseEditHistoryNext t l dir =
     (if h_len (t_hist t) > 1 then do {
        arr \<leftarrow> h_lines (t_hist t);
        j \<leftarrow> hist_index (t_hist t) (l_history_index l);
        s \<leftarrow> cstr (l_buf l) 0;
        arr \<leftarrow> poke arr j (Some s);
        let t = t\<lparr>t_hist := (t_hist t)\<lparr>h_lines := Some arr\<rparr>\<rparr>;
        let i = l_history_index l + (if dir = LINENOISE_HISTORY_PREV then 1 else - 1);
        (if i < 0 then Some (t, l\<lparr>l_history_index := 0\<rparr>)
         else if i \<ge> int (h_len (t_hist t)) then Some (t, l\<lparr>l_history_index := int (h_len (t_hist t)) - 1\<rparr>)
         else do {
           k \<leftarrow> hist_index (t_hist t) i;
           e \<leftarrow> peek arr k;
           line \<leftarrow> e;
           b \<leftarrow> strncpy (l_buf l) 0 line (l_buflen l);
           b \<leftarrow> (if l_buflen l = 0 then None else poke b (l_buflen l - 1) NUL);
           s \<leftarrow> cstr b 0;
           refreshLine t (l\<lparr>l_buf := b, l_history_index := i, l_len := length s, l_pos := length s\<rparr>)
         })
      } else Some (t, l))"

definition linenoiseEditDelete :: "tty \<Rightarrow> linenoiseState \<Rightarrow> (tty \<times> linenoiseState) option" where
  "linenoiseEditDelete t l =
     (if l_len l > 0 \<and> l_pos l < l_len l then do {
        b \<leftarrow> memmove (l_buf l) (l_pos l) (l_pos l + 1) (l_len l - l_pos l - 1);
        b \<leftarrow> poke b (l_len l - 1) NUL;
        refreshLine t (l\<lparr>l_buf := b, l_len := l_len l - 1\<rparr>)
      } else Some (t, l))"

definition linenoiseEditBackspace :: "tty \<Rightarrow> linenoiseState \<Rightarrow> (tty \<times> linenoiseState) option" where
  "linenoiseEditBackspace t l =
     (if l_pos l > 0 \<and> l_len l > 0 then do {
        b \<leftarrow> memmove (l_buf l) (l_pos l - 1) (l_pos l) (l_len l - l_pos l);
        b \<leftarrow> poke b (l_len l - 1) NUL;
        refreshLine t (l\<lparr>l_buf := b, l_pos := l_pos l - 1, l_len := l_len l - 1\<rparr>)
      } else Some (t, l))"

fun back_while :: "(char \<Rightarrow> bool) \<Rightarrow> cmem \<Rightarrow> nat \<Rightarrow> nat option" where
  "back_while P b 0 = Some 0"
| "back_while P b (Suc p) = do { c \<leftarrow> peek b p; if P c then back_while P b p else Some (Suc p) }"

definition linenoiseEditDeletePrevWord :: "tty \<Rightarrow> linenoiseState \<Rightarrow> (tty \<times> linenoiseState) option" where
  "linenoiseEditDeletePrevWord t l = do {
     p \<leftarrow> back_while (\<lambda>c. c = CHR '' '') (l_buf l) (l_pos l);
     p \<leftarrow> back_while (\<lambda>c. c \<noteq> CHR '' '') (l_buf l) p;
     b \<leftarrow> memmove (l_buf l) p (l_pos l) (l_len l - l_pos l + 1);
     refreshLine t (l\<lparr>l_buf := b, l_len := l_len l - (l_pos l - p), l_pos := p\<rparr>)
   }"

text \<open>Three operations written out in the switch of \<^verbatim>\<open>linenoiseEdit\<close>: swapping the two characters around
  the cursor, clearing the line and cutting it at the cursor.\<close>

definition edit_transpose :: "tty \<Rightarrow> linenoiseState \<Rightarrow> (tty \<times> linenoiseState) option" where
  "edit_transpose t l =
     (if l_pos l > 0 \<and> l_pos l < l_len l then do {
        aux \<leftarrow> peek (l_buf l) (l_pos l - 1);
        c \<leftarrow> peek (l_buf l) (l_pos l);
        b \<leftarrow> poke (l_buf l) (l_pos l - 1) c;
        b \<leftarrow> poke b (l_pos l) aux;
        refreshLine t (l\<lparr>l_buf := b, l_pos := (if l_pos l \<noteq> l_len l - 1 then l_pos l + 1 else l_pos l)\<rparr>)
      } else Some (t, l))"

definition edit_clear :: "tty \<Rightarrow> linenoiseState \<Rightarrow> (tty \<times> linenoiseState) option" where
  "edit_clear t l = do { b \<leftarrow> poke (l_buf l) 0 NUL; refreshLine t (l\<lparr>l_buf := b, l_pos := 0, l_len := 0\<rparr>) }"

definition edit_kill :: "tty \<Rightarrow> linenoiseState \<Rightarrow> (tty \<times> linenoiseState) option" where
  "edit_kill t l = do { b \<leftarrow> poke (l_buf l) (l_pos l) NUL; refreshLine t (l\<lparr>l_buf := b, l_len := l_pos l\<rparr>) }"

section \<open>Completion\<close>

text \<open>The candidate \<open>i\<close> is shown in place of the buffer; a refresh may change the rows used and the old
  position, which stay.\<close>

definition show_completion :: "string list \<Rightarrow> tty \<Rightarrow> linenoiseState \<Rightarrow> nat \<Rightarrow> (tty \<times> linenoiseState) option" where
  "show_completion lc t l i =
     (if i < length lc then do {
        (t, l') \<leftarrow> refreshLine t (l\<lparr>l_len := length (lc ! i), l_pos := length (lc ! i), l_buf := lc ! i @ [NUL]\<rparr>);
        Some (t, l'\<lparr>l_len := l_len l, l_pos := l_pos l, l_buf := l_buf l\<rparr>)
      } else refreshLine t l)"

definition char_sval :: "char \<Rightarrow> int" where
  "char_sval c = (if of_char c < (128 :: int) then of_char c else of_char c - 256)"

fun complete_loop :: "string list \<Rightarrow> tty \<Rightarrow> linenoiseState \<Rightarrow> nat \<Rightarrow> char option list \<Rightarrow>
    (tty \<times> linenoiseState \<times> int \<times> char option list) option" where
  "complete_loop lc t l i [] = do { (t, l) \<leftarrow> show_completion lc t l i; Some (t, l, -1, []) }"
| "complete_loop lc t l i (None # inp) = do { (t, l) \<leftarrow> show_completion lc t l i; Some (t, l, -1, inp) }"
| "complete_loop lc t l i (Some c # inp) = do {
     (t, l) \<leftarrow> show_completion lc t l i;
     (if c = CHR 0x09 then complete_loop lc t l ((i + 1) mod (length lc + 1)) inp
      else if c = ESC then do {
        (t, l) \<leftarrow> (if i < length lc then refreshLine t l else Some (t, l));
        Some (t, l, char_sval c, inp)
      } else do {
        l \<leftarrow> (if i < length lc then do {
               b \<leftarrow> snprintf (l_buf l) 0 (l_buflen l) (lc ! i);
               Some (l\<lparr>l_buf := b, l_len := length (lc ! i), l_pos := length (lc ! i)\<rparr>)
             } else Some l);
        Some (t, l, char_sval c, inp)
      })
   }"

definition completeLine :: "(string \<Rightarrow> string list) \<Rightarrow> tty \<Rightarrow> linenoiseState \<Rightarrow> char option list \<Rightarrow>
    (tty \<times> linenoiseState \<times> int \<times> char option list) option" where
  "completeLine cb t l inp = do {
     s \<leftarrow> cstr (l_buf l) 0;
     (case cb s of [] \<Rightarrow> Some (t, l, 0, inp) | lc \<Rightarrow> complete_loop lc t l 0 inp)
   }"

section \<open>The editing loop\<close>

datatype key_result =
    Again tty linenoiseState "char option list"
  | Return tty linenoiseState int "char option list"

definition again :: "char option list \<Rightarrow> (tty \<times> linenoiseState) option \<Rightarrow> key_result option" where
  "again inp r = map_option (\<lambda>(t, l). Again t l inp) r"

text \<open>Leaving the newest entry, which is the line being edited: its pointer is freed.\<close>

definition drop_newest :: "tty \<Rightarrow> tty option" where
  "drop_newest t =
     (if h_len (t_hist t) = 0 \<or> h_lines (t_hist t) = None then None
      else Some (t\<lparr>t_hist := (t_hist t)\<lparr>h_len := h_len (t_hist t) - 1\<rparr>\<rparr>))"

definition linenoiseClearScreen :: "tty \<Rightarrow> tty" where
  "linenoiseClearScreen t = term_write t [ESC, CHR ''['', CHR ''H'', ESC, CHR ''['', CHR ''2'', CHR ''J'']"

text \<open>One \<^verbatim>\<open>read\<close> of an escape sequence: \<open>None\<close> when it failed, otherwise the character, if there is one
  (at end of file the byte of the sequence stays uninitialised), and the rest of the input.\<close>

fun read1 :: "char option list \<Rightarrow> (char option \<times> char option list) option" where
  "read1 [] = Some (None, [])"
| "read1 (None # inp) = None"
| "read1 (Some c # inp) = Some (Some c, inp)"

definition csi_key :: "tty \<Rightarrow> linenoiseState \<Rightarrow> char \<Rightarrow> (tty \<times> linenoiseState) option" where
  "csi_key t l b =
     (if b = CHR ''A'' then linenoiseEditHistoryNext t l LINENOISE_HISTORY_PREV
      else if b = CHR ''B'' then linenoiseEditHistoryNext t l LINENOISE_HISTORY_NEXT
      else if b = CHR ''C'' then linenoiseEditMoveRight t l
      else if b = CHR ''D'' then linenoiseEditMoveLeft t l
      else if b = CHR ''H'' then linenoiseEditMoveHome t l
      else if b = CHR ''F'' then linenoiseEditMoveEnd t l
      else Some (t, l))"

definition is_digit :: "char \<Rightarrow> bool" where
  "is_digit c \<longleftrightarrow> (48 :: nat) \<le> of_char c \<and> of_char c \<le> (57 :: nat)"

definition edit_escape :: "tty \<Rightarrow> linenoiseState \<Rightarrow> char option list \<Rightarrow> key_result option" where
  "edit_escape t l inp =
     (case read1 inp of
        None \<Rightarrow> Some (Again t l (tl inp))
      | Some (s0, inp1) \<Rightarrow>
     (case read1 inp1 of
        None \<Rightarrow> Some (Again t l (tl inp1))
      | Some (s1, inp2) \<Rightarrow> do {
          a \<leftarrow> s0;
          (if a = CHR ''['' then do {
             b \<leftarrow> s1;
             (if is_digit b then
                (case read1 inp2 of
                   None \<Rightarrow> Some (Again t l (tl inp2))
                 | Some (s2, inp3) \<Rightarrow> do {
                     c \<leftarrow> s2;
                     again inp3 (if c = CHR ''~'' \<and> b = CHR ''3'' then linenoiseEditDelete t l else Some (t, l))
                   })
              else again inp2 (csi_key t l b))
           } else if a = CHR ''O'' then do {
             b \<leftarrow> s1;
             again inp2 (if b = CHR ''H'' then linenoiseEditMoveHome t l
                         else if b = CHR ''F'' then linenoiseEditMoveEnd t l else Some (t, l))
           } else Some (Again t l inp2))
        }))"

definition edit_enter :: "tty \<Rightarrow> linenoiseState \<Rightarrow> (tty \<times> linenoiseState) option" where
  "edit_enter t l = do {
     t \<leftarrow> drop_newest t;
     (t, l) \<leftarrow> (if mlmode t then linenoiseEditMoveEnd t l else Some (t, l));
     (case hintsCallback t of
        None \<Rightarrow> Some (t, l)
      | Some hc \<Rightarrow> map_option (\<lambda>(t, l). (t\<lparr>hintsCallback := Some hc\<rparr>, l)) (refreshLine (t\<lparr>hintsCallback := None\<rparr>) l))
   }"

definition edit_key :: "tty \<Rightarrow> linenoiseState \<Rightarrow> char \<Rightarrow> char option list \<Rightarrow> key_result option" where
  "edit_key t l c inp =
     (if c = CHR 0x0D then map_option (\<lambda>(t, l). Return t l (int (l_len l)) inp) (edit_enter t l)
      else if c = CHR 0x03 then Some (Return t l (- 1) inp)
      else if c = CHR 0x7F \<or> c = CHR 0x08 then again inp (linenoiseEditBackspace t l)
      else if c = CHR 0x04 then
        (if l_len l > 0 then again inp (linenoiseEditDelete t l)
         else map_option (\<lambda>t. Return t l (- 1) inp) (drop_newest t))
      else if c = CHR 0x14 then again inp (edit_transpose t l)
      else if c = CHR 0x02 then again inp (linenoiseEditMoveLeft t l)
      else if c = CHR 0x06 then again inp (linenoiseEditMoveRight t l)
      else if c = CHR 0x10 then again inp (linenoiseEditHistoryNext t l LINENOISE_HISTORY_PREV)
      else if c = CHR 0x0E then again inp (linenoiseEditHistoryNext t l LINENOISE_HISTORY_NEXT)
      else if c = ESC then edit_escape t l inp
      else if c = CHR 0x15 then again inp (edit_clear t l)
      else if c = CHR 0x0B then again inp (edit_kill t l)
      else if c = CHR 0x01 then again inp (linenoiseEditMoveHome t l)
      else if c = CHR 0x05 then again inp (linenoiseEditMoveEnd t l)
      else if c = CHR 0x0C then again inp (refreshLine (linenoiseClearScreen t) l)
      else if c = CHR 0x17 then again inp (linenoiseEditDeletePrevWord t l)
      else map_option (\<lambda>(t, l, r). if r \<noteq> 0 then Return t l (- 1) inp else Again t l inp) (linenoiseEditInsert t l c))"

text \<open>One turn after a character was read: completion first, when there is a callback.\<close>

definition edit_turn :: "tty \<Rightarrow> linenoiseState \<Rightarrow> char \<Rightarrow> char option list \<Rightarrow> key_result option" where
  "edit_turn t l c inp =
     (case (if c = CHR 0x09 then completionCallback t else None) of
        None \<Rightarrow> edit_key t l c inp
      | Some cb \<Rightarrow> do {
          (t, l, r, inp) \<leftarrow> completeLine cb t l inp;
          (if r < 0 then Some (Return t l (int (l_len l)) inp)
           else if r = 0 then Some (Again t l inp)
           else edit_key t l (char_of (nat r)) inp)
        })"

lemma read1_length: "read1 inp = Some (c, inp') \<Longrightarrow> length inp' \<le> length inp"
  by (induction inp rule: read1.induct) auto

lemma again_SomeD: "again inp r = Some (Again t l inp') \<Longrightarrow> inp' = inp"
  by (auto simp: again_def)

lemma edit_escape_length: "edit_escape t l inp = Some (Again t' l' inp') \<Longrightarrow> length inp' \<le> length inp"
proof -
  assume e: "edit_escape t l inp = Some (Again t' l' inp')"
  consider "read1 inp = None" | s0 i1 where "read1 inp = Some (s0, i1)" "read1 i1 = None"
    | s0 i1 s1 i2 where "read1 inp = Some (s0, i1)" "read1 i1 = Some (s1, i2)" "read1 i2 = None"
    | s0 i1 s1 i2 s2 i3 where "read1 inp = Some (s0, i1)" "read1 i1 = Some (s1, i2)" "read1 i2 = Some (s2, i3)"
    by (metis option.exhaust surj_pair)
  then show ?thesis
  proof cases
    case 4
    then have "length i2 \<le> length inp" "length i3 \<le> length inp"
      using read1_length [OF 4(1)] read1_length [OF 4(2)] read1_length [OF 4(3)] by linarith+
    then show ?thesis using e 4
      by (auto simp: edit_escape_def split: Option.bind_split_asm if_split_asm dest!: again_SomeD)
  qed (use e in \<open>auto simp: edit_escape_def split: Option.bind_split_asm if_split_asm dest!: read1_length again_SomeD\<close>)
qed

lemma edit_key_length: "edit_key t l c inp = Some (Again t' l' inp') \<Longrightarrow> length inp' \<le> length inp"
  by (auto simp: edit_key_def split: if_splits prod.splits dest: edit_escape_length again_SomeD)

lemma complete_loop_length: "complete_loop lc t l i inp = Some (t', l', r, inp') \<Longrightarrow> length inp' \<le> length inp"
proof (induction inp arbitrary: t l i)
  case Nil
  then show ?case by (auto split: Option.bind_split_asm)
next
  case (Cons a inp)
  show ?case
  proof (cases a)
    case None
    then show ?thesis using Cons.prems by (auto split: Option.bind_split_asm)
  next
    case (Some c)
    then have "length inp' \<le> length inp"
      using Cons.prems by (auto split: Option.bind_split_asm if_split_asm dest!: Cons.IH)
    then show ?thesis by simp
  qed
qed

lemma completeLine_length: "completeLine cb t l inp = Some (t', l', r, inp') \<Longrightarrow> length inp' \<le> length inp"
  by (auto simp: completeLine_def split: Option.bind_split_asm list.split_asm dest: complete_loop_length)

lemma edit_turn_length: "edit_turn t l c inp = Some (Again t' l' inp') \<Longrightarrow> length inp' \<le> length inp"
  by (auto simp: edit_turn_def split: option.split_asm if_split_asm Option.bind_split_asm
      dest!: edit_key_length completeLine_length)

function edit_loop :: "tty \<Rightarrow> linenoiseState \<Rightarrow> char option list \<Rightarrow> (tty \<times> linenoiseState \<times> int \<times> char option list) option" where
  "edit_loop t l [] = Some (t, l, int (l_len l), [])"
| "edit_loop t l (None # inp) = Some (t, l, int (l_len l), inp)"
| "edit_loop t l (Some c # inp) =
     (case edit_turn t l c inp of
        None \<Rightarrow> None
      | Some (Return t l r inp) \<Rightarrow> Some (t, l, r, inp)
      | Some (Again t l inp) \<Rightarrow> edit_loop t l inp)"
  by pat_completeness auto

termination
  by (relation "measure (\<lambda>(_, _, inp). length inp)") (auto dest: edit_turn_length)

text \<open>The start of a session. The buffer comes with its size; one byte is kept for the terminator.\<close>

definition linenoiseEdit :: "tty \<Rightarrow> cmem \<Rightarrow> string \<Rightarrow> nat \<Rightarrow> char option list \<Rightarrow>
    (tty \<times> linenoiseState \<times> int \<times> char option list) option" where
  "linenoiseEdit t buf prompt cols inp = do {
     b \<leftarrow> poke buf 0 NUL;
     let l = \<lparr>l_buf = b, l_buflen = length buf - 1, l_prompt = prompt, l_pos = 0, l_oldpos = 0, l_len = 0,
              l_cols = cols, l_maxrows = 0, l_history_index = 0\<rparr>;
     (h, _) \<leftarrow> linenoiseHistoryAdd [] (t_hist t);
     let t = t\<lparr>t_hist := h\<rparr>;
     (if t_writes t then edit_loop (term_write t prompt) l inp else Some (t, l, -1, inp))
   }"

definition linenoiseRaw :: "bool \<Rightarrow> tty \<Rightarrow> cmem \<Rightarrow> string \<Rightarrow> nat \<Rightarrow> char option list \<Rightarrow>
    (tty \<times> cmem \<times> int \<times> char option list) option" where
  "linenoiseRaw raw_ok t buf prompt cols inp =
     (if length buf = 0 \<or> \<not> raw_ok then Some (t, buf, -1, inp)
      else map_option (\<lambda>(t, l, count, inp). (term_write t [NL], l_buf l, count, inp)) (linenoiseEdit t buf prompt cols inp))"

section \<open>Reading a line without editing\<close>

text \<open>The buffer grows by doubling, from 32 bytes; \<open>junk\<close> stands for the contents of the new bytes. The result is the
  buffer, or none at the end of the input.\<close>

definition grow_line :: "char \<Rightarrow> cmem \<Rightarrow> nat \<Rightarrow> cmem" where
  "grow_line junk line len =
     (if len = length line then line @ replicate (if len = 0 then 32 else len) junk else line)"

fun notty_loop :: "char \<Rightarrow> cmem \<Rightarrow> nat \<Rightarrow> string \<Rightarrow> (cmem option \<times> string) option" where
  "notty_loop junk line len inp = do {
     let line = grow_line junk line len;
     (case inp of
        [] \<Rightarrow> if len = 0 then Some (None, []) else map_option (\<lambda>m. (Some m, [])) (poke line len NUL)
      | c # cs \<Rightarrow>
          if c = NL then map_option (\<lambda>m. (Some m, cs)) (poke line len NUL)
          else (case poke line len c of None \<Rightarrow> None | Some m \<Rightarrow> notty_loop junk m (len + 1) cs))
   }"

declare notty_loop.simps [simp del]

definition linenoiseNoTTY :: "char \<Rightarrow> string \<Rightarrow> (cmem option \<times> string) option" where
  "linenoiseNoTTY junk inp = notty_loop junk [] 0 inp"

definition unsupported_term :: "string list" where
  "unsupported_term = [''dumb'', ''cons25'', ''emacs'']"

definition lower :: "char \<Rightarrow> char" where
  "lower c = (if (65 :: nat) \<le> of_char c \<and> of_char c \<le> (90 :: nat) then char_of ((of_char c :: nat) + 32) else c)"

definition isUnsupportedTerm :: "string option \<Rightarrow> bool" where
  "isUnsupportedTerm term' =
     (case term' of None \<Rightarrow> False | Some s \<Rightarrow> list_ex (\<lambda>u. map lower s = map lower u) unsupported_term)"

fun strip_eol :: "cmem \<Rightarrow> nat \<Rightarrow> cmem option" where
  "strip_eol b 0 = Some b"
| "strip_eol b (Suc n) = do {
     c \<leftarrow> peek b n;
     if c = NL \<or> c = CR then (case poke b n NUL of None \<Rightarrow> None | Some b' \<Rightarrow> strip_eol b' n) else Some b
   }"

text \<open>A terminal without escape sequences: one \<^verbatim>\<open>fgets\<close> into the line buffer.\<close>

definition linenoise_plain :: "tty \<Rightarrow> string \<Rightarrow> string \<Rightarrow> (tty \<times> string option \<times> string) option" where
  "linenoise_plain t prompt inp =
     (let t = t\<lparr>t_out := t_out t @ prompt\<rparr> in
      case fgets LINENOISE_MAX_LINE inp of
        None \<Rightarrow> Some (t, None, inp)
      | Some (b, rest) \<Rightarrow> do {
          s \<leftarrow> cstr (b @ [NUL]) 0;
          m \<leftarrow> strip_eol (b @ [NUL]) (length s);
          line \<leftarrow> cstr m 0;
          Some (t, Some line, rest)
        })"

text \<open>\<^verbatim>\<open>linenoise\<close> on a terminal that understands escape sequences: the line, or none.\<close>

definition linenoise_tty :: "bool \<Rightarrow> tty \<Rightarrow> char \<Rightarrow> string \<Rightarrow> nat \<Rightarrow> char option list \<Rightarrow>
    (tty \<times> string option \<times> char option list) option" where
  "linenoise_tty raw_ok t junk prompt cols inp = do {
     (t, buf, count, inp) \<leftarrow> linenoiseRaw raw_ok t (replicate LINENOISE_MAX_LINE junk) prompt cols inp;
     (if count = -1 then Some (t, None, inp) else do { s \<leftarrow> cstr buf 0; Some (t, Some s, inp) })
   }"

end
