(* ===== verification/Linenoise_Correct.thy ===== *)
theory Linenoise_Correct
  imports Linenoise
begin

text \<open>
  Correctness of the line editor. An editing session stands for two strings, the text before and the
  text after the cursor (\<open>edit_rep\<close>); every editing operation is shown to stay inside the buffer and to
  do its work on these two strings, whatever the refresh of the display does (locale \<open>display\<close>).
\<close>

section \<open>Representation\<close>

definition edit_rep :: "linenoiseState \<Rightarrow> string \<Rightarrow> string \<Rightarrow> bool" where
  "edit_rep l a b \<longleftrightarrow> (\<exists>rest. l_buf l = a @ b @ NUL # rest) \<and> length (l_buf l) = l_buflen l + 1 \<and>
     l_pos l = length a \<and> l_len l = length a + length b \<and> NUL \<notin> set a \<and> NUL \<notin> set b"

text \<open>A display the line fits on: in single line mode the prompt leaves room for the cursor, in multi
  line mode there is a column, and the sizes are far from the limits of \<^verbatim>\<open>int\<close>.\<close>

definition display_ok :: "tty \<Rightarrow> linenoiseState \<Rightarrow> bool" where
  "display_ok t l \<longleftrightarrow> (if mlmode t then 0 < l_cols l else length (l_prompt l) < l_cols l) \<and>
     length (l_prompt l) + l_buflen l < 2 ^ 31 \<and> l_cols l < 2 ^ 31"

lemma edit_repE:
  assumes "edit_rep l a b"
  obtains rest where "l_buf l = a @ b @ NUL # rest" "l_buflen l = length a + length b + length rest"
    "l_pos l = length a" "l_len l = length a + length b" "NUL \<notin> set a" "NUL \<notin> set b"
  using assms by (auto simp: edit_rep_def)

lemma edit_repI:
  "l_buf l = a @ b @ NUL # rest \<Longrightarrow> length (l_buf l) = l_buflen l + 1 \<Longrightarrow> l_pos l = length a \<Longrightarrow>
   l_len l = length a + length b \<Longrightarrow> NUL \<notin> set a \<Longrightarrow> NUL \<notin> set b \<Longrightarrow> edit_rep l a b"
  by (auto simp: edit_rep_def)

lemma edit_rep_cstr: "edit_rep l a b \<Longrightarrow> cstr (l_buf l) 0 = Some (a @ b)"
  using cstr_append [of "a @ b"] by (auto simp: edit_rep_def is_cstring_def)

section \<open>The display\<close>

lemma word_le_small: "x < 2 ^ 64 \<Longrightarrow> y < 2 ^ 64 \<Longrightarrow> (of_nat x \<le> (of_nat y :: u64)) = (x \<le> y)"
  by (simp add: word_le_nat_alt unsigned_of_nat take_bit_nat_eq_self)

lemma shift_loop_small:
  assumes "plen < cols" "pos \<le> len" "plen + len < 2 ^ 32" "cols < 2 ^ 32"
  shows "shift_loop (of_nat plen) (of_nat cols) (of_nat off) (of_nat len) (of_nat pos) =
    (let k = plen + pos + 1 - cols in Some (of_nat (off + k), of_nat (len - k), of_nat (pos - k)))"
  using assms
proof (induction "plen + pos + 1 - cols" arbitrary: off len pos)
  case 0
  have "\<not> (of_nat cols \<le> (of_nat (plen + pos) :: u64))"
    using 0 by (subst word_le_small) auto
  then show ?case using 0 by (subst shift_loop.simps) simp
next
  case (Suc k)
  have "of_nat cols \<le> (of_nat (plen + pos) :: u64)"
    using Suc.hyps(2) Suc.prems by (subst word_le_small) auto
  moreover obtain p' where p: "pos = Suc p'" using Suc.hyps(2) Suc.prems(1) by (cases pos) auto
  moreover obtain n' where n: "len = Suc n'" using Suc.prems(2) p by (cases len) auto
  moreover have "shift_loop (of_nat plen) (of_nat cols) (of_nat (off + 1)) (of_nat n') (of_nat p') =
    (let k = plen + p' + 1 - cols in Some (of_nat (off + 1 + k), of_nat (n' - k), of_nat (p' - k)))"
    by (rule Suc.hyps(1)) (use Suc.hyps(2) Suc.prems p n in auto)
  moreover have "plen + pos + 1 - cols = Suc (plen + p' + 1 - cols)" using Suc.hyps(2) p by linarith
  ultimately show ?case by (subst shift_loop.simps) (simp add: Let_def algebra_simps)
qed

lemma cut_loop_small:
  assumes "plen \<le> cols" "plen + len < 2 ^ 32" "cols < 2 ^ 32"
  shows "cut_loop (of_nat plen) (of_nat cols) (of_nat len) = Some (of_nat (min len (cols - plen)))"
  using assms
proof (induction len)
  case 0
  have "\<not> (of_nat cols < (of_nat (plen + 0) :: u64))" using 0 by (simp add: not_less word_le_small)
  then show ?case by (subst cut_loop.simps) simp
next
  case (Suc n)
  have lt: "(of_nat cols < (of_nat (plen + Suc n) :: u64)) = (cols < plen + Suc n)"
    using Suc.prems by (subst not_le [symmetric], subst word_le_small) auto
  have "cut_loop (of_nat plen) (of_nat cols) (of_nat n) = Some (of_nat (min n (cols - plen)))"
    by (rule Suc.IH) (use Suc.prems in auto)
  moreover have "cols < plen + Suc n \<Longrightarrow> min (Suc n) (cols - plen) = min n (cols - plen)"
    "\<not> cols < plen + Suc n \<Longrightarrow> min (Suc n) (cols - plen) = Suc n" by linarith+
  ultimately show ?case
    using lt by (subst cut_loop.simps) (simp add: algebra_simps del: min_less_iff_conj)
qed

lemma to_int_small: "n < 2 ^ 31 \<Longrightarrow> to_int (of_nat n) = int n"
  by (simp add: to_int_def unsigned_of_nat signed_of_nat signed_take_bit_int_eq_self take_bit_nat_eq_self)

lemma abAppend_ok [simp]: "n \<le> length s \<Longrightarrow> abAppend ab s (int n) = Some (ab @ take n s)"
  by (simp add: abAppend_def)

lemma abAppendStr_ok [simp]: "abAppendStr ab s = Some (ab @ s)"
  by (simp add: abAppendStr_def)

definition shown :: "tty \<Rightarrow> string \<Rightarrow> string" where
  "shown t s = (if maskmode t then replicate (length s) (CHR ''*'') else s)"

lemma append_text_ok [simp]: "n \<le> length b \<Longrightarrow> append_text t ab b (int n) = Some (ab @ shown t (take n b))"
  by (simp add: append_text_def shown_def)

lemma refreshShowHints_ok:
  assumes "edit_rep l a b"
  shows "\<exists>h. (\<forall>ab. refreshShowHints ab t l plen = Some (ab @ h)) \<and> (hintsCallback t = None \<longrightarrow> h = [])"
proof (cases "hintsCallback t")
  case None
  then show ?thesis by (simp add: refreshShowHints_def)
next
  case (Some cb)
  then show ?thesis
  proof (cases "plen + l_len l < l_cols l")
    case True
    show ?thesis
    proof (cases "cb (a @ b)")
      case None
      then show ?thesis using True Some edit_rep_cstr [OF assms] by (simp add: refreshShowHints_def)
    next
      case hint: (Some hcb)
      obtain hint color bold where "hcb = (hint, color, bold)" by (cases hcb)
      then show ?thesis using hint True Some edit_rep_cstr [OF assms] by (auto simp: refreshShowHints_def Let_def abAppend_def)
    qed
  qed (simp add: refreshShowHints_def)
qed

text \<open>The single line refresh: the part of the line around the cursor that fits, and the cursor's column.\<close>

definition window_shift :: "linenoiseState \<Rightarrow> nat" where
  "window_shift l = length (l_prompt l) + l_pos l + 1 - l_cols l"

definition window :: "linenoiseState \<Rightarrow> string" where
  "window l = take (l_cols l - length (l_prompt l)) (drop (window_shift l) (take (l_len l) (l_buf l)))"

lemma window_shift_le: "display_ok t l \<Longrightarrow> \<not> mlmode t \<Longrightarrow> window_shift l \<le> l_pos l"
  by (auto simp: window_shift_def display_ok_def)

lemma refreshSingleLine_calc:
  assumes "shift_loop (of_nat (length (l_prompt l))) (of_nat (l_cols l)) 0 (of_nat (l_len l)) (of_nat (l_pos l)) = Some (off, len1, pos1)"
    "cut_loop (of_nat (length (l_prompt l))) (of_nat (l_cols l)) len1 = Some len2"
    "unat off = k" "to_int len2 = int n" "n \<le> length (drop k (l_buf l))"
    "to_int (pos1 + of_nat (length (l_prompt l))) = col" "\<And>ab. refreshShowHints ab t l (length (l_prompt l)) = Some (ab @ h)"
  shows "refreshSingleLine t l = Some (term_write t (CR # l_prompt l @ shown t (take n (drop k (l_buf l))) @ h @
    [ESC, CHR ''['', CHR ''0'', CHR ''K''] @ [CR, ESC, CHR ''[''] @ sdec col @ ''C''), l)"
  using append_text_ok [OF assms(5), of t] by (simp add: refreshSingleLine_def assms(1-4,6,7))

lemma refreshSingleLine_eq:
  assumes "edit_rep l a b" "display_ok t l" "\<not> mlmode t"
  shows "\<exists>h. refreshSingleLine t l = Some (term_write t (CR # l_prompt l @
shown t (window l) @ h @ [ESC, CHR ''['', CHR ''0'', CHR ''K''] @
      [CR, ESC, CHR ''[''] @ sdec (int (length (l_prompt l) + l_pos l - window_shift l)) @ ''C''), l) \<and>
      (hintsCallback t = None \<longrightarrow> h = [])"
proof -
  let ?p = "length (l_prompt l)" and ?k = "window_shift l"
  obtain rest where l: "l_buf l = a @ b @ NUL # rest" "l_buflen l = length a + length b + length rest"
      "l_pos l = length a" "l_len l = length a + length b"
    by (rule edit_repE [OF assms(1)])
  have cols: "?p < l_cols l" "l_cols l < 2 ^ 31" "?p + l_len l < 2 ^ 31" using assms(2,3) l by (auto simp: display_ok_def)
  have k: "?k \<le> l_pos l" using window_shift_le assms(2,3) by blast
  let ?n = "min (l_len l - ?k) (l_cols l - ?p)"
  have sh: "shift_loop (of_nat ?p) (of_nat (l_cols l)) 0 (of_nat (l_len l)) (of_nat (l_pos l))
      = Some (of_nat ?k, of_nat (l_len l - ?k), of_nat (l_pos l - ?k))"
    using shift_loop_small [of ?p "l_cols l" "l_pos l" "l_len l" 0] cols l by (simp add: window_shift_def Let_def)
  have cut: "cut_loop (of_nat ?p) (of_nat (l_cols l)) (of_nat (l_len l - ?k)) = Some (of_nat ?n)"
    using cols by (intro cut_loop_small) auto
  have n: "unat (of_nat ?n :: u64) = ?n" "to_int (of_nat ?n) = int ?n" "unat (of_nat ?k :: u64) = ?k"
    using cols k l by (auto simp: to_int_small unsigned_of_nat take_bit_nat_eq_self)
  have w: "window l = take ?n (drop ?k (l_buf l))"
    by (simp add: window_def drop_take take_take min.commute)
  have "l_len l \<le> length (l_buf l)" by (simp add: l)
  then have wl: "length (window l) = ?n" by (simp add: window_def min.commute)
  have pos: "to_int (of_nat (l_pos l - ?k) + of_nat ?p) = int (?p + l_pos l - ?k)"
  proof -
    have "(of_nat (l_pos l - ?k) + of_nat ?p :: u64) = of_nat (?p + l_pos l - ?k)"
      using k by (simp add: add.commute flip: of_nat_add)
    then show ?thesis using to_int_small [of "?p + l_pos l - ?k"] cols l by simp
  qed
  obtain h where h: "\<forall>ab. refreshShowHints ab t l ?p = Some (ab @ h)" "hintsCallback t = None \<longrightarrow> h = []"
    using refreshShowHints_ok [OF assms(1), of t ?p] by (elim exE conjE) (rule that)
  have le: "?n \<le> length (drop ?k (l_buf l))" by (simp add: l)
  show ?thesis
    unfolding w
    by (rule exI [of _ h], rule conjI, rule refreshSingleLine_calc [OF sh cut n(3) n(2) le pos spec [OF h(1)]], rule h(2))
qed

text \<open>What every refresh leaves alone.\<close>

definition frame :: "tty \<Rightarrow> linenoiseState \<Rightarrow> tty \<Rightarrow> linenoiseState \<Rightarrow> bool" where
  "frame t l t' l' \<longleftrightarrow> t' = t\<lparr>t_out := t_out t'\<rparr> \<and> l' = l\<lparr>l_maxrows := l_maxrows l', l_oldpos := l_oldpos l'\<rparr>"

lemma term_write_frame: "term_write t s = t\<lparr>t_out := t_out (term_write t s)\<rparr>"
  by (simp add: term_write_def)

lemma frame_rep: "frame t l t' l' \<Longrightarrow> edit_rep l a b \<Longrightarrow> edit_rep l' a b"
  unfolding frame_def edit_rep_def by (metis linenoiseState.ext_inject linenoiseState.surjective linenoiseState.update_convs)

lemma frame_fields:
  assumes "frame t l t' l'"
  shows "t_hist t' = t_hist t" "l_buflen l' = l_buflen l" "l_prompt l' = l_prompt l" "l_cols l' = l_cols l"
    "l_history_index l' = l_history_index l"
  using assms by (cases t; cases t'; cases l; cases l'; simp add: frame_def)+

lemma raise_maxrows_ex: "\<exists>r. raise_maxrows x l = l\<lparr>l_maxrows := r\<rparr>"
  by (cases "x > l_maxrows l") (auto simp: raise_maxrows_def intro: exI [of _ "l_maxrows l"])

lemma refreshMultiLine_ok:
  assumes "edit_rep l a b" "display_ok t l" "mlmode t"
  shows "\<exists>t' l'. refreshMultiLine t l = Some (t', l') \<and> frame t l t' l'"
proof -
  obtain rest where l: "l_buf l = a @ b @ NUL # rest" "l_len l = length a + length b"
    by (rule edit_repE [OF assms(1)])
  define rows where "rows = (length (l_prompt l) + l_len l + l_cols l - 1) div l_cols l"
  define l1 where "l1 = raise_maxrows rows l"
  have l1: "l_buf l1 = l_buf l" "l_len l1 = l_len l" "l_prompt l1 = l_prompt l"
    by (simp_all add: l1_def raise_maxrows_def)
  obtain r1 where r1: "l1 = l\<lparr>l_maxrows := r1\<rparr>" using raise_maxrows_ex l1_def by blast
  have "edit_rep l1 a b" using assms(1) by (simp add: edit_rep_def l1_def raise_maxrows_def)
  then obtain h where h: "\<And>ab. refreshShowHints ab t l1 (length (l_prompt l)) = Some (ab @ h)"
    using refreshShowHints_ok by blast
  have c: "l_cols l \<noteq> 0" using assms(2,3) by (simp add: display_ok_def)
  have le: "l_len l \<le> length (l_buf l)" by (simp add: l)
  obtain ab' rows' l2 where w: "multi_wrap (multi_clear (l_maxrows l) ((length (l_prompt l) + l_oldpos l + l_cols l) div l_cols l)
      @ l_prompt l @ shown t (take (l_len l) (l_buf l)) @ h) rows l1 = (ab', rows', l2)"
    by (metis surj_pair)
  then have "l2 = l1 \<or> l2 = raise_maxrows (rows + 1) l1" by (auto simp: multi_wrap_def split: if_splits)
  then obtain r where r: "l2 = l\<lparr>l_maxrows := r\<rparr>"
    using raise_maxrows_ex [of "rows + 1" l1] r1 by auto
  have "refreshMultiLine t l = Some (term_write t (ab' @ multi_cursor rows' l2), l2\<lparr>l_oldpos := l_pos l2\<rparr>)"
    using c w by (simp add: refreshMultiLine_def Let_def l1 h append_text_ok [OF le] flip: rows_def l1_def One_nat_def)
  moreover have "frame t l (term_write t (ab' @ multi_cursor rows' l2)) (l2\<lparr>l_oldpos := l_pos l2\<rparr>)"
    using term_write_frame by (simp add: frame_def r)
  ultimately show ?thesis by blast
qed

section \<open>Operations on the two strings\<close>

text \<open>The result of an operation that ends in a refresh: the same globals apart from the output, a
  session with the same frame, and the given text around the cursor.\<close>

definition edits :: "tty \<Rightarrow> linenoiseState \<Rightarrow> string \<times> string \<Rightarrow> (tty \<times> linenoiseState) option \<Rightarrow> bool" where
  "edits t l ab r \<longleftrightarrow> (\<exists>t' l'. r = Some (t', l') \<and> t' = t\<lparr>t_out := t_out t'\<rparr> \<and> edit_rep l' (fst ab) (snd ab) \<and>
     l_buflen l' = l_buflen l \<and> l_prompt l' = l_prompt l \<and> l_cols l' = l_cols l \<and> l_history_index l' = l_history_index l)"

lemma display_ok_cong:
  "mlmode t = mlmode t' \<Longrightarrow> l_buflen l = l_buflen l' \<Longrightarrow> l_prompt l = l_prompt l' \<Longrightarrow> l_cols l = l_cols l' \<Longrightarrow>
   display_ok t l = display_ok t' l'"
  by (simp add: display_ok_def)

text \<open>The interface between the editing operations and the display: a refresh succeeds on every session
  that fits the display and leaves the frame. Each operation is proved over this interface, and both
  refresh routines provide it.\<close>

locale display =
  fixes refresh :: "tty \<Rightarrow> linenoiseState \<Rightarrow> (tty \<times> linenoiseState) option"
    and fits :: "tty \<Rightarrow> linenoiseState \<Rightarrow> bool"
  assumes refresh_frame: "edit_rep l a b \<Longrightarrow> fits t l \<Longrightarrow> \<exists>t' l'. refresh t l = Some (t', l') \<and> frame t l t' l'"
    and fits_cong: "fits t l \<Longrightarrow> l_buflen l1 = l_buflen l \<Longrightarrow> l_prompt l1 = l_prompt l \<Longrightarrow> l_cols l1 = l_cols l \<Longrightarrow> fits t l1"
begin

lemma edits_refresh:
  assumes "edit_rep l1 a b" "fits t l" "l_buflen l1 = l_buflen l" "l_prompt l1 = l_prompt l"
    "l_cols l1 = l_cols l" "l_history_index l1 = l_history_index l"
  shows "edits t l (a, b) (refresh t l1)"
proof -
  have "fits t l1" using fits_cong [OF assms(2-5)] .
  then obtain t' l' where r: "refresh t l1 = Some (t', l')" and fr: "frame t l1 t' l'"
    using refresh_frame [OF assms(1)] by blast
  have "edit_rep l' a b" using frame_rep [OF fr assms(1)] .
  moreover have "t' = t\<lparr>t_out := t_out t'\<rparr>" using fr by (simp add: frame_def)
  ultimately show ?thesis using r assms frame_fields [OF fr] by (auto simp: edits_def)
qed

end

interpretation single: display refreshSingleLine "\<lambda>t l. display_ok t l \<and> \<not> mlmode t"
proof unfold_locales
  fix l a b t
  assume "edit_rep l a b" "display_ok t l \<and> \<not> mlmode t"
  then show "\<exists>t' l'. refreshSingleLine t l = Some (t', l') \<and> frame t l t' l'"
    using refreshSingleLine_eq [of l a b t] term_write_frame by (fastforce simp: frame_def)
qed (simp add: display_ok_def)

interpretation multi: display refreshMultiLine "\<lambda>t l. display_ok t l \<and> mlmode t"
proof unfold_locales
  fix l a b t
  assume "edit_rep l a b" "display_ok t l \<and> mlmode t"
  then show "\<exists>t' l'. refreshMultiLine t l = Some (t', l') \<and> frame t l t' l'"
    using refreshMultiLine_ok by blast
qed (simp add: display_ok_def)

interpretation line: display refreshLine display_ok
proof unfold_locales
  fix l a b t
  assume rep: "edit_rep l a b" and ok: "display_ok t l"
  show "\<exists>t' l'. refreshLine t l = Some (t', l') \<and> frame t l t' l'"
    using single.refresh_frame [OF rep, of t] multi.refresh_frame [OF rep, of t] ok
    by (cases "mlmode t") (simp_all add: refreshLine_def)
qed (simp add: display_ok_def)

lemma edits_same: "edit_rep l a b \<Longrightarrow> edits t l (a, b) (Some (t, l))"
  by (simp add: edits_def)

lemma MoveLeft_edits:
  assumes "edit_rep l a b" "display_ok t l"
  shows "edits t l (if a = [] then (a, b) else (butlast a, last a # b)) (linenoiseEditMoveLeft t l)"
proof (cases a rule: rev_cases)
  case Nil
  then show ?thesis using assms edits_same by (auto simp: linenoiseEditMoveLeft_def edit_rep_def)
next
  case (snoc a' c)
  then have "edit_rep (l\<lparr>l_pos := l_pos l - 1\<rparr>) a' (c # b)" using assms(1) by (auto simp: edit_rep_def)
  then show ?thesis
    using line.edits_refresh [OF _ assms(2)] assms(1) snoc by (auto simp: linenoiseEditMoveLeft_def edit_rep_def)
qed

lemma MoveRight_edits:
  assumes "edit_rep l a b" "display_ok t l"
  shows "edits t l (if b = [] then (a, b) else (a @ [hd b], tl b)) (linenoiseEditMoveRight t l)"
proof (cases b)
  case Nil
  then show ?thesis using assms edits_same by (auto simp: linenoiseEditMoveRight_def edit_rep_def)
next
  case (Cons c b')
  then have "edit_rep (l\<lparr>l_pos := l_pos l + 1\<rparr>) (a @ [c]) b'" using assms(1) by (auto simp: edit_rep_def)
  then show ?thesis
    using line.edits_refresh [OF _ assms(2)] assms(1) Cons by (auto simp: linenoiseEditMoveRight_def edit_rep_def)
qed

lemma MoveHome_edits:
  assumes "edit_rep l a b" "display_ok t l"
  shows "edits t l ([], a @ b) (linenoiseEditMoveHome t l)"
proof (cases "a = []")
  case True
  then show ?thesis using assms edits_same [of l a b t] by (auto simp: linenoiseEditMoveHome_def edit_rep_def)
next
  case False
  have "edit_rep (l\<lparr>l_pos := 0\<rparr>) [] (a @ b)" using assms(1) by (auto simp: edit_rep_def)
  then show ?thesis
    using line.edits_refresh [OF _ assms(2)] assms(1) False by (auto simp: linenoiseEditMoveHome_def edit_rep_def)
qed

lemma MoveEnd_edits:
  assumes "edit_rep l a b" "display_ok t l"
  shows "edits t l (a @ b, []) (linenoiseEditMoveEnd t l)"
proof (cases "b = []")
  case True
  then show ?thesis using assms edits_same [of l a b t] by (auto simp: linenoiseEditMoveEnd_def edit_rep_def)
next
  case False
  have "edit_rep (l\<lparr>l_pos := l_len l\<rparr>) (a @ b) []" using assms(1) by (auto simp: edit_rep_def)
  then show ?thesis
    using line.edits_refresh [OF _ assms(2)] assms(1) False by (auto simp: linenoiseEditMoveEnd_def edit_rep_def)
qed

text \<open>Moving the tail of the text to the left over a deleted part.\<close>

lemma memmove_left:
  "memmove (a @ w @ b @ rest) (length a) (length a + length w) (length b) = Some (a @ b @ drop (length b) (w @ b @ rest))"
  by (simp add: memmove_def blit_def)

lemma delete_one:
  assumes "edit_rep l a0 b0" "a @ c # b = a0 @ b0"
  shows "\<exists>m. memmove (l_buf l) (length a) (length a + 1) (length b) = Some m \<and>
    poke m (length a + length b) NUL = Some (a @ b @ NUL # tl (drop (length a + length b) m)) \<and> length m = length (l_buf l)"
proof -
  obtain rest where l: "l_buf l = a0 @ b0 @ NUL # rest" by (rule edit_repE [OF assms(1)])
  then have l': "l_buf l = a @ [c] @ b @ NUL # rest" using arg_cong [OF assms(2), of "\<lambda>x. x @ NUL # rest"] by simp
  let ?m = "a @ b @ drop (length b) ([c] @ b @ NUL # rest)"
  obtain y ys where y: "drop (length b) ([c] @ b @ NUL # rest) = y # ys"
    by (cases "drop (length b) ([c] @ b @ NUL # rest)") auto
  have "memmove (l_buf l) (length a) (length a + 1) (length b) = Some ?m"
    using memmove_left [of a "[c]" b "NUL # rest"] by (simp add: l')
  moreover have "poke ?m (length a + length b) NUL = Some (a @ b @ NUL # tl (drop (length a + length b) ?m))"
    unfolding y by (simp add: poke_def list_update_append)
  moreover have "length ?m = length (l_buf l)" by (simp add: l')
  ultimately show ?thesis by blast
qed

lemma Delete_edits:
  assumes "edit_rep l a b" "display_ok t l"
  shows "edits t l (a, tl b) (linenoiseEditDelete t l)"
proof (cases b)
  case Nil
  then show ?thesis using assms edits_same [of l a b t] by (auto simp: linenoiseEditDelete_def edit_rep_def)
next
  case (Cons c b')
  obtain m where m: "memmove (l_buf l) (length a) (length a + 1) (length b') = Some m"
      "poke m (length a + length b') NUL = Some (a @ b' @ NUL # tl (drop (length a + length b') m))" "length m = length (l_buf l)"
    using delete_one [OF assms(1), of a c b'] Cons by auto
  let ?l = "l\<lparr>l_buf := a @ b' @ NUL # tl (drop (length a + length b') m), l_len := l_len l - 1\<rparr>"
  have "length (a @ b' @ NUL # tl (drop (length a + length b') m)) = length m" using m(2) by (rule poke_length)
  then have "edit_rep ?l a b'" using assms(1) Cons m(3) by (auto simp: edit_rep_def)
  then have "edits t l (a, b') (refreshLine t ?l)" by (rule line.edits_refresh [OF _ assms(2)]) simp_all
  moreover have "linenoiseEditDelete t l = refreshLine t ?l"
    using assms(1) Cons m by (simp add: linenoiseEditDelete_def edit_rep_def)
  ultimately show ?thesis using Cons by simp
qed

lemma Backspace_edits:
  assumes "edit_rep l a b" "display_ok t l"
  shows "edits t l (butlast a, b) (linenoiseEditBackspace t l)"
proof (cases a rule: rev_cases)
  case Nil
  then show ?thesis using assms edits_same [of l a b t] by (auto simp: linenoiseEditBackspace_def edit_rep_def)
next
  case (snoc a' c)
  obtain m where m: "memmove (l_buf l) (length a') (length a' + 1) (length b) = Some m"
      "poke m (length a' + length b) NUL = Some (a' @ b @ NUL # tl (drop (length a' + length b) m))" "length m = length (l_buf l)"
    using delete_one [OF assms(1), of a' c b] snoc by auto
  let ?l = "l\<lparr>l_buf := a' @ b @ NUL # tl (drop (length a' + length b) m), l_pos := l_pos l - 1, l_len := l_len l - 1\<rparr>"
  have "length (a' @ b @ NUL # tl (drop (length a' + length b) m)) = length m" using m(2) by (rule poke_length)
  then have "edit_rep ?l a' b" using assms(1) snoc m(3) by (auto simp: edit_rep_def)
  then have "edits t l (a', b) (refreshLine t ?l)" by (rule line.edits_refresh [OF _ assms(2)]) simp_all
  moreover have "linenoiseEditBackspace t l = refreshLine t ?l"
    using assms(1) snoc m by (simp add: linenoiseEditBackspace_def edit_rep_def)
  ultimately show ?thesis using snoc by simp
qed

text \<open>Backwards over blanks, then over a word.\<close>

definition drop_word :: "string \<Rightarrow> string" where
  "drop_word a = rev (dropWhile (\<lambda>c. c \<noteq> CHR '' '') (dropWhile (\<lambda>c. c = CHR '' '') (rev a)))"

lemma back_while_eq: "back_while P (a @ rest) (length a) = Some (length (dropWhile P (rev a)))"
proof (induction a arbitrary: rest rule: rev_induct)
  case (snoc c a)
  have "peek (a @ c # rest) (length a) = Some c" by (simp add: peek_def)
  then show ?case using snoc.IH [of "c # rest"] by simp
qed simp

lemma rev_dropWhile_rev: "\<exists>w. a = rev (dropWhile P (rev a)) @ w"
  by (metis rev_append rev_rev_ident takeWhile_dropWhile_id)

lemma drop_word_prefix: obtains w where "a = drop_word a @ w"
  using rev_dropWhile_rev [of a "\<lambda>c. c = CHR '' ''"]
    rev_dropWhile_rev [of "rev (dropWhile (\<lambda>c. c = CHR '' '') (rev a))" "\<lambda>c. c \<noteq> CHR '' ''"]
  unfolding drop_word_def by (metis append.assoc rev_rev_ident)

lemma DeletePrevWord_edits:
  assumes "edit_rep l a b" "display_ok t l"
  shows "edits t l (drop_word a, b) (linenoiseEditDeletePrevWord t l)"
proof -
  obtain rest where l: "l_buf l = a @ b @ NUL # rest" "l_pos l = length a" "l_len l = length a + length b"
    by (rule edit_repE [OF assms(1)])
  obtain w where w: "a = drop_word a @ w" by (rule drop_word_prefix)
  obtain v where v: "a = rev (dropWhile (\<lambda>c. c = CHR '' '') (rev a)) @ v" using rev_dropWhile_rev by blast
  let ?a = "drop_word a" and ?s = "rev (dropWhile (\<lambda>c. c = CHR '' '') (rev a))"
  have b1: "back_while (\<lambda>c. c = CHR '' '') (l_buf l) (length a) = Some (length ?s)"
    using back_while_eq [of _ a "b @ NUL # rest"] by (simp add: l)
  have "l_buf l = ?s @ v @ b @ NUL # rest" using l(1) v by (metis append.assoc)
  then have b2: "back_while (\<lambda>c. c \<noteq> CHR '' '') (l_buf l) (length ?s) = Some (length ?a)"
    using back_while_eq [of _ ?s "v @ b @ NUL # rest"] by (simp add: drop_word_def)
  let ?m = "?a @ (b @ [NUL]) @ drop (length (b @ [NUL])) (w @ (b @ [NUL]) @ rest)"
  have buf: "l_buf l = ?a @ w @ (b @ [NUL]) @ rest" using l(1) arg_cong [OF w, of "\<lambda>x. x @ b @ NUL # rest"] by simp
  have la: "length a = length ?a + length w" using arg_cong [OF w, of length] by simp
  have mm: "memmove (l_buf l) (length ?a) (length a) (length b + 1) = Some ?m"
    using memmove_left [of ?a w "b @ [NUL]" rest] by (simp only: buf la) simp
  let ?l = "l\<lparr>l_buf := ?m, l_len := l_len l - (l_pos l - length ?a), l_pos := length ?a\<rparr>"
  have "set ?a \<subseteq> set a" using arg_cong [OF w, of set] by auto
  moreover have "length ?m = length (l_buf l)" unfolding buf by simp
  ultimately have "edit_rep ?l ?a b"
    using assms(1) la l by (intro edit_repI [of _ _ _ "drop (length (b @ [NUL])) (w @ (b @ [NUL]) @ rest)"]) (auto simp: edit_rep_def)
  then have "edits t l (?a, b) (refreshLine t ?l)" by (rule line.edits_refresh [OF _ assms(2)]) simp_all
  moreover have "linenoiseEditDeletePrevWord t l = refreshLine t ?l"
    using b1 b2 mm by (simp add: linenoiseEditDeletePrevWord_def l(2,3))
  ultimately show ?thesis by simp
qed

definition swap_chars :: "string \<Rightarrow> string \<Rightarrow> string \<times> string" where
  "swap_chars a b =
     (if a = [] \<or> b = [] then (a, b)
      else if tl b = [] then (butlast a @ b, [last a])
      else (butlast a @ [hd b, last a], tl b))"

lemma transpose_edits:
  assumes "edit_rep l a b" "display_ok t l"
  shows "edits t l (swap_chars a b) (edit_transpose t l)"
proof (cases "a = [] \<or> b = []")
  case True
  then show ?thesis using assms edits_same [of l a b t] by (auto simp: edit_transpose_def edit_rep_def swap_chars_def)
next
  case False
  obtain rest where l: "l_buf l = a @ b @ NUL # rest" "l_pos l = length a" "l_len l = length a + length b"
    by (rule edit_repE [OF assms(1)])
  obtain a' x where a: "a = a' @ [x]" using False by (cases a rule: rev_cases) auto
  obtain y b' where b: "b = y # b'" using False by (cases b) auto
  let ?buf = "a' @ y # x # b' @ NUL # rest"
  have pk: "peek (l_buf l) (length a') = Some x" "peek (l_buf l) (length a' + 1) = Some y"
    by (simp_all add: l a b peek_def nth_append)
  have po: "poke (l_buf l) (length a') y = Some (a' @ y # y # b' @ NUL # rest)"
      "poke (a' @ y # y # b' @ NUL # rest) (length a' + 1) x = Some ?buf"
    by (simp_all add: l a b poke_def list_update_append)
  let ?l = "l\<lparr>l_buf := ?buf, l_pos := (if b' = [] then length a' + 1 else length a' + 2)\<rparr>"
  have "edit_rep ?l (fst (swap_chars a b)) (snd (swap_chars a b))"
    using assms(1) l(1) by (auto simp: edit_rep_def a b swap_chars_def)
  then have "edits t l (fst (swap_chars a b), snd (swap_chars a b)) (refreshLine t ?l)"
    by (rule line.edits_refresh [OF _ assms(2)]) simp_all
  moreover have "edit_transpose t l = refreshLine t ?l"
    using pk po l by (auto simp: edit_transpose_def a b)
  ultimately show ?thesis by simp
qed

lemma clear_edits:
  assumes "edit_rep l a b" "display_ok t l"
  shows "edits t l ([], []) (edit_clear t l)"
proof -
  obtain rest where l: "l_buf l = a @ b @ NUL # rest" by (rule edit_repE [OF assms(1)])
  let ?l = "l\<lparr>l_buf := (l_buf l)[0 := NUL], l_pos := 0, l_len := 0\<rparr>"
  have "(l_buf l)[0 := NUL] = [] @ [] @ NUL # tl (l_buf l)" using l by (cases a; cases b) simp_all
  then have "edit_rep ?l [] []" using assms(1) by (intro edit_repI [of _ _ _ "tl (l_buf l)"]) (simp_all add: edit_rep_def)
  then have "edits t l ([], []) (refreshLine t ?l)" by (rule line.edits_refresh [OF _ assms(2)]) simp_all
  moreover have "poke (l_buf l) 0 NUL = Some ((l_buf l)[0 := NUL])" using l by (simp add: poke_def)
  ultimately show ?thesis by (simp add: edit_clear_def)
qed

lemma kill_edits:
  assumes "edit_rep l a b" "display_ok t l"
  shows "edits t l (a, []) (edit_kill t l)"
proof -
  obtain rest where l: "l_buf l = a @ b @ NUL # rest" "l_pos l = length a" by (rule edit_repE [OF assms(1)])
  let ?l = "l\<lparr>l_buf := a @ NUL # tl (b @ NUL # rest), l_len := l_pos l\<rparr>"
  have "poke (l_buf l) (l_pos l) NUL = Some (a @ NUL # tl (b @ NUL # rest))"
    by (cases b) (simp_all add: l poke_def list_update_append)
  moreover have "edit_rep ?l a []"
    using assms(1) l by (intro edit_repI [of _ _ _ "tl (b @ NUL # rest)"]) (auto simp: edit_rep_def)
  then have "edits t l (a, []) (refreshLine t ?l)" by (rule line.edits_refresh [OF _ assms(2)]) simp_all
  ultimately show ?thesis by (simp add: edit_kill_def)
qed

text \<open>Insertion: at the end of the text and in the middle, and nothing when the buffer is full.\<close>

lemma insert_buf:
  assumes "edit_rep l a b" "l_len l < l_buflen l" "c \<noteq> NUL"
  shows "\<exists>rest. (if b = [] then poke (l_buf l) (l_pos l) c
      else do { m \<leftarrow> memmove (l_buf l) (l_pos l + 1) (l_pos l) (l_len l - l_pos l); poke m (l_pos l) c }) = Some (a @ c # b @ rest) \<and>
    poke (a @ c # b @ rest) (l_len l + 1) NUL = Some (a @ c # b @ NUL # tl rest) \<and>
    length (a @ c # b @ NUL # tl rest) = length (l_buf l)"
proof -
  obtain rest where l: "l_buf l = a @ b @ NUL # rest" "l_pos l = length a" "l_len l = length a + length b"
      "l_buflen l = length a + length b + length rest"
    by (rule edit_repE [OF assms(1)])
  obtain r rs where rest: "rest = r # rs" using assms(2) l by (cases rest) auto
  have poke: "poke (a @ c # b @ rest) (l_len l + 1) NUL = Some (a @ c # b @ NUL # tl rest)"
    using list_update_append [of "a @ c # b" rest "length a + length b + 1" NUL] by (simp add: poke_def l rest)
  show ?thesis
  proof (cases b)
    case Nil
    then show ?thesis using poke by (intro exI [of _ rest]) (simp add: l poke_def list_update_append rest)
  next
    case (Cons y b')
    have "memmove (l_buf l) (l_pos l + 1) (l_pos l) (l_len l - l_pos l) = Some (a @ y # b @ rest)"
      by (simp add: memmove_def blit_def l rest Cons)
    moreover have "poke (a @ y # b @ rest) (l_pos l) c = Some (a @ c # b @ rest)"
      by (simp add: poke_def l list_update_append)
    ultimately show ?thesis using poke Cons by (intro exI [of _ rest]) (simp add: l rest)
  qed
qed

lemma Insert_edits:
  assumes "edit_rep l a b" "display_ok t l" "c \<noteq> NUL" "t_writes t"
  shows "\<exists>t' l'. linenoiseEditInsert t l c = Some (t', l', 0) \<and>
    edits t l (if l_len l < l_buflen l then (a @ [c], b) else (a, b)) (Some (t', l'))"
proof (cases "l_len l < l_buflen l")
  case False
  then show ?thesis using edits_same [OF assms(1)] by (simp add: linenoiseEditInsert_def)
next
  case True
  obtain rest where m: "(if b = [] then poke (l_buf l) (l_pos l) c
      else do { m \<leftarrow> memmove (l_buf l) (l_pos l + 1) (l_pos l) (l_len l - l_pos l); poke m (l_pos l) c }) = Some (a @ c # b @ rest)"
      "poke (a @ c # b @ rest) (l_len l + 1) NUL = Some (a @ c # b @ NUL # tl rest)"
      "length (a @ c # b @ NUL # tl rest) = length (l_buf l)"
    using insert_buf [OF assms(1) True assms(3)] by blast
  let ?l = "l\<lparr>l_buf := a @ c # b @ NUL # tl rest, l_pos := l_pos l + 1, l_len := l_len l + 1\<rparr>"
  have pos: "(l_len l = l_pos l) = (b = [])" using assms(1) by (simp add: edit_rep_def)
  have rep: "edit_rep ?l (a @ [c]) b"
    using assms(1,3) m(3) by (intro edit_repI [of _ _ _ "tl rest"]) (auto simp: edit_rep_def)
  have ref: "edits t l (a @ [c], b) (refreshLine t ?l)" by (rule line.edits_refresh [OF rep assms(2)]) simp_all
  let ?quick = "b = [] \<and> \<not> mlmode t \<and> length (l_prompt l) + (l_len l + 1) < l_cols l \<and> hintsCallback t = None"
  show ?thesis
  proof (cases ?quick)
    case q: True
    then have "linenoiseEditInsert t l c = Some (term_write t [if maskmode t then CHR ''*'' else c], ?l, 0)"
      using True pos m assms(4) by (simp add: linenoiseEditInsert_def)
    then show ?thesis using True rep term_write_frame by (auto simp: edits_def)
  next
    case q: False
    then have "linenoiseEditInsert t l c = map_option (\<lambda>(t, l). (t, l, 0)) (refreshLine t ?l)"
      using True pos m by (cases "b = []") (auto simp: linenoiseEditInsert_def split: Option.bind_split_asm)
    then show ?thesis using ref True by (auto simp: edits_def)
  qed
qed

section \<open>Keys\<close>

text \<open>What a key does to the text around the cursor, for the keys that neither end the session nor use
  the history, an escape sequence or completion.\<close>

definition key_spec :: "nat \<Rightarrow> char \<Rightarrow> string \<times> string \<Rightarrow> string \<times> string" where
  "key_spec cap c ab = (case ab of (a, b) \<Rightarrow>
     if c = CHR 0x7F \<or> c = CHR 0x08 then (butlast a, b)
     else if c = CHR 0x14 then swap_chars a b
     else if c = CHR 0x02 then (if a = [] then (a, b) else (butlast a, last a # b))
     else if c = CHR 0x06 then (if b = [] then (a, b) else (a @ [hd b], tl b))
     else if c = CHR 0x15 then ([], [])
     else if c = CHR 0x0B then (a, [])
     else if c = CHR 0x01 then ([], a @ b)
     else if c = CHR 0x05 then (a @ b, [])
     else if c = CHR 0x0C then (a, b)
     else if c = CHR 0x17 then (drop_word a, b)
     else if length a + length b < cap then (a @ [c], b) else (a, b))"

definition plain_key :: "tty \<Rightarrow> char \<Rightarrow> bool" where
  "plain_key t c \<longleftrightarrow> c \<notin> {NUL, CHR 0x0D, CHR 0x03, CHR 0x04, CHR 0x10, CHR 0x0E, ESC} \<and>
     (c = CHR 0x09 \<longrightarrow> completionCallback t = None)"

lemma edits_SomeE:
  assumes "edits t l (a, b) r"
  obtains t' l' where "r = Some (t', l')" "t' = t\<lparr>t_out := t_out t'\<rparr>" "edit_rep l' a b" "l_buflen l' = l_buflen l"
    "l_prompt l' = l_prompt l" "l_cols l' = l_cols l" "l_history_index l' = l_history_index l"
  using assms by (auto simp: edits_def)

lemma edits_tty: "edits (t\<lparr>t_out := s\<rparr>) l ab r \<Longrightarrow> edits t l ab r"
  by (auto simp: edits_def)

lemma edit_turn_plain:
  assumes rep: "edit_rep l a b" and dis: "display_ok t l" and wr: "t_writes t" and key: "plain_key t c"
  shows "\<exists>t' l'. edit_turn t l c inp = Some (Again t' l' inp) \<and> edits t l (key_spec (l_buflen l) c (a, b)) (Some (t', l'))"
proof -
  have none: "(if c = CHR 0x09 then completionCallback t else None) = None" using key by (simp add: plain_key_def)
  have turn: "edit_turn t l c inp = edit_key t l c inp" by (simp add: edit_turn_def none del: if_split_asm)
  have len: "l_len l = length a + length b" using rep by (simp add: edit_rep_def)
  have agn: "edits t l ab r \<Longrightarrow> edit_key t l c inp = again inp r \<Longrightarrow> ab = key_spec (l_buflen l) c (a, b) \<Longrightarrow> ?thesis" for ab r
    unfolding turn by (auto simp: edits_def again_def)
  have cl: "edits t l (a, b) (refreshLine (linenoiseClearScreen t) l)"
  proof -
    have "linenoiseClearScreen t = t\<lparr>t_out := t_out (linenoiseClearScreen t)\<rparr>"
      unfolding linenoiseClearScreen_def by (rule term_write_frame)
    moreover have "edits (linenoiseClearScreen t) l (a, b) (refreshLine (linenoiseClearScreen t) l)"
      by (rule line.edits_refresh [OF rep]) (use dis in \<open>simp_all add: display_ok_def linenoiseClearScreen_def term_write_def\<close>)
    ultimately show ?thesis by (metis edits_tty)
  qed
  show ?thesis
  proof (cases "c \<in> {CHR 0x7F, CHR 0x08, CHR 0x14, CHR 0x02, CHR 0x06, CHR 0x15, CHR 0x0B, CHR 0x01, CHR 0x05, CHR 0x0C, CHR 0x17}")
    case True
    then show ?thesis
    proof (elim insertE emptyE)
      assume "c = CHR 0x7F" then show ?thesis
        using agn [OF Backspace_edits [OF rep dis]] by (simp add: edit_key_def key_spec_def)
    next
      assume "c = CHR 0x08" then show ?thesis
        using agn [OF Backspace_edits [OF rep dis]] by (simp add: edit_key_def key_spec_def)
    next
      assume "c = CHR 0x14" then show ?thesis
        using agn [OF transpose_edits [OF rep dis]] by (simp add: edit_key_def key_spec_def)
    next
      assume "c = CHR 0x02" then show ?thesis
        using agn [OF MoveLeft_edits [OF rep dis]] by (simp add: edit_key_def key_spec_def)
    next
      assume "c = CHR 0x06" then show ?thesis
        using agn [OF MoveRight_edits [OF rep dis]] by (simp add: edit_key_def key_spec_def)
    next
      assume "c = CHR 0x15" then show ?thesis
        using agn [OF clear_edits [OF rep dis]] by (simp add: edit_key_def key_spec_def)
    next
      assume "c = CHR 0x0B" then show ?thesis
        using agn [OF kill_edits [OF rep dis]] by (simp add: edit_key_def key_spec_def)
    next
      assume "c = CHR 0x01" then show ?thesis
        using agn [OF MoveHome_edits [OF rep dis]] by (simp add: edit_key_def key_spec_def)
    next
      assume "c = CHR 0x05" then show ?thesis
        using agn [OF MoveEnd_edits [OF rep dis]] by (simp add: edit_key_def key_spec_def)
    next
      assume "c = CHR 0x0C" then show ?thesis
        using agn [OF cl] by (simp add: edit_key_def key_spec_def)
    next
      assume "c = CHR 0x17" then show ?thesis
        using agn [OF DeletePrevWord_edits [OF rep dis]] by (simp add: edit_key_def key_spec_def)
    qed
  next
    case False
    have "c \<noteq> NUL" using key by (simp add: plain_key_def)
    then obtain t' l' where "linenoiseEditInsert t l c = Some (t', l', 0)"
        "edits t l (if l_len l < l_buflen l then (a @ [c], b) else (a, b)) (Some (t', l'))"
      using Insert_edits [OF rep dis _ wr] by blast
    then show ?thesis
      using False key by (simp add: turn edit_key_def key_spec_def plain_key_def len)
  qed
qed

text \<open>Any sequence of such keys.\<close>

lemma edit_loop_plain:
  "edit_rep l a b \<Longrightarrow> display_ok t l \<Longrightarrow> t_writes t \<Longrightarrow> \<forall>c \<in> set ks. plain_key t c \<Longrightarrow>
   \<exists>t' l'. edit_loop t l (map Some ks @ inp) = edit_loop t' l' inp \<and>
     edits t l (fold (key_spec (l_buflen l)) ks (a, b)) (Some (t', l'))"
proof (induction ks arbitrary: t l a b)
  case Nil
  then show ?case using edits_same [OF Nil.prems(1)] by auto
next
  case (Cons c ks)
  obtain t1 l1 where turn: "edit_turn t l c (map Some ks @ inp) = Some (Again t1 l1 (map Some ks @ inp))"
      and ed: "edits t l (key_spec (l_buflen l) c (a, b)) (Some (t1, l1))"
    using edit_turn_plain [OF Cons.prems(1-3)] Cons.prems(4) by force
  obtain a1 b1 where ks: "key_spec (l_buflen l) c (a, b) = (a1, b1)" by (cases "key_spec (l_buflen l) c (a, b)")
  have t1: "t1 = t\<lparr>t_out := t_out t1\<rparr>" "edit_rep l1 a1 b1" "l_buflen l1 = l_buflen l" "l_prompt l1 = l_prompt l"
      "l_cols l1 = l_cols l" "l_history_index l1 = l_history_index l"
    using ed ks by (auto simp: edits_def)
  have fields: "mlmode t1 = mlmode t" "t_writes t1 = t_writes t" "completionCallback t1 = completionCallback t"
    using t1(1) by (metis tty.select_convs tty.surjective tty.update_convs)+
  have "\<exists>t' l'. edit_loop t1 l1 (map Some ks @ inp) = edit_loop t' l' inp \<and>
      edits t1 l1 (fold (key_spec (l_buflen l1)) ks (a1, b1)) (Some (t', l'))"
    by (rule Cons.IH [OF t1(2)])
      (use Cons.prems fields t1 display_ok_cong [of t1 t l1 l] in \<open>auto simp: plain_key_def\<close>)
  then obtain t' l' where "edit_loop t1 l1 (map Some ks @ inp) = edit_loop t' l' inp"
      and ed': "edits t1 l1 (fold (key_spec (l_buflen l)) ks (a1, b1)) (Some (t', l'))"
    using t1(3) by auto
  moreover have "edits t l (fold (key_spec (l_buflen l)) ks (a1, b1)) (Some (t', l'))"
    using ed' t1 by (auto simp: edits_def) (metis tty.surjective tty.update_convs(6))
  ultimately show ?case using turn ks by auto
qed

section \<open>History navigation\<close>

lemma strncpy_line:
  assumes "length m = n + 1" "0 < n" "NUL \<notin> set line"
  shows "\<exists>b rest. strncpy m 0 line n = Some b \<and> poke b (n - 1) NUL = Some (take (n - 1) line @ NUL # rest) \<and>
    length (take (n - 1) line @ NUL # rest) = n + 1"
proof -
  define b where "b = strncpy_bytes line n @ drop n m"
  have s: "strncpy m 0 line n = Some b" using assms(1) by (simp add: strncpy_def blit_def b_def)
  have len: "length b = n + 1" using assms(1) by (simp add: b_def)
  have "\<exists>rest. b[n - 1 := NUL] = take (n - 1) line @ NUL # rest"
  proof (cases "length line < n")
    case True
    have "\<not> n - 1 < length line" using True by linarith
    have "b[n - 1 := NUL] = line @ (NUL # replicate (n - length line - 1) NUL @ drop n m)[n - 1 - length line := NUL]"
      using True \<open>\<not> n - 1 < length line\<close> by (simp add: b_def strncpy_bytes_split list_update_append)
    also have "\<dots> = line @ NUL # tl ((NUL # replicate (n - length line - 1) NUL @ drop n m)[n - 1 - length line := NUL])"
      by (cases "n - 1 - length line") simp_all
    finally show ?thesis using True by auto
  next
    case False
    then have "strncpy_bytes line n = take (n - 1) line @ [line ! (n - 1)]"
      using assms(2) take_Suc_conv_app_nth [of "n - 1" line] by (simp add: strncpy_bytes_def)
    then have "b[n - 1 := NUL] = take (n - 1) line @ NUL # drop n m"
      using False by (simp add: b_def list_update_append)
    then show ?thesis by blast
  qed
  then obtain rest where r: "b[n - 1 := NUL] = take (n - 1) line @ NUL # rest" by blast
  then have "length (take (n - 1) line @ NUL # rest) = n + 1" using len by (metis length_list_update)
  then show ?thesis using s r len by (auto simp: poke_def)
qed

lemma hist_index_eq: "0 \<le> i \<Longrightarrow> i < int (h_len h) \<Longrightarrow> hist_index h i = Some (h_len h - 1 - nat i)"
  by (auto simp: hist_index_def Let_def)

lemma hist_rep_update:
  assumes "hist_rep h ls" "h_lines h = Some arr" "j < length ls"
  shows "poke arr j (Some x) = Some (arr[j := Some x])" "hist_rep (h\<lparr>h_lines := Some (arr[j := Some x])\<rparr>) (ls[j := x])"
    "k < length ls \<Longrightarrow> peek (arr[j := Some x]) k = Some (Some (ls[j := x] ! k))"
proof -
  have arr: "length ls \<le> length arr" "take (length ls) arr = map Some ls" "length arr = h_max h" "h_len h = length ls"
    using assms(1,2) by (auto simp: hist_rep_def)
  have upd: "take (length ls) (arr[j := Some x]) = map Some (ls[j := x])"
    using arr(2) by (simp add: take_update_swap map_update)
  show "poke arr j (Some x) = Some (arr[j := Some x])" using arr assms(3) by (simp add: poke_def)
  show "hist_rep (h\<lparr>h_lines := Some (arr[j := Some x])\<rparr>) (ls[j := x])"
    using assms(1) arr upd by (simp add: hist_rep_def)
  show "peek (arr[j := Some x]) k = Some (Some (ls[j := x] ! k))" if "k < length ls"
  proof -
    have "arr[j := Some x] ! k = take (length ls) (arr[j := Some x]) ! k" using that by simp
    also have "\<dots> = Some (ls[j := x] ! k)" unfolding upd using that by simp
    finally show ?thesis using that arr(1) by (simp add: peek_def)
  qed
qed

lemma HistoryNext_ok:
  assumes rep: "edit_rep l a b" and dis: "display_ok t l" and hist: "hist_rep (t_hist t) ls" "1 < length ls"
    and clean: "\<forall>x \<in> set ls. NUL \<notin> set x" and idx: "0 \<le> l_history_index l" "l_history_index l < int (length ls)"
    and n: "0 < l_buflen l"
    and i': "i' = l_history_index l + (if dir = LINENOISE_HISTORY_PREV then 1 else - 1)"
    and ls': "ls' = ls[length ls - 1 - nat (l_history_index l) := a @ b]"
  shows "\<exists>t' l'. linenoiseEditHistoryNext t l dir = Some (t', l') \<and> hist_rep (t_hist t') ls' \<and>
    (if 0 \<le> i' \<and> i' < int (length ls)
     then edit_rep l' (take (l_buflen l - 1) (ls' ! (length ls - 1 - nat i'))) [] \<and> l_history_index l' = i'
     else edit_rep l' a b \<and> l_history_index l' = l_history_index l)"
proof -
  let ?j = "length ls - 1 - nat (l_history_index l)"
  obtain arr where arr: "h_lines (t_hist t) = Some arr" "h_len (t_hist t) = length ls"
    using hist by (auto simp: hist_rep_def split: option.splits)
  have j: "?j < length ls" using hist(2) by linarith
  note upd = hist_rep_update [OF hist(1) arr(1) j, where x = "a @ b"]
  let ?arr = "arr[?j := Some (a @ b)]"
  define t1 where "t1 = t\<lparr>t_hist := (t_hist t)\<lparr>h_lines := Some ?arr\<rparr>\<rparr>"
  have h1: "hist_rep (t_hist t1) ls'" using upd(2) by (simp add: t1_def ls')
  have hi: "hist_index (t_hist t) (l_history_index l) = Some ?j" using idx arr(2) by (simp add: hist_index_eq)
  show ?thesis
  proof (cases "0 \<le> i' \<and> i' < int (length ls)")
    case False
    then have "linenoiseEditHistoryNext t l dir = Some (t1, l\<lparr>l_history_index := l_history_index l\<rparr>)"
      using arr hist(2) hi upd(1) edit_rep_cstr [OF rep] idx i'
      by (auto simp: linenoiseEditHistoryNext_def Let_def t1_def)
    then show ?thesis using False h1 rep by (intro exI [of _ t1] exI [of _ l]) auto
  next
    case True
    let ?k = "length ls - 1 - nat i'" and ?line = "ls' ! (length ls - 1 - nat i')"
    have k: "?k < length ls" using hist(2) by linarith
    have "NUL \<notin> set ?line"
      using clean rep k nth_mem [of ?k ls'] set_update_subset_insert [of ls ?j "a @ b"]
      by (auto simp: ls' edit_rep_def nth_list_update)
    then obtain m rest where m: "strncpy (l_buf l) 0 ?line (l_buflen l) = Some m"
        "poke m (l_buflen l - 1) NUL = Some (take (l_buflen l - 1) ?line @ NUL # rest)"
        "length (take (l_buflen l - 1) ?line @ NUL # rest) = l_buflen l + 1"
      using strncpy_line [of "l_buf l" "l_buflen l" ?line] rep n by (auto simp: edit_rep_def)
    let ?x = "take (l_buflen l - 1) ?line"
    have nul: "NUL \<notin> set ?x" using \<open>NUL \<notin> set ?line\<close> by (meson in_set_takeD)
    let ?l = "l\<lparr>l_buf := ?x @ NUL # rest, l_history_index := i', l_len := length ?x, l_pos := length ?x\<rparr>"
    have rep': "edit_rep ?l ?x []" using m(3) nul by (intro edit_repI [of _ _ _ rest]) simp_all
    have "display_ok t1 ?l" using dis by (simp add: display_ok_def t1_def)
    then obtain t' l' where r: "refreshLine t1 ?l = Some (t', l')" and fr: "frame t1 ?l t' l'"
      using line.refresh_frame [OF rep'] by blast
    have out: "edit_rep l' ?x []" "t_hist t' = t_hist t1" "l_history_index l' = i'"
      using frame_rep [OF fr rep'] frame_fields [OF fr] by simp_all
    have "cstr (?x @ NUL # rest) 0 = Some ?x" using nul by (intro cstr_append) (simp add: is_cstring_def)
    moreover have "peek ?arr ?k = Some (Some ?line)" using upd(3) [OF k] by (simp add: ls')
    moreover have "hist_index (t_hist t1) i' = Some ?k" using True arr(2) by (simp add: hist_index_eq t1_def)
    ultimately have "linenoiseEditHistoryNext t l dir = refreshLine t1 ?l"
      using True arr hist(2) hi upd(1) edit_rep_cstr [OF rep] i' m(1,2) n
      by (simp add: linenoiseEditHistoryNext_def Let_def t1_def)
    then show ?thesis using r out h1 True by simp
  qed
qed

section \<open>A whole session\<close>

lemma edit_enter_ok:
  assumes rep: "edit_rep l a b" and dis: "display_ok t l" and h: "h_len (t_hist t) \<noteq> 0" "h_lines (t_hist t) \<noteq> None"
  shows "\<exists>t' l' a' b'. edit_enter t l = Some (t', l') \<and> edit_rep l' a' b' \<and> a' @ b' = a @ b \<and>
    t_hist t' = (t_hist t)\<lparr>h_len := h_len (t_hist t) - 1\<rparr>"
proof -
  define t1 where "t1 = t\<lparr>t_hist := (t_hist t)\<lparr>h_len := h_len (t_hist t) - 1\<rparr>\<rparr>"
  have d: "drop_newest t = Some t1" using h by (simp add: drop_newest_def t1_def)
  have dis1: "display_ok t1 l" using dis by (simp add: display_ok_def t1_def)
  obtain t2 l2 a2 b2 where s2: "(if mlmode t1 then linenoiseEditMoveEnd t1 l else Some (t1, l)) = Some (t2, l2)"
      and ed2: "edits t1 l (a2, b2) (Some (t2, l2))" and ab: "a2 @ b2 = a @ b"
  proof (cases "mlmode t1")
    case True
    obtain t2 l2 where "linenoiseEditMoveEnd t1 l = Some (t2, l2)" "edits t1 l (a @ b, []) (Some (t2, l2))"
      using MoveEnd_edits [OF rep dis1] by (auto simp: edits_def)
    then show ?thesis using that True by simp
  next
    case False
    then show ?thesis using that edits_same [OF rep, of t1] by simp
  qed
  have t2: "t_hist t2 = t_hist t1" "mlmode t2 = mlmode t1" "edit_rep l2 a2 b2" "display_ok t2 l2"
    using ed2 dis1 unfolding edits_def by (auto simp: display_ok_def) (metis tty.select_convs tty.surjective tty.update_convs)+
  have hist: "t_hist t2 = (t_hist t)\<lparr>h_len := h_len (t_hist t) - 1\<rparr>" using t2(1) by (simp add: t1_def)
  show ?thesis
  proof (cases "hintsCallback t2")
    case None
    then have "edit_enter t l = Some (t2, l2)" by (simp add: edit_enter_def d s2)
    then show ?thesis using t2(3) ab hist by blast
  next
    case (Some hc)
    have "display_ok (t2\<lparr>hintsCallback := None\<rparr>) l2" using t2(4) by (simp add: display_ok_def)
    then obtain t3 l3 where r: "refreshLine (t2\<lparr>hintsCallback := None\<rparr>) l2 = Some (t3, l3)"
        and fr: "frame (t2\<lparr>hintsCallback := None\<rparr>) l2 t3 l3"
      using line.refresh_frame [OF t2(3)] by blast
    have "edit_rep l3 a2 b2" by (rule frame_rep [OF fr t2(3)])
    moreover have "t_hist t3 = t_hist t2" using frame_fields(1) [OF fr] by simp
    moreover have "edit_enter t l = Some (t3\<lparr>hintsCallback := Some hc\<rparr>, l3)" by (simp add: edit_enter_def d s2 Some r)
    ultimately show ?thesis using ab hist by (metis tty.select_convs(5) tty.surjective tty.update_convs(3))
  qed
qed

lemma add_spec_ne: "mx \<noteq> 0 \<Longrightarrow> add_spec mx line ls \<noteq> []"
  by (auto simp: add_spec_def keep_last_def)

lemma drop_newest_rep:
  assumes "hist_rep h ls" "ls \<noteq> []"
  shows "hist_rep (h\<lparr>h_len := h_len h - 1\<rparr>) (butlast ls)" "h_len h \<noteq> 0" "h_lines h \<noteq> None"
  using assms by (auto simp: hist_rep_def butlast_conv_take take_map split: option.splits)
    (metis (no_types) take_map take_take min.absorb1 diff_le_self)

lemma linenoiseEdit_start:
  assumes "hist_rep (t_hist t) hs" "h_max (t_hist t) \<noteq> 0" "t_writes t" "buf \<noteq> []"
  shows "\<exists>t0 l0. linenoiseEdit t buf prompt cols inp = edit_loop t0 l0 inp \<and> edit_rep l0 [] [] \<and>
    hist_rep (t_hist t0) (add_spec (h_max (t_hist t)) [] hs) \<and> t_writes t0 \<and> mlmode t0 = mlmode t \<and>
    completionCallback t0 = completionCallback t \<and> l_buflen l0 = length buf - 1 \<and> l_prompt l0 = prompt \<and> l_cols l0 = cols"
proof -
  obtain h r where add: "linenoiseHistoryAdd [] (t_hist t) = Some (h, r)" "hist_rep h (add_spec (h_max (t_hist t)) [] hs)"
    using linenoiseHistoryAdd_rep [OF assms(1,2)] by blast
  obtain b bs where buf: "buf = b # bs" using assms(4) by (cases buf) auto
  let ?l = "\<lparr>l_buf = NUL # bs, l_buflen = length buf - 1, l_prompt = prompt, l_pos = 0, l_oldpos = 0, l_len = 0,
              l_cols = cols, l_maxrows = 0, l_history_index = 0\<rparr>"
  have "linenoiseEdit t buf prompt cols inp = edit_loop (term_write (t\<lparr>t_hist := h\<rparr>) prompt) ?l inp"
    using assms(3) add(1) by (simp add: linenoiseEdit_def poke_def buf)
  moreover have "edit_rep ?l [] []" by (simp add: edit_rep_def buf)
  ultimately show ?thesis using add(2) assms(3)
    by (intro exI [of _ "term_write (t\<lparr>t_hist := h\<rparr>) prompt"] exI [of _ ?l]) (simp add: term_write_def)
qed

lemma linenoise_session_ok:
  assumes hist: "hist_rep (t_hist t) hs" "h_max (t_hist t) \<noteq> 0" and wr: "t_writes t"
    and disp: "if mlmode t then 0 < cols else length prompt < cols" "cols < 2 ^ 31" "length prompt < 2 ^ 30"
    and keys: "\<forall>c \<in> set ks. plain_key t c"
    and ab: "fold (key_spec 4095) ks ([], []) = (a, b)"
  shows "\<exists>t'. linenoise_tty True t junk prompt cols (map Some ks @ Some CR # inp) = Some (t', Some (a @ b), inp) \<and>
    length (a @ b) \<le> 4095 \<and> hist_rep (t_hist t') (butlast (add_spec (h_max (t_hist t)) [] hs))"
proof -
  let ?buf = "replicate LINENOISE_MAX_LINE junk" and ?inp = "map Some ks @ Some CR # inp"
  obtain t0 l0 where start: "linenoiseEdit t ?buf prompt cols ?inp = edit_loop t0 l0 ?inp" "edit_rep l0 [] []"
      "hist_rep (t_hist t0) (add_spec (h_max (t_hist t)) [] hs)" "t_writes t0" "mlmode t0 = mlmode t"
      "completionCallback t0 = completionCallback t" "l_buflen l0 = 4095" "l_prompt l0 = prompt" "l_cols l0 = cols"
    using linenoiseEdit_start [OF hist wr, of ?buf prompt cols ?inp] by auto
  have dis0: "display_ok t0 l0" using disp start by (auto simp: display_ok_def)
  have "\<forall>c \<in> set ks. plain_key t0 c" using keys start(6) by (simp add: plain_key_def)
  then obtain t1 l1 where run: "edit_loop t0 l0 ?inp = edit_loop t1 l1 (Some CR # inp)"
      and ed: "edits t0 l0 (a, b) (Some (t1, l1))"
    using edit_loop_plain [OF start(2) dis0 start(4), of ks "Some CR # inp"] ab start(7) by auto
  have t1: "t_hist t1 = t_hist t0" "mlmode t1 = mlmode t0" "edit_rep l1 a b" "l_buflen l1 = l_buflen l0"
      "l_prompt l1 = l_prompt l0" "l_cols l1 = l_cols l0"
    using ed unfolding edits_def by (auto) (metis tty.select_convs tty.surjective tty.update_convs)+
  have dis1: "display_ok t1 l1" using dis0 t1 by (simp add: display_ok_def)
  have rep1: "hist_rep (t_hist t1) (add_spec (h_max (t_hist t)) [] hs)" using start(3) t1(1) by simp
  note pop = drop_newest_rep [OF rep1 add_spec_ne [OF hist(2)]]
  obtain t2 l2 a' b' where ent: "edit_enter t1 l1 = Some (t2, l2)" "edit_rep l2 a' b'" "a' @ b' = a @ b"
      "t_hist t2 = (t_hist t1)\<lparr>h_len := h_len (t_hist t1) - 1\<rparr>"
    using edit_enter_ok [OF t1(3) dis1 pop(2,3)] by blast
  have turn: "edit_turn t1 l1 CR inp = Some (Return t2 l2 (int (l_len l2)) inp)"
    by (simp add: edit_turn_def edit_key_def ent(1))
  have "linenoiseEdit t ?buf prompt cols ?inp = Some (t2, l2, int (l_len l2), inp)"
    using start(1) run turn by simp
  then have raw: "linenoiseRaw True t ?buf prompt cols ?inp = Some (term_write t2 [NL], l_buf l2, int (l_len l2), inp)"
    by (simp add: linenoiseRaw_def)
  have "linenoise_tty True t junk prompt cols ?inp = Some (term_write t2 [NL], Some (a @ b), inp)"
    unfolding linenoise_tty_def raw using edit_rep_cstr [OF ent(2)] ent(3) by simp
  moreover have "length (a @ b) \<le> 4095" using t1(3,4) start(7) by (auto elim!: edit_repE)
  moreover have "hist_rep (t_hist (term_write t2 [NL])) (butlast (add_spec (h_max (t_hist t)) [] hs))"
    using pop(1) ent(4) by (simp add: term_write_def)
  ultimately show ?thesis by blast
qed

section \<open>Input that is not a terminal\<close>

lemma notty_grow:
  assumes "take len line = pre" "length pre = len" "len < length line \<or> (len = 0 \<and> line = []) \<or> len = length line"
  shows "\<exists>r rest. grow_line junk line len = pre @ r # rest"
proof (cases "len = length line")
  case True
  obtain k where k: "(if len = 0 then 32 else len) = Suc k"
    by (cases "if len = 0 then 32 else len") (auto split: if_splits)
  have "grow_line junk line len = pre @ replicate (Suc k) junk"
    using assms True unfolding grow_line_def k by simp
  then show ?thesis by simp
next
  case False
  then have "line = pre @ line ! len # drop (len + 1) line"
    using assms id_take_nth_drop [of len line] by auto
  then show ?thesis using False by (auto simp: grow_line_def)
qed

lemma notty_loop_line:
  assumes "take len line = pre" "length pre = len" "len < length line \<or> (len = 0 \<and> line = []) \<or> len = length line"
    "pre @ inp \<noteq> []"
  shows "\<exists>m. notty_loop junk line len inp = Some (Some m, drop (length (takeWhile (\<lambda>c. c \<noteq> NL) inp) + 1) inp) \<and>
    (\<exists>rest. m = pre @ takeWhile (\<lambda>c. c \<noteq> NL) inp @ NUL # rest)"
  using assms
proof (induction inp arbitrary: line len pre)
  case Nil
  obtain r rest where g: "grow_line junk line len = pre @ r # rest"
    using notty_grow [OF Nil.prems(1-3), of junk] by blast
  have "len \<noteq> 0" using Nil.prems by auto
  moreover have "poke (pre @ r # rest) len NUL = Some (pre @ NUL # rest)"
    using Nil.prems(2) by (simp add: poke_def list_update_append)
  ultimately show ?case by (subst notty_loop.simps) (simp add: g)
next
  case (Cons c cs)
  obtain r rest where g: "grow_line junk line len = pre @ r # rest"
    using notty_grow [OF Cons.prems(1-3), of junk] by blast
  have poke: "poke (pre @ r # rest) len x = Some (pre @ x # rest)" for x
    using Cons.prems(2) by (simp add: poke_def list_update_append)
  show ?case
  proof (cases "c = NL")
    case True
    then show ?thesis by (subst notty_loop.simps) (simp add: g poke)
  next
    case False
    have "\<exists>m. notty_loop junk (pre @ c # rest) (len + 1) cs = Some (Some m, drop (length (takeWhile (\<lambda>c. c \<noteq> NL) cs) + 1) cs) \<and>
        (\<exists>rest. m = (pre @ [c]) @ takeWhile (\<lambda>c. c \<noteq> NL) cs @ NUL # rest)"
      by (rule Cons.IH) (use Cons.prems(2) in auto)
    then show ?thesis using False by (subst notty_loop.simps) (simp add: g poke)
  qed
qed

section \<open>Properties\<close>

text \<open>C7: a session of the line editor. On a terminal where the prompt leaves room for the cursor (or
  with any width in multi line mode), with any hints callback, mask mode or history, typing any
  sequence of plain keys (characters, deletions, cursor movements, transposition, cutting, clearing)
  and then Enter returns the text the keys stand for, never more than 4095 characters, without an
  access outside the buffer. The history keeps its lines, except that a full one has lost its oldest:
  the line that was typed is not in it.\<close>

theorem linenoise_session:
  assumes "hist_rep (t_hist t) hs" "h_max (t_hist t) \<noteq> 0" "t_writes t"
    and "if mlmode t then 0 < cols else length prompt < cols" "cols < 2 ^ 31" "length prompt < 2 ^ 30"
    and "\<forall>c \<in> set ks. plain_key t c" "fold (key_spec 4095) ks ([], []) = (a, b)"
  shows "\<exists>t'. linenoise_tty True t junk prompt cols (map Some ks @ Some CR # inp) = Some (t', Some (a @ b), inp) \<and>
    length (a @ b) \<le> 4095 \<and> hist_rep (t_hist t') (butlast (add_spec (h_max (t_hist t)) [] hs))"
  by (rule linenoise_session_ok [OF assms])

abbreviation sample_tty :: tty where
  "sample_tty \<equiv> \<lparr>maskmode = False, mlmode = False, hintsCallback = None, completionCallback = None,
     t_hist = hist_init, t_out = [], t_writes = True\<rparr>"

theorem linenoise_session_witness:
  "\<exists>t'. linenoise_tty True sample_tty NUL ''rkx>'' 80 (map Some [CHR ''l'', CHR ''x'', CHR 0x7F, CHR ''s''] @ Some CR # []) =
     Some (t', Some ''ls'', [])"
  using linenoise_session [of sample_tty "[]" 80 "''rkx>''" "[CHR ''l'', CHR ''x'', CHR 0x7F, CHR ''s'']" "''ls''" "[]" NUL "[]"]
  by (auto simp: hist_rep_def hist_init_def plain_key_def key_spec_def NUL_def)

text \<open>Moving through the history. The text being edited is stored in its entry of the history, and
  the next or previous entry, cut to the size of the buffer, is shown with the cursor at its end; at
  either end of the history nothing but the stored entry changes.\<close>

theorem history_navigation:
  assumes "edit_rep l a b" "display_ok t l" "hist_rep (t_hist t) ls" "1 < length ls" "\<forall>x \<in> set ls. NUL \<notin> set x"
    and "0 \<le> l_history_index l" "l_history_index l < int (length ls)" "0 < l_buflen l"
    and "i' = l_history_index l + (if dir = LINENOISE_HISTORY_PREV then 1 else - 1)"
    and "ls' = ls[length ls - 1 - nat (l_history_index l) := a @ b]"
  shows "\<exists>t' l'. linenoiseEditHistoryNext t l dir = Some (t', l') \<and> hist_rep (t_hist t') ls' \<and>
    (if 0 \<le> i' \<and> i' < int (length ls)
     then edit_rep l' (take (l_buflen l - 1) (ls' ! (length ls - 1 - nat i'))) [] \<and> l_history_index l' = i'
     else edit_rep l' a b \<and> l_history_index l' = l_history_index l)"
  by (rule HistoryNext_ok [OF assms])

abbreviation sample_line :: linenoiseState where
  "sample_line \<equiv> \<lparr>l_buf = ''xy'' @ NUL # replicate 8 NUL, l_buflen = 10, l_prompt = ''>'', l_pos = 2, l_oldpos = 0,
     l_len = 2, l_cols = 80, l_maxrows = 0, l_history_index = 0\<rparr>"

theorem history_navigation_witness:
  "\<exists>t' l'. linenoiseEditHistoryNext (sample_tty\<lparr>t_hist := \<lparr>h_lines = Some [Some ''ls'', Some []], h_len = 2, h_max = 2\<rparr>\<rparr>)
     sample_line LINENOISE_HISTORY_PREV = Some (t', l') \<and> hist_rep (t_hist t') [''ls'', ''xy''] \<and> edit_rep l' ''ls'' []"
  using history_navigation [of sample_line "''xy''" "[]" "sample_tty\<lparr>t_hist := \<lparr>h_lines = Some [Some ''ls'', Some []], h_len = 2, h_max = 2\<rparr>\<rparr>"
      "[''ls'', []]" 1 LINENOISE_HISTORY_PREV "[''ls'', ''xy'']"]
  by (auto simp: edit_rep_def display_ok_def hist_rep_def NUL_def)

text \<open>C39: the single line refresh writes the prompt, then a part of the line that contains the cursor
  and fits on the terminal row, and puts the cursor on its place in that part, always left of the
  right margin.\<close>

theorem refreshSingleLine_window:
  assumes "edit_rep l a b" "display_ok t l" "\<not> mlmode t" "hintsCallback t = None" "t_writes t"
  shows "\<exists>k col. refreshSingleLine t l = Some (t\<lparr>t_out := t_out t @ CR # l_prompt l @ shown t (window l) @
        [ESC, CHR ''['', CHR ''0'', CHR ''K''] @ [CR, ESC, CHR ''[''] @ sdec (int col) @ ''C''\<rparr>, l) \<and>
      col = length (l_prompt l) + (length a - k) \<and> col < l_cols l \<and> k \<le> length a \<and>
      length (l_prompt l) + length (window l) \<le> l_cols l \<and>
      window l = take (l_cols l - length (l_prompt l)) (drop k (a @ b))"
proof -
  have pos: "l_pos l = length a" "l_len l = length a + length b" "take (l_len l) (l_buf l) = a @ b"
    using assms(1) by (auto simp: edit_rep_def)
  have k: "window_shift l \<le> length a" using window_shift_le [OF assms(2,3)] pos(1) by simp
  have cols: "length (l_prompt l) < l_cols l" using assms(2,3) by (simp add: display_ok_def)
  have col: "length (l_prompt l) + l_pos l - window_shift l = length (l_prompt l) + (length a - window_shift l)"
    using k pos(1) by simp
  have lt: "length (l_prompt l) + (length a - window_shift l) < l_cols l"
    using cols by (simp add: window_shift_def pos(1))
  have win: "window l = take (l_cols l - length (l_prompt l)) (drop (window_shift l) (a @ b))"
    by (simp only: window_def pos(3))
  have "refreshSingleLine t l = Some (t\<lparr>t_out := t_out t @ CR # l_prompt l @ shown t (window l) @
        [ESC, CHR ''['', CHR ''0'', CHR ''K''] @ [CR, ESC, CHR ''[''] @
        sdec (int (length (l_prompt l) + (length a - window_shift l))) @ ''C''\<rparr>, l)"
    using refreshSingleLine_eq [OF assms(1-3)] assms(4,5) unfolding col by (auto simp: term_write_def)
  then show ?thesis
    using k lt win cols by (intro exI [of _ "window_shift l"] exI) (auto simp: win)
qed

theorem refreshSingleLine_window_witness:
  "\<exists>t'. refreshSingleLine sample_tty \<lparr>l_buf = ''abcdef'' @ [NUL, NUL], l_buflen = 7, l_prompt = ''>'', l_pos = 6, l_oldpos = 0,
       l_len = 6, l_cols = 4, l_maxrows = 0, l_history_index = 0\<rparr> =
     Some (t', \<lparr>l_buf = ''abcdef'' @ [NUL, NUL], l_buflen = 7, l_prompt = ''>'', l_pos = 6, l_oldpos = 0,
       l_len = 6, l_cols = 4, l_maxrows = 0, l_history_index = 0\<rparr>)"
  using refreshSingleLine_window [of "\<lparr>l_buf = ''abcdef'' @ [NUL, NUL], l_buflen = 7, l_prompt = ''>'', l_pos = 6, l_oldpos = 0,
       l_len = 6, l_cols = 4, l_maxrows = 0, l_history_index = 0\<rparr>" "''abcdef''" "[]" sample_tty]
  by (fastforce simp: edit_rep_def display_ok_def NUL_def)

text \<open>Input from a file or a pipe. Every call returns the next line, of any length, terminated and
  without its newline, and leaves the input after it; the buffer, doubled when it is full, is never
  overrun; only at the end of the input is there no line.\<close>

theorem linenoiseNoTTY_line:
  "linenoiseNoTTY junk [] = Some (None, []) \<and>
   (inp \<noteq> [] \<longrightarrow> (\<exists>m rest. linenoiseNoTTY junk inp = Some (Some m, drop (length (takeWhile (\<lambda>c. c \<noteq> NL) inp) + 1) inp) \<and>
      m = takeWhile (\<lambda>c. c \<noteq> NL) inp @ NUL # rest \<and> NL \<notin> set (takeWhile (\<lambda>c. c \<noteq> NL) inp)))"
proof -
  have "linenoiseNoTTY junk [] = Some (None, [])"
    by (simp add: linenoiseNoTTY_def notty_loop.simps)
  moreover have "NL \<notin> set (takeWhile (\<lambda>c. c \<noteq> NL) inp)" by (auto dest: set_takeWhileD)
  ultimately show ?thesis
    using notty_loop_line [of 0 "[]" "[]" inp junk] by (auto simp: linenoiseNoTTY_def)
qed

theorem linenoiseNoTTY_line_witness:
  "\<exists>m rest. linenoiseNoTTY NUL (''ls'' @ NL # ''cd'') = Some (Some m, ''cd'') \<and> m = ''ls'' @ NUL # rest"
  using linenoiseNoTTY_line [of NUL "''ls'' @ NL # ''cd''"] by auto

end
