(* ===== verification/Zmalloc.thy ===== *)
theory Zmalloc
  imports Prelude
begin

text \<open>
  The allocator wrapper of \<^verbatim>\<open>src/src/zmalloc.c\<close>. The C allocator below it is outside: every operation
  that allocates takes the allocator's answer (an address and the usable size of the block, or none)
  as an argument, and the heap records the live blocks. The parameter \<open>ms\<close> is the build setting
  \<^verbatim>\<open>HAVE_MALLOC_SIZE\<close>: with it (glibc) a block is counted with its usable size, without it with the
  size stored in a prefix of eight bytes. \<open>None\<close> is undefined behaviour.
\<close>

section \<open>State and accounting\<close>

record block =
  b_usable :: u64
  b_header :: u64

datatype oom_handler = Zmalloc_default_oom | Handler_returns

record zstate =
  used_memory :: u64
  z_heap :: "nat \<rightharpoonup> block"
  zmalloc_oom_handler :: oom_handler

datatype 'a zresult = Abort | Ok 'a zstate

type_synonym answer = "(nat \<times> u64) option"

definition z_init :: zstate where
  "z_init = \<lparr>used_memory = 0, z_heap = Map.empty, zmalloc_oom_handler = Zmalloc_default_oom\<rparr>"

definition PREFIX_SIZE :: "bool \<Rightarrow> nat" where
  "PREFIX_SIZE ms = (if ms then 0 else 8)"

text \<open>The macros compute a rounded size \<^verbatim>\<open>_n\<close> and then add the size as it was given.\<close>

definition update_zmalloc_stat_alloc :: "u64 \<Rightarrow> zstate \<Rightarrow> zstate" where
  "update_zmalloc_stat_alloc n s = s\<lparr>used_memory := used_memory s + n\<rparr>"

definition update_zmalloc_stat_free :: "u64 \<Rightarrow> zstate \<Rightarrow> zstate" where
  "update_zmalloc_stat_free n s = s\<lparr>used_memory := used_memory s - n\<rparr>"

text \<open>The default handler aborts. After one that returns, the code goes on with the null pointer (address
  0 here): \<^verbatim>\<open>malloc_usable_size\<close> of it is 0, but a header cannot be stored through it.\<close>

definition oom :: "bool \<Rightarrow> zstate \<Rightarrow> nat zresult option" where
  "oom ms s =
     (case zmalloc_oom_handler s of
        Zmalloc_default_oom \<Rightarrow> Some Abort
      | Handler_returns \<Rightarrow> (if ms then Some (Ok 0 (update_zmalloc_stat_alloc 0 s)) else None))"

section \<open>Operations\<close>

definition zmalloc :: "bool \<Rightarrow> answer \<Rightarrow> u64 \<Rightarrow> zstate \<Rightarrow> nat zresult option" where
  "zmalloc ms ans sz s =
     (case ans of
        None \<Rightarrow> oom ms s
      | Some (p, us) \<Rightarrow>
          (if ms then
             Some (Ok p (update_zmalloc_stat_alloc us (s\<lparr>z_heap := (z_heap s)(p \<mapsto> \<lparr>b_usable = us, b_header = 0\<rparr>)\<rparr>)))
           else
             Some (Ok (p + PREFIX_SIZE ms)
               (update_zmalloc_stat_alloc (sz + of_nat (PREFIX_SIZE ms))
                  (s\<lparr>z_heap := (z_heap s)(p \<mapsto> \<lparr>b_usable = us, b_header = sz\<rparr>)\<rparr>)))))"

text \<open>\<^verbatim>\<open>zcalloc\<close> differs in the contents of the block only.\<close>

definition zcalloc :: "bool \<Rightarrow> answer \<Rightarrow> u64 \<Rightarrow> zstate \<Rightarrow> nat zresult option" where
  "zcalloc ms ans sz s =
     (case ans of
        None \<Rightarrow> oom ms s
      | Some (p, us) \<Rightarrow>
          (if ms then
             Some (Ok p (update_zmalloc_stat_alloc us (s\<lparr>z_heap := (z_heap s)(p \<mapsto> \<lparr>b_usable = us, b_header = 0\<rparr>)\<rparr>)))
           else
             Some (Ok (p + PREFIX_SIZE ms)
               (update_zmalloc_stat_alloc (sz + of_nat (PREFIX_SIZE ms))
                  (s\<lparr>z_heap := (z_heap s)(p \<mapsto> \<lparr>b_usable = us, b_header = sz\<rparr>)\<rparr>)))))"

text \<open>The block a pointer of the program belongs to.\<close>

definition real_block :: "bool \<Rightarrow> nat \<Rightarrow> zstate \<Rightarrow> (nat \<times> block) option" where
  "real_block ms ptr s =
     (if ptr < PREFIX_SIZE ms then None
      else map_option (\<lambda>b. (ptr - PREFIX_SIZE ms, b)) (z_heap s (ptr - PREFIX_SIZE ms)))"

definition counted :: "bool \<Rightarrow> block \<Rightarrow> u64" where
  "counted ms b = (if ms then b_usable b else b_header b + of_nat (PREFIX_SIZE ms))"

definition zfree :: "bool \<Rightarrow> nat option \<Rightarrow> zstate \<Rightarrow> zstate option" where
  "zfree ms ptr s =
     (case ptr of
        None \<Rightarrow> Some s
      | Some q \<Rightarrow> do {
          (p, b) \<leftarrow> real_block ms q s;
          let s = update_zmalloc_stat_free (counted ms b) s;
          Some (s\<lparr>z_heap := (z_heap s)(p := None)\<rparr>)
        })"

text \<open>\<^verbatim>\<open>realloc\<close> releases the old block and answers with the new one, possibly at the same address. When it
  fails the old block stays, but a handler that returns lets the code take it off the counter.\<close>

definition zrealloc :: "bool \<Rightarrow> answer \<Rightarrow> nat option \<Rightarrow> u64 \<Rightarrow> zstate \<Rightarrow> nat zresult option" where
  "zrealloc ms ans ptr sz s =
     (case ptr of
        None \<Rightarrow> zmalloc ms ans sz s
      | Some q \<Rightarrow> do {
          (p, b) \<leftarrow> real_block ms q s;
          (case ans of
             None \<Rightarrow> oom ms (if zmalloc_oom_handler s = Zmalloc_default_oom then s else update_zmalloc_stat_free (counted ms b) s)
           | Some (p', us) \<Rightarrow> do {
               let b' = \<lparr>b_usable = us, b_header = (if ms then 0 else sz)\<rparr>;
               let s = s\<lparr>z_heap := ((z_heap s)(p := None))(p' \<mapsto> b')\<rparr>;
               let s = update_zmalloc_stat_free (counted ms b) s;
               let s = update_zmalloc_stat_alloc (counted ms b') s;
               Some (Ok (p' + PREFIX_SIZE ms) s)
             })
        })"

text \<open>The size of a block where the C library cannot tell it: the header, rounded up to whole words.\<close>

definition zmalloc_size :: "nat \<Rightarrow> zstate \<Rightarrow> u64 option" where
  "zmalloc_size ptr s = do {
     (_, b) \<leftarrow> real_block False ptr s;
     let sz = b_header b;
     let sz = (if sz AND 7 \<noteq> 0 then sz + (8 - (sz AND 7)) else sz);
     Some (sz + of_nat (PREFIX_SIZE False))
   }"

definition zmalloc_usable :: "nat \<Rightarrow> zstate \<Rightarrow> u64 option" where
  "zmalloc_usable ptr s = map_option (\<lambda>n. n - of_nat (PREFIX_SIZE False)) (zmalloc_size ptr s)"

text \<open>The copy of a string: a block for the characters and the terminator.\<close>

definition zstrdup :: "bool \<Rightarrow> answer \<Rightarrow> string \<Rightarrow> zstate \<Rightarrow> nat zresult option" where
  "zstrdup ms ans str s = zmalloc ms ans (of_nat (length str + 1)) s"

definition zmalloc_used_memory :: "zstate \<Rightarrow> u64" where
  "zmalloc_used_memory s = used_memory s"

definition zmalloc_set_oom_handler :: "oom_handler \<Rightarrow> zstate \<Rightarrow> zstate" where
  "zmalloc_set_oom_handler h s = s\<lparr>zmalloc_oom_handler := h\<rparr>"

text \<open>\<^verbatim>\<open>config.h\<close> of this program defines none of the system settings, so the estimates are these.\<close>

definition zmalloc_get_rss :: "zstate \<Rightarrow> u64" where
  "zmalloc_get_rss s = zmalloc_used_memory s"

section \<open>Accounting is exact\<close>

text \<open>The counter is the sum over the live blocks, modulo the width of \<^verbatim>\<open>size_t\<close>.\<close>

definition accounted :: "bool \<Rightarrow> zstate \<Rightarrow> bool" where
  "accounted ms s \<longleftrightarrow> finite (dom (z_heap s)) \<and> used_memory s = (\<Sum>p\<in>dom (z_heap s). counted ms (the (z_heap s p)))"

datatype zop = Op_malloc answer u64 | Op_calloc answer u64 | Op_realloc answer "nat option" u64 | Op_free "nat option"

definition run_zop :: "bool \<Rightarrow> zop \<Rightarrow> zstate \<Rightarrow> zstate option" where
  "run_zop ms oper s =
     (case oper of
        Op_malloc ans n \<Rightarrow> (case zmalloc ms ans n s of Some (Ok _ s') \<Rightarrow> Some s' | _ \<Rightarrow> None)
      | Op_calloc ans n \<Rightarrow> (case zcalloc ms ans n s of Some (Ok _ s') \<Rightarrow> Some s' | _ \<Rightarrow> None)
      | Op_realloc ans ptr n \<Rightarrow> (case zrealloc ms ans ptr n s of Some (Ok _ s') \<Rightarrow> Some s' | _ \<Rightarrow> None)
      | Op_free ptr \<Rightarrow> zfree ms ptr s)"

text \<open>What the C library promises: a block it hands out does not overlap a live one, here: has its own
  address; a block that is reallocated may keep its address.\<close>

definition answer_ok :: "nat option \<Rightarrow> answer \<Rightarrow> zstate \<Rightarrow> bool" where
  "answer_ok old ans s \<longleftrightarrow> (case ans of None \<Rightarrow> False | Some (p, _) \<Rightarrow> z_heap s p = None \<or> old = Some p)"

definition zop_ok :: "bool \<Rightarrow> zop \<Rightarrow> zstate \<Rightarrow> bool" where
  "zop_ok ms oper s =
     (case oper of
        Op_malloc ans n \<Rightarrow> answer_ok None ans s
      | Op_calloc ans n \<Rightarrow> answer_ok None ans s
      | Op_realloc ans None n \<Rightarrow> answer_ok None ans s
      | Op_realloc ans (Some q) n \<Rightarrow> (\<exists>p b. real_block ms q s = Some (p, b) \<and> answer_ok (Some p) ans s)
      | Op_free None \<Rightarrow> True
      | Op_free (Some q) \<Rightarrow> real_block ms q s \<noteq> None)"

fun run_zops :: "bool \<Rightarrow> zop list \<Rightarrow> zstate \<Rightarrow> zstate option" where
  "run_zops ms [] s = Some s"
| "run_zops ms (oper # ops) s = do { s' \<leftarrow> run_zop ms oper s; run_zops ms ops s' }"

fun zops_ok :: "bool \<Rightarrow> zop list \<Rightarrow> zstate \<Rightarrow> bool" where
  "zops_ok ms [] s = True"
| "zops_ok ms (oper # ops) s = (zop_ok ms oper s \<and> (case run_zop ms oper s of None \<Rightarrow> True | Some s' \<Rightarrow> zops_ok ms ops s'))"

abbreviation (input) total :: "bool \<Rightarrow> (nat \<rightharpoonup> block) \<Rightarrow> u64" where
  "total ms h \<equiv> (\<Sum>p\<in>dom h. counted ms (the (h p)))"

lemma total_insert:
  assumes "finite (dom h)" "h p = None"
  shows "total ms (h(p \<mapsto> b)) = total ms h + counted ms b"
proof -
  have "(\<Sum>q\<in>dom h. counted ms (the ((h(p \<mapsto> b)) q))) = total ms h"
    using assms(2) by (intro sum.cong) (auto simp: domIff)
  moreover have "p \<notin> dom h" using assms(2) by (simp add: domIff)
  ultimately show ?thesis using assms(1) by (simp add: add.commute)
qed

lemma total_remove:
  assumes "finite (dom h)" "h p = Some b"
  shows "total ms (h(p := None)) = total ms h - counted ms b"
proof -
  have "total ms ((h(p := None))(p \<mapsto> b)) = total ms (h(p := None)) + counted ms b"
    by (rule total_insert) (use assms in auto)
  moreover have h: "(h(p := None))(p \<mapsto> b) = h" using assms(2) by auto
  ultimately show ?thesis unfolding h by (simp only: eq_diff_eq)
qed

lemma alloc_accounted:
  assumes "accounted ms s" "z_heap s p = None"
  shows "accounted ms (update_zmalloc_stat_alloc (counted ms b) (s\<lparr>z_heap := (z_heap s)(p \<mapsto> b)\<rparr>))"
  using assms total_insert [of "z_heap s" p ms b] by (simp add: accounted_def update_zmalloc_stat_alloc_def)

lemma free_accounted:
  assumes "accounted ms s" "z_heap s p = Some b"
  shows "accounted ms (update_zmalloc_stat_free (counted ms b) s\<lparr>z_heap := (z_heap s)(p := None)\<rparr>)"
  using assms total_remove [of "z_heap s" p b ms] by (simp add: accounted_def update_zmalloc_stat_free_def)

lemma real_blockD: "real_block ms q s = Some (p, b) \<Longrightarrow> z_heap s p = Some b"
  by (auto simp: real_block_def split: if_splits)

lemma zmalloc_eq:
  "zmalloc ms (Some (p, us)) sz s = Some (Ok (p + PREFIX_SIZE ms)
     (update_zmalloc_stat_alloc (counted ms \<lparr>b_usable = us, b_header = (if ms then 0 else sz)\<rparr>)
        (s\<lparr>z_heap := (z_heap s)(p \<mapsto> \<lparr>b_usable = us, b_header = (if ms then 0 else sz)\<rparr>)\<rparr>)))"
  by (simp add: zmalloc_def counted_def PREFIX_SIZE_def)

lemma zcalloc_eq: "zcalloc ms ans sz s = zmalloc ms ans sz s"
  by (simp add: zcalloc_def zmalloc_def)

lemma zfree_accounted:
  assumes "accounted ms s" "real_block ms q s = Some (p, b)"
  shows "\<exists>s'. zfree ms (Some q) s = Some s' \<and> accounted ms s' \<and> z_heap s' = (z_heap s)(p := None)"
  using free_accounted [OF assms(1) real_blockD [OF assms(2)]] assms(2)
  by (simp add: zfree_def update_zmalloc_stat_free_def)

lemma zmalloc_accounted:
  assumes "accounted ms s" "answer_ok None ans s"
  shows "\<exists>p s'. zmalloc ms ans sz s = Some (Ok p s') \<and> accounted ms s'"
proof -
  obtain p us where ans: "ans = Some (p, us)" "z_heap s p = None"
    using assms(2) by (auto simp: answer_ok_def split: option.splits)
  show ?thesis unfolding ans(1) zmalloc_eq using alloc_accounted [OF assms(1) ans(2)] by blast
qed

lemma zrealloc_accounted:
  assumes acc: "accounted ms s" and blk: "real_block ms q s = Some (p, b)" and ok: "answer_ok (Some p) ans s"
  shows "\<exists>p' s'. zrealloc ms ans (Some q) sz s = Some (Ok p' s') \<and> accounted ms s'"
proof -
  obtain p' us where ans: "ans = Some (p', us)" "z_heap s p' = None \<or> p' = p"
    using ok by (auto simp: answer_ok_def split: option.splits)
  define b' where "b' = \<lparr>b_usable = us, b_header = (if ms then 0 else sz)\<rparr>"
  define s1 where "s1 = update_zmalloc_stat_free (counted ms b) s\<lparr>z_heap := (z_heap s)(p := None)\<rparr>"
  have "accounted ms s1" unfolding s1_def by (rule free_accounted [OF acc real_blockD [OF blk]])
  moreover have "z_heap s1 p' = None" using ans(2) by (auto simp: s1_def update_zmalloc_stat_free_def)
  ultimately have "accounted ms (update_zmalloc_stat_alloc (counted ms b') (s1\<lparr>z_heap := (z_heap s1)(p' \<mapsto> b')\<rparr>))"
    by (rule alloc_accounted)
  moreover have "zrealloc ms ans (Some q) sz s =
      Some (Ok (p' + PREFIX_SIZE ms) (update_zmalloc_stat_alloc (counted ms b') (s1\<lparr>z_heap := (z_heap s1)(p' \<mapsto> b')\<rparr>)))"
    by (simp add: zrealloc_def blk ans(1) s1_def update_zmalloc_stat_free_def update_zmalloc_stat_alloc_def flip: b'_def)
  ultimately show ?thesis by blast
qed

lemma run_zop_accounted:
  assumes "accounted ms s" "zop_ok ms oper s"
  shows "\<exists>s'. run_zop ms oper s = Some s' \<and> accounted ms s'"
proof (cases oper)
  case (Op_malloc ans n)
  then show ?thesis using assms zmalloc_accounted [OF assms(1), of ans n] by (auto simp: zop_ok_def run_zop_def)
next
  case (Op_calloc ans n)
  then show ?thesis using assms zmalloc_accounted [OF assms(1), of ans n] by (auto simp: zop_ok_def run_zop_def zcalloc_eq)
next
  case (Op_realloc ans ptr n)
  show ?thesis
  proof (cases ptr)
    case None
    then show ?thesis using Op_realloc assms zmalloc_accounted [OF assms(1), of ans n]
      by (auto simp: zop_ok_def run_zop_def zrealloc_def)
  next
    case (Some q)
    then obtain p b where "real_block ms q s = Some (p, b)" "answer_ok (Some p) ans s"
      using Op_realloc assms(2) by (auto simp: zop_ok_def)
    then obtain p' s' where "zrealloc ms ans (Some q) n s = Some (Ok p' s')" "accounted ms s'"
      using zrealloc_accounted [OF assms(1)] by blast
    then show ?thesis by (simp add: Op_realloc Some run_zop_def)
  qed
next
  case (Op_free ptr)
  show ?thesis
  proof (cases ptr)
    case None
    then show ?thesis using Op_free assms(1) by (simp add: run_zop_def zfree_def)
  next
    case (Some q)
    then obtain p b where "real_block ms q s = Some (p, b)" using Op_free assms(2) by (auto simp: zop_ok_def)
    from zfree_accounted [OF assms(1) this] show ?thesis using Op_free Some by (auto simp: run_zop_def)
  qed
qed

lemma run_zops_accounted:
  "accounted ms s \<Longrightarrow> zops_ok ms ops s \<Longrightarrow> \<exists>s'. run_zops ms ops s = Some s' \<and> accounted ms s'"
proof (induction ops arbitrary: s)
  case (Cons oper ops)
  obtain s1 where "run_zop ms oper s = Some s1" "accounted ms s1"
    using run_zop_accounted [OF Cons.prems(1)] Cons.prems(2) by auto
  then show ?case using Cons by auto
qed simp

section \<open>Properties\<close>

text \<open>C15: accounting of memory. Every sequence of allocations, reallocations and releases in which the
  C library hands out addresses that are not in use and the program frees live blocks runs to its end,
  and the counter is then the sum of the sizes of the live blocks, modulo the width of the counter;
  when no block is left it is zero.\<close>

theorem zmalloc_accounting:
  assumes "zops_ok ms ops z_init"
  shows "\<exists>s. run_zops ms ops z_init = Some s \<and>
    zmalloc_used_memory s = (\<Sum>p\<in>dom (z_heap s). counted ms (the (z_heap s p))) \<and>
    (dom (z_heap s) = {} \<longrightarrow> zmalloc_used_memory s = 0)"
proof -
  have "accounted ms z_init" by (simp add: accounted_def z_init_def)
  then obtain s where "run_zops ms ops z_init = Some s" "accounted ms s"
    using run_zops_accounted [OF _ assms] by blast
  then show ?thesis by (auto simp: accounted_def zmalloc_used_memory_def)
qed

theorem zmalloc_accounting_witness:
  "\<exists>s. run_zops False [Op_malloc (Some (100, 24)) 20, Op_realloc (Some (200, 40)) (Some 108) 33, Op_free (Some 208)] z_init = Some s \<and>
     (dom (z_heap s) = {} \<longrightarrow> zmalloc_used_memory s = 0)"
  using zmalloc_accounting [of False "[Op_malloc (Some (100, 24)) 20, Op_realloc (Some (200, 40)) (Some 108) 33, Op_free (Some 208)]"]
  by (auto simp: zop_ok_def answer_ok_def z_init_def run_zop_def zmalloc_def zrealloc_def real_block_def PREFIX_SIZE_def
      update_zmalloc_stat_alloc_def update_zmalloc_stat_free_def zfree_def Let_def)

end
