(* ===== verification/Log.thy ===== *)
theory Log
  imports Prelude
begin

text \<open>
  The logging library of \<^verbatim>\<open>src/src/log.c\<close>: levels, the table of 32 callbacks, the lock callback and
  \<^verbatim>\<open>log_log\<close>. A callback is represented by a number; what the library does is the list of calls it
  makes, in order.
\<close>

section \<open>State\<close>

abbreviation (input) MAX_CALLBACKS :: nat where "MAX_CALLBACKS \<equiv> 32"

datatype log_fn = Stdout_callback | File_callback | User_fn nat

record Callback =
  cb_fn :: "log_fn option"
  cb_udata :: nat
  cb_level :: int

record logger =
  lg_udata :: nat
  lg_lock :: "nat option"
  lg_level :: int
  lg_quiet :: bool
  lg_callbacks :: "Callback list"

text \<open>The static object: everything zero.\<close>

definition log_init :: logger where
  "log_init = \<lparr>lg_udata = 0, lg_lock = None, lg_level = 0, lg_quiet = False,
     lg_callbacks = replicate MAX_CALLBACKS \<lparr>cb_fn = None, cb_udata = 0, cb_level = 0\<rparr>\<rparr>"

definition level_strings :: "string list" where
  "level_strings = [''TRACE'', ''DEBUG'', ''INFO'', ''WARN'', ''ERROR'', ''FATAL'']"

text \<open>An index outside the array is undefined.\<close>

definition log_level_string :: "int \<Rightarrow> string option" where
  "log_level_string level = (if level < 0 then None else peek level_strings (nat level))"

section \<open>Operations\<close>

definition log_set_lock :: "nat option \<Rightarrow> nat \<Rightarrow> logger \<Rightarrow> logger" where
  "log_set_lock fn udata lg = lg\<lparr>lg_lock := fn, lg_udata := udata\<rparr>"

definition log_set_level :: "int \<Rightarrow> logger \<Rightarrow> logger" where
  "log_set_level level lg = lg\<lparr>lg_level := level\<rparr>"

definition log_set_quiet :: "bool \<Rightarrow> logger \<Rightarrow> logger" where
  "log_set_quiet enable lg = lg\<lparr>lg_quiet := enable\<rparr>"

text \<open>The loop over the table: the first free entry.\<close>

fun add_loop :: "Callback \<Rightarrow> Callback list \<Rightarrow> Callback list \<times> int" where
  "add_loop cb [] = ([], -1)"
| "add_loop cb (e # es) =
     (if cb_fn e = None then (cb # es, 0) else (let (es', r) = add_loop cb es in (e # es', r)))"

definition log_add_callback :: "log_fn option \<Rightarrow> nat \<Rightarrow> int \<Rightarrow> logger \<Rightarrow> logger \<times> int" where
  "log_add_callback fn udata level lg =
     (let (cbs, r) = add_loop \<lparr>cb_fn = fn, cb_udata = udata, cb_level = level\<rparr> (lg_callbacks lg)
      in (lg\<lparr>lg_callbacks := cbs\<rparr>, r))"

definition log_add_fp :: "nat \<Rightarrow> int \<Rightarrow> logger \<Rightarrow> logger \<times> int" where
  "log_add_fp fp level lg = log_add_callback (Some File_callback) fp level lg"

text \<open>The calls \<^verbatim>\<open>log_log\<close> makes: the lock callback, and the log functions with their user data.\<close>

datatype log_call = Lock nat bool nat | Call log_fn nat

definition lock_call :: "bool \<Rightarrow> logger \<Rightarrow> log_call list" where
  "lock_call b lg = (case lg_lock lg of None \<Rightarrow> [] | Some fn \<Rightarrow> [Lock fn b (lg_udata lg)])"

abbreviation (input) stderr :: nat where "stderr \<equiv> 2"

fun log_loop :: "int \<Rightarrow> Callback list \<Rightarrow> log_call list" where
  "log_loop level [] = []"
| "log_loop level (cb # cbs) =
     (case cb_fn cb of
        None \<Rightarrow> []
      | Some fn \<Rightarrow> (if level \<ge> cb_level cb then [Call fn (cb_udata cb)] else []) @ log_loop level cbs)"

text \<open>Both built-in callbacks read the name of the level.\<close>

definition log_log :: "int \<Rightarrow> logger \<Rightarrow> log_call list option" where
  "log_log level lg =
     (let calls = (if \<not> lg_quiet lg \<and> level \<ge> lg_level lg then [Call Stdout_callback stderr] else []) @
                  log_loop level (lg_callbacks lg)
      in if list_ex (\<lambda>c. case c of Call Stdout_callback _ \<Rightarrow> True | Call File_callback _ \<Rightarrow> True | _ \<Rightarrow> False) calls
            \<and> log_level_string level = None
         then None else Some (lock_call True lg @ calls @ lock_call False lg))"

section \<open>The registered callbacks\<close>

text \<open>A table: the callbacks registered so far, then free entries.\<close>

definition log_rep :: "logger \<Rightarrow> (log_fn \<times> nat \<times> int) list \<Rightarrow> bool" where
  "log_rep lg cs \<longleftrightarrow> length cs \<le> MAX_CALLBACKS \<and> length (lg_callbacks lg) = MAX_CALLBACKS \<and>
     (\<exists>free. lg_callbacks lg = map (\<lambda>(f, u, l). \<lparr>cb_fn = Some f, cb_udata = u, cb_level = l\<rparr>) cs @ free \<and>
        (\<forall>e \<in> set free. cb_fn e = None))"

lemma add_loop_registered:
  "add_loop cb (map (\<lambda>(f, u, l). \<lparr>cb_fn = Some f, cb_udata = u, cb_level = l\<rparr>) cs @ free) =
     (map (\<lambda>(f, u, l). \<lparr>cb_fn = Some f, cb_udata = u, cb_level = l\<rparr>) cs @ fst (add_loop cb free), snd (add_loop cb free))"
  by (induction cs) (auto simp: split_beta)

lemma log_loop_registered:
  "\<forall>e \<in> set free. cb_fn e = None \<Longrightarrow>
   log_loop level (map (\<lambda>(f, u, l). \<lparr>cb_fn = Some f, cb_udata = u, cb_level = l\<rparr>) cs @ free) =
     map (\<lambda>(f, u, l). Call f u) (filter (\<lambda>(f, u, l). l \<le> level) cs)"
proof (induction cs)
  case Nil
  then show ?case by (cases free) auto
qed auto

lemma log_add_callback_rep:
  assumes "log_rep lg cs"
  shows "log_rep (fst (log_add_callback (Some f) u l lg)) (if length cs < MAX_CALLBACKS then cs @ [(f, u, l)] else cs)"
    "snd (log_add_callback (Some f) u l lg) = (if length cs < MAX_CALLBACKS then 0 else - 1)"
proof -
  let ?m = "map (\<lambda>(f, u, l). \<lparr>cb_fn = Some f, cb_udata = u, cb_level = l\<rparr>)"
  obtain free where free: "lg_callbacks lg = ?m cs @ free" "\<forall>e \<in> set free. cb_fn e = None" "length cs + length free = MAX_CALLBACKS"
    using assms by (auto simp: log_rep_def)
  have "log_rep (fst (log_add_callback (Some f) u l lg)) (if length cs < MAX_CALLBACKS then cs @ [(f, u, l)] else cs) \<and>
      snd (log_add_callback (Some f) u l lg) = (if length cs < MAX_CALLBACKS then 0 else - 1)"
  proof (cases free)
    case Nil
    have "add_loop cb (lg_callbacks lg) = (?m cs, -1)" for cb
      using add_loop_registered [of cb cs "[]"] free(1) Nil by simp
    then show ?thesis using free Nil by (simp add: log_add_callback_def log_rep_def)
  next
    case (Cons e es)
    have "add_loop cb (lg_callbacks lg) = (?m cs @ cb # es, 0)" for cb
      using add_loop_registered [of cb cs "e # es"] free(1,2) Cons by simp
    then show ?thesis using free Cons by (auto simp: log_add_callback_def log_rep_def)
  qed
  then show "log_rep (fst (log_add_callback (Some f) u l lg)) (if length cs < MAX_CALLBACKS then cs @ [(f, u, l)] else cs)"
    "snd (log_add_callback (Some f) u l lg) = (if length cs < MAX_CALLBACKS then 0 else - 1)" by blast+
qed

section \<open>Properties\<close>

text \<open>Registering callbacks and logging. Registration appends to the callbacks and fails exactly when
  32 are registered. A message of a valid level is delivered once to the standard error stream, when
  that is not quiet and the level is high enough, then once to each registered callback whose level
  allows it, in the order of registration, all between the lock and the unlock call of the lock
  callback, if there is one.\<close>

theorem log_log_delivery:
  assumes "log_rep lg cs" "0 \<le> level" "level \<le> 5"
  shows "log_log level lg = Some (lock_call True lg @
           (if \<not> lg_quiet lg \<and> lg_level lg \<le> level then [Call Stdout_callback stderr] else []) @
           map (\<lambda>(f, u, l). Call f u) (filter (\<lambda>(f, u, l). l \<le> level) cs) @ lock_call False lg) \<and>
         log_rep (fst (log_add_callback (Some f) u l lg)) (if length cs < 32 then cs @ [(f, u, l)] else cs) \<and>
         snd (log_add_callback (Some f) u l lg) = (if length cs < 32 then 0 else - 1)"
proof -
  have "log_level_string level \<noteq> None"
    using assms(2,3) by (auto simp: log_level_string_def level_strings_def peek_def)
  moreover have "log_loop level (lg_callbacks lg) = map (\<lambda>(f, u, l). Call f u) (filter (\<lambda>(f, u, l). l \<le> level) cs)"
    using assms(1) log_loop_registered by (auto simp: log_rep_def)
  ultimately show ?thesis using log_add_callback_rep [OF assms(1)] by (simp add: log_log_def)
qed

theorem log_log_delivery_witness:
  "log_rep log_init [] \<and> log_log 3 log_init = Some [Call Stdout_callback stderr] \<and>
   snd (log_add_callback (Some (User_fn 7)) 0 4 log_init) = 0"
proof -
  have "log_rep log_init []" by (simp add: log_rep_def log_init_def)
  then show ?thesis using log_log_delivery [of log_init "[]" 3 "User_fn 7" 0 4] by (simp add: lock_call_def log_init_def)
qed

end
