(* ===== verification/Session.thy ===== *)
theory Session
  imports Shell Linenoise_Correct
begin

text \<open>
  The shell together with the line reader: the loop \<^verbatim>\<open>kx_loop\<close> of \<^verbatim>\<open>src/src/rkx.c\<close> on input that comes from
  a file or a pipe, and on a line typed at a terminal.
\<close>

section \<open>Input from a pipe\<close>

lemma linenoiseNoTTY_shorter:
  "linenoiseNoTTY junk inp = Some (Some m, rest) \<Longrightarrow> length rest < length inp"
  using notty_loop_line [of 0 "[]" "[]" inp junk]
  by (cases "inp = []") (auto simp: linenoiseNoTTY_def notty_loop.simps [of _ _ _ "[]"])

function kx_loop_notty :: "char \<Rightarrow> ('r, 'e) env \<Rightarrow> string \<Rightarrow> ('r, 'e) shell \<Rightarrow> ('r, 'e) shell option" where
  "kx_loop_notty junk env inp sh =
     (case linenoiseNoTTY junk inp of
        None \<Rightarrow> None
      | Some (None, _) \<Rightarrow> Some sh
      | Some (Some line, rest) \<Rightarrow>
          (case kx_line env line sh of None \<Rightarrow> None | Some sh' \<Rightarrow> kx_loop_notty junk env rest sh'))"
  by pat_completeness auto

termination
  by (relation "measure (\<lambda>(_, _, inp, _). length inp)") (auto dest: linenoiseNoTTY_shorter)

declare kx_loop_notty.simps [simp del]

text \<open>The lines of a text.\<close>

function text_lines :: "string \<Rightarrow> string list" where
  "text_lines s = (if s = [] then [] else
     takeWhile (\<lambda>c. c \<noteq> CHR 0x0A) s # text_lines (drop (length (takeWhile (\<lambda>c. c \<noteq> CHR 0x0A) s) + 1) s))"
  by pat_completeness auto

termination
  by (relation "measure length") auto

declare text_lines.simps [simp del]

text \<open>The bytes after the terminator of a line do not matter.\<close>

lemma kx_line_rest:
  assumes "NUL \<notin> set s" "CHR 0x0A \<notin> set s"
  shows "kx_line env (s @ NUL # rest) sh = kx_line env (s @ [NUL]) sh"
proof (cases "s = [] \<or> hd s = CHR ''/''")
  case True
  then have "kx_line env (s @ NUL # r) sh = Some sh" for r
    by (cases s) (auto simp: kx_line_def peek_def)
  then show ?thesis by simp
next
  case False
  then have ne: "s \<noteq> []" "hd s \<noteq> CHR ''/''" by simp_all
  show ?thesis by (rule trans [OF kx_line_eq [OF assms ne] kx_line_eq [OF assms ne, symmetric]])
qed

lemma kx_loop_notty_lines:
  "NUL \<notin> set inp \<Longrightarrow> kx_loop_notty junk env inp sh = kx_loop env (map (\<lambda>l. l @ [NUL]) (text_lines inp)) sh"
proof (induction inp arbitrary: sh rule: text_lines.induct)
  case (1 s)
  show ?case
  proof (cases "s = []")
    case True
    then show ?thesis
      by (simp add: kx_loop_notty.simps [of _ _ "[]"] text_lines.simps [of "[]"] linenoiseNoTTY_def notty_loop.simps)
  next
    case False
    let ?l = "takeWhile (\<lambda>c. c \<noteq> CHR 0x0A) s" and ?r = "drop (length (takeWhile (\<lambda>c. c \<noteq> CHR 0x0A) s) + 1) s"
    obtain junk' where rd: "linenoiseNoTTY junk s = Some (Some (?l @ NUL # junk'), ?r)"
      using notty_loop_line [of 0 "[]" "[]" s junk] False by (auto simp: linenoiseNoTTY_def)
    have l: "NUL \<notin> set ?l" "CHR 0x0A \<notin> set ?l" using "1.prems" by (auto dest: set_takeWhileD)
    have "NUL \<notin> set ?r" using "1.prems" by (meson in_set_dropD)
    then show ?thesis
      using "1.IH" [OF False] kx_line_rest [OF l, of env junk' sh] rd False
      by (subst kx_loop_notty.simps, subst text_lines.simps) (simp split: option.split)
  qed
qed

section \<open>Typed lines\<close>

definition typable :: "char \<Rightarrow> bool" where
  "typable c \<longleftrightarrow> 32 \<le> (of_char c :: nat) \<and> c \<noteq> CHR 0x7F"

lemma typable_keys:
  "typable c \<Longrightarrow> c \<notin> {CHR 0x7F, CHR 0x08, CHR 0x14, CHR 0x02, CHR 0x06, CHR 0x15, CHR 0x0B, CHR 0x01, CHR 0x05, CHR 0x0C, CHR 0x17}"
  "typable c \<Longrightarrow> c \<notin> {NUL, CHR 0x0D, CHR 0x03, CHR 0x04, CHR 0x10, CHR 0x0E, ESC, CHR 0x09}"
  by (intro notI, elim insertE emptyE; simp add: typable_def NUL_def)+

lemma typable_plain: "typable c \<or> c = CHR 0x0A \<Longrightarrow> plain_key t c"
proof (elim disjE)
  assume "typable c"
  then show ?thesis using typable_keys(2) by (simp add: plain_key_def)
qed (simp add: plain_key_def NUL_def)

lemma fold_insert:
  "\<forall>c \<in> set ks. typable c \<or> c = CHR 0x0A \<Longrightarrow> length a + length ks \<le> cap \<Longrightarrow>
   fold (key_spec cap) ks (a, []) = (a @ ks, [])"
proof (induction ks arbitrary: a)
  case (Cons c ks)
  have "c \<notin> {CHR 0x7F, CHR 0x08, CHR 0x14, CHR 0x02, CHR 0x06, CHR 0x15, CHR 0x0B, CHR 0x01, CHR 0x05, CHR 0x0C, CHR 0x17}"
    using Cons.prems(1) typable_keys(1) [of c] by (cases "c = CHR 0x0A") simp_all
  then have "key_spec cap c (a, []) = (a @ [c], [])" using Cons.prems(2) by (simp add: key_spec_def)
  then show ?case using Cons by simp
qed simp

section \<open>Properties\<close>

text \<open>C9: the shell on piped input. For any input without zero bytes, reading it line by line with
  \<^verbatim>\<open>linenoise\<close> and running each line is the same as running the list of its lines; the last line does
  not need a newline, and the loop ends at the end of the input.\<close>

theorem shell_on_pipe:
  assumes "NUL \<notin> set inp"
  shows "kx_loop_notty junk env inp sh = kx_loop env (map (\<lambda>l. l @ [NUL]) (text_lines inp)) sh"
  by (rule kx_loop_notty_lines [OF assms])

theorem shell_on_pipe_witness:
  "\<forall>(env :: (unit, unit) env) sh. kx_loop_notty NUL env (''/x'' @ CHR 0x0A # ''y'') sh = Some sh"
proof (intro allI)
  fix env :: "(unit, unit) env" and sh
  have lines: "text_lines (''/x'' @ CHR 0x0A # ''y'') = [''/x'', ''y'']" by (simp add: text_lines.simps)
  have "kx_line env (''/x'' @ [NUL]) sh = Some sh" by (simp add: kx_line_def peek_def NUL_def)
  moreover have "kx_line env (''y'' @ [NUL]) sh = Some sh"
    using kx_line_eq [of "''y''" env "[]" sh] by (simp add: NUL_def blank_words_def get_cmd_def cmds_def)
  ultimately show "kx_loop_notty NUL env (''/x'' @ CHR 0x0A # ''y'') sh = Some sh"
    using shell_on_pipe [of "''/x'' @ CHR 0x0A # ''y''" NUL env sh] lines by (simp add: NUL_def)
qed

text \<open>C40: a newline typed at the terminal. In raw mode Enter is a carriage return, and Ctrl-J is an
  ordinary character: typing a text, Ctrl-J and Enter returns the text with a newline in it, and the
  shell never comes back from splitting that line.\<close>

theorem typed_newline_hangs:
  assumes "hist_rep (t_hist t) hs" "h_max (t_hist t) \<noteq> 0" "t_writes t" "\<not> mlmode t"
    "length prompt < cols" "cols < 2 ^ 30"
    "\<forall>c \<in> set s. typable c" "length s < 4000" "hd (s @ [CHR 0x0A]) \<noteq> CHR ''/''"
  shows "\<exists>t'. linenoise_tty True t junk prompt cols (map Some (s @ [CHR 0x0A]) @ Some CR # inp) =
      Some (t', Some (s @ [CHR 0x0A]), inp) \<and>
    kx_line env ((s @ [CHR 0x0A]) @ [NUL]) sh = None"
proof -
  let ?k = "s @ [CHR 0x0A]"
  have key: "\<forall>c \<in> set ?k. plain_key t c" using assms(7) typable_plain [of _ t] by simp
  have ab: "fold (key_spec 4095) ?k ([], []) = (?k, [])"
    using fold_insert [of ?k "[]" 4095] assms(7,8) by (simp del: fold_append)
  have sess: "\<exists>t'. linenoise_tty True t junk prompt cols (map Some ?k @ Some CR # inp) = Some (t', Some (?k @ []), inp) \<and>
      length (?k @ []) \<le> 4095 \<and> hist_rep (t_hist t') (butlast (add_spec (h_max (t_hist t)) [] hs))"
    by (rule linenoise_session_ok [OF assms(1-3) _ _ _ key ab]) (use assms(4-6) in auto)
  have "NUL \<notin> set s" using assms(7) typable_keys(2) by blast
  then have nul: "NUL \<notin> set ?k" by (simp add: NUL_def)
  then have "split_str (?k @ [NUL]) = None" by (rule split_str_cases(2)) simp
  moreover have "peek (?k @ [NUL]) 0 = Some (hd ?k)"
    using peek_append [of "[]" 0 "?k @ [NUL]"] hd_append2 [of ?k "[NUL]"] by simp
  moreover have "hd ?k \<noteq> NUL" using hd_clean [OF nul, of "[]"] by simp
  ultimately have "kx_line env (?k @ [NUL]) sh = None" using assms(9) by (simp add: kx_line_def)
  then show ?thesis using sess by auto
qed

theorem typed_newline_hangs_witness:
  "\<forall>(env :: (unit, unit) env) sh. \<exists>t'. linenoise_tty True sample_tty NUL ''rkx>'' 80 (map Some (''ls'' @ [CHR 0x0A]) @ Some CR # []) =
      Some (t', Some (''ls'' @ [CHR 0x0A]), []) \<and> kx_line env ((''ls'' @ [CHR 0x0A]) @ [NUL]) sh = None"
  by (intro allI, rule typed_newline_hangs [where hs = "[]"]) (simp_all add: hist_rep_def hist_init_def typable_def)

end
