(* ===== verification/Midl.thy ===== *)
theory Midl
  imports Prelude "HOL-Library.Multiset"
begin

text \<open>
  The ID lists of the embedded database, \<^verbatim>\<open>src/liblmdb/midl.c\<close>. A list is an array of 64-bit words: the
  allocated length at index -1, the count at index 0, then the IDs in descending order. The object is
  a list of words that starts with the allocated length, so that \<^verbatim>\<open>ids[k]\<close> is the word \<open>k + 1\<close>. The ID2
  lists are arrays of pairs in ascending order with the count in the first one.
\<close>

section \<open>Binary search\<close>

text \<open>The loop both searches share: \<open>cmp c\<close> is the comparison made at position \<open>c\<close>, \<open>None\<close> outside the
  array. The positions are 32-bit; \<open>base + n\<close> never grows, so only the last increment can wrap.\<close>

function search_loop :: "(nat \<Rightarrow> int option) \<Rightarrow> nat \<Rightarrow> nat \<Rightarrow> int \<Rightarrow> nat \<Rightarrow> nat option" where
  "search_loop cmp base cursor val n =
     (if 0 < n then
        (let pivot = n div 2; cursor = base + pivot + 1 in
         case cmp cursor of
           None \<Rightarrow> None
         | Some val \<Rightarrow>
             if val < 0 then search_loop cmp base cursor val pivot
             else if val > 0 then search_loop cmp cursor cursor val (n - (pivot + 1))
             else Some cursor)
      else Some (if val > 0 then (cursor + 1) mod 2 ^ 32 else cursor))"
  by pat_completeness auto

termination
  by (relation "measure (\<lambda>(_, _, _, _, n). n)") auto

declare search_loop.simps [simp del]

definition CMP :: "u64 \<Rightarrow> u64 \<Rightarrow> int" where
  "CMP x y = (if x < y then - 1 else if x > y then 1 else 0)"

type_synonym idl = "u64 list"

definition ids_at :: "idl \<Rightarrow> nat \<Rightarrow> u64 option" where
  "ids_at m k = peek m (k + 1)"

definition mdb_midl_search :: "idl \<Rightarrow> u64 \<Rightarrow> nat option" where
  "mdb_midl_search ids i = do {
     n \<leftarrow> ids_at ids 0;
     search_loop (\<lambda>c. map_option (\<lambda>x. CMP x i) (ids_at ids c)) 0 1 0 (unat (ucast n :: 32 word))
   }"

record mdb_id2 =
  mid :: u64
  mptr :: nat

type_synonym id2l = "mdb_id2 list"

definition mdb_mid2l_search :: "id2l \<Rightarrow> u64 \<Rightarrow> nat option" where
  "mdb_mid2l_search ids i = do {
     h \<leftarrow> peek ids 0;
     search_loop (\<lambda>c. map_option (\<lambda>x. CMP i (mid x)) (peek ids c)) 0 1 0 (unat (ucast (mid h) :: 32 word))
   }"

text \<open>What the loop computes: on comparisons that are positive up to some position and never afterwards,
  the first position that is not positive; it stops early only at a position that is equal.\<close>

lemma search_loop_first:
  assumes "\<And>c. 1 \<le> c \<Longrightarrow> c \<le> N \<Longrightarrow> cmp c = Some (f c)" "base + n \<le> N" "k \<le> base + n" "base \<le> k"
    "\<And>c. 1 \<le> c \<Longrightarrow> c \<le> k \<Longrightarrow> f c > 0" "\<And>c. k < c \<Longrightarrow> c \<le> N \<Longrightarrow> f c \<le> 0"
    "\<And>c. k + 1 < c \<Longrightarrow> c \<le> N \<Longrightarrow> f c < 0"
    "n = 0 \<Longrightarrow> (if val > 0 then cursor + 1 else cursor) = k + 1" "k + 1 < 2 ^ 32"
  shows "search_loop cmp base cursor val n = Some (k + 1)"
  using assms
proof (induction cmp base cursor val n rule: search_loop.induct)
  case (1 cmp base cursor val n)
  show ?case
  proof (cases "n = 0")
    case True
    then show ?thesis using "1.prems"(8,9) by (subst search_loop.simps) (auto split: if_splits)
  next
    case False
    let ?c = "base + n div 2 + 1"
    have c: "1 \<le> ?c" "?c \<le> base + n" "?c \<le> N" using False "1.prems"(2) by auto
    have cmp: "cmp ?c = Some (f ?c)" using "1.prems"(1) c by blast
    consider "f ?c < 0" | "f ?c > 0" | "f ?c = 0" by linarith
    then show ?thesis
    proof cases
      case 1
      then have k: "k < ?c" using "1.prems"(5) [of ?c] c by force
      have "search_loop cmp base ?c (f ?c) (n div 2) = Some (k + 1)"
      proof (rule "1.IH"(1) [OF _ refl refl cmp 1])
        show "n div 2 = 0 \<Longrightarrow> (if 0 < f ?c then ?c + 1 else ?c) = k + 1" using k 1 "1.prems"(4) by auto
      qed (use False "1.prems" k in auto)
      then show ?thesis using False 1 cmp by (subst search_loop.simps) (simp add: Let_def)
    next
      case 2
      then have nl: "\<not> f ?c < 0" by simp
      have k: "?c \<le> k" using 2 "1.prems"(6) [of ?c] c by force
      have "search_loop cmp ?c ?c (f ?c) (n - (n div 2 + 1)) = Some (k + 1)"
      proof (rule "1.IH"(2) [OF _ refl refl cmp nl 2])
        show "n - (n div 2 + 1) = 0 \<Longrightarrow> (if 0 < f ?c then ?c + 1 else ?c) = k + 1" using k 2 "1.prems"(3) by auto
      qed (use False 2 "1.prems" k c in auto)
      then show ?thesis using False 2 cmp by (subst search_loop.simps) (simp add: Let_def)
    next
      case 3
      then have "?c = k + 1" using "1.prems"(5) [of ?c] "1.prems"(7) [of ?c] c by force
      then show ?thesis using False 3 cmp by (subst search_loop.simps) (simp add: Let_def)
    qed
  qed
qed

section \<open>ID lists\<close>

abbreviation (input) MDB_IDL_UM_MAX :: nat where "MDB_IDL_UM_MAX \<equiv> 131071"
abbreviation (input) ENOMEM :: int where "ENOMEM \<equiv> 12"

text \<open>The object in words: allocated length, count, IDs. New words hold \<open>junk\<close>. A failed allocation is
  \<open>False\<close> as the allocator's answer.\<close>

definition ids_put :: "idl \<Rightarrow> nat \<Rightarrow> u64 \<Rightarrow> idl option" where
  "ids_put m k v = poke m (k + 1) v"

definition mdb_midl_alloc :: "bool \<Rightarrow> u64 \<Rightarrow> nat \<Rightarrow> idl option" where
  "mdb_midl_alloc ok junk num = (if ok then Some (of_nat num # 0 # replicate num junk) else None)"

text \<open>\<^verbatim>\<open>realloc\<close> to a number of words.\<close>

definition resize :: "u64 \<Rightarrow> nat \<Rightarrow> idl \<Rightarrow> idl" where
  "resize junk n m = take n m @ replicate (n - length m) junk"

definition mdb_midl_grow :: "bool \<Rightarrow> u64 \<Rightarrow> idl \<Rightarrow> u32 \<Rightarrow> (idl \<times> int) option" where
  "mdb_midl_grow ok junk m num = do {
     a \<leftarrow> peek m 0;
     (if \<not> ok then Some (m, ENOMEM)
      else do {
        m \<leftarrow> poke (resize junk (unat ((a + scast num + 2) * 8) div 8) m) 0 (a + scast num);
        Some (m, 0)
      })
   }"

definition mdb_midl_shrink :: "bool \<Rightarrow> u64 \<Rightarrow> idl \<Rightarrow> idl option" where
  "mdb_midl_shrink ok junk m = do {
     a \<leftarrow> peek m 0;
     (if unat a > MDB_IDL_UM_MAX \<and> ok then poke (resize junk (MDB_IDL_UM_MAX + 2) m) 0 (of_nat MDB_IDL_UM_MAX) else Some m)
   }"

text \<open>The new size is computed in 32 bits and cut to a multiple of 256.\<close>

definition mdb_midl_need :: "bool \<Rightarrow> u64 \<Rightarrow> idl \<Rightarrow> 32 word \<Rightarrow> (idl \<times> int) option" where
  "mdb_midl_need ok junk m num = do {
     c \<leftarrow> ids_at m 0;
     a \<leftarrow> peek m 0;
     let num = num + ucast c;
     (if ucast num > a then do {
        let num = (num + num div 4 + (256 + 2)) AND (- 256);
        (if \<not> ok then Some (m, ENOMEM)
         else do { m \<leftarrow> poke (resize junk (unat num) m) 0 (ucast (num - 2)); Some (m, 0) })
      } else Some (m, 0))
   }"

definition mdb_midl_append :: "bool \<Rightarrow> u64 \<Rightarrow> idl \<Rightarrow> u64 \<Rightarrow> (idl \<times> int) option" where
  "mdb_midl_append ok junk m i = do {
     c \<leftarrow> ids_at m 0;
     a \<leftarrow> peek m 0;
     (m, rc) \<leftarrow> (if c \<ge> a then mdb_midl_grow ok junk m (of_nat MDB_IDL_UM_MAX) else Some (m, 0));
     (if rc \<noteq> 0 then Some (m, ENOMEM)
      else do {
        c \<leftarrow> ids_at m 0;
        m \<leftarrow> ids_put m 0 (c + 1);
        m \<leftarrow> ids_put m (unat (c + 1)) i;
        Some (m, 0)
      })
   }"

definition mdb_midl_append_list :: "bool \<Rightarrow> u64 \<Rightarrow> idl \<Rightarrow> idl \<Rightarrow> (idl \<times> int) option" where
  "mdb_midl_append_list ok junk m app = do {
     c \<leftarrow> ids_at m 0;
     a \<leftarrow> peek m 0;
     n \<leftarrow> ids_at app 0;
     (m, rc) \<leftarrow> (if c + n \<ge> a then mdb_midl_grow ok junk m (ucast n) else Some (m, 0));
     (if rc \<noteq> 0 then Some (m, ENOMEM)
      else do {
        c \<leftarrow> ids_at m 0;
        src \<leftarrow> (if unat n + 2 \<le> length app then Some (take (unat n) (drop 2 app)) else None);
        m \<leftarrow> blit m (unat c + 2) src;
        m \<leftarrow> ids_put m 0 (c + n);
        Some (m, 0)
      })
   }"

fun range_loop :: "idl \<Rightarrow> nat \<Rightarrow> u64 \<Rightarrow> nat \<Rightarrow> idl option" where
  "range_loop m len i 0 = Some m"
| "range_loop m len i (Suc n) = (case ids_put m (len + Suc n) i of None \<Rightarrow> None | Some m' \<Rightarrow> range_loop m' len (i + 1) n)"

definition mdb_midl_append_range :: "bool \<Rightarrow> u64 \<Rightarrow> idl \<Rightarrow> u64 \<Rightarrow> 32 word \<Rightarrow> (idl \<times> int) option" where
  "mdb_midl_append_range ok junk m i n = do {
     len \<leftarrow> ids_at m 0;
     a \<leftarrow> peek m 0;
     (m, rc) \<leftarrow> (if len + ucast n > a then mdb_midl_grow ok junk m (n OR of_nat MDB_IDL_UM_MAX) else Some (m, 0));
     (if rc \<noteq> 0 then Some (m, ENOMEM)
      else do {
        m \<leftarrow> ids_put m 0 (len + ucast n);
        m \<leftarrow> range_loop m (unat len) i (unat n);
        Some (m, 0)
      })
   }"

text \<open>Merging from the end: the inner loop moves the smaller old IDs up; the word at index 0 is set to
  the largest value and stops it.\<close>

function merge_down :: "idl \<Rightarrow> u64 \<Rightarrow> u64 \<Rightarrow> nat \<Rightarrow> nat \<Rightarrow> (idl \<times> u64 \<times> nat \<times> nat) option" where
  "merge_down m old merge_id j k =
     (if old < merge_id then
        (case ids_put m k old of
           None \<Rightarrow> None
         | Some m' \<Rightarrow> if j = 0 then None else (case ids_at m' (j - 1) of None \<Rightarrow> None | Some x \<Rightarrow> merge_down m' x merge_id (j - 1) (k - 1)))
      else Some (m, old, j, k))"
  by pat_completeness auto

termination
  by (relation "measure (\<lambda>(_, _, _, j, _). j)") auto

fun merge_loop :: "idl \<Rightarrow> idl \<Rightarrow> u64 \<Rightarrow> nat \<Rightarrow> nat \<Rightarrow> nat \<Rightarrow> idl option" where
  "merge_loop m merge old 0 j k = Some m"
| "merge_loop m merge old (Suc i) j k = do {
     merge_id \<leftarrow> ids_at merge (Suc i);
     (m, old, j, k) \<leftarrow> merge_down m old merge_id j k;
     m \<leftarrow> ids_put m k merge_id;
     merge_loop m merge old i j (k - 1)
   }"

definition mdb_midl_xmerge :: "idl \<Rightarrow> idl \<Rightarrow> idl option" where
  "mdb_midl_xmerge m merge = do {
     i \<leftarrow> ids_at merge 0;
     j \<leftarrow> ids_at m 0;
     m \<leftarrow> ids_put m 0 (- 1);
     old \<leftarrow> ids_at m (unat j);
     m \<leftarrow> merge_loop m merge old (unat i) (unat j) (unat (i + j));
     ids_put m 0 (i + j)
   }"

section \<open>ID2 lists\<close>

fun shift_up :: "'a list \<Rightarrow> nat \<Rightarrow> nat \<Rightarrow> 'a list option" where
  "shift_up ids x 0 = Some ids"
| "shift_up ids x (Suc i) =
     (if Suc i > x then
        (case peek ids i of None \<Rightarrow> None
         | Some v \<Rightarrow> (case poke ids (Suc i) v of None \<Rightarrow> None | Some ids' \<Rightarrow> shift_up ids' x i))
      else Some ids)"

definition mdb_mid2l_insert :: "id2l \<Rightarrow> mdb_id2 \<Rightarrow> (id2l \<times> int) option" where
  "mdb_mid2l_insert ids i = do {
     x \<leftarrow> mdb_mid2l_search ids (mid i);
     h \<leftarrow> peek ids 0;
     (if x < 1 then Some (ids, -2)
      else do {
        dup \<leftarrow> (if of_nat x \<le> mid h then map_option (\<lambda>v. mid v = mid i) (peek ids x) else Some False);
        (if dup then Some (ids, -1)
         else if mid h \<ge> of_nat MDB_IDL_UM_MAX then Some (ids, -2)
         else do {
           ids \<leftarrow> poke ids 0 (h\<lparr>mid := mid h + 1\<rparr>);
           ids \<leftarrow> shift_up ids x (unat (ucast (mid h + 1) :: 32 word));
           ids \<leftarrow> poke ids x i;
           Some (ids, 0)
         })
      })
   }"

definition mdb_mid2l_append :: "id2l \<Rightarrow> mdb_id2 \<Rightarrow> (id2l \<times> int) option" where
  "mdb_mid2l_append ids i = do {
     h \<leftarrow> peek ids 0;
     (if mid h \<ge> of_nat MDB_IDL_UM_MAX then Some (ids, -2)
      else do {
        ids \<leftarrow> poke ids 0 (h\<lparr>mid := mid h + 1\<rparr>);
        ids \<leftarrow> poke ids (unat (mid h + 1)) i;
        Some (ids, 0)
      })
   }"

section \<open>The lists they stand for\<close>

definition idl_rep :: "idl \<Rightarrow> u64 list \<Rightarrow> bool" where
  "idl_rep m xs \<longleftrightarrow> (\<exists>junk. m = of_nat (length xs + length junk) # of_nat (length xs) # xs @ junk \<and>
     length xs + length junk < 2 ^ 31)"

definition id2l_rep :: "id2l \<Rightarrow> mdb_id2 list \<Rightarrow> bool" where
  "id2l_rep ids xs \<longleftrightarrow> (\<exists>h junk. ids = h # xs @ junk \<and> mid h = of_nat (length xs) \<and> length xs < 2 ^ 31)"

lemma unat_small: "n < 2 ^ 32 \<Longrightarrow> unat (of_nat n :: u64) = n" "n < 2 ^ 32 \<Longrightarrow> unat (ucast (of_nat n :: u64) :: 32 word) = n"
  by (simp_all add: unsigned_of_nat take_bit_nat_eq_self)

lemma le_small: "n < 2 ^ 32 \<Longrightarrow> k < 2 ^ 32 \<Longrightarrow> (of_nat n \<le> (of_nat k :: u64)) = (n \<le> k)"
  by (simp add: word_le_nat_alt unat_small)

lemma CMP_sign: "CMP x y > 0 \<longleftrightarrow> x > y" "CMP x y < 0 \<longleftrightarrow> x < y" "CMP x y \<le> 0 \<longleftrightarrow> x \<le> y"
  by (auto simp: CMP_def)

text \<open>Searching any array whose comparisons go from positive to negative: the position after the positive
  part.\<close>

lemma search_loop_list:
  fixes xs :: "'a list" and f :: "'a \<Rightarrow> int"
  assumes "\<And>c. 1 \<le> c \<Longrightarrow> c \<le> length xs \<Longrightarrow> cmp c = Some (f (xs ! (c - 1)))"
    and mono: "sorted_wrt (\<lambda>x y. f x \<le> 0 \<longrightarrow> f y < 0) xs" and len: "length xs + 1 < 2 ^ 32"
  shows "search_loop cmp 0 1 0 (length xs) = Some (length (takeWhile (\<lambda>x. f x > 0) xs) + 1)"
proof (rule search_loop_first [where N = "length xs" and f = "\<lambda>c. f (xs ! (c - 1))"])
  let ?k = "length (takeWhile (\<lambda>x. f x > 0) xs)"
  show "?k \<le> 0 + length xs" by (simp add: length_takeWhile_le)
  show "f (xs ! (c - 1)) > 0" if "1 \<le> c" "c \<le> ?k" for c
  proof -
    have "takeWhile (\<lambda>x. f x > 0) xs ! (c - 1) \<in> set (takeWhile (\<lambda>x. f x > 0) xs)" using that by (intro nth_mem) auto
    then have "f (takeWhile (\<lambda>x. f x > 0) xs ! (c - 1)) > 0" by (auto dest: set_takeWhileD)
    moreover have "takeWhile (\<lambda>x. f x > 0) xs ! (c - 1) = xs ! (c - 1)" using that by (intro takeWhile_nth) auto
    ultimately show ?thesis by simp
  qed
  have at_k: "?k < length xs \<Longrightarrow> f (xs ! ?k) \<le> 0" using nth_length_takeWhile [of "\<lambda>x. f x > 0" xs] by simp
  show lt: "f (xs ! (c - 1)) < 0" if "?k + 1 < c" "c \<le> length xs" for c
    using sorted_wrt_nth_less [OF mono, of ?k "c - 1"] at_k that by simp
  show "f (xs ! (c - 1)) \<le> 0" if "?k < c" "c \<le> length xs" for c
    using lt [of c] at_k that by (cases "c = ?k + 1") auto
  show "?k + 1 < 2 ^ 32" using len length_takeWhile_le [of "\<lambda>x. f x > 0" xs] by linarith
qed (use assms(1) in auto)

lemma mdb_midl_search_rep:
  assumes "idl_rep m xs" "sorted_wrt (>) xs"
  shows "mdb_midl_search m i = Some (length (takeWhile (\<lambda>x. x > i) xs) + 1)"
proof -
  obtain junk where m: "m = of_nat (length xs + length junk) # of_nat (length xs) # xs @ junk" "length xs + length junk < 2 ^ 31"
    using assms(1) by (auto simp: idl_rep_def)
  have at: "1 \<le> c \<Longrightarrow> c \<le> length xs \<Longrightarrow> map_option (\<lambda>x. CMP x i) (ids_at m c) = Some (CMP (xs ! (c - 1)) i)" for c
    by (cases c) (auto simp: ids_at_def peek_def m(1) nth_append)
  have "sorted_wrt (\<lambda>x y. CMP x i \<le> 0 \<longrightarrow> CMP y i < 0) xs"
    by (rule sorted_wrt_mono_rel [OF _ assms(2)]) (auto simp: CMP_sign)
  then have "search_loop (\<lambda>c. map_option (\<lambda>x. CMP x i) (ids_at m c)) 0 1 0 (length xs)
      = Some (length (takeWhile (\<lambda>x. CMP x i > 0) xs) + 1)"
    using m(2) by (intro search_loop_list at) auto
  moreover have "ids_at m 0 = Some (of_nat (length xs))" by (simp add: ids_at_def peek_def m(1))
  ultimately show ?thesis using m(2) by (simp add: mdb_midl_search_def unat_small CMP_sign)
qed

lemma mdb_mid2l_search_rep:
  assumes "id2l_rep ids xs" "sorted_wrt (\<lambda>x y. mid x < mid y) xs"
  shows "mdb_mid2l_search ids i = Some (length (takeWhile (\<lambda>x. mid x < i) xs) + 1)"
proof -
  obtain h junk where m: "ids = h # xs @ junk" "mid h = of_nat (length xs)" "length xs < 2 ^ 31"
    using assms(1) by (auto simp: id2l_rep_def)
  have at: "1 \<le> c \<Longrightarrow> c \<le> length xs \<Longrightarrow> map_option (\<lambda>x. CMP i (mid x)) (peek ids c) = Some (CMP i (mid (xs ! (c - 1))))" for c
    by (cases c) (auto simp: peek_def m(1) nth_append)
  have "sorted_wrt (\<lambda>x y. CMP i (mid x) \<le> 0 \<longrightarrow> CMP i (mid y) < 0) xs"
    by (rule sorted_wrt_mono_rel [OF _ assms(2)]) (auto simp: CMP_sign)
  then have "search_loop (\<lambda>c. map_option (\<lambda>x. CMP i (mid x)) (peek ids c)) 0 1 0 (length xs)
      = Some (length (takeWhile (\<lambda>x. CMP i (mid x) > 0) xs) + 1)"
    using m(3) by (intro search_loop_list at) auto
  moreover have "peek ids 0 = Some h" by (simp add: peek_def m(1))
  ultimately show ?thesis using m(2,3) by (simp add: mdb_mid2l_search_def unat_small CMP_sign)
qed

lemma shift_up_eq: "length a = x \<Longrightarrow> shift_up (a @ b @ y # r) x (x + length b) = Some (a @ hd (b @ [y]) # b @ r)"
proof (induction b arbitrary: y r rule: rev_induct)
  case Nil
  then show ?case by (cases x) simp_all
next
  case (snoc c b)
  have "peek (a @ (b @ [c]) @ y # r) (x + length b) = Some c"
    using snoc.prems by (simp add: peek_def nth_append)
  moreover have "poke (a @ (b @ [c]) @ y # r) (Suc (x + length b)) c = Some (a @ b @ c # c # r)"
    using snoc.prems by (simp add: poke_def list_update_append)
  moreover have "hd ((b @ [c]) @ [y]) = hd (b @ [c])" by (cases b) auto
  ultimately show ?case using snoc.IH [OF snoc.prems, of c "c # r"] by simp
qed

lemma takeWhile_less_dup:
  fixes i :: u64
  assumes "sorted_wrt (\<lambda>x y. mid x < mid y) xs"
  defines "k \<equiv> length (takeWhile (\<lambda>x. mid x < i) xs)"
  shows "(i \<in> mid ` set xs) = (k < length xs \<and> mid (xs ! k) = i)"
proof
  assume "i \<in> mid ` set xs"
  then obtain j where j: "j < length xs" "mid (xs ! j) = i" by (auto simp: in_set_conv_nth)
  have ge: "\<not> j < k"
  proof
    assume "j < k"
    then have "takeWhile (\<lambda>x. mid x < i) xs ! j \<in> set (takeWhile (\<lambda>x. mid x < i) xs)" by (simp add: k_def)
    moreover have "takeWhile (\<lambda>x. mid x < i) xs ! j = xs ! j" using \<open>j < k\<close> by (intro takeWhile_nth) (simp add: k_def)
    ultimately show False using j(2) by (auto dest: set_takeWhileD)
  qed
  then have "k < length xs" using j(1) by simp
  moreover from this have "\<not> mid (xs ! k) < i" unfolding k_def by (rule nth_length_takeWhile)
  then have "\<not> k < j" using sorted_wrt_nth_less [OF assms(1), of k j] j by auto
  ultimately show "k < length xs \<and> mid (xs ! k) = i" using ge j by (metis linorder_neqE_nat)
qed auto

lemma in_set_drop_nth: "y \<in> set (drop k xs) \<Longrightarrow> \<exists>j. k + j < length xs \<and> y = xs ! (k + j)"
proof -
  assume "y \<in> set (drop k xs)"
  then obtain j where "j < length (drop k xs)" "y = drop k xs ! j" unfolding in_set_conv_nth by blast
  then show ?thesis by (intro exI [of _ j]) auto
qed

lemma insert_sorted:
  fixes i :: mdb_id2
  assumes "sorted_wrt (\<lambda>x y. mid x < mid y) xs" "mid i \<notin> mid ` set xs"
  defines "k \<equiv> length (takeWhile (\<lambda>x. mid x < mid i) xs)"
  shows "sorted_wrt (\<lambda>x y. mid x < mid y) (take k xs @ i # drop k xs)"
proof -
  have t: "take k xs = takeWhile (\<lambda>x. mid x < mid i) xs" unfolding k_def by (rule takeWhile_eq_take [symmetric])
  have d: "drop k xs = dropWhile (\<lambda>x. mid x < mid i) xs" unfolding k_def by (rule dropWhile_eq_drop [symmetric])
  have below: "x \<in> set (take k xs) \<Longrightarrow> mid x < mid i" for x unfolding t by (auto dest: set_takeWhileD)
  have above: "mid i < mid y" if y: "y \<in> set (drop k xs)" for y
  proof -
    obtain j where j: "k + j < length xs" "y = xs ! (k + j)"
      using in_set_drop_nth [OF y] by blast
    have "\<not> mid (xs ! k) < mid i" using j(1) unfolding k_def by (intro nth_length_takeWhile) simp
    moreover have "mid (xs ! k) \<le> mid y" using sorted_wrt_nth_less [OF assms(1), of k "k + j"] j by (cases "j = 0") auto
    moreover have "mid y \<noteq> mid i" using assms(2) j nth_mem [OF j(1)] by (metis imageI)
    ultimately show ?thesis by simp
  qed
  have "sorted_wrt (\<lambda>x y. mid x < mid y) (take k xs @ drop k xs)" using assms(1) by simp
  then show ?thesis using below above unfolding sorted_wrt_append by auto
qed

lemma mdb_mid2l_insert_rep:
  assumes rep: "id2l_rep ids xs" and srt: "sorted_wrt (\<lambda>x y. mid x < mid y) xs"
  shows "mid i \<in> mid ` set xs \<Longrightarrow> mdb_mid2l_insert ids i = Some (ids, -1)"
    and "mid i \<notin> mid ` set xs \<Longrightarrow> MDB_IDL_UM_MAX \<le> length xs \<Longrightarrow> mdb_mid2l_insert ids i = Some (ids, -2)"
    and "mid i \<notin> mid ` set xs \<Longrightarrow> length xs < MDB_IDL_UM_MAX \<Longrightarrow> length xs + 2 \<le> length ids \<Longrightarrow>
      \<exists>ids' ys. mdb_mid2l_insert ids i = Some (ids', 0) \<and> id2l_rep ids' ys \<and> length ids' = length ids \<and>
        sorted_wrt (\<lambda>x y. mid x < mid y) ys \<and> set ys = insert i (set xs)"
proof -
  obtain h junk where m: "ids = h # xs @ junk" "mid h = of_nat (length xs)" "length xs < 2 ^ 31"
    using rep by (auto simp: id2l_rep_def)
  define k where "k = length (takeWhile (\<lambda>x. mid x < mid i) xs)"
  have k: "k \<le> length xs" by (simp add: k_def length_takeWhile_le)
  have sr: "mdb_mid2l_search ids (mid i) = Some (k + 1)" unfolding k_def by (rule mdb_mid2l_search_rep [OF rep srt])
  have h: "peek ids 0 = Some h" by (simp add: m(1) peek_def)
  have le: "(of_nat (k + 1) \<le> mid h) = (k < length xs)" unfolding m(2) using m(3) k by (subst le_small) auto
  have pk: "k < length xs \<Longrightarrow> peek ids (k + 1) = Some (xs ! k)" by (simp add: m(1) peek_def nth_append)
  have dup: "(if of_nat (k + 1) \<le> mid h then map_option (\<lambda>v. mid v = mid i) (peek ids (k + 1)) else Some False)
      = Some (mid i \<in> mid ` set xs)"
    using takeWhile_less_dup [OF srt, of "mid i"] pk unfolding le k_def [symmetric] by auto
  have max: "(mid h \<ge> of_nat MDB_IDL_UM_MAX) = (MDB_IDL_UM_MAX \<le> length xs)" unfolding m(2) using m(3) by (subst le_small) auto
  have eq: "mdb_mid2l_insert ids i = (if mid i \<in> mid ` set xs then Some (ids, -1)
      else if MDB_IDL_UM_MAX \<le> length xs then Some (ids, -2)
      else do {
           ids \<leftarrow> poke ids 0 (h\<lparr>mid := mid h + 1\<rparr>);
           ids \<leftarrow> shift_up ids (k + 1) (unat (ucast (mid h + 1) :: 32 word));
           ids \<leftarrow> poke ids (k + 1) i;
           Some (ids, 0)
         })"
    unfolding mdb_mid2l_insert_def sr h by (simp only: Option.bind.simps dup max) simp
  show "mid i \<in> mid ` set xs \<Longrightarrow> mdb_mid2l_insert ids i = Some (ids, -1)" using eq by simp
  show "mid i \<notin> mid ` set xs \<Longrightarrow> MDB_IDL_UM_MAX \<le> length xs \<Longrightarrow> mdb_mid2l_insert ids i = Some (ids, -2)" using eq by simp
  assume new: "mid i \<notin> mid ` set xs" and room: "length xs < MDB_IDL_UM_MAX" "length xs + 2 \<le> length ids"
  obtain y r where junk: "junk = y # r" using room(2) m(1) by (cases junk) auto
  let ?h = "h\<lparr>mid := mid h + 1\<rparr>"
  have cnt: "unat (ucast (mid h + 1) :: 32 word) = (k + 1) + length (drop k xs)"
    using unat_small(2) [of "length xs + 1"] m(2,3) k by (simp add: add.commute)
  have p0: "poke ids 0 ?h = Some ((?h # take k xs) @ drop k xs @ y # r)" by (simp add: m(1) poke_def junk)
  have sh: "shift_up ((?h # take k xs) @ drop k xs @ y # r) (k + 1) ((k + 1) + length (drop k xs))
      = Some ((?h # take k xs) @ hd (drop k xs @ [y]) # drop k xs @ r)"
    using k by (intro shift_up_eq) simp
  have px: "poke ((?h # take k xs) @ hd (drop k xs @ [y]) # drop k xs @ r) (k + 1) i = Some (?h # (take k xs @ i # drop k xs) @ r)"
    using k by (simp add: poke_def list_update_append)
  let ?ys = "take k xs @ i # drop k xs"
  have res: "mdb_mid2l_insert ids i = Some (?h # ?ys @ r, 0)"
    unfolding eq using room(1) by (simp only: new not_le [symmetric] p0 cnt sh px Option.bind.simps simp_thms if_False)
  moreover have "id2l_rep (?h # ?ys @ r) ?ys" using m(2) room(1) k by (auto simp: id2l_rep_def)
  moreover have "set ?ys = insert i (set xs)" by (metis append_take_drop_id list.set(2) set_append Un_insert_right)
  moreover have "sorted_wrt (\<lambda>x y. mid x < mid y) ?ys" unfolding k_def by (rule insert_sorted [OF srt new])
  moreover have "length (?h # ?ys @ r) = length ids" using k by (simp add: m(1) junk)
  ultimately show "\<exists>ids' ys. mdb_mid2l_insert ids i = Some (ids', 0) \<and> id2l_rep ids' ys \<and> length ids' = length ids \<and>
        sorted_wrt (\<lambda>x y. mid x < mid y) ys \<and> set ys = insert i (set xs)"
    by blast
qed

section \<open>Appending\<close>

lemma scast_small: "n < 2 ^ 31 \<Longrightarrow> scast (of_nat n :: u32) = (of_nat n :: u64)"
proof -
  assume n: "n < 2 ^ 31"
  have "sint (of_nat n :: u32) = int n" 
    using n sint_sbintrunc' [where 'a = 32, of "int n"] by (simp add: signed_take_bit_int_eq_self)
  then show ?thesis by (simp add: scast_eq)
qed

lemma bytes_small: "n < 2 ^ 33 \<Longrightarrow> unat ((of_nat n :: u64) * 8) div 8 = n"
proof -
  assume "n < 2 ^ 33"
  then have "unat (of_nat (n * 8) :: u64) = n * 8" unfolding unat_of_nat by simp
  then show ?thesis by simp
qed

lemma mdb_midl_grow_rep:
  assumes "m = of_nat cap # of_nat (length xs) # xs @ junk" "length xs + length junk = cap" "cap + n < 2 ^ 31"
  shows "mdb_midl_grow True jk m (of_nat n) = Some (of_nat (cap + n) # of_nat (length xs) # xs @ junk @ replicate n jk, 0)"
proof -
  have "unat ((of_nat cap + scast (of_nat n :: u32) + 2 :: u64) * 8) div 8 = cap + n + 2"
    using bytes_small [of "cap + n + 2"] assms(3) by (simp add: scast_small algebra_simps)
  then show ?thesis using assms by (simp add: mdb_midl_grow_def peek_def resize_def poke_def scast_small)
qed

lemma idl_repE:
  assumes "idl_rep m xs"
  obtains junk where "m = of_nat (length xs + length junk) # of_nat (length xs) # xs @ junk" "length xs + length junk < 2 ^ 31"
    "ids_at m 0 = Some (of_nat (length xs))" "peek m 0 = Some (of_nat (length xs + length junk))" "length m = length xs + length junk + 2"
  using assms by (auto simp: idl_rep_def ids_at_def peek_def)

text \<open>The step the appending functions share: after it there is room for \<open>n\<close> more words.\<close>

lemma grow_room:
  assumes "idl_rep m xs" "\<not> P \<Longrightarrow> length xs + n + 2 \<le> length m" "n \<le> g" "length m + g < 2 ^ 31"
  obtains js where "(if P then mdb_midl_grow True jk m (of_nat g) else Some (m, 0))
      = Some (of_nat (length xs + length js) # of_nat (length xs) # xs @ js, 0)" "n \<le> length js" "length xs + length js < 2 ^ 31"
proof -
  obtain junk where m: "m = of_nat (length xs + length junk) # of_nat (length xs) # xs @ junk" "length xs + length junk < 2 ^ 31"
    "length m = length xs + length junk + 2"
    by (rule idl_repE [OF assms(1)], rule that)
  show thesis
  proof (cases P)
    case True
    have "mdb_midl_grow True jk m (of_nat g)
        = Some (of_nat (length xs + length junk + g) # of_nat (length xs) # xs @ junk @ replicate g jk, 0)"
      using assms(4) m by (intro mdb_midl_grow_rep) auto
    then show thesis using True assms(3,4) m(3) by (intro that [of "junk @ replicate g jk"]) (auto simp: add.assoc)
  next
    case False
    then show thesis using assms(2) m by (intro that [of junk]) auto
  qed
qed

lemma idl_repI:
  "n = length xs \<Longrightarrow> cap = n + length junk \<Longrightarrow> cap < 2 ^ 31 \<Longrightarrow> idl_rep (of_nat cap # of_nat n # xs @ junk) xs"
  by (auto simp: idl_rep_def)

lemma mdb_midl_append_rep:
  assumes rep: "idl_rep m xs" and big: "length m + MDB_IDL_UM_MAX < 2 ^ 31"
  shows "\<exists>m'. mdb_midl_append True jk m i = Some (m', 0) \<and> idl_rep m' (xs @ [i])"
proof -
  obtain junk :: idl where m: "length xs + length junk < 2 ^ 31" "ids_at m 0 = Some (of_nat (length xs))"
      "peek m 0 = Some (of_nat (length xs + length junk))" "length m = length xs + length junk + 2"
    by (rule idl_repE [OF rep], rule that)
  let ?P = "of_nat (length xs + length junk) \<le> (of_nat (length xs) :: u64)"
  have full: "?P = (junk = [])" using m(1) by (subst le_small) auto
  obtain js where g: "(if ?P then mdb_midl_grow True jk m (of_nat MDB_IDL_UM_MAX) else Some (m, 0))
      = Some (of_nat (length xs + length js) # of_nat (length xs) # xs @ js, 0)" "1 \<le> length js" "length xs + length js < 2 ^ 31"
    using m(4) big unfolding full by (rule_tac grow_room [OF rep, of "junk = []" 1 MDB_IDL_UM_MAX jk]) (auto simp: Suc_le_eq)
  obtain j r where js: "js = j # r" using g(2) by (cases js) auto
  have cnt: "unat (of_nat (length xs) + 1 :: u64) = length xs + 1"
    using unat_small(1) [of "length xs + 1"] m(1) by (simp add: add.commute)
  let ?m = "\<lambda>c ys. of_nat (length xs + length js) # c # ys"
  have "ids_at (?m (of_nat (length xs)) (xs @ js)) 0 = Some (of_nat (length xs))" by (simp add: ids_at_def peek_def)
  moreover have "ids_put (?m (of_nat (length xs)) (xs @ js)) 0 (of_nat (length xs) + 1) = Some (?m (of_nat (length xs) + 1) (xs @ js))"
    by (simp add: ids_put_def poke_def)
  moreover have "ids_put (?m (of_nat (length xs) + 1) (xs @ js)) (length xs + 1) i = Some (?m (of_nat (length xs) + 1) (xs @ i # r))"
    by (simp add: js ids_put_def poke_def list_update_append)
  ultimately have "mdb_midl_append True jk m i = Some (?m (of_nat (length xs) + 1) (xs @ i # r), 0)"
    unfolding mdb_midl_append_def m(2,3) by (simp only: Option.bind.simps g(1) prod.case cnt simp_thms if_False)
  moreover have "idl_rep (?m (of_nat (length xs) + 1) (xs @ i # r)) (xs @ [i])"
    using g(3) idl_repI [of "length xs + 1" "xs @ [i]" "length xs + length js" r] by (simp add: js add.commute)
  ultimately show ?thesis by blast
qed

lemma mdb_midl_append_list_rep:
  assumes rep: "idl_rep m xs" "idl_rep app ys" and big: "length m + length ys < 2 ^ 31"
  shows "\<exists>m'. mdb_midl_append_list True jk m app = Some (m', 0) \<and> idl_rep m' (xs @ ys)"
proof -
  obtain junk :: idl where m: "length xs + length junk < 2 ^ 31" "ids_at m 0 = Some (of_nat (length xs))"
      "peek m 0 = Some (of_nat (length xs + length junk))" "length m = length xs + length junk + 2"
    by (rule idl_repE [OF rep(1)], rule that)
  obtain junk' where a: "app = of_nat (length ys + length junk') # of_nat (length ys) # ys @ junk'" "length ys + length junk' < 2 ^ 31"
      "ids_at app 0 = Some (of_nat (length ys))"
    by (rule idl_repE [OF rep(2)], rule that)
  let ?P = "(of_nat (length xs) + of_nat (length ys) :: u64) \<ge> of_nat (length xs + length junk)"
  have full: "?P = (length junk \<le> length ys)"
    using le_small [of "length xs + length junk" "length xs + length ys"] m(1) a(2) by simp
  have n: "ucast (of_nat (length ys) :: u64) = (of_nat (length ys) :: u32)" using a(2) by (simp add: unsigned_of_nat take_bit_nat_eq_self)
  obtain js where g: "(if ?P then mdb_midl_grow True jk m (of_nat (length ys)) else Some (m, 0))
      = Some (of_nat (length xs + length js) # of_nat (length xs) # xs @ js, 0)" "length ys \<le> length js" "length xs + length js < 2 ^ 31"
    using m(4) big unfolding full by (rule_tac grow_room [OF rep(1), of "length junk \<le> length ys" "length ys" "length ys" jk]) auto
  have un: "unat (of_nat (length xs) :: u64) = length xs" "unat (of_nat (length ys) :: u64) = length ys"
    using m(1) a(2) by (simp_all add: unat_small)
  let ?m = "\<lambda>c zs. of_nat (length xs + length js) # c # zs"
  have "ids_at (?m (of_nat (length xs)) (xs @ js)) 0 = Some (of_nat (length xs))" by (simp add: ids_at_def peek_def)
  moreover have "(if length ys + 2 \<le> length app then Some (take (length ys) (drop 2 app)) else None) = Some ys" by (simp add: a(1))
  moreover have "blit (?m (of_nat (length xs)) (xs @ js)) (length xs + 2) ys = Some (?m (of_nat (length xs)) (xs @ ys @ drop (length ys) js))"
    using g(2) by (simp add: blit_def add.commute)
  moreover have "ids_put (?m (of_nat (length xs)) zs) 0 c = Some (?m c zs)" for zs c by (simp add: ids_put_def poke_def)
  ultimately have "mdb_midl_append_list True jk m app
      = Some (?m (of_nat (length xs) + of_nat (length ys)) (xs @ ys @ drop (length ys) js), 0)"
    unfolding mdb_midl_append_list_def m(2,3) a(3) by (simp only: Option.bind.simps n g(1) prod.case un simp_thms if_False)
  moreover have "idl_rep (?m (of_nat (length xs) + of_nat (length ys)) (xs @ ys @ drop (length ys) js)) (xs @ ys)"
    using g(2,3) idl_repI [of "length xs + length ys" "xs @ ys" "length xs + length js" "drop (length ys) js"] by simp
  ultimately show ?thesis by blast
qed

lemma range_loop_eq:
  "length js = n \<Longrightarrow> length ys = len \<Longrightarrow>
   range_loop (a # c # ys @ js @ r) len i n = Some (a # c # ys @ rev (map (\<lambda>k. i + of_nat k) [0..<n]) @ r)"
proof (induction n arbitrary: i js r)
  case (Suc n)
  obtain js' j where js: "js = js' @ [j]" "length js' = n" using Suc.prems(1) by (metis length_Suc_conv_rev)
  have "ids_put (a # c # ys @ js @ r) (len + Suc n) i = Some (a # c # ys @ js' @ i # r)"
    using js Suc.prems(2) by (simp add: ids_put_def poke_def list_update_append)
  moreover have "range_loop (a # c # ys @ js' @ i # r) len (i + 1) n
      = Some (a # c # ys @ rev (map (\<lambda>k. i + 1 + of_nat k) [0..<n]) @ i # r)"
    by (rule Suc.IH [OF js(2) Suc.prems(2)])
  moreover have "map (\<lambda>k. i + of_nat k) [0..<Suc n] = i # map (\<lambda>k. i + 1 + of_nat k) [0..<n]"
    by (subst upt_conv_Cons) (simp_all add: map_Suc_upt [symmetric] add.assoc del: upt_Suc)
  ultimately show ?case by simp
qed simp

lemma unat_or_bounds: "unat (n :: u32) \<le> unat (n OR k)" "unat (n OR k) \<le> unat n + unat k"
proof -
  show "unat n \<le> unat (n OR k)" using le_word_or2 [of n k] by (simp add: word_le_nat_alt)
  have "n OR k = n + (k AND NOT n)"
    by (subst disjunctive_add) (auto simp: bit_simps intro!: bit_word_eqI)
  moreover have "unat (n + (k AND NOT n)) \<le> unat n + unat (k AND NOT n)" by (simp add: unat_word_ariths)
  moreover have "unat (k AND NOT n) \<le> unat k" using word_and_le2 [of k "NOT n"] by (simp add: word_le_nat_alt)
  ultimately show "unat (n OR k) \<le> unat n + unat k" by (metis add_le_cancel_left le_trans)
qed

lemma mdb_midl_append_range_rep:
  assumes rep: "idl_rep m xs" and big: "length m + unat n + MDB_IDL_UM_MAX < 2 ^ 31"
  shows "\<exists>m'. mdb_midl_append_range True jk m i n = Some (m', 0) \<and> idl_rep m' (xs @ rev (map (\<lambda>k. i + of_nat k) [0..<unat n]))"
proof -
  obtain junk :: idl where m: "length xs + length junk < 2 ^ 31" "ids_at m 0 = Some (of_nat (length xs))"
      "peek m 0 = Some (of_nat (length xs + length junk))" "length m = length xs + length junk + 2"
    by (rule idl_repE [OF rep], rule that)
  have un: "(ucast n :: u64) = of_nat (unat n)" by simp
  let ?P = "(of_nat (length xs) + of_nat (unat n) :: u64) > of_nat (length xs + length junk)"
  have full: "?P = (unat n > length junk)"
    using le_small [of "length xs + unat n" "length xs + length junk"] big m(4) by (auto simp: not_le [symmetric])
  let ?g = "unat (n OR of_nat MDB_IDL_UM_MAX)"
  have or: "unat n \<le> ?g" "?g \<le> unat n + MDB_IDL_UM_MAX" using unat_or_bounds [of n "of_nat MDB_IDL_UM_MAX"] by simp_all
  obtain js where g: "(if ?P then mdb_midl_grow True jk m (of_nat ?g) else Some (m, 0))
      = Some (of_nat (length xs + length js) # of_nat (length xs) # xs @ js, 0)" "unat n \<le> length js" "length xs + length js < 2 ^ 31"
    using m(4) big or unfolding full by (rule_tac grow_room [OF rep, of "unat n > length junk" "unat n" ?g jk]) auto
  have gg: "of_nat ?g = n OR of_nat MDB_IDL_UM_MAX" by simp
  let ?ns = "rev (map (\<lambda>k. i + of_nat k) [0..<unat n])"
  let ?m = "\<lambda>c zs. of_nat (length xs + length js) # c # zs"
  have "ids_put (?m (of_nat (length xs)) zs) 0 c = Some (?m c zs)" for zs c by (simp add: ids_put_def poke_def)
  moreover have "range_loop (?m c (xs @ js)) (length xs) i (unat n) = Some (?m c (xs @ ?ns @ drop (unat n) js))" for c
    using range_loop_eq [of "take (unat n) js" "unat n" xs "length xs" _ c "drop (unat n) js" i] g(2) by simp
  moreover have "unat (of_nat (length xs) :: u64) = length xs" using m(1) by (simp add: unat_small)
  ultimately have "mdb_midl_append_range True jk m i n
      = Some (?m (of_nat (length xs) + of_nat (unat n)) (xs @ ?ns @ drop (unat n) js), 0)"
    unfolding mdb_midl_append_range_def m(2,3) un by (simp only: Option.bind.simps g(1) [unfolded gg] prod.case simp_thms if_False)
  moreover have "idl_rep (?m (of_nat (length xs) + of_nat (unat n)) (xs @ ?ns @ drop (unat n) js)) (xs @ ?ns)"
    using g(2,3) idl_repI [of "length xs + unat n" "xs @ ?ns" "length xs + length js" "drop (unat n) js"] by simp
  ultimately show ?thesis by blast
qed

lemma and_minus_256: "unat ((x::u32) AND (- 256)) = unat x div 256 * 256"
proof -
  have m: "(- 256 :: u32) = NOT (mask 8)" by (simp add: mask_eq_exp_minus_1)
  have "x AND (- 256) = push_bit 8 (drop_bit 8 x)"
    unfolding m by (intro bit_word_eqI) (auto simp only: bit_and_iff bit_not_iff bit_mask_iff bit_push_bit_iff bit_drop_bit_eq o_def not_less le_add_diff_inverse)
  moreover have "push_bit 8 (drop_bit 8 x) = x div 256 * 256"
    by (simp add: push_bit_eq_mult drop_bit_eq_div)
  moreover have "unat (x div 256) = unat x div 256" by (simp add: unat_div_distrib)
  moreover have "unat x div 256 * 256 < 2 ^ 32" using unsigned_less [of x, where ?'a = nat] by simp
  ultimately show ?thesis by (simp add: unat_word_ariths)
qed

text \<open>Reserving room: the list stays, the capacity covers the request.\<close>

lemma mdb_midl_need_rep:
  assumes rep: "idl_rep m xs" and big: "2 * (length xs + unat num) + 258 < 2 ^ 31"
  shows "\<exists>m'. mdb_midl_need True jk m num = Some (m', 0) \<and> idl_rep m' xs \<and> length xs + unat num + 2 \<le> length m'"
proof -
  obtain junk where m: "m = of_nat (length xs + length junk) # of_nat (length xs) # xs @ junk" "length xs + length junk < 2 ^ 31"
    "ids_at m 0 = Some (of_nat (length xs))" "peek m 0 = Some (of_nat (length xs + length junk))" "length m = length xs + length junk + 2"
    by (rule idl_repE [OF rep], rule that)
  let ?t = "length xs + unat num"
  define w where "w = num + ucast (of_nat (length xs) :: u64)"
  have w: "unat w = ?t" using big unat_small(2) [of "length xs"] by (simp add: w_def unat_word_ariths)
  have uw: "(ucast w :: u64) = of_nat ?t" unfolding w [symmetric] by simp
  have full: "(of_nat (length xs + length junk) < (of_nat ?t :: u64)) = (length junk < unat num)"
    using le_small [of ?t "length xs + length junk"] big m(2) by (auto simp: not_le [symmetric])
  define v where "v = (w + w div 4 + (256 + 2)) AND (- 256)"
  have wd: "unat (w div 4) = ?t div 4" using w by (simp add: unat_div_distrib)
  have "unat (w + w div 4 + (256 + 2)) = ?t + ?t div 4 + 258" using big w wd by (simp add: unat_word_ariths)
  then have v: "unat v = (?t + ?t div 4 + 258) div 256 * 256" by (simp add: v_def and_minus_256)
  have "(x :: nat) div 256 * 256 \<le> x" for x by simp
  from this [of "?t + ?t div 4 + 258"] have "unat v \<le> ?t + ?t div 4 + 258" unfolding v .
  also have "\<dots> \<le> 2 * ?t + 258" by simp
  finally have "unat v < 2 ^ 31" using big by (rule le_less_trans)
  moreover have "?t + 2 < unat v" unfolding v by linarith
  ultimately have vb: "?t + 2 < unat v" "unat v < 2 ^ 31" by simp_all
  have "2 \<le> v" using vb(1) by (simp add: word_le_nat_alt)
  then have "unat (v - 2) = unat v - 2" using unat_sub [of 2 v] by simp
  moreover have "(ucast (v - 2) :: u64) = of_nat (unat (v - 2))" by simp
  ultimately have v2: "(ucast (v - 2) :: u64) = of_nat (unat v - 2)" by simp
  have eq: "mdb_midl_need True jk m num = (if length junk < unat num
      then do { m \<leftarrow> poke (resize jk (unat v) m) 0 (of_nat (unat v - 2)); Some (m, 0) } else Some (m, 0))"
    unfolding mdb_midl_need_def m(3,4) by (simp only: Option.bind.simps Let_def w_def [symmetric] uw full v_def [symmetric] v2 simp_thms if_False)
  show ?thesis
  proof (cases "length junk < unat num")
    case True
    let ?j = "junk @ replicate (unat v - length m) jk"
    have "resize jk (unat v) m = m @ replicate (unat v - length m) jk"
      using True vb(1) m(5) by (simp add: resize_def)
    then have "mdb_midl_need True jk m num = Some (of_nat (unat v - 2) # of_nat (length xs) # xs @ ?j, 0)"
      unfolding eq using True by (simp add: poke_def m(1))
    moreover have "idl_rep (of_nat (unat v - 2) # of_nat (length xs) # xs @ ?j) xs"
      using True vb m(5) by (intro idl_repI) auto
    moreover have "?t + 2 \<le> length (of_nat (unat v - 2) # of_nat (length xs) # xs @ ?j)" using True vb(1) m(5) by simp
    ultimately show ?thesis by blast
  next
    case False
    then show ?thesis using rep eq m(5) by simp
  qed
qed

lemma mdb_midl_shrink_rep:
  assumes rep: "idl_rep m xs" and len: "length xs \<le> MDB_IDL_UM_MAX"
  shows "\<exists>m'. mdb_midl_shrink ok jk m = Some m' \<and> idl_rep m' xs \<and> (ok \<longrightarrow> length m' \<le> MDB_IDL_UM_MAX + 2)"
proof -
  obtain junk where m: "m = of_nat (length xs + length junk) # of_nat (length xs) # xs @ junk" "length xs + length junk < 2 ^ 31"
    "ids_at m 0 = Some (of_nat (length xs))" "peek m 0 = Some (of_nat (length xs + length junk))" "length m = length xs + length junk + 2"
    by (rule idl_repE [OF rep], rule that)
  have a: "unat (of_nat (length xs + length junk) :: u64) = length xs + length junk" using m(2) by (intro unat_small) simp
  show ?thesis
  proof (cases "length xs + length junk > MDB_IDL_UM_MAX \<and> ok")
    case True
    let ?j = "take (MDB_IDL_UM_MAX - length xs) junk"
    have "poke (resize jk (MDB_IDL_UM_MAX + 2) m) 0 (of_nat MDB_IDL_UM_MAX) = Some (of_nat MDB_IDL_UM_MAX # of_nat (length xs) # xs @ ?j)"
      using True len m(1,5) by (simp add: resize_def poke_def)
    then have "mdb_midl_shrink ok jk m = Some (of_nat MDB_IDL_UM_MAX # of_nat (length xs) # xs @ ?j)"
      unfolding mdb_midl_shrink_def m(4) using True by (simp only: Option.bind.simps a simp_thms if_True)
    moreover have "idl_rep (of_nat MDB_IDL_UM_MAX # of_nat (length xs) # xs @ ?j) xs"
      using True len by (intro idl_repI) auto
    ultimately show ?thesis using True len by auto
  next
    case False
    then have "mdb_midl_shrink ok jk m = Some m"
      unfolding mdb_midl_shrink_def m(4) by (simp only: Option.bind.simps a if_False)
    then show ?thesis using rep False m(5) by auto
  qed
qed

lemma mdb_midl_alloc_rep: "num < 2 ^ 31 \<Longrightarrow> \<exists>m. mdb_midl_alloc True jk num = Some m \<and> idl_rep m [] \<and> length m = num + 2"
  using idl_repI [of 0 "[]" num "replicate num jk"] by (simp add: mdb_midl_alloc_def)

section \<open>Merging\<close>

text \<open>The merge of two ascending lists; the code works from the ends of two descending ones.\<close>

fun mrg :: "u64 list \<Rightarrow> u64 list \<Rightarrow> u64 list" where
  "mrg us [] = us"
| "mrg us (v # vs) = takeWhile (\<lambda>u. u < v) us @ v # mrg (dropWhile (\<lambda>u. u < v) us) vs"

lemma mset_mrg: "mset (mrg us vs) = mset us + mset vs"
proof (induction us vs rule: mrg.induct)
  case (2 us v vs)
  have "mset us = mset (takeWhile (\<lambda>u. u < v) us) + mset (dropWhile (\<lambda>u. u < v) us)"
    by (metis mset_append takeWhile_dropWhile_id)
  then show ?case using 2 by simp
qed simp

lemma sorted_dropWhile_ge: "sorted us \<Longrightarrow> u \<in> set (dropWhile (\<lambda>u. u < v) us) \<Longrightarrow> (v :: u64) \<le> u"
  by (induction us) (auto split: if_splits)

lemma sorted_mrg: "sorted us \<Longrightarrow> sorted vs \<Longrightarrow> sorted (mrg us vs)"
proof (induction us vs rule: mrg.induct)
  case (2 us v vs)
  let ?d = "dropWhile (\<lambda>u. u < v) us"
  have s: "sorted (mrg ?d vs)" using 2 by (simp add: sorted_dropWhile)
  have d: "\<forall>u\<in>set ?d. v \<le> u"
    using 2(2) sorted_dropWhile_ge by blast
  have "set (mrg ?d vs) = set ?d \<union> set vs" using mset_mrg [of ?d vs] by (metis set_mset_mset set_mset_union)
  then have "\<forall>u\<in>set (mrg ?d vs). v \<le> u" using d 2(3) by auto
  moreover have "\<forall>u\<in>set (takeWhile (\<lambda>u. u < v) us). u < v" by (auto dest: set_takeWhileD)
  ultimately show ?case using s sorted_takeWhile [OF 2(2)] by (fastforce simp: sorted_append)
qed simp

text \<open>The state of the merge: the header word, the delimiter, the IDs still to move, the free words, the
  result so far.\<close>

lemma merge_down_eq:
  "gap \<noteq> [] \<Longrightarrow> \<exists>gap'. length gap' = length gap \<and>
     merge_down (a # (- 1) # xs @ gap @ r) (last ((- 1) # xs)) v (length xs) (length xs + length gap)
     = Some (a # (- 1) # rev (dropWhile (\<lambda>u. u < v) (rev xs)) @ gap' @ rev (takeWhile (\<lambda>u. u < v) (rev xs)) @ r,
         last ((- 1) # rev (dropWhile (\<lambda>u. u < v) (rev xs))), length (dropWhile (\<lambda>u. u < v) (rev xs)),
         length (dropWhile (\<lambda>u. u < v) (rev xs)) + length gap)"
proof (induction xs arbitrary: gap r rule: rev_induct)
  case Nil
  have "\<not> (- 1 :: u64) < v" by (simp add: not_less)
  then show ?case by (subst merge_down.simps) (auto intro: exI [of _ gap])
next
  case (snoc x xs)
  show ?case
  proof (cases "x < v")
    case False
    then show ?thesis by (subst merge_down.simps) (auto intro: exI [of _ gap])
  next
    case True
    obtain gs g where g: "gap = gs @ [g]" using snoc.prems by (metis rev_exhaust)
    let ?k = "length (xs @ [x]) + length gap"
    have put: "ids_put (a # (- 1) # (xs @ [x]) @ gap @ r) ?k x = Some (a # (- 1) # xs @ (x # gs) @ x # r)"
      by (simp add: g ids_put_def poke_def list_update_append)
    have at: "ids_at (a # (- 1) # xs @ (x # gs) @ x # r) (length xs) = Some (last ((- 1) # xs))"
      by (cases xs rule: rev_cases) (simp_all add: ids_at_def peek_def nth_append)
    have "merge_down (a # (- 1) # (xs @ [x]) @ gap @ r) x v (length (xs @ [x])) ?k
        = merge_down (a # (- 1) # xs @ (x # gs) @ x # r) (last ((- 1) # xs)) v (length xs) (length xs + length (x # gs))"
      using True put at by (subst merge_down.simps) (simp add: g)
    then show ?thesis using snoc.IH [of "x # gs" "x # r"] True by (simp add: g)
  qed
qed

lemma merge_loop_eq:
  "length gap = i \<Longrightarrow> i \<le> length ys \<Longrightarrow>
   merge_loop (a # (- 1) # xs @ gap @ r) (b # c # ys @ js) (last ((- 1) # xs)) i (length xs) (length xs + length gap)
   = Some (a # (- 1) # rev (mrg (rev xs) (rev (take i ys))) @ r)"
proof (induction i arbitrary: xs gap r)
  case (Suc i)
  let ?v = "ys ! i"
  let ?d = "dropWhile (\<lambda>u. u < ?v) (rev xs)" and ?t = "takeWhile (\<lambda>u. u < ?v) (rev xs)"
  have gap: "gap \<noteq> []" using Suc.prems(1) by auto
  obtain gap' where dn: "length gap' = length gap" "merge_down (a # (- 1) # xs @ gap @ r) (last ((- 1) # xs)) ?v (length xs) (length xs + length gap)
     = Some (a # (- 1) # rev ?d @ gap' @ rev ?t @ r, last ((- 1) # rev ?d), length ?d, length ?d + length gap)"
    using merge_down_eq [OF gap] by blast
  obtain gs g where g: "gap' = gs @ [g]" "length gs = i" using dn(1) Suc.prems(1) by (metis length_Suc_conv_rev)
  have at: "ids_at (b # c # ys @ js) (Suc i) = Some ?v" using Suc.prems(2) by (simp add: ids_at_def peek_def nth_append)
  have put: "ids_put (a # (- 1) # rev ?d @ gap' @ rev ?t @ r) (length ?d + length gap) ?v = Some (a # (- 1) # rev ?d @ gs @ (?v # rev ?t @ r))"
    using Suc.prems(1) g by (simp add: ids_put_def poke_def list_update_append)
  have "merge_loop (a # (- 1) # rev ?d @ gs @ (?v # rev ?t @ r)) (b # c # ys @ js) (last ((- 1) # rev ?d)) i (length (rev ?d)) (length (rev ?d) + length gs)
      = Some (a # (- 1) # rev (mrg (rev (rev ?d)) (rev (take i ys))) @ ?v # rev ?t @ r)"
    using Suc.prems(2) g(2) by (intro Suc.IH) auto
  moreover have "rev (take (Suc i) ys) = ?v # rev (take i ys)" using Suc.prems(2) by (simp add: take_Suc_conv_app_nth)
  ultimately show ?case using at dn(2) put Suc.prems(1) g(2) by simp
qed simp

lemma mdb_midl_xmerge_rep:
  assumes rep: "idl_rep m xs" "idl_rep m2 ys" and srt: "sorted_wrt (\<ge>) xs" "sorted_wrt (\<ge>) ys"
    and room: "length xs + length ys + 2 \<le> length m"
  shows "\<exists>m'. mdb_midl_xmerge m m2 = Some m' \<and> idl_rep m' (rev (sort (xs @ ys)))"
proof -
  obtain junk where m: "m = of_nat (length xs + length junk) # of_nat (length xs) # xs @ junk" "length xs + length junk < 2 ^ 31"
    "ids_at m 0 = Some (of_nat (length xs))" "peek m 0 = Some (of_nat (length xs + length junk))" "length m = length xs + length junk + 2"
    by (rule idl_repE [OF rep(1)], rule that)
  obtain js where m2: "m2 = of_nat (length ys + length js) # of_nat (length ys) # ys @ js" "length ys + length js < 2 ^ 31"
    "ids_at m2 0 = Some (of_nat (length ys))"
    by (rule idl_repE [OF rep(2)], rule that)
  let ?a = "of_nat (length xs + length junk) :: u64"
  let ?gap = "take (length ys) junk" and ?r = "drop (length ys) junk"
  let ?z = "rev (mrg (rev xs) (rev ys))"
  have len: "length ys \<le> length junk" using room m(5) by simp
  have put: "ids_put m 0 (- 1) = Some (?a # (- 1) # xs @ ?gap @ ?r)" by (simp add: m(1) ids_put_def poke_def)
  have old: "ids_at (?a # (- 1) # xs @ ?gap @ ?r) (length xs) = Some (last ((- 1) # xs))"
    by (cases xs rule: rev_cases) (simp_all add: ids_at_def peek_def nth_append)
  have loop: "merge_loop (?a # (- 1) # xs @ ?gap @ ?r) m2 (last ((- 1) # xs)) (length ys) (length xs) (length ys + length xs) = Some (?a # (- 1) # ?z @ ?r)"
    using merge_loop_eq [of ?gap "length ys" ys ?a xs ?r] len by (simp add: m2(1) add.commute)
  have un: "unat (of_nat (length xs) :: u64) = length xs" "unat (of_nat (length ys) :: u64) = length ys"
      "unat (of_nat (length ys) + of_nat (length xs) :: u64) = length ys + length xs"
    using m(2) m2(2) unat_small(1) [of "length ys + length xs"] by (simp_all add: unat_small)
  have "mdb_midl_xmerge m m2 = Some (?a # (of_nat (length ys) + of_nat (length xs)) # ?z @ ?r)"
    unfolding mdb_midl_xmerge_def m(3) m2(3)
    by (simp only: Option.bind.simps put un old loop) (simp add: ids_put_def poke_def)
  moreover have lz: "length ?z = length ys + length xs" using arg_cong [OF mset_mrg [of "rev xs" "rev ys"], of size] by simp
  then have "idl_rep (?a # (of_nat (length ys) + of_nat (length xs)) # ?z @ ?r) ?z"
    using idl_repI [of "length ys + length xs" ?z "length xs + length junk" ?r] m(2) len by simp
  moreover have "mrg (rev xs) (rev ys) = sort (xs @ ys)"
    using srt by (intro properties_for_sort [symmetric] sorted_mrg) (simp_all add: mset_mrg sorted_wrt_rev)
  ultimately show ?thesis by auto
qed

section \<open>Property\<close>

text \<open>Inserting into an ordered list of ID/pointer pairs keeps it ordered and free of duplicates: an ID that
  is present is refused with -1, a full list with -2, and otherwise the new pair is added; the array is not
  left, and what is refused changes nothing.\<close>

theorem mdb_mid2l_insert_correct:
  assumes "id2l_rep ids xs" "sorted_wrt (\<lambda>x y. mid x < mid y) xs" "length xs + 2 \<le> length ids"
  shows "\<exists>ids' rc ys. mdb_mid2l_insert ids i = Some (ids', rc) \<and> id2l_rep ids' ys \<and> sorted_wrt (\<lambda>x y. mid x < mid y) ys \<and>
    length ids' = length ids \<and>
    (if mid i \<in> mid ` set xs then rc = -1 \<and> ids' = ids
     else if MDB_IDL_UM_MAX \<le> length xs then rc = -2 \<and> ids' = ids
     else rc = 0 \<and> set ys = insert i (set xs))"
proof -
  note ins = mdb_mid2l_insert_rep [OF assms(1,2), of i]
  consider "mid i \<in> mid ` set xs" | "mid i \<notin> mid ` set xs" "MDB_IDL_UM_MAX \<le> length xs"
    | "mid i \<notin> mid ` set xs" "length xs < MDB_IDL_UM_MAX" by linarith
  then show ?thesis
  proof cases
    case 1
    then show ?thesis using ins(1) assms by (intro exI [of _ ids] exI [of _ "- 1"] exI [of _ xs]) simp
  next
    case 2
    then show ?thesis using ins(2) assms by (intro exI [of _ ids] exI [of _ "- 2"] exI [of _ xs]) simp
  next
    case 3
    then show ?thesis using ins(3) assms(3) by fastforce
  qed
qed

theorem mdb_mid2l_insert_correct_witness:
  "\<exists>ids' rc ys. mdb_mid2l_insert [\<lparr>mid = 2, mptr = 0\<rparr>, \<lparr>mid = 3, mptr = 30\<rparr>, \<lparr>mid = 8, mptr = 80\<rparr>, \<lparr>mid = 0, mptr = 0\<rparr>] \<lparr>mid = 5, mptr = 50\<rparr>
      = Some (ids', rc) \<and> rc = 0 \<and> set ys = {\<lparr>mid = 5, mptr = 50\<rparr>, \<lparr>mid = 3, mptr = 30\<rparr>, \<lparr>mid = 8, mptr = 80\<rparr>} \<and>
      id2l_rep ids' ys"
proof -
  have "id2l_rep [\<lparr>mid = 2, mptr = 0\<rparr>, \<lparr>mid = 3, mptr = 30\<rparr>, \<lparr>mid = 8, mptr = 80\<rparr>, \<lparr>mid = 0, mptr = 0\<rparr>]
      [\<lparr>mid = 3, mptr = 30\<rparr>, \<lparr>mid = 8, mptr = 80\<rparr>]" by (auto simp: id2l_rep_def)
  from mdb_mid2l_insert_correct [OF this, of "\<lparr>mid = 5, mptr = 50\<rparr>"] show ?thesis by auto
qed

end
