(* ===== verification/Midl_Sort.thy ===== *)
theory Midl_Sort
  imports Midl
begin

text \<open>
  Sorting an ID list, \<^verbatim>\<open>mdb_midl_sort\<close> of \<^verbatim>\<open>src/liblmdb/midl.c\<close>: a quicksort with an explicit stack of
  segments that leaves segments of at most eight IDs to an insertion sort. The array \<open>ids\<close> starts at the
  count, so positions are those of the source. Every access is checked: to the array, to the stack of 64
  numbers, and the sum \<open>l + ir\<close>, which is undefined when it leaves the range of \<open>int\<close>. The theorem is
  that the function returns, with the same IDs in descending order.
\<close>

section \<open>The code\<close>

abbreviation (input) SMALL :: nat where "SMALL \<equiv> 8"
abbreviation (input) INT_MAX :: nat where "INT_MAX \<equiv> 2147483647"

definition MIDL_SWAP :: "u64 list \<Rightarrow> nat \<Rightarrow> nat \<Rightarrow> u64 list option" where
  "MIDL_SWAP ids a b = do {
     itmp \<leftarrow> peek ids a;
     y \<leftarrow> peek ids b;
     ids \<leftarrow> poke ids a y;
     poke ids b itmp
   }"

definition swap_if_less :: "u64 list \<Rightarrow> nat \<Rightarrow> nat \<Rightarrow> u64 list option" where
  "swap_if_less ids a b = do {
     x \<leftarrow> peek ids a;
     y \<leftarrow> peek ids b;
     (if x < y then MIDL_SWAP ids a b else Some ids)
   }"

text \<open>The inner loop of the insertion sort with the store that follows it.\<close>

fun ins_loop :: "u64 list \<Rightarrow> nat \<Rightarrow> u64 \<Rightarrow> u64 list option" where
  "ins_loop ids 0 a = poke ids 1 a"
| "ins_loop ids (Suc i) a = do {
     x \<leftarrow> peek ids (Suc i);
     (if x \<ge> a then poke ids (Suc i + 1) a
      else do { ids \<leftarrow> poke ids (Suc i + 1) x; ins_loop ids i a })
   }"

function insertion :: "u64 list \<Rightarrow> nat \<Rightarrow> nat \<Rightarrow> u64 list option" where
  "insertion ids j ir =
     (if j \<le> ir then
        (case peek ids j of
           None \<Rightarrow> None
         | Some a \<Rightarrow> (case ins_loop ids (j - 1) a of None \<Rightarrow> None | Some ids' \<Rightarrow> insertion ids' (j + 1) ir))
      else Some ids)"
  by pat_completeness auto

termination
  by (relation "measure (\<lambda>(_, j, ir). ir + 1 - j)") auto

text \<open>\<^verbatim>\<open>do i++; while (ids[i] > a);\<close> and its counterpart from above, which may not pass below position 0.\<close>

function scan_up :: "u64 list \<Rightarrow> u64 \<Rightarrow> nat \<Rightarrow> nat option" where
  "scan_up ids a i =
     (case peek ids (i + 1) of None \<Rightarrow> None | Some x \<Rightarrow> if x > a then scan_up ids a (i + 1) else Some (i + 1))"
  by pat_completeness auto

termination
  by (relation "measure (\<lambda>(ids, _, i). length ids - i)") (auto simp: peek_def split: if_splits)

fun scan_down :: "u64 list \<Rightarrow> u64 \<Rightarrow> nat \<Rightarrow> nat option" where
  "scan_down ids a 0 = None"
| "scan_down ids a (Suc j) =
     (case peek ids j of None \<Rightarrow> None | Some x \<Rightarrow> if x < a then scan_down ids a j else Some j)"

lemma scan_down_less: "scan_down ids a j = Some j' \<Longrightarrow> j' < j"
  by (induction ids a j rule: scan_down.induct) (auto split: option.splits if_splits)

function partition_loop :: "u64 list \<Rightarrow> u64 \<Rightarrow> nat \<Rightarrow> nat \<Rightarrow> (u64 list \<times> nat \<times> nat) option" where
  "partition_loop ids a i j =
     (case scan_up ids a i of
        None \<Rightarrow> None
      | Some i' \<Rightarrow>
          (case scan_down ids a j of
             None \<Rightarrow> None
           | Some j' \<Rightarrow>
               if j' < i' then Some (ids, i', j')
               else (case MIDL_SWAP ids i' j' of None \<Rightarrow> None | Some ids' \<Rightarrow> partition_loop ids' a i' j')))"
  by pat_completeness auto

termination
  by (relation "measure (\<lambda>(_, _, _, j). j)") (auto dest: scan_down_less)

declare ins_loop.simps [simp del] insertion.simps [simp del] scan_up.simps [simp del]
  scan_down.simps [simp del] partition_loop.simps [simp del]

text \<open>The median of three and the partition of a segment: the array and the two bounds where the scans met.\<close>

definition midl_partition :: "u64 list \<Rightarrow> nat \<Rightarrow> nat \<Rightarrow> (u64 list \<times> nat \<times> nat) option" where
  "midl_partition ids l ir = do {
     k \<leftarrow> (if l + ir \<le> INT_MAX then Some ((l + ir) div 2) else None);
     ids \<leftarrow> MIDL_SWAP ids k (l + 1);
     ids \<leftarrow> swap_if_less ids l ir;
     ids \<leftarrow> swap_if_less ids (l + 1) ir;
     ids \<leftarrow> swap_if_less ids l (l + 1);
     a \<leftarrow> peek ids (l + 1);
     (ids, i, j) \<leftarrow> partition_loop ids a (l + 1) ir;
     x \<leftarrow> peek ids j;
     ids \<leftarrow> poke ids (l + 1) x;
     ids \<leftarrow> poke ids j a;
     Some (ids, i, j)
   }"

text \<open>The words of a segment and of the segments on the stack.\<close>

definition seg_len :: "nat \<Rightarrow> nat \<Rightarrow> nat" where
  "seg_len l ir = ir + 1 - l"

fun stack_len :: "nat list \<Rightarrow> nat \<Rightarrow> nat" where
  "stack_len istack (Suc (Suc n)) = seg_len (istack ! (n + 1)) (istack ! (n + 2)) + stack_len istack n"
| "stack_len istack _ = 0"

lemma scan_up_greater: "scan_up ids a i = Some i' \<Longrightarrow> i < i'"
  by (induction ids a i rule: scan_up.induct) (subst (asm) (2) scan_up.simps, auto split: option.splits if_splits)

lemma partition_loop_bounds: "partition_loop ids a i j = Some (ids', i', j') \<Longrightarrow> i < i' \<and> j' < j \<and> j' < i'"
proof (induction ids a i j rule: partition_loop.induct)
  case (1 ids a i j)
  then show ?case
    by (subst (asm) (2) partition_loop.simps)
      (fastforce split: option.splits if_splits dest: scan_up_greater scan_down_less)
qed

lemma midl_partition_bounds: "midl_partition ids l ir = Some (ids', i, j) \<Longrightarrow> l + 1 < i \<and> j < ir \<and> j < i"
  by (auto simp: midl_partition_def bind_eq_Some_conv dest!: partition_loop_bounds)

lemma stack_len_upd: "n < k \<Longrightarrow> stack_len (istack[k := v]) n = stack_len istack n"
  by (induction istack n rule: stack_len.induct) auto

definition push_seg :: "nat list \<Rightarrow> nat \<Rightarrow> nat \<Rightarrow> nat \<Rightarrow> nat list option" where
  "push_seg istack jstack lo hi = do { istack \<leftarrow> poke istack jstack hi; poke istack (jstack - 1) lo }"

lemma stack_len_pop: "Suc 0 < jstack \<Longrightarrow> stack_len istack jstack = seg_len (istack ! (jstack - 1)) (istack ! jstack) + stack_len istack (jstack - 2)"
  by (cases "(istack, jstack)" rule: stack_len.cases) auto

lemma stack_len_push:
  "push_seg istack (jstack + 2) lo hi = Some istack' \<Longrightarrow> stack_len istack' (jstack + 2) = seg_len lo hi + stack_len istack jstack"
  by (auto simp: push_seg_def poke_def bind_eq_Some_conv stack_len_upd split: if_splits)

lemma seg_len_split:
  "l + SMALL \<le> ir \<Longrightarrow> l + 1 < i \<Longrightarrow> j < ir \<Longrightarrow> j < i \<Longrightarrow> seg_len l (j - 1) + seg_len i ir < seg_len l ir"
  by (cases "j = 0") (auto simp: seg_len_def)

function sort_loop :: "u64 list \<Rightarrow> nat list \<Rightarrow> nat \<Rightarrow> nat \<Rightarrow> nat \<Rightarrow> u64 list option" where
  "sort_loop ids istack jstack l ir =
     (if ir < l + SMALL then
        (case insertion ids (l + 1) ir of
           None \<Rightarrow> None
         | Some ids' \<Rightarrow>
             if jstack = 0 then Some ids'
             else if jstack = 1 then None
             else (case peek istack jstack of
                     None \<Rightarrow> None
                   | Some ir' \<Rightarrow>
                       (case peek istack (jstack - 1) of
                          None \<Rightarrow> None
                        | Some l' \<Rightarrow> sort_loop ids' istack (jstack - 2) l' ir')))
      else
        (case midl_partition ids l ir of
           None \<Rightarrow> None
         | Some (ids', i, j) \<Rightarrow>
             if ir + 1 + l \<ge> j + i then
               (case push_seg istack (jstack + 2) i ir of
                  None \<Rightarrow> None | Some istack' \<Rightarrow> sort_loop ids' istack' (jstack + 2) l (j - 1))
             else
               (case push_seg istack (jstack + 2) l (j - 1) of
                  None \<Rightarrow> None | Some istack' \<Rightarrow> sort_loop ids' istack' (jstack + 2) i ir)))"
  by pat_completeness auto

termination
proof (relation "measures [\<lambda>(_, istack, jstack, l, ir). seg_len l ir + stack_len istack jstack, \<lambda>(_, _, jstack, _, _). jstack]", goal_cases)
  case (2 ids istack jstack l ir ids' ir' l')
  then show ?case using stack_len_pop [of jstack istack] by (auto simp: peek_def split: if_splits)
next
  case (3 ids istack jstack l ir p ids' q i j istack')
  then show ?case using midl_partition_bounds [of ids l ir ids' i j] stack_len_push [of istack jstack i ir istack'] seg_len_split [of l ir i j]
    by auto
next
  case (4 ids istack jstack l ir p ids' q i j istack')
  then show ?case using midl_partition_bounds [of ids l ir ids' i j] stack_len_push [of istack jstack l "j - 1" istack'] seg_len_split [of l ir i j]
    by auto
qed simp

declare sort_loop.simps [simp del]

text \<open>The whole function on the object of the list; \<open>istack\<close> is what the stack frame held.\<close>

definition mdb_midl_sort :: "nat list \<Rightarrow> idl \<Rightarrow> idl option" where
  "mdb_midl_sort istack m = do {
     c \<leftarrow> ids_at m 0;
     ids \<leftarrow> sort_loop (tl m) istack 0 1 (nat (sint (ucast c :: u32)));
     Some (hd m # ids)
   }"

section \<open>Rearranging a segment\<close>

definition rearr :: "nat \<Rightarrow> nat \<Rightarrow> u64 list \<Rightarrow> u64 list \<Rightarrow> bool" where
  "rearr l r xs ys \<longleftrightarrow> mset ys = mset xs \<and> (\<forall>k<length xs. k < l \<or> r < k \<longrightarrow> ys ! k = xs ! k)"

lemma rearr_refl [simp]: "rearr l r xs xs"
  by (simp add: rearr_def)

lemma rearr_length: "rearr l r xs ys \<Longrightarrow> length ys = length xs"
  by (auto simp: rearr_def dest: mset_eq_length)

lemma rearr_trans: "rearr l r xs ys \<Longrightarrow> rearr l r ys zs \<Longrightarrow> rearr l r xs zs"
  using rearr_length [of l r xs ys] by (auto simp: rearr_def)

lemma rearr_mono: "rearr l r xs ys \<Longrightarrow> l' \<le> l \<Longrightarrow> r \<le> r' \<Longrightarrow> rearr l' r' xs ys"
  by (auto simp: rearr_def)

lemma rearr_outside: "rearr l r xs ys \<Longrightarrow> k < length xs \<Longrightarrow> k < l \<or> r < k \<Longrightarrow> ys ! k = xs ! k"
  by (auto simp: rearr_def)

lemma rearr_inside:
  assumes "rearr l r xs ys" "r < length xs" "l \<le> k" "k \<le> r"
  obtains k' where "l \<le> k'" "k' \<le> r" "ys ! k = xs ! k'"
proof -
  let ?seg = "\<lambda>zs. take (r + 1 - l) (drop l zs)"
  have len: "length ys = length xs" by (rule rearr_length [OF assms(1)])
  have split: "zs = take l zs @ ?seg zs @ drop (r + 1) zs" for zs :: "u64 list"
    using assms(3,4) by (metis append_take_drop_id drop_drop le_add_diff_inverse2 le_trans trans_le_add1)
  have eqs: "take l ys = take l xs" "drop (r + 1) ys = drop (r + 1) xs"
    using assms(1,2) len by (auto simp: rearr_def intro!: nth_equalityI)
  have ms: "mset zs = mset (take l zs) + mset (?seg zs) + mset (drop (r + 1) zs)" for zs :: "u64 list"
    by (subst split) (simp only: mset_append add.assoc)
  have "mset ys = mset xs" using assms(1) by (simp add: rearr_def)
  then have "mset (?seg ys) = mset (?seg xs)" unfolding ms [of ys] ms [of xs] eqs by simp
  then have "set (?seg ys) = set (?seg xs)" by (metis set_mset_mset)
  moreover have "ys ! k \<in> set (?seg ys)"
    using assms(2-4) len by (auto simp: in_set_conv_nth intro!: exI [of _ "k - l"])
  ultimately obtain n where "n < length (?seg xs)" "ys ! k = ?seg xs ! n" by (metis in_set_conv_nth)
  then show thesis using assms(2) by (intro that [of "l + n"]) auto
qed

lemma MIDL_SWAP_eq:
  "a < length xs \<Longrightarrow> b < length xs \<Longrightarrow> MIDL_SWAP xs a b = Some (xs[a := xs ! b, b := xs ! a])"
  by (simp add: MIDL_SWAP_def peek_def poke_def)

lemma rearr_swap:
  "l \<le> a \<Longrightarrow> a \<le> r \<Longrightarrow> l \<le> b \<Longrightarrow> b \<le> r \<Longrightarrow> r < length xs \<Longrightarrow> rearr l r xs (xs[a := xs ! b, b := xs ! a])"
  by (auto simp: rearr_def mset_swap nth_list_update)

lemma swap_if_less_eq:
  assumes "a < length xs" "b < length xs" "a \<noteq> b"
  defines "ys \<equiv> (if xs ! a < xs ! b then xs[a := xs ! b, b := xs ! a] else xs)"
  shows "swap_if_less xs a b = Some ys" "ys ! a \<ge> ys ! b" "{ys ! a, ys ! b} = {xs ! a, xs ! b}"
    "\<And>k. k \<noteq> a \<Longrightarrow> k \<noteq> b \<Longrightarrow> ys ! k = xs ! k"
  using assms(1-3) by (auto simp: swap_if_less_def peek_def MIDL_SWAP_eq ys_def nth_list_update)

section \<open>The insertion sort of a segment\<close>

lemma ins_loop_eq:
  assumes "pre \<noteq> []" "length pre = 1 \<or> a \<le> last pre" "\<forall>y\<in>set lo. y < a"
  shows "ins_loop (pre @ lo @ x # rest) (length pre + length lo - 1) a = Some (pre @ a # lo @ rest)"
  using assms(3)
proof (induction lo arbitrary: x rest rule: rev_induct)
  case Nil
  show ?case
  proof (cases "length pre = 1")
    case True
    then show ?thesis by (simp add: ins_loop.simps poke_def list_update_append)
  next
    case False
    then obtain n where n: "length pre = Suc (Suc n)" using assms(1) by (cases pre; cases "tl pre") auto
    then have "pre ! Suc n = last pre" using assms(1) by (simp add: last_conv_nth)
    then show ?thesis using False assms(2) n by (simp add: ins_loop.simps peek_def poke_def nth_append list_update_append)
  qed
next
  case (snoc c lo)
  obtain n where n: "length pre + length lo = Suc n" using assms(1) by (cases pre) auto
  have "peek (pre @ (lo @ [c]) @ x # rest) (Suc n) = Some c" by (simp add: peek_def nth_append flip: n)
  moreover have "poke (pre @ (lo @ [c]) @ x # rest) (Suc n + 1) c = Some (pre @ lo @ c # c # rest)"
    by (simp add: poke_def list_update_append flip: n)
  moreover have "ins_loop (pre @ lo @ c # c # rest) n a = Some (pre @ a # lo @ c # rest)"
    using snoc.IH [of c "c # rest"] snoc.prems n by simp
  ultimately have "ins_loop (pre @ (lo @ [c]) @ x # rest) (Suc n) a = Some (pre @ a # (lo @ [c]) @ rest)"
    using snoc.prems by (subst ins_loop.simps) (auto simp: not_le)
  then show ?case using n by simp
qed

lemma desc_split:
  assumes "sorted_wrt (\<ge>) seg"
  shows "\<forall>y\<in>set (dropWhile (\<lambda>y. a \<le> y) seg). y < (a :: u64)"
    "sorted_wrt (\<ge>) (takeWhile (\<lambda>y. a \<le> y) seg @ a # dropWhile (\<lambda>y. a \<le> y) seg)"
proof -
  show lo: "\<forall>y\<in>set (dropWhile (\<lambda>y. a \<le> y) seg). y < a"
    using assms by (induction seg) auto
  have "sorted_wrt (\<ge>) (takeWhile (\<lambda>y. a \<le> y) seg @ dropWhile (\<lambda>y. a \<le> y) seg)" using assms by simp
  then show "sorted_wrt (\<ge>) (takeWhile (\<lambda>y. a \<le> y) seg @ a # dropWhile (\<lambda>y. a \<le> y) seg)"
    using lo unfolding sorted_wrt_append by (auto dest: set_takeWhileD)
qed

lemma insertion_eq:
  assumes "pre \<noteq> []" "sorted_wrt (\<ge>) seg" "length pre = 1 \<or> (\<forall>y\<in>set todo. y \<le> last pre)"
  shows "\<exists>seg'. insertion (pre @ seg @ todo @ rest) (length pre + length seg) (length pre + length seg + length todo - 1)
      = Some (pre @ seg' @ rest) \<and> sorted_wrt (\<ge>) seg' \<and> mset seg' = mset (seg @ todo)"
  using assms(2,3)
proof (induction todo arbitrary: seg)
  case Nil
  have "\<not> length pre + length seg \<le> length pre + length seg + length [] - 1" using assms(1) by (cases pre) auto
  then show ?case using Nil by (subst insertion.simps) (auto intro: exI [of _ seg])
next
  case (Cons a todo)
  let ?hi = "takeWhile (\<lambda>y. a \<le> y) seg" and ?lo = "dropWhile (\<lambda>y. a \<le> y) seg"
  let ?seg = "?hi @ a # ?lo" and ?j = "length pre + length seg"
  have len: "length seg = length ?hi + length ?lo" by (metis length_append takeWhile_dropWhile_id)
  have "length (pre @ ?hi) = 1 \<or> a \<le> last (pre @ ?hi)"
    using Cons.prems(2) assms(1) by (cases "?hi = []") (auto dest!: last_in_set set_takeWhileD)
  then have "ins_loop ((pre @ ?hi) @ ?lo @ a # todo @ rest) (length (pre @ ?hi) + length ?lo - 1) a = Some ((pre @ ?hi) @ a # ?lo @ todo @ rest)"
    using assms(1) desc_split(1) [OF Cons.prems(1)] by (intro ins_loop_eq) auto
  moreover have "(pre @ ?hi) @ ?lo @ a # todo @ rest = pre @ seg @ (a # todo) @ rest"
    by (metis append_assoc append_Cons takeWhile_dropWhile_id)
  moreover have "length (pre @ ?hi) + length ?lo = ?j" using len by simp
  ultimately have ins: "ins_loop (pre @ seg @ (a # todo) @ rest) (?j - 1) a = Some (pre @ ?seg @ todo @ rest)"
    by (simp only: append_assoc append_Cons)
  have "peek (pre @ seg @ (a # todo) @ rest) ?j = Some a" by (simp add: peek_def nth_append)
  then have step: "insertion (pre @ seg @ (a # todo) @ rest) ?j (?j + length (a # todo) - 1)
      = insertion (pre @ ?seg @ todo @ rest) (length pre + length ?seg) (length pre + length ?seg + length todo - 1)"
    using ins len by (subst insertion.simps) simp
  obtain seg' where "insertion (pre @ ?seg @ todo @ rest) (length pre + length ?seg) (length pre + length ?seg + length todo - 1)
      = Some (pre @ seg' @ rest)" "sorted_wrt (\<ge>) seg'" "mset seg' = mset (?seg @ todo)"
    using Cons.IH [OF desc_split(2) [OF Cons.prems(1)]] Cons.prems(2) by auto
  moreover have "mset seg = mset ?hi + mset ?lo" by (metis mset_append takeWhile_dropWhile_id)
  ultimately show ?case unfolding step by (intro exI [of _ seg']) simp
qed

lemma insertion_seg:
  assumes "1 \<le> l" "l \<le> ir" "ir < length ids" "l = 1 \<or> (\<forall>q. l \<le> q \<and> q \<le> ir \<longrightarrow> ids ! q \<le> ids ! (l - 1))"
  shows "\<exists>ids'. insertion ids (l + 1) ir = Some ids' \<and> rearr l ir ids ids' \<and>
    (\<forall>p q. l \<le> p \<and> p < q \<and> q \<le> ir \<longrightarrow> ids' ! q \<le> ids' ! p)"
proof -
  let ?pre = "take l ids" and ?todo = "take (ir - l) (drop (l + 1) ids)" and ?rest = "drop (ir + 1) ids"
  have pre: "?pre \<noteq> []" "length ?pre = l" using assms(1-3) by auto
  then have lst: "last ?pre = ids ! (l - 1)" using assms(1) by (simp add: last_conv_nth)
  have split: "ids = ?pre @ [ids ! l] @ ?todo @ ?rest"
  proof -
    have "drop (l + 1) ids = ?todo @ ?rest" using assms(2) append_take_drop_id [of "ir - l" "drop (l + 1) ids"] by simp
    moreover have "ids = ?pre @ ids ! l # drop (l + 1) ids" using assms(2,3) id_take_nth_drop [of l ids] by simp
    ultimately show ?thesis by simp
  qed
  have lt: "length ?todo = ir - l" using assms(2,3) by simp
  have "length ?pre = 1 \<or> (\<forall>y\<in>set ?todo. y \<le> last ?pre)"
    using assms(1-4) unfolding pre(2) lst by (auto simp: in_set_conv_nth)
  then obtain seg' where s: "insertion (?pre @ [ids ! l] @ ?todo @ ?rest) (length ?pre + length [ids ! l])
      (length ?pre + length [ids ! l] + length ?todo - 1) = Some (?pre @ seg' @ ?rest)"
      "sorted_wrt (\<ge>) seg'" "mset seg' = mset ([ids ! l] @ ?todo)"
    using insertion_eq [OF pre(1), of "[ids ! l]" ?todo ?rest] by auto
  have ls: "length seg' = ir - l + 1" using mset_eq_length [OF s(3)] lt by simp
  have "insertion ids (l + 1) ir = Some (?pre @ seg' @ ?rest)"
    using s(1) assms(2) unfolding split [symmetric] pre(2) lt by simp
  moreover have "rearr l ir ids (?pre @ seg' @ ?rest)"
    unfolding rearr_def
  proof
    show "mset (?pre @ seg' @ ?rest) = mset ids" by (subst (3) split) (simp only: mset_append s(3) ac_simps)
    show "\<forall>k<length ids. k < l \<or> ir < k \<longrightarrow> (?pre @ seg' @ ?rest) ! k = ids ! k"
      using assms(2,3) ls by (auto simp: nth_append)
  qed
  moreover have "(?pre @ seg' @ ?rest) ! q \<le> (?pre @ seg' @ ?rest) ! p" if "l \<le> p" "p < q" "q \<le> ir" for p q
  proof -
    have at: "(?pre @ seg' @ ?rest) ! k = seg' ! (k - l)" if "l \<le> k" "k \<le> ir" for k
    proof -
      have "k - l < length seg'" using that ls by simp
      then show ?thesis using that pre(2) by (simp only: nth_append) simp
    qed
    have "p - l < q - l" "q - l < length seg'" using that ls by auto
    then have "seg' ! (q - l) \<le> seg' ! (p - l)" by (rule sorted_wrt_nth_less [OF s(2)])
    then show ?thesis using that at [of p] at [of q] by simp
  qed
  ultimately show ?thesis by blast
qed

section \<open>The partition of a segment\<close>

lemma scan_up_spec:
  assumes "i < s" "s < length ids" "ids ! s \<le> a"
  shows "\<exists>i'. scan_up ids a i = Some i' \<and> i < i' \<and> i' \<le> s \<and> ids ! i' \<le> a \<and> (\<forall>k. i < k \<and> k < i' \<longrightarrow> a < ids ! k)"
  using assms
proof (induction ids a i rule: scan_up.induct)
  case (1 ids a i)
  have pk: "peek ids (i + 1) = Some (ids ! (i + 1))" using "1.prems" by (simp add: peek_def)
  show ?case
  proof (cases "a < ids ! (i + 1)")
    case True
    then have "i + 1 < s" using "1.prems" by (metis Suc_eq_plus1 Suc_lessI linorder_not_le)
    with 1 pk True obtain i' where i': "scan_up ids a (i + 1) = Some i'" "i + 1 < i'" "i' \<le> s" "ids ! i' \<le> a"
      "\<forall>k. i + 1 < k \<and> k < i' \<longrightarrow> a < ids ! k" by blast
    moreover have "a < ids ! k" if "i < k" "k < i'" for k using that i'(5) True by (cases "k = i + 1") auto
    ultimately show ?thesis using True pk by (subst scan_up.simps) auto
  next
    case False
    then show ?thesis using pk "1.prems" by (subst scan_up.simps) (auto simp: not_less)
  qed
qed

lemma scan_down_spec:
  assumes "s < j" "j \<le> length ids" "a \<le> ids ! s"
  shows "\<exists>j'. scan_down ids a j = Some j' \<and> s \<le> j' \<and> j' < j \<and> a \<le> ids ! j' \<and> (\<forall>k. j' < k \<and> k < j \<longrightarrow> ids ! k < a)"
  using assms
proof (induction j)
  case (Suc j)
  have pk: "peek ids j = Some (ids ! j)" using Suc.prems by (simp add: peek_def)
  show ?case
  proof (cases "ids ! j < a")
    case True
    then have "s < j" using Suc.prems by (metis less_antisym linorder_not_le)
    with Suc obtain j' where j': "scan_down ids a j = Some j'" "s \<le> j'" "j' < j" "a \<le> ids ! j'" "\<forall>k. j' < k \<and> k < j \<longrightarrow> ids ! k < a"
      by auto
    moreover have "ids ! k < a" if "j' < k" "k < Suc j" for k using that j'(5) True by (cases "k = j") auto
    ultimately show ?thesis using True pk by (auto simp: scan_down.simps)
  next
    case False
    then show ?thesis using pk Suc.prems by (auto simp: scan_down.simps not_less)
  qed
qed simp

lemma partition_loop_spec:
  assumes "s \<le> i" "i \<le> j" "s < j" "i < ir" "j \<le> ir" "ir < length ids" "ids ! s = a"
    "\<forall>k. s < k \<and> k \<le> i \<longrightarrow> a \<le> ids ! k" "\<forall>k. j \<le> k \<and> k \<le> ir \<longrightarrow> ids ! k \<le> a"
  shows "\<exists>ids' i' j'. partition_loop ids a i j = Some (ids', i', j') \<and> rearr (s + 1) ir ids ids' \<and> s \<le> j' \<and> j' < i' \<and> i' \<le> ir \<and> j' < ir \<and>
    (\<forall>k. s \<le> k \<and> k < i' \<longrightarrow> a \<le> ids' ! k) \<and> (\<forall>k. j' < k \<and> k \<le> ir \<longrightarrow> ids' ! k \<le> a)"
  using assms
proof (induction ids a i j rule: partition_loop.induct)
  case (1 ids a i j)
  note pr = "1.prems"
  have "ids ! ir \<le> a" using pr(5,9) by simp
  then obtain i' where i': "scan_up ids a i = Some i'" "i < i'" "i' \<le> ir" "ids ! i' \<le> a" "\<forall>k. i < k \<and> k < i' \<longrightarrow> a < ids ! k"
    using scan_up_spec [of i ir ids a] pr(4,6) by blast
  obtain j' where j': "scan_down ids a j = Some j'" "s \<le> j'" "j' < j" "a \<le> ids ! j'" "\<forall>k. j' < k \<and> k < j \<longrightarrow> ids ! k < a"
    using scan_down_spec [of s j ids a] pr(3,5-7) by auto
  have up: "a \<le> ids ! k" if "s \<le> k" "k < i'" for k
    using that pr(7,8) i'(5) by (cases "k = s"; cases "k \<le> i") (auto simp: not_le intro: less_imp_le)
  have dn: "ids ! k \<le> a" if "j' < k" "k \<le> ir" for k
    using that pr(9) j'(5) by (cases "j \<le> k") (auto simp: not_le intro: less_imp_le)
  show ?case
  proof (cases "j' < i'")
    case True
    then show ?thesis using i' j' up dn pr(5) by (subst partition_loop.simps) auto
  next
    case False
    let ?ids = "ids[i' := ids ! j', j' := ids ! i']"
    have sw: "MIDL_SWAP ids i' j' = Some ?ids" using False j'(3) pr(5,6) by (intro MIDL_SWAP_eq) auto
    have re: "rearr (s + 1) ir ids ?ids" using False i'(2) j'(3) pr(1,5,6) by (intro rearr_swap) auto
    have lt: "i' < length ids" "j' < length ids" using False j'(3) pr(5,6) by auto
    have "\<exists>ids'' i'' j''. partition_loop ?ids a i' j' = Some (ids'', i'', j'') \<and> rearr (s + 1) ir ?ids ids'' \<and> s \<le> j'' \<and> j'' < i'' \<and> i'' \<le> ir \<and> j'' < ir \<and>
      (\<forall>k. s \<le> k \<and> k < i'' \<longrightarrow> a \<le> ids'' ! k) \<and> (\<forall>k. j'' < k \<and> k \<le> ir \<longrightarrow> ids'' ! k \<le> a)"
    proof (rule "1.IH" [OF i'(1) j'(1) False sw])
      show "\<forall>k. s < k \<and> k \<le> i' \<longrightarrow> a \<le> ?ids ! k"
        using False lt up j'(4) i'(4) by (auto simp: nth_list_update)
      show "\<forall>k. j' \<le> k \<and> k \<le> ir \<longrightarrow> ?ids ! k \<le> a"
        using False lt dn i'(4) by (auto simp: nth_list_update)
      show "?ids ! s = a" using False i'(2) pr(1,7) by simp
    qed (use False i'(2) j'(3) pr in auto)
    moreover have "partition_loop ids a i j = partition_loop ?ids a i' j'"
      using False i'(1) j'(1) sw by (subst partition_loop.simps) simp
    ultimately show ?thesis using rearr_trans [OF re] by auto
  qed
qed

lemma median_spec:
  assumes "l + 1 < ir" "ir < length ids" "l \<le> k" "k \<le> ir"
  shows "\<exists>ids'. do {
     ids \<leftarrow> MIDL_SWAP ids k (l + 1);
     ids \<leftarrow> swap_if_less ids l ir;
     ids \<leftarrow> swap_if_less ids (l + 1) ir;
     swap_if_less ids l (l + 1)
   } = Some ids' \<and> rearr l ir ids ids' \<and> ids' ! (l + 1) \<le> ids' ! l \<and> ids' ! ir \<le> ids' ! (l + 1)"
proof -
  define i1 where "i1 = ids[k := ids ! (l + 1), l + 1 := ids ! k]"
  define i2 where "i2 = (if i1 ! l < i1 ! ir then i1[l := i1 ! ir, ir := i1 ! l] else i1)"
  define i3 where "i3 = (if i2 ! (l + 1) < i2 ! ir then i2[l + 1 := i2 ! ir, ir := i2 ! (l + 1)] else i2)"
  define i4 where "i4 = (if i3 ! l < i3 ! (l + 1) then i3[l := i3 ! (l + 1), l + 1 := i3 ! l] else i3)"
  have len: "length i1 = length ids" "length i2 = length ids" "length i3 = length ids"
    by (auto simp: i1_def i2_def i3_def)
  have sw: "MIDL_SWAP ids k (l + 1) = Some i1" unfolding i1_def using assms by (intro MIDL_SWAP_eq) auto
  note s2 = swap_if_less_eq [of l i1 ir, folded i2_def] and s3 = swap_if_less_eq [of "l + 1" i2 ir, folded i3_def]
    and s4 = swap_if_less_eq [of l i3 "l + 1", folded i4_def]
  have "rearr l ir ids i1" unfolding i1_def using assms by (intro rearr_swap) auto
  moreover have "rearr l ir i1 i2" unfolding i2_def using assms len by (auto intro!: rearr_swap)
  moreover have "rearr l ir i2 i3" unfolding i3_def using assms len by (auto intro!: rearr_swap)
  moreover have "rearr l ir i3 i4" unfolding i4_def using assms len by (auto intro!: rearr_swap)
  ultimately have re: "rearr l ir ids i4" by (blast intro: rearr_trans)
  have 2: "i2 ! ir \<le> i2 ! l" using s2(2) assms len by auto
  have 3: "i3 ! ir \<le> i3 ! (l + 1)" "i3 ! l = i2 ! l" "i3 ! ir \<le> i2 ! ir"
    using s3 assms len by (auto simp: i3_def nth_list_update)
  have "i4 ! ir = i3 ! ir" using s4(4) [of ir] assms len by auto
  moreover have "i3 ! ir \<le> i3 ! l" using 2 3 by simp
  ultimately have "i4 ! ir \<le> i4 ! (l + 1)" using s4(3) 3(1) assms len by (auto simp: doubleton_eq_iff)
  moreover have "i4 ! (l + 1) \<le> i4 ! l" using s4(2) assms len by auto
  ultimately show ?thesis using sw s2(1) s3(1) s4(1) re assms len by auto
qed

lemma midl_partition_spec:
  assumes "l + SMALL \<le> ir" "ir < length ids" "l + ir \<le> INT_MAX"
  shows "\<exists>ids' i j a. midl_partition ids l ir = Some (ids', i, j) \<and> rearr l ir ids ids' \<and> l < j \<and> j < i \<and> i \<le> ir \<and>
    (\<forall>k. l \<le> k \<and> k < i \<longrightarrow> a \<le> ids' ! k) \<and> (\<forall>k. j \<le> k \<and> k \<le> ir \<longrightarrow> ids' ! k \<le> a)"
proof -
  obtain xs where xs: "do {
     ids \<leftarrow> MIDL_SWAP ids ((l + ir) div 2) (l + 1);
     ids \<leftarrow> swap_if_less ids l ir;
     ids \<leftarrow> swap_if_less ids (l + 1) ir;
     swap_if_less ids l (l + 1)
   } = Some xs" "rearr l ir ids xs" "xs ! (l + 1) \<le> xs ! l" "xs ! ir \<le> xs ! (l + 1)"
  proof -
    have "l \<le> (l + ir) div 2" "(l + ir) div 2 \<le> ir" using assms(1) by linarith+
    then show thesis using median_spec [of l ir ids "(l + ir) div 2"] assms(1,2) that by auto
  qed
  let ?a = "xs ! (l + 1)"
  have len: "length xs = length ids" by (rule rearr_length [OF xs(2)])
  have e: "\<forall>k. l + 1 < k \<and> k \<le> l + 1 \<longrightarrow> ?a \<le> xs ! k" "\<forall>k. ir \<le> k \<and> k \<le> ir \<longrightarrow> xs ! k \<le> ?a"
    using xs(4) by (auto simp flip: eq_iff)
  obtain ys i j where ys: "partition_loop xs ?a (l + 1) ir = Some (ys, i, j)" "rearr (l + 2) ir xs ys" "l + 1 \<le> j" "j < i" "i \<le> ir" "j < ir"
      "\<forall>k. l + 1 \<le> k \<and> k < i \<longrightarrow> ?a \<le> ys ! k" "\<forall>k. j < k \<and> k \<le> ir \<longrightarrow> ys ! k \<le> ?a"
    using partition_loop_spec [of "l + 1" "l + 1" ir ir xs ?a, OF _ _ _ _ _ _ refl e] assms len by auto
  have at: "ys ! (l + 1) = ?a" "ys ! l = xs ! l" using rearr_outside [OF ys(2)] assms len by auto
  let ?zs = "ys[l + 1 := ys ! j, j := ?a]"
  have lens: "length ys = length ids" using rearr_length [OF ys(2)] len by simp
  have re: "rearr l ir ys ?zs" using rearr_swap [of l "l + 1" ir j ys] at(1) ys(3,6) assms lens by simp
  have "midl_partition ids l ir = Some (?zs, i, j)"
  proof -
    obtain y1 y2 y3 where "MIDL_SWAP ids ((l + ir) div 2) (l + 1) = Some y1" "swap_if_less y1 l ir = Some y2"
      "swap_if_less y2 (l + 1) ir = Some y3" "swap_if_less y3 l (l + 1) = Some xs"
      using xs(1) by (auto simp: bind_eq_Some_conv)
    moreover have "peek xs (l + 1) = Some ?a" "peek ys j = Some (ys ! j)" "poke ys (l + 1) (ys ! j) = Some (ys[l + 1 := ys ! j])"
      "poke (ys[l + 1 := ys ! j]) j ?a = Some ?zs" using ys(6) assms len lens by (auto simp: peek_def poke_def)
    ultimately show ?thesis using ys(1) assms(3) by (simp add: midl_partition_def)
  qed
  moreover have "rearr l ir ids ?zs"
    using rearr_trans [OF rearr_trans [OF xs(2) rearr_mono [OF ys(2)]] re] by simp
  moreover have "?a \<le> ?zs ! k" if "l \<le> k" "k < i" for k
    using that ys(3-7) at xs(3) lens assms by (cases "k = l") (auto simp: nth_list_update)
  moreover have "?zs ! k \<le> ?a" if "j \<le> k" "k \<le> ir" for k
    using that ys(3,8) lens assms by (cases "k = j") (auto simp: nth_list_update)
  ultimately show ?thesis using ys(3-5) by (intro exI [of _ ?zs] exI [of _ i] exI [of _ j] exI [of _ ?a]) auto
qed

section \<open>The loop over the segments\<close>

type_synonym seg = "nat \<times> nat"

text \<open>Everything is in order but inside the pending segments, which are disjoint.\<close>

definition pending :: "nat \<Rightarrow> u64 list \<Rightarrow> seg list \<Rightarrow> bool" where
  "pending N ids S \<longleftrightarrow> N < length ids \<and> (\<forall>(l, r)\<in>set S. 1 \<le> l \<and> r \<le> N) \<and>
     sorted_wrt (\<lambda>(l, r) (l', r'). r < l' \<or> r' < l) S \<and>
     (\<forall>p q. 1 \<le> p \<and> p < q \<and> q \<le> N \<longrightarrow> ids ! q \<le> ids ! p \<or> (\<exists>(l, r)\<in>set S. l \<le> p \<and> q \<le> r))"

lemma pending_pair:
  "pending N ids S \<Longrightarrow> 1 \<le> p \<Longrightarrow> p < q \<Longrightarrow> q \<le> N \<Longrightarrow> ids ! q \<le> ids ! p \<or> (\<exists>l r. (l, r) \<in> set S \<and> l \<le> p \<and> q \<le> r)"
  unfolding pending_def by blast

lemma pending_disjoint: "pending N ids ((l, r) # S) \<Longrightarrow> (l', r') \<in> set S \<Longrightarrow> r < l' \<or> r' < l"
  unfolding pending_def by auto

lemma pending_before:
  assumes "pending N ids ((l, r) # S)" "1 \<le> p" "p < l" "l \<le> q" "q \<le> r"
  shows "ids ! q \<le> ids ! p"
proof -
  have "r \<le> N" using assms(1) by (simp add: pending_def)
  then show ?thesis
    using pending_pair [OF assms(1), of p q] pending_disjoint [OF assms(1)] assms(2-5) by fastforce
qed

lemma pending_after:
  assumes "pending N ids ((l, r) # S)" "l \<le> p" "p \<le> r" "r < q" "q \<le> N"
  shows "ids ! q \<le> ids ! p"
proof -
  have "1 \<le> l" using assms(1) by (simp add: pending_def)
  then show ?thesis
    using pending_pair [OF assms(1), of p q] pending_disjoint [OF assms(1)] assms(2-5) by fastforce
qed

lemma pending_rearr:
  assumes P: "pending N ids ((l, r) # S)" and R: "rearr l r ids ids'"
  shows "pending N ids' ((l, r) # S)"
proof -
  have N: "N < length ids" "1 \<le> l" "r \<le> N" using P by (auto simp: pending_def)
  have out: "ids' ! k = ids ! k" if "k \<le> N" "k < l \<or> r < k" for k
    using rearr_outside [OF R, of k] that N by simp
  have "ids' ! q \<le> ids' ! p \<or> (\<exists>(l', r')\<in>set ((l, r) # S). l' \<le> p \<and> q \<le> r')" if pq: "1 \<le> p" "p < q" "q \<le> N" for p q
  proof -
    consider "l \<le> p" "q \<le> r" | "p < l" "l \<le> q" "q \<le> r" | "l \<le> p" "p \<le> r" "r < q" | "p < l \<or> r < p" "q < l \<or> r < q"
      by linarith
    then show ?thesis
    proof cases
      case 1
      then show ?thesis by auto
    next
      case 2
      obtain q' where "l \<le> q'" "q' \<le> r" "ids' ! q = ids ! q'" using rearr_inside [OF R, of q] N 2 by auto
      then show ?thesis using pending_before [OF P pq(1) 2(1)] out [of p] pq 2 by auto
    next
      case 3
      obtain p' where "l \<le> p'" "p' \<le> r" "ids' ! p = ids ! p'" using rearr_inside [OF R, of p] N 3 by auto
      then show ?thesis using pending_after [OF P _ _ 3(3) pq(3)] out [of q] pq 3 by auto
    next
      case 4
      then show ?thesis using P pq out [of p] out [of q] unfolding pending_def by auto
    qed
  qed
  then show ?thesis using P rearr_length [OF R] by (auto simp: pending_def)
qed

lemma pending_done:
  assumes "pending N ids ((l, r) # S)" "\<forall>p q. l \<le> p \<and> p < q \<and> q \<le> r \<longrightarrow> ids ! q \<le> ids ! p"
  shows "pending N ids S"
proof -
  have "ids ! q \<le> ids ! p \<or> (\<exists>(l, r)\<in>set S. l \<le> p \<and> q \<le> r)" if "1 \<le> p" "p < q" "q \<le> N" for p q
    using pending_pair [OF assms(1) that] assms(2) that(2) by auto
  then show ?thesis using assms(1) by (simp add: pending_def)
qed

lemma pending_split:
  assumes P: "pending N ids ((l, r) # S)" and "l < j" "j < i" "i \<le> r"
    and hi: "\<forall>k. l \<le> k \<and> k < i \<longrightarrow> a \<le> ids ! k" and lo: "\<forall>k. j \<le> k \<and> k \<le> r \<longrightarrow> ids ! k \<le> a"
  shows "pending N ids ((l, j - 1) # (i, r) # S)" "pending N ids ((i, r) # (l, j - 1) # S)"
proof -
  have D: "ids ! q \<le> ids ! p \<or> (\<exists>(l', r')\<in>set ((l, j - 1) # (i, r) # S). l' \<le> p \<and> q \<le> r')" if pq: "1 \<le> p" "p < q" "q \<le> N" for p q
  proof (cases "l \<le> p \<and> q \<le> r")
    case True
    consider "q < j" | "i \<le> p" | "p < i" "j \<le> q" by linarith
    then show ?thesis
      using True pq hi lo by cases (auto intro: order_trans)
  next
    case False
    then show ?thesis using P pq unfolding pending_def by auto
  qed
  have "sorted_wrt (\<lambda>(l, r) (l', r'). r < l' \<or> r' < l) ((l, j - 1) # (i, r) # S)"
    "sorted_wrt (\<lambda>(l, r) (l', r'). r < l' \<or> r' < l) ((i, r) # (l, j - 1) # S)"
    using P assms(2-4) unfolding pending_def by fastforce+
  then show "pending N ids ((l, j - 1) # (i, r) # S)" "pending N ids ((i, r) # (l, j - 1) # S)"
    using P D assms(2-4) unfolding pending_def by auto
qed

lemma insertion_pending:
  assumes P: "pending N ids ((l, ir) # S)"
  shows "\<exists>ids'. insertion ids (l + 1) ir = Some ids' \<and> rearr l ir ids ids' \<and>
    (\<forall>p q. l \<le> p \<and> p < q \<and> q \<le> ir \<longrightarrow> ids' ! q \<le> ids' ! p)"
proof (cases "l \<le> ir")
  case True
  have b: "N < length ids" "1 \<le> l" "ir \<le> N" using P by (auto simp: pending_def)
  have "l = 1 \<or> (\<forall>q. l \<le> q \<and> q \<le> ir \<longrightarrow> ids ! q \<le> ids ! (l - 1))"
    using pending_before [OF P, of "l - 1"] b(2) by force
  then show ?thesis using True b by (intro insertion_seg) auto
next
  case False
  then show ?thesis by (subst insertion.simps) auto
qed

text \<open>The stack as a list of segments, the last pushed first.\<close>

fun stack_segs :: "nat list \<Rightarrow> nat \<Rightarrow> seg list" where
  "stack_segs istack (Suc (Suc n)) = (istack ! (n + 1), istack ! (n + 2)) # stack_segs istack n"
| "stack_segs istack _ = []"

lemma stack_segs_upd: "n < k \<Longrightarrow> stack_segs (istack[k := v]) n = stack_segs istack n"
  by (induction istack n rule: stack_segs.induct) auto

lemma push_seg_eq:
  assumes "jstack + 2 < length istack"
  shows "\<exists>istack'. push_seg istack (jstack + 2) lo hi = Some istack' \<and> length istack' = length istack \<and>
    stack_segs istack' (jstack + 2) = (lo, hi) # stack_segs istack jstack"
  using assms by (simp add: push_seg_def poke_def stack_segs_upd)

text \<open>Each segment on the stack waits while at most half of it is worked on, so a segment with \<open>n\<close> segments
  below it on the stack has at most \<open>N / 2\<^sup>n\<close> IDs.\<close>

fun halving :: "nat \<Rightarrow> seg list \<Rightarrow> bool" where
  "halving N [] = True"
| "halving N ((l, r) # S) = (seg_len l r * 2 ^ length S \<le> N \<and> halving N S)"

lemma halving_depth:
  assumes "halving N ((l, r) # S)" "l + SMALL \<le> r" "N < 2 ^ 30"
  shows "2 * length S + 2 < 64"
proof -
  have "9 * 2 ^ length S \<le> seg_len l r * 2 ^ length S" using assms(2) by (simp add: seg_len_def)
  also have "\<dots> < 2 ^ 30" using assms(1,3) by simp
  finally have "2 ^ length S < (2 :: nat) ^ 30" by simp
  then have "length S < 30" by (rule power_less_imp_less_exp [rotated]) simp
  then show ?thesis by simp
qed

lemma halving_push:
  assumes "halving N ((l, r) # S)" "seg_len l' r' + seg_len l'' r'' \<le> seg_len l r" "seg_len l' r' \<le> seg_len l'' r''"
  shows "halving N ((l', r') # (l'', r'') # S)"
proof -
  have N: "seg_len l r * 2 ^ length S \<le> N" "halving N S" using assms(1) by auto
  have "seg_len l'' r'' * 2 ^ length S \<le> seg_len l r * 2 ^ length S" using assms(2) by (intro mult_right_mono) auto
  then have 1: "seg_len l'' r'' * 2 ^ length S \<le> N" using N(1) by (rule order_trans)
  have "seg_len l' r' * 2 * 2 ^ length S \<le> seg_len l r * 2 ^ length S" using assms(2,3) by (intro mult_right_mono) auto
  then have "seg_len l' r' * 2 * 2 ^ length S \<le> N" using N(1) by (rule order_trans)
  then show ?thesis using 1 N(2) by (simp add: mult.assoc)
qed

lemma length_stack_segs: "even jstack \<Longrightarrow> 2 * length (stack_segs istack jstack) = jstack"
  by (induction istack jstack rule: stack_segs.induct) auto

theorem sort_loop_spec:
  assumes "pending N ids ((l, ir) # stack_segs istack jstack)" "halving N ((l, ir) # stack_segs istack jstack)"
    "even jstack" "jstack < length istack" "length istack = 64" "N < 2 ^ 30"
  shows "\<exists>ids'. sort_loop ids istack jstack l ir = Some ids' \<and> rearr 1 N ids ids' \<and>
    (\<forall>p q. 1 \<le> p \<and> p < q \<and> q \<le> N \<longrightarrow> ids' ! q \<le> ids' ! p)"
  using assms
proof (induction ids istack jstack l ir rule: sort_loop.induct)
  case (1 ids istack jstack l ir)
  note P = "1.prems"(1) and H = "1.prems"(2)
  let ?S = "stack_segs istack jstack"
  have b: "N < length ids" "1 \<le> l" "ir \<le> N" using P by (auto simp: pending_def)
  show ?case
  proof (cases "ir < l + SMALL")
    case True
    obtain ids' where i: "insertion ids (l + 1) ir = Some ids'" "rearr l ir ids ids'" "\<forall>p q. l \<le> p \<and> p < q \<and> q \<le> ir \<longrightarrow> ids' ! q \<le> ids' ! p"
      using insertion_pending [OF P] by blast
    have P': "pending N ids' ?S" by (rule pending_done [OF pending_rearr [OF P i(2)] i(3)])
    have re: "rearr 1 N ids ids'" using rearr_mono [OF i(2)] b by simp
    show ?thesis
    proof (cases "jstack = 0")
      case True
      then show ?thesis using pending_pair [OF P'] re i(1) \<open>ir < l + SMALL\<close> by (subst sort_loop.simps) auto
    next
      case False
      then obtain n where n: "jstack = Suc (Suc n)" using "1.prems"(3) by (cases jstack; cases "jstack - 1") auto
      let ?l = "istack ! (jstack - 1)" and ?ir = "istack ! jstack"
      have S: "?S = (?l, ?ir) # stack_segs istack (jstack - 2)" by (simp add: n)
      have pk: "peek istack jstack = Some ?ir" "peek istack (jstack - 1) = Some ?l" using "1.prems"(4) by (auto simp: peek_def)
      have "\<exists>ids''. sort_loop ids' istack (jstack - 2) ?l ?ir = Some ids'' \<and> rearr 1 N ids' ids'' \<and>
          (\<forall>p q. 1 \<le> p \<and> p < q \<and> q \<le> N \<longrightarrow> ids'' ! q \<le> ids'' ! p)"
        using P' H S "1.prems"(3-6) n by (intro "1.IH"(1) [OF True i(1) False _ pk]) auto
      moreover have "sort_loop ids istack jstack l ir = sort_loop ids' istack (jstack - 2) ?l ?ir"
        using True i(1) pk n by (subst sort_loop.simps) simp
      ultimately show ?thesis using rearr_trans [OF re] by auto
    qed
  next
    case False
    then have big: "l + SMALL \<le> ir" by simp
    obtain ids' i j a where p: "midl_partition ids l ir = Some (ids', i, j)" "rearr l ir ids ids'" "l < j" "j < i" "i \<le> ir"
        "\<forall>k. l \<le> k \<and> k < i \<longrightarrow> a \<le> ids' ! k" "\<forall>k. j \<le> k \<and> k \<le> ir \<longrightarrow> ids' ! k \<le> a"
    proof -
      have "ir < length ids" "l + ir \<le> INT_MAX" using b big "1.prems"(6) by auto
      then show thesis using midl_partition_spec [OF big] that by blast
    qed
    note Q = pending_split [OF pending_rearr [OF P p(2)] p(3-7)]
    have re: "rearr 1 N ids ids'" using rearr_mono [OF p(2)] b by simp
    have js: "jstack + 2 < length istack"
      using halving_depth [OF H big "1.prems"(6)] length_stack_segs [OF "1.prems"(3)] "1.prems"(5) by simp
    have len: "seg_len l (j - 1) = j - l" "seg_len i ir = ir + 1 - i" "seg_len l ir = ir + 1 - l" using p(3-5) by (auto simp: seg_len_def)
    show ?thesis
    proof (cases "ir + 1 + l \<ge> j + i")
      case True
      obtain st where st: "push_seg istack (jstack + 2) i ir = Some st" "length st = length istack" "stack_segs st (jstack + 2) = (i, ir) # ?S"
        using push_seg_eq [OF js] by blast
      have "halving N ((l, j - 1) # (i, ir) # ?S)" using True p(3-5) len by (intro halving_push [OF H]) auto
      then have "\<exists>ids''. sort_loop ids' st (jstack + 2) l (j - 1) = Some ids'' \<and> rearr 1 N ids' ids'' \<and>
          (\<forall>p q. 1 \<le> p \<and> p < q \<and> q \<le> N \<longrightarrow> ids'' ! q \<le> ids'' ! p)"
        using Q(1) st js "1.prems"(3-6) by (intro "1.IH"(2) [OF False p(1) refl refl True st(1)]) auto
      moreover have "sort_loop ids istack jstack l ir = sort_loop ids' st (jstack + 2) l (j - 1)"
        using False p(1) True st(1) by (subst sort_loop.simps) simp
      ultimately show ?thesis using rearr_trans [OF re] by auto
    next
      case small: False
      obtain st where st: "push_seg istack (jstack + 2) l (j - 1) = Some st" "length st = length istack" "stack_segs st (jstack + 2) = (l, j - 1) # ?S"
        using push_seg_eq [OF js] by blast
      have "halving N ((i, ir) # (l, j - 1) # ?S)" using small p(3-5) len by (intro halving_push [OF H]) auto
      then have "\<exists>ids''. sort_loop ids' st (jstack + 2) i ir = Some ids'' \<and> rearr 1 N ids' ids'' \<and>
          (\<forall>p q. 1 \<le> p \<and> p < q \<and> q \<le> N \<longrightarrow> ids'' ! q \<le> ids'' ! p)"
        using Q(2) st js "1.prems"(3-6) by (intro "1.IH"(3) [OF False p(1) refl refl small st(1)]) auto
      moreover have "sort_loop ids istack jstack l ir = sort_loop ids' st (jstack + 2) i ir"
        using False p(1) small st(1) by (subst sort_loop.simps) simp
      ultimately show ?thesis using rearr_trans [OF re] by auto
    qed
  qed
qed

section \<open>The sorted list\<close>

lemma rearr_middle:
  assumes "rearr 1 (length xs) (c # xs @ junk) ids"
  obtains ys where "ids = c # ys @ junk" "mset ys = mset xs"
proof -
  have len: "length ids = Suc (length xs + length junk)" using rearr_length [OF assms] by simp
  define ys where "ys = take (length xs) (drop 1 ids)"
  have at: "k = 0 \<or> length xs < k \<Longrightarrow> k < length ids \<Longrightarrow> ids ! k = (c # xs @ junk) ! k" for k
    using assms len by (auto simp: rearr_def)
  have "drop (Suc (length xs)) ids = junk" using len at by (intro nth_equalityI) auto
  moreover have "ids ! 0 = c" using at [of 0] len by simp
  moreover have "ids = ids ! 0 # ys @ drop (Suc (length xs)) ids"
    using len unfolding ys_def by (cases ids) auto
  ultimately have ids: "ids = c # ys @ junk" by simp
  then have "mset ys = mset xs" using assms by (simp add: rearr_def)
  with ids show thesis by (rule that)
qed

lemma sint_small: "n < 2 ^ 31 \<Longrightarrow> sint (ucast (of_nat n :: u64) :: u32) = int n"
  by (simp add: sint_uint unsigned_of_nat signed_take_bit_int_eq_self take_bit_nat_eq_self unsigned_ucast_eq uint_nat)

lemma mdb_midl_sort_rep:
  assumes rep: "idl_rep m xs" and len: "length xs < 2 ^ 30" "length istack = 64"
  shows "\<exists>m'. mdb_midl_sort istack m = Some m' \<and> idl_rep m' (rev (sort xs)) \<and> length m' = length m"
proof -
  obtain junk where m: "m = of_nat (length xs + length junk) # of_nat (length xs) # xs @ junk" "length xs + length junk < 2 ^ 31"
    "ids_at m 0 = Some (of_nat (length xs))" "peek m 0 = Some (of_nat (length xs + length junk))" "length m = length xs + length junk + 2"
    by (rule idl_repE [OF rep], rule that)
  let ?c = "of_nat (length xs) :: u64"
  have "pending (length xs) (?c # xs @ junk) [(1, length xs)]" by (simp add: pending_def)
  then obtain ids where ids: "sort_loop (?c # xs @ junk) istack 0 1 (length xs) = Some ids" "rearr 1 (length xs) (?c # xs @ junk) ids"
      "\<forall>p q. 1 \<le> p \<and> p < q \<and> q \<le> length xs \<longrightarrow> ids ! q \<le> ids ! p"
    using sort_loop_spec [of "length xs" "?c # xs @ junk" 1 "length xs" istack 0] len by (auto simp: seg_len_def)
  obtain ys where ys: "ids = ?c # ys @ junk" "mset ys = mset xs" by (rule rearr_middle [OF ids(2)])
  have ly: "length ys = length xs" using ys(2) by (rule mset_eq_length)
  have "ys ! q \<le> ys ! p" if "p < q" "q < length ys" for p q
    using ids(3) [rule_format, of "Suc p" "Suc q"] that ly ys(1) by (simp add: nth_append)
  then have "sorted_wrt (\<ge>) ys" by (simp add: sorted_wrt_iff_nth_less)
  then have "sorted (rev ys)" by (simp add: sorted_wrt_rev)
  then have "rev ys = sort xs" using ys(2) by (intro properties_for_sort [symmetric]) auto
  then have ys': "ys = rev (sort xs)" by (metis rev_rev_ident)
  have "mdb_midl_sort istack m = Some (of_nat (length xs + length junk) # ids)"
    using ids(1) sint_small [of "length xs"] len(1) unfolding mdb_midl_sort_def m(3) by (simp add: m(1))
  moreover have "idl_rep (of_nat (length xs + length junk) # ids) ys"
    unfolding ys(1) using m(2) ly by (intro idl_repI) auto
  ultimately show ?thesis using ys' m(5) ys(1) ly by auto
qed

section \<open>The operations on a list\<close>

text \<open>The operations as the database uses them; a merge makes room first.\<close>

datatype midl_op = Append u64 | AppendList idl | AppendRange u64 u32 | Need u32 | Shrink | Sort | Merge idl

definition mdb_midl_merge :: "bool \<Rightarrow> u64 \<Rightarrow> idl \<Rightarrow> idl \<Rightarrow> (idl \<times> int) option" where
  "mdb_midl_merge ok junk mop l2 = do {
     i \<leftarrow> ids_at l2 0;
     (mop, rc) \<leftarrow> mdb_midl_need ok junk mop (ucast i);
     (if rc \<noteq> 0 then Some (mop, rc)
      else do { mop \<leftarrow> mdb_midl_xmerge mop l2; Some (mop, 0) })
   }"

fun midl_exec :: "bool \<Rightarrow> u64 \<Rightarrow> nat list \<Rightarrow> midl_op \<Rightarrow> idl \<Rightarrow> (idl \<times> int) option" where
  "midl_exec ok junk istack (Append i) m = mdb_midl_append ok junk m i"
| "midl_exec ok junk istack (AppendList app) m = mdb_midl_append_list ok junk m app"
| "midl_exec ok junk istack (AppendRange i n) m = mdb_midl_append_range ok junk m i n"
| "midl_exec ok junk istack (Need n) m = mdb_midl_need ok junk m n"
| "midl_exec ok junk istack Shrink m = map_option (\<lambda>m. (m, 0)) (mdb_midl_shrink ok junk m)"
| "midl_exec ok junk istack Sort m = map_option (\<lambda>m. (m, 0)) (mdb_midl_sort istack m)"
| "midl_exec ok junk istack (Merge l2) m = mdb_midl_merge ok junk m l2"

text \<open>What they are to do, and when: the other list of an operation stands for \<open>ys\<close>, sizes stay in the
  range of the 32-bit counters, both lists of a merge are in order, a list is shrunk only when it fits.\<close>

fun midl_spec :: "midl_op \<Rightarrow> u64 list \<Rightarrow> u64 list \<Rightarrow> u64 list" where
  "midl_spec (Append i) ys xs = xs @ [i]"
| "midl_spec (AppendList app) ys xs = xs @ ys"
| "midl_spec (AppendRange i n) ys xs = xs @ rev (map (\<lambda>k. i + of_nat k) [0..<unat n])"
| "midl_spec Sort ys xs = rev (sort xs)"
| "midl_spec (Merge l2) ys xs = rev (sort (xs @ ys))"
| "midl_spec _ ys xs = xs"

fun midl_pre :: "midl_op \<Rightarrow> u64 list \<Rightarrow> u64 list \<Rightarrow> idl \<Rightarrow> bool" where
  "midl_pre (Append i) ys xs m \<longleftrightarrow> length m < 2 ^ 29"
| "midl_pre (AppendList app) ys xs m \<longleftrightarrow> length m < 2 ^ 29 \<and> length ys < 2 ^ 29 \<and> idl_rep app ys"
| "midl_pre (AppendRange i n) ys xs m \<longleftrightarrow> length m < 2 ^ 29 \<and> unat n < 2 ^ 29"
| "midl_pre (Need n) ys xs m \<longleftrightarrow> length m < 2 ^ 29 \<and> unat n < 2 ^ 28"
| "midl_pre Shrink ys xs m \<longleftrightarrow> length xs \<le> MDB_IDL_UM_MAX"
| "midl_pre Sort ys xs m \<longleftrightarrow> length m < 2 ^ 29"
| "midl_pre (Merge l2) ys xs m \<longleftrightarrow> length m < 2 ^ 29 \<and> length ys < 2 ^ 28 \<and> idl_rep l2 ys \<and> sorted_wrt (\<ge>) xs \<and> sorted_wrt (\<ge>) ys"

lemma ucast_count: "n < 2 ^ 32 \<Longrightarrow> unat (ucast (of_nat n :: u64) :: u32) = n"
  by (rule unat_small(2))

lemma mdb_midl_merge_rep:
  assumes rep: "idl_rep m xs" "idl_rep l2 ys" and srt: "sorted_wrt (\<ge>) xs" "sorted_wrt (\<ge>) ys"
    and big: "2 * (length xs + length ys) + 258 < 2 ^ 31"
  shows "\<exists>m'. mdb_midl_merge True jk m l2 = Some (m', 0) \<and> idl_rep m' (rev (sort (xs @ ys)))"
proof -
  have c: "ids_at l2 0 = Some (of_nat (length ys))" by (rule idl_repE [OF rep(2)])
  have n: "unat (ucast (of_nat (length ys) :: u64) :: u32) = length ys" using big by (intro ucast_count) simp
  obtain m1 where m1: "mdb_midl_need True jk m (ucast (of_nat (length ys) :: u64)) = Some (m1, 0)" "idl_rep m1 xs" "length xs + length ys + 2 \<le> length m1"
    using mdb_midl_need_rep [OF rep(1), of "ucast (of_nat (length ys) :: u64)" jk] big n by auto
  obtain m' where "mdb_midl_xmerge m1 l2 = Some m'" "idl_rep m' (rev (sort (xs @ ys)))"
    using mdb_midl_xmerge_rep [OF m1(2) rep(2) srt m1(3)] by blast
  then show ?thesis using c m1(1) by (simp add: mdb_midl_merge_def)
qed

text \<open>With memory every operation does its work; without, it does the same or gives up and leaves the list.\<close>

lemma midl_exec_ok:
  assumes rep: "idl_rep m xs" and pre: "midl_pre op ys xs m" and st: "length istack = 64"
  shows "\<exists>m'. midl_exec True jk istack op m = Some (m', 0) \<and> idl_rep m' (midl_spec op ys xs)"
proof -
  have len: "length xs + 2 \<le> length m" using idl_repE [OF rep] by (metis add_le_mono1 le_add1)
  show ?thesis
  proof (cases op)
    case (Append i)
    then show ?thesis using mdb_midl_append_rep [OF rep] pre by simp
  next
    case (AppendList app)
    then show ?thesis using mdb_midl_append_list_rep [OF rep] pre by simp
  next
    case (AppendRange i n)
    then show ?thesis using mdb_midl_append_range_rep [OF rep] pre by simp
  next
    case (Need n)
    then show ?thesis using mdb_midl_need_rep [OF rep, of n jk] pre len by auto
  next
    case Shrink
    then show ?thesis using mdb_midl_shrink_rep [OF rep, of True jk] pre by auto
  next
    case Sort
    then show ?thesis using mdb_midl_sort_rep [OF rep _ st] pre len by fastforce
  next
    case (Merge l2)
    then show ?thesis using mdb_midl_merge_rep [OF rep, of l2 ys jk] pre len by auto
  qed
qed

lemma grow_fails: "idl_rep m xs \<Longrightarrow> mdb_midl_grow False jk m n = Some (m, ENOMEM)"
  by (auto simp: idl_rep_def mdb_midl_grow_def peek_def)

lemma mdb_midl_need_fail:
  assumes "idl_rep m xs"
  shows "mdb_midl_need False jk m n = mdb_midl_need True jk m n \<or> mdb_midl_need False jk m n = Some (m, ENOMEM)"
proof -
  obtain c a where "ids_at m 0 = Some c" "peek m 0 = Some a" using idl_repE [OF assms] by metis
  then show ?thesis by (simp add: mdb_midl_need_def Let_def)
qed

lemma midl_exec_fail:
  assumes rep: "idl_rep m xs" and pre: "midl_pre op ys xs m"
  shows "midl_exec False jk istack op m = midl_exec True jk istack op m \<or> midl_exec False jk istack op m = Some (m, ENOMEM) \<or>
    (op = Shrink \<and> midl_exec False jk istack op m = Some (m, 0))"
proof -
  obtain c a where m: "ids_at m 0 = Some c" "peek m 0 = Some a" using idl_repE [OF rep] by metis
  note g = grow_fails [OF rep]
  note need = mdb_midl_need_fail [OF rep]
  show ?thesis
  proof (cases op)
    case (Append i)
    then show ?thesis using g by (simp add: mdb_midl_append_def m)
  next
    case (AppendList app)
    then obtain n where "ids_at app 0 = Some n" using pre by (auto elim: idl_repE)
    then show ?thesis using g AppendList by (simp add: mdb_midl_append_list_def m)
  next
    case (AppendRange i n)
    then show ?thesis using g by (simp add: mdb_midl_append_range_def m)
  next
    case (Need n)
    then show ?thesis using need by simp
  next
    case Shrink
    then show ?thesis by (simp add: mdb_midl_shrink_def m)
  next
    case Sort
    then show ?thesis by simp
  next
    case (Merge l2)
    then obtain n where n: "ids_at l2 0 = Some n" using pre by (auto elim: idl_repE)
    show ?thesis using need [of jk "ucast n"] Merge n by (auto simp: mdb_midl_merge_def)
  qed
qed

lemma takeWhile_sorted_iff:
  assumes "sorted_wrt (>) ys" "j < length ys"
  shows "(i :: u64) < ys ! j \<longleftrightarrow> j < length (takeWhile (\<lambda>x. x > i) ys)"
proof
  let ?k = "length (takeWhile (\<lambda>x. x > i) ys)"
  assume i: "i < ys ! j"
  show "j < ?k"
  proof (rule ccontr)
    assume nj: "\<not> j < ?k"
    then have "?k < length ys" using assms(2) by linarith
    then have "\<not> i < ys ! ?k" using nth_length_takeWhile [of "\<lambda>x. x > i" ys] by simp
    moreover have "ys ! j \<le> ys ! ?k"
    proof (cases "?k = j")
      case False
      then show ?thesis using sorted_wrt_nth_less [OF assms(1), of ?k j] nj assms(2) by simp
    qed simp
    ultimately show False using i by simp
  qed
next
  assume j: "j < length (takeWhile (\<lambda>x. x > i) ys)"
  then have "ys ! j = takeWhile (\<lambda>x. x > i) ys ! j" by (simp add: takeWhile_nth)
  then show "i < ys ! j" using nth_mem [OF j] by (auto dest: set_takeWhileD)
qed

section \<open>Properties\<close>

text \<open>Sorting an ID list returns, without leaving the array or the 64-entry stack, with the same IDs in
  descending order and the object's size unchanged, for every list of fewer than 2^30 IDs.\<close>

theorem mdb_midl_sort_correct:
  assumes "idl_rep m xs" "length xs < 2 ^ 30" "length istack = 64"
  shows "\<exists>m'. mdb_midl_sort istack m = Some m' \<and> idl_rep m' (rev (sort xs)) \<and> length m' = length m"
  by (rule mdb_midl_sort_rep [OF assms])

theorem mdb_midl_sort_correct_witness:
  "\<exists>m'. mdb_midl_sort (replicate 64 0) [4, 3, 5, 9, 7, 0] = Some m' \<and> idl_rep m' [9, 7, 5] \<and> length m' = length [4, 3, 5, 9, 7, 0 :: u64]"
proof -
  have "idl_rep [4, 3, 5, 9, 7, 0] [5, 9, 7]" by (auto simp: idl_rep_def intro!: exI [of _ "[0]"])
  then show ?thesis using mdb_midl_sort_correct [of "[4, 3, 5, 9, 7, 0]" "[5, 9, 7]" "replicate 64 0"] by simp
qed

text \<open>C30: every operation on an ID list implements its specification on the list it stands for: appending an
  ID, a list or a range, reserving room, shrinking, sorting, and merging another list in order; when memory
  runs out it either needs none or reports ENOMEM and leaves the list as it was.\<close>

theorem midl_refinement:
  assumes "idl_rep m xs" "midl_pre op ys xs m" "length istack = 64"
  shows "\<exists>m' rc. midl_exec ok jk istack op m = Some (m', rc) \<and>
    (rc = 0 \<and> idl_rep m' (midl_spec op ys xs) \<or> \<not> ok \<and> rc = ENOMEM \<and> m' = m)"
proof (cases ok)
  case True
  then show ?thesis using midl_exec_ok [OF assms] by auto
next
  case False
  then show ?thesis using midl_exec_ok [OF assms] midl_exec_fail [OF assms(1,2), of jk istack] assms(1) by fastforce
qed

theorem midl_refinement_witness:
  "\<exists>m' rc. midl_exec True 0 (replicate 64 0) (Merge [2, 2, 8, 3]) [3, 2, 9, 5, 0] = Some (m', rc) \<and> rc = 0 \<and> idl_rep m' [9, 8, 5, 3]"
proof -
  have "idl_rep [3, 2, 9, 5, 0] [9, 5]" by (auto simp: idl_rep_def intro!: exI [of _ "[0]"])
  moreover have "idl_rep [2, 2, 8, 3] [8, 3]" by (auto simp: idl_rep_def)
  ultimately show ?thesis
    using midl_refinement [of "[3, 2, 9, 5, 0]" "[9, 5]" "Merge [2, 2, 8, 3]" "[8, 3]" "replicate 64 0" True 0] by simp
qed

text \<open>In a list that was sorted, the binary search returns, for every ID, a position from 1 to the count
  plus 1 before which all IDs are larger and from which none is; the ID is in the list exactly when that
  position holds it.\<close>

theorem midl_sort_search:
  assumes "idl_rep m xs" "distinct xs" "length xs < 2 ^ 30" "length istack = 64"
  shows "\<exists>m' p. mdb_midl_sort istack m = Some m' \<and> mdb_midl_search m' i = Some p \<and> 1 \<le> p \<and> p \<le> length xs + 1 \<and>
    (\<forall>k v. 1 \<le> k \<longrightarrow> k \<le> length xs \<longrightarrow> ids_at m' k = Some v \<longrightarrow> (i < v \<longleftrightarrow> k < p)) \<and>
    (i \<in> set xs \<longleftrightarrow> p \<le> length xs \<and> ids_at m' p = Some i)"
proof -
  obtain m' where m': "mdb_midl_sort istack m = Some m'" "idl_rep m' (rev (sort xs))"
    using mdb_midl_sort_rep [OF assms(1,3,4)] by blast
  let ?ys = "rev (sort xs)"
  have s: "sorted_wrt (>) ?ys"
    using strict_sorted_iff [of "sort xs"] assms(2) by (simp add: sorted_wrt_rev)
  let ?k = "length (takeWhile (\<lambda>x. x > i) ?ys)"
  have p: "mdb_midl_search m' i = Some (?k + 1)" by (rule mdb_midl_search_rep [OF m'(2) s])
  have kl: "?k \<le> length xs" using length_takeWhile_le [of "\<lambda>x. x > i" ?ys] by simp
  have at: "ids_at m' k = Some (?ys ! (k - 1))" if "1 \<le> k" "k \<le> length xs" for k
    using m'(2) that by (cases k) (auto simp: idl_rep_def ids_at_def peek_def nth_append)
  have ord: "i < ?ys ! j \<longleftrightarrow> j < ?k" if "j < length xs" for j
    by (rule takeWhile_sorted_iff [OF s]) (use that in simp)
  have mem: "i \<in> set xs \<longleftrightarrow> ?k < length xs \<and> ?ys ! ?k = i"
  proof
    assume "i \<in> set xs"
    then obtain j where j: "j < length xs" "?ys ! j = i" by (metis in_set_conv_nth length_rev length_sort set_rev set_sort)
    have "\<not> j < ?k" using ord [OF j(1)] j(2) by simp
    moreover have "\<not> ?k < j" using sorted_wrt_nth_less [OF s, of ?k j] ord [of ?k] j by auto
    ultimately show "?k < length xs \<and> ?ys ! ?k = i" using j by (metis linorder_neqE_nat)
  next
    assume "?k < length xs \<and> ?ys ! ?k = i"
    then show "i \<in> set xs" by (metis length_rev length_sort nth_mem set_rev set_sort)
  qed
  have "(\<forall>k v. 1 \<le> k \<longrightarrow> k \<le> length xs \<longrightarrow> ids_at m' k = Some v \<longrightarrow> (i < v \<longleftrightarrow> k < ?k + 1))"
    using at ord by (auto simp: less_Suc_eq_le Suc_le_eq)
  moreover have "i \<in> set xs \<longleftrightarrow> ?k + 1 \<le> length xs \<and> ids_at m' (?k + 1) = Some i"
    using mem at [of "?k + 1"] by (auto simp: Suc_le_eq)
  ultimately show ?thesis using m'(1) p kl by (intro exI [of _ m'] exI [of _ "?k + 1"]) auto
qed

theorem midl_sort_search_witness:
  "\<exists>m' p. mdb_midl_sort (replicate 64 0) [4, 3, 5, 9, 7, 0] = Some m' \<and> mdb_midl_search m' 7 = Some p \<and> ids_at m' p = Some 7"
proof -
  have "idl_rep [4, 3, 5, 9, 7, 0] [5, 9, 7]" by (auto simp: idl_rep_def intro!: exI [of _ "[0]"])
  then show ?thesis using midl_sort_search [of "[4, 3, 5, 9, 7, 0]" "[5, 9, 7]" "replicate 64 0" 7] by auto
qed

end
