(* ===== verification/Lmdb_Key.thy ===== *)
theory Lmdb_Key
  imports Prelude "HOL-Library.List_Lexorder"
begin

text \<open>
  The keys of the embedded database, \<^verbatim>\<open>src/liblmdb/mdb.c\<close>: the comparison functions of keys and data, and
  the hash with its printable form that names the lock. A key or datum (\<^verbatim>\<open>MDB_val\<close>) is its list of bytes.
  The comparisons are proved to be the orders they stand for.
\<close>

section \<open>The comparison functions\<close>

text \<open>\<^verbatim>\<open>memcmp\<close>: the difference of the first bytes that differ; undefined when a byte is read outside.\<close>

fun memcmp :: "bytes \<Rightarrow> bytes \<Rightarrow> nat \<Rightarrow> int option" where
  "memcmp a b 0 = Some 0"
| "memcmp (x # a) (y # b) (Suc n) = (if x = y then memcmp a b n else Some (uint x - uint y))"
| "memcmp _ _ (Suc n) = None"

definition mdb_cmp_memn :: "bytes \<Rightarrow> bytes \<Rightarrow> int option" where
  "mdb_cmp_memn a b =
     (let len_diff = int (length a) - int (length b);
          len = (if len_diff > 0 then length b else length a) mod 2 ^ 32;
          len_diff = (if len_diff > 0 then 1 else len_diff)
      in do {
        diff \<leftarrow> memcmp a b len;
        Some (if diff \<noteq> 0 then diff else if len_diff < 0 then - 1 else len_diff)
      })"

fun memnr_loop :: "bytes \<Rightarrow> bytes \<Rightarrow> nat \<Rightarrow> nat \<Rightarrow> nat \<Rightarrow> int option" where
  "memnr_loop a b lim 0 p2 = Some 0"
| "memnr_loop a b lim (Suc p1) p2 =
     (if Suc p1 > lim then
        (if p2 = 0 then None
         else do {
           x \<leftarrow> peek a p1;
           y \<leftarrow> peek b (p2 - 1);
           (if uint x - uint y \<noteq> 0 then Some (uint x - uint y) else memnr_loop a b lim p1 (p2 - 1))
         })
      else Some 0)"

definition mdb_cmp_memnr :: "bytes \<Rightarrow> bytes \<Rightarrow> int option" where
  "mdb_cmp_memnr a b =
     (let len_diff = int (length a) - int (length b);
          p1_lim = (if len_diff > 0 then nat len_diff else 0);
          len_diff = (if len_diff > 0 then 1 else len_diff)
      in do {
        diff \<leftarrow> memnr_loop a b p1_lim (length a) (length b);
        Some (if diff \<noteq> 0 then diff else if len_diff < 0 then - 1 else len_diff)
      })"

text \<open>A little-endian number in the bytes of an object.\<close>

fun le_nat :: "bytes \<Rightarrow> nat" where
  "le_nat [] = 0"
| "le_nat (x # xs) = unat x + 256 * le_nat xs"

definition load_le :: "bytes \<Rightarrow> nat \<Rightarrow> nat \<Rightarrow> nat option" where
  "load_le m off n = (if off + n \<le> length m then Some (le_nat (take n (drop off m))) else None)"

definition cmp_sized :: "nat \<Rightarrow> bytes \<Rightarrow> bytes \<Rightarrow> int option" where
  "cmp_sized n a b = do {
     x \<leftarrow> load_le a 0 n;
     y \<leftarrow> load_le b 0 n;
     Some (if x < y then - 1 else if x > y then 1 else 0)
   }"

definition mdb_cmp_long :: "bytes \<Rightarrow> bytes \<Rightarrow> int option" where
  "mdb_cmp_long a b = cmp_sized 8 a b"

definition mdb_cmp_int :: "bytes \<Rightarrow> bytes \<Rightarrow> int option" where
  "mdb_cmp_int a b = cmp_sized 4 a b"

text \<open>Numbers of any even size, two bytes at a time from the end (the little-endian branch).\<close>

function cint_loop :: "bytes \<Rightarrow> bytes \<Rightarrow> nat \<Rightarrow> int option" where
  "cint_loop a b u =
     (if u < 2 then None
      else (case load_le a (u - 2) 2 of
              None \<Rightarrow> None
            | Some x \<Rightarrow>
                (case load_le b (u - 2) 2 of
                   None \<Rightarrow> None
                 | Some y \<Rightarrow> if x = y \<and> u - 2 > 0 then cint_loop a b (u - 2) else Some (int x - int y))))"
  by pat_completeness auto

termination
  by (relation "measure (\<lambda>(_, _, u). u)") auto

declare cint_loop.simps [simp del]

definition mdb_cmp_cint :: "bytes \<Rightarrow> bytes \<Rightarrow> int option" where
  "mdb_cmp_cint a b = cint_loop a b (length a)"

section \<open>The lock name\<close>

text \<open>The FNV-1a hash and its digits in base 85, least significant first.\<close>

definition mdb_hash :: "bytes \<Rightarrow> u64" where
  "mdb_hash val = fold (\<lambda>s hval. (hval XOR ucast s) * 0x100000001b3) val 0xcbf29ce484222325"

definition mdb_a85 :: string where
  "mdb_a85 = ''0123456789ABCDEFGHIJKLMNOPQRSTUVWXYZabcdefghijklmnopqrstuvwxyz!#$%&()*+-;<=>?@^_`{|}~''"

fun pack85_loop :: "nat \<Rightarrow> u64 \<Rightarrow> string" where
  "pack85_loop 0 l = []"
| "pack85_loop (Suc i) l = (if l \<noteq> 0 then mdb_a85 ! unat (l mod 85) # pack85_loop i (l div 85) else [])"

definition mdb_pack85 :: "u64 \<Rightarrow> string" where
  "mdb_pack85 l = pack85_loop 10 l @ [NUL]"

section \<open>Lexical order\<close>

lemma memcmp_lex:
  "n \<le> length a \<Longrightarrow> n \<le> length b \<Longrightarrow> \<exists>d. memcmp a b n = Some d \<and> (d = 0 \<longleftrightarrow> take n a = take n b) \<and>
     (d < 0 \<longleftrightarrow> take n a < take n b)"
proof (induction a b n rule: memcmp.induct)
  case (2 x a y b n)
  show ?case
  proof (cases "x = y")
    case True
    then show ?thesis using 2 by auto
  next
    case False
    then have "uint x \<noteq> uint y" by (metis word_uint_eqI)
    then show ?thesis using False by (auto simp: word_less_def)
  qed
qed auto

lemma lex_take_drop:
  "n \<le> length a \<Longrightarrow> n \<le> length b \<Longrightarrow> (a :: bytes) < b \<longleftrightarrow> take n a < take n b \<or> take n a = take n b \<and> drop n a < drop n b"
proof (induction n arbitrary: a b)
  case (Suc n)
  obtain x a' y b' where ab: "a = x # a'" "b = y # b'" using Suc.prems by (cases a; cases b) auto
  have "a' < b' \<longleftrightarrow> take n a' < take n b' \<or> take n a' = take n b' \<and> drop n a' < drop n b'"
    using Suc.prems ab by (intro Suc.IH) auto
  then show ?case unfolding ab by auto
qed simp

text \<open>The sign of a comparison is that of an order.\<close>

definition orders :: "int \<Rightarrow> 'a::linorder \<Rightarrow> 'a \<Rightarrow> bool" where
  "orders r x y \<longleftrightarrow> (r < 0 \<longleftrightarrow> x < y) \<and> (r = 0 \<longleftrightarrow> x = y) \<and> (r > 0 \<longleftrightarrow> x > y)"

lemma ordersI: "(r < 0 \<longleftrightarrow> x < y) \<Longrightarrow> (r = 0 \<longleftrightarrow> x = y) \<Longrightarrow> orders r x y"
  by (auto simp: orders_def)

lemma mdb_cmp_memn_orders:
  assumes "length a < 2 ^ 32" "length b < 2 ^ 32"
  shows "\<exists>r. mdb_cmp_memn a b = Some r \<and> orders r a b"
proof -
  let ?n = "min (length a) (length b)"
  obtain d where d: "memcmp a b ?n = Some d" "d = 0 \<longleftrightarrow> take ?n a = take ?n b" "d < 0 \<longleftrightarrow> take ?n a < take ?n b"
    using memcmp_lex [of ?n a b] by auto
  have n: "(if int (length a) - int (length b) > 0 then length b else length a) mod 2 ^ 32 = ?n" using assms by auto
  let ?r = "if d \<noteq> 0 then d else if length a < length b then - 1 else if length a > length b then 1 else 0"
  have eq: "mdb_cmp_memn a b = Some ?r"
    unfolding mdb_cmp_memn_def Let_def n d(1) by auto
  have lt: "a < b \<longleftrightarrow> take ?n a < take ?n b \<or> take ?n a = take ?n b \<and> length a < length b"
  proof -
    have "([] :: bytes) < c \<longleftrightarrow> c \<noteq> []" for c by (cases c) auto
    then have "drop ?n a < drop ?n b \<longleftrightarrow> length a < length b"
      by (cases "length a" "length b" rule: linorder_cases) auto
    then show ?thesis using lex_take_drop [of ?n a b] by simp
  qed
  have e: "a = b \<longleftrightarrow> take ?n a = take ?n b \<and> length a = length b" by auto
  have "orders ?r a b"
  proof (cases "d = 0")
    case True
    then show ?thesis using d(2) lt e by (intro ordersI) (simp_all split: if_split)
  next
    case False
    then show ?thesis using d(2,3) lt e by (intro ordersI) simp_all
  qed
  with eq show ?thesis by blast
qed

lemma memnr_loop_eq:
  "p1 \<le> length a \<Longrightarrow> p2 \<le> length b \<Longrightarrow> memnr_loop a b lim p1 p2 = memcmp (rev (take p1 a)) (rev (take p2 b)) (p1 - lim)"
proof (induction p1 arbitrary: p2)
  case (Suc p1)
  show ?case
  proof (cases "Suc p1 > lim")
    case True
    then have n: "Suc p1 - lim = Suc (p1 - lim)" by simp
    have a: "rev (take (Suc p1) a) = a ! p1 # rev (take p1 a)" "peek a p1 = Some (a ! p1)"
      using Suc.prems by (simp_all add: take_Suc_conv_app_nth peek_def)
    show ?thesis
    proof (cases p2)
      case 0
      then show ?thesis using True n a by simp
    next
      case (Suc q)
      then have b: "rev (take p2 b) = b ! q # rev (take q b)" "peek b q = Some (b ! q)"
        using Suc.prems by (simp_all add: take_Suc_conv_app_nth peek_def)
      have "uint (a ! p1) = uint (b ! q) \<longleftrightarrow> a ! p1 = b ! q" by (auto intro: word_uint_eqI)
      then show ?thesis using True n a b Suc Suc.IH [of q] Suc.prems by simp
    qed
  qed simp
qed simp

lemma mdb_cmp_memnr_rev:
  assumes "length a < 2 ^ 32" "length b < 2 ^ 32"
  shows "mdb_cmp_memnr a b = mdb_cmp_memn (rev a) (rev b)"
proof -
  let ?d = "int (length a) - int (length b)"
  have "memnr_loop a b (if ?d > 0 then nat ?d else 0) (length a) (length b) = memcmp (rev a) (rev b) ((if ?d > 0 then length b else length a) mod 2 ^ 32)"
    using assms memnr_loop_eq [of "length a" a "length b" b] by (auto simp: nat_diff_distrib')
  then show ?thesis unfolding mdb_cmp_memnr_def mdb_cmp_memn_def Let_def length_rev by simp
qed

section \<open>Numeric order\<close>

lemma le_nat_append: "le_nat (xs @ ys) = le_nat xs + 256 ^ length xs * le_nat ys"
  by (induction xs) (auto simp: algebra_simps)

lemma le_nat_less: "le_nat xs < 256 ^ length xs"
proof (induction xs)
  case (Cons x xs)
  have "unat x < 256" using unsigned_less [of x, where ?'a = nat] by simp
  then show ?case using Cons by simp
qed simp

lemma cmp_sized_orders:
  "length a = n \<Longrightarrow> length b = n \<Longrightarrow> \<exists>r. cmp_sized n a b = Some r \<and> orders r (le_nat a) (le_nat b)"
  by (auto simp: cmp_sized_def load_le_def orders_def)

lemma le_nat_mid:
  assumes "u + 2 \<le> length a" "length b = length a" "drop (u + 2) a = drop (u + 2) b"
    "le_nat (take 2 (drop u a)) \<noteq> le_nat (take 2 (drop u b))"
  shows "le_nat a < le_nat b \<longleftrightarrow> le_nat (take 2 (drop u a)) < le_nat (take 2 (drop u b))" "le_nat a \<noteq> le_nat b"
proof -
  have s: "le_nat c = le_nat (take u c) + 256 ^ u * (le_nat (take 2 (drop u c)) + 65536 * le_nat (drop (u + 2) c))" if "length c = length a" for c
  proof -
    have "c = take u c @ take 2 (drop u c) @ drop (u + 2) c" by (metis append_take_drop_id drop_drop add.commute)
    then have "le_nat c = le_nat (take u c @ take 2 (drop u c) @ drop (u + 2) c)" by simp
    then show ?thesis using that assms(1) by (simp add: le_nat_append)
  qed
  have t: "le_nat (take u c) < 256 ^ u" if "length c = length a" for c
    using le_nat_less [of "take u c"] that assms(1) by simp
  have lt: "x + 256 ^ u * p < y + 256 ^ u * q" if "p < q" "x < 256 ^ u" for x y p q :: nat
  proof -
    have "256 ^ u * (p + 1) \<le> 256 ^ u * q" using that(1) by (intro mult_left_mono) auto
    then show ?thesis using that(2) by simp
  qed
  show lt_iff: "le_nat a < le_nat b \<longleftrightarrow> le_nat (take 2 (drop u a)) < le_nat (take 2 (drop u b))"
    and "le_nat a \<noteq> le_nat b"
    unfolding atomize_conj
  proof (cases "le_nat (take 2 (drop u a)) < le_nat (take 2 (drop u b))")
    case True
    then have "le_nat a < le_nat b"
      unfolding s [OF refl] s [OF assms(2)] assms(3) by (intro lt t) auto
    then show "(le_nat a < le_nat b \<longleftrightarrow> le_nat (take 2 (drop u a)) < le_nat (take 2 (drop u b))) \<and> le_nat a \<noteq> le_nat b"
      using True by simp
  next
    case False
    then have "le_nat (take 2 (drop u b)) < le_nat (take 2 (drop u a))" using assms(4) by simp
    then have "le_nat b < le_nat a"
      unfolding s [OF refl] s [OF assms(2)] assms(3) by (intro lt t assms(2)) auto
    then show "(le_nat a < le_nat b \<longleftrightarrow> le_nat (take 2 (drop u a)) < le_nat (take 2 (drop u b))) \<and> le_nat a \<noteq> le_nat b"
      using False by simp
  qed
qed

lemma le_nat_inj: "length a = length b \<Longrightarrow> le_nat a = le_nat b \<Longrightarrow> a = b"
proof (induction a b rule: list_induct2)
  case (Cons x xs y ys)
  have "unat x < 256" "unat y < 256" using unsigned_less [of x, where ?'a = nat] unsigned_less [of y, where ?'a = nat] by simp_all
  moreover have eq: "unat x + 256 * le_nat xs = unat y + 256 * le_nat ys" using Cons.prems by simp
  moreover have "(unat x + 256 * le_nat xs) mod 256 = unat x mod 256" "(unat y + 256 * le_nat ys) mod 256 = unat y mod 256" by simp_all
  ultimately have "unat x = unat y" by simp
  moreover from this have "le_nat xs = le_nat ys" using eq by simp
  ultimately have "unat x = unat y \<and> le_nat xs = le_nat ys" by simp
  then show ?case using Cons by (simp add: word_unat_eq_iff)
qed simp

lemma cint_loop_orders:
  assumes "even u" "0 < u" "u \<le> length a" "length b = length a" "drop u a = drop u b"
  shows "\<exists>r. cint_loop a b u = Some r \<and> orders r (le_nat a) (le_nat b)"
  using assms
proof (induction a b u rule: cint_loop.induct)
  case (1 a b u)
  let ?x = "le_nat (take 2 (drop (u - 2) a))" and ?y = "le_nat (take 2 (drop (u - 2) b))"
  have u: "2 \<le> u" using "1.prems"(1,2) by (cases u; cases "u - 1") auto
  have l: "load_le a (u - 2) 2 = Some ?x" "load_le b (u - 2) 2 = Some ?y" using u "1.prems" by (auto simp: load_le_def)
  have dr: "drop (u - 2 + 2) a = drop (u - 2 + 2) b" using u "1.prems"(5) by (simp only: le_add_diff_inverse2)
  have step: "cint_loop a b u = (if ?x = ?y \<and> u - 2 > 0 then cint_loop a b (u - 2) else Some (int ?x - int ?y))"
    using u l by (subst cint_loop.simps) simp
  show ?case
  proof (cases "?x = ?y")
    case True
    have "take 2 (drop (u - 2) a) = take 2 (drop (u - 2) b)" using True u "1.prems"(3,4) by (intro le_nat_inj) auto
    then have d: "drop (u - 2) a = drop (u - 2) b"
      using dr by (metis append_take_drop_id drop_drop add.commute)
    show ?thesis
    proof (cases "u - 2 > 0")
      case t: True
      then have "\<exists>r. cint_loop a b (u - 2) = Some r \<and> orders r (le_nat a) (le_nat b)"
        using "1.IH" [OF _ l] True u "1.prems" d by auto
      then show ?thesis using step True t by simp
    next
      case False
      then have "a = b" using d u by simp
      then show ?thesis using step True False by (simp add: orders_def)
    qed
  next
    case False
    have "u - 2 + 2 \<le> length a" using u "1.prems"(3) by linarith
    note mid = le_nat_mid [OF this "1.prems"(4) dr False]
    show ?thesis using step False mid by (auto intro!: ordersI)
  qed
qed

section \<open>The printable hash\<close>

lemma mdb_a85: "length mdb_a85 = 85" "distinct mdb_a85" "NUL \<notin> set mdb_a85"
  by (simp_all add: mdb_a85_def NUL_def)

lemma pack85_loop_inj:
  "unat l < 85 ^ n \<Longrightarrow> unat l' < 85 ^ n \<Longrightarrow> pack85_loop n l = pack85_loop n l' \<Longrightarrow> l = l'"
proof (induction n arbitrary: l l')
  case 0
  then show ?case by (simp add: unat_eq_0)
next
  case (Suc n)
  show ?case
  proof (cases "l = 0 \<or> l' = 0")
    case True
    then show ?thesis using Suc.prems(3) by (auto split: if_splits)
  next
    case False
    then have e: "mdb_a85 ! unat (l mod 85) = mdb_a85 ! unat (l' mod 85)" "pack85_loop n (l div 85) = pack85_loop n (l' div 85)"
      using Suc.prems(3) by auto
    have m: "unat (x mod 85) = unat x mod 85" "unat (x div 85) = unat x div 85" for x :: u64
      by (simp_all add: unat_mod_distrib unat_div_distrib)
    have "unat l mod 85 = unat l' mod 85" using e(1) mdb_a85(1,2) by (simp add: m nth_eq_iff_index_eq)
    moreover have "l div 85 = l' div 85"
      using Suc.prems(1,2) by (intro Suc.IH [OF _ _ e(2)]) (simp_all add: m less_mult_imp_div_less mult.commute)
    then have "unat l div 85 = unat l' div 85" by (simp flip: m)
    ultimately have "unat l = unat l'" by (metis div_mult_mod_eq)
    then show ?thesis by (simp add: word_unat_eq_iff)
  qed
qed

lemma length_pack85_loop: "length (pack85_loop n l) \<le> n"
  by (induction n arbitrary: l) auto

lemma set_pack85_loop: "set (pack85_loop n l) \<subseteq> set mdb_a85"
proof (induction n arbitrary: l)
  case (Suc n)
  have "unat (l mod 85) < length mdb_a85" by (simp add: mdb_a85(1) unat_mod_distrib)
  then show ?case using Suc by auto
qed simp

text \<open>The name is a terminated string of at most ten characters, and different hashes have different names:
  ten digits in base 85 cover 64 bits.\<close>

theorem mdb_pack85_name:
  "length (mdb_pack85 l) \<le> 11 \<and> cstr (mdb_pack85 l) 0 = Some (pack85_loop 10 l) \<and> (mdb_pack85 l = mdb_pack85 l' \<longleftrightarrow> l = l')"
proof (intro conjI)
  show "length (mdb_pack85 l) \<le> 11" using length_pack85_loop [of 10 l] by (simp add: mdb_pack85_def)
  have "is_cstring (pack85_loop 10 l)" using set_pack85_loop [of 10 l] mdb_a85(3) by (auto simp: is_cstring_def)
  then show "cstr (mdb_pack85 l) 0 = Some (pack85_loop 10 l)" unfolding mdb_pack85_def by (rule cstr_append)
  have "unat x < 85 ^ 10" for x :: u64 using unsigned_less [of x, where ?'a = nat] by simp
  then show "mdb_pack85 l = mdb_pack85 l' \<longleftrightarrow> l = l'" unfolding mdb_pack85_def using pack85_loop_inj [of l 10 l'] by auto
qed

section \<open>Property\<close>

text \<open>The comparison functions are the orders the database documents: by bytes from the front with a prefix
  first, by bytes from the back, and by value for numbers of four, eight or any even number of bytes, where
  the specialised functions agree with the general one.\<close>

theorem key_comparisons:
  assumes "length a < 2 ^ 32" "length b < 2 ^ 32"
  shows "(\<exists>r. mdb_cmp_memn a b = Some r \<and> orders r a b) \<and>
    (\<exists>r. mdb_cmp_memnr a b = Some r \<and> orders r (rev a) (rev b)) \<and>
    (a \<noteq> [] \<longrightarrow> even (length a) \<longrightarrow> length b = length a \<longrightarrow> (\<exists>r. mdb_cmp_cint a b = Some r \<and> orders r (le_nat a) (le_nat b))) \<and>
    (length a = 4 \<longrightarrow> length b = 4 \<longrightarrow> (\<exists>r. mdb_cmp_int a b = Some r \<and> orders r (le_nat a) (le_nat b))) \<and>
    (length a = 8 \<longrightarrow> length b = 8 \<longrightarrow> (\<exists>r. mdb_cmp_long a b = Some r \<and> orders r (le_nat a) (le_nat b)))"
proof (intro conjI impI)
  show "\<exists>r. mdb_cmp_memn a b = Some r \<and> orders r a b" by (rule mdb_cmp_memn_orders [OF assms])
  show "\<exists>r. mdb_cmp_memnr a b = Some r \<and> orders r (rev a) (rev b)"
    unfolding mdb_cmp_memnr_rev [OF assms] using assms by (intro mdb_cmp_memn_orders) auto
  show "\<exists>r. mdb_cmp_cint a b = Some r \<and> orders r (le_nat a) (le_nat b)" if "a \<noteq> []" "even (length a)" "length b = length a"
    unfolding mdb_cmp_cint_def using that by (intro cint_loop_orders) auto
  show "\<exists>r. mdb_cmp_int a b = Some r \<and> orders r (le_nat a) (le_nat b)" if "length a = 4" "length b = 4"
    unfolding mdb_cmp_int_def by (rule cmp_sized_orders [OF that])
  show "\<exists>r. mdb_cmp_long a b = Some r \<and> orders r (le_nat a) (le_nat b)" if "length a = 8" "length b = 8"
    unfolding mdb_cmp_long_def by (rule cmp_sized_orders [OF that])
qed

theorem key_comparisons_witness:
  "(\<exists>r. mdb_cmp_memn [1, 2] [1, 2, 0] = Some r \<and> r < 0) \<and> (\<exists>r. mdb_cmp_int [0, 1, 0, 0] [255, 0, 0, 0] = Some r \<and> r > 0)"
  using key_comparisons [of "[1, 2]" "[1, 2, 0]"] key_comparisons [of "[0, 1, 0, 0]" "[255, 0, 0, 0]"]
  by (auto simp: orders_def)

end
