(* ===== verification/Lmdb_Page.thy ===== *)
theory Lmdb_Page
  imports Midl Lmdb_Key
begin

text \<open>
  The pages of the embedded database, \<^verbatim>\<open>src/liblmdb/mdb.c\<close>: adding, deleting and searching nodes. A page is
  its header as a record and the bytes after the header, which hold the array of 16-bit node offsets from the
  front and the nodes from the back. Offsets count from the start of the page, whose header has 16 bytes.
  The theorems show that a page implements a list of nodes: \<open>page_rep\<close> relates the bytes to the list.
\<close>

type_synonym u16 = "16 word"

section \<open>Pages and nodes\<close>

abbreviation (input) PAGEHDRSZ :: nat where "PAGEHDRSZ \<equiv> 16"
abbreviation (input) NODESIZE :: nat where "NODESIZE \<equiv> 8"
abbreviation (input) P_BRANCH :: u16 where "P_BRANCH \<equiv> 0x01"
abbreviation (input) P_LEAF :: u16 where "P_LEAF \<equiv> 0x02"
abbreviation (input) P_OVERFLOW :: u16 where "P_OVERFLOW \<equiv> 0x04"
abbreviation (input) P_DIRTY :: u16 where "P_DIRTY \<equiv> 0x10"
abbreviation (input) P_LEAF2 :: u16 where "P_LEAF2 \<equiv> 0x20"
abbreviation (input) F_BIGDATA :: u16 where "F_BIGDATA \<equiv> 0x01"
abbreviation (input) MDB_RESERVE :: u32 where "MDB_RESERVE \<equiv> 0x10000"
abbreviation (input) MDB_PAGE_FULL :: int where "MDB_PAGE_FULL \<equiv> - 30786"

record mdb_page =
  mp_pgno :: u64
  mp_pad :: u16
  mp_flags :: u16
  mp_lower :: u16
  mp_upper :: u16
  mp_body :: bytes

text \<open>A datum with the size the caller gives, which for data on an overflow page is not that of the bytes.\<close>

record mdb_val =
  mv_size :: nat
  mv_data :: bytes

definition F_ISSET :: "'a::len word \<Rightarrow> 'a word \<Rightarrow> bool" where
  "F_ISSET w f \<longleftrightarrow> w AND f = f"

definition EVEN :: "nat \<Rightarrow> nat" where
  "EVEN n = (n + 1) div 2 * 2"

definition le16 :: "u16 \<Rightarrow> bytes" where
  "le16 v = [ucast v, ucast (drop_bit 8 v)]"

definition get16 :: "bytes \<Rightarrow> nat \<Rightarrow> u16 option" where
  "get16 m off = map_option of_nat (load_le m off 2)"

definition put16 :: "bytes \<Rightarrow> nat \<Rightarrow> u16 \<Rightarrow> bytes option" where
  "put16 m off v = blit m off (le16 v)"

definition le64 :: "u64 \<Rightarrow> bytes" where
  "le64 v = map (\<lambda>k. ucast (drop_bit (8 * k) v)) [0..<8]"

definition NUMKEYS :: "mdb_page \<Rightarrow> nat" where
  "NUMKEYS p = unat ((ucast (mp_lower p) - 16 :: u32)) div 2"

definition SIZELEFT :: "mdb_page \<Rightarrow> u16" where
  "SIZELEFT p = mp_upper p - mp_lower p"

definition IS_LEAF :: "mdb_page \<Rightarrow> bool" where
  "IS_LEAF p \<longleftrightarrow> F_ISSET (mp_flags p) P_LEAF"

definition IS_LEAF2 :: "mdb_page \<Rightarrow> bool" where
  "IS_LEAF2 p \<longleftrightarrow> F_ISSET (mp_flags p) P_LEAF2"

definition IS_BRANCH :: "mdb_page \<Rightarrow> bool" where
  "IS_BRANCH p \<longleftrightarrow> F_ISSET (mp_flags p) P_BRANCH"

definition IS_OVERFLOW :: "mdb_page \<Rightarrow> bool" where
  "IS_OVERFLOW p \<longleftrightarrow> F_ISSET (mp_flags p) P_OVERFLOW"

text \<open>\<open>NODEPTR\<close> as a position in the body; an offset inside the header points at no node.\<close>

definition NODEPTR :: "bytes \<Rightarrow> nat \<Rightarrow> nat option" where
  "NODEPTR b i = do {
     ptr \<leftarrow> get16 b (2 * i);
     (if unat ptr < PAGEHDRSZ then None else Some (unat ptr - PAGEHDRSZ))
   }"

definition NODEKSZ :: "bytes \<Rightarrow> nat \<Rightarrow> u16 option" where
  "NODEKSZ b node = get16 b (node + 6)"

definition NODEFLAGS :: "bytes \<Rightarrow> nat \<Rightarrow> u16 option" where
  "NODEFLAGS b node = get16 b (node + 4)"

definition NODEDSZ :: "bytes \<Rightarrow> nat \<Rightarrow> u32 option" where
  "NODEDSZ b node = do {
     lo \<leftarrow> get16 b node;
     hi \<leftarrow> get16 b (node + 2);
     Some (ucast lo OR push_bit 16 (ucast hi))
   }"

definition NODEKEY :: "bytes \<Rightarrow> nat \<Rightarrow> bytes option" where
  "NODEKEY b node = do {
     k \<leftarrow> NODEKSZ b node;
     (if node + NODESIZE + unat k \<le> length b then Some (take (unat k) (drop (node + NODESIZE) b)) else None)
   }"

definition SETDSZ :: "bytes \<Rightarrow> nat \<Rightarrow> nat \<Rightarrow> bytes option" where
  "SETDSZ b node sz = do {
     b \<leftarrow> put16 b node (of_nat sz);
     put16 b (node + 2) (of_nat (sz div 65536))
   }"

definition SETPGNO :: "bytes \<Rightarrow> nat \<Rightarrow> u64 \<Rightarrow> bytes option" where
  "SETPGNO b node pgno = do {
     b \<leftarrow> put16 b node (ucast pgno);
     b \<leftarrow> put16 b (node + 2) (ucast (drop_bit 16 pgno));
     put16 b (node + 4) (ucast (drop_bit 32 pgno))
   }"

section \<open>Sizes and new pages\<close>

definition mdb_leaf_size :: "nat \<Rightarrow> mdb_val \<Rightarrow> mdb_val \<Rightarrow> nat" where
  "mdb_leaf_size nodemax key data =
     (let sz = NODESIZE + mv_size key + mv_size data;
          sz = (if sz > nodemax then sz - mv_size data + 8 else sz)
      in EVEN (sz + 2))"

definition mdb_branch_size :: "mdb_val option \<Rightarrow> nat" where
  "mdb_branch_size key = NODESIZE + (case key of None \<Rightarrow> 0 | Some k \<Rightarrow> mv_size k) + 2"

record mdb_db =
  md_branch_pages :: u64
  md_leaf_pages :: u64
  md_overflow_pages :: u64

text \<open>\<open>alloc n\<close> is the answer of the page allocator for \<open>n\<close> pages: an error, or the number and the bytes.\<close>

type_synonym page_alloc = "nat \<Rightarrow> int + u64 \<times> bytes"

definition mdb_page_new :: "page_alloc \<Rightarrow> nat \<Rightarrow> mdb_db \<Rightarrow> u16 \<Rightarrow> nat \<Rightarrow> int + mdb_page \<times> mdb_db" where
  "mdb_page_new alloc psize db flags num =
     (case alloc num of
        Inl rc \<Rightarrow> Inl rc
      | Inr (pgno, b) \<Rightarrow>
          let np = \<lparr>mp_pgno = pgno, mp_pad = 0, mp_flags = flags OR P_DIRTY, mp_lower = of_nat PAGEHDRSZ, mp_upper = of_nat psize, mp_body = b\<rparr>
          in if IS_BRANCH np then Inr (np, db\<lparr>md_branch_pages := md_branch_pages db + 1\<rparr>)
             else if IS_LEAF np then Inr (np, db\<lparr>md_leaf_pages := md_leaf_pages db + 1\<rparr>)
             else if IS_OVERFLOW np then
               Inr (np\<lparr>mp_lower := ucast (of_nat num :: u32), mp_upper := ucast (drop_bit 16 (of_nat num :: u32))\<rparr>,
                 db\<lparr>md_overflow_pages := md_overflow_pages db + of_nat num\<rparr>)
             else Inr (np, db))"

section \<open>Adding a node\<close>

text \<open>The result: no room, an error of the page allocator, or the page with the overflow page, if any.\<close>

datatype add_result = Page_Full | Page_Error int | Added mdb_page mdb_db "mdb_page option"

fun shift_ptrs :: "bytes \<Rightarrow> nat \<Rightarrow> nat \<Rightarrow> bytes option" where
  "shift_ptrs b indx 0 = Some b"
| "shift_ptrs b indx (Suc i) =
     (if Suc i > indx then
        (case get16 b (2 * i) of
           None \<Rightarrow> None
         | Some v \<Rightarrow> (case put16 b (2 * Suc i) v of None \<Rightarrow> None | Some b' \<Rightarrow> shift_ptrs b' indx i))
      else Some b)"

definition ndata_bytes :: "nat \<Rightarrow> bytes \<Rightarrow> bytes option" where
  "ndata_bytes n d = (if n \<le> length d then Some (take n d) else None)"

text \<open>From \<open>update\<close> on: the data, at its place in the page or on the overflow page.\<close>

definition put_data :: "u32 \<Rightarrow> mdb_val \<Rightarrow> bytes \<Rightarrow> nat \<Rightarrow> mdb_page option \<Rightarrow> (bytes \<times> mdb_page option) option" where
  "put_data flags data b ndata ofp =
     (case ofp of
        None \<Rightarrow>
          if F_ISSET flags (ucast F_BIGDATA) then do { d \<leftarrow> ndata_bytes 8 (mv_data data); b \<leftarrow> blit b ndata d; Some (b, None) }
          else if F_ISSET flags MDB_RESERVE then Some (b, None)
          else do { d \<leftarrow> ndata_bytes (mv_size data) (mv_data data); b \<leftarrow> blit b ndata d; Some (b, None) }
      | Some op \<Rightarrow> do {
          b \<leftarrow> blit b ndata (le64 (mp_pgno op));
          (if F_ISSET flags MDB_RESERVE then Some (b, Some op)
           else do { d \<leftarrow> ndata_bytes (mv_size data) (mv_data data); ob \<leftarrow> blit (mp_body op) 0 d; Some (b, Some (op\<lparr>mp_body := ob\<rparr>)) })
        })"

text \<open>The offset array, the free space, the node, its key and its data.\<close>

definition node_update :: "mdb_page \<Rightarrow> nat \<Rightarrow> mdb_val option \<Rightarrow> mdb_val \<Rightarrow> u64 \<Rightarrow> u32 \<Rightarrow> nat \<Rightarrow> mdb_page option \<Rightarrow> (mdb_page \<times> mdb_page option) option" where
  "node_update p indx key data pgno flags node_size ofp = do {
     b \<leftarrow> shift_ptrs (mp_body p) indx (NUMKEYS p);
     let ofs = mp_upper p - of_nat node_size;
     (if unat ofs < unat (mp_lower p) + 2 then None else Some ());
     b \<leftarrow> put16 b (2 * indx) ofs;
     node \<leftarrow> NODEPTR b indx;
     b \<leftarrow> put16 b (node + 6) (case key of None \<Rightarrow> 0 | Some k \<Rightarrow> of_nat (mv_size k));
     b \<leftarrow> put16 b (node + 4) (ucast flags);
     b \<leftarrow> (if IS_LEAF p then SETDSZ b node (mv_size data) else SETPGNO b node pgno);
     b \<leftarrow> (case key of
             None \<Rightarrow> Some b
           | Some k \<Rightarrow> do { kd \<leftarrow> ndata_bytes (mv_size k) (mv_data k); blit b (node + NODESIZE) kd });
     let ndata = node + NODESIZE + (case key of None \<Rightarrow> 0 | Some k \<Rightarrow> mv_size k);
     (b, ofp) \<leftarrow> (if IS_LEAF p then put_data flags data b ndata ofp else Some (b, ofp));
     Some (p\<lparr>mp_upper := ofs, mp_lower := mp_lower p + 2, mp_body := b\<rparr>, ofp)
   }"

text \<open>Pages of fixed-size keys have no nodes: the keys stand one after the other.\<close>

definition leaf2_add :: "mdb_page \<Rightarrow> nat \<Rightarrow> nat \<Rightarrow> mdb_val \<Rightarrow> mdb_page option" where
  "leaf2_add p ksize indx key = do {
     let ptr = indx * ksize;
     b \<leftarrow> (if NUMKEYS p > indx then memmove (mp_body p) (ptr + ksize) ptr ((NUMKEYS p - indx) * ksize) else Some (mp_body p));
     kd \<leftarrow> ndata_bytes ksize (mv_data key);
     b \<leftarrow> blit b ptr kd;
     Some (p\<lparr>mp_lower := mp_lower p + 2, mp_upper := mp_upper p - (of_nat ksize - 2), mp_body := b\<rparr>)
   }"

definition OVPAGES :: "nat \<Rightarrow> nat \<Rightarrow> nat" where
  "OVPAGES sz psize = (PAGEHDRSZ - 1 + sz) div psize + 1"

definition finish_add :: "mdb_db \<Rightarrow> (mdb_page \<times> mdb_page option) option \<Rightarrow> add_result option" where
  "finish_add db r = map_option (\<lambda>(p, ofp). Added p db ofp) r"

definition mdb_node_add :: "page_alloc \<Rightarrow> nat \<Rightarrow> nat \<Rightarrow> nat \<Rightarrow> mdb_db \<Rightarrow> mdb_page \<Rightarrow> nat \<Rightarrow> mdb_val option \<Rightarrow> mdb_val option \<Rightarrow> u64 \<Rightarrow> u32 \<Rightarrow> add_result option" where
  "mdb_node_add alloc psize nodemax md_pad db p indx key data pgno flags =
     (if mp_upper p < mp_lower p then None
      else if IS_LEAF2 p then
        (case key of None \<Rightarrow> None | Some k \<Rightarrow> map_option (\<lambda>p. Added p db None) (leaf2_add p md_pad indx k))
      else
        let room = int (unat (SIZELEFT p)) - 2;
            node_size = NODESIZE + (case key of None \<Rightarrow> 0 | Some k \<Rightarrow> mv_size k)
        in if IS_LEAF p then
             (case (key, data) of
                (Some k, Some d) \<Rightarrow>
                  if F_ISSET flags (ucast F_BIGDATA) then
                    (let node_size = EVEN (node_size + 8) in
                     if int node_size > room then Some Page_Full
                     else finish_add db (node_update p indx key d pgno flags node_size None))
                  else if node_size + mv_size d > nodemax then
                    (let node_size = EVEN (node_size + 8) in
                     if int node_size > room then Some Page_Full
                     else (case mdb_page_new alloc psize db P_OVERFLOW (OVPAGES (mv_size d) psize) of
                             Inl rc \<Rightarrow> Some (Page_Error rc)
                           | Inr (ofp, db) \<Rightarrow> finish_add db (node_update p indx key d pgno (flags OR ucast F_BIGDATA) node_size (Some ofp))))
                  else
                    (let node_size = EVEN (node_size + mv_size d) in
                     if int node_size > room then Some Page_Full
                     else finish_add db (node_update p indx key d pgno flags node_size None))
              | _ \<Rightarrow> None)
           else
             (let node_size = EVEN node_size in
              if int node_size > room then Some Page_Full
              else finish_add db (node_update p indx key \<lparr>mv_size = 0, mv_data = []\<rparr> pgno flags node_size None)))"

section \<open>Deleting a node\<close>

function del_ptrs :: "bytes \<Rightarrow> nat \<Rightarrow> nat \<Rightarrow> u16 \<Rightarrow> u16 \<Rightarrow> nat \<Rightarrow> nat \<Rightarrow> bytes option" where
  "del_ptrs b numkeys indx ptr sz i j =
     (if i < numkeys then
        (if i \<noteq> indx then
           (case get16 b (2 * i) of
              None \<Rightarrow> None
            | Some v \<Rightarrow>
                (case put16 b (2 * j) (if v < ptr then v + sz else v) of
                   None \<Rightarrow> None | Some b' \<Rightarrow> del_ptrs b' numkeys indx ptr sz (i + 1) (j + 1)))
         else del_ptrs b numkeys indx ptr sz (i + 1) j)
      else Some b)"
  by pat_completeness auto

termination
  by (relation "measure (\<lambda>(_, numkeys, _, _, _, i, _). numkeys - i)") auto

declare del_ptrs.simps [simp del]

definition mdb_node_del :: "mdb_page \<Rightarrow> nat \<Rightarrow> nat \<Rightarrow> mdb_page option" where
  "mdb_node_del p indx ksize =
     (if \<not> indx < NUMKEYS p then None
      else if IS_LEAF2 p then do {
        let x = NUMKEYS p - 1 - indx;
        let base = indx * ksize;
        b \<leftarrow> (if x \<noteq> 0 then memmove (mp_body p) base (base + ksize) (x * ksize) else Some (mp_body p));
        Some (p\<lparr>mp_lower := mp_lower p - 2, mp_upper := mp_upper p + (of_nat ksize - 2), mp_body := b\<rparr>)
      }
      else do {
        node \<leftarrow> NODEPTR (mp_body p) indx;
        k \<leftarrow> NODEKSZ (mp_body p) node;
        f \<leftarrow> NODEFLAGS (mp_body p) node;
        d \<leftarrow> NODEDSZ (mp_body p) node;
        let sz = EVEN (NODESIZE + unat k + (if IS_LEAF p then (if F_ISSET f F_BIGDATA then 8 else unat d) else 0));
        ptr \<leftarrow> get16 (mp_body p) (2 * indx);
        b \<leftarrow> del_ptrs (mp_body p) (NUMKEYS p) indx ptr (of_nat sz) 0 0;
        (if unat (mp_upper p) < PAGEHDRSZ \<or> ptr < mp_upper p then None else Some ());
        let base = unat (mp_upper p) - PAGEHDRSZ;
        b \<leftarrow> memmove b (base + sz) base (unat (ptr - mp_upper p));
        Some (p\<lparr>mp_lower := mp_lower p - 2, mp_upper := mp_upper p + of_nat sz, mp_body := b\<rparr>)
      })"

section \<open>Searching a page\<close>

text \<open>The comparison function of a database; another one may be installed by the application.\<close>

datatype cmp_func = Cmp_memn | Cmp_memnr | Cmp_cint | Cmp_int | Cmp_long | Cmp_user "bytes \<Rightarrow> bytes \<Rightarrow> int option"

fun apply_cmp :: "cmp_func \<Rightarrow> bytes \<Rightarrow> bytes \<Rightarrow> int option" where
  "apply_cmp Cmp_memn = mdb_cmp_memn"
| "apply_cmp Cmp_memnr = mdb_cmp_memnr"
| "apply_cmp Cmp_cint = mdb_cmp_cint"
| "apply_cmp Cmp_int = mdb_cmp_int"
| "apply_cmp Cmp_long = mdb_cmp_long"
| "apply_cmp (Cmp_user f) = f"

fun is_cint :: "cmp_func \<Rightarrow> bool" where
  "is_cint Cmp_cint = True"
| "is_cint _ = False"

function bin_search :: "(nat \<Rightarrow> int option) \<Rightarrow> int \<Rightarrow> int \<Rightarrow> nat \<Rightarrow> int \<Rightarrow> (nat \<times> int) option" where
  "bin_search cmp low high i rc =
     (if low \<le> high then
        (let m = (low + high) div 2 in
         case cmp (nat m) of
           None \<Rightarrow> None
         | Some rc \<Rightarrow>
             if rc = 0 then Some (nat m, rc)
             else if rc > 0 then bin_search cmp (m + 1) high (nat m) rc
             else bin_search cmp low (m - 1) (nat m) rc)
      else Some (i, rc))"
  by pat_completeness auto

termination
  by (relation "measure (\<lambda>(_, low, high, _, _). nat (high + 1 - low))") auto

declare bin_search.simps [simp del]

text \<open>The answer: the cursor index, whether the match is exact, and the node, as a position in the body; for
  pages of fixed-size keys the node is the first offset read as such, and is not used.\<close>

definition mdb_node_search :: "cmp_func \<Rightarrow> nat \<Rightarrow> mdb_page \<Rightarrow> bytes \<Rightarrow> (nat \<times> bool \<times> nat option) option" where
  "mdb_node_search cmp md_pad p key = do {
     let nkeys = NUMKEYS p;
     let low = (if IS_LEAF p then 0 else 1);
     let high = int nkeys - 1;
     cmp \<leftarrow> (if is_cint cmp \<and> IS_BRANCH p then do {
               node \<leftarrow> NODEPTR (mp_body p) 1;
               k \<leftarrow> NODEKSZ (mp_body p) node;
               Some (if k = 8 then Cmp_long else Cmp_int)
             } else Some cmp);
     let nodekey = (\<lambda>i. if IS_LEAF2 p
                        then (if i * md_pad + md_pad \<le> length (mp_body p) then Some (take md_pad (drop (i * md_pad) (mp_body p))) else None)
                        else do { node \<leftarrow> NODEPTR (mp_body p) i; NODEKEY (mp_body p) node });
     (i, rc) \<leftarrow> bin_search (\<lambda>i. do { k \<leftarrow> nodekey i; apply_cmp cmp key k }) low high 0 0;
     let i = (if rc > 0 then i + 1 else i);
     let exact = (rc = 0 \<and> nkeys > 0);
     (if i \<ge> nkeys then Some (i, exact, None)
      else if IS_LEAF2 p then Some (i, exact, NODEPTR (mp_body p) 0)
      else if low \<le> high then do { node \<leftarrow> NODEPTR (mp_body p) i; Some (i, exact, Some node) }
      else Some (i, exact, None))
   }"

section \<open>The bytes of 16-bit numbers\<close>

lemma length_le16 [simp]: "length (le16 v) = 2"
  by (simp add: le16_def)

lemma le_nat_le16 [simp]: "le_nat (le16 v) = unat v"
proof -
  have "unat (ucast v :: u8) = unat v mod 256" by (simp add: unsigned_ucast_eq take_bit_eq_mod)
  moreover have "unat (ucast (drop_bit 8 v) :: u8) = unat v div 256"
  proof -
    have "unat (drop_bit 8 v) = unat v div 256" by (simp add: drop_bit_eq_div unat_div_distrib)
    moreover have "unat v div 256 < 256" using unsigned_less [of v, where ?'a = nat] by simp
    ultimately show ?thesis by (simp add: unsigned_ucast_eq take_bit_nat_eq_self)
  qed
  ultimately show ?thesis by (simp add: le16_def)
qed

lemma le16_ex: "length x = 2 \<Longrightarrow> \<exists>v. x = le16 v"
proof -
  assume x: "length x = 2"
  have "le_nat x < 65536" using le_nat_less [of x] x by simp
  then have "le_nat (le16 (of_nat (le_nat x))) = le_nat x" by (simp add: unsigned_of_nat take_bit_nat_eq_self)
  then show ?thesis using le_nat_inj [of x "le16 (of_nat (le_nat x))"] x by auto
qed

lemma get16_at: "length a = n \<Longrightarrow> get16 (a @ le16 v @ r) n = Some v"
  by (simp add: get16_def load_le_def)

lemma blit_at: "length a = n \<Longrightarrow> length x = length s \<Longrightarrow> blit (a @ x @ r) n s = Some (a @ s @ r)"
  by (simp add: blit_def)

lemma put16_at: "length a = n \<Longrightarrow> length x = 2 \<Longrightarrow> put16 (a @ x @ r) n v = Some (a @ le16 v @ r)"
  unfolding put16_def by (rule blit_at) simp_all

definition enc16 :: "u16 list \<Rightarrow> bytes" where
  "enc16 ps = concat (map le16 ps)"

lemma enc16_simps [simp]: "enc16 [] = []" "enc16 (v # ps) = le16 v @ enc16 ps" "enc16 (ps @ qs) = enc16 ps @ enc16 qs"
  "length (enc16 ps) = 2 * length ps"
  by (simp_all add: enc16_def) (induction ps; simp)

lemma enc16_split: "i < length ps \<Longrightarrow> enc16 ps = enc16 (take i ps) @ le16 (ps ! i) @ enc16 (drop (Suc i) ps)"
  by (subst id_take_nth_drop [of i ps]) simp_all

lemma get16_enc: "i < length ps \<Longrightarrow> get16 (enc16 ps @ r) (2 * i) = Some (ps ! i)"
  using get16_at [of "enc16 (take i ps)" "2 * i" "ps ! i" "enc16 (drop (Suc i) ps) @ r"] by (simp add: enc16_split)

lemma put16_enc: "i < length ps \<Longrightarrow> put16 (enc16 ps @ r) (2 * i) v = Some (enc16 (ps[i := v]) @ r)"
  using put16_at [of "enc16 (take i ps)" "2 * i" "le16 (ps ! i)" "enc16 (drop (Suc i) ps) @ r" v]
  by (simp add: enc16_split [of i ps] upd_conv_take_nth_drop)

lemma shift_ptrs_eq:
  "i < length ps \<Longrightarrow> shift_ptrs (enc16 ps @ r) indx i = map_option (\<lambda>ps. enc16 ps @ r) (shift_up ps indx i)"
proof (induction i arbitrary: ps)
  case (Suc i)
  then have "get16 (enc16 ps @ r) (2 * i) = Some (ps ! i)" "put16 (enc16 ps @ r) (2 * Suc i) (ps ! i) = Some (enc16 (ps[Suc i := ps ! i]) @ r)"
    by (simp_all only: get16_enc put16_enc)
  then show ?case using Suc by (simp add: peek_def poke_def)
qed simp

lemma shift_ptrs_insert:
  assumes "indx \<le> length ps" "length f = 2"
  shows "\<exists>g. shift_ptrs (enc16 ps @ f @ r) indx (length ps) = Some (enc16 (take indx ps @ g # drop indx ps) @ r)"
proof -
  obtain v where v: "f = le16 v" using le16_ex [OF assms(2)] by blast
  have "shift_up (take indx ps @ drop indx ps @ [v]) indx (indx + length (drop indx ps)) = Some (take indx ps @ hd (drop indx ps @ [v]) # drop indx ps @ [])"
    using assms(1) shift_up_eq [of "take indx ps" indx "drop indx ps" v "[]"] by simp
  then have "shift_up (ps @ [v]) indx (length ps) = Some (take indx ps @ hd (drop indx ps @ [v]) # drop indx ps)"
    using assms(1) by (simp flip: append_assoc)
  moreover have "shift_ptrs (enc16 ps @ f @ r) indx (length ps) = map_option (\<lambda>ps. enc16 ps @ r) (shift_up (ps @ [v]) indx (length ps))"
    using shift_ptrs_eq [of "length ps" "ps @ [v]" r indx] by (simp add: v)
  ultimately show ?thesis by auto
qed

text \<open>Deleting from the offset array: the later offsets move down, those of nodes below the deleted one grow.\<close>

abbreviation adj :: "u16 \<Rightarrow> u16 \<Rightarrow> u16 \<Rightarrow> u16" where
  "adj ptr sz v \<equiv> (if v < ptr then v + sz else v)"

lemma del_ptrs_after:
  "indx \<le> length A \<Longrightarrow> n = length A + 1 + length B \<Longrightarrow>
   \<exists>x. del_ptrs (enc16 (A @ g # B) @ r) n indx ptr sz (length A + 1) (length A) = Some (enc16 (A @ map (adj ptr sz) B @ [x]) @ r)"
proof (induction B arbitrary: A g)
  case Nil
  then show ?case by (subst del_ptrs.simps) auto
next
  case (Cons v B)
  let ?w = "adj ptr sz v"
  have "get16 (enc16 (A @ g # v # B) @ r) (2 * (length A + 1)) = Some ((A @ g # v # B) ! (length A + 1))"
    by (rule get16_enc) simp
  then have 1: "get16 (enc16 (A @ g # v # B) @ r) (2 * (length A + 1)) = Some v" by (simp add: nth_append)
  have "put16 (enc16 (A @ g # v # B) @ r) (2 * length A) ?w = Some (enc16 ((A @ g # v # B)[length A := ?w]) @ r)"
    by (rule put16_enc) simp
  then have 2: "put16 (enc16 (A @ g # v # B) @ r) (2 * length A) ?w = Some (enc16 ((A @ [?w]) @ v # B) @ r)" by simp
  have "del_ptrs (enc16 (A @ g # v # B) @ r) n indx ptr sz (length A + 1) (length A)
      = del_ptrs (enc16 ((A @ [?w]) @ v # B) @ r) n indx ptr sz (length (A @ [?w]) + 1) (length (A @ [?w]))"
    using Cons.prems 1 2 by (subst del_ptrs.simps) simp
  then show ?case using Cons.IH [of "A @ [?w]" v] Cons.prems by simp
qed

lemma del_ptrs_before:
  "length A \<le> indx \<Longrightarrow> indx < n \<Longrightarrow> n = length A + length B \<Longrightarrow>
   \<exists>x. del_ptrs (enc16 (A @ B) @ r) n indx ptr sz (length A) (length A)
     = Some (enc16 (A @ map (adj ptr sz) (take (indx - length A) B @ drop (indx - length A + 1) B) @ [x]) @ r)"
proof (induction B arbitrary: A)
  case (Cons v B)
  show ?case
  proof (cases "length A = indx")
    case True
    then have "del_ptrs (enc16 (A @ v # B) @ r) n indx ptr sz (length A) (length A) = del_ptrs (enc16 (A @ v # B) @ r) n indx ptr sz (length A + 1) (length A)"
      using Cons.prems by (subst del_ptrs.simps) simp
    then show ?thesis using del_ptrs_after [of indx A n B v r ptr sz] True Cons.prems by simp
  next
    case False
    let ?w = "adj ptr sz v"
    have "get16 (enc16 (A @ v # B) @ r) (2 * length A) = Some ((A @ v # B) ! length A)" by (rule get16_enc) simp
    moreover have "put16 (enc16 (A @ v # B) @ r) (2 * length A) ?w = Some (enc16 ((A @ v # B)[length A := ?w]) @ r)" by (rule put16_enc) simp
    ultimately have "del_ptrs (enc16 (A @ v # B) @ r) n indx ptr sz (length A) (length A)
        = del_ptrs (enc16 ((A @ [?w]) @ B) @ r) n indx ptr sz (length (A @ [?w])) (length (A @ [?w]))"
      using Cons.prems False by (subst del_ptrs.simps) simp
    moreover have "indx - length A = Suc (indx - length (A @ [?w]))" using False Cons.prems(1) by simp
    ultimately show ?thesis using Cons.IH [of "A @ [?w]"] Cons.prems False by simp
  qed
qed simp

section \<open>The list of nodes of a page\<close>

record node =
  nd_lo :: u16
  nd_hi :: u16
  nd_flags :: u16
  nd_key :: bytes
  nd_data :: bytes

definition node_enc :: "node \<Rightarrow> bytes" where
  "node_enc n = le16 (nd_lo n) @ le16 (nd_hi n) @ le16 (nd_flags n) @ le16 (of_nat (length (nd_key n))) @ nd_key n @ nd_data n"

definition node_size :: "node \<Rightarrow> nat" where
  "node_size n = EVEN (NODESIZE + length (nd_key n) + length (nd_data n))"

text \<open>The sizes in the header are those of the key and of the data: nothing on a branch page, a page number for
  data on an overflow page.\<close>

definition node_wf :: "bool \<Rightarrow> node \<Rightarrow> bool" where
  "node_wf leaf n \<longleftrightarrow> length (nd_key n) < 2 ^ 16 \<and>
     length (nd_data n) = (if \<not> leaf then 0 else if F_ISSET (nd_flags n) F_BIGDATA then 8 else unat (nd_lo n) + 65536 * unat (nd_hi n))"

text \<open>A slot is a node with the distance of its start from the end of the page; the nodes do not overlap and
  fill the space from \<open>mp_upper\<close> to the end.\<close>

type_synonym slot = "nat \<times> node"

definition slot_ok :: "bool \<Rightarrow> bytes \<Rightarrow> slot \<Rightarrow> bool" where
  "slot_ok leaf heap s \<longleftrightarrow> (case s of (e, n) \<Rightarrow> node_wf leaf n \<and> node_size n \<le> e \<and> e \<le> length heap \<and>
     (\<exists>r. drop (length heap - e) heap = node_enc n @ r))"

definition apart :: "slot \<Rightarrow> slot \<Rightarrow> bool" where
  "apart s t \<longleftrightarrow> fst s + node_size (snd t) \<le> fst t \<or> fst t + node_size (snd s) \<le> fst s"

definition slots_rep :: "nat \<Rightarrow> mdb_page \<Rightarrow> slot list \<Rightarrow> bytes \<Rightarrow> bytes \<Rightarrow> bool" where
  "slots_rep psz p ss free heap \<longleftrightarrow>
     mp_body p = enc16 (map (\<lambda>s. of_nat (psz - fst s)) ss) @ free @ heap \<and>
     psz = PAGEHDRSZ + length (mp_body p) \<and> psz \<le> 32768 \<and>
     mp_lower p = of_nat (PAGEHDRSZ + 2 * length ss) \<and> mp_upper p = of_nat (psz - length heap) \<and> \<not> IS_LEAF2 p \<and>
     (\<forall>s\<in>set ss. slot_ok (IS_LEAF p) heap s) \<and> sorted_wrt apart ss \<and>
     sum_list (map (node_size \<circ> snd) ss) = length heap"

definition page_rep :: "nat \<Rightarrow> mdb_page \<Rightarrow> node list \<Rightarrow> bool" where
  "page_rep psz p ns \<longleftrightarrow> (\<exists>ss free heap. slots_rep psz p ss free heap \<and> ns = map snd ss)"

text \<open>The free bytes of a page of the given nodes.\<close>

definition page_free :: "nat \<Rightarrow> node list \<Rightarrow> nat" where
  "page_free psz ns = psz - PAGEHDRSZ - 2 * length ns - sum_list (map node_size ns)"

lemma unat16: "n < 65536 \<Longrightarrow> unat (of_nat n :: u16) = n"
  by (simp add: unsigned_of_nat take_bit_nat_eq_self)

lemma slots_rep_sizes:
  assumes "slots_rep psz p ss free heap"
  shows "psz = 16 + 2 * length ss + length free + length heap" "NUMKEYS p = length ss" "unat (SIZELEFT p) = length free"
    "unat (mp_upper p) = 16 + 2 * length ss + length free" "unat (mp_lower p) = 16 + 2 * length ss" "length free = page_free psz (map snd ss)"
proof -
  have r: "mp_body p = enc16 (map (\<lambda>s. of_nat (psz - fst s)) ss) @ free @ heap" "psz = PAGEHDRSZ + length (mp_body p)" "psz \<le> 32768"
    "mp_lower p = of_nat (PAGEHDRSZ + 2 * length ss)" "mp_upper p = of_nat (psz - length heap)"
    "sum_list (map (node_size \<circ> snd) ss) = length heap"
    using assms unfolding slots_rep_def by blast+
  have "length (mp_body p) = 2 * length ss + length free + length heap" by (subst r(1)) simp
  then show psz: "psz = 16 + 2 * length ss + length free + length heap" using r(2) by linarith
  note le = r(3)
  have up: "mp_upper p = of_nat (16 + 2 * length ss + length free)" unfolding r(5) psz by simp
  have lo: "mp_lower p = of_nat (16 + 2 * length ss)" by (rule r(4))
  show "unat (mp_upper p) = 16 + 2 * length ss + length free" unfolding up using le psz by (intro unat16) simp
  show ul: "unat (mp_lower p) = 16 + 2 * length ss" unfolding lo using le psz by (intro unat16) simp
  have "SIZELEFT p = of_nat (length free)" unfolding SIZELEFT_def up lo by simp
  then show "unat (SIZELEFT p) = length free" using le psz by (simp only: unat16)
  have "(ucast (mp_lower p) :: u32) = of_nat (unat (mp_lower p))" by simp
  then have "(ucast (mp_lower p) - 16 :: u32) = of_nat (2 * length ss)" unfolding ul by simp
  moreover have "unat (of_nat (2 * length ss) :: u32) = 2 * length ss" using le psz unfolding unat_of_nat by simp
  ultimately show "NUMKEYS p = length ss" unfolding NUMKEYS_def by simp
  show "length free = page_free psz (map snd ss)" unfolding page_free_def map_map r(6) length_map using psz by simp
qed

section \<open>A node is added\<close>

lemma slot_ok_prepend: "slot_ok leaf heap s \<Longrightarrow> slot_ok leaf (x @ heap) s"
  by (auto simp: slot_ok_def split: prod.splits)

lemma slot_okD: "slot_ok leaf heap s \<Longrightarrow> fst s \<le> length heap \<and> node_size (snd s) \<le> fst s \<and> node_wf leaf (snd s)"
  by (auto simp: slot_ok_def split: prod.splits)

lemma even_size [simp]: "n \<le> EVEN n" "EVEN n \<le> n + 1"
  by (auto simp: EVEN_def)

lemma length_node_enc: "length (node_enc n) = NODESIZE + length (nd_key n) + length (nd_data n)"
  by (simp add: node_enc_def)

definition insert_at :: "nat \<Rightarrow> 'a \<Rightarrow> 'a list \<Rightarrow> 'a list" where
  "insert_at i x xs = take i xs @ x # drop i xs"

lemma insert_at_simps [simp]: "length (insert_at i x xs) = Suc (length xs)" "set (insert_at i x xs) = insert x (set xs)"
  "map f (insert_at i x xs) = insert_at i (f x) (map f xs)" "sum_list (insert_at i (y :: nat) ys) = y + sum_list ys"
proof -
  show "set (insert_at i x xs) = insert x (set xs)" unfolding insert_at_def by (metis Un_insert_right append_take_drop_id list.set(2) set_append)
  have "sum_list (take i ys) + sum_list (drop i ys) = sum_list ys" by (metis append_take_drop_id sum_list.append)
  then show "sum_list (insert_at i y ys) = y + sum_list ys" by (simp add: insert_at_def)
qed (simp_all add: insert_at_def take_map drop_map)

lemma insert_at_nth: "i \<le> length xs \<Longrightarrow> insert_at i v xs ! i = v" "i \<le> length xs \<Longrightarrow> (insert_at i g xs)[i := v] = insert_at i v xs"
  by (simp_all add: insert_at_def nth_append list_update_append)

lemma sorted_wrt_insert_at:
  assumes "sorted_wrt P xs" "\<forall>y\<in>set xs. P x y \<and> P y x"
  shows "sorted_wrt P (insert_at i x xs)"
proof -
  have "sorted_wrt P (take i xs @ drop i xs)" using assms(1) by simp
  then show ?thesis using assms(2) unfolding insert_at_def sorted_wrt_append by (auto dest: in_set_takeD in_set_dropD)
qed

lemma flags_upd [simp]:
  "IS_LEAF (p\<lparr>mp_upper := u, mp_lower := l, mp_body := b\<rparr>) = IS_LEAF p" "IS_LEAF2 (p\<lparr>mp_upper := u, mp_lower := l, mp_body := b\<rparr>) = IS_LEAF2 p"
  "IS_LEAF (p\<lparr>mp_lower := l, mp_upper := u, mp_body := b\<rparr>) = IS_LEAF p" "IS_LEAF2 (p\<lparr>mp_lower := l, mp_upper := u, mp_body := b\<rparr>) = IS_LEAF2 p"
  by (simp_all add: IS_LEAF_def IS_LEAF2_def)

lemma slots_rep_insert:
  fixes indx :: nat and pad :: bytes
  assumes rep: "slots_rep psz p ss (f2 @ gap @ fN) heap" and len: "length f2 = 2" "length fN = node_size n"
    and wf: "node_wf (IS_LEAF p) n"
  defines "ss' \<equiv> insert_at indx (length heap + node_size n, n) ss"
    and "fN' \<equiv> node_enc n @ pad"
  assumes fN': "length fN' = node_size n"
  shows "slots_rep psz (p\<lparr>mp_upper := mp_upper p - of_nat (node_size n), mp_lower := mp_lower p + 2,
      mp_body := enc16 (map (\<lambda>s. of_nat (psz - fst s)) ss') @ gap @ fN' @ heap\<rparr>) ss' gap (fN' @ heap)"
proof -
  note sz = slots_rep_sizes [OF rep]
  have ok: "\<forall>s\<in>set ss. slot_ok (IS_LEAF p) heap s" and ap: "sorted_wrt apart ss" and le: "psz \<le> 32768" and l2: "\<not> IS_LEAF2 p"
    and lo: "mp_lower p = of_nat (PAGEHDRSZ + 2 * length ss)" and up: "mp_upper p = of_nat (psz - length heap)"
    and sum: "sum_list (map (node_size \<circ> snd) ss) = length heap"
    using rep unfolding slots_rep_def by blast+
  have psz: "psz = 16 + 2 * length ss + 2 + length gap + node_size n + length heap" using sz(1) len by simp
  have "slot_ok (IS_LEAF p) (fN' @ heap) (length heap + node_size n, n)"
    using wf fN' by (auto simp: slot_ok_def fN'_def)
  then have 1: "\<forall>s\<in>set ss'. slot_ok (IS_LEAF p) (fN' @ heap) s" using ok by (auto simp: ss'_def slot_ok_prepend)
  have "apart s (length heap + node_size n, n)" "apart (length heap + node_size n, n) s" if "s \<in> set ss" for s
    using slot_okD ok that by (fastforce simp: apart_def)+
  then have 2: "sorted_wrt apart ss'" unfolding ss'_def using ap by (intro sorted_wrt_insert_at) auto
  have "psz - length (fN' @ heap) + node_size n = psz - length heap" using psz fN' by simp
  then have 3: "mp_upper p - of_nat (node_size n) = of_nat (psz - length (fN' @ heap))" unfolding up by (metis add_diff_cancel_right' of_nat_add)
  show ?thesis
    unfolding slots_rep_def flags_upd using 1 2 3 le l2 lo sum fN' psz by (simp add: ss'_def comp_def)
qed

lemma write_header:
  assumes "length A = node" "length X = 8"
  obtains b1 b2 where "put16 (A @ X @ R) (node + 6) ks = Some b1" "put16 b1 (node + 4) fl = Some b2"
    "SETDSZ b2 node sz = Some (A @ le16 (of_nat sz) @ le16 (of_nat (sz div 65536)) @ le16 fl @ le16 ks @ R)"
    "SETPGNO b2 node pgno = Some (A @ le16 (ucast pgno) @ le16 (ucast (drop_bit 16 pgno)) @ le16 (ucast (drop_bit 32 pgno)) @ le16 ks @ R)"
proof -
  obtain x0 x1 x2 x3 where X: "X = x0 @ x1 @ x2 @ x3" "length x0 = 2" "length x1 = 2" "length x2 = 2" "length x3 = 2"
  proof -
    obtain a b c d e f g h where "X = [a, b, c, d, e, f, g, h]" using assms(2) by (auto simp: length_Suc_conv numeral_eq_Suc)
    then show thesis by (intro that [of "[a, b]" "[c, d]" "[e, f]" "[g, h]"]) auto
  qed
  have 1: "put16 (A @ X @ R) (node + 6) ks = Some (A @ x0 @ x1 @ x2 @ le16 ks @ R)"
    using put16_at [of "A @ x0 @ x1 @ x2" "node + 6" x3 R ks] assms(1) X by simp
  have 2: "put16 (A @ x0 @ x1 @ x2 @ le16 ks @ R) (node + 4) fl = Some (A @ x0 @ x1 @ le16 fl @ le16 ks @ R)"
    using put16_at [of "A @ x0 @ x1" "node + 4" x2 "le16 ks @ R" fl] assms(1) X by simp
  have 3: "put16 (A @ x0 @ T) node v = Some (A @ le16 v @ T)" for v T
    using put16_at [of A node x0 T v] assms(1) X by simp
  have 4: "put16 (A @ le16 v @ x1 @ T) (node + 2) w = Some (A @ le16 v @ le16 w @ T)" for v w T
    using put16_at [of "A @ le16 v" "node + 2" x1 T w] assms(1) X by simp
  have 5: "put16 (A @ le16 v @ le16 w @ le16 fl @ T) (node + 4) z = Some (A @ le16 v @ le16 w @ le16 z @ T)" for v w z T
    using put16_at [of "A @ le16 v @ le16 w" "node + 4" "le16 fl" T z] assms(1) X by simp
  show thesis
    by (rule that [OF 1 2]) (simp_all only: SETDSZ_def SETPGNO_def 3 4 5 Option.bind.simps)
qed

text \<open>The key of a node to add, and the header its page writes.\<close>

definition key_bytes :: "mdb_val option \<Rightarrow> bytes" where
  "key_bytes key = (case key of None \<Rightarrow> [] | Some k \<Rightarrow> mv_data k)"

definition val_ok :: "mdb_val \<Rightarrow> bool" where
  "val_ok v \<longleftrightarrow> mv_size v = length (mv_data v)"

definition leaf_node :: "u32 \<Rightarrow> bytes \<Rightarrow> nat \<Rightarrow> bytes \<Rightarrow> node" where
  "leaf_node flags key dsz d = \<lparr>nd_lo = of_nat dsz, nd_hi = of_nat (dsz div 65536), nd_flags = ucast flags, nd_key = key, nd_data = d\<rparr>"

definition branch_node :: "u64 \<Rightarrow> bytes \<Rightarrow> node" where
  "branch_node pgno key = \<lparr>nd_lo = ucast pgno, nd_hi = ucast (drop_bit 16 pgno), nd_flags = ucast (drop_bit 32 pgno), nd_key = key, nd_data = []\<rparr>"

lemma take_drop_split3: "a + b \<le> length xs \<Longrightarrow> \<exists>x y z. xs = x @ y @ z \<and> length x = a \<and> length z = b"
proof -
  assume "a + b \<le> length xs"
  then show ?thesis
    by (intro exI [of _ "take a xs"] exI [of _ "take (length xs - a - b) (drop a xs)"] exI [of _ "drop (length xs - a - b) (drop a xs)"])
      (simp del: drop_drop)
qed

lemma node_update_rep:
  assumes rep: "slots_rep psz p ss free heap" and indx: "indx \<le> length ss" and key: "\<forall>k. key = Some k \<longrightarrow> val_ok k"
    and n: "n = (if IS_LEAF p then leaf_node flags (key_bytes key) (mv_size data) d else branch_node pgno (key_bytes key))"
    and wf: "node_wf (IS_LEAF p) n" and room: "node_size n + 2 \<le> length free"
    and dat: "IS_LEAF p \<Longrightarrow> (\<And>A x r. length x = length d \<Longrightarrow> put_data flags data (A @ x @ r) (length A) ofp = Some (A @ d @ r, ofp'))"
    and brn: "\<not> IS_LEAF p \<Longrightarrow> ofp' = ofp"
  shows "\<exists>p' free' heap'. node_update p indx key data pgno flags (node_size n) ofp = Some (p', ofp') \<and>
    slots_rep psz p' (insert_at indx (length heap + node_size n, n) ss) free' heap' \<and> mp_flags p' = mp_flags p \<and> mp_pgno p' = mp_pgno p"
proof -
  note sz = slots_rep_sizes [OF rep]
  let ?ps = "map (\<lambda>s. of_nat (psz - fst s)) ss :: u16 list"
  let ?kb = "key_bytes key" and ?N = "node_size n"
  have body: "mp_body p = enc16 ?ps @ free @ heap" and le: "psz \<le> 32768" using rep unfolding slots_rep_def by blast+
  obtain f2 gap fN where fr: "free = f2 @ gap @ fN" "length f2 = 2" "length fN = ?N"
    using take_drop_split3 [of 2 ?N free] room by auto
  obtain g where sh: "shift_ptrs (mp_body p) indx (NUMKEYS p) = Some (enc16 (insert_at indx g ?ps) @ gap @ fN @ heap)"
    using shift_ptrs_insert [of indx ?ps f2 "gap @ fN @ heap"] indx fr(2) unfolding body fr(1) sz(2) by (auto simp: insert_at_def)
  let ?ofs = "mp_upper p - of_nat ?N"
  let ?node = "2 * (length ss + 1) + length gap"
  have up: "mp_upper p = of_nat (?node + 16 + ?N)"
  proof -
    have "mp_upper p = of_nat (unat (mp_upper p))" by simp
    also have "unat (mp_upper p) = ?node + 16 + ?N" using sz(4) fr by simp
    finally show ?thesis .
  qed
  have ofs: "?ofs = of_nat (?node + 16)" unfolding up by simp
  have uofs: "unat ?ofs = ?node + 16" unfolding ofs using sz(1) le fr by (intro unat16) simp
  have up16: "put16 (enc16 (insert_at indx g ?ps) @ gap @ fN @ heap) (2 * indx) ?ofs = Some (enc16 (insert_at indx ?ofs ?ps) @ gap @ fN @ heap)"
    using put16_enc [of indx "insert_at indx g ?ps" "gap @ fN @ heap" ?ofs] indx by (simp add: insert_at_nth)
  have ptr: "NODEPTR (enc16 (insert_at indx ?ofs ?ps) @ gap @ fN @ heap) indx = Some ?node"
    using get16_enc [of indx "insert_at indx ?ofs ?ps" "gap @ fN @ heap"] indx uofs
    by (simp add: NODEPTR_def insert_at_nth)
  let ?A = "enc16 (insert_at indx ?ofs ?ps) @ gap"
  have A: "length ?A = ?node" by simp
  have dl: "length (nd_key n) = length ?kb" "length (nd_data n) = (if IS_LEAF p then length d else 0)"
    by (simp_all add: n leaf_node_def branch_node_def)
  obtain X xk xd pad where fN: "fN = X @ xk @ xd @ pad" "length X = 8" "length xk = length ?kb" "length xd = length (nd_data n)"
  proof -
    have "8 + length ?kb + length (nd_data n) \<le> length fN" unfolding fr(3) node_size_def dl(1) [symmetric] by (rule even_size(1))
    then show thesis
      by (intro that [of "take 8 fN" "take (length ?kb) (drop 8 fN)" "take (length (nd_data n)) (drop (length ?kb) (drop 8 fN))"
            "drop (length (nd_data n)) (drop (length ?kb) (drop 8 fN))"]) (simp_all del: drop_drop)
  qed
  have ks: "(case key of None \<Rightarrow> 0 | Some k \<Rightarrow> of_nat (mv_size k)) = (of_nat (length ?kb) :: u16)"
    "(case key of None \<Rightarrow> 0 | Some k \<Rightarrow> mv_size k) = length ?kb"
    using key by (auto simp: key_bytes_def val_ok_def split: option.splits)
  obtain b1 b2 where w: "put16 (?A @ X @ xk @ xd @ pad @ heap) (?node + 6) (of_nat (length ?kb)) = Some b1" "put16 b1 (?node + 4) (ucast flags) = Some b2"
      "SETDSZ b2 ?node (mv_size data) = Some (?A @ le16 (of_nat (mv_size data)) @ le16 (of_nat (mv_size data div 65536)) @ le16 (ucast flags) @ le16 (of_nat (length ?kb)) @ xk @ xd @ pad @ heap)"
      "SETPGNO b2 ?node pgno = Some (?A @ le16 (ucast pgno) @ le16 (ucast (drop_bit 16 pgno)) @ le16 (ucast (drop_bit 32 pgno)) @ le16 (of_nat (length ?kb)) @ xk @ xd @ pad @ heap)"
    using write_header [OF A fN(2)] by blast
  let ?H = "le16 (nd_lo n) @ le16 (nd_hi n) @ le16 (nd_flags n) @ le16 (of_nat (length ?kb))"
  have w3: "(if IS_LEAF p then SETDSZ b2 ?node (mv_size data) else SETPGNO b2 ?node pgno) = Some (?A @ ?H @ xk @ xd @ pad @ heap)"
    using w(3,4) by (simp add: n leaf_node_def branch_node_def)
  have w4: "(case key of None \<Rightarrow> Some (?A @ ?H @ xk @ xd @ pad @ heap)
      | Some k \<Rightarrow> do { kd \<leftarrow> ndata_bytes (mv_size k) (mv_data k); blit (?A @ ?H @ xk @ xd @ pad @ heap) (?node + NODESIZE) kd })
      = Some (?A @ ?H @ ?kb @ xd @ pad @ heap)"
  proof (cases key)
    case None
    then show ?thesis using fN(3) by (simp add: key_bytes_def)
  next
    case (Some k)
    then have k: "mv_size k = length (mv_data k)" "?kb = mv_data k" using key by (auto simp: val_ok_def key_bytes_def)
    have "blit ((?A @ ?H) @ xk @ xd @ pad @ heap) (?node + NODESIZE) ?kb = Some ((?A @ ?H) @ ?kb @ xd @ pad @ heap)"
      using fN(3) A by (intro blit_at) auto
    then show ?thesis using Some k by (simp add: ndata_bytes_def)
  qed
  have enc: "node_enc n = ?H @ ?kb @ (if IS_LEAF p then d else [])"
    unfolding node_enc_def dl(1) by (simp add: n leaf_node_def branch_node_def)
  have w5: "(if IS_LEAF p then put_data flags data (?A @ ?H @ ?kb @ xd @ pad @ heap) (?node + NODESIZE + length ?kb) ofp
      else Some (?A @ ?H @ ?kb @ xd @ pad @ heap, ofp)) = Some (?A @ (node_enc n @ pad) @ heap, ofp')"
  proof (cases "IS_LEAF p")
    case True
    then have "length xd = length d" using fN(4) dl(2) by simp
    then have "put_data flags data ((?A @ ?H @ ?kb) @ xd @ pad @ heap) (length (?A @ ?H @ ?kb)) ofp = Some ((?A @ ?H @ ?kb) @ d @ pad @ heap, ofp')"
      by (rule dat [OF True])
    moreover have "length (?A @ ?H @ ?kb) = ?node + NODESIZE + length ?kb" by simp
    ultimately show ?thesis unfolding enc by (simp only: True if_True append_assoc)
  next
    case False
    then have "xd = []" using fN(4) dl(2) by simp
    then show ?thesis using brn False unfolding enc by (simp only: if_False append_assoc append_Nil append_Nil2 simp_thms)
  qed
  let ?p = "p\<lparr>mp_upper := ?ofs, mp_lower := mp_lower p + 2, mp_body := ?A @ (node_enc n @ pad) @ heap\<rparr>"
  have chk: "(if unat ?ofs < unat (mp_lower p) + 2 then None else Some ()) = Some ()" using uofs sz(5) by simp
  note steps = sh up16 ptr w(1,2) w3 w4 w5
  have "node_update p indx key data pgno flags ?N ofp = Some (?p, ofp')"
    unfolding node_update_def Let_def
    by (simp only: steps [unfolded append_assoc fN(1)] chk ks Option.bind.simps prod.case append_assoc)
  moreover have "slots_rep psz ?p (insert_at indx (length heap + ?N, n) ss) gap ((node_enc n @ pad) @ heap)"
  proof -
    have "length (node_enc n @ pad) = ?N" unfolding fr(3) [symmetric] fN(1) using fN(2-4) dl(1) by (simp add: length_node_enc)
    note ins = slots_rep_insert [OF rep [unfolded fr(1)] fr(2,3) wf this, of indx]
    have "psz - (length heap + ?N) = ?node + 16" using sz(1) fr by simp
    then have "of_nat (psz - (length heap + ?N)) = ?ofs" unfolding ofs by simp
    then show ?thesis using ins by simp
  qed
  ultimately show ?thesis by fastforce
qed

section \<open>A node is deleted\<close>

definition remove_at :: "nat \<Rightarrow> 'a list \<Rightarrow> 'a list" where
  "remove_at i xs = take i xs @ drop (i + 1) xs"

lemma map_remove_at: "map f (remove_at i xs) = remove_at i (map f xs)"
  by (simp add: remove_at_def take_map drop_map)

lemma length_remove_at: "i < length xs \<Longrightarrow> length (remove_at i xs) = length xs - 1"
  by (simp add: remove_at_def)

lemma sum_remove_at: "i < length xs \<Longrightarrow> sum_list (remove_at i (xs :: nat list)) = sum_list xs - xs ! i"
  by (subst (2) id_take_nth_drop [of i xs]) (simp_all add: remove_at_def)

lemma sorted_wrt_remove_at: "sorted_wrt P xs \<Longrightarrow> sorted_wrt P (remove_at i xs)"
proof -
  assume "sorted_wrt P xs"
  then have "sorted_wrt P (take i xs @ drop i xs)" by simp
  then show ?thesis unfolding remove_at_def sorted_wrt_append
    by (metis Suc_eq_plus1 drop_Suc in_set_dropD drop_drop plus_1_eq_Suc sorted_wrt_drop)
qed

lemma remove_at_apart:
  assumes "sorted_wrt P xs" "i < length xs" "y \<in> set (remove_at i xs)"
  shows "P y (xs ! i) \<or> P (xs ! i) y"
proof -
  have "sorted_wrt P (take i xs @ xs ! i # drop (Suc i) xs)" using assms(1,2) by (simp flip: id_take_nth_drop)
  then show ?thesis using assms(3) unfolding remove_at_def sorted_wrt_append by auto
qed

text \<open>Nodes below the deleted one, further from the end, move up by its size.\<close>

definition close_gap :: "slot \<Rightarrow> slot \<Rightarrow> slot" where
  "close_gap t s = (if fst s > fst t then (fst s - node_size (snd t), snd s) else s)"

lemma snd_close_gap [simp]: "snd (close_gap t s) = snd s"
  by (simp add: close_gap_def)

lemma node_size_pos: "8 \<le> node_size n"
  unfolding node_size_def by (rule order_trans [OF _ even_size(1)]) simp

lemma apart_sym: "apart s t \<longleftrightarrow> apart t s"
  by (auto simp: apart_def)

lemma apart_close_gap:
  assumes "apart s u" "apart s t" "apart u t" "node_size (snd t) \<le> fst t" "node_size (snd s) \<le> fst s" "node_size (snd u) \<le> fst u"
  shows "apart (close_gap t s) (close_gap t u)"
  using assms node_size_pos [of "snd s"] node_size_pos [of "snd u"] node_size_pos [of "snd t"]
  unfolding apart_def close_gap_def by (auto split: if_splits)

lemma slot_ok_close_gap:
  assumes "slot_ok leaf (H1 @ Nd @ H2) s" "fst t = length Nd + length H2" "length Nd = node_size (snd t)" "apart s t"
  shows "slot_ok leaf (H1 @ H2) (close_gap t s)"
proof -
  obtain e n where s: "s = (e, n)" by (cases s)
  obtain r where ok: "node_wf leaf n" "node_size n \<le> e" "e \<le> length H1 + length Nd + length H2" "drop (length H1 + length Nd + length H2 - e) (H1 @ Nd @ H2) = node_enc n @ r"
    using assms(1) by (auto simp: slot_ok_def s add.assoc)
  have enc: "length (node_enc n) \<le> node_size n" by (simp add: length_node_enc node_size_def)
  show ?thesis
  proof (cases "e > fst t")
    case True
    then have a: "fst t + node_size n \<le> e" using assms(4) ok(2) node_size_pos [of "snd t"] by (auto simp: apart_def s)
    let ?k = "length H1 + length Nd + length H2 - e"
    have k: "?k + node_size n \<le> length H1" using a ok(3) assms(2) by simp
    then have "drop ?k (H1 @ Nd @ H2) = drop ?k H1 @ Nd @ H2" by simp
    then have "node_enc n = take (length (node_enc n)) (drop ?k H1 @ Nd @ H2)" using ok(4) by (metis append_eq_conv_conj)
    also have "\<dots> = take (length (node_enc n)) (drop ?k H1)" using k enc by simp
    finally obtain q where "drop ?k H1 = node_enc n @ q" by (metis append_take_drop_id)
    moreover have "length (H1 @ H2) - (e - length Nd) = ?k" using True assms(2) by simp
    ultimately have "drop (length (H1 @ H2) - (e - length Nd)) (H1 @ H2) = node_enc n @ q @ H2" using k by simp
    then show ?thesis using True a ok(1,3) assms(2,3) by (auto simp: slot_ok_def close_gap_def s)
  next
    case False
    then have a: "e \<le> length H2" using assms(2-4) ok(2) node_size_pos [of n] by (auto simp: apart_def s)
    then have "drop (length H1 + length Nd + length H2 - e) (H1 @ Nd @ H2) = drop (length (H1 @ H2) - e) (H1 @ H2)"
      by simp
    then show ?thesis using False a ok by (auto simp: slot_ok_def close_gap_def s)
  qed
qed

lemma node_fields:
  assumes "length B = node"
  shows "NODEKSZ (B @ node_enc n @ r) node = Some (of_nat (length (nd_key n)))" "NODEFLAGS (B @ node_enc n @ r) node = Some (nd_flags n)"
    "NODEDSZ (B @ node_enc n @ r) node = Some (ucast (nd_lo n) OR push_bit 16 (ucast (nd_hi n)))"
    "length (nd_key n) < 2 ^ 16 \<Longrightarrow> NODEKEY (B @ node_enc n @ r) node = Some (nd_key n)"
proof -
  let ?k = "le16 (of_nat (length (nd_key n))) :: bytes" and ?t = "nd_key n @ nd_data n @ r"
  note at = get16_at [of "B @ le16 (nd_lo n) @ le16 (nd_hi n) @ le16 (nd_flags n)" "node + 6" "of_nat (length (nd_key n))" ?t]
    get16_at [of "B @ le16 (nd_lo n) @ le16 (nd_hi n)" "node + 4" "nd_flags n" "?k @ ?t"]
    get16_at [of "B @ le16 (nd_lo n)" "node + 2" "nd_hi n" "le16 (nd_flags n) @ ?k @ ?t"]
    get16_at [of B node "nd_lo n" "le16 (nd_hi n) @ le16 (nd_flags n) @ ?k @ ?t"]
  show k: "NODEKSZ (B @ node_enc n @ r) node = Some (of_nat (length (nd_key n)))" using at(1) assms by (simp add: NODEKSZ_def node_enc_def)
  show "NODEFLAGS (B @ node_enc n @ r) node = Some (nd_flags n)" using at(2) assms by (simp add: NODEFLAGS_def node_enc_def)
  show "NODEDSZ (B @ node_enc n @ r) node = Some (ucast (nd_lo n) OR push_bit 16 (ucast (nd_hi n)))"
    using at(3,4) assms by (simp add: NODEDSZ_def node_enc_def)
  assume "length (nd_key n) < 2 ^ 16"
  then have "unat (of_nat (length (nd_key n)) :: u16) = length (nd_key n)" by (intro unat16) simp
  then show "NODEKEY (B @ node_enc n @ r) node = Some (nd_key n)" using assms unfolding NODEKEY_def k by (simp add: node_enc_def)
qed

lemma dsz_value: "unat (ucast (lo :: u16) OR push_bit 16 (ucast (hi :: u16)) :: u32) = unat lo + 65536 * unat hi"
proof -
  have "(ucast lo OR push_bit 16 (ucast hi) :: u32) = ucast lo + push_bit 16 (ucast hi)"
    by (rule disjunctive_add [symmetric]) (auto simp: bit_simps dest: bit_imp_le_length)
  also have "\<dots> = of_nat (unat lo + 65536 * unat hi)" by (simp add: push_bit_eq_mult)
  finally have e: "(ucast lo OR push_bit 16 (ucast hi) :: u32) = of_nat (unat lo + 65536 * unat hi)" .
  have "unat lo < 65536" "unat hi < 65536" using unsigned_less [of lo, where ?'a = nat] unsigned_less [of hi, where ?'a = nat] by simp_all
  then have "unat lo + 65536 * unat hi < 2 ^ 32" by simp
  then show ?thesis unfolding e unat_of_nat by simp
qed

text \<open>The bytes of a node of the page, by its slot.\<close>

lemma slot_bytes:
  assumes rep: "slots_rep psz p ss free heap" and i: "i < length ss"
  obtains B r where "mp_body p = B @ node_enc (snd (ss ! i)) @ r" "NODEPTR (mp_body p) i = Some (length B)"
    "get16 (mp_body p) (2 * i) = Some (of_nat (psz - fst (ss ! i)))" "length B = psz - fst (ss ! i) - 16" "fst (ss ! i) \<le> length heap"
    "node_wf (IS_LEAF p) (snd (ss ! i))" "node_size (snd (ss ! i)) \<le> fst (ss ! i)"
proof -
  note sz = slots_rep_sizes [OF rep]
  let ?ps = "map (\<lambda>s. of_nat (psz - fst s)) ss :: u16 list"
  have body: "mp_body p = enc16 ?ps @ free @ heap" and le: "psz \<le> 32768" and "\<forall>s\<in>set ss. slot_ok (IS_LEAF p) heap s"
    using rep unfolding slots_rep_def by blast+
  then have ok: "slot_ok (IS_LEAF p) heap (ss ! i)" using i by simp
  obtain e n where s: "ss ! i = (e, n)" by (cases "ss ! i")
  obtain r where r: "drop (length heap - e) heap = node_enc n @ r" and e: "e \<le> length heap" "node_wf (IS_LEAF p) n" "node_size n \<le> e"
    using ok by (auto simp: slot_ok_def s)
  let ?B = "enc16 ?ps @ free @ take (length heap - e) heap"
  have split: "mp_body p = ?B @ node_enc n @ r" unfolding body by (simp flip: r)
  have B: "length ?B = psz - e - 16" using sz(1) e(1) by simp
  have g: "get16 (mp_body p) (2 * i) = Some (of_nat (psz - e))" unfolding body using get16_enc [of i ?ps "free @ heap"] i s by simp
  have "unat (of_nat (psz - e) :: u16) = psz - e" using le by (intro unat16) simp
  then have "NODEPTR (mp_body p) i = Some (length ?B)" unfolding NODEPTR_def g B using sz(1) e(1) by simp
  then show thesis using that [of ?B r] split g B e s by simp
qed

lemma slots_rep_remove:
  assumes rep: "slots_rep psz p ss free (H1 @ Nd @ H2)" and i: "indx < length ss"
    and t: "t = ss ! indx" "fst t = length Nd + length H2" "length Nd = node_size (snd t)" and Y: "length Y = length Nd" "length x2 = 2"
  defines "ss' \<equiv> map (close_gap t) (remove_at indx ss)"
  shows "slots_rep psz (p\<lparr>mp_lower := mp_lower p - 2, mp_upper := mp_upper p + of_nat (length Nd),
      mp_body := enc16 (map (\<lambda>s. of_nat (psz - fst s)) ss') @ (x2 @ free @ Y) @ H1 @ H2\<rparr>) ss' (x2 @ free @ Y) (H1 @ H2)"
proof -
  note sz = slots_rep_sizes [OF rep]
  have ok: "\<forall>s\<in>set ss. slot_ok (IS_LEAF p) (H1 @ Nd @ H2) s" and ap: "sorted_wrt apart ss" and le: "psz \<le> 32768" and l2: "\<not> IS_LEAF2 p"
    and lo: "mp_lower p = of_nat (PAGEHDRSZ + 2 * length ss)" and up: "mp_upper p = of_nat (psz - length (H1 @ Nd @ H2))"
    and sum: "sum_list (map (node_size \<circ> snd) ss) = length (H1 @ Nd @ H2)"
    using rep unfolding slots_rep_def by blast+
  have sub: "s \<in> set ss" if "s \<in> set (remove_at indx ss)" for s using that by (auto simp: remove_at_def dest: in_set_takeD in_set_dropD)
  have at: "apart s t" if "s \<in> set (remove_at indx ss)" for s
    using remove_at_apart [OF ap i that] t(1) by (auto simp: apart_sym)
  have 1: "\<forall>s\<in>set ss'. slot_ok (IS_LEAF p) (H1 @ H2) s"
    using slot_ok_close_gap [OF _ t(2,3)] ok sub at by (auto simp: ss'_def)
  have fits: "node_size (snd s) \<le> fst s" if "s \<in> set ss" for s using slot_okD ok that by blast
  have 2: "sorted_wrt apart ss'"
    unfolding ss'_def sorted_wrt_map
    by (rule sorted_wrt_mono_rel [OF _ sorted_wrt_remove_at [OF ap]])
      (use apart_close_gap at sub fits i t(1) in auto)
  have len: "length ss' = length ss - 1" using i by (simp add: ss'_def length_remove_at)
  have psz: "psz = 16 + 2 * length ss + length free + (length H1 + length Nd + length H2)" using sz(1) by simp
  have 3: "mp_lower p - 2 = of_nat (PAGEHDRSZ + 2 * length ss')"
  proof -
    have "PAGEHDRSZ + 2 * length ss = (PAGEHDRSZ + 2 * length ss') + 2" using len i by simp
    then show ?thesis unfolding lo by (metis add_diff_cancel_right' of_nat_add of_nat_numeral)
  qed
  have 4: "mp_upper p + of_nat (length Nd) = of_nat (psz - length (H1 @ H2))"
  proof -
    have "psz - length (H1 @ Nd @ H2) + length Nd = psz - length (H1 @ H2)" using psz by simp
    then show ?thesis unfolding up by (metis of_nat_add)
  qed
  have "map (node_size \<circ> snd) ss' = remove_at indx (map (node_size \<circ> snd) ss)" by (simp add: ss'_def comp_def map_remove_at)
  then have 5: "sum_list (map (node_size \<circ> snd) ss') = length (H1 @ H2)"
    using sum_remove_at [of indx "map (node_size \<circ> snd) ss"] sum i t(1,3) by simp
  have 6: "psz = PAGEHDRSZ + length (enc16 (map (\<lambda>s. of_nat (psz - fst s) :: u16) ss') @ (x2 @ free @ Y) @ H1 @ H2)"
    using psz len Y i by simp
  let ?b = "enc16 (map (\<lambda>s. of_nat (psz - fst s)) ss') @ (x2 @ free @ Y) @ H1 @ H2"
  let ?p = "p\<lparr>mp_lower := mp_lower p - 2, mp_upper := mp_upper p + of_nat (length Nd), mp_body := ?b\<rparr>"
  have sel: "mp_body ?p = ?b" "mp_lower ?p = mp_lower p - 2" "mp_upper ?p = mp_upper p + of_nat (length Nd)" by simp_all
  show ?thesis unfolding slots_rep_def flags_upd sel using 1 2 3 4 5 6 le l2 by blast
qed

lemma memmove_up:
  assumes "length P = base" "length Nd = sz"
  shows "\<exists>Y. length Y = sz \<and> memmove (P @ H1 @ Nd @ H2) (base + sz) base (length H1) = Some (P @ Y @ H1 @ H2)"
proof -
  let ?Y = "take sz (H1 @ Nd)"
  have s: "H1 @ Nd = ?Y @ drop sz (H1 @ Nd)" by (rule append_take_drop_id [symmetric])
  have l: "length ?Y = sz" "length (drop sz (H1 @ Nd)) = length H1" using assms(2) by auto
  have "blit ((P @ ?Y) @ drop sz (H1 @ Nd) @ H2) (base + sz) H1 = Some ((P @ ?Y) @ H1 @ H2)"
    using assms l by (intro blit_at) auto
  moreover have "P @ H1 @ Nd @ H2 = (P @ ?Y) @ drop sz (H1 @ Nd) @ H2" using s by (metis append_assoc)
  ultimately have b: "blit (P @ H1 @ Nd @ H2) (base + sz) H1 = Some (P @ ?Y @ H1 @ H2)" by (simp only: append_assoc)
  have t: "take (length H1) (drop base (P @ H1 @ Nd @ H2)) = H1" "base + length H1 \<le> length (P @ H1 @ Nd @ H2)" using assms(1) by auto
  have "memmove (P @ H1 @ Nd @ H2) (base + sz) base (length H1) = Some (P @ ?Y @ H1 @ H2)"
    unfolding memmove_def t(1) b using t(2) by (simp only: if_True)
  then show ?thesis using l(1) by blast
qed

lemma adj_close_gap:
  assumes "e \<le> psz" "fst s \<le> psz" "psz \<le> 32768" "node_size n \<le> e"
  shows "adj (of_nat (psz - e)) (of_nat (node_size n)) (of_nat (psz - fst s)) = of_nat (psz - fst (close_gap (e, n) s))"
proof -
  have "(of_nat (psz - fst s) < (of_nat (psz - e) :: u16)) = (e < fst s)"
    using assms(1-3) unat16 [of "psz - fst s"] unat16 [of "psz - e"] by (auto simp: word_less_nat_alt)
  moreover have "of_nat (psz - fst s) + of_nat (node_size n) = (of_nat (psz - (fst s - node_size n)) :: u16)" if "e < fst s"
  proof -
    have "psz - fst s + node_size n = psz - (fst s - node_size n)" using that assms by simp
    then show ?thesis by (metis of_nat_add)
  qed
  ultimately show ?thesis by (simp add: close_gap_def)
qed

lemma mdb_node_del_rep:
  assumes rep: "slots_rep psz p ss free heap" and i: "indx < length ss"
  shows "\<exists>p' free' heap'. mdb_node_del p indx ksize = Some p' \<and>
    slots_rep psz p' (map (close_gap (ss ! indx)) (remove_at indx ss)) free' heap' \<and> mp_flags p' = mp_flags p \<and> mp_pgno p' = mp_pgno p"
proof -
  note sz = slots_rep_sizes [OF rep]
  obtain e n where s: "ss ! indx = (e, n)" by (cases "ss ! indx")
  let ?ps = "map (\<lambda>s. of_nat (psz - fst s)) ss :: u16 list"
  have body: "mp_body p = enc16 ?ps @ free @ heap" and le: "psz \<le> 32768" and l2: "\<not> IS_LEAF2 p" using rep unfolding slots_rep_def by blast+
  obtain B r where B: "mp_body p = B @ node_enc n @ r" "NODEPTR (mp_body p) indx = Some (length B)" "get16 (mp_body p) (2 * indx) = Some (of_nat (psz - e))"
      "length B = psz - e - 16" "e \<le> length heap" "node_wf (IS_LEAF p) n" "node_size n \<le> e"
    by (rule slot_bytes [OF rep i], unfold s fst_conv snd_conv, rule that)
  have fl: "NODEKSZ (mp_body p) (length B) = Some (of_nat (length (nd_key n)))" "NODEFLAGS (mp_body p) (length B) = Some (nd_flags n)"
    "NODEDSZ (mp_body p) (length B) = Some (ucast (nd_lo n) OR push_bit 16 (ucast (nd_hi n)))"
    unfolding B(1) by (rule node_fields [OF refl])+
  have ks: "unat (of_nat (length (nd_key n)) :: u16) = length (nd_key n)" using B(6) by (intro unat16) (simp add: node_wf_def)
  have size: "EVEN (NODESIZE + unat (of_nat (length (nd_key n)) :: u16) + (if IS_LEAF p then (if F_ISSET (nd_flags n) F_BIGDATA then 8
      else unat (ucast (nd_lo n) OR push_bit 16 (ucast (nd_hi n)) :: u32)) else 0)) = node_size n"
    unfolding ks dsz_value node_size_def using B(6) by (simp add: node_wf_def)
  let ?ptr = "of_nat (psz - e) :: u16" and ?N = "node_size n"
  have pr: "length ([] :: u16 list) \<le> indx" "indx < length ss" "length ss = length ([] :: u16 list) + length ?ps" using i by simp_all
  obtain x where "del_ptrs (enc16 ([] @ ?ps) @ free @ heap) (length ss) indx ?ptr (of_nat ?N) (length ([] :: u16 list)) (length ([] :: u16 list))
      = Some (enc16 ([] @ map (adj ?ptr (of_nat ?N)) (take (indx - length ([] :: u16 list)) ?ps @ drop (indx - length ([] :: u16 list) + 1) ?ps) @ [x]) @ free @ heap)"
    using del_ptrs_before [OF pr, of "free @ heap" ?ptr "of_nat ?N"] by (elim exE)
  then have dp: "del_ptrs (mp_body p) (length ss) indx ?ptr (of_nat ?N) 0 0
      = Some (enc16 (map (adj ?ptr (of_nat ?N)) (remove_at indx ?ps) @ [x]) @ free @ heap)"
    unfolding body remove_at_def by (simp only: list.size append_Nil diff_zero minus_nat.diff_0)
  have up: "unat (mp_upper p) = psz - length heap" "unat (mp_upper p) \<ge> 16" using sz(1,4) by auto
  have up': "mp_upper p = of_nat (psz - length heap)" using rep unfolding slots_rep_def by blast
  have upt: "unat ?ptr = psz - e" using le by (intro unat16) simp
  have "\<not> ?ptr < mp_upper p" using upt up(1) B(5) by (simp add: word_less_nat_alt)
  then have chk: "(if unat (mp_upper p) < PAGEHDRSZ \<or> ?ptr < mp_upper p then None else Some ()) = Some ()" using up(2) by simp
  have dif: "unat (?ptr - mp_upper p) = length heap - e"
  proof -
    have "psz - e = (length heap - e) + (psz - length heap)" using B(5) sz(1) by simp
    then have "?ptr - mp_upper p = of_nat (length heap - e)" unfolding up' by (metis add_diff_cancel_right' of_nat_add)
    then show ?thesis using le sz(1) by (simp only:) (intro unat16, simp)
  qed
  obtain H1 Nd H2 where H: "heap = H1 @ Nd @ H2" "length H1 = length heap - e" "length Nd = ?N" "e = length Nd + length H2"
  proof -
    let ?R = "drop (length heap - e) heap"
    have "heap = take (length heap - e) heap @ take ?N ?R @ drop ?N ?R" by (simp del: drop_drop)
    then show thesis using B(5,7) by (intro that [of "take (length heap - e) heap" "take ?N ?R" "drop ?N ?R"]) (simp_all del: drop_drop)
  qed
  let ?P = "enc16 (map (adj ?ptr (of_nat ?N)) (remove_at indx ?ps)) @ le16 x @ free"
  have P: "length ?P = unat (mp_upper p) - PAGEHDRSZ" using i sz(4) by (simp add: length_remove_at)
  obtain Y where Y: "length Y = ?N" "memmove (?P @ H1 @ Nd @ H2) (length ?P + ?N) (length ?P) (length H1) = Some (?P @ Y @ H1 @ H2)"
    using memmove_up [OF refl H(3)] by blast
  let ?p = "p\<lparr>mp_lower := mp_lower p - 2, mp_upper := mp_upper p + of_nat ?N, mp_body := ?P @ Y @ H1 @ H2\<rparr>"
  have nk: "\<not> \<not> indx < NUMKEYS p" using sz(2) i by simp
  have st: "enc16 (map (adj ?ptr (of_nat ?N)) (remove_at indx ?ps) @ [x]) @ free @ heap = ?P @ H1 @ Nd @ H2"
    by (simp add: H(1))
  have "mdb_node_del p indx ksize = Some ?p"
    unfolding mdb_node_del_def Let_def
    by (simp only: nk i l2 if_False simp_thms B(2,3) fl Option.bind.simps size sz(2) dp chk dif st H(2) [symmetric] P [symmetric] Y(2))
  moreover have "slots_rep psz ?p (map (close_gap (ss ! indx)) (remove_at indx ss)) (le16 x @ free @ Y) (H1 @ H2)"
  proof -
    have "\<forall>t\<in>set ss. slot_ok (IS_LEAF p) heap t" using rep unfolding slots_rep_def by blast
    then have f: "fst t \<le> psz" if "t \<in> set ss" for t using slot_okD that sz(1) by fastforce
    have "e \<le> psz" using B(5) sz(1) by simp
    then have "map (adj ?ptr (of_nat ?N)) (map (\<lambda>s. of_nat (psz - fst s)) ss) = map (\<lambda>s. of_nat (psz - fst s)) (map (close_gap (e, n)) ss)"
      unfolding map_map o_def by (intro map_cong refl adj_close_gap f le B(7))
    then have m: "map (adj ?ptr (of_nat ?N)) (remove_at indx ?ps) = map (\<lambda>s. of_nat (psz - fst s)) (map (close_gap (ss ! indx)) (remove_at indx ss))"
      unfolding s map_remove_at by (rule arg_cong)
    have e: "fst (ss ! indx) = length Nd + length H2" "length Nd = node_size (snd (ss ! indx))" using H(3,4) by (simp_all add: s)
    have Y': "length Y = length Nd" using Y(1) H(3) by simp
    have "slots_rep psz p ss free (H1 @ Nd @ H2)" using rep H(1) by simp
    from slots_rep_remove [OF this i refl e Y' length_le16, of x] show ?thesis
      unfolding m H(3) append_assoc .
  qed
  ultimately show ?thesis by fastforce
qed

section \<open>A small page\<close>

text \<open>A leaf page of 48 bytes with one node, key \<open>[1, 2]\<close> and data \<open>[3, 4]\<close>.\<close>

definition sample_node :: node where
  "sample_node = \<lparr>nd_lo = 2, nd_hi = 0, nd_flags = 0, nd_key = [1, 2], nd_data = [3, 4]\<rparr>"

definition sample_page :: mdb_page where
  "sample_page = \<lparr>mp_pgno = 7, mp_pad = 0, mp_flags = P_LEAF, mp_lower = 18, mp_upper = 36,
     mp_body = [36, 0] @ replicate 18 0 @ [2, 0, 0, 0, 0, 0, 2, 0, 1, 2, 3, 4]\<rparr>"

lemma sample_page_rep: "page_rep 48 sample_page [sample_node]" "IS_LEAF sample_page"
proof -
  show l: "IS_LEAF sample_page" by (simp add: IS_LEAF_def F_ISSET_def sample_page_def)
  have sz: "node_size sample_node = 12" by (simp add: node_size_def sample_node_def EVEN_def)
  have enc: "node_enc sample_node = [2, 0, 0, 0, 0, 0, 2, 0, 1, 2, 3, 4]"
    by (simp add: node_enc_def sample_node_def le16_def drop_bit_eq_div)
  have "node_wf True sample_node" by (simp add: node_wf_def sample_node_def F_ISSET_def)
  then have "slots_rep 48 sample_page [(12, sample_node)] (replicate 18 0) [2, 0, 0, 0, 0, 0, 2, 0, 1, 2, 3, 4]"
    unfolding slots_rep_def using l sz enc
    by (simp add: slot_ok_def sample_page_def IS_LEAF2_def F_ISSET_def le16_def drop_bit_eq_div)
  then show "page_rep 48 sample_page [sample_node]" unfolding page_rep_def by force
qed

section \<open>Adding to a leaf and to a branch\<close>

definition val :: "bytes \<Rightarrow> mdb_val" where
  "val b = \<lparr>mv_size = length b, mv_data = b\<rparr>"

lemma val_simps [simp]: "mv_size (val b) = length b" "mv_data (val b) = b" "val_ok (val b)" "key_bytes (Some (val b)) = b"
  by (simp_all add: val_def val_ok_def key_bytes_def)

lemma isset_one: "F_ISSET w 1 \<longleftrightarrow> bit w 0"
  unfolding F_ISSET_def by (simp add: and_one_eq bit_0 odd_iff_mod_2_eq_one)

lemma isset_bigdata: "F_ISSET (ucast flags :: u16) F_BIGDATA \<longleftrightarrow> F_ISSET (flags :: u32) (ucast F_BIGDATA)"
  using isset_one [of "ucast flags :: u16"] isset_one [of flags] by (simp add: bit_ucast_iff)

lemma leaf_node_wf:
  assumes "length k < 2 ^ 16" "length d < 2 ^ 32"
  shows "\<not> F_ISSET flags (ucast F_BIGDATA) \<Longrightarrow> node_wf True (leaf_node flags k (length d) d)"
    "node_wf True (leaf_node (flags OR ucast F_BIGDATA) k sz (le64 pg))"
proof -
  have "unat (of_nat (length d) :: u16) + 65536 * unat (of_nat (length d div 65536) :: u16) = length d"
    using assms(2) by (simp add: unsigned_of_nat take_bit_eq_mod)
  then show "\<not> F_ISSET flags (ucast F_BIGDATA) \<Longrightarrow> node_wf True (leaf_node flags k (length d) d)"
    using assms(1) isset_bigdata [of flags] by (simp add: node_wf_def leaf_node_def)
  have "F_ISSET (flags OR ucast F_BIGDATA) (ucast F_BIGDATA)" by (simp add: F_ISSET_def bit.conj_disj_distrib2)
  then show "node_wf True (leaf_node (flags OR ucast F_BIGDATA) k sz (le64 pg))"
    using assms(1) isset_bigdata [of "flags OR ucast F_BIGDATA"] by (simp add: node_wf_def leaf_node_def le64_def)
qed

lemma leaf_node_size: "node_size (leaf_node flags k sz d) = EVEN (NODESIZE + length k + length d)"
  by (simp add: node_size_def leaf_node_def)

text \<open>The node a leaf gets: with the data, or, when it would be too large, with the number of the overflow page.\<close>

definition added_node :: "nat \<Rightarrow> u32 \<Rightarrow> bytes \<Rightarrow> bytes \<Rightarrow> u64 \<Rightarrow> node" where
  "added_node nodemax flags k d pg =
     (if NODESIZE + length k + length d > nodemax then leaf_node (flags OR ucast F_BIGDATA) k (length d) (le64 pg)
      else leaf_node flags k (length d) d)"

lemma page_repE:
  assumes "page_rep psz p ns"
  obtains ss free heap where "slots_rep psz p ss free heap" "ns = map snd ss" "length free = page_free psz ns" "unat (SIZELEFT p) = page_free psz ns"
    "\<not> mp_upper p < mp_lower p" "\<not> IS_LEAF2 p" "length ss = length ns"
proof -
  obtain ss free heap where s: "slots_rep psz p ss free heap" "ns = map snd ss" using assms by (auto simp: page_rep_def)
  note sz = slots_rep_sizes [OF s(1)]
  have "\<not> mp_upper p < mp_lower p" using sz(4,5) by (simp add: word_less_nat_alt)
  moreover have "\<not> IS_LEAF2 p" using s(1) unfolding slots_rep_def by blast
  ultimately show thesis using that [OF s] sz(3,6) s(2) by simp
qed

text \<open>The node at the index is the one next to the free space.\<close>

definition lowest :: "mdb_page \<Rightarrow> nat \<Rightarrow> bool" where
  "lowest p i \<longleftrightarrow> NODEPTR (mp_body p) i = Some (unat (mp_upper p) - PAGEHDRSZ)"

lemma lowestI:
  assumes "slots_rep psz p (insert_at i (e, n) ss) free heap" "i \<le> length ss" "e = length heap"
  shows "lowest p i"
proof -
  have i: "i < length (insert_at i (e, n) ss)" using assms(2) by simp
  obtain B :: bytes where b: "NODEPTR (mp_body p) i = Some (length B)" "length B = psz - fst (insert_at i (e, n) ss ! i) - 16"
    by (rule slot_bytes [OF assms(1) i]) (rule that)
  then show ?thesis using slots_rep_sizes(1,4) [OF assms(1)] assms(2,3) by (simp add: lowest_def insert_at_nth)
qed

lemma node_update_low:
  assumes rep: "page_rep psz p ns" and indx: "indx \<le> length ns" and key: "\<forall>k. key = Some k \<longrightarrow> val_ok k"
    and n: "n = (if IS_LEAF p then leaf_node flags (key_bytes key) (mv_size data) d else branch_node pgno (key_bytes key))"
    and wf: "node_wf (IS_LEAF p) n" and room: "node_size n + 2 \<le> page_free psz ns"
    and dat: "IS_LEAF p \<Longrightarrow> (\<And>A x r. length x = length d \<Longrightarrow> put_data flags data (A @ x @ r) (length A) ofp = Some (A @ d @ r, ofp'))"
    and brn: "\<not> IS_LEAF p \<Longrightarrow> ofp' = ofp"
  shows "\<exists>p'. node_update p indx key data pgno flags (node_size n) ofp = Some (p', ofp') \<and>
    page_rep psz p' (insert_at indx n ns) \<and> mp_flags p' = mp_flags p \<and> mp_pgno p' = mp_pgno p \<and> lowest p' indx"
proof -
  obtain ss free heap where s: "slots_rep psz p ss free heap" "ns = map snd ss" "length free = page_free psz ns" "length ss = length ns"
    by (rule page_repE [OF rep], rule that)
  have "indx \<le> length ss" "node_size n + 2 \<le> length free" using indx room s(3,4) by simp_all
  from node_update_rep [OF s(1) this(1) key n wf this(2) dat brn] obtain p' free' heap'
    where u: "node_update p indx key data pgno flags (node_size n) ofp = Some (p', ofp')"
      "slots_rep psz p' (insert_at indx (length heap + node_size n, n) ss) free' heap'" "mp_flags p' = mp_flags p" "mp_pgno p' = mp_pgno p"
    by blast
  have "page_rep psz p' (insert_at indx n ns)" unfolding page_rep_def using u(2) s(2) by fastforce
  moreover have "sum_list (map (node_size \<circ> snd) (insert_at indx (length heap + node_size n, n) ss)) = length heap'" "sum_list (map (node_size \<circ> snd) ss) = length heap"
    using u(2) s(1) unfolding slots_rep_def by blast+
  then have "length heap + node_size n = length heap'" by simp
  then have "lowest p' indx" using lowestI [OF u(2)] indx s(4) by simp
  ultimately show ?thesis using u by blast
qed

lemma node_update_page:
  assumes rep: "page_rep psz p ns" and indx: "indx \<le> length ns" and key: "\<forall>k. key = Some k \<longrightarrow> val_ok k"
    and n: "n = (if IS_LEAF p then leaf_node flags (key_bytes key) (mv_size data) d else branch_node pgno (key_bytes key))"
    and wf: "node_wf (IS_LEAF p) n" and room: "node_size n + 2 \<le> page_free psz ns"
    and dat: "IS_LEAF p \<Longrightarrow> (\<And>A x r. length x = length d \<Longrightarrow> put_data flags data (A @ x @ r) (length A) ofp = Some (A @ d @ r, ofp'))"
    and brn: "\<not> IS_LEAF p \<Longrightarrow> ofp' = ofp"
  shows "\<exists>p'. node_update p indx key data pgno flags (node_size n) ofp = Some (p', ofp') \<and>
    page_rep psz p' (insert_at indx n ns) \<and> mp_flags p' = mp_flags p \<and> mp_pgno p' = mp_pgno p"
  using node_update_low [OF assms] by blast

lemma mdb_node_add_branch:
  fixes pgno :: u64
  assumes rep: "page_rep psz p ns" "\<not> IS_LEAF p" and indx: "indx \<le> length ns" and key: "\<forall>k. key = Some k \<longrightarrow> val_ok k" "length (key_bytes key) < 2 ^ 16"
  defines "n \<equiv> branch_node pgno (key_bytes key)"
  shows "if page_free psz ns < node_size n + 2 then mdb_node_add alloc psize nodemax pad db p indx key data pgno flags = Some Page_Full
    else \<exists>p'. mdb_node_add alloc psize nodemax pad db p indx key data pgno flags = Some (Added p' db None) \<and>
      page_rep psz p' (insert_at indx n ns) \<and> mp_flags p' = mp_flags p \<and> mp_pgno p' = mp_pgno p \<and> lowest p' indx"
proof -
  obtain s: "unat (SIZELEFT p) = page_free psz ns" "\<not> mp_upper p < mp_lower p" "\<not> IS_LEAF2 p"
    by (rule page_repE [OF rep(1)], rule that)
  have ks: "(case key of None \<Rightarrow> 0 | Some k \<Rightarrow> mv_size k) = length (key_bytes key)"
    using key(1) by (auto simp: key_bytes_def val_ok_def split: option.splits)
  have sz: "EVEN (NODESIZE + length (key_bytes key)) = node_size n" by (simp add: n_def node_size_def branch_node_def)
  have eq: "mdb_node_add alloc psize nodemax pad db p indx key data pgno flags = (if page_free psz ns < node_size n + 2 then Some Page_Full
      else finish_add db (node_update p indx key (val []) pgno flags (node_size n) None))"
    unfolding mdb_node_add_def Let_def s(1) ks sz using s(2,3) rep(2) by (auto simp: val_def)
  have wf: "node_wf (IS_LEAF p) n" using rep(2) key(2) by (simp add: n_def node_wf_def branch_node_def)
  show ?thesis
  proof (cases "page_free psz ns < node_size n + 2")
    case False
    then obtain p' where "node_update p indx key (val []) pgno flags (node_size n) None = Some (p', None)" "page_rep psz p' (insert_at indx n ns)"
        "mp_flags p' = mp_flags p" "mp_pgno p' = mp_pgno p" "lowest p' indx"
      using node_update_low [OF rep(1) indx key(1) _ wf, of flags "val []" "[]" pgno None None] rep(2) by (auto simp: n_def)
    then show ?thesis using eq False by (simp add: finish_add_def)
  qed (use eq in simp)
qed

lemma put_data_plain:
  "\<not> F_ISSET flags (ucast F_BIGDATA) \<Longrightarrow> \<not> F_ISSET flags MDB_RESERVE \<Longrightarrow> length x = length d \<Longrightarrow>
   put_data flags (val d) (A @ x @ r) (length A) None = Some (A @ d @ r, None)"
  by (simp add: put_data_def ndata_bytes_def blit_at)

lemma put_data_overflow:
  assumes "\<not> F_ISSET flags MDB_RESERVE" "length d \<le> length (mp_body op)" "length x = length (le64 pg)" "mp_pgno op = pg"
  shows "put_data flags (val d) (A @ x @ r) (length A) (Some op) = Some (A @ le64 pg @ r, Some (op\<lparr>mp_body := d @ drop (length d) (mp_body op)\<rparr>))"
  using assms by (simp add: put_data_def ndata_bytes_def blit_at) (simp add: blit_def)

lemma mdb_page_new_overflow:
  "alloc num = Inr (pg, ob) \<Longrightarrow> \<exists>op db'. mdb_page_new alloc psize db P_OVERFLOW num = Inr (op, db') \<and> mp_pgno op = pg \<and> mp_body op = ob"
  by (auto simp: mdb_page_new_def Let_def)

lemma reserve_or: "F_ISSET (flags OR ucast F_BIGDATA) MDB_RESERVE = F_ISSET flags MDB_RESERVE"
proof -
  have "(flags OR ucast F_BIGDATA) AND MDB_RESERVE = flags AND MDB_RESERVE"
    by (simp add: bit.conj_disj_distrib2)
  then show ?thesis by (simp add: F_ISSET_def)
qed

text \<open>C32: adding a key with data to a leaf page of at most 32 KiB either finds no room and changes nothing, or
  puts the node at the given index of the page's list of nodes and leaves the other nodes as they are; data
  that would make the node too large goes to a new overflow page, whose number the node holds.\<close>

theorem mdb_node_add_leaf:
  assumes rep: "page_rep psz p ns" "IS_LEAF p" and indx: "indx \<le> length ns" and len: "length k < 2 ^ 16" "length d < 2 ^ 32"
    and fl: "\<not> F_ISSET flags (ucast F_BIGDATA)" "\<not> F_ISSET flags MDB_RESERVE"
    and alloc: "alloc (OVPAGES (length d) psize) = Inr (pg, ob)" "length d \<le> length ob"
  shows "if page_free psz ns < node_size (added_node nodemax flags k d pg) + 2
    then mdb_node_add alloc psize nodemax pad db p indx (Some (val k)) (Some (val d)) pgno flags = Some Page_Full
    else \<exists>p' db' ofp. mdb_node_add alloc psize nodemax pad db p indx (Some (val k)) (Some (val d)) pgno flags = Some (Added p' db' ofp) \<and>
      page_rep psz p' (insert_at indx (added_node nodemax flags k d pg) ns) \<and> mp_flags p' = mp_flags p \<and> mp_pgno p' = mp_pgno p \<and>
      (if NODESIZE + length k + length d > nodemax then \<exists>op. ofp = Some op \<and> mp_pgno op = pg \<and> take (length d) (mp_body op) = d else ofp = None)"
proof -
  obtain s: "unat (SIZELEFT p) = page_free psz ns" "\<not> mp_upper p < mp_lower p" "\<not> IS_LEAF2 p"
    by (rule page_repE [OF rep(1)], rule that)
  let ?n = "added_node nodemax flags k d pg"
  have key: "\<forall>v. Some (val k) = Some v \<longrightarrow> val_ok v" by simp
  have l64: "length (le64 pg) = 8" by (simp add: le64_def)
  show ?thesis
  proof (cases "NODESIZE + length k + length d > nodemax")
    case big: True
    let ?fl = "flags OR ucast F_BIGDATA"
    have n: "?n = leaf_node ?fl k (length d) (le64 pg)" using big by (simp add: added_node_def)
    have sz: "EVEN (NODESIZE + length k + 8) = node_size ?n" unfolding n leaf_node_size l64 ..
    have wf: "node_wf (IS_LEAF p) ?n" unfolding n using rep(2) leaf_node_wf(2) [OF len] by simp
    obtain op db' where op: "mdb_page_new alloc psize db P_OVERFLOW (OVPAGES (length d) psize) = Inr (op, db')" "mp_pgno op = pg" "mp_body op = ob"
      using mdb_page_new_overflow [of alloc "OVPAGES (length d) psize" pg ob, OF alloc(1)] by blast
    have eq: "mdb_node_add alloc psize nodemax pad db p indx (Some (val k)) (Some (val d)) pgno flags = (if page_free psz ns < node_size ?n + 2 then Some Page_Full
        else finish_add db' (node_update p indx (Some (val k)) (val d) pgno ?fl (node_size ?n) (Some op)))"
      unfolding mdb_node_add_def Let_def using s rep(2) big fl(1) op(1) sz by (simp add: add.assoc)
    show ?thesis
    proof (cases "page_free psz ns < node_size ?n + 2")
      case False
      let ?op = "op\<lparr>mp_body := d @ drop (length d) (mp_body op)\<rparr>"
      have "\<exists>p'. node_update p indx (Some (val k)) (val d) pgno ?fl (node_size ?n) (Some op) = Some (p', Some ?op) \<and>
          page_rep psz p' (insert_at indx ?n ns) \<and> mp_flags p' = mp_flags p \<and> mp_pgno p' = mp_pgno p"
        using False rep(2) fl(2) alloc(2) op(2,3) reserve_or [of flags]
        by (intro node_update_page [OF rep(1) indx key _ wf, where d = "le64 pg"] put_data_overflow) (simp_all add: n)
      then show ?thesis using eq False big op(2) by (auto simp: finish_add_def)
    qed (use eq in simp)
  next
    case small: False
    have n: "?n = leaf_node flags k (length d) d" using small by (simp add: added_node_def)
    have sz: "EVEN (NODESIZE + length k + length d) = node_size ?n" unfolding n leaf_node_size ..
    have wf: "node_wf (IS_LEAF p) ?n" unfolding n using rep(2) leaf_node_wf(1) [OF len fl(1)] by simp
    have eq: "mdb_node_add alloc psize nodemax pad db p indx (Some (val k)) (Some (val d)) pgno flags = (if page_free psz ns < node_size ?n + 2 then Some Page_Full
        else finish_add db (node_update p indx (Some (val k)) (val d) pgno flags (node_size ?n) None))"
      unfolding mdb_node_add_def Let_def using s rep(2) small fl(1) sz by (simp add: add.assoc)
    show ?thesis
    proof (cases "page_free psz ns < node_size ?n + 2")
      case False
      have "\<exists>p'. node_update p indx (Some (val k)) (val d) pgno flags (node_size ?n) None = Some (p', None) \<and>
          page_rep psz p' (insert_at indx ?n ns) \<and> mp_flags p' = mp_flags p \<and> mp_pgno p' = mp_pgno p"
        using False rep(2) fl by (intro node_update_page [OF rep(1) indx key _ wf, where d = d] put_data_plain) (simp_all add: n)
      then show ?thesis using eq False small by (auto simp: finish_add_def)
    qed (use eq in simp)
  qed
qed

theorem mdb_node_add_leaf_witness:
  "\<exists>p' db' ofp. mdb_node_add (\<lambda>n. Inr (9, replicate 32 0)) 48 40 0 \<lparr>md_branch_pages = 0, md_leaf_pages = 1, md_overflow_pages = 0\<rparr>
     sample_page 1 (Some (val [1, 3])) (Some (val [5])) 0 0 = Some (Added p' db' ofp) \<and>
     page_rep 48 p' [sample_node, leaf_node 0 [1, 3] 1 [5]] \<and> ofp = None"
proof -
  have "node_size (added_node 40 0 [1, 3] [5] 9) = 12" "added_node 40 0 [1, 3] [5] 9 = leaf_node 0 [1, 3] 1 [5]"
    by (simp_all add: added_node_def node_size_def leaf_node_def EVEN_def)
  moreover have "page_free 48 [sample_node] = 18" by (simp add: page_free_def node_size_def sample_node_def EVEN_def)
  moreover have "insert_at 1 (leaf_node 0 [1, 3] 1 [5]) [sample_node] = [sample_node, leaf_node 0 [1, 3] 1 [5]]" by (simp add: insert_at_def)
  ultimately show ?thesis
    using mdb_node_add_leaf [OF sample_page_rep, of 1 "[1, 3]" "[5]" 0 "\<lambda>n. Inr (9, replicate 32 0)" 48 9 "replicate 32 0" 40 0
      "\<lparr>md_branch_pages = 0, md_leaf_pages = 1, md_overflow_pages = 0\<rparr>" 0] by (auto simp: F_ISSET_def)
qed

text \<open>C33: deleting the node at an index removes it from the page's list of nodes, leaves the others as they are and
  returns its space to the page.\<close>

theorem mdb_node_del_nodes:
  assumes "page_rep psz p ns" "indx < length ns"
  shows "\<exists>p'. mdb_node_del p indx ksize = Some p' \<and> page_rep psz p' (remove_at indx ns) \<and> mp_flags p' = mp_flags p \<and> mp_pgno p' = mp_pgno p \<and>
    unat (SIZELEFT p') = page_free psz ns + 2 + node_size (ns ! indx)"
proof -
  obtain ss free heap where s: "slots_rep psz p ss free heap" "ns = map snd ss" "length free = page_free psz ns" "length ss = length ns"
    by (rule page_repE [OF assms(1)], rule that)
  have i: "indx < length ss" using assms(2) s(4) by simp
  obtain p' free' heap' where p': "mdb_node_del p indx ksize = Some p'" "slots_rep psz p' (map (close_gap (ss ! indx)) (remove_at indx ss)) free' heap'"
      "mp_flags p' = mp_flags p" "mp_pgno p' = mp_pgno p"
    using mdb_node_del_rep [OF s(1) i] by blast
  have nodes: "map snd (map (close_gap (ss ! indx)) (remove_at indx ss)) = remove_at indx ns"
    unfolding s(2) map_map o_def snd_close_gap map_remove_at ..
  then have rep: "page_rep psz p' (remove_at indx ns)" unfolding page_rep_def using p'(2) by (metis (no_types))
  have sum: "sum_list (map node_size ns) = length heap" using s(1) unfolding s(2) slots_rep_def by (simp add: comp_def)
  have "sum_list (map node_size ns) = sum_list (map node_size (remove_at indx ns)) + node_size (ns ! indx)"
    using assms(2) by (subst id_take_nth_drop [of indx ns]) (simp_all add: remove_at_def)
  moreover have "length (remove_at indx ns) = length ns - 1" using assms(2) by (simp add: length_remove_at)
  moreover have "psz = 16 + 2 * length ns + page_free psz ns + sum_list (map node_size ns)"
    using slots_rep_sizes(1) [OF s(1)] s(3,4) sum by simp
  ultimately have "page_free psz (remove_at indx ns) = page_free psz ns + 2 + node_size (ns ! indx)"
    using assms(2) unfolding page_free_def [of psz "remove_at indx ns"] by simp
  moreover have "unat (SIZELEFT p') = page_free psz (remove_at indx ns)" using slots_rep_sizes(3,6) [OF p'(2)] nodes by simp
  ultimately show ?thesis using p' rep by simp
qed

theorem mdb_node_del_nodes_witness:
  "\<exists>p'. mdb_node_del sample_page 0 0 = Some p' \<and> page_rep 48 p' [] \<and> unat (SIZELEFT p') = 32"
proof -
  have "page_free 48 [sample_node] = 18" "node_size sample_node = 12" by (simp_all add: page_free_def node_size_def sample_node_def EVEN_def)
  then show ?thesis using mdb_node_del_nodes [OF sample_page_rep(1), of 0 0] by (auto simp: remove_at_def)
qed

section \<open>The search in a page\<close>

text \<open>What the search relies on: the comparison decides a linear order of the keys by rank.\<close>

locale key_order =
  fixes cmp :: "bytes \<Rightarrow> bytes \<Rightarrow> int option"
    and ok :: "bytes \<Rightarrow> bool"
    and rank :: "bytes \<Rightarrow> 'r::linorder"
  assumes cmp_rank: "ok a \<Longrightarrow> ok b \<Longrightarrow> \<exists>r. cmp a b = Some r \<and> orders r (rank a) (rank b)"
begin

lemma bin_search_order:
  assumes get: "\<And>i. l0 \<le> int i \<Longrightarrow> i < n \<Longrightarrow> f i = Some (ks i) \<and> ok (ks i)" and key: "ok key" and l0: "0 \<le> l0"
    and mono: "\<And>i j. l0 \<le> int i \<Longrightarrow> i < j \<Longrightarrow> j < n \<Longrightarrow> rank (ks i) < rank (ks j)"
  shows "l0 \<le> lo \<Longrightarrow> lo \<le> int t \<Longrightarrow> int t \<le> hi + 1 \<Longrightarrow> hi < int n \<Longrightarrow>
    (\<And>j. lo \<le> int j \<Longrightarrow> j < t \<Longrightarrow> rank (ks j) < rank key) \<Longrightarrow> (\<And>j. t \<le> j \<Longrightarrow> j < n \<Longrightarrow> rank key \<le> rank (ks j)) \<Longrightarrow>
    (\<And>j. hi < int j \<Longrightarrow> j < n \<Longrightarrow> rank key < rank (ks j)) \<Longrightarrow>
    (lo > hi \<Longrightarrow> rc \<noteq> 0 \<and> (if rc > 0 then i + 1 else i) = t) \<Longrightarrow>
    \<exists>i' rc'. bin_search (\<lambda>i. f i \<bind> cmp key) lo hi i rc = Some (i', rc') \<and> (if rc' > 0 then i' + 1 else i') = t \<and>
      (rc' = 0 \<longleftrightarrow> t < n \<and> rank (ks t) = rank key)"
proof (induction "\<lambda>i. f i \<bind> cmp key" lo hi i rc rule: bin_search.induct)
  case (1 lo hi i rc)
  note pr = "1.prems"
  let ?m = "(lo + hi) div 2" and ?c = "\<lambda>i. f i \<bind> cmp key"
  show ?case
  proof (cases "lo \<le> hi")
    case False
    then have "\<not> (t < n \<and> rank (ks t) = rank key)" using pr(2,3) pr(7) [of t] by (auto dest: order.strict_implies_not_eq)
    then show ?thesis using False pr(8) by (subst bin_search.simps) auto
  next
    case True
    have m: "lo \<le> ?m" "?m \<le> hi" "nat ?m < n" "l0 \<le> int (nat ?m)" using True pr(1,4) l0 by auto
    obtain r where r: "cmp key (ks (nat ?m)) = Some r" "orders r (rank key) (rank (ks (nat ?m)))"
      using cmp_rank [OF key] get [OF m(4,3)] by blast
    have c: "?c (nat ?m) = Some r" using get [OF m(4,3)] r(1) by simp
    consider "r = 0" | "r > 0" | "r < 0" by linarith
    then show ?thesis
    proof cases
      case 1
      then have e: "rank (ks (nat ?m)) = rank key" using r(2) by (simp add: orders_def)
      have "nat ?m = t"
      proof (rule ccontr)
        assume "nat ?m \<noteq> t"
        then consider "nat ?m < t" | "t < nat ?m" by linarith
        then show False
        proof cases
          case 1
          then show False using pr(5) [of "nat ?m"] m(1) pr(1) l0 e by simp
        next
          case 2
          then show False using mono [OF _ 2 m(3)] pr(1,2) pr(6) [of t] m(3) 2 e by simp
        qed
      qed
      then show ?thesis using True c 1 e m(3) by (subst bin_search.simps) (auto simp: Let_def)
    next
      case 2
      then have lt: "rank (ks (nat ?m)) < rank key" using r(2) by (simp add: orders_def)
      have t: "nat ?m < t" using lt pr(6) [OF _ m(3)] by (meson linorder_not_le)
      have "\<exists>i' rc'. bin_search ?c (?m + 1) hi (nat ?m) r = Some (i', rc') \<and> (if rc' > 0 then i' + 1 else i') = t \<and>
          (rc' = 0 \<longleftrightarrow> t < n \<and> rank (ks t) = rank key)"
      proof (rule "1.hyps"(1) [OF True refl c _ 2])
        show "hi < ?m + 1 \<Longrightarrow> r \<noteq> 0 \<and> (if r > 0 then nat ?m + 1 else nat ?m) = t" using t 2 m pr(1,3) l0 by auto
      qed (use 2 m t pr l0 in auto)
      then show ?thesis using True c 2 by (subst bin_search.simps) (simp add: Let_def)
    next
      case 3
      then have lt: "rank key < rank (ks (nat ?m))" "\<not> r > 0" using r(2) by (auto simp: orders_def)
      have t: "t \<le> nat ?m" using pr(5) [of "nat ?m"] lt m(1) pr(1) l0 by force
      have gt: "rank key < rank (ks j)" if "?m - 1 < int j" "j < n" for j
        using lt(1) mono [of "nat ?m" j] that m(1,4) pr(1) l0 by (cases "j = nat ?m") (auto intro: order.strict_trans)
      have "\<exists>i' rc'. bin_search ?c lo (?m - 1) (nat ?m) r = Some (i', rc') \<and> (if rc' > 0 then i' + 1 else i') = t \<and>
          (rc' = 0 \<longleftrightarrow> t < n \<and> rank (ks t) = rank key)"
      proof (rule "1.hyps"(2) [OF True refl c _ lt(2)])
        show "?m - 1 < lo \<Longrightarrow> r \<noteq> 0 \<and> (if r > 0 then nat ?m + 1 else nat ?m) = t" using t 3 m pr(1,2) l0 by auto
      qed (use 3 m t pr gt l0 in auto)
      then show ?thesis using True c 3 lt(2) by (subst bin_search.simps) (simp add: Let_def)
    qed
  qed
qed

lemma node_search_order:
  assumes rep: "page_rep psz p ns" "IS_LEAF p" and c: "apply_cmp c = cmp" "\<not> (is_cint c \<and> IS_BRANCH p)"
    and key: "ok key" "\<forall>n\<in>set ns. ok (nd_key n)" and srt: "sorted_wrt (\<lambda>m n. rank (nd_key m) < rank (nd_key n)) ns"
  defines "t \<equiv> length (takeWhile (\<lambda>n. rank (nd_key n) < rank key) ns)"
  shows "\<exists>node. mdb_node_search c md_pad p key = Some (t, \<exists>n\<in>set ns. rank (nd_key n) = rank key, node) \<and>
    node = (if t < length ns then NODEPTR (mp_body p) t else None)"
proof -
  obtain ss free heap where s: "slots_rep psz p ss free heap" "ns = map snd ss" "\<not> IS_LEAF2 p" "length ss = length ns"
    by (rule page_repE [OF rep(1)], rule that)
  have nk: "NUMKEYS p = length ns" using slots_rep_sizes(2) [OF s(1)] s(4) by simp
  let ?f = "\<lambda>i. NODEPTR (mp_body p) i \<bind> NODEKEY (mp_body p)" and ?k = "\<lambda>i. nd_key (ns ! i)"
  have get: "?f i = Some (?k i) \<and> ok (?k i)" "\<exists>q. NODEPTR (mp_body p) i = Some q" if "i < length ns" for i
  proof -
    have i: "i < length ss" using that s(4) by simp
    obtain B r where B: "mp_body p = B @ node_enc (snd (ss ! i)) @ r" "NODEPTR (mp_body p) i = Some (length B)" "node_wf (IS_LEAF p) (snd (ss ! i))"
      by (rule slot_bytes [OF s(1) i], rule that)
    have "NODEKEY (mp_body p) (length B) = Some (nd_key (snd (ss ! i)))"
      unfolding B(1) using B(3) by (intro node_fields(4) [OF refl]) (simp add: node_wf_def)
    then show "?f i = Some (?k i) \<and> ok (?k i)" "\<exists>q. NODEPTR (mp_body p) i = Some q"
      using B(2) key(2) that i by (auto simp: s(2))
  qed
  have mono: "rank (?k i) < rank (?k j)" if "i < j" "j < length ns" for i j using sorted_wrt_nth_less [OF srt that] .
  have below: "rank (?k j) < rank key" if "j < t" for j
  proof -
    have "takeWhile (\<lambda>n. rank (nd_key n) < rank key) ns ! j = ns ! j" using that by (intro takeWhile_nth) (simp add: t_def)
    then show ?thesis using nth_mem [of j "takeWhile (\<lambda>n. rank (nd_key n) < rank key) ns"] that by (auto simp: t_def dest: set_takeWhileD)
  qed
  have tl: "t \<le> length ns" by (simp add: t_def length_takeWhile_le)
  have at: "rank key \<le> rank (?k t)" if "t < length ns"
    using nth_length_takeWhile [of "\<lambda>n. rank (nd_key n) < rank key" ns] that by (simp add: t_def not_less)
  have above: "rank key \<le> rank (?k j)" if "t \<le> j" "j < length ns" for j
    using at mono [of t j] that by (cases "t = j") auto
  have ex: "(\<exists>n\<in>set ns. rank (nd_key n) = rank key) \<longleftrightarrow> t < length ns \<and> rank (?k t) = rank key"
  proof
    assume "\<exists>n\<in>set ns. rank (nd_key n) = rank key"
    then obtain j where j: "j < length ns" "rank (?k j) = rank key" by (auto simp: in_set_conv_nth)
    have "\<not> j < t" using below [of j] j(2) by auto
    moreover have "\<not> t < j" using mono [of t j] at j by auto
    ultimately show "t < length ns \<and> rank (?k t) = rank key" using j by (metis linorder_neqE_nat)
  qed (auto intro: nth_mem)
  show ?thesis
  proof (cases "ns = []")
    case True
    then show ?thesis using c(2) rep(2) nk s(3) by (subst mdb_node_search_def) (simp add: Let_def bin_search.simps t_def c)
  next
    case False
    obtain i rc where b: "bin_search (\<lambda>i. ?f i \<bind> cmp key) 0 (int (length ns) - 1) 0 0 = Some (i, rc)" "(if rc > 0 then i + 1 else i) = t"
        "rc = 0 \<longleftrightarrow> t < length ns \<and> rank (?k t) = rank key"
      using bin_search_order [of 0 "length ns" ?f ?k key 0 t "int (length ns) - 1" 0 0] get(1) key(1) mono below above tl False by auto
    have cm: "(if is_cint c \<and> IS_BRANCH p then do { node \<leftarrow> NODEPTR (mp_body p) 1; k \<leftarrow> NODEKSZ (mp_body p) node; Some (if k = 8 then Cmp_long else Cmp_int) } else Some c) = Some c"
      by (simp only: c(2) if_False)
    have "mdb_node_search c md_pad p key = (if t \<ge> length ns then Some (t, rc = 0 \<and> length ns > 0, None)
        else do { node \<leftarrow> NODEPTR (mp_body p) t; Some (t, rc = 0 \<and> length ns > 0, Some node) })"
      unfolding mdb_node_search_def Let_def cm nk using rep(2) s(3) b(1,2) False by (simp add: c(1))
    then show ?thesis using b(3) ex get(2) [of t] False by (auto simp: not_le)
  qed
qed

end

interpretation memn: key_order mdb_cmp_memn "\<lambda>a. length a < 2 ^ 32" "\<lambda>a. a"
  by unfold_locales (rule mdb_cmp_memn_orders)

interpretation memnr: key_order mdb_cmp_memnr "\<lambda>a. length a < 2 ^ 32" rev
  by unfold_locales (simp add: mdb_cmp_memnr_rev mdb_cmp_memn_orders)

interpretation cint: key_order mdb_cmp_cint "\<lambda>a. length a = 8" le_nat
  by unfold_locales (auto simp: mdb_cmp_cint_def intro!: cint_loop_orders)

text \<open>The search in a leaf page whose keys are in lexical order returns the position of the first key that is not
  smaller, says whether it is the key, and gives its node, or none when every key is smaller.\<close>

theorem mdb_node_search_leaf:
  assumes "page_rep psz p ns" "IS_LEAF p" "length key < 2 ^ 32" "\<forall>n\<in>set ns. length (nd_key n) < 2 ^ 32"
    "sorted_wrt (\<lambda>m n. nd_key m < nd_key n) ns"
  shows "\<exists>node. mdb_node_search Cmp_memn md_pad p key
      = Some (length (takeWhile (\<lambda>n. nd_key n < key) ns), \<exists>n\<in>set ns. nd_key n = key, node) \<and>
    node = (if length (takeWhile (\<lambda>n. nd_key n < key) ns) < length ns then NODEPTR (mp_body p) (length (takeWhile (\<lambda>n. nd_key n < key) ns)) else None)"
  by (rule memn.node_search_order [OF assms(1,2) _ _ assms(3-5)]) simp_all

theorem mdb_node_search_leaf_witness:
  "\<exists>node. mdb_node_search Cmp_memn 0 sample_page [1, 2] = Some (0, True, node) \<and> node = NODEPTR (mp_body sample_page) 0"
proof -
  have "nd_key sample_node = [1, 2]" by (simp add: sample_node_def)
  then show ?thesis using mdb_node_search_leaf [OF sample_page_rep, of "[1, 2]" 0] by simp
qed

end
