(* ===== verification/Lmdb_Alloc.thy ===== *)
theory Lmdb_Alloc
  imports Midl_Sort
begin

text \<open>
  The page allocator of the embedded database, \<^verbatim>\<open>mdb_page_alloc\<close> of \<^verbatim>\<open>src/liblmdb/mdb.c\<close>: pages that were
  loosened in this transaction, then a contiguous run in the list of free pages, into which older records of
  the free-page database are merged as needed, then new pages at the end of the map. The list is an ID list
  of \<open>Midl\<close>; the dirty pages are an ID2 list. Cursor reads of the free-page database, the scan of the reader
  table and the memory allocator are arguments: the records with their transaction numbers in the order of
  the keys, the oldest transaction in use, and the answers of the allocator.
\<close>

section \<open>The state\<close>

abbreviation (input) MDB_TXN_FULL :: int where "MDB_TXN_FULL \<equiv> - 30788"
abbreviation (input) MDB_MAP_FULL :: int where "MDB_MAP_FULL \<equiv> - 30792"

record page_txn =
  mt_loose_pgs :: "u64 list"
  mt_loose_count :: int
  mt_dirty_room :: nat
  mt_dirty_list :: id2l
  mt_next_pgno :: u64
  mt_error :: bool
  me_pghead :: "idl option"
  me_pglast :: u64
  me_pgoldest :: u64

text \<open>What surrounds the transaction: the size of the map in pages, whether pages are written in place, the
  address of the map and the size of a page, the answer of \<^verbatim>\<open>mdb_find_oldest\<close>, whether the list of free
  pages can grow, and the address \<^verbatim>\<open>mdb_page_malloc\<close> gives for the new page, if any. Moving to the next record of the free-page database is an error or the number of a transaction, and reading its data is an error or the list.\<close>

record page_env =
  me_maxpg :: u64
  writemap :: bool
  me_map :: nat
  me_psize :: nat
  find_oldest :: u64
  heap_ok :: bool
  heap_junk :: u64
  page_addr :: "nat option"

type_synonym free_record = "int + u64 \<times> (int + u64 list)"

text \<open>A record as an ID list: the count and the IDs; no word in front of it is read.\<close>

definition idl_of :: "u64 list \<Rightarrow> idl" where
  "idl_of ys = of_nat (length ys) # of_nat (length ys) # ys"

section \<open>The search for a run of free pages\<close>

text \<open>From the tail of the list; \<open>Some None\<close> when no run of \<open>n2 + 1\<close> pages is there.\<close>

fun free_scan :: "idl \<Rightarrow> nat \<Rightarrow> nat \<Rightarrow> (nat \<times> u64) option option" where
  "free_scan mop n2 0 = None"
| "free_scan mop n2 (Suc i) = do {
     pgno \<leftarrow> ids_at mop (Suc i);
     x \<leftarrow> ids_at mop (Suc i - n2);
     (if x = pgno + of_nat n2 then Some (Some (Suc i, pgno))
      else if i > n2 then free_scan mop n2 i else Some None)
   }"

datatype found = In_List nat u64 | At_End | Failed int

text \<open>Fetching the next record: read it, make room, merge it, remember its transaction.\<close>

definition fetch_record :: "page_env \<Rightarrow> page_txn \<Rightarrow> u64 \<Rightarrow> int + u64 list \<Rightarrow> (int + page_txn) option" where
  "fetch_record env st lastid data =
     (case data of
        Inl rc \<Rightarrow> Some (Inl rc)
      | Inr ys \<Rightarrow> do {
          let l2 = idl_of ys;
          r \<leftarrow> (case me_pghead st of
                  None \<Rightarrow> Some (mdb_midl_alloc (heap_ok env) (heap_junk env) (length ys), ENOMEM)
                | Some mop \<Rightarrow> do {
                    (mop, rc) \<leftarrow> mdb_midl_need (heap_ok env) (heap_junk env) mop (of_nat (length ys));
                    Some (if rc \<noteq> 0 then None else Some mop, rc)
                  });
          (case r of
             (None, rc) \<Rightarrow> Some (Inl rc)
           | (Some mop, _) \<Rightarrow> do {
               mop \<leftarrow> mdb_midl_xmerge mop l2;
               Some (Inr (st\<lparr>me_pghead := Some mop, me_pglast := lastid\<rparr>))
             })
        })"

definition mop_len :: "page_txn \<Rightarrow> nat option" where
  "mop_len st = (case me_pghead st of None \<Rightarrow> Some 0 | Some mop \<Rightarrow> map_option (\<lambda>c. unat (ucast c :: u32)) (ids_at mop 0))"

definition scan_head :: "page_txn \<Rightarrow> nat \<Rightarrow> (bool \<times> (nat \<times> u64) option) option" where
  "scan_head st n2 = do {
     n \<leftarrow> mop_len st;
     (case me_pghead st of
        None \<Rightarrow> Some (False, None)
      | Some mop \<Rightarrow> if n > n2 then do { r \<leftarrow> free_scan mop n2 n; Some (True, r) } else Some (False, None))
   }"

text \<open>Refreshing the oldest transaction, once.\<close>

definition refresh :: "page_env \<Rightarrow> page_txn \<Rightarrow> u64 \<Rightarrow> bool \<Rightarrow> u64 \<Rightarrow> page_txn \<times> u64 \<times> bool" where
  "refresh env st oldest found_old lastid =
     (if oldest \<le> lastid \<and> \<not> found_old
      then (st\<lparr>me_pgoldest := find_oldest env\<rparr>, find_oldest env, True) else (st, oldest, found_old))"

text \<open>The loop, over the records that remain to be read.\<close>

fun alloc_loop :: "page_env \<Rightarrow> nat \<Rightarrow> free_record list \<Rightarrow> page_txn \<Rightarrow> int \<Rightarrow> u64 \<Rightarrow> u64 \<Rightarrow> bool \<Rightarrow> (found \<times> page_txn) option" where
  "alloc_loop env n2 recs st retry oldest lastid found_old =
     (case scan_head st n2 of
        None \<Rightarrow> None
      | Some (_, Some (i, pgno)) \<Rightarrow> Some (In_List i pgno, st)
      | Some (tried, None) \<Rightarrow>
          if tried \<and> retry - 1 < 0 then Some (At_End, st)
          else
            let retry = (if tried then retry - 1 else retry);
                lastid = lastid + 1;
                (st, oldest, found_old) = refresh env st oldest found_old lastid
            in if oldest \<le> lastid then Some (At_End, st)
               else (case recs of
                       [] \<Rightarrow> Some (At_End, st)
                     | Inl rc # _ \<Rightarrow> Some (Failed rc, st)
                     | Inr (lastid, data) # recs' \<Rightarrow>
                         let (st, oldest, found_old) = refresh env st oldest found_old lastid
                         in if oldest \<le> lastid then Some (At_End, st)
                            else (case fetch_record env st lastid data of
                                    None \<Rightarrow> None
                                  | Some (Inl rc) \<Rightarrow> Some (Failed rc, st)
                                  | Some (Inr st') \<Rightarrow> alloc_loop env n2 recs' st' retry oldest lastid found_old)))"

declare alloc_loop.simps [simp del]

section \<open>Taking the pages\<close>

text \<open>Move any stragglers down.\<close>

function stragglers :: "idl \<Rightarrow> nat \<Rightarrow> nat \<Rightarrow> nat \<Rightarrow> idl option" where
  "stragglers mop len i j =
     (if j < len then
        (case ids_at mop (i + 1) of
           None \<Rightarrow> None
         | Some x \<Rightarrow> (case ids_put mop (j + 1) x of None \<Rightarrow> None | Some mop' \<Rightarrow> stragglers mop' len (i + 1) (j + 1)))
      else Some mop)"
  by pat_completeness auto

termination
  by (relation "measure (\<lambda>(_, len, _, j). len - j)") auto

declare stragglers.simps [simp del]

definition mdb_page_dirty :: "page_env \<Rightarrow> page_txn \<Rightarrow> u64 \<Rightarrow> nat \<Rightarrow> page_txn option" where
  "mdb_page_dirty env st pgno np = do {
     (dl, rc) \<leftarrow> (if writemap env then mdb_mid2l_append else mdb_mid2l_insert) (mt_dirty_list st) \<lparr>mid = pgno, mptr = np\<rparr>;
     (if rc \<noteq> 0 then None else Some (st\<lparr>mt_dirty_list := dl, mt_dirty_room := mt_dirty_room st - 1\<rparr>))
   }"

definition fail :: "page_txn \<Rightarrow> int \<Rightarrow> ((int + u64) \<times> page_txn) option" where
  "fail st rc = Some (Inl rc, st\<lparr>mt_error := True\<rparr>)"

text \<open>\<open>search_done\<close>: memory for the page, the list or the end of the map adjusted, the page made dirty.\<close>

definition take_pages :: "page_env \<Rightarrow> page_txn \<Rightarrow> nat \<Rightarrow> nat \<Rightarrow> u64 \<Rightarrow> ((int + u64) \<times> page_txn) option" where
  "take_pages env st num i pgno =
     (case (if writemap env then Some (me_map env + me_psize env * unat pgno) else page_addr env) of
        None \<Rightarrow> fail st ENOMEM
      | Some np \<Rightarrow> do {
          st \<leftarrow> (if i \<noteq> 0 then do {
                   mop \<leftarrow> me_pghead st;
                   n \<leftarrow> mop_len st;
                   mop \<leftarrow> ids_put mop 0 (of_nat (n - num));
                   mop \<leftarrow> stragglers mop (n - num) i (i - num);
                   Some (st\<lparr>me_pghead := Some mop\<rparr>)
                 } else Some (st\<lparr>mt_next_pgno := pgno + of_nat num\<rparr>));
          st \<leftarrow> mdb_page_dirty env st pgno np;
          Some (Inr pgno, st)
        })"

text \<open>The cursor starts behind the last record that was read.\<close>

definition from_last :: "u64 \<Rightarrow> free_record list \<Rightarrow> free_record list" where
  "from_last lastid recs = (if lastid \<noteq> 0 then dropWhile (\<lambda>r. case r of Inl _ \<Rightarrow> False | Inr (t, _) \<Rightarrow> t < lastid + 1) recs else recs)"

definition alloc_pages :: "page_env \<Rightarrow> free_record list \<Rightarrow> page_txn \<Rightarrow> nat \<Rightarrow> ((int + u64) \<times> page_txn) option" where
  "alloc_pages env recs st num =
     (if mt_dirty_room st = 0 then fail st MDB_TXN_FULL
      else do {
        (r, st) \<leftarrow> alloc_loop env (num - 1) (from_last (me_pglast st) recs) st (int num * 60) (me_pgoldest st) (me_pglast st) False;
        (case r of
           Failed rc \<Rightarrow> fail st rc
         | In_List i pgno \<Rightarrow> take_pages env st num i pgno
         | At_End \<Rightarrow>
             if mt_next_pgno st + of_nat num \<ge> me_maxpg env then fail st MDB_MAP_FULL
             else take_pages env st num 0 (mt_next_pgno st))
      })"

definition mdb_page_alloc :: "page_env \<Rightarrow> free_record list \<Rightarrow> page_txn \<Rightarrow> nat \<Rightarrow> ((int + u64) \<times> page_txn) option" where
  "mdb_page_alloc env recs st num =
     (case mt_loose_pgs st of
        np # rest \<Rightarrow>
          if num = 1 then Some (Inr np, st\<lparr>mt_loose_pgs := rest, mt_loose_count := mt_loose_count st - 1\<rparr>)
          else alloc_pages env recs st num
      | [] \<Rightarrow> alloc_pages env recs st num)"

section \<open>The list of free pages\<close>

definition head_rep :: "page_txn \<Rightarrow> u64 list \<Rightarrow> bool" where
  "head_rep st xs \<longleftrightarrow> sorted_wrt (>) xs \<and> (case me_pghead st of None \<Rightarrow> xs = [] | Some m \<Rightarrow> idl_rep m xs)"

fun rec_pages :: "free_record \<Rightarrow> u64 list" where
  "rec_pages (Inl rc) = []"
| "rec_pages (Inr (t, Inl rc)) = []"
| "rec_pages (Inr (t, Inr ys)) = ys"

text \<open>No page is listed twice, each record is in descending order, and the numbers are small enough for the
  32-bit counters.\<close>

definition recs_ok :: "u64 list \<Rightarrow> free_record list \<Rightarrow> bool" where
  "recs_ok xs recs \<longleftrightarrow> distinct (xs @ concat (map rec_pages recs)) \<and> (\<forall>r\<in>set recs. sorted_wrt (\<ge>) (rec_pages r)) \<and>
     length xs + length (concat (map rec_pages recs)) < 2 ^ 28"

lemma idl_of_rep: "length ys < 2 ^ 28 \<Longrightarrow> idl_rep (idl_of ys) ys"
  using idl_repI [of "length ys" ys "length ys" "[]"] by (simp add: idl_of_def)

lemma mop_len_rep: "head_rep st xs \<Longrightarrow> mop_len st = Some (length xs)"
  by (cases "me_pghead st") (auto simp: head_rep_def mop_len_def elim!: idl_repE simp: unat_small)

lemma sort_merge: "distinct (xs @ ys) \<Longrightarrow> sorted_wrt (>) (rev (sort (xs @ ys)) :: u64 list)"
  using strict_sorted_iff [of "sort (xs @ ys)"] by (simp add: sorted_wrt_rev)

definition same_txn :: "page_txn \<Rightarrow> page_txn \<Rightarrow> bool" where
  "same_txn st st' \<longleftrightarrow> mt_loose_pgs st' = mt_loose_pgs st \<and> mt_loose_count st' = mt_loose_count st \<and> mt_dirty_room st' = mt_dirty_room st \<and> mt_dirty_list st' = mt_dirty_list st \<and>
     mt_next_pgno st' = mt_next_pgno st \<and> mt_error st' = mt_error st"

lemma fetch_record_rep:
  assumes rep: "head_rep st xs" and ok: "recs_ok xs (Inr (t, Inr ys) # recs)"
  shows "\<exists>r. fetch_record env st lastid (Inr ys) = Some r \<and>
    (case r of Inl rc \<Rightarrow> rc = ENOMEM \<and> \<not> heap_ok env
     | Inr st' \<Rightarrow> head_rep st' (rev (sort (xs @ ys))) \<and> recs_ok (rev (sort (xs @ ys))) recs \<and> same_txn st st')"
proof -
  have d: "distinct (xs @ ys)" "sorted_wrt (\<ge>) ys" "length xs + length ys < 2 ^ 28" "sorted_wrt (>) xs"
    using ok rep by (auto simp: recs_ok_def head_rep_def)
  have sx: "sorted_wrt (\<ge>) xs" by (rule sorted_wrt_mono_rel [OF _ d(4)]) auto
  have l2: "idl_rep (idl_of ys) ys" using d(3) by (intro idl_of_rep) simp
  have rest: "recs_ok (rev (sort (xs @ ys))) recs" using ok by (auto simp: recs_ok_def)
  note new = sort_merge [OF d(1)]
  have nat: "unat (of_nat (length ys) :: u32) = length ys" using d(3) unfolding unat_of_nat by simp
  show ?thesis
  proof (cases "me_pghead st")
    case None
    then have xs: "xs = []" using rep by (simp add: head_rep_def)
    show ?thesis
    proof (cases "heap_ok env")
      case True
      obtain m where m: "mdb_midl_alloc True (heap_junk env) (length ys) = Some m" "idl_rep m []" "length m = length ys + 2"
        using mdb_midl_alloc_rep [of "length ys" "heap_junk env"] d(3) by auto
      obtain m' where "mdb_midl_xmerge m (idl_of ys) = Some m'" "idl_rep m' (rev (sort ([] @ ys)))"
        using mdb_midl_xmerge_rep [OF m(2) l2 _ d(2)] m(3) by auto
      then show ?thesis using None True m(1) xs new rest by (simp add: fetch_record_def head_rep_def same_txn_def)
    next
      case False
      then show ?thesis using None by (simp add: fetch_record_def mdb_midl_alloc_def)
    qed
  next
    case (Some mop)
    then have mop: "idl_rep mop xs" using rep by (simp add: head_rep_def)
    obtain m1 where m1: "mdb_midl_need True (heap_junk env) mop (of_nat (length ys)) = Some (m1, 0)" "idl_rep m1 xs" "length xs + length ys + 2 \<le> length m1"
      using mdb_midl_need_rep [OF mop, of "of_nat (length ys)" "heap_junk env"] nat d(3) by auto
    obtain m' where m': "mdb_midl_xmerge m1 (idl_of ys) = Some m'" "idl_rep m' (rev (sort (xs @ ys)))"
      using mdb_midl_xmerge_rep [OF m1(2) l2 sx d(2) m1(3)] by blast
    have full: "fetch_record env st lastid (Inr ys) = Some (Inr (st\<lparr>me_pghead := Some m', me_pglast := lastid\<rparr>))"
      if "mdb_midl_need (heap_ok env) (heap_junk env) mop (of_nat (length ys)) = Some (m1, 0)"
      using that Some m'(1) by (simp add: fetch_record_def)
    show ?thesis
    proof (cases "heap_ok env")
      case True
      then show ?thesis using full m1(1) m'(2) new rest by (simp add: head_rep_def same_txn_def)
    next
      case False
      have "mdb_midl_need False (heap_junk env) mop (of_nat (length ys)) = Some (m1, 0) \<or>
          mdb_midl_need False (heap_junk env) mop (of_nat (length ys)) = Some (mop, ENOMEM)"
        using mdb_midl_need_fail [OF mop, of "heap_junk env" "of_nat (length ys)"] m1(1) by auto
      then show ?thesis using False full m'(2) new rest Some by (auto simp: head_rep_def fetch_record_def same_txn_def)
    qed
  qed
qed

section \<open>The search\<close>

text \<open>A run of \<open>n2 + 1\<close> pages that ends at position \<open>i\<close> of the list.\<close>

definition run_at :: "u64 list \<Rightarrow> nat \<Rightarrow> nat \<Rightarrow> bool" where
  "run_at xs n2 i \<longleftrightarrow> n2 < i \<and> i \<le> length xs \<and> xs ! (i - 1 - n2) = xs ! (i - 1) + of_nat n2"

lemma free_scan_rep:
  assumes rep: "idl_rep mop xs"
  shows "n2 < i \<Longrightarrow> i \<le> length xs \<Longrightarrow> \<exists>r. free_scan mop n2 i = Some r \<and>
    (case r of None \<Rightarrow> \<forall>k\<le>i. \<not> run_at xs n2 k | Some (k, pgno) \<Rightarrow> run_at xs n2 k \<and> pgno = xs ! (k - 1))"
proof (induction i)
  case (Suc i)
  have at: "ids_at mop k = Some (xs ! (k - 1))" if "1 \<le> k" "k \<le> length xs" for k
    using rep that by (cases k) (auto simp: idl_rep_def ids_at_def peek_def nth_append)
  have a: "ids_at mop (Suc i) = Some (xs ! i)" "ids_at mop (Suc i - n2) = Some (xs ! (i - n2))"
    using at [of "Suc i"] at [of "Suc i - n2"] Suc.prems by auto
  show ?case
  proof (cases "xs ! (i - n2) = xs ! i + of_nat n2")
    case True
    then show ?thesis using a Suc.prems by (simp add: run_at_def)
  next
    case False
    then have no: "\<not> run_at xs n2 (Suc i)" by (simp add: run_at_def)
    show ?thesis
    proof (cases "n2 < i")
      case True
      obtain r where "free_scan mop n2 i = Some r"
          "case r of None \<Rightarrow> \<forall>k\<le>i. \<not> run_at xs n2 k | Some (k, pgno) \<Rightarrow> run_at xs n2 k \<and> pgno = xs ! (k - 1)"
        using Suc.IH True Suc.prems(2) by auto
      then show ?thesis using False True a no by (auto simp: le_Suc_eq split: option.splits)
    next
      case nt: False
      then have "\<forall>k\<le>Suc i. \<not> run_at xs n2 k" using no by (auto simp: le_Suc_eq run_at_def)
      then show ?thesis using False nt a by simp
    qed
  qed
qed simp

lemma scan_head_rep:
  assumes "head_rep st xs"
  shows "\<exists>t r. scan_head st n2 = Some (t, r) \<and> (case r of None \<Rightarrow> \<forall>k. \<not> run_at xs n2 k | Some (k, pgno) \<Rightarrow> run_at xs n2 k \<and> pgno = xs ! (k - 1))"
proof (cases "me_pghead st")
  case None
  then show ?thesis using assms mop_len_rep [OF assms] by (auto simp: scan_head_def head_rep_def run_at_def)
next
  case (Some mop)
  then have m: "idl_rep mop xs" using assms by (simp add: head_rep_def)
  show ?thesis
  proof (cases "n2 < length xs")
    case True
    obtain r where r: "free_scan mop n2 (length xs) = Some r"
        "case r of None \<Rightarrow> \<forall>k\<le>length xs. \<not> run_at xs n2 k | Some (k, pgno) \<Rightarrow> run_at xs n2 k \<and> pgno = xs ! (k - 1)"
      using free_scan_rep [OF m True order_refl] by blast
    then have "case r of None \<Rightarrow> \<forall>k. \<not> run_at xs n2 k | Some (k, pgno) \<Rightarrow> run_at xs n2 k \<and> pgno = xs ! (k - 1)"
      by (cases r) (auto simp: run_at_def)
    then show ?thesis using r(1) True Some mop_len_rep [OF assms] by (auto simp: scan_head_def)
  next
    case False
    then show ?thesis using Some mop_len_rep [OF assms] by (auto simp: scan_head_def run_at_def)
  qed
qed

text \<open>What the loop leaves: the list holds what it held and the pages of the records it read.\<close>

lemma refresh_same: "refresh env st oldest f l = (st', o', f') \<Longrightarrow> same_txn st st' \<and> me_pghead st' = me_pghead st"
  by (auto simp: refresh_def same_txn_def split: if_splits)

definition found_ok :: "nat \<Rightarrow> u64 list \<Rightarrow> found \<Rightarrow> bool" where
  "found_ok n2 zs r \<longleftrightarrow> (case r of In_List i pgno \<Rightarrow> run_at zs n2 i \<and> pgno = zs ! (i - 1) | At_End \<Rightarrow> \<forall>k. \<not> run_at zs n2 k | Failed rc \<Rightarrow> True)"

definition search_result :: "nat \<Rightarrow> page_txn \<Rightarrow> u64 list \<Rightarrow> free_record list \<Rightarrow> found \<Rightarrow> page_txn \<Rightarrow> bool" where
  "search_result n2 st xs recs r st' \<longleftrightarrow> (\<exists>zs k. head_rep st' zs \<and> same_txn st st' \<and> length zs < 2 ^ 28 \<and>
     set zs = set xs \<union> set (concat (map rec_pages (take k recs))) \<and>
     found_ok n2 zs r)"

lemma search_resultI0:
  "head_rep st' xs \<Longrightarrow> same_txn st st' \<Longrightarrow> recs_ok xs recs \<Longrightarrow> found_ok n2 xs r \<Longrightarrow>
   search_result n2 st xs recs r st'"
  unfolding search_result_def by (intro exI [of _ xs] exI [of _ 0]) (simp add: recs_ok_def)

lemma search_result_step:
  assumes "search_result n2 st1 (rev (sort (xs @ ys))) recs r st'" "same_txn st st1"
  shows "search_result n2 st xs (Inr (t, Inr ys) # recs) r st'"
proof -
  obtain zs k where z: "head_rep st' zs" "same_txn st1 st'" "length zs < 2 ^ 28" "set zs = set xs \<union> set ys \<union> set (concat (map rec_pages (take k recs)))"
      "found_ok n2 zs r"
    using assms(1) unfolding search_result_def by (auto simp only: set_rev set_sort set_append)
  have "same_txn st st'" using assms(2) z(2) by (simp add: same_txn_def)
  then show ?thesis unfolding search_result_def using z by (intro exI [of _ zs] exI [of _ "Suc k"]) auto
qed

lemma refresh_head: "refresh env st oldest f l = (st', o', f') \<Longrightarrow> head_rep st xs \<Longrightarrow> head_rep st' xs"
  by (auto simp: refresh_def head_rep_def split: if_splits)

lemma same_txn_trans: "same_txn a b \<Longrightarrow> same_txn b c \<Longrightarrow> same_txn a c"
  by (simp add: same_txn_def)

text \<open>One round of the loop ends the search or goes on to the next record.\<close>

lemma alloc_loop_round:
  assumes rep: "head_rep st xs" "recs_ok xs recs"
  shows "(\<exists>r st'. alloc_loop env n2 recs st retry oldest lastid found_old = Some (r, st') \<and> search_result n2 st xs recs r st') \<or>
    (\<exists>st1 o1 f1 retry'. (\<forall>k. \<not> run_at xs n2 k) \<and> same_txn st st1 \<and> head_rep st1 xs \<and> alloc_loop env n2 recs st retry oldest lastid found_old =
      (case recs of
         [] \<Rightarrow> Some (At_End, st1)
       | Inl rc # _ \<Rightarrow> Some (Failed rc, st1)
       | Inr (t, d) # recs' \<Rightarrow>
           (case refresh env st1 o1 f1 t of (st2, o2, f2) \<Rightarrow>
              if o2 \<le> t then Some (At_End, st2)
              else (case fetch_record env st2 t d of
                      None \<Rightarrow> None
                    | Some (Inl rc) \<Rightarrow> Some (Failed rc, st2)
                    | Some (Inr st') \<Rightarrow> alloc_loop env n2 recs' st' retry' o2 t f2))))"
proof -
  obtain t r where sc: "scan_head st n2 = Some (t, r)" "case r of None \<Rightarrow> \<forall>k. \<not> run_at xs n2 k | Some (k, pgno) \<Rightarrow> run_at xs n2 k \<and> pgno = xs ! (k - 1)"
    using scan_head_rep [OF rep(1)] by blast
  have refl: "same_txn st st" by (simp add: same_txn_def)
  obtain st1 o1 f1 where rf: "refresh env st oldest found_old (lastid + 1) = (st1, o1, f1)" by (cases "refresh env st oldest found_old (lastid + 1)")
  have st1: "same_txn st st1" "head_rep st1 xs" using refresh_same [OF rf] refresh_head [OF rf rep(1)] by auto
  have atend: "search_result n2 st xs recs At_End s" if "r = None" "same_txn st s" "head_rep s xs" for s
    using that rep(2) sc(2) by (intro search_resultI0) (auto simp: found_ok_def)
  show ?thesis
  proof (cases r)
    case (Some q)
    obtain k pgno where q: "q = (k, pgno)" by (cases q)
    have "alloc_loop env n2 recs st retry oldest lastid found_old = Some (In_List k pgno, st)"
      using sc(1) Some q by (subst alloc_loop.simps) simp
    moreover have "search_result n2 st xs recs (In_List k pgno) st"
      using rep refl sc(2) Some q by (intro search_resultI0) (auto simp: found_ok_def)
    ultimately show ?thesis by blast
  next
    case None
    consider "t \<and> retry - 1 < 0" | "\<not> (t \<and> retry - 1 < 0)" "o1 \<le> lastid + 1" | "\<not> (t \<and> retry - 1 < 0)" "\<not> o1 \<le> lastid + 1" by blast
    then show ?thesis
    proof cases
      case 1
      then have "alloc_loop env n2 recs st retry oldest lastid found_old = Some (At_End, st)"
        using sc(1) None by (subst alloc_loop.simps) simp
      then show ?thesis using atend [OF None refl rep(1)] by blast
    next
      case 2
      then have "alloc_loop env n2 recs st retry oldest lastid found_old = Some (At_End, st1)"
        using sc(1) None rf by (subst alloc_loop.simps) (simp only: Let_def option.case prod.case if_False if_True)
      then show ?thesis using atend [OF None st1] by blast
    next
      case 3
      then show ?thesis
        using sc None rf st1
        by (intro disjI2 exI [of _ st1] exI [of _ o1] exI [of _ f1] exI [of _ "if t then retry - 1 else retry"] conjI, (simp; fail), (simp; fail), (simp; fail))
          (subst alloc_loop.simps, simp only: Let_def option.case prod.case if_False)
    qed
  qed
qed

lemma alloc_loop_rep:
  assumes "head_rep st xs" "recs_ok xs recs"
  shows "\<exists>r st'. alloc_loop env n2 recs st retry oldest lastid found_old = Some (r, st') \<and> search_result n2 st xs recs r st'"
  using assms
proof (induction recs arbitrary: st xs retry oldest lastid found_old)
  case Nil
  then show ?case using alloc_loop_round [OF Nil, of env n2 retry oldest lastid found_old] by (fastforce intro: search_resultI0 simp: found_ok_def)
next
  case (Cons rc recs)
  show ?case
  proof (cases "\<exists>r st'. alloc_loop env n2 (rc # recs) st retry oldest lastid found_old = Some (r, st') \<and> search_result n2 st xs (rc # recs) r st'")
    case False
    then obtain st1 o1 f1 retry' where none: "\<forall>k. \<not> run_at xs n2 k" and st1: "same_txn st st1" "head_rep st1 xs"
      and eq: "alloc_loop env n2 (rc # recs) st retry oldest lastid found_old =
        (case rc of Inl e \<Rightarrow> Some (Failed e, st1)
         | Inr (t, d) \<Rightarrow>
             (case refresh env st1 o1 f1 t of (st2, o2, f2) \<Rightarrow>
                if o2 \<le> t then Some (At_End, st2)
                else (case fetch_record env st2 t d of
                        None \<Rightarrow> None
                      | Some (Inl rc) \<Rightarrow> Some (Failed rc, st2)
                      | Some (Inr st') \<Rightarrow> alloc_loop env n2 recs st' retry' o2 t f2)))"
      using alloc_loop_round [OF Cons.prems, of env n2 retry oldest lastid found_old] by auto
    have fin: "search_result n2 st xs (rc # recs) r s" if "same_txn st s" "head_rep s xs" "\<forall>i p. r \<noteq> In_List i p" for s r
      using that none Cons.prems(2) by (intro search_resultI0) (auto simp: found_ok_def split: found.splits)
    show ?thesis
    proof (cases rc)
      case (Inl e)
      then show ?thesis using eq fin [OF st1, of "Failed e"] by simp
    next
      case (Inr q)
      obtain t d where q: "rc = Inr (t, d)" using Inr by (cases q) simp
      obtain st2 o2 f2 where rf: "refresh env st1 o1 f1 t = (st2, o2, f2)" by (cases "refresh env st1 o1 f1 t")
      have st2: "same_txn st st2" "head_rep st2 xs" using refresh_same [OF rf] same_txn_trans [OF st1(1)] refresh_head [OF rf st1(2)] by auto
      show ?thesis
      proof (cases "o2 \<le> t")
        case True
        then show ?thesis using eq q rf fin [OF st2, of At_End] by simp
      next
        case nle: False
        show ?thesis
        proof (cases d)
          case (Inl e)
          then show ?thesis using eq q rf nle fin [OF st2, of "Failed e"] by (simp add: fetch_record_def)
        next
          case data: (Inr ys)
          obtain r where r: "fetch_record env st2 t d = Some r" "case r of Inl rc \<Rightarrow> rc = ENOMEM \<and> \<not> heap_ok env
              | Inr st' \<Rightarrow> head_rep st' (rev (sort (xs @ ys))) \<and> recs_ok (rev (sort (xs @ ys))) recs \<and> same_txn st2 st'"
            using fetch_record_rep [OF st2(2), of t ys recs env t] Cons.prems(2) q data by blast
          show ?thesis
          proof (cases r)
            case (Inl e)
            then show ?thesis using eq q rf nle r(1) fin [OF st2, of "Failed e"] by simp
          next
            case (Inr st3)
            then have st3: "head_rep st3 (rev (sort (xs @ ys)))" "recs_ok (rev (sort (xs @ ys))) recs" "same_txn st2 st3"
              using r(2) by auto
            obtain r' st' where "alloc_loop env n2 recs st3 retry' o2 t f2 = Some (r', st')" "search_result n2 st3 (rev (sort (xs @ ys))) recs r' st'"
              using Cons.IH [OF st3(1,2)] by blast
            moreover have "same_txn st st3" using st2(1) st3(3) by (simp add: same_txn_def)
            ultimately show ?thesis using eq q data rf nle r(1) Inr search_result_step by auto
          qed
        qed
      qed
    qed
  qed simp
qed

section \<open>Taking a run out of the list\<close>

lemma stragglers_eq:
  "G \<noteq> [] \<Longrightarrow> \<exists>J. stragglers (h # c # A @ G @ B @ junk) (length A + length B) (length A + length G) (length A) = Some (h # c # A @ B @ J) \<and>
     length J = length G + length junk"
proof (induction B arbitrary: A G)
  case Nil
  show ?case by (subst stragglers.simps) simp
next
  case (Cons b B)
  obtain g G' where G: "G = g # G'" using Cons.prems by (cases G) auto
  have at: "ids_at (h # c # A @ G @ (b # B) @ junk) (length A + length G + 1) = Some b"
    by (simp add: ids_at_def peek_def nth_append)
  have put: "ids_put (h # c # A @ G @ (b # B) @ junk) (length A + 1) b = Some (h # c # (A @ [b]) @ (G' @ [b]) @ B @ junk)"
    by (simp add: ids_put_def poke_def list_update_append G)
  obtain J where J: "stragglers (h # c # (A @ [b]) @ (G' @ [b]) @ B @ junk) (length (A @ [b]) + length B) (length (A @ [b]) + length (G' @ [b])) (length (A @ [b]))
      = Some (h # c # (A @ [b]) @ B @ J)" "length J = length (G' @ [b]) + length junk"
    using Cons.IH [of "G' @ [b]" "A @ [b]"] by blast
  have "stragglers (h # c # A @ G @ (b # B) @ junk) (length A + length (b # B)) (length A + length G) (length A) = Some (h # c # (A @ [b]) @ B @ J)"
    by (subst stragglers.simps) (use at put J(1) in \<open>simp add: G\<close>)
  then show ?case using J(2) G by (intro exI [of _ J]) simp
qed

text \<open>In a strictly descending list of page numbers a position further to the left is larger by at least the
  distance, so a run with the right ends is a run throughout, and it does not wrap.\<close>

lemma desc_gap:
  fixes zs :: "u64 list"
  assumes "sorted_wrt (>) zs" "b < length zs"
  shows "d \<le> b \<Longrightarrow> unat (zs ! b) + d \<le> unat (zs ! (b - d))"
proof (induction d)
  case (Suc d)
  have "zs ! (b - Suc d) > zs ! (b - d)" using assms Suc.prems by (intro sorted_wrt_nth_less [of "(>)"]) auto
  then have "unat (zs ! (b - d)) < unat (zs ! (b - Suc d))" by (simp add: word_less_nat_alt)
  then show ?case using Suc by simp
qed simp

lemma run_pages:
  assumes srt: "sorted_wrt (>) zs" and run: "run_at zs n2 i" and n2: "n2 < 2 ^ 32" and k: "k \<le> n2"
  shows "zs ! (i - 1 - k) = zs ! (i - 1) + of_nat k" "unat (zs ! (i - 1)) + k < 2 ^ 64"
proof -
  let ?p = "zs ! (i - 1)"
  have b: "n2 \<le> i - 1" "i - 1 < length zs" "zs ! (i - 1 - n2) = ?p + of_nat n2" using run by (auto simp: run_at_def)
  have le: "unat ?p + n2 \<le> unat (?p + of_nat n2)" using desc_gap [OF srt b(2,1)] b(3) by simp
  have "unat (?p + of_nat n2) < 2 ^ LENGTH(64)" by (rule unsigned_less)
  then have lt: "unat (?p + of_nat n2) < 2 ^ 64" by simp
  then show lt64: "unat ?p + k < 2 ^ 64" using le k by simp
  have "unat (?p + of_nat n2) = unat ?p + n2" using le lt n2 by (simp add: unat_word_ariths unat_small)
  then have top: "unat (zs ! (i - 1 - n2)) = unat ?p + n2" by (simp only: b(3))
  have lo: "unat ?p + k \<le> unat (zs ! (i - 1 - k))" using desc_gap [OF srt b(2), of k] k b(1) by simp
  have "unat (zs ! (i - 1 - k)) + (n2 - k) \<le> unat (zs ! (i - 1 - k - (n2 - k)))"
    by (rule desc_gap [OF srt]) (use b k in auto)
  moreover have "i - 1 - k - (n2 - k) = i - 1 - n2" using k by simp
  ultimately have "unat (zs ! (i - 1 - k)) = unat ?p + k" using lo top k by simp
  then show "zs ! (i - 1 - k) = ?p + of_nat k" using lt64 k n2
    by (simp add: word_unat_eq_iff unat_word_ariths unat_small)
qed

definition page_run :: "u64 \<Rightarrow> nat \<Rightarrow> u64 set" where
  "page_run p num = (\<lambda>k. p + of_nat k) ` {..<num}"

lemma run_set:
  assumes srt: "sorted_wrt (>) zs" and run: "run_at zs (num - 1) i" and num: "0 < num" "num < 2 ^ 32"
  shows "set (take num (drop (i - num) zs)) = page_run (zs ! (i - 1)) num"
proof -
  have i: "num \<le> i" "i \<le> length zs" using run num by (auto simp: run_at_def)
  have "set (take num (drop (i - num) zs)) = (\<lambda>k. zs ! (i - num + k)) ` {..<num}"
    using i nth_image [of num "drop (i - num) zs"] by (simp add: lessThan_atLeast0 del: nth_image)
  also have "\<dots> = (\<lambda>k. zs ! (i - 1 - k)) ` {..<num}"
  proof -
    have "x \<in> (\<lambda>k. num - 1 - k) ` {..<num}" if "x < num" for x
      using that by (intro image_eqI [of _ _ "num - 1 - x"]) auto
    then have "(\<lambda>k. num - 1 - k) ` {..<num} = {..<num}" using num by auto
    then have "(\<lambda>k. zs ! (i - num + k)) ` {..<num} = (\<lambda>k. zs ! (i - num + k)) ` (\<lambda>k. num - 1 - k) ` {..<num}" by simp
    also have "\<dots> = (\<lambda>k. zs ! (i - 1 - k)) ` {..<num}" unfolding image_image using i
      by (intro image_cong refl arg_cong [where f = "(!) zs"]) auto
    finally show ?thesis .
  qed
  also have "\<dots> = page_run (zs ! (i - 1)) num" unfolding page_run_def
  proof (intro image_cong refl)
    fix k assume "k \<in> {..<num}"
    then have "k \<le> num - 1" "num - 1 < 2 ^ 32" using num(2) by auto
    then show "zs ! (i - 1 - k) = zs ! (i - 1) + of_nat k" by (rule run_pages(1) [OF srt run, rotated])
  qed
  finally show ?thesis .
qed


lemma split_run:
  assumes "num \<le> i" "i \<le> length zs"
  obtains A G B where "zs = A @ G @ B" "length G = num" "length A = i - num" "take (i - num) zs = A" "take num (drop (i - num) zs) = G" "drop i zs = B"
proof -
  have "drop (i - num) zs = take num (drop (i - num) zs) @ drop i zs"
    using append_take_drop_id [of num "drop (i - num) zs"] assms(1) by simp
  then have "zs = take (i - num) zs @ take num (drop (i - num) zs) @ drop i zs"
    using append_take_drop_id [of "i - num" zs] by simp
  then show thesis by (rule that) (use assms in auto)
qed

text \<open>The list without the run; the capacity of the array is unchanged.\<close>

lemma take_run_rep:
  assumes rep: "head_rep st zs" and run: "run_at zs (num - 1) i" and num: "0 < num"
  shows "\<exists>mop m1 m2. me_pghead st = Some mop \<and> ids_put mop 0 (of_nat (length zs - num)) = Some m1 \<and>
    stragglers m1 (length zs - num) i (i - num) = Some m2 \<and> head_rep (st\<lparr>me_pghead := Some m2\<rparr>) (take (i - num) zs @ drop i zs)"
proof -
  have i: "num \<le> i" "i \<le> length zs" using run num by (auto simp: run_at_def)
  obtain mop where mop: "me_pghead st = Some mop" "idl_rep mop zs" and srt: "sorted_wrt (>) zs"
    using rep i num by (cases "me_pghead st") (auto simp: head_rep_def)
  obtain junk where m: "mop = of_nat (length zs + length junk) # of_nat (length zs) # zs @ junk" "length zs + length junk < 2 ^ 31"
    using mop(2) by (auto simp: idl_rep_def)
  obtain A G B where s: "zs = A @ G @ B" "length G = num" "length A = i - num" "take (i - num) zs = A" "drop i zs = B"
    using split_run [OF i] by blast
  let ?a = "of_nat (length zs + length junk) :: u64" and ?c = "of_nat (length zs - num) :: u64"
  have put: "ids_put mop 0 ?c = Some (?a # ?c # A @ G @ B @ junk)" by (simp add: m(1) s(1) ids_put_def poke_def)
  have "G \<noteq> []" using s(2) num by auto
  moreover have len: "length A + length B = length zs - num" "length A + length G = i" using s(1-3) i by auto
  ultimately obtain J where J: "stragglers (?a # ?c # A @ G @ B @ junk) (length zs - num) i (i - num) = Some (?a # ?c # A @ B @ J)" "length J = num + length junk"
    using stragglers_eq [of G ?a ?c A B junk] s(2,3) by auto
  have "sorted_wrt (>) (A @ B)" using srt s(1) by (auto simp: sorted_wrt_append)
  moreover have "idl_rep (?a # ?c # (A @ B) @ J) (A @ B)"
    using len(1) i J(2) m(2) by (intro idl_repI) auto
  ultimately have "head_rep (st\<lparr>me_pghead := Some (?a # ?c # A @ B @ J)\<rparr>) (take (i - num) zs @ drop i zs)" by (simp add: head_rep_def s(4,5))
  then show ?thesis using mop(1) put J(1) by blast
qed

lemma without_run:
  assumes "distinct zs" "num \<le> i" "i \<le> length zs"
  shows "set (take (i - num) zs @ drop i zs) = set zs - set (take num (drop (i - num) zs))"
    "set (take num (drop (i - num) zs)) \<subseteq> set zs"
proof -
  obtain A G B where s: "zs = A @ G @ B" "take (i - num) zs = A" "take num (drop (i - num) zs) = G" "drop i zs = B"
    using split_run [OF assms(2,3)] by blast
  show "set (take (i - num) zs @ drop i zs) = set zs - set (take num (drop (i - num) zs))" "set (take num (drop (i - num) zs)) \<subseteq> set zs"
    unfolding s(2-4) using assms(1) s(1) by auto
qed

section \<open>The dirty pages\<close>

text \<open>The room left is what the bound on dirty pages leaves, and the list is sorted unless pages are written in
  place.\<close>

definition dirty_ok :: "page_env \<Rightarrow> page_txn \<Rightarrow> mdb_id2 list \<Rightarrow> bool" where
  "dirty_ok env st ds \<longleftrightarrow> id2l_rep (mt_dirty_list st) ds \<and> length ds + mt_dirty_room st \<le> MDB_IDL_UM_MAX \<and>
     length ds + mt_dirty_room st < length (mt_dirty_list st) \<and> (writemap env \<or> sorted_wrt (\<lambda>x y. mid x < mid y) ds)"

lemma mdb_mid2l_append_rep:
  assumes "id2l_rep ids xs" "length xs < MDB_IDL_UM_MAX" "length xs + 2 \<le> length ids"
  shows "\<exists>ids'. mdb_mid2l_append ids i = Some (ids', 0) \<and> id2l_rep ids' (xs @ [i]) \<and> length ids' = length ids"
proof -
  obtain h junk where m: "ids = h # xs @ junk" "mid h = of_nat (length xs)" using assms(1) by (auto simp: id2l_rep_def)
  obtain j js where js: "junk = j # js" using assms(3) m(1) by (cases junk) auto
  have "\<not> mid h \<ge> of_nat MDB_IDL_UM_MAX" unfolding m(2) using assms(2) by (subst le_small) auto
  moreover have u: "unat (mid h + 1) = length xs + 1"
    using unat_small(1) [of "length xs + 1"] assms(2) m(2) by (simp add: add.commute)
  moreover have "poke (h\<lparr>mid := mid h + 1\<rparr> # xs @ j # js) (length xs + 1) i = Some (h\<lparr>mid := mid h + 1\<rparr> # (xs @ [i]) @ js)"
    by (simp add: poke_def list_update_append)
  moreover have "id2l_rep (h\<lparr>mid := mid h + 1\<rparr> # (xs @ [i]) @ js) (xs @ [i])" using assms(2) m(2) by (auto simp: id2l_rep_def)
  ultimately show ?thesis by (simp add: mdb_mid2l_append_def m(1) js peek_def poke_def)
qed

lemma distinct_mids: "sorted_wrt (\<lambda>x y. mid x < mid y) ds \<Longrightarrow> distinct ds"
  by (induction ds) auto

lemma mdb_page_dirty_rep:
  assumes ok: "dirty_ok env st ds" and room: "0 < mt_dirty_room st" and new: "p \<notin> mid ` set ds"
  shows "\<exists>dl ds'. mdb_page_dirty env st p np = Some (st\<lparr>mt_dirty_list := dl, mt_dirty_room := mt_dirty_room st - 1\<rparr>) \<and>
    dirty_ok env (st\<lparr>mt_dirty_list := dl, mt_dirty_room := mt_dirty_room st - 1\<rparr>) ds' \<and> set ds' = insert \<lparr>mid = p, mptr = np\<rparr> (set ds)"
proof -
  note d = ok [unfolded dirty_ok_def]
  have b: "length ds < MDB_IDL_UM_MAX" "length ds + 2 \<le> length (mt_dirty_list st)" using d room by auto
  show ?thesis
  proof (cases "writemap env")
    case True
    obtain dl where "mdb_mid2l_append (mt_dirty_list st) \<lparr>mid = p, mptr = np\<rparr> = Some (dl, 0)" "id2l_rep dl (ds @ [\<lparr>mid = p, mptr = np\<rparr>])"
        "length dl = length (mt_dirty_list st)"
      using mdb_mid2l_append_rep [OF _ b] d by blast
    then show ?thesis using d room True
      by (intro exI [of _ dl] exI [of _ "ds @ [\<lparr>mid = p, mptr = np\<rparr>]"]) (auto simp: mdb_page_dirty_def dirty_ok_def)
  next
    case False
    then have srt: "sorted_wrt (\<lambda>x y. mid x < mid y) ds" using d by simp
    obtain dl ds' where i: "mdb_mid2l_insert (mt_dirty_list st) \<lparr>mid = p, mptr = np\<rparr> = Some (dl, 0)" "id2l_rep dl ds'"
        "length dl = length (mt_dirty_list st)" "sorted_wrt (\<lambda>x y. mid x < mid y) ds'" "set ds' = insert \<lparr>mid = p, mptr = np\<rparr> (set ds)"
      using mdb_mid2l_insert_rep(3) [of "mt_dirty_list st" ds "\<lparr>mid = p, mptr = np\<rparr>", OF _ srt _ b] d new by (metis mdb_id2.select_convs(1))
    have "\<lparr>mid = p, mptr = np\<rparr> \<notin> set ds" using new by (auto simp: image_iff)
    then have "length ds' = Suc (length ds)"
      using distinct_card [OF distinct_mids [OF srt]] distinct_card [OF distinct_mids [OF i(4)]] i(5) by simp
    then have "dirty_ok env (st\<lparr>mt_dirty_list := dl, mt_dirty_room := mt_dirty_room st - 1\<rparr>) ds'"
      using i(2-4) d room by (simp add: dirty_ok_def)
    moreover have "mdb_page_dirty env st p np = Some (st\<lparr>mt_dirty_list := dl, mt_dirty_room := mt_dirty_room st - 1\<rparr>)"
      using i(1) False by (simp add: mdb_page_dirty_def)
    ultimately show ?thesis using i(5) by blast
  qed
qed

section \<open>The allocation\<close>

text \<open>A run among the listed pages is found by the comparison the search makes.\<close>

lemma run_at_complete:
  assumes srt: "sorted_wrt (>) zs" and sub: "page_run q num \<subseteq> set zs" and wrap: "unat q + num \<le> 2 ^ 64" and num: "0 < num"
  shows "\<exists>k. run_at zs (num - 1) k"
proof -
  have mem: "q + of_nat k \<in> set zs" if "k < num" for k using sub that by (auto simp: page_run_def)
  have val: "unat (q + of_nat k) = unat q + k" if "k < num" for k
    using wrap that by (simp add: unat_word_ariths unat_of_nat)
  have mono: "zs ! j < zs ! i" if "i < j" "j < length zs" for i j using sorted_wrt_nth_less [OF srt] that by blast
  obtain b where b: "b < length zs" "zs ! b = q" using mem [of 0] num by (auto simp: in_set_conv_nth)
  have run: "k \<le> b \<and> zs ! (b - k) = q + of_nat k" if "k < num" for k
    using that
  proof (induction k)
    case (Suc k)
    then have IH: "k \<le> b" "zs ! (b - k) = q + of_nat k" by auto
    obtain c where c: "c < length zs" "zs ! c = q + of_nat (Suc k)" using mem [OF Suc.prems] by (auto simp: in_set_conv_nth)
    have "zs ! (b - k) < zs ! c" using val [of k] val [of "Suc k"] Suc.prems by (simp only: IH(2) c(2) word_less_nat_alt)
    then have lt: "c < b - k" using mono [of "b - k" c] c(1) by (metis less_asym linorder_neqE_nat)
    have "zs ! (b - k) < zs ! (b - Suc k)" using lt b(1) by (intro mono) auto
    then have "zs ! c \<le> zs ! (b - Suc k)"
      using val [of k] val [of "Suc k"] Suc.prems by (simp only: IH(2) c(2) word_less_nat_alt word_le_nat_alt)
    then have "\<not> c < b - Suc k" using mono [of c "b - Suc k"] b(1) by (meson diff_le_self leD le_less_trans)
    then have "c = b - Suc k" using lt by simp
    then show ?case using c(2) lt by simp
  qed (simp add: b)
  have "run_at zs (num - 1) (Suc b)" using run [of "num - 1"] num b by (auto simp: run_at_def)
  then show ?thesis ..
qed

text \<open>What a successful allocation leaves, over the pages \<open>zs\<close> that were listed when the search ended.\<close>

definition allocated :: "page_env \<Rightarrow> page_txn \<Rightarrow> u64 list \<Rightarrow> mdb_id2 list \<Rightarrow> nat \<Rightarrow> u64 \<Rightarrow> page_txn \<Rightarrow> bool" where
  "allocated env st zs ds num p st' \<longleftrightarrow>
     mt_error st' = mt_error st \<and> mt_loose_pgs st' = mt_loose_pgs st \<and> Suc (mt_dirty_room st') = mt_dirty_room st \<and>
     (\<exists>ds' np. dirty_ok env st' ds' \<and> set ds' = insert \<lparr>mid = p, mptr = np\<rparr> (set ds)) \<and>
     (page_run p num \<subseteq> set zs \<and> mt_next_pgno st' = mt_next_pgno st \<and> (\<exists>ws. head_rep st' ws \<and> set ws = set zs - page_run p num)
      \<or> p = mt_next_pgno st \<and> mt_next_pgno st' = p + of_nat num \<and> p + of_nat num < me_maxpg env \<and> head_rep st' zs \<and>
        (\<forall>q. unat q + num \<le> 2 ^ 64 \<longrightarrow> \<not> page_run q num \<subseteq> set zs))"

definition not_allocated :: "page_txn \<Rightarrow> u64 list \<Rightarrow> page_txn \<Rightarrow> bool" where
  "not_allocated st zs st' \<longleftrightarrow> mt_error st' \<and> head_rep st' zs \<and> mt_next_pgno st' = mt_next_pgno st \<and> mt_loose_pgs st' = mt_loose_pgs st \<and>
     mt_dirty_list st' = mt_dirty_list st \<and> mt_dirty_room st' = mt_dirty_room st"

lemma take_pages_rep:
  assumes rep: "head_rep st zs" and same: "same_txn st0 st" and num: "0 < num" "num < 2 ^ 32"
    and dirty: "dirty_ok env st0 ds" "0 < mt_dirty_room st0" "p \<notin> mid ` set ds"
    and found: "run_at zs (num - 1) i \<and> p = zs ! (i - 1) \<or>
      i = 0 \<and> p = mt_next_pgno st \<and> p + of_nat num < me_maxpg env \<and> (\<forall>k. \<not> run_at zs (num - 1) k)"
  shows "\<exists>res st'. take_pages env st num i p = Some (res, st') \<and>
    (case res of Inl rc \<Rightarrow> rc = ENOMEM \<and> not_allocated st0 zs st' | Inr q \<Rightarrow> q = p \<and> allocated env st0 zs ds num p st')"
proof (cases "if writemap env then Some (me_map env + me_psize env * unat p) else page_addr env")
  case None
  then show ?thesis using rep same by (auto simp: take_pages_def fail_def not_allocated_def head_rep_def same_txn_def)
next
  case (Some np)
  have srt: "sorted_wrt (>) zs" using rep by (simp add: head_rep_def)
  have d: "dirty_ok env st ds" "0 < mt_dirty_room st" using dirty same by (auto simp: dirty_ok_def same_txn_def)
  have tp: "take_pages env st num i p = do {
          st \<leftarrow> (if i \<noteq> 0 then do {
                   mop \<leftarrow> me_pghead st;
                   n \<leftarrow> mop_len st;
                   mop \<leftarrow> ids_put mop 0 (of_nat (n - num));
                   mop \<leftarrow> stragglers mop (n - num) i (i - num);
                   Some (st\<lparr>me_pghead := Some mop\<rparr>)
                 } else Some (st\<lparr>mt_next_pgno := p + of_nat num\<rparr>));
          st \<leftarrow> mdb_page_dirty env st p np;
          Some (Inr p, st)
        }" by (simp only: take_pages_def Some option.case)
  obtain st1 where st1: "take_pages env st num i p = do { st \<leftarrow> mdb_page_dirty env st1 p np; Some (Inr p, st) }"
    "mt_dirty_list st1 = mt_dirty_list st" "mt_dirty_room st1 = mt_dirty_room st" "mt_error st1 = mt_error st" "mt_loose_pgs st1 = mt_loose_pgs st"
    "page_run p num \<subseteq> set zs \<and> mt_next_pgno st1 = mt_next_pgno st \<and> (\<exists>ws. head_rep st1 ws \<and> set ws = set zs - page_run p num)
      \<or> p = mt_next_pgno st \<and> mt_next_pgno st1 = p + of_nat num \<and> p + of_nat num < me_maxpg env \<and> head_rep st1 zs \<and> (\<forall>k. \<not> run_at zs (num - 1) k)"
    using found
  proof (elim disjE conjE)
    assume run: "run_at zs (num - 1) i" and p: "p = zs ! (i - 1)"
    have i: "num \<le> i" "i \<le> length zs" using run num by (auto simp: run_at_def)
    obtain mop m1 m2 where m: "me_pghead st = Some mop" "ids_put mop 0 (of_nat (length zs - num)) = Some m1"
      "stragglers m1 (length zs - num) i (i - num) = Some m2" "head_rep (st\<lparr>me_pghead := Some m2\<rparr>) (take (i - num) zs @ drop i zs)"
      using take_run_rep [OF rep run num(1)] by blast
    have "distinct zs" using srt by (induction zs) auto
    note w = without_run [OF this i, unfolded run_set [OF srt run num], folded p]
    show thesis
    proof (rule that)
      show "take_pages env st num i p = do { st \<leftarrow> mdb_page_dirty env (st\<lparr>me_pghead := Some m2\<rparr>) p np; Some (Inr p, st) }"
        using m(1-3) i num mop_len_rep [OF rep] by (simp add: tp)
      show "page_run p num \<subseteq> set zs \<and> mt_next_pgno (st\<lparr>me_pghead := Some m2\<rparr>) = mt_next_pgno st \<and> (\<exists>ws. head_rep (st\<lparr>me_pghead := Some m2\<rparr>) ws \<and> set ws = set zs - page_run p num) \<or>
        p = mt_next_pgno st \<and> mt_next_pgno (st\<lparr>me_pghead := Some m2\<rparr>) = p + of_nat num \<and> p + of_nat num < me_maxpg env \<and> head_rep (st\<lparr>me_pghead := Some m2\<rparr>) zs \<and> (\<forall>k. \<not> run_at zs (num - 1) k)"
        using w m(4) by auto
    qed simp_all
  next
    assume new: "i = 0" "p = mt_next_pgno st" "p + of_nat num < me_maxpg env" "\<forall>k. \<not> run_at zs (num - 1) k"
    show thesis
    proof (rule that)
      show "take_pages env st num i p = do { st \<leftarrow> mdb_page_dirty env (st\<lparr>mt_next_pgno := p + of_nat num\<rparr>) p np; Some (Inr p, st) }"
        using tp new(1) by simp
    qed (use new rep in \<open>auto simp: head_rep_def\<close>)
  qed
  have "dirty_ok env st1 ds" using d(1) st1(2,3) by (simp add: dirty_ok_def)
  from mdb_page_dirty_rep [OF this _ dirty(3), of np] d(2)
  obtain dl ds' where dd: "mdb_page_dirty env st1 p np = Some (st1\<lparr>mt_dirty_list := dl, mt_dirty_room := mt_dirty_room st1 - 1\<rparr>)"
    "dirty_ok env (st1\<lparr>mt_dirty_list := dl, mt_dirty_room := mt_dirty_room st1 - 1\<rparr>) ds'" "set ds' = insert \<lparr>mid = p, mptr = np\<rparr> (set ds)"
    using st1(3) by auto
  let ?st' = "st1\<lparr>mt_dirty_list := dl, mt_dirty_room := mt_dirty_room st1 - 1\<rparr>"
  have hr: "head_rep ?st' ws = head_rep st1 ws" for ws by (simp add: head_rep_def)
  have norun: "\<forall>q. unat q + num \<le> 2 ^ 64 \<longrightarrow> \<not> page_run q num \<subseteq> set zs" if "\<forall>k. \<not> run_at zs (num - 1) k"
    using run_at_complete [OF srt _ _ num(1)] that by blast
  have "allocated env st0 zs ds num p ?st'"
    unfolding allocated_def hr using dd(2,3) st1(3-6) same d(2) norun by (auto simp: same_txn_def)
  then show ?thesis using st1(1) dd(1) by simp
qed

lemma alloc_pages_rep:
  assumes rep: "head_rep st xs" and recs: "recs_ok xs (from_last (me_pglast st) recs)" and num: "0 < num" "num < 2 ^ 32"
    and dirty: "dirty_ok env st ds"
    and fresh: "mid ` set ds \<inter> (insert (mt_next_pgno st) (set xs) \<union> set (concat (map rec_pages (from_last (me_pglast st) recs)))) = {}"
  shows "\<exists>res st' zs k. alloc_pages env recs st num = Some (res, st') \<and>
    set zs = set xs \<union> set (concat (map rec_pages (take k (from_last (me_pglast st) recs)))) \<and>
    (case res of Inl rc \<Rightarrow> not_allocated st zs st' | Inr p \<Rightarrow> allocated env st zs ds num p st')"
proof (cases "mt_dirty_room st = 0")
  case True
  then show ?thesis using rep by (intro exI [of _ "Inl MDB_TXN_FULL"] exI [of _ "st\<lparr>mt_error := True\<rparr>"] exI [of _ xs] exI [of _ 0])
    (simp add: alloc_pages_def fail_def not_allocated_def head_rep_def)
next
  case False
  let ?recs = "from_last (me_pglast st) recs"
  obtain r st1 where r: "alloc_loop env (num - 1) ?recs st (int num * 60) (me_pgoldest st) (me_pglast st) False = Some (r, st1)"
    "search_result (num - 1) st xs ?recs r st1"
    using alloc_loop_rep [OF rep recs] by blast
  obtain zs k where z: "head_rep st1 zs" "same_txn st st1" "set zs = set xs \<union> set (concat (map rec_pages (take k ?recs)))" "found_ok (num - 1) zs r"
    using r(2) unfolding search_result_def by blast
  have "set (concat (map rec_pages (take k ?recs))) \<subseteq> set (concat (map rec_pages ?recs))" by (auto dest: in_set_takeD)
  then have zs: "mid ` set ds \<inter> insert (mt_next_pgno st) (set zs) = {}" using fresh z(3) by blast
  have room: "0 < mt_dirty_room st" using False by simp
  have eq: "alloc_pages env recs st num = (case r of
           Failed rc \<Rightarrow> fail st1 rc
         | In_List i pgno \<Rightarrow> take_pages env st1 num i pgno
         | At_End \<Rightarrow>
             if mt_next_pgno st1 + of_nat num \<ge> me_maxpg env then fail st1 MDB_MAP_FULL
             else take_pages env st1 num 0 (mt_next_pgno st1))"
    using False r(1) by (simp add: alloc_pages_def)
  have fl: "fail st1 rc = Some (Inl rc, st1\<lparr>mt_error := True\<rparr>) \<and> not_allocated st zs (st1\<lparr>mt_error := True\<rparr>)" for rc
    using z(1,2) by (simp add: fail_def not_allocated_def head_rep_def same_txn_def)
  note tk = take_pages_rep [OF z(1,2) num dirty room]
  have "\<exists>res st'. alloc_pages env recs st num = Some (res, st') \<and>
    (case res of Inl rc \<Rightarrow> not_allocated st zs st' | Inr p \<Rightarrow> allocated env st zs ds num p st')"
  proof (cases r)
    case (In_List i p)
    have run: "run_at zs (num - 1) i" "p = zs ! (i - 1)" using z(4) In_List by (auto simp: found_ok_def)
    then have "i - 1 < length zs" by (auto simp: run_at_def)
    then have "p \<in> set zs" using run(2) by simp
    then have "p \<notin> mid ` set ds" using zs by blast
    from tk [OF this, of i] run show ?thesis unfolding eq In_List by (fastforce split: sum.splits)
  next
    case At_End
    have nx: "mt_next_pgno st1 = mt_next_pgno st" using z(2) by (simp add: same_txn_def)
    show ?thesis
    proof (cases "mt_next_pgno st1 + of_nat num \<ge> me_maxpg env")
      case True
      then show ?thesis using fl by (auto simp: eq At_End)
    next
      case nle: False
      have "mt_next_pgno st1 \<notin> mid ` set ds" using zs nx by blast
      from tk [OF this, of 0] nle z(4) show ?thesis unfolding eq At_End by (fastforce simp: found_ok_def split: sum.splits)
    qed
  next
    case (Failed rc)
    then show ?thesis using fl by (auto simp: eq)
  qed
  then show ?thesis using z(3) by blast
qed


definition sample_env :: page_env where
  "sample_env = \<lparr>me_maxpg = 100, writemap = False, me_map = 0, me_psize = 4096, find_oldest = 9, heap_ok = True, heap_junk = 0, page_addr = Some 77\<rparr>"

definition sample_txn :: page_txn where
  "sample_txn = \<lparr>mt_loose_pgs = [], mt_loose_count = 0, mt_dirty_room = 2,
     mt_dirty_list = [\<lparr>mid = 1, mptr = 0\<rparr>, \<lparr>mid = 12, mptr = 5\<rparr>, \<lparr>mid = 0, mptr = 0\<rparr>, \<lparr>mid = 0, mptr = 0\<rparr>],
     mt_next_pgno = 20, mt_error = False, me_pghead = Some (idl_of [9, 5, 4]), me_pglast = 2, me_pgoldest = 6\<rparr>"


end
