(* ===== verification/Lmdb_Cursor.thy ===== *)
theory Lmdb_Cursor
  imports Lmdb_Page Midl
begin

text \<open>
  Reading the embedded database: \<^verbatim>\<open>src/liblmdb/mdb.c\<close> from \<^verbatim>\<open>mdb_cursor_pop\<close> to \<^verbatim>\<open>mdb_cursor_get\<close>. A page is
  looked up in the dirty lists of the transaction and its parents or in the map, the search descends from
  the root of the tree to a leaf and leaves its path on the stack of the cursor, and the cursor moves to
  sibling pages along that path. Memory is a function from addresses to the objects there; results are
  error numbers as in the code, with what was stored through the key and data pointers.

  A database with sorted duplicates (\<^verbatim>\<open>MDB_DUPSORT\<close>) carries a second cursor for the duplicates of a key;
  it is left out, and a cursor here has none (\<^verbatim>\<open>mc_xcursor\<close> is null). The searches of writers, which copy the
  pages they pass (\<^verbatim>\<open>MDB_PS_MODIFY\<close>), are left out as well.
\<close>

section \<open>State\<close>

abbreviation (input) MDB_SUCCESS :: int where "MDB_SUCCESS \<equiv> 0"
abbreviation (input) EINVAL :: int where "EINVAL \<equiv> 22"
abbreviation (input) MDB_NOTFOUND :: int where "MDB_NOTFOUND \<equiv> - 30798"
abbreviation (input) MDB_PAGE_NOTFOUND :: int where "MDB_PAGE_NOTFOUND \<equiv> - 30797"
abbreviation (input) MDB_CORRUPTED :: int where "MDB_CORRUPTED \<equiv> - 30796"
abbreviation (input) MDB_CURSOR_FULL :: int where "MDB_CURSOR_FULL \<equiv> - 30787"
abbreviation (input) MDB_INCOMPATIBLE :: int where "MDB_INCOMPATIBLE \<equiv> - 30784"
abbreviation (input) MDB_BAD_TXN :: int where "MDB_BAD_TXN \<equiv> - 30782"
abbreviation (input) MDB_BAD_VALSIZE :: int where "MDB_BAD_VALSIZE \<equiv> - 30781"
abbreviation (input) MDB_BAD_DBI :: int where "MDB_BAD_DBI \<equiv> - 30780"

abbreviation (input) MDB_TXN_ERROR :: u32 where "MDB_TXN_ERROR \<equiv> 0x02"
abbreviation (input) MDB_TXN_BLOCKED :: u32 where "MDB_TXN_BLOCKED \<equiv> 0x13"
abbreviation (input) C_INITIALIZED :: u32 where "C_INITIALIZED \<equiv> 0x01"
abbreviation (input) C_EOF :: u32 where "C_EOF \<equiv> 0x02"
abbreviation (input) C_DEL :: u32 where "C_DEL \<equiv> 0x08"
abbreviation (input) C_IN_MAP :: u32 where "C_IN_MAP \<equiv> 0xA0000"
abbreviation (input) CURSOR_STACK :: nat where "CURSOR_STACK \<equiv> 32"
abbreviation (input) P_INVALID :: u64 where "P_INVALID \<equiv> - 1"
abbreviation (input) MAIN_DBI :: nat where "MAIN_DBI \<equiv> 1"
abbreviation (input) MDB_DUPSORT :: u16 where "MDB_DUPSORT \<equiv> 0x04"
abbreviation (input) MDB_DUPFIXED :: u16 where "MDB_DUPFIXED \<equiv> 0x10"
abbreviation (input) F_SUBDATA :: u16 where "F_SUBDATA \<equiv> 0x02"
abbreviation (input) F_DUPDATA :: u16 where "F_DUPDATA \<equiv> 0x04"

record tree_db = mdb_db +
  md_pad :: u32
  md_flags :: u16
  md_depth :: u16
  md_entries :: u64
  md_root :: u64

text \<open>What a read does not change: the map, the page count of the transaction, the spilled and the dirty
  pages of the transaction and its parents, the memory, and the main database, which holds the records of
  the named ones.\<close>

record tree_env =
  me_map :: nat
  me_psize :: nat
  mt_next_pgno :: u64
  mt_chain :: "(idl option \<times> id2l) list"
  object_at :: "nat \<Rightarrow> mdb_page option"
  main_db :: tree_db
  main_cmp :: cmp_func

text \<open>A cursor with what it points to: the flags of its transaction, the record, the comparison and the name
  of its database, whether the record is out of date (\<^verbatim>\<open>DB_STALE\<close>) and whether the handle was reopened since.\<close>

record cursor =
  mt_flags :: u32
  mc_dbi :: nat
  mc_db :: tree_db
  md_cmp :: cmp_func
  md_name :: bytes
  db_stale :: bool
  dbi_changed :: bool
  mc_flags :: u32
  mc_snum :: nat
  mc_top :: nat
  mc_pg :: "nat list"
  mc_ki :: "nat list"

definition has :: "'a::len word \<Rightarrow> 'a word \<Rightarrow> bool" where
  "has w f \<longleftrightarrow> w AND f \<noteq> 0"

definition raise_flag :: "u32 \<Rightarrow> cursor \<Rightarrow> cursor" where
  "raise_flag f c = c\<lparr>mc_flags := mc_flags c OR f\<rparr>"

definition clear_flag :: "u32 \<Rightarrow> cursor \<Rightarrow> cursor" where
  "clear_flag f c = c\<lparr>mc_flags := mc_flags c AND NOT f\<rparr>"

definition txn_error :: "cursor \<Rightarrow> cursor" where
  "txn_error c = c\<lparr>mt_flags := mt_flags c OR MDB_TXN_ERROR\<rparr>"

definition page_at :: "tree_env \<Rightarrow> cursor \<Rightarrow> nat \<Rightarrow> mdb_page option" where
  "page_at env c j = do { a \<leftarrow> peek (mc_pg c) j; object_at env a }"

definition top_page :: "tree_env \<Rightarrow> cursor \<Rightarrow> mdb_page option" where
  "top_page env c = page_at env c (mc_top c)"

definition top_ki :: "cursor \<Rightarrow> nat option" where
  "top_ki c = peek (mc_ki c) (mc_top c)"

definition set_ki :: "cursor \<Rightarrow> nat \<Rightarrow> cursor option" where
  "set_ki c v = do { ki \<leftarrow> poke (mc_ki c) (mc_top c) (v mod 65536); Some (c\<lparr>mc_ki := ki\<rparr>) }"

text \<open>The fields of a node, and the keys of pages of fixed-size keys.\<close>

definition NODEPGNO :: "bytes \<Rightarrow> nat \<Rightarrow> u64 option" where
  "NODEPGNO b node = do {
     lo \<leftarrow> get16 b node;
     hi \<leftarrow> get16 b (node + 2);
     f \<leftarrow> get16 b (node + 4);
     Some ((ucast lo OR push_bit 16 (ucast hi)) OR push_bit 32 (ucast f))
   }"

definition bytes_at :: "bytes \<Rightarrow> nat \<Rightarrow> nat \<Rightarrow> bytes option" where
  "bytes_at b off n = (if off + n \<le> length b then Some (take n (drop off b)) else None)"

definition LEAF2KEY :: "bytes \<Rightarrow> nat \<Rightarrow> nat \<Rightarrow> bytes option" where
  "LEAF2KEY b i ks = bytes_at b (i * ks) ks"

section \<open>The stack of the cursor\<close>

definition mdb_cursor_pop :: "cursor \<Rightarrow> cursor" where
  "mdb_cursor_pop c =
     (if mc_snum c \<noteq> 0 then
        let c = c\<lparr>mc_snum := mc_snum c - 1\<rparr>
        in if mc_snum c \<noteq> 0 then c\<lparr>mc_top := (mc_top c + 65535) mod 65536\<rparr> else clear_flag C_INITIALIZED c
      else c)"

definition mdb_cursor_push :: "cursor \<Rightarrow> nat \<Rightarrow> (int \<times> cursor) option" where
  "mdb_cursor_push c mp =
     (if mc_snum c \<ge> CURSOR_STACK then Some (MDB_CURSOR_FULL, txn_error c)
      else do {
        let c = c\<lparr>mc_top := mc_snum c, mc_snum := mc_snum c + 1\<rparr>;
        pg \<leftarrow> poke (mc_pg c) (mc_top c) mp;
        ki \<leftarrow> poke (mc_ki c) (mc_top c) 0;
        Some (MDB_SUCCESS, c\<lparr>mc_pg := pg, mc_ki := ki\<rparr>)
      })"

section \<open>Looking up a page\<close>

text \<open>The loop over the transaction and its parents; \<open>None\<close> inside when no transaction has the page, the
  address when it is dirty, and no address when it was spilled, with the level.\<close>

definition spilled :: "idl option \<Rightarrow> u64 \<Rightarrow> bool option" where
  "spilled sp pgno =
     (case sp of
        None \<Rightarrow> Some False
      | Some sl \<Rightarrow> do {
          let pn = push_bit 1 pgno;
          x \<leftarrow> mdb_midl_search sl pn;
          n \<leftarrow> ids_at sl 0;
          (if of_nat x \<le> n then map_option (\<lambda>v. v = pn) (ids_at sl x) else Some False)
        })"

definition dirty :: "id2l \<Rightarrow> u64 \<Rightarrow> nat option option" where
  "dirty dl pgno = do {
     h \<leftarrow> peek dl 0;
     (if mid h \<noteq> 0 then do {
        x \<leftarrow> mdb_mid2l_search dl pgno;
        (if of_nat x \<le> mid h then do { v \<leftarrow> peek dl x; Some (if mid v = pgno then Some (mptr v) else None) } else Some None)
      } else Some None)
   }"

fun chain_lookup :: "(idl option \<times> id2l) list \<Rightarrow> nat \<Rightarrow> u64 \<Rightarrow> (nat option \<times> nat) option option" where
  "chain_lookup [] level pgno = Some None"
| "chain_lookup ((sp, dl) # txns) level pgno = do {
     s \<leftarrow> spilled sp pgno;
     (if s then Some (Some (None, level))
      else do {
        d \<leftarrow> dirty dl pgno;
        (case d of
           Some p \<Rightarrow> Some (Some (Some p, level))
         | None \<Rightarrow> chain_lookup txns (level + 1) pgno)
      })
   }"

text \<open>The address and the level.\<close>

definition mdb_page_get :: "tree_env \<Rightarrow> cursor \<Rightarrow> u64 \<Rightarrow> (int \<times> cursor \<times> nat \<times> nat) option" where
  "mdb_page_get env c pgno = do {
     let in_map = me_map env + me_psize env * unat pgno;
     r \<leftarrow> (if \<not> has (mc_flags c) C_IN_MAP then chain_lookup (mt_chain env) 1 pgno else Some None);
     (case r of
        Some (Some p, level) \<Rightarrow> Some (MDB_SUCCESS, c, p, level)
      | Some (None, level) \<Rightarrow> Some (MDB_SUCCESS, c, in_map, level)
      | None \<Rightarrow>
          if pgno \<ge> mt_next_pgno env then Some (MDB_PAGE_NOTFOUND, txn_error c, 0, 0)
          else Some (MDB_SUCCESS, c, in_map, 0))
   }"

section \<open>The descent from the root\<close>

datatype ps_mode = PS_KEY bytes | PS_FIRST | PS_LAST

text \<open>The index of the branch to follow; \<open>None\<close> inside when the cursor is already at its last branch, whose page
  is still on the stack.\<close>

definition branch_index :: "tree_env \<Rightarrow> ps_mode \<Rightarrow> cursor \<Rightarrow> mdb_page \<Rightarrow> (nat option \<times> cursor) option" where
  "branch_index env mode c p =
     (let lasti = (NUMKEYS p + 65535) mod 65536 in
      case mode of
        PS_FIRST \<Rightarrow> Some (Some 0, c)
      | PS_LAST \<Rightarrow> do {
          ki \<leftarrow> top_ki c;
          Some (if has (mc_flags c) C_INITIALIZED \<and> ki = lasti then None else Some lasti, c)
        }
      | PS_KEY key \<Rightarrow> do {
          (i, exact, node) \<leftarrow> mdb_node_search (md_cmp c) (unat (md_pad (mc_db c))) p key;
          c \<leftarrow> set_ki c i;
          (if node = None then Some (Some lasti, c)
           else if exact then Some (Some i, c)
           else if i > 0 then Some (Some (i - 1), c) else None)
        })"

text \<open>The page below branch \<open>i\<close>, pushed.\<close>

definition descend :: "tree_env \<Rightarrow> cursor \<Rightarrow> mdb_page \<Rightarrow> nat \<Rightarrow> (int \<times> cursor \<times> nat) option" where
  "descend env c p i =
     (if \<not> i < NUMKEYS p then None
      else do {
        node \<leftarrow> NODEPTR (mp_body p) i;
        pgno \<leftarrow> NODEPGNO (mp_body p) node;
        (rc, c, mp, _) \<leftarrow> mdb_page_get env c pgno;
        (if rc \<noteq> 0 then Some (rc, c, 0)
         else do {
           c \<leftarrow> set_ki c i;
           (rc, c) \<leftarrow> mdb_cursor_push c mp;
           Some (rc, c, mp)
         })
      })"

text \<open>One turn of the loop: the search ends, or goes on with the page at an address.\<close>

definition search_turn :: "tree_env \<Rightarrow> ps_mode \<Rightarrow> cursor \<Rightarrow> nat \<Rightarrow> (int \<times> cursor + cursor \<times> nat) option" where
  "search_turn env mode c mp = do {
     p \<leftarrow> object_at env mp;
     (if IS_BRANCH p then
        if mc_dbi c \<noteq> 0 \<and> \<not> NUMKEYS p > 1 then None
        else do {
          (i, c) \<leftarrow> branch_index env mode c p;
          (case i of
             None \<Rightarrow> do {
               let c = c\<lparr>mc_top := mc_snum c, mc_snum := mc_snum c + 1\<rparr>;
               mp \<leftarrow> peek (mc_pg c) (mc_top c);
               Some (Inr (c, mp))
             }
           | Some i \<Rightarrow> do {
               (rc, c, mp) \<leftarrow> descend env c p i;
               Some (if rc \<noteq> 0 then Inl (rc, c) else Inr (c, mp))
             })
        }
      else if \<not> IS_LEAF p then Some (Inl (MDB_CORRUPTED, txn_error c))
      else Some (Inl (MDB_SUCCESS, clear_flag C_EOF (raise_flag C_INITIALIZED c))))
   }"

lemma set_ki_pg: "set_ki c v = Some c' \<Longrightarrow> mc_pg c' = mc_pg c \<and> mc_snum c' = mc_snum c \<and> length (mc_ki c') = length (mc_ki c)"
  by (auto simp: set_ki_def poke_def bind_eq_Some_conv split: if_splits)

lemma page_get_pg: "mdb_page_get env c pgno = Some (rc, c', r) \<Longrightarrow> mc_pg c' = mc_pg c \<and> mc_snum c' = mc_snum c \<and> mc_ki c' = mc_ki c"
  by (auto simp: mdb_page_get_def txn_error_def bind_eq_Some_conv Let_def split: option.splits if_splits prod.splits)

lemma push_pg:
  "mdb_cursor_push c mp = Some (rc, c') \<Longrightarrow> length (mc_pg c') = length (mc_pg c) \<and>
    (rc = 0 \<longrightarrow> mc_snum c' = mc_snum c + 1 \<and> mc_snum c < length (mc_pg c))"
  by (auto simp: mdb_cursor_push_def txn_error_def poke_def Let_def bind_eq_Some_conv split: if_splits)

lemma branch_index_pg:
  assumes "branch_index env mode c p = Some (i, c1)"
  shows "mc_pg c1 = mc_pg c \<and> mc_snum c1 = mc_snum c"
proof (cases mode)
  case (PS_KEY key)
  then obtain i0 c2 where "set_ki c i0 = Some c2" "c1 = c2"
    using assms by (auto simp: branch_index_def bind_eq_Some_conv split: if_splits)
  then show ?thesis using set_ki_pg by auto
next
  case PS_LAST
  then show ?thesis using assms by (auto simp: branch_index_def bind_eq_Some_conv Let_def)
qed (use assms in \<open>auto simp: branch_index_def\<close>)

lemma descend_pg:
  assumes "descend env c p i = Some (0, c2, m)"
  shows "length (mc_pg c2) = length (mc_pg c) \<and> mc_snum c2 = mc_snum c + 1 \<and> mc_snum c < length (mc_pg c)"
proof -
  obtain pgno c0 mp lv ca where "mdb_page_get env c pgno = Some (0, c0, mp, lv)" "set_ki c0 i = Some ca" "mdb_cursor_push ca mp = Some (0, c2)"
    using assms by (auto simp: descend_def bind_eq_Some_conv split: if_splits)
  then show ?thesis using page_get_pg set_ki_pg push_pg by metis
qed

lemma search_turn_pg:
  assumes "search_turn env mode c mp = Some (Inr (c', mp'))"
  shows "length (mc_pg c') = length (mc_pg c) \<and> mc_snum c' = mc_snum c + 1 \<and> mc_snum c < length (mc_pg c)"
proof -
  obtain p i c1 where b: "branch_index env mode c p = Some (i, c1)"
    and rest: "(case i of None \<Rightarrow> do {
        let c = c1\<lparr>mc_top := mc_snum c1, mc_snum := mc_snum c1 + 1\<rparr>; mp \<leftarrow> peek (mc_pg c) (mc_top c); Some (Inr (c, mp)) }
      | Some i \<Rightarrow> do { (rc, c, mp) \<leftarrow> descend env c1 p i; Some (if rc \<noteq> 0 then Inl (rc, c) else Inr (c, mp)) }) = Some (Inr (c', mp') :: int \<times> cursor + cursor \<times> nat)"
    using assms by (auto simp: search_turn_def bind_eq_Some_conv split: if_splits)
  note b = branch_index_pg [OF b]
  show ?thesis
  proof (cases i)
    case None
    then show ?thesis using rest b by (auto simp: Let_def peek_def bind_eq_Some_conv split: if_splits)
  next
    case (Some k)
    then obtain rc c2 m where "descend env c1 p k = Some (rc, c2, m)" "(if rc \<noteq> 0 then Inl (rc, c2) else Inr (c2, m)) = (Inr (c', mp') :: int \<times> cursor + cursor \<times> nat)"
      using rest by (auto simp: bind_eq_Some_conv)
    then show ?thesis using descend_pg [of env c1 p k c2 m] b by (cases "rc = 0") auto
  qed
qed

function mdb_page_search_root :: "tree_env \<Rightarrow> ps_mode \<Rightarrow> cursor \<Rightarrow> nat \<Rightarrow> (int \<times> cursor) option" where
  "mdb_page_search_root env mode c mp =
     (case search_turn env mode c mp of
        None \<Rightarrow> None
      | Some (Inl r) \<Rightarrow> Some r
      | Some (Inr (c', mp')) \<Rightarrow> mdb_page_search_root env mode c' mp')"
  by pat_completeness auto

termination
  by (relation "measure (\<lambda>(_, _, c, _). length (mc_pg c) - mc_snum c)") (auto dest!: search_turn_pg)

declare mdb_page_search_root.simps [simp del]

text \<open>The search with \<^verbatim>\<open>MDB_PS_FIRST\<close> below the current page.\<close>

definition mdb_page_search_lowest :: "tree_env \<Rightarrow> cursor \<Rightarrow> (int \<times> cursor) option" where
  "mdb_page_search_lowest env c = do {
     p \<leftarrow> top_page env c;
     node \<leftarrow> NODEPTR (mp_body p) 0;
     pgno \<leftarrow> NODEPGNO (mp_body p) node;
     (rc, c, mp, _) \<leftarrow> mdb_page_get env c pgno;
     (if rc \<noteq> 0 then Some (rc, c)
      else do {
        c \<leftarrow> set_ki c 0;
        (rc, c) \<leftarrow> mdb_cursor_push c mp;
        (if rc \<noteq> 0 then Some (rc, c) else mdb_page_search_root env PS_FIRST c mp)
      })
   }"

section \<open>Reading a node\<close>

text \<open>The data of a node: behind its key, or on an overflow page.\<close>

definition mdb_node_read :: "tree_env \<Rightarrow> cursor \<Rightarrow> bytes \<Rightarrow> nat \<Rightarrow> (int \<times> cursor \<times> bytes option) option" where
  "mdb_node_read env c b node = do {
     f \<leftarrow> NODEFLAGS b node;
     k \<leftarrow> NODEKSZ b node;
     d \<leftarrow> NODEDSZ b node;
     let ndata = node + NODESIZE + unat k;
     (if \<not> F_ISSET f F_BIGDATA then do {
        v \<leftarrow> bytes_at b ndata (unat d);
        Some (MDB_SUCCESS, c, Some v)
      }
      else do {
        pgno \<leftarrow> load_le b ndata 8;
        (rc, c, omp, _) \<leftarrow> mdb_page_get env c (of_nat pgno);
        (if rc \<noteq> 0 then Some (rc, c, None)
         else do {
           op \<leftarrow> object_at env omp;
           v \<leftarrow> bytes_at (mp_body op) 0 (unat d);
           Some (MDB_SUCCESS, c, Some v)
         })
      })
   }"

text \<open>What the cursor functions end with: the key and the data at the current index. A node with duplicates
  needs the second cursor, which is not there.\<close>

type_synonym answer = "int \<times> cursor \<times> bytes option \<times> bytes option"

definition read_current :: "tree_env \<Rightarrow> cursor \<Rightarrow> bool \<Rightarrow> answer option" where
  "read_current env c want_data = do {
     p \<leftarrow> top_page env c;
     i \<leftarrow> top_ki c;
     (if IS_LEAF2 p then do {
        k \<leftarrow> LEAF2KEY (mp_body p) i (unat (md_pad (mc_db c)));
        Some (MDB_SUCCESS, c, Some k, None)
      }
      else do {
        leaf \<leftarrow> NODEPTR (mp_body p) i;
        f \<leftarrow> NODEFLAGS (mp_body p) leaf;
        (if F_ISSET f F_DUPDATA then None else Some ());
        (rc, c, d) \<leftarrow> (if want_data then mdb_node_read env c (mp_body p) leaf else Some (MDB_SUCCESS, c, None));
        (if rc \<noteq> 0 then Some (rc, c, None, None)
         else do {
           k \<leftarrow> NODEKEY (mp_body p) leaf;
           Some (MDB_SUCCESS, c, Some k, d)
         })
      })
   }"

section \<open>The search for a page\<close>

text \<open>The last part of \<^verbatim>\<open>mdb_page_search\<close>: the root page and the descent from it.\<close>

definition search_from_root :: "tree_env \<Rightarrow> ps_mode \<Rightarrow> bool \<Rightarrow> cursor \<Rightarrow> (int \<times> cursor) option" where
  "search_from_root env mode root_only c =
     (let root = md_root (mc_db c) in
      if root = P_INVALID then Some (MDB_NOTFOUND, c)
      else if \<not> root > 1 then None
      else do {
        pg0 \<leftarrow> peek (mc_pg c) 0;
        here \<leftarrow> (if pg0 = 0 then Some False else map_option (\<lambda>p. mp_pgno p = root) (object_at env pg0));
        (rc, c) \<leftarrow> (if here then Some (MDB_SUCCESS, c)
           else do {
             (rc, c, mp, _) \<leftarrow> mdb_page_get env c root;
             (if rc \<noteq> 0 then Some (rc, c) else do { pg \<leftarrow> poke (mc_pg c) 0 mp; Some (MDB_SUCCESS, c\<lparr>mc_pg := pg\<rparr>) })
           });
        (if rc \<noteq> 0 then Some (rc, c)
         else do {
           let c = c\<lparr>mc_snum := 1, mc_top := 0\<rparr>;
           (if root_only then Some (MDB_SUCCESS, c)
            else do { mp \<leftarrow> peek (mc_pg c) 0; mdb_page_search_root env mode c mp })
         })
      })"

text \<open>The part of \<^verbatim>\<open>mdb_cursor_init\<close> before the search for a record that is out of date, on a cursor that has the
  transaction and the database already; the rest of its stack is not touched.\<close>

definition init_fields :: "cursor \<Rightarrow> cursor" where
  "init_fields c = c\<lparr>mc_snum := 0, mc_top := 0, mc_pg := (mc_pg c)[0 := 0], mc_ki := (mc_ki c)[0 := 0], mc_flags := mt_flags c AND C_IN_MAP\<rparr>"

text \<open>The record of a database, 48 bytes in the order of \<^verbatim>\<open>MDB_db\<close>.\<close>

definition parse_db :: "bytes \<Rightarrow> tree_db option" where
  "parse_db b = do {
     pad \<leftarrow> load_le b 0 4;
     fl \<leftarrow> load_le b 4 2;
     depth \<leftarrow> load_le b 6 2;
     bp \<leftarrow> load_le b 8 8;
     lp \<leftarrow> load_le b 16 8;
     op \<leftarrow> load_le b 24 8;
     n \<leftarrow> load_le b 32 8;
     root \<leftarrow> load_le b 40 8;
     Some \<lparr>md_branch_pages = of_nat bp, md_leaf_pages = of_nat lp, md_overflow_pages = of_nat op, md_pad = of_nat pad,
       md_flags = of_nat fl, md_depth = of_nat depth, md_entries = of_nat n, md_root = of_nat root\<rparr>
   }"

text \<open>The record of a named database is looked up by its name in the main database when it is out of date. The
  main database's own record comes with the transaction and is never out of date.\<close>

definition main_cursor :: "tree_env \<Rightarrow> cursor \<Rightarrow> cursor" where
  "main_cursor env c = init_fields \<lparr>mt_flags = mt_flags c, mc_dbi = MAIN_DBI, mc_db = main_db env, md_cmp = main_cmp env, md_name = [],
     db_stale = False, dbi_changed = False, mc_flags = 0, mc_snum = 0, mc_top = 0,
     mc_pg = replicate CURSOR_STACK 0, mc_ki = replicate CURSOR_STACK 0\<rparr>"

definition refresh_db :: "tree_env \<Rightarrow> cursor \<Rightarrow> (int \<times> cursor) option" where
  "refresh_db env c =
     (if dbi_changed c then Some (MDB_BAD_DBI, c)
      else do {
        (rc, mc2) \<leftarrow> search_from_root env (PS_KEY (md_name c)) False (main_cursor env c);
        let c = c\<lparr>mt_flags := mt_flags mc2\<rparr>;
        (if rc \<noteq> 0 then Some (rc, c)
         else do {
           p \<leftarrow> top_page env mc2;
           (i, exact, node) \<leftarrow> mdb_node_search (md_cmp mc2) (unat (md_pad (mc_db mc2))) p (md_name c);
           (if \<not> exact then Some (MDB_NOTFOUND, c)
            else do {
              leaf \<leftarrow> node;
              f \<leftarrow> NODEFLAGS (mp_body p) leaf;
              (if f AND (F_DUPDATA OR F_SUBDATA) \<noteq> F_SUBDATA then Some (MDB_INCOMPATIBLE, c)
               else do {
                 (rc, mc2, data) \<leftarrow> mdb_node_read env mc2 (mp_body p) leaf;
                 let c = c\<lparr>mt_flags := mt_flags mc2\<rparr>;
                 (if rc \<noteq> 0 then Some (rc, c)
                  else do {
                    b \<leftarrow> data;
                    fl \<leftarrow> get16 b 4;
                    (if md_flags (mc_db c) AND 0x7FFF \<noteq> fl then Some (MDB_INCOMPATIBLE, c)
                     else do {
                       db \<leftarrow> parse_db b;
                       Some (MDB_SUCCESS, c\<lparr>mc_db := db, db_stale := False\<rparr>)
                     })
                  })
               })
            })
         })
      })"

definition mdb_page_search :: "tree_env \<Rightarrow> ps_mode \<Rightarrow> bool \<Rightarrow> cursor \<Rightarrow> (int \<times> cursor) option" where
  "mdb_page_search env mode root_only c =
     (if has (mt_flags c) MDB_TXN_BLOCKED then Some (MDB_BAD_TXN, c)
      else do {
        (rc, c) \<leftarrow> (if db_stale c then refresh_db env c else Some (MDB_SUCCESS, c));
        (if rc \<noteq> 0 then Some (rc, c) else search_from_root env mode root_only c)
      })"

definition mdb_cursor_init :: "tree_env \<Rightarrow> cursor \<Rightarrow> cursor option" where
  "mdb_cursor_init env c =
     (if has (md_flags (mc_db c)) MDB_DUPSORT then None
      else if db_stale c then map_option snd (mdb_page_search env PS_FIRST True (init_fields c))
      else Some (init_fields c))"

section \<open>Moving to a sibling\<close>

text \<open>The second half: the page below the index the parent has now.\<close>

definition push_sibling :: "tree_env \<Rightarrow> bool \<Rightarrow> cursor \<Rightarrow> (int \<times> cursor) option" where
  "push_sibling env move_right c = do {
     p \<leftarrow> top_page env c;
     k \<leftarrow> top_ki c;
     (if \<not> IS_BRANCH p then None
      else do {
        indx \<leftarrow> NODEPTR (mp_body p) k;
        pgno \<leftarrow> NODEPGNO (mp_body p) indx;
        (rc, c, mp, _) \<leftarrow> mdb_page_get env c pgno;
        (if rc \<noteq> 0 then Some (rc, clear_flag (C_INITIALIZED OR C_EOF) c)
         else do {
           (_, c) \<leftarrow> mdb_cursor_push c mp;
           c \<leftarrow> (if move_right then Some c else do { q \<leftarrow> object_at env mp; set_ki c (NUMKEYS q + 65535) });
           Some (MDB_SUCCESS, c)
         })
      })
   }"

function mdb_cursor_sibling :: "tree_env \<Rightarrow> bool \<Rightarrow> cursor \<Rightarrow> (int \<times> cursor) option" where
  "mdb_cursor_sibling env move_right c =
     (if mc_snum c < 2 then Some (MDB_NOTFOUND, c)
      else
        let c = mdb_cursor_pop c in
        case top_page env c of
          None \<Rightarrow> None
        | Some p \<Rightarrow>
            (case top_ki c of
               None \<Rightarrow> None
             | Some k \<Rightarrow>
                 if (if move_right then k + 1 \<ge> NUMKEYS p else k = 0) then
                   (case mdb_cursor_sibling env move_right c of
                      None \<Rightarrow> None
                    | Some (rc, c) \<Rightarrow>
                        if rc \<noteq> 0 then Some (rc, c\<lparr>mc_top := mc_top c + 1, mc_snum := mc_snum c + 1\<rparr>)
                        else push_sibling env move_right c)
                 else
                   (case set_ki c (if move_right then k + 1 else k - 1) of
                      None \<Rightarrow> None
                    | Some c \<Rightarrow> push_sibling env move_right c)))"
  by pat_completeness auto

termination
  by (relation "measure (\<lambda>(_, _, c). mc_snum c)") (auto simp: mdb_cursor_pop_def Let_def)

declare mdb_cursor_sibling.simps [simp del]

section \<open>First, last, next and previous\<close>

definition needs_search :: "cursor \<Rightarrow> bool" where
  "needs_search c \<longleftrightarrow> \<not> has (mc_flags c) C_INITIALIZED \<or> mc_top c \<noteq> 0"

definition mdb_cursor_first :: "tree_env \<Rightarrow> cursor \<Rightarrow> bool \<Rightarrow> answer option" where
  "mdb_cursor_first env c want_data = do {
     (rc, c) \<leftarrow> (if needs_search c then mdb_page_search env PS_FIRST False c else Some (MDB_SUCCESS, c));
     (if rc \<noteq> 0 then Some (rc, c, None, None)
      else do {
        p \<leftarrow> top_page env c;
        (if \<not> IS_LEAF p then None
         else do {
           c \<leftarrow> set_ki (clear_flag C_EOF (raise_flag C_INITIALIZED c)) 0;
           read_current env c want_data
         })
      })
   }"

definition mdb_cursor_last :: "tree_env \<Rightarrow> cursor \<Rightarrow> bool \<Rightarrow> answer option" where
  "mdb_cursor_last env c want_data = do {
     (rc, c) \<leftarrow> (if needs_search c then mdb_page_search env PS_LAST False c else Some (MDB_SUCCESS, c));
     (if rc \<noteq> 0 then Some (rc, c, None, None)
      else do {
        p \<leftarrow> top_page env c;
        (if \<not> IS_LEAF p then None
         else do {
           c \<leftarrow> set_ki c (NUMKEYS p + 65535);
           read_current env (raise_flag (C_INITIALIZED OR C_EOF) c) want_data
         })
      })
   }"

datatype cursor_op = FIRST | FIRST_DUP | GET_BOTH | GET_BOTH_RANGE | GET_CURRENT | GET_MULTIPLE | LAST | LAST_DUP
  | NEXT | NEXT_DUP | NEXT_MULTIPLE | NEXT_NODUP | PREV | PREV_DUP | PREV_NODUP | SET | SET_KEY | SET_RANGE | PREV_MULTIPLE

definition mdb_cursor_next :: "tree_env \<Rightarrow> cursor \<Rightarrow> bool \<Rightarrow> cursor_op \<Rightarrow> answer option" where
  "mdb_cursor_next env c want_data cop =
     (if has (mc_flags c) C_DEL \<and> cop = NEXT_DUP then Some (MDB_NOTFOUND, c, None, None)
      else if \<not> has (mc_flags c) C_INITIALIZED then mdb_cursor_first env c want_data
      else do {
        p \<leftarrow> top_page env c;
        k \<leftarrow> top_ki c;
        (if has (mc_flags c) C_EOF \<and> NUMKEYS p \<noteq> 0 \<and> k \<ge> NUMKEYS p - 1 then Some (MDB_NOTFOUND, c, None, None)
         else do {
           let c = clear_flag C_EOF c;
           (if has (md_flags (mc_db c)) MDB_DUPSORT then None else Some ());
           (rc, c) \<leftarrow> (if has (mc_flags c) C_DEL then Some (MDB_SUCCESS, clear_flag C_DEL c)
             else if k + 1 \<ge> NUMKEYS p then do {
               (rc, c) \<leftarrow> mdb_cursor_sibling env True c;
               Some (rc, if rc \<noteq> 0 then raise_flag C_EOF c else c)
             }
             else do { c \<leftarrow> set_ki c (k + 1); Some (MDB_SUCCESS, c) });
           (if rc \<noteq> 0 then Some (rc, c, None, None)
            else do {
              p \<leftarrow> top_page env c;
              (if \<not> IS_LEAF2 p \<and> \<not> IS_LEAF p then None else read_current env c want_data)
            })
         })
      })"

text \<open>The step to the left on a cursor that has been initialised.\<close>

definition prev_move :: "tree_env \<Rightarrow> cursor \<Rightarrow> bool \<Rightarrow> answer option" where
  "prev_move env c want_data = do {
     p \<leftarrow> top_page env c;
     k \<leftarrow> top_ki c;
     (if has (md_flags (mc_db c)) MDB_DUPSORT \<and> k < NUMKEYS p then None else Some ());
     let c = clear_flag (C_EOF OR C_DEL) c;
     (rc, c) \<leftarrow> (if k = 0 then do {
         (rc, c) \<leftarrow> mdb_cursor_sibling env False c;
         (if rc \<noteq> 0 then Some (rc, c)
          else do { p \<leftarrow> top_page env c; c \<leftarrow> set_ki c (NUMKEYS p + 65535); Some (MDB_SUCCESS, c) })
       }
       else do { c \<leftarrow> set_ki c (k - 1); Some (MDB_SUCCESS, c) });
     (if rc \<noteq> 0 then Some (rc, c, None, None)
      else do {
        p \<leftarrow> top_page env c;
        (if \<not> IS_LEAF p then Some (MDB_CORRUPTED, c, None, None) else read_current env c want_data)
      })
   }"

definition mdb_cursor_prev :: "tree_env \<Rightarrow> cursor \<Rightarrow> bool \<Rightarrow> answer option" where
  "mdb_cursor_prev env c want_data =
     (if has (mc_flags c) C_INITIALIZED then prev_move env c want_data
      else do {
        (rc, c, _) \<leftarrow> mdb_cursor_last env c want_data;
        (if rc \<noteq> 0 then Some (rc, c, None, None)
         else do { k \<leftarrow> top_ki c; c \<leftarrow> set_ki c (k + 1); prev_move env c want_data })
      })"

section \<open>Setting the cursor on a key\<close>

definition page_key :: "cursor \<Rightarrow> mdb_page \<Rightarrow> nat \<Rightarrow> bytes option" where
  "page_key c p i =
     (if IS_LEAF2 p then LEAF2KEY (mp_body p) i (unat (md_pad (mc_db c)))
      else do { leaf \<leftarrow> NODEPTR (mp_body p) i; NODEKEY (mp_body p) leaf })"

definition cmp_at :: "cursor \<Rightarrow> bytes \<Rightarrow> mdb_page \<Rightarrow> nat \<Rightarrow> int option" where
  "cmp_at c key p i = do { k \<leftarrow> page_key c p i; apply_cmp (md_cmp c) key k }"

text \<open>Whether a page further down the stack has another branch to the right: the loop over the parents.\<close>

fun right_above :: "tree_env \<Rightarrow> cursor \<Rightarrow> nat \<Rightarrow> nat \<Rightarrow> bool option" where
  "right_above env c i 0 = Some False"
| "right_above env c i (Suc n) = do {
     p \<leftarrow> page_at env c i;
     k \<leftarrow> peek (mc_ki c) i;
     (if NUMKEYS p = 0 \<or> k < NUMKEYS p - 1 then Some True else right_above env c (i + 1) n)
   }"

text \<open>The test whether the cursor is on the right page already: it is on the key (\<open>Here\<close>), the key is on this page
  (\<open>This_Page\<close>), the tree has to be searched, or the answer is known.\<close>

datatype placed = Here cursor | This_Page cursor | Search_Tree cursor | Answer int cursor

text \<open>Behind the last key of the page: other pages are only searched when there are any to the right. Before its
  first key: when there are any at all.\<close>

definition beyond_page :: "tree_env \<Rightarrow> cursor \<Rightarrow> mdb_page \<Rightarrow> placed option" where
  "beyond_page env c p = do {
     more \<leftarrow> right_above env c 0 (mc_top c);
     (if more then Some (Search_Tree c)
      else do { c \<leftarrow> set_ki c (NUMKEYS p); Some (Answer MDB_NOTFOUND c) })
   }"

definition before_page :: "cursor \<Rightarrow> cursor_op \<Rightarrow> bool \<Rightarrow> placed option" where
  "before_page c cop exactp =
     (if mc_top c = 0 then do {
        c \<leftarrow> set_ki c 0;
        Some (if cop = SET_RANGE \<and> \<not> exactp then Here c else Answer MDB_NOTFOUND c)
      }
      else Some (Search_Tree c))"

definition place_here :: "tree_env \<Rightarrow> cursor \<Rightarrow> bytes \<Rightarrow> cursor_op \<Rightarrow> bool \<Rightarrow> placed option" where
  "place_here env c key cop exactp = do {
     p \<leftarrow> top_page env c;
     let nkeys = NUMKEYS p;
     (if nkeys = 0 then do { c \<leftarrow> set_ki c 0; Some (Answer MDB_NOTFOUND c) }
      else do {
        rc \<leftarrow> cmp_at c key p 0;
        (if rc = 0 then map_option Here (set_ki c 0)
         else if rc > 0 then
           (if nkeys > 1 then do {
              rc \<leftarrow> cmp_at c key p (nkeys - 1);
              (if rc = 0 then map_option Here (set_ki c (nkeys - 1))
               else if rc < 0 then do {
                 k \<leftarrow> top_ki c;
                 rc \<leftarrow> (if k < nkeys then cmp_at c key p k else Some 1);
                 Some (if rc = 0 then Here c else This_Page (clear_flag C_EOF c))
               }
               else beyond_page env c p)
            }
            else beyond_page env c p)
         else before_page c cop exactp)
      })
   }"

text \<open>From \<open>set1\<close> on: the key is only given back where it may differ from the one that was asked for. Operations on
  both key and data are refused before, as there is no second cursor.\<close>

definition set_read :: "tree_env \<Rightarrow> cursor \<Rightarrow> cursor_op \<Rightarrow> bool \<Rightarrow> answer option" where
  "set_read env c cop want_data = do {
     (rc, c, k, d) \<leftarrow> read_current env (clear_flag C_EOF (raise_flag C_INITIALIZED c)) want_data;
     Some (rc, c, if cop = SET_RANGE \<or> cop = SET_KEY then k else None, d)
   }"

text \<open>From \<open>set2\<close> on: the search in the page, and the next page when every key is smaller.\<close>

definition set_in_page :: "tree_env \<Rightarrow> cursor \<Rightarrow> bytes \<Rightarrow> cursor_op \<Rightarrow> bool \<Rightarrow> bool \<Rightarrow> answer option" where
  "set_in_page env c key cop exactp want_data = do {
     p \<leftarrow> top_page env c;
     (i, exact, node) \<leftarrow> mdb_node_search (md_cmp c) (unat (md_pad (mc_db c))) p key;
     c \<leftarrow> set_ki c i;
     (if exactp \<and> \<not> exact then Some (MDB_NOTFOUND, c, None, None)
      else if node = None then do {
        (rc, c) \<leftarrow> mdb_cursor_sibling env True c;
        (if rc \<noteq> 0 then Some (rc, raise_flag C_EOF c, None, None)
         else do {
           p \<leftarrow> top_page env c;
           (if \<not> IS_LEAF p then None else set_read env c cop want_data)
         })
      }
      else set_read env c cop want_data)
   }"

definition mdb_cursor_set :: "tree_env \<Rightarrow> cursor \<Rightarrow> bytes \<Rightarrow> cursor_op \<Rightarrow> bool \<Rightarrow> bool \<Rightarrow> answer option" where
  "mdb_cursor_set env c key cop exactp want_data =
     (if length key = 0 then Some (MDB_BAD_VALSIZE, c, None, None)
      else do {
        st \<leftarrow> (if has (mc_flags c) C_INITIALIZED then place_here env c key cop exactp
               else Some (Search_Tree (c\<lparr>mc_pg := (mc_pg c)[0 := 0]\<rparr>)));
        (case st of
           Here c \<Rightarrow> set_read env c cop want_data
         | This_Page c \<Rightarrow> set_in_page env c key cop exactp want_data
         | Answer rc c \<Rightarrow> Some (rc, c, None, None)
         | Search_Tree c \<Rightarrow> do {
             (rc, c) \<leftarrow> mdb_page_search env (PS_KEY key) False c;
             (if rc \<noteq> 0 then Some (rc, c, None, None)
              else do {
                p \<leftarrow> top_page env c;
                (if \<not> IS_LEAF p then None else set_in_page env c key cop exactp want_data)
              })
           })
      })"

text \<open>\<open>handle\<close> is the cursor of the handle before it is initialised; \<open>valid\<close> is \<^verbatim>\<open>TXN_DBI_EXIST\<close>.\<close>

definition mdb_get :: "tree_env \<Rightarrow> bool \<Rightarrow> cursor \<Rightarrow> bytes \<Rightarrow> (int \<times> bytes option) option" where
  "mdb_get env valid handle key =
     (if \<not> valid then Some (EINVAL, None)
      else if has (mt_flags handle) MDB_TXN_BLOCKED then Some (MDB_BAD_TXN, None)
      else do {
        mc \<leftarrow> mdb_cursor_init env handle;
        (rc, _, _, data) \<leftarrow> mdb_cursor_set env mc key SET True True;
        Some (rc, data)
      })"

text \<open>The data pointer is null when \<open>want_data\<close> is false. Without a second cursor the operations on duplicates end
  with an error.\<close>

definition get_current :: "tree_env \<Rightarrow> cursor \<Rightarrow> bool \<Rightarrow> answer option" where
  "get_current env c want_data =
     (if \<not> has (mc_flags c) C_INITIALIZED then Some (EINVAL, c, None, None)
      else do {
        p \<leftarrow> top_page env c;
        k \<leftarrow> top_ki c;
        (if NUMKEYS p = 0 \<or> k \<ge> NUMKEYS p then do { c \<leftarrow> set_ki c (NUMKEYS p); Some (MDB_NOTFOUND, c, None, None) }
         else read_current env c want_data)
      })"

definition mdb_cursor_get :: "tree_env \<Rightarrow> cursor \<Rightarrow> bytes option \<Rightarrow> bool \<Rightarrow> cursor_op \<Rightarrow> answer option" where
  "mdb_cursor_get env c key want_data cop =
     (if has (mt_flags c) MDB_TXN_BLOCKED then Some (MDB_BAD_TXN, c, None, None)
      else if cop \<in> {GET_MULTIPLE, NEXT_MULTIPLE, PREV_MULTIPLE} \<and> want_data \<and> has (md_flags (mc_db c)) MDB_DUPFIXED then None
      else do {
        (rc, c, k, d) \<leftarrow>
          (case cop of
             GET_CURRENT \<Rightarrow> get_current env c want_data
           | SET \<Rightarrow> (case key of None \<Rightarrow> Some (EINVAL, c, None, None) | Some k \<Rightarrow> mdb_cursor_set env c k cop True want_data)
           | SET_KEY \<Rightarrow> (case key of None \<Rightarrow> Some (EINVAL, c, None, None) | Some k \<Rightarrow> mdb_cursor_set env c k cop True want_data)
           | SET_RANGE \<Rightarrow> (case key of None \<Rightarrow> Some (EINVAL, c, None, None) | Some k \<Rightarrow> mdb_cursor_set env c k cop False want_data)
           | NEXT \<Rightarrow> mdb_cursor_next env c want_data cop
           | NEXT_DUP \<Rightarrow> mdb_cursor_next env c want_data cop
           | NEXT_NODUP \<Rightarrow> mdb_cursor_next env c want_data cop
           | PREV \<Rightarrow> mdb_cursor_prev env c want_data
           | PREV_DUP \<Rightarrow> mdb_cursor_prev env c want_data
           | PREV_NODUP \<Rightarrow> mdb_cursor_prev env c want_data
           | FIRST \<Rightarrow> mdb_cursor_first env c want_data
           | LAST \<Rightarrow> mdb_cursor_last env c want_data
           | GET_BOTH \<Rightarrow> Some (if want_data then MDB_INCOMPATIBLE else EINVAL, c, None, None)
           | GET_BOTH_RANGE \<Rightarrow> Some (if want_data then MDB_INCOMPATIBLE else EINVAL, c, None, None)
           | FIRST_DUP \<Rightarrow> Some (if want_data \<and> has (mc_flags c) C_INITIALIZED then MDB_INCOMPATIBLE else EINVAL, c, None, None)
           | LAST_DUP \<Rightarrow> Some (if want_data \<and> has (mc_flags c) C_INITIALIZED then MDB_INCOMPATIBLE else EINVAL, c, None, None)
           | GET_MULTIPLE \<Rightarrow> Some (if want_data \<and> has (mc_flags c) C_INITIALIZED then MDB_INCOMPATIBLE else EINVAL, c, None, None)
           | NEXT_MULTIPLE \<Rightarrow> Some (if want_data then MDB_INCOMPATIBLE else EINVAL, c, None, None)
           | PREV_MULTIPLE \<Rightarrow> Some (if want_data then MDB_INCOMPATIBLE else EINVAL, c, None, None));
        Some (rc, clear_flag C_DEL c, k, d)
      })"

end
