(* ===== verification/Lmdb_Tree.thy ===== *)
theory Lmdb_Tree
  imports Lmdb_Cursor
begin

text \<open>
  The trees of pages the cursor functions of \<open>Lmdb_Cursor\<close> read. A tree is given with the address, the page and the
  nodes of each of its pages; its entries are the nodes of its leaves, from left to right. The stack of a
  cursor is a path in the tree. Searching, moving to the next entry and looking up a key are proved to do
  their work on the list of entries.
\<close>

section \<open>Fields of the nodes of a page\<close>

definition node_pgno :: "node \<Rightarrow> u64" where
  "node_pgno n = (ucast (nd_lo n) OR push_bit 16 (ucast (nd_hi n))) OR push_bit 32 (ucast (nd_flags n))"

lemma NODEPGNO_enc: "NODEPGNO (B @ node_enc n @ r) (length B) = Some (node_pgno n)"
  using get16_at [of B "length B" "nd_lo n" "le16 (nd_hi n) @ le16 (nd_flags n) @ le16 (of_nat (length (nd_key n))) @ nd_key n @ nd_data n @ r"]
    get16_at [of "B @ le16 (nd_lo n)" "length B + 2" "nd_hi n" "le16 (nd_flags n) @ le16 (of_nat (length (nd_key n))) @ nd_key n @ nd_data n @ r"]
    get16_at [of "B @ le16 (nd_lo n) @ le16 (nd_hi n)" "length B + 4" "nd_flags n" "le16 (of_nat (length (nd_key n))) @ nd_key n @ nd_data n @ r"]
  by (simp add: NODEPGNO_def node_enc_def node_pgno_def)

text \<open>Everything the readers ask of the node with a given index.\<close>

definition node_there :: "mdb_page \<Rightarrow> nat \<Rightarrow> node \<Rightarrow> nat \<Rightarrow> bool" where
  "node_there p i n q \<longleftrightarrow> NODEPTR (mp_body p) i = Some q \<and> NODEKEY (mp_body p) q = Some (nd_key n) \<and>
     NODEPGNO (mp_body p) q = Some (node_pgno n) \<and> NODEFLAGS (mp_body p) q = Some (nd_flags n) \<and>
     NODEKSZ (mp_body p) q = Some (of_nat (length (nd_key n))) \<and> length (nd_key n) < 65536 \<and>
     (\<exists>d. NODEDSZ (mp_body p) q = Some d \<and> unat d = unat (nd_lo n) + 65536 * unat (nd_hi n)) \<and>
     bytes_at (mp_body p) (q + NODESIZE + length (nd_key n)) (length (nd_data n)) = Some (nd_data n)"

lemma page_nodes:
  assumes "page_rep psz p ns" "i < length ns"
  obtains q where "node_there p i (ns ! i) q" "node_wf (IS_LEAF p) (ns ! i)"
proof -
  obtain ss free heap where s: "slots_rep psz p ss free heap" "ns = map snd ss" by (rule page_repE [OF assms(1)], rule that)
  have i: "i < length ss" using assms(2) s(2) by simp
  obtain B r where b: "mp_body p = B @ node_enc (snd (ss ! i)) @ r" "NODEPTR (mp_body p) i = Some (length B)" "node_wf (IS_LEAF p) (snd (ss ! i))"
    by (rule slot_bytes [OF s(1) i], rule that)
  let ?n = "snd (ss ! i)"
  have n: "ns ! i = ?n" using s(2) i by simp
  have k: "length (nd_key ?n) < 2 ^ 16" using b(3) by (simp add: node_wf_def)
  note f = node_fields [where B = B and n = ?n and r = r, OF refl, folded b(1)]
  have "bytes_at (mp_body p) (length B + NODESIZE + length (nd_key ?n)) (length (nd_data ?n)) = Some (nd_data ?n)"
    unfolding b(1) by (simp add: bytes_at_def node_enc_def)
  then have "node_there p i ?n (length B)"
    unfolding node_there_def using b(2) f k NODEPGNO_enc [of B ?n r, folded b(1)] dsz_value by (auto simp del: length_append)
  then show thesis using that b(3) unfolding n by blast
qed

lemma page_rep_keys: "page_rep psz p ns \<Longrightarrow> NUMKEYS p = length ns \<and> \<not> IS_LEAF2 p \<and> length ns < 65536"
proof -
  assume a: "page_rep psz p ns"
  obtain ss free heap where s: "slots_rep psz p ss free heap" "ns = map snd ss" "\<not> IS_LEAF2 p" by (rule page_repE [OF a], rule that)
  have "psz \<le> 32768" using s(1) unfolding slots_rep_def by blast
  then show ?thesis using slots_rep_sizes(1,2) [OF s(1)] s(2,3) by simp
qed

section \<open>Pages of the database\<close>

definition in_map :: "cursor \<Rightarrow> bool" where
  "in_map c \<longleftrightarrow> has (mc_flags c) C_IN_MAP"

text \<open>The address and the page with a given number, where there is one.\<close>

definition fetch :: "tree_env \<Rightarrow> bool \<Rightarrow> u64 \<Rightarrow> (nat \<times> mdb_page) option" where
  "fetch env im pgno = do {
     r \<leftarrow> (if im then Some None else chain_lookup (mt_chain env) 1 pgno);
     a \<leftarrow> (case r of
             Some (Some p, _) \<Rightarrow> Some p
           | Some (None, _) \<Rightarrow> Some (me_map env + me_psize env * unat pgno)
           | None \<Rightarrow> if pgno \<ge> mt_next_pgno env then None else Some (me_map env + me_psize env * unat pgno));
     p \<leftarrow> object_at env a;
     Some (a, p)
   }"

lemma mdb_page_get_fetch:
  assumes "fetch env (in_map c) pgno = Some (a, p)"
  shows "\<exists>l. mdb_page_get env c pgno = Some (MDB_SUCCESS, c, a, l) \<and> object_at env a = Some p"
proof -
  obtain r where r: "(if in_map c then Some None else chain_lookup (mt_chain env) 1 pgno) = Some r" "object_at env a = Some p"
    and a: "(case r of Some (Some p, _) \<Rightarrow> Some p | Some (None, _) \<Rightarrow> Some (me_map env + me_psize env * unat pgno)
      | None \<Rightarrow> if pgno \<ge> mt_next_pgno env then None else Some (me_map env + me_psize env * unat pgno)) = Some a"
    using assms by (auto simp: fetch_def bind_eq_Some_conv)
  have "(if \<not> has (mc_flags c) C_IN_MAP then chain_lookup (mt_chain env) 1 pgno else Some None) = Some r"
    using r(1) by (auto simp: in_map_def)
  then have "mdb_page_get env c pgno = (case r of
        Some (Some p, level) \<Rightarrow> Some (MDB_SUCCESS, c, p, level)
      | Some (None, level) \<Rightarrow> Some (MDB_SUCCESS, c, me_map env + me_psize env * unat pgno, level)
      | None \<Rightarrow> if pgno \<ge> mt_next_pgno env then Some (MDB_PAGE_NOTFOUND, txn_error c, 0, 0)
          else Some (MDB_SUCCESS, c, me_map env + me_psize env * unat pgno, 0))"
    unfolding mdb_page_get_def Let_def by (simp only: Option.bind.simps)
  then show ?thesis using a r(2) by (auto split: option.splits if_splits)
qed

text \<open>The data of a leaf node, on an overflow page or in the node, and the nodes a reader can read.\<close>

definition node_value :: "tree_env \<Rightarrow> bool \<Rightarrow> node \<Rightarrow> bytes option" where
  "node_value env im n =
     (if F_ISSET (nd_flags n) F_BIGDATA then do {
        (a, op) \<leftarrow> fetch env im (of_nat (le_nat (nd_data n)));
        bytes_at (mp_body op) 0 (unat (nd_lo n) + 65536 * unat (nd_hi n))
      } else Some (nd_data n))"

definition readable :: "tree_env \<Rightarrow> bool \<Rightarrow> node \<Rightarrow> bool" where
  "readable env im n \<longleftrightarrow> node_value env im n \<noteq> None \<and> \<not> F_ISSET (nd_flags n) F_DUPDATA"

lemma mdb_node_read_value:
  assumes "node_there p i n q" "node_wf True n" "node_value env (in_map c) n = Some v"
  shows "mdb_node_read env c (mp_body p) q = Some (MDB_SUCCESS, c, Some v)"
proof -
  obtain d where d: "NODEDSZ (mp_body p) q = Some d" "unat d = unat (nd_lo n) + 65536 * unat (nd_hi n)" using assms(1) by (auto simp: node_there_def)
  have k: "unat (of_nat (length (nd_key n)) :: u16) = length (nd_key n)" using assms(1) by (intro unat16) (simp add: node_there_def)
  have f: "NODEFLAGS (mp_body p) q = Some (nd_flags n)" "NODEKSZ (mp_body p) q = Some (of_nat (length (nd_key n)))"
    "bytes_at (mp_body p) (q + NODESIZE + length (nd_key n)) (length (nd_data n)) = Some (nd_data n)" using assms(1) by (auto simp: node_there_def)
  show ?thesis
  proof (cases "F_ISSET (nd_flags n) F_BIGDATA")
    case True
    have "length (nd_data n) = 8" using assms(2) True by (simp add: node_wf_def)
    then have l: "load_le (mp_body p) (q + NODESIZE + length (nd_key n)) 8 = Some (le_nat (nd_data n))"
      using f(3) by (auto simp: bytes_at_def load_le_def split: if_splits)
    obtain a op where o: "fetch env (in_map c) (of_nat (le_nat (nd_data n))) = Some (a, op)" "bytes_at (mp_body op) 0 (unat d) = Some v"
      using assms(3) True d(2) by (auto simp: node_value_def bind_eq_Some_conv)
    obtain l' where "mdb_page_get env c (of_nat (le_nat (nd_data n))) = Some (MDB_SUCCESS, c, a, l')" "object_at env a = Some op"
      using mdb_page_get_fetch [OF o(1)] by blast
    then show ?thesis using True f(1,2) d(1) k l o(2) by (simp add: mdb_node_read_def)
  next
    case False
    then have "v = nd_data n" "unat d = length (nd_data n)" using assms(2,3) d(2) by (auto simp: node_value_def node_wf_def)
    then show ?thesis using False f d(1) k by (simp add: mdb_node_read_def)
  qed
qed

section \<open>Trees and paths\<close>

datatype btree = Leaf nat mdb_page "node list" | Branch nat mdb_page "node list" "btree list"

fun t_addr :: "btree \<Rightarrow> nat" where
  "t_addr (Leaf a p ns) = a"
| "t_addr (Branch a p bs ts) = a"

fun t_page :: "btree \<Rightarrow> mdb_page" where
  "t_page (Leaf a p ns) = p"
| "t_page (Branch a p bs ts) = p"

fun t_nodes :: "btree \<Rightarrow> node list" where
  "t_nodes (Leaf a p ns) = ns"
| "t_nodes (Branch a p bs ts) = bs"

fun children :: "btree \<Rightarrow> btree list" where
  "children (Leaf a p ns) = []"
| "children (Branch a p bs ts) = ts"

fun entries :: "btree \<Rightarrow> node list" where
  "entries (Leaf a p ns) = ns"
| "entries (Branch a p bs ts) = concat (map entries ts)"

text \<open>The pages are where the parents say, down to leaves of equal depth; branches have at least two children,
  leaves at least one entry.\<close>

fun tree_ok :: "tree_env \<Rightarrow> bool \<Rightarrow> nat \<Rightarrow> nat \<Rightarrow> u64 \<Rightarrow> btree \<Rightarrow> bool" where
  "tree_ok env im psz 0 pgno (Leaf a p ns) \<longleftrightarrow> fetch env im pgno = Some (a, p) \<and> page_rep psz p ns \<and> IS_LEAF p \<and> \<not> IS_BRANCH p \<and>
     ns \<noteq> [] \<and> (\<forall>n\<in>set ns. readable env im n)"
| "tree_ok env im psz (Suc h) pgno (Branch a p bs ts) \<longleftrightarrow> fetch env im pgno = Some (a, p) \<and> page_rep psz p bs \<and> IS_BRANCH p \<and> \<not> IS_LEAF p \<and>
     length bs = length ts \<and> 1 < length ts \<and> (\<forall>i<length ts. tree_ok env im psz h (node_pgno (bs ! i)) (ts ! i))"
| "tree_ok env im psz _ pgno _ \<longleftrightarrow> False"

lemma tree_ok_page:
  "tree_ok env im psz h pgno t \<Longrightarrow> fetch env im pgno = Some (t_addr t, t_page t) \<and> page_rep psz (t_page t) (t_nodes t) \<and> t_nodes t \<noteq> [] \<and>
    (IS_BRANCH (t_page t) \<longleftrightarrow> h \<noteq> 0) \<and> (IS_LEAF (t_page t) \<longleftrightarrow> h = 0) \<and> object_at env (t_addr t) = Some (t_page t)"
  by (cases "(env, im, psz, h, pgno, t)" rule: tree_ok.cases) (auto simp: fetch_def bind_eq_Some_conv)

lemma tree_ok_leaf: "tree_ok env im psz 0 pgno t \<Longrightarrow> \<exists>a p ns. t = Leaf a p ns"
  by (cases t) auto

lemma tree_ok_branch: "tree_ok env im psz (Suc h) pgno t \<Longrightarrow> \<exists>a p bs ts. t = Branch a p bs ts"
  by (cases t) auto

lemma entries_nonempty: "tree_ok env im psz h pgno t \<Longrightarrow> entries t \<noteq> []"
proof (induction h arbitrary: pgno t)
  case (Suc h)
  obtain a p bs ts where t: "t = Branch a p bs ts" using tree_ok_branch [OF Suc.prems] by blast
  then have len: "0 < length ts" using Suc.prems by auto
  then have "tree_ok env im psz h (node_pgno (bs ! 0)) (ts ! 0)" using Suc.prems t by simp
  then show ?case using Suc.IH t nth_mem [OF len] by auto
next
  case 0
  then show ?case by (cases t) auto
qed

text \<open>A path from a page up to the root, with the index at each page: the stack of a cursor, from the top.\<close>

type_synonym path = "(btree \<times> nat) list"

fun path_ok :: "tree_env \<Rightarrow> bool \<Rightarrow> nat \<Rightarrow> nat \<Rightarrow> path \<Rightarrow> bool" where
  "path_ok env im psz h [] \<longleftrightarrow> False"
| "path_ok env im psz h [(t, i)] \<longleftrightarrow> (\<exists>pgno. tree_ok env im psz h pgno t)"
| "path_ok env im psz h ((t, i) # (b, k) # ps) \<longleftrightarrow> k < length (children b) \<and> t = children b ! k \<and> path_ok env im psz (Suc h) ((b, k) # ps)"

lemma tree_ok_child:
  assumes "tree_ok env im psz (Suc h) pgno b" "k < length (children b)"
  shows "tree_ok env im psz h (node_pgno (t_nodes b ! k)) (children b ! k)" "length (t_nodes b) = length (children b)" "1 < length (children b)"
    "entries b = concat (map entries (children b))"
  using assms tree_ok_branch [OF assms(1)] by auto

lemma path_ok_top: "path_ok env im psz h ((t, i) # ps) \<Longrightarrow> \<exists>pgno. tree_ok env im psz h pgno t"
proof (induction env im psz h "(t, i) # ps" arbitrary: t i ps rule: path_ok.induct)
  case (3 env im psz h t i b k ps)
  then obtain pgno where "tree_ok env im psz (Suc h) pgno b" by auto
  from tree_ok_child(1) [OF this, of k] 3 show ?case by auto
qed auto

lemma path_ok_index: "path_ok env im psz h ((t, i) # ps) \<Longrightarrow> path_ok env im psz h ((t, j) # ps)"
  by (cases ps) auto

text \<open>The entries to the left and to the right of the page on top.\<close>

fun before :: "path \<Rightarrow> node list" where
  "before [] = []"
| "before ((b, k) # ps) = before ps @ concat (map entries (take k (children b)))"

fun behind :: "path \<Rightarrow> node list" where
  "behind [] = []"
| "behind ((b, k) # ps) = concat (map entries (drop (Suc k) (children b))) @ behind ps"

lemma path_entries:
  "path_ok env im psz h ((t, i) # ps) \<Longrightarrow> entries (fst (last ((t, i) # ps))) = before ps @ entries t @ behind ps"
proof (induction env im psz h "(t, i) # ps" arbitrary: t i ps rule: path_ok.induct)
  case (3 env im psz h t i b k ps)
  obtain pgno where b: "tree_ok env im psz (Suc h) pgno b" using path_ok_top 3 by fastforce
  have "children b = take k (children b) @ t # drop (Suc k) (children b)" using 3 by (simp add: id_take_nth_drop)
  then have "entries b = concat (map entries (take k (children b))) @ entries t @ concat (map entries (drop (Suc k) (children b)))"
    using tree_ok_child(4) [OF b] 3 by (metis (no_types, lifting) concat.simps(2) concat_append list.simps(9) map_append path_ok.simps(3))
  then show ?case using 3 by simp
qed auto

section \<open>The stack of a cursor\<close>

definition stack_is :: "cursor \<Rightarrow> path \<Rightarrow> bool" where
  "stack_is c st \<longleftrightarrow> st \<noteq> [] \<and> mc_snum c = length st \<and> mc_top c = length st - 1 \<and> length st \<le> CURSOR_STACK \<and>
     length (mc_pg c) = CURSOR_STACK \<and> length (mc_ki c) = CURSOR_STACK \<and>
     take (length st) (mc_pg c) = rev (map (t_addr \<circ> fst) st) \<and> take (length st) (mc_ki c) = rev (map snd st)"

text \<open>What the moves leave alone.\<close>

definition same_handle :: "cursor \<Rightarrow> cursor \<Rightarrow> bool" where
  "same_handle c c' \<longleftrightarrow> mt_flags c' = mt_flags c \<and> mc_dbi c' = mc_dbi c \<and> mc_db c' = mc_db c \<and> md_cmp c' = md_cmp c \<and>
     md_name c' = md_name c \<and> db_stale c' = db_stale c \<and> dbi_changed c' = dbi_changed c \<and> mc_flags c' = mc_flags c"

lemma same_handle_refl [simp]: "same_handle c c"
  by (simp add: same_handle_def)

lemma same_handle_trans: "same_handle a b \<Longrightarrow> same_handle b c \<Longrightarrow> same_handle a c"
  by (simp add: same_handle_def)

lemma same_handleD: "same_handle c c' \<Longrightarrow> mc_flags c' = mc_flags c \<and> mt_flags c' = mt_flags c \<and> mc_db c' = mc_db c \<and>
    md_cmp c' = md_cmp c \<and> mc_dbi c' = mc_dbi c \<and> db_stale c' = db_stale c \<and> in_map c' = in_map c"
  by (auto simp: same_handle_def in_map_def)

lemma stack_top:
  assumes "stack_is c ((t, i) # ps)"
  shows "top_ki c = Some i" "peek (mc_pg c) (mc_top c) = Some (t_addr t)" "mc_top c = length ps"
proof -
  have a: "length ps < 32" "length (mc_pg c) = 32" "length (mc_ki c) = 32" "mc_top c = length ps"
    "take (Suc (length ps)) (mc_pg c) = rev (map (t_addr \<circ> fst) ps) @ [t_addr t]" "take (Suc (length ps)) (mc_ki c) = rev (map snd ps) @ [i]"
    using assms by (auto simp: stack_is_def)
  have "take (Suc (length ps)) (mc_pg c) ! length ps = t_addr t" "take (Suc (length ps)) (mc_ki c) ! length ps = i"
    unfolding a(5,6) by (simp_all add: nth_append)
  then show "top_ki c = Some i" "peek (mc_pg c) (mc_top c) = Some (t_addr t)" "mc_top c = length ps"
    using a(1-4) by (simp_all add: top_ki_def peek_def)
qed

lemma stack_top_page:
  assumes "stack_is c ((t, i) # ps)" "path_ok env im psz h ((t, i) # ps)"
  shows "top_page env c = Some (t_page t)"
  using stack_top [OF assms(1)] path_ok_top [OF assms(2)] tree_ok_page by (fastforce simp: top_page_def page_at_def)

lemma stack_set_ki:
  assumes "stack_is c ((t, i) # ps)"
  shows "\<exists>c'. set_ki c v = Some c' \<and> stack_is c' ((t, v mod 65536) # ps) \<and> same_handle c c' \<and> mc_pg c' = mc_pg c"
proof -
  have a: "length ps < 32" "length (mc_ki c) = 32" "mc_top c = length ps" "take (Suc (length ps)) (mc_ki c) = rev (map snd ps) @ [i]"
    using assms by (auto simp: stack_is_def)
  have "take (length ps) (mc_ki c) = take (length ps) (take (Suc (length ps)) (mc_ki c))" by simp
  also have "\<dots> = rev (map snd ps)" unfolding a(4) by simp
  finally have "take (Suc (length ps)) ((mc_ki c)[length ps := v mod 65536]) = rev (map snd ps) @ [v mod 65536]"
    using a(1,2) by (simp add: take_Suc_conv_app_nth)
  moreover have "set_ki c v = Some (c\<lparr>mc_ki := (mc_ki c)[length ps := v mod 65536]\<rparr>)" using a by (simp add: set_ki_def poke_def)
  ultimately show ?thesis using assms by (auto simp: stack_is_def same_handle_def)
qed

lemma stack_push:
  assumes "stack_is c st" "length st < CURSOR_STACK"
  shows "\<exists>c'. mdb_cursor_push c (t_addr t) = Some (MDB_SUCCESS, c') \<and> stack_is c' ((t, 0) # st) \<and> same_handle c c'"
proof -
  have a: "mc_snum c = length st" "length (mc_pg c) = 32" "length (mc_ki c) = 32"
    "take (length st) (mc_pg c) = rev (map (t_addr \<circ> fst) st)" "take (length st) (mc_ki c) = rev (map snd st)"
    using assms(1) by (auto simp: stack_is_def)
  let ?c = "c\<lparr>mc_top := length st, mc_snum := length st + 1, mc_pg := (mc_pg c)[length st := t_addr t], mc_ki := (mc_ki c)[length st := 0]\<rparr>"
  have "mdb_cursor_push c (t_addr t) = Some (MDB_SUCCESS, ?c)" using a assms(2) by (simp add: mdb_cursor_push_def poke_def Let_def)
  moreover have "stack_is ?c ((t, 0) # st)" using a assms(2) by (simp add: stack_is_def take_Suc_conv_app_nth)
  moreover have "same_handle c ?c" by (auto simp: same_handle_def)
  ultimately show ?thesis by blast
qed

lemma stack_pop:
  assumes "stack_is c (x # y # ps)"
  shows "stack_is (mdb_cursor_pop c) (y # ps)" "same_handle c (mdb_cursor_pop c)"
    "mdb_cursor_pop c = c\<lparr>mc_snum := Suc (length ps), mc_top := length ps\<rparr>" "mc_snum c = Suc (Suc (length ps))" "mc_top c = Suc (length ps)"
proof -
  have a: "mc_snum c = Suc (Suc (length ps))" "mc_top c = Suc (length ps)" "length ps < 31"
    "take (Suc (Suc (length ps))) (mc_pg c) = rev (map (t_addr \<circ> fst) (y # ps)) @ [t_addr (fst x)]"
    "take (Suc (Suc (length ps))) (mc_ki c) = rev (map snd (y # ps)) @ [snd x]"
    using assms by (auto simp: stack_is_def)
  then show p: "mdb_cursor_pop c = c\<lparr>mc_snum := Suc (length ps), mc_top := length ps\<rparr>" "mc_snum c = Suc (Suc (length ps))" "mc_top c = Suc (length ps)"
    by (simp_all add: mdb_cursor_pop_def Let_def)
  have "take (Suc (length ps)) (mc_pg c) = take (Suc (length ps)) (take (Suc (Suc (length ps))) (mc_pg c))"
    "take (Suc (length ps)) (mc_ki c) = take (Suc (length ps)) (take (Suc (Suc (length ps))) (mc_ki c))" by simp_all
  then have "take (Suc (length ps)) (mc_pg c) = rev (map (t_addr \<circ> fst) (y # ps))" "take (Suc (length ps)) (mc_ki c) = rev (map snd (y # ps))"
    unfolding a(4,5) by simp_all
  then show "stack_is (mdb_cursor_pop c) (y # ps)" unfolding p(1) using assms by (simp add: stack_is_def)
  show "same_handle c (mdb_cursor_pop c)" unfolding p(1) by (auto simp: same_handle_def)
qed

section \<open>Siblings\<close>

text \<open>The next page of the same level to the right or to the left, with the parents on the way, and the index the
  cursor has on it.\<close>

definition start :: "bool \<Rightarrow> btree \<Rightarrow> nat" where
  "start right t = (if right then 0 else length (t_nodes t) - 1)"

fun sib :: "bool \<Rightarrow> path \<Rightarrow> path option" where
  "sib right [] = None"
| "sib right [x] = None"
| "sib right ((t, i) # (b, k) # ps) =
     (if (if right then k + 1 \<ge> length (children b) else k = 0) then
        (case sib right ((b, k) # ps) of
           Some ((b', k') # ps') \<Rightarrow> Some ((children b' ! k', start right (children b' ! k')) # (b', k') # ps')
         | _ \<Rightarrow> None)
      else (let k' = (if right then k + 1 else k - 1)
            in Some ((children b ! k', start right (children b ! k')) # (b, k') # ps)))"

lemma sib_None: "sib right st = None \<Longrightarrow> (if right then behind (tl st) = [] else before (tl st) = [])"
proof (induction right st rule: sib.induct)
  case (3 right t i b k ps)
  have "sib right ((b, k) # ps) \<noteq> Some []"
    by (cases "(right, (b, k) # ps)" rule: sib.cases) (auto simp: Let_def split: option.splits list.splits)
  then show ?case using 3 by (auto simp: Let_def split: if_splits option.splits list.splits)
qed auto

lemma concat_take_last: "0 < k \<Longrightarrow> k \<le> length xs \<Longrightarrow> concat (map f (take k xs)) = concat (map f (take (k - 1) xs)) @ f (xs ! (k - 1))"
  by (cases k) (auto simp: take_Suc_conv_app_nth)

text \<open>What the step keeps, and what it does to the entries around the page on top.\<close>

definition sib_step :: "bool \<Rightarrow> path \<Rightarrow> path \<Rightarrow> bool" where
  "sib_step right st st' \<longleftrightarrow> st' \<noteq> [] \<and> length st' = length st \<and> fst (last st') = fst (last st) \<and> snd (hd st') = start right (fst (hd st')) \<and>
     (if right then entries (fst (hd st')) @ behind (tl st') = behind (tl st)
      else before (tl st') @ entries (fst (hd st')) = before (tl st))"

lemma sib_Some: "path_ok env im psz h st \<Longrightarrow> sib right st = Some st' \<Longrightarrow> path_ok env im psz h st' \<and> sib_step right st st'"
proof (induction right st arbitrary: h st' rule: sib.induct)
  case (3 right t i b k ps)
  have b: "path_ok env im psz (Suc h) ((b, k) # ps)" and k: "k < length (children b)" using "3.prems"(1) by auto
  show ?case
  proof (cases "if right then k + 1 \<ge> length (children b) else k = 0")
    case False
    let ?k = "if right then k + 1 else k - 1"
    have st': "st' = (children b ! ?k, start right (children b ! ?k)) # (b, ?k) # ps" using "3.prems"(2) False by (simp add: Let_def)
    have "?k < length (children b)" using False k by (auto split: if_splits)
    then have "path_ok env im psz h st'" unfolding st' using path_ok_index [OF b] by simp
    moreover have "sib_step right ((t, i) # (b, k) # ps) st'"
    proof (cases right)
      case True
      have "drop (Suc k) (children b) = children b ! Suc k # drop (Suc (Suc k)) (children b)" using False True k by (intro Cons_nth_drop_Suc [symmetric]) auto
      then show ?thesis using True by (simp add: st' sib_step_def)
    next
      case nr: False
      then show ?thesis using False k concat_take_last [of k "children b" entries] by (simp add: st' sib_step_def)
    qed
    ultimately show ?thesis by blast
  next
    case True
    obtain b' k' ps' where s: "sib right ((b, k) # ps) = Some ((b', k') # ps')"
      and st': "st' = (children b' ! k', start right (children b' ! k')) # (b', k') # ps'"
      using "3.prems"(2) unfolding sib.simps if_P [OF True] by (auto split: option.splits list.splits)
    have IH: "path_ok env im psz (Suc h) ((b', k') # ps')" "sib_step right ((b, k) # ps) ((b', k') # ps')" using "3.IH" [OF True b s] by auto
    obtain pgno where "tree_ok env im psz (Suc h) pgno b'" using path_ok_top [OF IH(1)] by blast
    from tree_ok_child(2,3) [OF this, of 0] tree_ok_branch [OF this]
    have n: "length (t_nodes b') = length (children b')" "1 < length (children b')" "entries b' = concat (map entries (children b'))"
      using \<open>tree_ok env im psz (Suc h) pgno b'\<close> by auto
    have k': "k' = start right b'" using IH(2) by (simp add: sib_step_def)
    then have "k' < length (children b')" using n by (auto simp: start_def)
    then have "path_ok env im psz h st'" unfolding st' using IH(1) by simp
    moreover have "sib_step right ((t, i) # (b, k) # ps) st'"
    proof (cases right)
      case r: True
      then have k0: "k' = 0" using k' by (simp add: start_def)
      have "children b' = children b' ! 0 # drop (Suc 0) (children b')" using n(2) by (cases "children b'") auto
      then have "entries b' = entries (children b' ! 0) @ concat (map entries (drop (Suc 0) (children b')))" unfolding n(3) by (metis concat.simps(2) list.simps(9))
      then show ?thesis using r IH(2) True k0 by (simp add: st' sib_step_def)
    next
      case r: False
      then have kl: "k' = length (children b') - 1" using k' n by (simp add: start_def)
      have sl: "start False b' = length (children b') - 1" using n(1) by (simp add: start_def)
      have "entries b' = concat (map entries (take (length (children b') - 1) (children b'))) @ entries (children b' ! (length (children b') - 1))"
        using concat_take_last [of "length (children b')" "children b'" entries] n(2,3) by (cases "children b' = []") simp_all
      then show ?thesis using r IH(2) True kl sl by (simp add: st' sib_step_def)
    qed
    ultimately show ?thesis by blast
  qed
qed auto

lemma last_index: "0 < n \<Longrightarrow> n < 65536 \<Longrightarrow> (n + 65535) mod 65536 = n - (1 :: nat)"
  using mod_add_self2 [of "n - 1" 65536] by (simp add: add.commute)

lemma push_sibling_stack:
  assumes st: "stack_is c ((b, k) # ps)" and ok: "path_ok env (in_map c) psz (Suc h) ((b, k) # ps)" and k: "k < length (children b)"
    and room: "Suc (length ps) < CURSOR_STACK"
  shows "\<exists>c'. push_sibling env right c = Some (MDB_SUCCESS, c') \<and> same_handle c c' \<and>
    stack_is c' ((children b ! k, start right (children b ! k)) # (b, k) # ps)"
proof -
  obtain pgno where b: "tree_ok env (in_map c) psz (Suc h) pgno b" using path_ok_top [OF ok] by blast
  note ch = tree_ok_child [OF b k]
  have pg: "IS_BRANCH (t_page b)" "page_rep psz (t_page b) (t_nodes b)" using tree_ok_page [OF b] by auto
  obtain q where q: "node_there (t_page b) k (t_nodes b ! k) q" using page_nodes [OF pg(2), of k] k ch(2) by auto
  let ?t = "children b ! k"
  note t = tree_ok_page [OF ch(1)]
  obtain l where g: "mdb_page_get env c (node_pgno (t_nodes b ! k)) = Some (MDB_SUCCESS, c, t_addr ?t, l)"
    using mdb_page_get_fetch [of env c] t by blast
  obtain c1 where c1: "mdb_cursor_push c (t_addr ?t) = Some (MDB_SUCCESS, c1)" "stack_is c1 ((?t, 0) # (b, k) # ps)" "same_handle c c1"
    using stack_push [OF st, of ?t] room by auto
  have "0 < length (t_nodes ?t)" "length (t_nodes ?t) < 65536" "NUMKEYS (t_page ?t) = length (t_nodes ?t)" using t page_rep_keys [of psz "t_page ?t"] by auto
  then have "(NUMKEYS (t_page ?t) + 65535) mod 65536 = start False ?t" by (simp add: start_def last_index)
  then obtain c2 where c2: "set_ki c1 (NUMKEYS (t_page ?t) + 65535) = Some c2" "stack_is c2 ((?t, start False ?t) # (b, k) # ps)" "same_handle c c2"
    using stack_set_ki [OF c1(2), of "NUMKEYS (t_page ?t) + 65535"] same_handle_trans [OF c1(3)] by auto
  have eq: "push_sibling env right c = do { c \<leftarrow> (if right then Some c1 else set_ki c1 (NUMKEYS (t_page ?t) + 65535)); Some (MDB_SUCCESS, c) }"
    using q pg(1) g c1(1) t by (simp add: push_sibling_def stack_top_page [OF st ok] stack_top [OF st] node_there_def)
  show ?thesis unfolding eq using c1(2,3) c2 by (cases right) (auto simp: start_def)
qed

lemma mdb_cursor_sibling_stack:
  "stack_is c st \<Longrightarrow> path_ok env (in_map c) psz h st \<Longrightarrow>
    (case sib right st of
       None \<Rightarrow> mdb_cursor_sibling env right c = Some (MDB_NOTFOUND, c)
     | Some st' \<Rightarrow> \<exists>c'. mdb_cursor_sibling env right c = Some (MDB_SUCCESS, c') \<and> stack_is c' st' \<and> same_handle c c')"
proof (induction right st arbitrary: c h rule: sib.induct)
  case (1 right)
  then show ?case by (simp add: stack_is_def)
next
  case (2 right x)
  then have "mc_snum c = 1" by (simp add: stack_is_def)
  then show ?case by (simp add: mdb_cursor_sibling.simps [of env right c])
next
  case (3 right t i b k ps)
  let ?c = "mdb_cursor_pop c"
  note pop = stack_pop [OF "3.prems"(1)]
  have im: "in_map ?c = in_map c" using same_handleD [OF pop(2)] by simp
  have ok: "path_ok env (in_map ?c) psz (Suc h) ((b, k) # ps)" and k: "k < length (children b)" using "3.prems"(2) im by auto
  have room: "Suc (length ps) < CURSOR_STACK" using "3.prems"(1) by (simp add: stack_is_def)
  obtain pgno where b: "tree_ok env (in_map ?c) psz (Suc h) pgno b" using path_ok_top [OF ok] by blast
  have n: "NUMKEYS (t_page b) = length (children b)" using tree_ok_page [OF b] page_rep_keys tree_ok_child(2) [OF b k] by metis
  have lt: "length (children b) < 65536" using tree_ok_page [OF b] page_rep_keys [of psz "t_page b" "t_nodes b"] tree_ok_child(2) [OF b k] by simp
  have top: "top_page env ?c = Some (t_page b)" "top_ki ?c = Some k" using stack_top_page [OF pop(1) ok] stack_top [OF pop(1)] by auto
  have un: "mdb_cursor_sibling env right c =
      (if (if right then k + 1 \<ge> length (children b) else k = 0) then
         (case mdb_cursor_sibling env right ?c of
            None \<Rightarrow> None
          | Some (rc, c) \<Rightarrow> if rc \<noteq> 0 then Some (rc, c\<lparr>mc_top := mc_top c + 1, mc_snum := mc_snum c + 1\<rparr>) else push_sibling env right c)
       else (case set_ki ?c (if right then k + 1 else k - 1) of None \<Rightarrow> None | Some c \<Rightarrow> push_sibling env right c))"
    using pop(4) top n by (subst mdb_cursor_sibling.simps) (simp only: Let_def option.case, simp)
  show ?case
  proof (cases "if right then k + 1 \<ge> length (children b) else k = 0")
    case True
    note IH = "3.IH" [OF True pop(1) ok]
    show ?thesis
    proof (cases "sib right ((b, k) # ps)")
      case None
      have "?c\<lparr>mc_top := mc_top ?c + 1, mc_snum := mc_snum ?c + 1\<rparr> = c" unfolding pop(3) using pop(4,5) by simp
      then have "mdb_cursor_sibling env right c = Some (MDB_NOTFOUND, c)" unfolding un if_P [OF True] using IH None by simp
      moreover have "sib right ((t, i) # (b, k) # ps) = None" unfolding sib.simps if_P [OF True] None by simp
      ultimately show ?thesis by simp
    next
      case (Some st1)
      obtain c1 where c1: "mdb_cursor_sibling env right ?c = Some (MDB_SUCCESS, c1)" "stack_is c1 st1" "same_handle ?c c1" using IH Some by auto
      note s = sib_Some [OF ok Some]
      obtain b' k' ps' where st1: "st1 = (b', k') # ps'" using s by (cases st1) (auto simp: sib_step_def)
      have im1: "in_map c1 = in_map ?c" using same_handleD [OF c1(3)] by simp
      have ok1: "path_ok env (in_map c1) psz (Suc h) ((b', k') # ps')" using s st1 im1 by simp
      obtain pg' where b': "tree_ok env (in_map c1) psz (Suc h) pg' b'" using path_ok_top [OF ok1] by blast
      have "k' = start right b'" using s st1 by (simp add: sib_step_def)
      moreover have "length (t_nodes b') = length (children b')" "1 < length (children b')" using b' tree_ok_branch [OF b'] by auto
      ultimately have k': "k' < length (children b')" by (auto simp: start_def)
      have "length ps' = length ps" using s st1 by (simp add: sib_step_def)
      then obtain c2 where "push_sibling env right c1 = Some (MDB_SUCCESS, c2)" "same_handle c1 c2"
          "stack_is c2 ((children b' ! k', start right (children b' ! k')) # (b', k') # ps')"
        using push_sibling_stack [OF c1(2) [unfolded st1] ok1 k'] room by auto
      moreover have "sib right ((t, i) # (b, k) # ps) = Some ((children b' ! k', start right (children b' ! k')) # (b', k') # ps')"
        unfolding sib.simps if_P [OF True] Some st1 by simp
      moreover have "same_handle c c2" using same_handle_trans [OF same_handle_trans [OF pop(2) c1(3)]] calculation(2) by blast
      ultimately show ?thesis unfolding un if_P [OF True] using c1(1) by simp
    qed
  next
    case False
    let ?k = "if right then k + 1 else k - 1"
    have k': "?k < length (children b)" "?k mod 65536 = ?k" using False k lt by (auto split: if_splits)
    obtain c1 where c1: "set_ki ?c ?k = Some c1" "stack_is c1 ((b, ?k) # ps)" "same_handle ?c c1"
      using stack_set_ki [OF pop(1), of ?k] k'(2) by auto
    have ok1: "path_ok env (in_map c1) psz (Suc h) ((b, ?k) # ps)" using path_ok_index [OF ok, of ?k] same_handleD [OF c1(3)] by simp
    obtain c2 where c2: "push_sibling env right c1 = Some (MDB_SUCCESS, c2)" "same_handle c1 c2" "stack_is c2 ((children b ! ?k, start right (children b ! ?k)) # (b, ?k) # ps)"
      using push_sibling_stack [OF c1(2) ok1 k'(1) room, of right] by blast
    have "mdb_cursor_sibling env right c = Some (MDB_SUCCESS, c2)" unfolding un if_not_P [OF False] c1(1) using c2(1) by simp
    moreover have "sib right ((t, i) # (b, k) # ps) = Some ((children b ! ?k, start right (children b ! ?k)) # (b, ?k) # ps)"
      unfolding sib.simps if_not_P [OF False] Let_def by simp
    moreover have "same_handle c c2" using same_handle_trans [OF same_handle_trans [OF pop(2) c1(3)] c2(2)] .
    ultimately show ?thesis using c2(3) by simp
  qed
qed

end
