(* ===== verification/Lmdb_Scan.thy ===== *)
theory Lmdb_Scan
  imports Lmdb_Tree
begin

text \<open>
  Searching and moving in a tree of pages: the descent from the root with its three ways of choosing a
  branch, the moves of a cursor to the first, last, next and previous entry, as moves in the list of
  the entries of the tree.
\<close>

section \<open>The flags of a cursor\<close>

lemma flag_bits [simp]:
  "has (w OR C_INITIALIZED) C_INITIALIZED" "has (w AND - 3) C_INITIALIZED = has w C_INITIALIZED" "\<not> has (w AND - 3) C_EOF"
  "has (w OR C_INITIALIZED) C_IN_MAP = has w C_IN_MAP" "has (w AND - 3) C_IN_MAP = has w C_IN_MAP" "has (w OR C_EOF) C_IN_MAP = has w C_IN_MAP"
  "has (w OR C_EOF) C_EOF" "has (w OR C_EOF) C_INITIALIZED = has w C_INITIALIZED" "has (w AND - 9) C_INITIALIZED = has w C_INITIALIZED"
  "has (w AND - 9) C_EOF = has w C_EOF" "\<not> has (w AND - 9) C_DEL" "has (w AND - 9) C_IN_MAP = has w C_IN_MAP"
  "has (w OR C_INITIALIZED) C_DEL = has w C_DEL" "has (w AND - 3) C_DEL = has w C_DEL" "has (w OR C_EOF) C_DEL = has w C_DEL"
  "has (w OR C_INITIALIZED) C_EOF = has w C_EOF"
  for w :: u32
  by (simp_all add: has_def bit.conj_disj_distrib2 and.assoc)

text \<open>The cursor with other flags: its handle and its stack are the same.\<close>

definition same_place :: "cursor \<Rightarrow> cursor \<Rightarrow> bool" where
  "same_place c c' \<longleftrightarrow> mt_flags c' = mt_flags c \<and> mc_dbi c' = mc_dbi c \<and> mc_db c' = mc_db c \<and> md_cmp c' = md_cmp c \<and>
     md_name c' = md_name c \<and> db_stale c' = db_stale c \<and> dbi_changed c' = dbi_changed c \<and> in_map c' = in_map c"

lemma same_place_refl [simp]: "same_place c c"
  by (simp add: same_place_def)

lemma same_place_trans: "same_place a b \<Longrightarrow> same_place b c \<Longrightarrow> same_place a c"
  by (simp add: same_place_def)

lemma same_handle_place: "same_handle c c' \<Longrightarrow> same_place c c'"
  by (auto simp: same_handle_def same_place_def in_map_def)

lemma flags_place [simp]:
  "same_place c (raise_flag C_INITIALIZED c)" "same_place c (raise_flag C_EOF c)" "same_place c (clear_flag C_EOF c)" "same_place c (clear_flag C_DEL c)"
  by (simp_all add: same_place_def raise_flag_def clear_flag_def in_map_def)

lemma flags_both [simp]: "same_place c (clear_flag C_EOF (raise_flag C_INITIALIZED c))" "same_place c (raise_flag C_EOF (raise_flag C_INITIALIZED c))"
  by (simp_all add: same_place_def raise_flag_def clear_flag_def in_map_def)

lemma flags_stack [simp]: "stack_is (raise_flag f c) st = stack_is c st" "stack_is (clear_flag f c) st = stack_is c st"
  by (simp_all add: stack_is_def raise_flag_def clear_flag_def)

lemma flags_value [simp]: "mc_flags (raise_flag f c) = mc_flags c OR f" "mc_flags (clear_flag f c) = mc_flags c AND NOT f"
  "in_map (raise_flag C_INITIALIZED c) = in_map c" "in_map (raise_flag C_EOF c) = in_map c" "in_map (clear_flag C_EOF c) = in_map c"
  "in_map (clear_flag C_DEL c) = in_map c"
  by (simp_all add: raise_flag_def clear_flag_def in_map_def)

section \<open>The descent\<close>

lemma turn_leaf:
  assumes "tree_ok env im psz 0 pgno t"
  shows "search_turn env mode c (t_addr t) = Some (Inl (MDB_SUCCESS, clear_flag C_EOF (raise_flag C_INITIALIZED c)))"
  using tree_ok_page [OF assms] by (simp add: search_turn_def)

lemma descend_stack:
  assumes st: "stack_is c ((b, i) # ps)" and ok: "path_ok env (in_map c) psz (Suc h) ((b, i) # ps)" and k: "k < length (children b)"
    and room: "Suc (length ps) < CURSOR_STACK"
  shows "\<exists>c'. descend env c (t_page b) k = Some (MDB_SUCCESS, c', t_addr (children b ! k)) \<and> same_handle c c' \<and>
    stack_is c' ((children b ! k, 0) # (b, k) # ps)"
proof -
  obtain pgno where b: "tree_ok env (in_map c) psz (Suc h) pgno b" using path_ok_top [OF ok] by blast
  note ch = tree_ok_child [OF b k]
  have pg: "page_rep psz (t_page b) (t_nodes b)" "NUMKEYS (t_page b) = length (children b)" "length (children b) < 65536"
    using tree_ok_page [OF b] page_rep_keys [of psz "t_page b" "t_nodes b"] ch(2) by auto
  obtain q where q: "node_there (t_page b) k (t_nodes b ! k) q" using page_nodes [OF pg(1), of k] k ch(2) by auto
  let ?t = "children b ! k"
  obtain l where g: "mdb_page_get env c (node_pgno (t_nodes b ! k)) = Some (MDB_SUCCESS, c, t_addr ?t, l)"
    using mdb_page_get_fetch [of env c] tree_ok_page [OF ch(1)] by blast
  obtain c1 where c1: "set_ki c k = Some c1" "stack_is c1 ((b, k) # ps)" "same_handle c c1"
    using stack_set_ki [OF st, of k] k pg(3) by auto
  obtain c2 where c2: "mdb_cursor_push c1 (t_addr ?t) = Some (MDB_SUCCESS, c2)" "stack_is c2 ((?t, 0) # (b, k) # ps)" "same_handle c1 c2"
    using stack_push [OF c1(2), of ?t] room by auto
  have "descend env c (t_page b) k = Some (MDB_SUCCESS, c2, t_addr ?t)"
    unfolding descend_def using q k pg(2) g c1(1) c2(1) by (simp add: node_there_def)
  then show ?thesis using c2 same_handle_trans [OF c1(3) c2(3)] by blast
qed

text \<open>One way of choosing branches, with a property \<open>Q\<close> of the way down that it keeps.\<close>

definition chooses :: "tree_env \<Rightarrow> nat \<Rightarrow> ps_mode \<Rightarrow> cursor \<Rightarrow> (btree \<Rightarrow> nat \<Rightarrow> path \<Rightarrow> bool) \<Rightarrow> bool" where
  "chooses env psz mode c0 Q \<longleftrightarrow> (\<forall>c t i ps h. same_handle c0 c \<longrightarrow> stack_is c ((t, i) # ps) \<longrightarrow> path_ok env (in_map c) psz (Suc h) ((t, i) # ps) \<longrightarrow> Q t i ps \<longrightarrow>
     (\<exists>k c1 i1. branch_index env mode c (t_page t) = Some (Some k, c1) \<and> stack_is c1 ((t, i1) # ps) \<and> same_handle c c1 \<and>
        k < length (children t) \<and> Q (children t ! k) 0 ((t, k) # ps)))"

lemma turn_branch:
  assumes ch: "chooses env psz mode c0 Q" "same_handle c0 c" "Q t i ps"
    and st: "stack_is c ((t, i) # ps)" and ok: "path_ok env (in_map c) psz (Suc h) ((t, i) # ps)" and room: "Suc (length ps) < CURSOR_STACK"
  obtains c' k where "search_turn env mode c (t_addr t) = Some (Inr (c', t_addr (children t ! k)))" "same_handle c c'" "k < length (children t)"
    "Q (children t ! k) 0 ((t, k) # ps)" "stack_is c' ((children t ! k, 0) # (t, k) # ps)"
proof -
  obtain k c1 i1 where k: "branch_index env mode c (t_page t) = Some (Some k, c1)" "stack_is c1 ((t, i1) # ps)" "same_handle c c1"
      "k < length (children t)" "Q (children t ! k) 0 ((t, k) # ps)"
    using ch st ok unfolding chooses_def by blast
  have ok1: "path_ok env (in_map c1) psz (Suc h) ((t, i1) # ps)" using path_ok_index [OF ok, of i1] same_handleD [OF k(3)] by simp
  obtain c2 where c2: "descend env c1 (t_page t) k = Some (MDB_SUCCESS, c2, t_addr (children t ! k))" "same_handle c1 c2"
      "stack_is c2 ((children t ! k, 0) # (t, k) # ps)"
    using descend_stack [OF k(2) ok1 k(4) room] by blast
  obtain pgno where b: "tree_ok env (in_map c) psz (Suc h) pgno t" using path_ok_top [OF ok] by blast
  have "1 < NUMKEYS (t_page t)" "IS_BRANCH (t_page t)" "object_at env (t_addr t) = Some (t_page t)"
    using tree_ok_page [OF b] page_rep_keys [of psz "t_page t" "t_nodes t"] tree_ok_child(2,3) [OF b k(4)] by auto
  then have "search_turn env mode c (t_addr t) = Some (Inr (c2, t_addr (children t ! k)))"
    using k(1) c2(1) by (simp add: search_turn_def)
  then show thesis using that [of c2 k] k(4,5) c2(2,3) same_handle_trans [OF k(3)] by blast
qed

lemma search_descent:
  assumes ch: "chooses env psz mode c0 Q"
  shows "same_handle c0 c \<Longrightarrow> Q t i ps \<Longrightarrow> stack_is c ((t, i) # ps) \<Longrightarrow> path_ok env (in_map c) psz h ((t, i) # ps) \<Longrightarrow> length ps + h < CURSOR_STACK \<Longrightarrow>
    \<exists>c' t' i' ps'. mdb_page_search_root env mode c (t_addr t) = Some (MDB_SUCCESS, c') \<and> same_handle (clear_flag C_EOF (raise_flag C_INITIALIZED c)) c' \<and>
      stack_is c' ((t', i') # ps') \<and> path_ok env (in_map c') psz 0 ((t', i') # ps') \<and> Q t' i' ps' \<and> fst (last ((t', i') # ps')) = fst (last ((t, i) # ps))"
proof (induction h arbitrary: c t i ps)
  case 0
  obtain pgno where "tree_ok env (in_map c) psz 0 pgno t" using path_ok_top [OF "0.prems"(4)] by blast
  from turn_leaf [OF this, of mode c]
  have "mdb_page_search_root env mode c (t_addr t) = Some (MDB_SUCCESS, clear_flag C_EOF (raise_flag C_INITIALIZED c))"
    by (simp add: mdb_page_search_root.simps [of env mode c])
  then show ?case using "0.prems" by (intro exI [of _ "clear_flag C_EOF (raise_flag C_INITIALIZED c)"] exI [of _ t] exI [of _ i] exI [of _ ps]) simp
next
  case (Suc h)
  have room: "Suc (length ps) < CURSOR_STACK" using Suc.prems(5) by simp
  obtain c1 k where k: "search_turn env mode c (t_addr t) = Some (Inr (c1, t_addr (children t ! k)))" "same_handle c c1" "k < length (children t)"
      "Q (children t ! k) 0 ((t, k) # ps)" "stack_is c1 ((children t ! k, 0) # (t, k) # ps)"
    by (rule turn_branch [OF ch Suc.prems(1-4) room])
  have ok: "path_ok env (in_map c1) psz h ((children t ! k, 0) # (t, k) # ps)"
    using path_ok_index [OF Suc.prems(4), of k] same_handleD [OF k(2)] k(3) by simp
  have un: "mdb_page_search_root env mode c (t_addr t) = mdb_page_search_root env mode c1 (t_addr (children t ! k))"
    using k(1) by (simp add: mdb_page_search_root.simps [of env mode c])
  have h: "same_handle c0 c1" using same_handle_trans [OF Suc.prems(1) k(2)] .
  have r: "length ((t, k) # ps) + h < CURSOR_STACK" using Suc.prems(5) by simp
  obtain c' t' i' ps' where r: "mdb_page_search_root env mode c1 (t_addr (children t ! k)) = Some (MDB_SUCCESS, c')"
      "same_handle (clear_flag C_EOF (raise_flag C_INITIALIZED c1)) c'" "stack_is c' ((t', i') # ps')" "path_ok env (in_map c') psz 0 ((t', i') # ps')" "Q t' i' ps'"
      "fst (last ((t', i') # ps')) = fst (last ((children t ! k, 0) # (t, k) # ps))"
    using Suc.IH [OF h k(4,5) ok r] by blast
  have "same_handle (clear_flag C_EOF (raise_flag C_INITIALIZED c)) c'"
    using r(2) k(2) by (simp add: same_handle_def raise_flag_def clear_flag_def)
  moreover have "fst (last ((t', i') # ps')) = fst (last ((t, i) # ps))" using r(6) by (cases ps) auto
  ultimately show ?case using un r(1,3,4,5) by metis
qed

section \<open>The ways to the first and to the last leaf\<close>

lemma branch_keys:
  assumes "path_ok env im psz (Suc h) ((t, i) # ps)"
  shows "NUMKEYS (t_page t) = length (children t)" "1 < length (children t)" "(NUMKEYS (t_page t) + 65535) mod 65536 = length (children t) - 1"
    "length (children t) < 65536"
proof -
  obtain pgno where b: "tree_ok env im psz (Suc h) pgno t" using path_ok_top [OF assms] by blast
  have c: "length (t_nodes t) = length (children t)" "1 < length (children t)" using b tree_ok_branch [OF b] by auto
  have "NUMKEYS (t_page t) = length (children t)" "length (children t) < 65536"
    using tree_ok_page [OF b] page_rep_keys [of psz "t_page t" "t_nodes t"] c by auto
  moreover have "0 < length (children t)" using c(2) by linarith
  ultimately show "NUMKEYS (t_page t) = length (children t)" "1 < length (children t)" "(NUMKEYS (t_page t) + 65535) mod 65536 = length (children t) - 1"
    "length (children t) < 65536"
    using c(2) last_index [of "length (children t)"] by (simp_all del: length_greater_0_conv)
qed

lemma chooses_first: "chooses env psz PS_FIRST c0 (\<lambda>t i ps. before ps = [])"
  unfolding chooses_def
proof (intro allI impI)
  fix c t i ps h
  assume a: "stack_is c ((t, i) # ps)" "path_ok env (in_map c) psz (Suc h) ((t, i) # ps)" "before ps = []"
  have "0 < length (children t)" using branch_keys(2) [OF a(2)] by linarith
  moreover have "branch_index env PS_FIRST c (t_page t) = Some (Some 0, c)" by (simp add: branch_index_def Let_def)
  moreover have "before ((t, 0) # ps) = []" using a(3) by simp
  ultimately show "\<exists>k c1 i1. branch_index env PS_FIRST c (t_page t) = Some (Some k, c1) \<and> stack_is c1 ((t, i1) # ps) \<and> same_handle c c1 \<and>
      k < length (children t) \<and> before ((t, k) # ps) = []"
    using a(1) same_handle_refl by blast
qed

text \<open>The shortcut of the search for the last page needs an index that is the last one already.\<close>

definition way_last :: "cursor \<Rightarrow> btree \<Rightarrow> nat \<Rightarrow> path \<Rightarrow> bool" where
  "way_last c t i ps \<longleftrightarrow> behind ps = [] \<and> (has (mc_flags c) C_INITIALIZED \<longrightarrow> children t = [] \<or> i + 1 \<noteq> length (children t))"

lemma way_last_down:
  assumes ok: "path_ok env im psz (Suc h) ((t, i) # ps)" and b: "behind ps = []"
  shows "way_last c (children t ! (length (children t) - 1)) 0 ((t, length (children t) - 1) # ps)"
proof -
  have n: "1 < length (children t)" using branch_keys(2) [OF ok] .
  let ?t = "children t ! (length (children t) - 1)"
  obtain pgno where "tree_ok env im psz (Suc h) pgno t" using path_ok_top [OF ok] by blast
  from tree_ok_child(1) [OF this, of "length (children t) - 1"] n
  have d: "tree_ok env im psz h (node_pgno (t_nodes t ! (length (children t) - 1))) ?t" by simp
  have "children ?t = [] \<or> 0 + 1 \<noteq> length (children ?t)"
  proof (cases h)
    case 0
    then obtain a p ns where "?t = Leaf a p ns" using tree_ok_leaf [of env im psz _ ?t] d by blast
    then show ?thesis by simp
  next
    case (Suc h')
    then obtain a p bs ts where u: "?t = Branch a p bs ts" using tree_ok_branch [of env im psz h' _ ?t] d by blast
    then have "1 < length ts" using d Suc by simp
    then show ?thesis using u by simp
  qed
  then show ?thesis unfolding way_last_def using n b by simp
qed

lemma chooses_last: "chooses env psz PS_LAST c0 (way_last c0)"
  unfolding chooses_def
proof (intro allI impI)
  fix c t i ps h
  assume a: "same_handle c0 c" "stack_is c ((t, i) # ps)" "path_ok env (in_map c) psz (Suc h) ((t, i) # ps)" "way_last c0 t i ps"
  note n = branch_keys [OF a(3)]
  have "mc_flags c = mc_flags c0" using same_handleD [OF a(1)] by simp
  then have "\<not> (has (mc_flags c) C_INITIALIZED \<and> i = length (children t) - 1)" using a(4) n(2) by (auto simp: way_last_def)
  then have "branch_index env PS_LAST c (t_page t) = Some (Some (length (children t) - 1), c)"
    using stack_top(1) [OF a(2)] n(3) by (simp add: branch_index_def Let_def)
  moreover have "way_last c0 (children t ! (length (children t) - 1)) 0 ((t, length (children t) - 1) # ps)"
    using way_last_down [OF a(3)] a(4) by (simp add: way_last_def)
  moreover have "length (children t) - 1 < length (children t)" using n(2) by simp
  ultimately show "\<exists>k c1 i1. branch_index env PS_LAST c (t_page t) = Some (Some k, c1) \<and> stack_is c1 ((t, i1) # ps) \<and> same_handle c c1 \<and>
      k < length (children t) \<and> way_last c0 (children t ! k) 0 ((t, k) # ps)"
    using a(2) same_handle_refl by blast
qed

text \<open>The cursor with only a lower part of its stack in use.\<close>

definition cut :: "cursor \<Rightarrow> path \<Rightarrow> cursor" where
  "cut c ps = c\<lparr>mc_snum := Suc (length ps), mc_top := length ps\<rparr>"

lemma cut_handle [simp]: "same_handle c (cut c ps)" "mc_flags (cut c ps) = mc_flags c" "in_map (cut c ps) = in_map c" "mc_pg (cut c ps) = mc_pg c"
  by (simp_all add: cut_def same_handle_def in_map_def)

lemma cut_stack:
  assumes "stack_is c (xs @ (t, i) # ps)"
  shows "stack_is (cut c ps) ((t, i) # ps)"
proof -
  let ?n = "length (xs @ (t, i) # ps)"
  have a: "take ?n (mc_pg c) = rev (map (t_addr \<circ> fst) (xs @ (t, i) # ps))" "take ?n (mc_ki c) = rev (map snd (xs @ (t, i) # ps))" "?n \<le> 32"
    using assms by (simp_all add: stack_is_def)
  have "take (Suc (length ps)) (mc_pg c) = take (Suc (length ps)) (take ?n (mc_pg c))" "take (Suc (length ps)) (mc_ki c) = take (Suc (length ps)) (take ?n (mc_ki c))"
    by (simp_all add: min_def)
  then have "take (Suc (length ps)) (mc_pg c) = rev (map (t_addr \<circ> fst) ((t, i) # ps))" "take (Suc (length ps)) (mc_ki c) = rev (map snd ((t, i) # ps))"
    unfolding a(1,2) by simp_all
  then show ?thesis using assms a(3) by (simp add: stack_is_def cut_def)
qed

lemma path_ok_suffix: "path_ok env im psz h (xs @ x # ps) \<Longrightarrow> path_ok env im psz (h + length xs) (x # ps)"
proof (induction xs arbitrary: h)
  case (Cons y ys)
  have "path_ok env im psz (Suc h) (ys @ x # ps)" using Cons.prems by (cases ys) (auto elim: path_ok.elims)
  from Cons.IH [OF this] show ?case by simp
qed simp

text \<open>From the root to the last leaf on a cursor that has been there before.\<close>

lemma search_last_again:
  assumes st: "stack_is c (xs @ (t, i) # ps)" and ok: "path_ok env (in_map c) psz 0 (xs @ (t, i) # ps)" and b: "behind ps = []"
    and room: "length (xs @ (t, i) # ps) \<le> CURSOR_STACK"
  shows "\<exists>c' t' i' ps'. mdb_page_search_root env PS_LAST (cut c ps) (t_addr t) = Some (MDB_SUCCESS, c') \<and>
    same_handle (clear_flag C_EOF (raise_flag C_INITIALIZED c)) c' \<and>
    stack_is c' ((t', i') # ps') \<and> path_ok env (in_map c') psz 0 ((t', i') # ps') \<and> behind ps' = [] \<and> fst (last ((t', i') # ps')) = fst (last ((t, i) # ps))"
  using assms
proof (induction xs arbitrary: t i ps rule: rev_induct)
  case Nil
  obtain pgno where "tree_ok env (in_map c) psz 0 pgno t" using path_ok_top [of env "in_map c" psz 0 t i ps] Nil.prems(2) by auto
  from turn_leaf [OF this, of PS_LAST "cut c ps"]
  have "mdb_page_search_root env PS_LAST (cut c ps) (t_addr t) = Some (MDB_SUCCESS, clear_flag C_EOF (raise_flag C_INITIALIZED (cut c ps)))"
    by (simp add: mdb_page_search_root.simps [of env PS_LAST "cut c ps"])
  moreover have "same_handle (clear_flag C_EOF (raise_flag C_INITIALIZED c)) (clear_flag C_EOF (raise_flag C_INITIALIZED (cut c ps)))"
    by (simp add: same_handle_def clear_flag_def raise_flag_def cut_def)
  ultimately show ?case using Nil.prems cut_stack [OF Nil.prems(1)]
    by (intro exI [of _ "clear_flag C_EOF (raise_flag C_INITIALIZED (cut c ps))"] exI [of _ t] exI [of _ i] exI [of _ ps]) simp
next
  case (snoc x xs)
  obtain t' i' where x: "x = (t', i')" by (cases x)
  have st': "stack_is c (xs @ (t', i') # (t, i) # ps)" and ok': "path_ok env (in_map c) psz 0 (xs @ (t', i') # (t, i) # ps)"
    using snoc.prems(1,2) x by simp_all
  have okt: "path_ok env (in_map c) psz (Suc (length xs)) ((t, i) # ps)"
    using path_ok_suffix [OF snoc.prems(2)] by simp
  have t': "t' = children t ! i" "i < length (children t)" using path_ok_suffix [OF ok'] by simp_all
  note n = branch_keys [OF okt]
  show ?case
  proof (cases "has (mc_flags c) C_INITIALIZED \<and> i = length (children t) - 1")
    case True
    obtain pgno where g: "tree_ok env (in_map c) psz (Suc (length xs)) pgno t" using path_ok_top [OF okt] by blast
    have bi: "branch_index env PS_LAST (cut c ps) (t_page t) = Some (None, cut c ps)"
      using True stack_top(1) [OF cut_stack [OF snoc.prems(1)]] n(3) by (simp add: branch_index_def Let_def)
    have up: "peek (mc_pg c) (Suc (length ps)) = Some (t_addr t')"
      using stack_top(2,3) [OF cut_stack [OF st']] by simp
    have "search_turn env PS_LAST (cut c ps) (t_addr t) = Some (Inr (cut c ((t, i) # ps), t_addr t'))"
      unfolding search_turn_def using tree_ok_page [OF g] n(1,2) bi up by (simp add: Let_def cut_def)
    then have un: "mdb_page_search_root env PS_LAST (cut c ps) (t_addr t) = mdb_page_search_root env PS_LAST (cut c ((t, i) # ps)) (t_addr t')"
      by (simp add: mdb_page_search_root.simps [of env PS_LAST "cut c ps"])
    have "behind ((t, i) # ps) = []" using True snoc.prems(3) by simp
    from snoc.IH [OF st' ok' this] snoc.prems(4) x
    show ?thesis unfolding un by simp
  next
    case False
    have w: "way_last (cut c ps) t i ps" using False snoc.prems(3) n(2) by (auto simp: way_last_def)
    have okc: "path_ok env (in_map (cut c ps)) psz (Suc (length xs)) ((t, i) # ps)" using okt by simp
    have r: "length ps + Suc (length xs) < CURSOR_STACK" using snoc.prems(4) by simp
    from search_descent [OF chooses_last same_handle_refl w cut_stack [OF snoc.prems(1)] okc r]
    obtain c' t' i' ps' where c': "mdb_page_search_root env PS_LAST (cut c ps) (t_addr t) = Some (MDB_SUCCESS, c')"
      "same_handle (clear_flag C_EOF (raise_flag C_INITIALIZED (cut c ps))) c'" "stack_is c' ((t', i') # ps')"
      "path_ok env (in_map c') psz 0 ((t', i') # ps')" "way_last (cut c ps) t' i' ps'" "fst (last ((t', i') # ps')) = fst (last ((t, i) # ps))"
      by blast
    moreover have "same_handle (clear_flag C_EOF (raise_flag C_INITIALIZED c)) c'"
      using c'(2) by (simp add: same_handle_def clear_flag_def raise_flag_def cut_def)
    ultimately show ?thesis unfolding way_last_def by blast
  qed
qed

section \<open>A cursor on the tree of its database\<close>

text \<open>The handle can be used, its record is up to date, and the pages from its root are the tree \<open>t\<close>.\<close>

definition tree_cursor :: "tree_env \<Rightarrow> nat \<Rightarrow> btree \<Rightarrow> cursor \<Rightarrow> bool" where
  "tree_cursor env psz t c \<longleftrightarrow> \<not> has (mt_flags c) MDB_TXN_BLOCKED \<and> \<not> db_stale c \<and> \<not> has (md_flags (mc_db c)) MDB_DUPSORT \<and>
     md_root (mc_db c) \<noteq> P_INVALID \<and> md_root (mc_db c) > 1 \<and> (\<exists>h < CURSOR_STACK. tree_ok env (in_map c) psz h (md_root (mc_db c)) t)"

lemma tree_cursor_place: "same_place c c' \<Longrightarrow> tree_cursor env psz t c' = tree_cursor env psz t c"
  by (auto simp: same_place_def tree_cursor_def)

text \<open>The stack is a path from the root to a leaf.\<close>

definition standing :: "tree_env \<Rightarrow> nat \<Rightarrow> btree \<Rightarrow> cursor \<Rightarrow> btree \<Rightarrow> nat \<Rightarrow> path \<Rightarrow> bool" where
  "standing env psz t c t' i ps \<longleftrightarrow> tree_cursor env psz t c \<and> has (mc_flags c) C_INITIALIZED \<and> \<not> has (mc_flags c) C_DEL \<and>
     stack_is c ((t', i) # ps) \<and> path_ok env (in_map c) psz 0 ((t', i) # ps) \<and> fst (last ((t', i) # ps)) = t"

text \<open>A cursor that has not been on the tree, as \<^verbatim>\<open>mdb_cursor_init\<close> leaves it.\<close>

definition fresh :: "tree_env \<Rightarrow> nat \<Rightarrow> btree \<Rightarrow> cursor \<Rightarrow> bool" where
  "fresh env psz t c \<longleftrightarrow> tree_cursor env psz t c \<and> \<not> has (mc_flags c) C_INITIALIZED \<and> \<not> has (mc_flags c) C_DEL \<and>
     length (mc_pg c) = CURSOR_STACK \<and> length (mc_ki c) = CURSOR_STACK \<and> mc_pg c ! 0 = 0"

lemma standing_place:
  assumes "standing env psz t c t0 i0 ps0" "same_place c c'" "mc_flags c' = mc_flags c" "stack_is c' ((t', i) # ps)"
    "path_ok env (in_map c') psz 0 ((t', i) # ps)" "fst (last ((t', i) # ps)) = t"
  shows "standing env psz t c' t' i ps"
  using assms tree_cursor_place [OF assms(2)] by (simp add: standing_def)

lemma standing_leaf:
  assumes "standing env psz t c t' i ps"
  shows "top_page env c = Some (t_page t')" "top_ki c = Some i" "mc_top c = length ps" "NUMKEYS (t_page t') = length (t_nodes t')"
    "0 < length (t_nodes t')" "length (t_nodes t') < 65536" "IS_LEAF (t_page t')" "\<not> IS_LEAF2 (t_page t')" "page_rep psz (t_page t') (t_nodes t')"
    "entries t = before ps @ t_nodes t' @ behind ps" "\<forall>n\<in>set (t_nodes t'). readable env (in_map c) n"
proof -
  have s: "stack_is c ((t', i) # ps)" and p: "path_ok env (in_map c) psz 0 ((t', i) # ps)" and l: "fst (last ((t', i) # ps)) = t"
    using assms by (simp_all add: standing_def)
  obtain pgno where g: "tree_ok env (in_map c) psz 0 pgno t'" using path_ok_top [OF p] by blast
  note o = tree_ok_page [OF g]
  obtain a q ns where q: "t' = Leaf a q ns" using tree_ok_leaf [OF g] by blast
  show "top_page env c = Some (t_page t')" "top_ki c = Some i" "mc_top c = length ps" using stack_top_page [OF s p] stack_top [OF s] by auto
  show "NUMKEYS (t_page t') = length (t_nodes t')" "length (t_nodes t') < 65536" "\<not> IS_LEAF2 (t_page t')"
    using o page_rep_keys [of psz "t_page t'" "t_nodes t'"] by auto
  show "0 < length (t_nodes t')" "IS_LEAF (t_page t')" "page_rep psz (t_page t') (t_nodes t')" using o by auto
  show "entries t = before ps @ t_nodes t' @ behind ps" using path_entries [OF p] l q by simp
  show "\<forall>n\<in>set (t_nodes t'). readable env (in_map c) n" using g q by simp
qed

text \<open>The key and the data of an entry, and what reading at a position gives.\<close>

definition entry :: "tree_env \<Rightarrow> bool \<Rightarrow> node \<Rightarrow> bytes \<times> bytes" where
  "entry env im n = (nd_key n, the (node_value env im n))"

definition content :: "tree_env \<Rightarrow> cursor \<Rightarrow> btree \<Rightarrow> (bytes \<times> bytes) list" where
  "content env c t = map (entry env (in_map c)) (entries t)"

lemma content_place: "same_place c c' \<Longrightarrow> content env c' t = content env c t"
  by (simp add: content_def same_place_def)

lemma read_standing:
  assumes s: "standing env psz t c t' i ps" and i: "i < length (t_nodes t')"
  shows "read_current env c True = Some (MDB_SUCCESS, c, Some (fst (content env c t ! (length (before ps) + i))), Some (snd (content env c t ! (length (before ps) + i))))"
proof -
  note l = standing_leaf [OF s]
  let ?n = "t_nodes t' ! i"
  obtain q where q: "node_there (t_page t') i ?n q" "node_wf True ?n"
    using page_nodes [OF l(9) i] l(7) by (metis (full_types))
  have "readable env (in_map c) ?n" using l(11) i by simp
  then obtain v where v: "node_value env (in_map c) ?n = Some v" "\<not> F_ISSET (nd_flags ?n) F_DUPDATA" by (auto simp: readable_def)
  have e: "content env c t ! (length (before ps) + i) = (nd_key ?n, v)"
    unfolding content_def l(10) using i v(1) by (simp add: nth_append entry_def)
  have "NODEPTR (mp_body (t_page t')) i = Some q" "NODEFLAGS (mp_body (t_page t')) q = Some (nd_flags ?n)" "NODEKEY (mp_body (t_page t')) q = Some (nd_key ?n)"
    using q(1) by (auto simp: node_there_def)
  then show ?thesis unfolding read_current_def e using l(1,2,8) v(2) mdb_node_read_value [OF q v(1)] by simp
qed

section \<open>The search from the root\<close>

definition at_root :: "cursor \<Rightarrow> btree \<Rightarrow> cursor" where
  "at_root c t = c\<lparr>mc_pg := (mc_pg c)[0 := t_addr t], mc_snum := 1, mc_top := 0\<rparr>"

lemma mdb_page_search_tree:
  assumes t: "tree_cursor env psz t c" and len: "length (mc_pg c) = CURSOR_STACK" and pg: "mc_pg c ! 0 = 0 \<or> mc_pg c ! 0 = t_addr t"
  shows "mdb_page_search env mode False c = mdb_page_search_root env mode (at_root c t) (t_addr t)"
proof -
  obtain h where h: "tree_ok env (in_map c) psz h (md_root (mc_db c)) t" using t by (auto simp: tree_cursor_def)
  note o = tree_ok_page [OF h]
  obtain l where g: "mdb_page_get env c (md_root (mc_db c)) = Some (MDB_SUCCESS, c, t_addr t, l)" using mdb_page_get_fetch [of env c] o by blast
  let ?here = "mc_pg c ! 0 \<noteq> 0 \<and> mp_pgno (t_page t) = md_root (mc_db c)"
  have p0: "peek (mc_pg c) 0 = Some (mc_pg c ! 0)" using len by (simp add: peek_def)
  have here: "(if mc_pg c ! 0 = 0 then Some False else map_option (\<lambda>p. mp_pgno p = md_root (mc_db c)) (object_at env (mc_pg c ! 0))) = Some ?here"
    using pg o by auto
  have po: "poke (mc_pg c) 0 (t_addr t) = Some ((mc_pg c)[0 := t_addr t])" using len by (simp add: poke_def)
  have upd: "?here \<Longrightarrow> (mc_pg c)[0 := t_addr t] = mc_pg c" using pg by (metis list_update_id)
  have "search_from_root env mode False c = mdb_page_search_root env mode (at_root c t) (t_addr t)"
  proof (cases ?here)
    case True
    have "at_root c t = c\<lparr>mc_snum := 1, mc_top := 0\<rparr>" unfolding at_root_def upd [OF True] by simp
    moreover have "mc_pg c ! 0 = t_addr t" using True pg by simp
    ultimately show ?thesis unfolding search_from_root_def Let_def
      using t True p0 o by (simp add: tree_cursor_def)
  next
    case False
    have "peek ((mc_pg c)[0 := t_addr t]) 0 = Some (t_addr t)" using len by (simp add: peek_def)
    then show ?thesis
      unfolding search_from_root_def Let_def by (simp only: p0 Option.bind.simps here if_not_P [OF False])
        (use t g po in \<open>simp add: tree_cursor_def at_root_def\<close>)
  qed
  then show ?thesis using t by (simp add: mdb_page_search_def tree_cursor_def)
qed

lemma at_root_handle: "same_handle c (at_root c t)"
  by (simp add: at_root_def same_handle_def)

lemma at_root_stack: "length (mc_pg c) = CURSOR_STACK \<Longrightarrow> length (mc_ki c) = CURSOR_STACK \<Longrightarrow> stack_is (at_root c t) [(t, mc_ki c ! 0)]"
  by (simp add: stack_is_def at_root_def take_Suc_conv_app_nth)

text \<open>What holds of a cursor anywhere on the tree or not yet on it.\<close>

definition usable :: "tree_env \<Rightarrow> nat \<Rightarrow> btree \<Rightarrow> cursor \<Rightarrow> bool" where
  "usable env psz t c \<longleftrightarrow> fresh env psz t c \<or> (\<exists>t' i ps. standing env psz t c t' i ps)"

lemma standing_root:
  assumes "standing env psz t c t' i ps"
  shows "length (mc_pg c) = CURSOR_STACK" "length (mc_ki c) = CURSOR_STACK" "mc_pg c ! 0 = t_addr t"
proof -
  have s: "stack_is c ((t', i) # ps)" and l: "fst (last ((t', i) # ps)) = t" using assms by (simp_all add: standing_def)
  let ?st = "(t', i) # ps"
  show len: "length (mc_pg c) = CURSOR_STACK" "length (mc_ki c) = CURSOR_STACK" using s by (simp_all add: stack_is_def)
  have "mc_pg c ! 0 = take (length ?st) (mc_pg c) ! 0" by simp
  also have "\<dots> = rev (map (t_addr \<circ> fst) ?st) ! 0" using s by (simp add: stack_is_def)
  also have "\<dots> = t_addr (fst (last ?st))" by (simp add: hd_conv_nth [symmetric] hd_rev last_map hd_append)
  finally show "mc_pg c ! 0 = t_addr t" using l by simp
qed

lemma usableD: "usable env psz t c \<Longrightarrow> tree_cursor env psz t c \<and> length (mc_pg c) = CURSOR_STACK \<and> length (mc_ki c) = CURSOR_STACK \<and>
    (mc_pg c ! 0 = 0 \<or> mc_pg c ! 0 = t_addr t) \<and> \<not> has (mc_flags c) C_DEL"
  using standing_root unfolding usable_def fresh_def standing_def by metis

text \<open>A search that chooses its branches by the rules of \<open>Q\<close> ends on a leaf, and the flags are those of a good
  cursor.\<close>

lemma search_tree:
  assumes u: "usable env psz t c" and ch: "chooses env psz mode (at_root c t) Q" and q: "Q t (mc_ki c ! 0) []"
  obtains c' t' i' ps' where "mdb_page_search env mode False c = Some (MDB_SUCCESS, c')" "standing env psz t c' t' i' ps'" "Q t' i' ps'"
    "same_place c c'" "\<not> has (mc_flags c') C_EOF"
proof -
  note u = usableD [OF u]
  obtain h where h: "h < CURSOR_STACK" "tree_ok env (in_map c) psz h (md_root (mc_db c)) t" using u by (auto simp: tree_cursor_def)
  have im: "in_map (at_root c t) = in_map c" using same_handleD [OF at_root_handle] by simp
  have ok: "path_ok env (in_map (at_root c t)) psz h [(t, mc_ki c ! 0)]" using h(2) im by auto
  have st: "stack_is (at_root c t) [(t, mc_ki c ! 0)]" using at_root_stack u by blast
  have r: "length ([] :: path) + h < CURSOR_STACK" using h(1) by simp
  obtain c' t' i' ps' where c': "mdb_page_search_root env mode (at_root c t) (t_addr t) = Some (MDB_SUCCESS, c')"
    "same_handle (clear_flag C_EOF (raise_flag C_INITIALIZED (at_root c t))) c'" "stack_is c' ((t', i') # ps')"
    "path_ok env (in_map c') psz 0 ((t', i') # ps')" "Q t' i' ps'" "fst (last ((t', i') # ps')) = fst (last [(t, mc_ki c ! 0)])"
    using search_descent [OF ch same_handle_refl q st ok r] by blast
  have f: "mc_flags c' = (mc_flags c OR C_INITIALIZED) AND NOT C_EOF" using c'(2) by (simp add: same_handle_def at_root_def)
  have p: "same_place c c'" using same_place_trans [OF same_handle_place [OF at_root_handle [of c t]]] same_handle_place [OF c'(2)]
    flags_place same_place_trans by metis
  have "standing env psz t c' t' i' ps'"
    using c'(3,4,6) u f tree_cursor_place [OF p] by (simp add: standing_def)
  moreover have "mdb_page_search env mode False c = Some (MDB_SUCCESS, c')" using mdb_page_search_tree [of env psz t c mode] u c'(1) by simp
  moreover have "\<not> has (mc_flags c') C_EOF" using f by simp
  ultimately show thesis using that c'(5) p by blast
qed

section \<open>Moves\<close>

lemma standing_set_ki:
  assumes s: "standing env psz t c t' i ps" and j: "j mod 65536 = k"
  obtains c' where "set_ki c j = Some c'" "standing env psz t c' t' k ps" "same_handle c c'"
proof -
  have st: "stack_is c ((t', i) # ps)" and p: "path_ok env (in_map c) psz 0 ((t', i) # ps)" and l: "fst (last ((t', i) # ps)) = t"
    using s by (simp_all add: standing_def)
  obtain c' where c': "set_ki c j = Some c'" "stack_is c' ((t', k) # ps)" "same_handle c c'" using stack_set_ki [OF st, of j] j by auto
  have "path_ok env (in_map c') psz 0 ((t', k) # ps)" using path_ok_index [OF p, of k] same_handleD [OF c'(3)] by simp
  moreover have "fst (last ((t', k) # ps)) = t" using l by (cases ps) auto
  ultimately have "standing env psz t c' t' k ps"
    using standing_place [OF s same_handle_place [OF c'(3)] _ c'(2)] same_handleD [OF c'(3)] by blast
  then show thesis using that c' by blast
qed

lemma standing_flags [simp]:
  assumes "standing env psz t c t' i ps"
  shows "standing env psz t (raise_flag C_INITIALIZED c) t' i ps" "standing env psz t (raise_flag C_EOF c) t' i ps"
    "standing env psz t (clear_flag C_EOF c) t' i ps" "standing env psz t (clear_flag C_DEL c) t' i ps"
  using assms tree_cursor_place [OF flags_place(1), of env psz t c] tree_cursor_place [OF flags_place(2), of env psz t c]
    tree_cursor_place [OF flags_place(3), of env psz t c] tree_cursor_place [OF flags_place(4), of env psz t c]
  by (simp_all add: standing_def)

text \<open>Where a cursor is: nowhere yet, on an entry or behind the last one, or on some leaf after a failed search.\<close>

datatype spot = Fresh | At nat | Lost

definition on_entry :: "tree_env \<Rightarrow> nat \<Rightarrow> btree \<Rightarrow> cursor \<Rightarrow> btree \<Rightarrow> nat \<Rightarrow> path \<Rightarrow> nat \<Rightarrow> bool" where
  "on_entry env psz t c t' i ps p \<longleftrightarrow> standing env psz t c t' i ps \<and> p = length (before ps) + i \<and>
     (i < length (t_nodes t') \<or> i = length (t_nodes t') \<and> behind ps = []) \<and>
     (has (mc_flags c) C_EOF \<longrightarrow> length (entries t) \<le> p + 1)"

fun stands :: "tree_env \<Rightarrow> nat \<Rightarrow> btree \<Rightarrow> cursor \<Rightarrow> spot \<Rightarrow> bool" where
  "stands env psz t c Fresh = fresh env psz t c"
| "stands env psz t c (At p) = (\<exists>t' i ps. on_entry env psz t c t' i ps p)"
| "stands env psz t c Lost = (\<exists>t' i ps. standing env psz t c t' i ps)"

lemma stands_usable: "stands env psz t c s \<Longrightarrow> usable env psz t c"
  by (cases s) (auto simp: usable_def on_entry_def)

text \<open>An answer with the entry at a position, and the cursor there; an answer without one.\<close>

definition gives :: "tree_env \<Rightarrow> nat \<Rightarrow> btree \<Rightarrow> cursor \<Rightarrow> answer option \<Rightarrow> nat \<Rightarrow> bool" where
  "gives env psz t c r p \<longleftrightarrow> (\<exists>c'. r = Some (MDB_SUCCESS, c', Some (fst (content env c t ! p)), Some (snd (content env c t ! p))) \<and>
     stands env psz t c' (At p) \<and> p < length (entries t) \<and> same_place c c')"

definition fails :: "tree_env \<Rightarrow> nat \<Rightarrow> btree \<Rightarrow> cursor \<Rightarrow> int \<Rightarrow> spot \<Rightarrow> answer option \<Rightarrow> bool" where
  "fails env psz t c rc s r \<longleftrightarrow> (\<exists>c'. r = Some (rc, c', None, None) \<and> stands env psz t c' s \<and> same_place c c')"

text \<open>Reading where a cursor stands.\<close>

lemma read_gives:
  assumes s: "standing env psz t c t' i ps" and i: "i < length (t_nodes t')" and pl: "same_place c0 c" and p: "p = length (before ps) + i"
    and eof: "has (mc_flags c) C_EOF \<Longrightarrow> length (entries t) \<le> p + 1"
  shows "gives env psz t c0 (read_current env c True) p"
proof -
  have "on_entry env psz t c t' i ps p" unfolding on_entry_def using s i p eof by simp
  then have "stands env psz t c (At p)" by auto
  moreover have "p < length (entries t)" using standing_leaf(10) [OF s] i p by simp
  ultimately show ?thesis unfolding gives_def using read_standing [OF s i] pl p content_place [OF pl] by (intro exI [of _ c]) simp
qed

lemma mdb_cursor_first_gives:
  assumes u: "usable env psz t c"
  shows "gives env psz t c (mdb_cursor_first env c True) 0"
proof -
  obtain c1 t' i ps where c1: "(if needs_search c then mdb_page_search env PS_FIRST False c else Some (MDB_SUCCESS, c)) = Some (MDB_SUCCESS, c1)"
    and s: "standing env psz t c1 t' i ps" "before ps = []" "same_place c c1"
  proof (cases "needs_search c")
    case True
    obtain c1 t' i ps where "mdb_page_search env PS_FIRST False c = Some (MDB_SUCCESS, c1)" "standing env psz t c1 t' i ps" "before ps = []" "same_place c c1"
      by (rule search_tree [OF u chooses_first], simp, rule that)
    then show thesis using that True by simp
  next
    case False
    then obtain t' i ps where s: "standing env psz t c t' i ps" "mc_top c = 0" using u by (auto simp: needs_search_def usable_def fresh_def)
    then have "ps = []" using standing_leaf(3) [OF s(1)] by simp
    then show thesis using that [of c t' i ps] s False by simp
  qed
  note l = standing_leaf [OF s(1)]
  have s1: "standing env psz t (clear_flag C_EOF (raise_flag C_INITIALIZED c1)) t' i ps" using s(1) by simp
  obtain c2 where c2: "set_ki (clear_flag C_EOF (raise_flag C_INITIALIZED c1)) 0 = Some c2" "standing env psz t c2 t' 0 ps"
      "same_handle (clear_flag C_EOF (raise_flag C_INITIALIZED c1)) c2"
    using standing_set_ki [OF s1, of 0 0] by auto
  have "same_place c c2" using same_place_trans [OF s(3) same_place_trans [OF flags_both(1) same_handle_place [OF c2(3)]]] .
  moreover have "\<not> has (mc_flags c2) C_EOF" using same_handleD [OF c2(3)] by simp
  ultimately have "gives env psz t c (read_current env c2 True) 0" using read_gives [OF c2(2) l(5)] s(2) by simp
  then show ?thesis unfolding mdb_cursor_first_def c1 using l(1,7) c2(1) by simp
qed

lemma search_last_gives:
  assumes u: "usable env psz t c"
  obtains c1 t' i ps where "mdb_page_search env PS_LAST False c = Some (MDB_SUCCESS, c1)" "standing env psz t c1 t' i ps" "behind ps = []" "same_place c c1"
proof (cases "fresh env psz t c")
  case True
  have "way_last (at_root c t) t (mc_ki c ! 0) []" using True by (simp add: way_last_def at_root_def fresh_def)
  from search_tree [OF u chooses_last this] show thesis using that unfolding way_last_def by metis
next
  case False
  then obtain t' i ps where s: "standing env psz t c t' i ps" using u by (auto simp: usable_def)
  have st: "stack_is c ((t', i) # ps)" and p: "path_ok env (in_map c) psz 0 ((t', i) # ps)" and l: "fst (last ((t', i) # ps)) = t" and tc: "tree_cursor env psz t c"
    using s by (simp_all add: standing_def)
  obtain k where k: "(t', i) # ps = butlast ((t', i) # ps) @ [(t, k)]" using l by (metis append_butlast_last_id list.distinct(1) prod.collapse)
  have room: "length (butlast ((t', i) # ps) @ [(t, k)]) \<le> CURSOR_STACK" using st k by (simp add: stack_is_def)
  have st2: "stack_is c (butlast ((t', i) # ps) @ [(t, k)])" and p2: "path_ok env (in_map c) psz 0 (butlast ((t', i) # ps) @ [(t, k)])"
    using st p k by metis+
  obtain c' t1 i1 ps1 where c': "mdb_page_search_root env PS_LAST (cut c []) (t_addr t) = Some (MDB_SUCCESS, c')"
     "same_handle (clear_flag C_EOF (raise_flag C_INITIALIZED c)) c'" "stack_is c' ((t1, i1) # ps1)" "path_ok env (in_map c') psz 0 ((t1, i1) # ps1)"
     "behind ps1 = []" "fst (last ((t1, i1) # ps1)) = fst (last [(t, k)])"
    using search_last_again [OF st2 p2 behind.simps(1) room] by blast
  have "(mc_pg c)[0 := t_addr t] = mc_pg c" using standing_root(3) [OF s] list_update_id [of "mc_pg c" 0] by simp
  then have "at_root c t = cut c []" by (simp add: at_root_def cut_def)
  then have e: "mdb_page_search env PS_LAST False c = Some (MDB_SUCCESS, c')"
    using mdb_page_search_tree [OF tc standing_root(1) [OF s]] standing_root(3) [OF s] c'(1) by simp
  have pl: "same_place c c'" using same_place_trans [OF flags_both(1) same_handle_place [OF c'(2)]] .
  have "standing env psz t c' t1 i1 ps1"
    using c'(3,4,6) s same_handleD [OF c'(2)] tree_cursor_place [OF pl] by (simp add: standing_def)
  then show thesis using that e c'(5) pl by blast
qed

text \<open>The last entry, and the mark that there are no more.\<close>

lemma mdb_cursor_last_gives:
  assumes u: "usable env psz t c"
  shows "gives env psz t c (mdb_cursor_last env c True) (length (entries t) - 1)"
proof -
  obtain c1 t' i ps where c1: "(if needs_search c then mdb_page_search env PS_LAST False c else Some (MDB_SUCCESS, c)) = Some (MDB_SUCCESS, c1)"
    and s: "standing env psz t c1 t' i ps" "behind ps = []" "same_place c c1"
  proof (cases "needs_search c")
    case True
    then show thesis using that search_last_gives [OF u] by metis
  next
    case False
    then obtain t' i ps where s: "standing env psz t c t' i ps" "mc_top c = 0" using u by (auto simp: needs_search_def usable_def fresh_def)
    then have "ps = []" using standing_leaf(3) [OF s(1)] by simp
    then show thesis using that [of c t' i ps] s False by simp
  qed
  note l = standing_leaf [OF s(1)]
  obtain c2 where c2: "set_ki c1 (NUMKEYS (t_page t') + 65535) = Some c2" "standing env psz t c2 t' (length (t_nodes t') - 1) ps" "same_handle c1 c2"
    using standing_set_ki [OF s(1), of "NUMKEYS (t_page t') + 65535" "length (t_nodes t') - 1"] last_index [OF l(5,6)] l(4) by auto
  have n: "length (entries t) = length (before ps) + length (t_nodes t')" using l(10) s(2) by simp
  let ?c = "raise_flag (C_INITIALIZED OR C_EOF) c2"
  have "?c = raise_flag C_EOF (raise_flag C_INITIALIZED c2)" by (simp add: raise_flag_def or.assoc)
  then have s3: "standing env psz t ?c t' (length (t_nodes t') - 1) ps" "same_place c ?c"
    using c2(2) same_place_trans [OF same_place_trans [OF s(3) same_handle_place [OF c2(3)]] flags_both(2)] by simp_all
  have "gives env psz t c (read_current env ?c True) (length (entries t) - 1)"
  proof (rule read_gives [OF s3(1) _ s3(2)])
    show "length (t_nodes t') - 1 < length (t_nodes t')" "length (entries t) - 1 = length (before ps) + (length (t_nodes t') - 1)"
      using l(5) n by linarith+
  qed simp
  then show ?thesis unfolding mdb_cursor_last_def c1 using l(1,7) c2(1) by simp
qed

end
