(* ===== verification/Lmdb_Moves.thy ===== *)
theory Lmdb_Moves
  imports Lmdb_Scan
begin

text \<open>
  A cursor as a position in the sorted list of the entries of its tree: every move and every lookup
  answers what the list has there. The lookups of keys are added in \<open>Lmdb_Find\<close>.
\<close>

section \<open>From one leaf to the next\<close>

lemma standing_after_sibling:
  assumes s: "standing env psz t c t' i ps" and sib: "sib right ((t', i) # ps) = Some st'"
  obtains c' t2 ps2 where "mdb_cursor_sibling env right c = Some (MDB_SUCCESS, c')" "standing env psz t c' t2 (start right t2) ps2" "same_handle c c'"
    "sib_step right ((t', i) # ps) ((t2, start right t2) # ps2)"
proof -
  have st: "stack_is c ((t', i) # ps)" and p: "path_ok env (in_map c) psz 0 ((t', i) # ps)" and l: "fst (last ((t', i) # ps)) = t"
    using s by (simp_all add: standing_def)
  obtain c' where c': "mdb_cursor_sibling env right c = Some (MDB_SUCCESS, c')" "stack_is c' st'" "same_handle c c'"
    using mdb_cursor_sibling_stack [OF st p, of right] sib by auto
  have n: "path_ok env (in_map c) psz 0 st'" "sib_step right ((t', i) # ps) st'" using sib_Some [OF p sib] by auto
  obtain t2 ps2 where st': "st' = (t2, start right t2) # ps2" using n(2) by (cases st') (auto simp: sib_step_def)
  have "standing env psz t c' t2 (start right t2) ps2"
  proof (rule standing_place [OF s same_handle_place [OF c'(3)]])
    show "mc_flags c' = mc_flags c" using same_handleD [OF c'(3)] by simp
    show "stack_is c' ((t2, start right t2) # ps2)" using c'(2) st' by simp
    show "path_ok env (in_map c') psz 0 ((t2, start right t2) # ps2)" using n(1) st' same_handleD [OF c'(3)] by simp
    show "fst (last ((t2, start right t2) # ps2)) = t" using n(2) l unfolding st' by (simp only: sib_step_def)
  qed
  then show thesis using that c' n(2) st' by blast
qed

lemma no_sibling:
  assumes s: "standing env psz t c t' i ps" and sib: "sib right ((t', i) # ps) = None"
  shows "mdb_cursor_sibling env right c = Some (MDB_NOTFOUND, c)" "if right then behind ps = [] else before ps = []"
proof -
  have st: "stack_is c ((t', i) # ps)" and p: "path_ok env (in_map c) psz 0 ((t', i) # ps)" using s by (simp_all add: standing_def)
  show "mdb_cursor_sibling env right c = Some (MDB_NOTFOUND, c)" using mdb_cursor_sibling_stack [OF st p, of right] sib by simp
  show "if right then behind ps = [] else before ps = []" using sib_None [OF sib] by (cases right) simp_all
qed

text \<open>The move to the right ends on the first entry behind the page, the move to the left on the last one before it.\<close>

lemma sibling_right:
  assumes s: "standing env psz t c t' i ps"
  shows "(behind ps = [] \<and> mdb_cursor_sibling env True c = Some (MDB_NOTFOUND, c)) \<or>
    (behind ps \<noteq> [] \<and> (\<exists>c' t2 ps2. mdb_cursor_sibling env True c = Some (MDB_SUCCESS, c') \<and> standing env psz t c' t2 0 ps2 \<and> same_handle c c' \<and>
       length (before ps2) = length (before ps) + length (t_nodes t') \<and> t_nodes t2 @ behind ps2 = behind ps \<and> before ps2 = before ps @ t_nodes t'))"
proof (cases "sib True ((t', i) # ps)")
  case None
  then show ?thesis using no_sibling [OF s None] by simp
next
  case (Some st')
  obtain c' t2 ps2 where c': "mdb_cursor_sibling env True c = Some (MDB_SUCCESS, c')" "standing env psz t c' t2 (start True t2) ps2" "same_handle c c'"
      "sib_step True ((t', i) # ps) ((t2, start True t2) # ps2)"
    by (rule standing_after_sibling [OF s Some])
  note l = standing_leaf [OF s] and l2 = standing_leaf [OF c'(2)]
  obtain pgno where "tree_ok env (in_map c') psz 0 pgno t2" using path_ok_top c'(2) unfolding standing_def by blast
  then have e: "entries t2 = t_nodes t2" using tree_ok_leaf by fastforce
  have b: "t_nodes t2 @ behind ps2 = behind ps" using c'(4) e by (simp add: sib_step_def)
  then have bf: "before ps2 = before ps @ t_nodes t'" using l(10) l2(10) by (metis append_assoc append_same_eq)
  have "behind ps \<noteq> []" using b l2(5) by auto
  moreover have "standing env psz t c' t2 0 ps2" using c'(2) by (simp add: start_def)
  moreover have "length (before ps2) = length (before ps) + length (t_nodes t')" using bf by simp
  ultimately show ?thesis using c'(1,3) b bf by blast
qed

lemma sibling_left:
  assumes s: "standing env psz t c t' i ps"
  shows "(before ps = [] \<and> mdb_cursor_sibling env False c = Some (MDB_NOTFOUND, c)) \<or>
    (before ps \<noteq> [] \<and> (\<exists>c' t2 ps2. mdb_cursor_sibling env False c = Some (MDB_SUCCESS, c') \<and> standing env psz t c' t2 (length (t_nodes t2) - 1) ps2 \<and>
       same_handle c c' \<and> before ps2 @ t_nodes t2 = before ps))"
proof (cases "sib False ((t', i) # ps)")
  case None
  then show ?thesis using no_sibling [OF s None] by simp
next
  case (Some st')
  obtain c' t2 ps2 where c': "mdb_cursor_sibling env False c = Some (MDB_SUCCESS, c')" "standing env psz t c' t2 (start False t2) ps2" "same_handle c c'"
      "sib_step False ((t', i) # ps) ((t2, start False t2) # ps2)"
    by (rule standing_after_sibling [OF s Some])
  note l2 = standing_leaf [OF c'(2)]
  obtain pgno where "tree_ok env (in_map c') psz 0 pgno t2" using path_ok_top c'(2) unfolding standing_def by blast
  then have e: "entries t2 = t_nodes t2" using tree_ok_leaf by fastforce
  have b: "before ps2 @ t_nodes t2 = before ps" using c'(4) e by (simp add: sib_step_def)
  then have "before ps \<noteq> []" using l2(5) by auto
  moreover have "standing env psz t c' t2 (length (t_nodes t2) - 1) ps2" using c'(2) by (simp add: start_def)
  ultimately show ?thesis using c'(1,3) b by blast
qed

section \<open>Next\<close>

lemma fails_at:
  assumes "on_entry env psz t c' t' i ps p" "same_place c c'"
  shows "fails env psz t c rc (At p) (Some (rc, c', None, None))"
  unfolding fails_def using assms by auto

lemma mdb_cursor_next_at:
  assumes e: "on_entry env psz t c t' i ps p"
  shows "if p + 1 < length (entries t) then gives env psz t c (mdb_cursor_next env c True NEXT) (p + 1)
    else fails env psz t c MDB_NOTFOUND (At p) (mdb_cursor_next env c True NEXT)"
proof -
  have s: "standing env psz t c t' i ps" and p: "p = length (before ps) + i" and i: "i < length (t_nodes t') \<or> i = length (t_nodes t') \<and> behind ps = []"
    and eof: "has (mc_flags c) C_EOF \<longrightarrow> length (entries t) \<le> p + 1" using e unfolding on_entry_def by blast+
  note l = standing_leaf [OF s]
  have fl: "has (mc_flags c) C_INITIALIZED" "\<not> has (mc_flags c) C_DEL" "\<not> has (md_flags (mc_db c)) MDB_DUPSORT"
    using s by (simp_all add: standing_def tree_cursor_def)
  let ?c = "clear_flag C_EOF c"
  have s1: "standing env psz t ?c t' i ps" using s by simp
  have db: "mc_db ?c = mc_db c" by (simp add: clear_flag_def)
  have un: "mdb_cursor_next env c True NEXT =
      (if has (mc_flags c) C_EOF \<and> length (t_nodes t') \<noteq> 0 \<and> i \<ge> length (t_nodes t') - 1 then Some (MDB_NOTFOUND, c, None, None)
       else do {
         (rc, c) \<leftarrow> (if i + 1 \<ge> length (t_nodes t') then do {
             (rc, c) \<leftarrow> mdb_cursor_sibling env True ?c;
             Some (rc, if rc \<noteq> 0 then raise_flag C_EOF c else c)
           }
           else do { c \<leftarrow> set_ki ?c (i + 1); Some (MDB_SUCCESS, c) });
         (if rc \<noteq> 0 then Some (rc, c, None, None)
          else do { p \<leftarrow> top_page env c; (if \<not> IS_LEAF2 p \<and> \<not> IS_LEAF p then None else read_current env c True) })
       })"
    unfolding mdb_cursor_next_def using fl l(1,2,4) db by (simp add: Let_def)
  show ?thesis
  proof (cases "has (mc_flags c) C_EOF \<and> length (t_nodes t') \<noteq> 0 \<and> i \<ge> length (t_nodes t') - 1")
    case True
    then show ?thesis unfolding un if_P [OF True] using fails_at [OF e same_place_refl] eof by simp
  next
    case ne: False
    show ?thesis
    proof (cases "i + 1 \<ge> length (t_nodes t')")
      case False
      obtain c2 where c2: "set_ki ?c (i + 1) = Some c2" "standing env psz t c2 t' (i + 1) ps" "same_handle ?c c2"
        using standing_set_ki [OF s1, of "i + 1" "i + 1"] False l(6) by auto
      have "gives env psz t c (read_current env c2 True) (p + 1)"
      proof (rule read_gives [OF c2(2)])
        show "i + 1 < length (t_nodes t')" "p + 1 = length (before ps) + (i + 1)" using False p by simp_all
        show "same_place c c2" using same_place_trans [OF flags_place(3) same_handle_place [OF c2(3)]] .
        show "has (mc_flags c2) C_EOF \<Longrightarrow> length (entries t) \<le> p + 1 + 1" using same_handleD [OF c2(3)] by simp
      qed
      moreover have "p + 1 < length (entries t)" using False p l(10) by simp
      ultimately show ?thesis unfolding un if_not_P [OF ne] if_not_P [OF False] using c2(1) standing_leaf(1,7) [OF c2(2)] by simp
    next
      case True
      have pe: "p + 1 \<ge> length (before ps) + length (t_nodes t')" using True p by simp
      consider (no) "behind ps = []" "mdb_cursor_sibling env True ?c = Some (MDB_NOTFOUND, ?c)"
        | (yes) c2 t2 ps2 where "behind ps \<noteq> []" "mdb_cursor_sibling env True ?c = Some (MDB_SUCCESS, c2)" "standing env psz t c2 t2 0 ps2"
            "same_handle ?c c2" "length (before ps2) = length (before ps) + length (t_nodes t')" "t_nodes t2 @ behind ps2 = behind ps"
        using sibling_right [OF s1] by blast
      then show ?thesis
      proof cases
        case no
        have le: "length (entries t) \<le> p + 1" using pe no(1) l(10) by simp
        have "on_entry env psz t (raise_flag C_EOF ?c) t' i ps p" unfolding on_entry_def using s p i le by simp
        moreover have "same_place c (raise_flag C_EOF ?c)" using same_place_trans [OF flags_place(3) flags_place(2)] .
        ultimately show ?thesis unfolding un if_not_P [OF ne] if_P [OF True] no(2) using le fails_at [of env psz t "raise_flag C_EOF ?c"] by simp
      next
        case yes
        have ip: "p + 1 = length (before ps2) + 0" using i yes(1,5) True p by auto
        have z: "0 < length (t_nodes t2)" using standing_leaf(5) [OF yes(3)] .
        have "gives env psz t c (read_current env c2 True) (p + 1)"
        proof (rule read_gives [OF yes(3) z _ ip])
          show "same_place c c2" using same_place_trans [OF flags_place(3) same_handle_place [OF yes(4)]] .
          show "has (mc_flags c2) C_EOF \<Longrightarrow> length (entries t) \<le> p + 1 + 1" using same_handleD [OF yes(4)] by simp
        qed
        moreover have "p + 1 < length (entries t)" using ip z standing_leaf(10) [OF yes(3)] by simp
        ultimately show ?thesis unfolding un if_not_P [OF ne] if_P [OF True] yes(2) using standing_leaf(1,7) [OF yes(3)] by simp
      qed
    qed
  qed
qed

section \<open>Previous\<close>

lemma prev_move_at:
  assumes e: "on_entry env psz t c t' i ps p" and p0: "same_place c0 c"
  shows "if p \<noteq> 0 then gives env psz t c0 (prev_move env c True) (p - 1) else fails env psz t c0 MDB_NOTFOUND (At p) (prev_move env c True)"
proof -
  have s: "standing env psz t c t' i ps" and p: "p = length (before ps) + i" and i: "i < length (t_nodes t') \<or> i = length (t_nodes t') \<and> behind ps = []"
    using e unfolding on_entry_def by blast+
  note l = standing_leaf [OF s]
  let ?c = "clear_flag (C_EOF OR C_DEL) c"
  have cc: "?c = clear_flag C_DEL (clear_flag C_EOF c)" by (simp add: clear_flag_def and.assoc)
  have s1: "standing env psz t ?c t' i ps" unfolding cc using s by simp
  have pc: "same_place c0 ?c" unfolding cc using same_place_trans [OF p0 same_place_trans [OF flags_place(3) flags_place(4)]] .
  have ne: "\<not> has (mc_flags ?c) C_EOF" unfolding cc by simp
  have "\<not> has (md_flags (mc_db c)) MDB_DUPSORT" using s by (simp add: standing_def tree_cursor_def)
  then have un: "prev_move env c True = do {
     (rc, c) \<leftarrow> (if i = 0 then do {
         (rc, c) \<leftarrow> mdb_cursor_sibling env False ?c;
         (if rc \<noteq> 0 then Some (rc, c)
          else do { p \<leftarrow> top_page env c; c \<leftarrow> set_ki c (NUMKEYS p + 65535); Some (MDB_SUCCESS, c) })
       }
       else do { c \<leftarrow> set_ki ?c (i - 1); Some (MDB_SUCCESS, c) });
     (if rc \<noteq> 0 then Some (rc, c, None, None)
      else do { p \<leftarrow> top_page env c; (if \<not> IS_LEAF p then Some (MDB_CORRUPTED, c, None, None) else read_current env c True) }) }"
    unfolding prev_move_def using l(1,2) by (simp add: Let_def)
  show ?thesis
  proof (cases "i = 0")
    case False
    have m: "(i - 1) mod 65536 = i - 1" using l(6) i by (intro mod_less) linarith
    obtain c2 where c2: "set_ki ?c (i - 1) = Some c2" "standing env psz t c2 t' (i - 1) ps" "same_handle ?c c2"
      using standing_set_ki [OF s1 m] by blast
    have "gives env psz t c0 (read_current env c2 True) (p - 1)"
    proof (rule read_gives [OF c2(2)])
      show "i - 1 < length (t_nodes t')" "p - 1 = length (before ps) + (i - 1)" using False i p by linarith+
      show "same_place c0 c2" using same_place_trans [OF pc same_handle_place [OF c2(3)]] .
      show "has (mc_flags c2) C_EOF \<Longrightarrow> length (entries t) \<le> p - 1 + 1" using ne same_handleD [OF c2(3)] by simp
    qed
    then show ?thesis unfolding un if_not_P [OF False] using False p c2(1) standing_leaf(1,7) [OF c2(2)] by simp
  next
    case True
    consider (no) "before ps = []" "mdb_cursor_sibling env False ?c = Some (MDB_NOTFOUND, ?c)"
      | (yes) c2 t2 ps2 where "before ps \<noteq> []" "mdb_cursor_sibling env False ?c = Some (MDB_SUCCESS, c2)"
          "standing env psz t c2 t2 (length (t_nodes t2) - 1) ps2" "same_handle ?c c2" "before ps2 @ t_nodes t2 = before ps"
      using sibling_left [OF s1] by blast
    then show ?thesis
    proof cases
      case no
      have "on_entry env psz t ?c t' i ps p" unfolding on_entry_def using s1 p i ne by blast
      then show ?thesis unfolding un if_P [OF True] no(2) using True p no(1) fails_at [OF _ pc] by simp
    next
      case yes
      note l2 = standing_leaf [OF yes(3)]
      have m: "(NUMKEYS (t_page t2) + 65535) mod 65536 = length (t_nodes t2) - 1" using last_index [OF l2(5,6)] l2(4) by simp
      obtain c3 where c3: "set_ki c2 (NUMKEYS (t_page t2) + 65535) = Some c3" "standing env psz t c3 t2 (length (t_nodes t2) - 1) ps2" "same_handle c2 c3"
        using standing_set_ki [OF yes(3) m] by blast
      have pn: "p = length (before ps2) + length (t_nodes t2)" using p True arg_cong [OF yes(5), of length] by simp
      have "gives env psz t c0 (read_current env c3 True) (p - 1)"
      proof (rule read_gives [OF c3(2)])
        show "length (t_nodes t2) - 1 < length (t_nodes t2)" "p - 1 = length (before ps2) + (length (t_nodes t2) - 1)" using l2(5) pn by linarith+
        show "same_place c0 c3" using same_place_trans [OF pc same_place_trans [OF same_handle_place [OF yes(4)] same_handle_place [OF c3(3)]]] .
        show "has (mc_flags c3) C_EOF \<Longrightarrow> length (entries t) \<le> p - 1 + 1" using ne same_handleD [OF yes(4)] same_handleD [OF c3(3)] by simp
      qed
      moreover have "p \<noteq> 0" using pn l2(5) by linarith
      ultimately show ?thesis unfolding un if_P [OF True] yes(2) using l2(1) c3(1) standing_leaf(1,7) [OF c3(2)] by simp
    qed
  qed
qed

lemma mdb_cursor_prev_at:
  assumes e: "on_entry env psz t c t' i ps p"
  shows "if p \<noteq> 0 then gives env psz t c (mdb_cursor_prev env c True) (p - 1) else fails env psz t c MDB_NOTFOUND (At p) (mdb_cursor_prev env c True)"
proof -
  have "has (mc_flags c) C_INITIALIZED" using e by (simp add: on_entry_def standing_def)
  then show ?thesis unfolding mdb_cursor_prev_def using prev_move_at [OF e same_place_refl] by (simp only: if_True)
qed

lemma entries_usable: "usable env psz t c \<Longrightarrow> entries t \<noteq> []"
  using usableD entries_nonempty by (fastforce simp: tree_cursor_def)

lemma mdb_cursor_prev_fresh:
  assumes f: "fresh env psz t c"
  shows "gives env psz t c (mdb_cursor_prev env c True) (length (entries t) - 1)"
proof -
  have u: "usable env psz t c" using f by (simp add: usable_def)
  have n: "entries t \<noteq> []" by (rule entries_usable [OF u])
  obtain c1 k d t' i ps where c1: "mdb_cursor_last env c True = Some (MDB_SUCCESS, c1, k, d)" "on_entry env psz t c1 t' i ps (length (entries t) - 1)" "same_place c c1"
    using mdb_cursor_last_gives [OF u] by (auto simp: gives_def)
  have s: "standing env psz t c1 t' i ps" and p: "length (entries t) - 1 = length (before ps) + i" and i: "i < length (t_nodes t') \<or> i = length (t_nodes t') \<and> behind ps = []"
    using c1(2) unfolding on_entry_def by blast+
  note l = standing_leaf [OF s]
  have len: "length (entries t) = length (before ps) + length (t_nodes t') + length (behind ps)" using l(10) by simp
  have pos: "0 < length (entries t)" using n by simp
  have lt: "i < length (t_nodes t')"
  proof (rule ccontr)
    assume "\<not> i < length (t_nodes t')"
    then have "i = length (t_nodes t')" "length (behind ps) = 0" using i by auto
    then show False using len p pos by linarith
  qed
  then have "length (behind ps) = 0" and b2: "length (t_nodes t') = i + 1" using len p pos by linarith+
  then have b: "behind ps = []" "length (t_nodes t') = i + 1" by simp_all
  have m: "(i + 1) mod 65536 = i + 1" using l(6) b(2) by (intro mod_less) linarith
  obtain c2 where c2: "set_ki c1 (i + 1) = Some c2" "standing env psz t c2 t' (i + 1) ps" "same_handle c1 c2" using standing_set_ki [OF s m] by blast
  have "on_entry env psz t c2 t' (i + 1) ps (length (entries t))" unfolding on_entry_def using c2(2) b len by simp
  from prev_move_at [OF this same_place_trans [OF c1(3) same_handle_place [OF c2(3)]]]
  have "gives env psz t c (prev_move env c2 True) (length (entries t) - 1)" using pos by simp
  moreover have "\<not> has (mc_flags c) C_INITIALIZED" using f by (simp add: fresh_def)
  ultimately show ?thesis unfolding mdb_cursor_prev_def using c1(1) l(2) c2(1) by simp
qed

section \<open>The current entry\<close>

lemma get_current_at:
  assumes e: "on_entry env psz t c t' i ps p"
  shows "if p < length (entries t) then gives env psz t c (get_current env c True) p else fails env psz t c MDB_NOTFOUND (At p) (get_current env c True)"
proof -
  have s: "standing env psz t c t' i ps" and p: "p = length (before ps) + i" and i: "i < length (t_nodes t') \<or> i = length (t_nodes t') \<and> behind ps = []"
    and eof: "has (mc_flags c) C_EOF \<longrightarrow> length (entries t) \<le> p + 1" using e unfolding on_entry_def by blast+
  note l = standing_leaf [OF s]
  have ini: "has (mc_flags c) C_INITIALIZED" using s by (simp add: standing_def)
  have len: "length (entries t) = length (before ps) + length (t_nodes t') + length (behind ps)" using l(10) by simp
  show ?thesis
  proof (cases "i < length (t_nodes t')")
    case True
    have "gives env psz t c (read_current env c True) p" using read_gives [OF s True same_place_refl p] eof by blast
    then show ?thesis unfolding get_current_def using True p ini l(1,2,4,5) len by simp
  next
    case False
    have m: "NUMKEYS (t_page t') mod 65536 = i" using False i l(4,6) by simp
    obtain c2 where c2: "set_ki c (NUMKEYS (t_page t')) = Some c2" "standing env psz t c2 t' i ps" "same_handle c c2" using standing_set_ki [OF s m] by blast
    have "on_entry env psz t c2 t' i ps p" unfolding on_entry_def using c2(2) p i eof same_handleD [OF c2(3)] by simp
    from fails_at [OF this same_handle_place [OF c2(3)]]
    show ?thesis unfolding get_current_def using False p i ini l(1,2,4,5) len c2(1) by simp
  qed
qed

end
