(* ===== verification/Lmdb_Find.thy ===== *)
theory Lmdb_Find
  imports Lmdb_Moves
begin

text \<open>
  Looking up keys in a tree of pages whose entries are sorted by a \<open>key_order\<close>: the descent follows the
  branches around the key, and the cursor ends on the first entry that is not smaller, or reports that
  there is none.
\<close>

section \<open>Sorted trees\<close>

text \<open>The key of a branch node is an upper bound of the entries to its left and a lower bound of those below it and to
  its right; the key of the first node of a page is not used.\<close>

fun separated :: "(bytes \<Rightarrow> 'r::linorder) \<Rightarrow> (bytes \<Rightarrow> bool) \<Rightarrow> btree \<Rightarrow> bool" where
  "separated rank ok (Leaf a p ns) = True"
| "separated rank ok (Branch a p bs ts) = ((\<forall>t\<in>set ts. separated rank ok t) \<and>
     (\<forall>i<length bs. 0 < i \<longrightarrow> ok (nd_key (bs ! i)) \<and>
        (\<forall>n\<in>set (concat (map entries (take i ts))). rank (nd_key n) < rank (nd_key (bs ! i))) \<and>
        (\<forall>n\<in>set (concat (map entries (drop i ts))). rank (nd_key (bs ! i)) \<le> rank (nd_key n))))"

definition key_tree :: "(bytes \<Rightarrow> 'r::linorder) \<Rightarrow> (bytes \<Rightarrow> bool) \<Rightarrow> btree \<Rightarrow> bool" where
  "key_tree rank ok t \<longleftrightarrow> separated rank ok t \<and> (\<forall>n\<in>set (entries t). ok (nd_key n)) \<and> sorted_wrt (\<lambda>m n. rank (nd_key m) < rank (nd_key n)) (entries t)"

context key_order
begin

lemma node_search_branch:
  assumes rep: "page_rep psz p bs" "\<not> IS_LEAF p" and c: "apply_cmp c = cmp" "\<not> is_cint c" and key: "ok key" and n: "1 < length bs"
    and oks: "\<And>i. 0 < i \<Longrightarrow> i < length bs \<Longrightarrow> ok (nd_key (bs ! i))"
    and mono: "\<And>i j. 0 < i \<Longrightarrow> i < j \<Longrightarrow> j < length bs \<Longrightarrow> rank (nd_key (bs ! i)) < rank (nd_key (bs ! j))"
  shows "\<exists>t node. mdb_node_search c pad p key = Some (t, t < length bs \<and> rank (nd_key (bs ! t)) = rank key, node) \<and> 0 < t \<and> t \<le> length bs \<and>
    (node = None \<longleftrightarrow> t = length bs) \<and> (\<forall>j. 0 < j \<and> j < t \<longrightarrow> rank (nd_key (bs ! j)) < rank key) \<and> (\<forall>j. t \<le> j \<and> j < length bs \<longrightarrow> rank key \<le> rank (nd_key (bs ! j)))"
proof -
  let ?P = "\<lambda>n. rank (nd_key n) < rank key" and ?k = "\<lambda>i. nd_key (bs ! i)"
  define t where "t = Suc (length (takeWhile ?P (tl bs)))"
  have lt: "length (takeWhile ?P (tl bs)) \<le> length (tl bs)" by (rule length_takeWhile_le)
  have tl: "0 < t" "t \<le> length bs" using lt n by (auto simp: t_def)
  have tn: "tl bs ! j = bs ! Suc j" if "Suc j < length bs" for j using that by (cases bs) auto
  have below: "rank (?k j) < rank key" if "0 < j" "j < t" for j
  proof -
    obtain j' where j: "j = Suc j'" using \<open>0 < j\<close> by (cases j) auto
    then have l: "j' < length (takeWhile ?P (tl bs))" using that by (simp add: t_def)
    then have "takeWhile ?P (tl bs) ! j' = tl bs ! j'" by (rule takeWhile_nth)
    moreover have "?P (takeWhile ?P (tl bs) ! j')" using nth_mem [OF l] set_takeWhileD by fast
    moreover have "Suc j' < length bs" using l lt n by simp
    ultimately show ?thesis using tn j by simp
  qed
  have at: "rank key \<le> rank (?k t)" if "t < length bs"
  proof -
    have "length (takeWhile ?P (tl bs)) < length (tl bs)" using that by (simp add: t_def)
    from nth_length_takeWhile [OF this] show ?thesis using tn [of "length (takeWhile ?P (tl bs))"] that by (simp add: t_def not_less)
  qed
  have above: "rank key \<le> rank (?k j)" if "t \<le> j" "j < length bs" for j
    using at mono [of t j] that tl by (cases "t = j") auto
  let ?f = "\<lambda>i. NODEPTR (mp_body p) i \<bind> NODEKEY (mp_body p)"
  have get: "?f i = Some (?k i)" "\<exists>q. NODEPTR (mp_body p) i = Some q" if i: "i < length bs" for i
  proof -
    obtain q where "node_there p i (bs ! i) q" using page_nodes [OF rep(1) i] by blast
    then show "?f i = Some (?k i)" "\<exists>q. NODEPTR (mp_body p) i = Some q" by (auto simp: node_there_def)
  qed
  have nk: "NUMKEYS p = length bs" "\<not> IS_LEAF2 p" using page_rep_keys [OF rep(1)] by auto
  have "\<exists>i rc. bin_search (\<lambda>i. ?f i \<bind> cmp key) 1 (int (length bs) - 1) 0 0 = Some (i, rc) \<and> (if rc > 0 then i + 1 else i) = t \<and>
      (rc = 0 \<longleftrightarrow> t < length bs \<and> rank (?k t) = rank key)"
    by (rule bin_search_order [of 1 "length bs" ?f ?k key 1 t "int (length bs) - 1" 0 0]) (use get(1) oks key mono below above tl n in auto)
  then obtain i rc where b: "bin_search (\<lambda>i. ?f i \<bind> cmp key) 1 (int (length bs) - 1) 0 0 = Some (i, rc)" "(if rc > 0 then i + 1 else i) = t"
      "rc = 0 \<longleftrightarrow> t < length bs \<and> rank (?k t) = rank key" by blast
  have ne: "bs \<noteq> []" using n by auto
  have "mdb_node_search c pad p key = (if t \<ge> length bs then Some (t, rc = 0, None)
      else do { node \<leftarrow> NODEPTR (mp_body p) t; Some (t, rc = 0, Some node) })"
    unfolding mdb_node_search_def Let_def nk(1) using rep(2) nk(2) b(1,2) n c ne by (simp add: c(1))
  then show ?thesis using b(3) below above tl get(2) [of t] by (intro exI [of _ t]) (auto simp: not_le)
qed

text \<open>The way to a key: the entries to the left are smaller, those to the right are greater.\<close>

definition way_key :: "bytes \<Rightarrow> btree \<Rightarrow> nat \<Rightarrow> path \<Rightarrow> bool" where
  "way_key key t i ps \<longleftrightarrow> separated rank ok t \<and> (\<forall>n\<in>set (before ps). rank (nd_key n) < rank key) \<and> (\<forall>n\<in>set (behind ps). rank key < rank (nd_key n))"

lemma separators_increase:
  assumes s: "separated rank ok t" and ok: "path_ok env im psz (Suc h) ((t, k) # ps)" and ij: "0 < i" "i < j" "j < length (children t)"
  shows "rank (nd_key (t_nodes t ! i)) < rank (nd_key (t_nodes t ! j))"
proof -
  obtain pgno where g: "tree_ok env im psz (Suc h) pgno t" using path_ok_top [OF ok] by blast
  obtain a p bs ts where t: "t = Branch a p bs ts" using tree_ok_branch [OF g] by blast
  have len: "length bs = length ts" using g t by simp
  have "tree_ok env im psz h (node_pgno (bs ! i)) (ts ! i)" using tree_ok_child(1) [OF g, of i] ij t by simp
  then obtain n where n: "n \<in> set (entries (ts ! i))" using entries_nonempty by (metis ex_in_conv set_empty)
  have "ts ! i \<in> set (drop i ts)" using ij t by (metis Cons_nth_drop_Suc children.simps(2) list.set_intros(1) order.strict_trans)
  moreover have "ts ! i \<in> set (take j ts)" using ij t by (auto simp: in_set_conv_nth)
  ultimately have "n \<in> set (concat (map entries (drop i ts)))" "n \<in> set (concat (map entries (take j ts)))" using n by auto
  then have "rank (nd_key (bs ! i)) \<le> rank (nd_key n)" "rank (nd_key n) < rank (nd_key (bs ! j))" using s t ij len by auto
  then show ?thesis using t by simp
qed

lemma way_key_down:
  assumes w: "way_key key t i ps" and t: "t = Branch a p bs ts" "length bs = length ts" and k: "k < length ts"
    and lo: "0 < k \<Longrightarrow> rank (nd_key (bs ! k)) \<le> rank key" and hi: "k + 1 < length ts \<Longrightarrow> rank key < rank (nd_key (bs ! (k + 1)))"
  shows "way_key key (children t ! k) 0 ((t, k) # ps)"
proof -
  have sep: "\<And>i. 0 < i \<Longrightarrow> i < length bs \<Longrightarrow> (\<forall>n\<in>set (concat (map entries (take i ts))). rank (nd_key n) < rank (nd_key (bs ! i))) \<and>
        (\<forall>n\<in>set (concat (map entries (drop i ts))). rank (nd_key (bs ! i)) \<le> rank (nd_key n))" and ch: "\<forall>t\<in>set ts. separated rank ok t"
    using w t by (auto simp: way_key_def)
  have l: "rank (nd_key n) < rank key" if "n \<in> set (concat (map entries (take k ts)))" for n
  proof (cases "k = 0")
    case False
    then show ?thesis using sep [of k] lo that k t(2) by fastforce
  qed (use that in simp)
  have r: "rank key < rank (nd_key n)" if "n \<in> set (concat (map entries (drop (Suc k) ts)))" for n
  proof (cases "Suc k < length ts")
    case True
    then show ?thesis using sep [of "Suc k"] hi that t(2) by fastforce
  qed (use that in simp)
  show ?thesis unfolding way_key_def using w l r ch k t by (auto simp: way_key_def)
qed

lemma chooses_key:
  assumes c0: "apply_cmp (md_cmp c0) = cmp" "\<not> is_cint (md_cmp c0)" and key: "ok key"
  shows "chooses env psz (PS_KEY key) c0 (way_key key)"
  unfolding chooses_def
proof (intro allI impI)
  fix c t i ps h
  assume a: "same_handle c0 c" "stack_is c ((t, i) # ps)" "path_ok env (in_map c) psz (Suc h) ((t, i) # ps)" "way_key key t i ps"
  note n = branch_keys [OF a(3)]
  obtain pgno where g: "tree_ok env (in_map c) psz (Suc h) pgno t" using path_ok_top [OF a(3)] by blast
  obtain ad p bs ts where t: "t = Branch ad p bs ts" using tree_ok_branch [OF g] by blast
  have len: "length bs = length ts" "1 < length ts" "page_rep psz p bs" "\<not> IS_LEAF p" using g t by auto
  have cmp: "apply_cmp (md_cmp c) = cmp" "\<not> is_cint (md_cmp c)" using c0 same_handleD [OF a(1)] by auto
  have oks: "ok (nd_key (bs ! i))" if "0 < i" "i < length bs" for i using a(4) t that by (simp add: way_key_def)
  have mono: "rank (nd_key (bs ! i)) < rank (nd_key (bs ! j))" if "0 < i" "i < j" "j < length bs" for i j
    using separators_increase [OF _ a(3) that(1,2)] a(4) that(3) t len(1) by (simp add: way_key_def)
  have lbs: "1 < length bs" using len(1,2) by simp
  from node_search_branch [OF len(3,4) cmp key lbs oks mono]
  obtain x node where x: "mdb_node_search (md_cmp c) (unat (md_pad (mc_db c))) p key = Some (x, x < length bs \<and> rank (nd_key (bs ! x)) = rank key, node)"
    "0 < x" "x \<le> length bs" "node = None \<longleftrightarrow> x = length bs" "\<forall>j. 0 < j \<and> j < x \<longrightarrow> rank (nd_key (bs ! j)) < rank key"
    "\<forall>j. x \<le> j \<and> j < length bs \<longrightarrow> rank key \<le> rank (nd_key (bs ! j))"
    by blast
  define k where "k = (if x < length bs \<and> rank (nd_key (bs ! x)) = rank key then x else x - 1)"
  obtain c1 where c1: "set_ki c x = Some c1" "stack_is c1 ((t, x mod 65536) # ps)" "same_handle c c1" using stack_set_ki [OF a(2), of x] by blast
  have "branch_index env (PS_KEY key) c p = Some (Some k, c1)"
    unfolding branch_index_def using x(1-4) c1(1) n(3) t len(1) by (auto simp: Let_def k_def)
  moreover have kl: "k < length ts" using x(2,3) len(1,2) by (auto simp: k_def)
  moreover have "way_key key (children t ! k) 0 ((t, k) # ps)"
  proof (rule way_key_down [OF a(4) t len(1) kl])
    show "rank (nd_key (bs ! k)) \<le> rank key" if "0 < k"
      using x(5) that by (cases "x < length bs \<and> rank (nd_key (bs ! x)) = rank key") (auto simp: k_def intro: less_imp_le)
    show "rank key < rank (nd_key (bs ! (k + 1)))" if "k + 1 < length ts"
    proof (cases "x < length bs \<and> rank (nd_key (bs ! x)) = rank key")
      case True
      then show ?thesis using mono [of x "x + 1"] x(2) that len(1) by (simp add: k_def)
    next
      case False
      then have "k + 1 = x" using x(2) by (auto simp: k_def)
      then show ?thesis using False x(6) that len(1) by (metis le_refl order_le_imp_less_or_eq)
    qed
  qed
  ultimately show "\<exists>k c1 i1. branch_index env (PS_KEY key) c (t_page t) = Some (Some k, c1) \<and> stack_is c1 ((t, i1) # ps) \<and> same_handle c c1 \<and>
      k < length (children t) \<and> way_key key (children t ! k) 0 ((t, k) # ps)"
    using c1(2,3) t by (metis children.simps(2) t_page.simps(2))
qed

end

section \<open>The parents to the right\<close>

lemma behind_append: "behind (xs @ ys) = behind xs @ behind ys"
  by (induction xs) auto

lemma stack_level:
  assumes st: "stack_is c st" and j: "j < length st"
  shows "peek (mc_pg c) (length st - Suc j) = Some (t_addr (fst (st ! j)))" "peek (mc_ki c) (length st - Suc j) = Some (snd (st ! j))"
proof -
  let ?i = "length st - Suc j"
  have i: "?i < length st" using j by simp
  have a: "take (length st) (mc_pg c) = rev (map (t_addr \<circ> fst) st)" "take (length st) (mc_ki c) = rev (map snd st)"
    "length st \<le> length (mc_pg c)" "length st \<le> length (mc_ki c)" using st by (simp_all add: stack_is_def)
  have "mc_pg c ! ?i = take (length st) (mc_pg c) ! ?i" "mc_ki c ! ?i = take (length st) (mc_ki c) ! ?i" using i by simp_all
  then have "mc_pg c ! ?i = t_addr (fst (st ! j))" "mc_ki c ! ?i = snd (st ! j)" unfolding a(1,2) using j i by (simp_all add: rev_nth Suc_diff_Suc)
  then show "peek (mc_pg c) ?i = Some (t_addr (fst (st ! j)))" "peek (mc_ki c) ?i = Some (snd (st ! j))" using i a(3,4) by (simp_all add: peek_def)
qed

lemma right_above_behind:
  assumes st: "stack_is c (x # ps)" and ok: "path_ok env (in_map c) psz 0 (x # ps)"
  shows "m \<le> length ps \<Longrightarrow> right_above env c (length ps - m) m = Some (behind (take m ps) \<noteq> [])"
proof (induction m)
  case (Suc m)
  obtain b k where bk: "ps ! m = (b, k)" by (cases "ps ! m")
  have m: "m < length ps" using Suc.prems by simp
  have sp: "x # ps = (x # take m ps) @ (b, k) # drop (Suc m) ps" using id_take_nth_drop [OF m] bk by simp
  have "path_ok env (in_map c) psz (0 + length (x # take m ps)) ((b, k) # drop (Suc m) ps)" using path_ok_suffix ok sp by metis
  then have okb: "path_ok env (in_map c) psz (Suc m) ((b, k) # drop (Suc m) ps)" using m by simp
  have "path_ok env (in_map c) psz (0 + length (take m (x # ps))) ((x # ps) ! m # drop (Suc m) (x # ps))"
    using path_ok_suffix [of env "in_map c" psz 0 "take m (x # ps)"] ok id_take_nth_drop [of m "x # ps"] m by simp
  moreover have "drop (Suc m) (x # ps) = (b, k) # drop (Suc m) ps" using Cons_nth_drop_Suc [OF m] bk by simp
  ultimately have k: "k < length (children b)" by (cases "(x # ps) ! m") simp
  obtain pgno where g: "tree_ok env (in_map c) psz (Suc m) pgno b" using path_ok_top [OF okb] by blast
  note n = branch_keys(1,2) [OF okb]
  have ne: "children b \<noteq> []" using n(2) by auto
  have lv: "peek (mc_pg c) (length ps - Suc m) = Some (t_addr b)" "peek (mc_ki c) (length ps - Suc m) = Some k"
    using stack_level [OF st, of "Suc m"] m bk by simp_all
  have pa: "page_at env c (length ps - Suc m) = Some (t_page b)" unfolding page_at_def lv(1) using tree_ok_page [OF g] by simp
  have tk: "behind (take (Suc m) ps) = behind (take m ps) @ concat (map entries (drop (Suc k) (children b)))"
    unfolding take_Suc_conv_app_nth [OF m] bk by (simp add: behind_append)
  have "right_above env c (length ps - Suc m) (Suc m) = (if k < length (children b) - 1 then Some True else right_above env c (length ps - m) m)"
    unfolding right_above.simps pa lv(2) using n ne m by (simp add: Suc_diff_Suc)
  moreover have "concat (map entries (drop (Suc k) (children b))) \<noteq> [] \<longleftrightarrow> k < length (children b) - 1"
  proof
    assume "k < length (children b) - 1"
    then have l: "Suc k < length (children b)" by simp
    have "entries (children b ! Suc k) \<noteq> []" using tree_ok_child(1) [OF g l] entries_nonempty by blast
    then show "concat (map entries (drop (Suc k) (children b))) \<noteq> []" unfolding Cons_nth_drop_Suc [OF l, symmetric] by simp
  next
    assume ne: "concat (map entries (drop (Suc k) (children b))) \<noteq> []"
    have "Suc k < length (children b)"
    proof (rule ccontr)
      assume "\<not> Suc k < length (children b)"
      then show False using ne by simp
    qed
    then show "k < length (children b) - 1" by simp
  qed
  ultimately show ?case using Suc.IH m tk by simp
qed simp

section \<open>Keys on a page\<close>

lemma cmp_at_key:
  assumes s: "standing env psz t c t' i ps" and j: "j < length (t_nodes t')"
  shows "cmp_at c key (t_page t') j = apply_cmp (md_cmp c) key (nd_key (t_nodes t' ! j))"
proof -
  note l = standing_leaf [OF s]
  obtain q where "node_there (t_page t') j (t_nodes t' ! j) q" using page_nodes [OF l(9) j] by blast
  then show ?thesis unfolding cmp_at_def page_key_def using l(8) by (simp add: node_there_def)
qed

text \<open>The number of entries in front of a key in a sorted list, from where it is or what is around it.\<close>

definition rank_pos :: "('a \<Rightarrow> 'r::linorder) \<Rightarrow> 'r \<Rightarrow> 'a list \<Rightarrow> nat" where
  "rank_pos f r xs = length (takeWhile (\<lambda>x. f x < r) xs)"

lemma rank_pos_append: "(\<forall>x\<in>set xs. f x < r) \<Longrightarrow> rank_pos f r (xs @ ys) = length xs + rank_pos f r ys"
  by (simp add: rank_pos_def takeWhile_append)

lemma rank_pos_none: "(\<forall>x\<in>set ys. r \<le> f x) \<Longrightarrow> rank_pos f r (xs @ ys) = rank_pos f r xs"
  by (induction xs) (auto simp: rank_pos_def not_less takeWhile_eq_Nil_iff dest: hd_in_set)

lemma rank_pos_at:
  assumes "sorted_wrt (\<lambda>x y. f x < f y) xs" "j < length xs" "f (xs ! j) = r"
  shows "rank_pos f r xs = j"
proof -
  have "xs = take j xs @ drop j xs" by simp
  moreover have "\<forall>x\<in>set (take j xs). f x < r"
    using assms sorted_wrt_nth_less [OF assms(1)] by (fastforce simp: in_set_conv_nth)
  moreover have "rank_pos f r (drop j xs) = 0"
    using assms by (simp add: rank_pos_def Cons_nth_drop_Suc [symmetric])
  ultimately show ?thesis using rank_pos_append [of "take j xs" f r "drop j xs"] assms(2) by simp
qed

section \<open>Setting the cursor\<close>

text \<open>The answer to a lookup: the entry at the position of the key, with its key only where the operation asks for it;
  or no entry. A lookup that asks for the very key may leave the cursor anywhere when there is none.\<close>

definition gives_key :: "tree_env \<Rightarrow> nat \<Rightarrow> btree \<Rightarrow> cursor \<Rightarrow> cursor_op \<Rightarrow> answer option \<Rightarrow> nat \<Rightarrow> bool" where
  "gives_key env psz t c cop r p \<longleftrightarrow> (\<exists>c'. r = Some (MDB_SUCCESS, c', if cop = SET_RANGE \<or> cop = SET_KEY then Some (fst (content env c t ! p)) else None,
       Some (snd (content env c t ! p))) \<and> stands env psz t c' (At p) \<and> p < length (entries t) \<and> same_place c c')"

definition finds :: "tree_env \<Rightarrow> nat \<Rightarrow> btree \<Rightarrow> cursor \<Rightarrow> cursor_op \<Rightarrow> bool \<Rightarrow> nat \<Rightarrow> bool \<Rightarrow> answer option \<Rightarrow> bool" where
  "finds env psz t c cop exactp q found r \<longleftrightarrow>
     (if exactp \<and> \<not> found then fails env psz t c MDB_NOTFOUND Lost r
      else if q < length (entries t) then gives_key env psz t c cop r q
      else fails env psz t c MDB_NOTFOUND (At q) r)"

lemma set_read_gives:
  assumes s: "standing env psz t c t' i ps" and i: "i < length (t_nodes t')" and pl: "same_place c0 c" and p: "p = length (before ps) + i"
  shows "gives_key env psz t c0 cop (set_read env c cop True) p"
proof -
  let ?c = "clear_flag C_EOF (raise_flag C_INITIALIZED c)"
  have "gives env psz t c0 (read_current env ?c True) p"
  proof (rule read_gives [OF _ i _ p])
    show "standing env psz t ?c t' i ps" using s by simp
    show "same_place c0 ?c" using same_place_trans [OF pl flags_both(1)] .
  qed simp
  then obtain c' where "read_current env ?c True = Some (MDB_SUCCESS, c', Some (fst (content env c0 t ! p)), Some (snd (content env c0 t ! p)))"
    "stands env psz t c' (At p)" "p < length (entries t)" "same_place c0 c'" unfolding gives_def by blast
  then show ?thesis unfolding gives_key_def set_read_def by (intro exI [of _ c']) simp
qed

lemma fails_lost: "standing env psz t c' t' i ps \<Longrightarrow> same_place c c' \<Longrightarrow> fails env psz t c rc Lost (Some (rc, c', None, None))"
  unfolding fails_def by auto

context key_order
begin

lemma key_tree_leaf:
  assumes k: "key_tree rank ok t" and s: "standing env psz t c t' i ps"
  shows "\<forall>n\<in>set (t_nodes t'). ok (nd_key n)" "sorted_wrt (\<lambda>m n. rank (nd_key m) < rank (nd_key n)) (t_nodes t')"
    "\<And>m n. m \<in> set (before ps) \<Longrightarrow> n \<in> set (t_nodes t') \<Longrightarrow> rank (nd_key m) < rank (nd_key n)"
    "\<And>m n. m \<in> set (t_nodes t') \<Longrightarrow> n \<in> set (behind ps) \<Longrightarrow> rank (nd_key m) < rank (nd_key n)"
  using k unfolding key_tree_def standing_leaf(10) [OF s] by (auto simp: sorted_wrt_append)

text \<open>The search in a page that has the key between the entries before and behind it.\<close>

lemma set_in_page_finds:
  assumes s: "standing env psz t c t' i ps" and kt: "key_tree rank ok t" and cm: "apply_cmp (md_cmp c) = cmp" "\<not> is_cint (md_cmp c)" and key: "ok key"
    and lo: "\<forall>n\<in>set (before ps). rank (nd_key n) < rank key" and hi: "\<forall>n\<in>set (behind ps). rank key < rank (nd_key n)" and pl: "same_place c0 c"
  shows "finds env psz t c0 cop exactp (rank_pos (\<lambda>n. rank (nd_key n)) (rank key) (entries t)) (\<exists>n\<in>set (entries t). rank (nd_key n) = rank key)
    (set_in_page env c key cop exactp True)"
proof -
  note l = standing_leaf [OF s] and kl = key_tree_leaf [OF kt s]
  let ?f = "\<lambda>n. rank (nd_key n)" and ?ns = "t_nodes t'"
  define x where "x = rank_pos ?f (rank key) ?ns"
  have rp: "rank_pos ?f (rank key) (entries t) = length (before ps) + x"
    unfolding l(10) rank_pos_append [OF lo] x_def using hi by (subst rank_pos_none) (auto intro: less_imp_le)
  have fd: "(\<exists>n\<in>set (entries t). rank (nd_key n) = rank key) \<longleftrightarrow> (\<exists>n\<in>set ?ns. rank (nd_key n) = rank key)"
    unfolding l(10) using lo hi by (auto dest: order.strict_implies_not_eq)
  have xl: "x \<le> length ?ns" unfolding x_def rank_pos_def by (rule length_takeWhile_le)
  have xf: "x < length ?ns" if "\<exists>n\<in>set ?ns. rank (nd_key n) = rank key"
  proof (rule ccontr)
    assume "\<not> x < length ?ns"
    then have "takeWhile (\<lambda>n. rank (nd_key n) < rank key) ?ns = ?ns" using xl unfolding x_def rank_pos_def
      by (metis le_antisym linorder_not_less takeWhile_eq_take take_all_iff)
    then show False using that by (auto simp: takeWhile_eq_all_conv)
  qed
  have nci: "\<not> (is_cint (md_cmp c) \<and> IS_BRANCH (t_page t'))" using cm(2) by simp
  obtain node where ns: "mdb_node_search (md_cmp c) (unat (md_pad (mc_db c))) (t_page t') key = Some (x, \<exists>n\<in>set ?ns. rank (nd_key n) = rank key, node)"
      "node = (if x < length ?ns then NODEPTR (mp_body (t_page t')) x else None)"
    using node_search_order [OF l(9,7) cm(1) nci key kl(1,2), of "unat (md_pad (mc_db c))"] unfolding x_def rank_pos_def by blast
  have nn: "node = None \<longleftrightarrow> x = length ?ns"
  proof (cases "x < length ?ns")
    case True
    obtain q where "node_there (t_page t') x (?ns ! x) q" using page_nodes [OF l(9) True] by blast
    then show ?thesis using ns(2) True by (simp add: node_there_def)
  qed (use ns(2) xl in simp)
  have m: "x mod 65536 = x" using l(6) xl by (intro mod_less) linarith
  obtain c1 where c1: "set_ki c x = Some c1" "standing env psz t c1 t' x ps" "same_handle c c1" using standing_set_ki [OF s m] by blast
  have p1: "same_place c0 c1" using same_place_trans [OF pl same_handle_place [OF c1(3)]] .
  have un: "set_in_page env c key cop exactp True =
      (if exactp \<and> \<not> (\<exists>n\<in>set ?ns. rank (nd_key n) = rank key) then Some (MDB_NOTFOUND, c1, None, None)
       else if x = length ?ns then do {
         (rc, c) \<leftarrow> mdb_cursor_sibling env True c1;
         (if rc \<noteq> 0 then Some (rc, raise_flag C_EOF c, None, None)
          else do { p \<leftarrow> top_page env c; (if \<not> IS_LEAF p then None else set_read env c cop True) })
       }
       else set_read env c1 cop True)"
    unfolding set_in_page_def l(1) Option.bind.simps ns(1) using c1(1) nn by simp
  show ?thesis
  proof (cases "exactp \<and> \<not> (\<exists>n\<in>set ?ns. rank (nd_key n) = rank key)")
    case True
    then show ?thesis unfolding un if_P [OF True] finds_def fd rp using fails_lost [OF c1(2) p1] by simp
  next
    case ne: False
    show ?thesis
    proof (cases "x = length ?ns")
      case False
      then have xl: "x < length ?ns" using xl by simp
      have "length (before ps) + x < length (entries t)" using xl l(10) by simp
      then show ?thesis unfolding un if_not_P [OF ne] if_not_P [OF False] finds_def fd rp using set_read_gives [OF c1(2) xl p1 refl] ne by simp
    next
      case True
      have nex: "\<not> exactp" using xf True ne by auto
      consider (no) "behind ps = []" "mdb_cursor_sibling env True c1 = Some (MDB_NOTFOUND, c1)"
        | (yes) c2 t2 ps2 where "mdb_cursor_sibling env True c1 = Some (MDB_SUCCESS, c2)" "standing env psz t c2 t2 0 ps2"
            "same_handle c1 c2" "length (before ps2) = length (before ps) + length ?ns"
        using sibling_right [OF c1(2)] by blast
      then show ?thesis
      proof cases
        case no
        have e: "length (before ps) + x = length (entries t)" using True no(1) l(10) by simp
        have "on_entry env psz t (raise_flag C_EOF c1) t' x ps (length (before ps) + x)" unfolding on_entry_def using c1(2) True no(1) e by simp
        from fails_at [OF this same_place_trans [OF p1 flags_place(2)], of MDB_NOTFOUND]
        show ?thesis unfolding un if_not_P [OF ne] if_P [OF True] no(2) finds_def fd rp using e nex by simp
      next
        case yes
        note l2 = standing_leaf [OF yes(2)]
        have p2: "same_place c0 c2" using same_place_trans [OF p1 same_handle_place [OF yes(3)]] .
        have e: "length (before ps) + x = length (before ps2) + 0" using yes(4) True by simp
        have lt: "length (before ps) + x < length (entries t)" unfolding e l2(10) using l2(5) by simp
        show ?thesis unfolding un if_not_P [OF ne] if_P [OF True] yes(1) finds_def fd rp
          using set_read_gives [OF yes(2) l2(5) p2 e] lt nex l2(1,7) by simp
      qed
    qed
  qed
qed

end

section \<open>The test of the current page\<close>

text \<open>What the test of the current page promises of its outcome, for a key at position \<open>q\<close>.\<close>

definition around :: "(node \<Rightarrow> 'r::linorder) \<Rightarrow> 'r \<Rightarrow> path \<Rightarrow> bool" where
  "around f r ps \<longleftrightarrow> (\<forall>n\<in>set (before ps). f n < r) \<and> (\<forall>n\<in>set (behind ps). r < f n)"

fun placed_ok :: "tree_env \<Rightarrow> nat \<Rightarrow> btree \<Rightarrow> cursor \<Rightarrow> (path \<Rightarrow> bool) \<Rightarrow> bool \<Rightarrow> nat \<Rightarrow> bool \<Rightarrow> placed \<Rightarrow> bool" where
  "placed_ok env psz t c A exactp q found (Here c') \<longleftrightarrow> same_place c c' \<and> (exactp \<longrightarrow> found) \<and>
     (\<exists>t' i ps. standing env psz t c' t' i ps \<and> i < length (t_nodes t') \<and> q = length (before ps) + i)"
| "placed_ok env psz t c A exactp q found (This_Page c') \<longleftrightarrow> same_place c c' \<and> (\<exists>t' i ps. standing env psz t c' t' i ps \<and> A ps)"
| "placed_ok env psz t c A exactp q found (Search_Tree c') \<longleftrightarrow> c' = c"
| "placed_ok env psz t c A exactp q found (Answer rc c') \<longleftrightarrow> rc = MDB_NOTFOUND \<and> same_place c c' \<and> \<not> found \<and> (\<exists>t' i ps. standing env psz t c' t' i ps) \<and>
     (\<not> exactp \<longrightarrow> q = length (entries t) \<and> stands env psz t c' (At q))"

context key_order
begin

lemma place_here_ok:
  assumes s: "standing env psz t c t' i ps" and kt: "key_tree rank ok t" and cm: "apply_cmp (md_cmp c) = cmp" and key: "ok key"
    and cop: "exactp \<or> cop = SET_RANGE"
  shows "\<exists>st. place_here env c key cop exactp = Some st \<and>
    placed_ok env psz t c (around (\<lambda>n. rank (nd_key n)) (rank key)) exactp (rank_pos (\<lambda>n. rank (nd_key n)) (rank key) (entries t))
      (\<exists>n\<in>set (entries t). rank (nd_key n) = rank key) st"
proof -
  note l = standing_leaf [OF s] and kl = key_tree_leaf [OF kt s]
  let ?f = "\<lambda>n. rank (nd_key n)" and ?ns = "t_nodes t'"
  let ?q = "rank_pos ?f (rank key) (entries t)" and ?fd = "\<exists>n\<in>set (entries t). rank (nd_key n) = rank key" and ?A = "around ?f (rank key)"
  let ?good = "placed_ok env psz t c ?A exactp ?q ?fd"
  have n0: "0 < length ?ns" by (rule l(5))
  have cmp_j: "\<exists>r. cmp_at c key (t_page t') j = Some r \<and> orders r (rank key) (?f (?ns ! j))" if j: "j < length ?ns" for j
    unfolding cmp_at_key [OF s j] cm using cmp_rank [OF key] kl(1) nth_mem [OF j] by blast
  have srt: "sorted_wrt (\<lambda>m n. ?f m < ?f n) (entries t)" using kt by (simp add: key_tree_def)
  have hit: "?q = length (before ps) + j \<and> ?fd" if "j < length ?ns" "rank key = ?f (?ns ! j)" for j
  proof -
    have e: "entries t ! (length (before ps) + j) = ?ns ! j" "length (before ps) + j < length (entries t)" using that(1) l(10) by (simp_all add: nth_append)
    have "?q = length (before ps) + j" using rank_pos_at [OF srt e(2)] e(1) that(2) by simp
    moreover have "?ns ! j \<in> set (entries t)" using l(10) that(1) by simp
    ultimately show ?thesis using that(2) by auto
  qed
  have set_at: "\<exists>c'. set_ki c j = Some c' \<and> standing env psz t c' t' j ps \<and> same_place c c' \<and> mc_flags c' = mc_flags c" if "j \<le> length ?ns" for j
  proof -
    have m: "j mod 65536 = j" using that l(6) by (intro mod_less) linarith
    obtain c' where "set_ki c j = Some c'" "standing env psz t c' t' j ps" "same_handle c c'" using standing_set_ki [OF s m] by blast
    then show ?thesis using same_handle_place same_handleD by blast
  qed
  have beyond: "\<exists>st. beyond_page env c (t_page t') = Some st \<and> ?good st" if gt: "?f (?ns ! (length ?ns - 1)) < rank key"
  proof -
    have st: "stack_is c ((t', i) # ps)" and p: "path_ok env (in_map c) psz 0 ((t', i) # ps)" using s by (simp_all add: standing_def)
    have ra: "right_above env c 0 (mc_top c) = Some (behind ps \<noteq> [])" using right_above_behind [OF st p, of "length ps"] l(3) by simp
    show ?thesis
    proof (cases "behind ps = []")
      case False
      then show ?thesis unfolding beyond_page_def ra by simp
    next
      case True
      obtain c' where c': "set_ki c (length ?ns) = Some c'" "standing env psz t c' t' (length ?ns) ps" "same_place c c'" using set_at [of "length ?ns"] by blast
      have all: "\<forall>n\<in>set (entries t). ?f n < rank key"
      proof
        fix n assume n: "n \<in> set (entries t)"
        have last: "?ns ! (length ?ns - 1) \<in> set ?ns" using n0 by simp
        show "?f n < rank key"
        proof (cases "n \<in> set (before ps)")
          case True
          show ?thesis by (rule order.strict_trans [OF kl(3) [OF True last] gt])
        next
          case False
          then obtain j where j: "j < length ?ns" "n = ?ns ! j" using n True unfolding l(10) by (auto simp: in_set_conv_nth)
          show ?thesis
          proof (cases "j = length ?ns - 1")
            case True
            then show ?thesis using gt j(2) by simp
          next
            case False
            then have "?f (?ns ! j) < ?f (?ns ! (length ?ns - 1))" using sorted_wrt_nth_less [OF kl(2), of j "length ?ns - 1"] j(1) by simp
            then show ?thesis using gt j(2) by simp
          qed
        qed
      qed
      have e: "?q = length (entries t)" using all by (simp add: rank_pos_def takeWhile_eq_all_conv [THEN iffD2])
      have "\<not> ?fd" using all by (auto dest: order.strict_implies_not_eq)
      moreover have "on_entry env psz t c' t' (length ?ns) ps ?q" unfolding on_entry_def e using c'(2) True l(10) by simp
      ultimately have "?good (Answer MDB_NOTFOUND c')" using c'(2,3) e by auto
      moreover have "beyond_page env c (t_page t') = Some (Answer MDB_NOTFOUND c')" unfolding beyond_page_def ra using True c'(1) l(4) by simp
      ultimately show ?thesis by blast
    qed
  qed
  have here: "\<exists>st. map_option Here (set_ki c j) = Some st \<and> ?good st" if j: "j < length ?ns" "rank key = ?f (?ns ! j)" for j
  proof -
    obtain c' where "set_ki c j = Some c'" "standing env psz t c' t' j ps" "same_place c c'" using set_at [of j] j(1) by auto
    then show ?thesis using hit [OF j] j(1) by auto
  qed
  obtain r0 where r0: "cmp_at c key (t_page t') 0 = Some r0" "orders r0 (rank key) (?f (?ns ! 0))" using cmp_j [OF n0] by blast
  obtain rl where rl: "cmp_at c key (t_page t') (length ?ns - 1) = Some rl" "orders rl (rank key) (?f (?ns ! (length ?ns - 1)))"
    using cmp_j [of "length ?ns - 1"] n0 by auto
  have un: "place_here env c key cop exactp =
      (if r0 = 0 then map_option Here (set_ki c 0)
       else if r0 > 0 then
         (if length ?ns > 1 then
            (if rl = 0 then map_option Here (set_ki c (length ?ns - 1))
             else if rl < 0 then do {
               rc \<leftarrow> (if i < length ?ns then cmp_at c key (t_page t') i else Some 1);
               Some (if rc = 0 then Here c else This_Page (clear_flag C_EOF c))
             }
             else beyond_page env c (t_page t'))
          else beyond_page env c (t_page t'))
       else before_page c cop exactp)"
    unfolding place_here_def Let_def l(1) Option.bind.simps l(4) r0(1) rl(1) l(2) using n0 by simp
  consider (eq) "r0 = 0" | (gt) "r0 > 0" | (lt) "r0 < 0" by linarith
  then show ?thesis
  proof cases
    case eq
    then have "rank key = ?f (?ns ! 0)" using r0(2) by (simp add: orders_def)
    then show ?thesis unfolding un using here [OF n0] eq by simp
  next
    case lt
    then have f0: "rank key < ?f (?ns ! 0)" using r0(2) by (simp add: orders_def)
    have e: "place_here env c key cop exactp = before_page c cop exactp" unfolding un using lt by simp
    show ?thesis
    proof (cases "mc_top c = 0")
      case False
      then show ?thesis unfolding e before_page_def by simp
    next
      case True
      then have ps: "ps = []" using l(3) by simp
      have et: "entries t = ?ns" using l(10) ps by simp
      obtain c' where c': "set_ki c 0 = Some c'" "standing env psz t c' t' 0 ps" "same_place c c'" using set_at [of 0] by auto
      have all: "\<forall>n\<in>set (entries t). rank key < ?f n"
      proof
        fix n assume "n \<in> set (entries t)"
        then obtain j where j: "j < length ?ns" "n = ?ns ! j" unfolding et by (auto simp: in_set_conv_nth)
        then show "rank key < ?f n" using sorted_wrt_nth_less [OF kl(2), of 0 j] f0 by (cases "j = 0") (auto intro: order.strict_trans)
      qed
      have q: "?q = 0" using rank_pos_none [of "entries t" "rank key" ?f "[]"] all by (simp add: rank_pos_def less_imp_le)
      have nf: "\<not> ?fd" using all by (auto dest: order.strict_implies_not_eq)
      have "?good (if cop = SET_RANGE \<and> \<not> exactp then Here c' else Answer MDB_NOTFOUND c')"
      proof (cases exactp)
        case True
        then show ?thesis using c'(2,3) nf by auto
      next
        case False
        have "\<exists>t' i ps. standing env psz t c' t' i ps \<and> i < length (t_nodes t') \<and> ?q = length (before ps) + i"
          using c'(2) n0 q ps by (intro exI [of _ t'] exI [of _ 0] exI [of _ "[]"]) simp
        then show ?thesis using False c'(3) cop by simp
      qed
      then show ?thesis unfolding e before_page_def using True c'(1) by simp
    qed
  next
    case gt
    then have f0: "?f (?ns ! 0) < rank key" using r0(2) by (simp add: orders_def)
    consider (one) "length ?ns = 1" | (hit) "length ?ns > 1" "rl = 0" | (in_page) "length ?ns > 1" "rl < 0" | (past) "length ?ns > 1" "rl > 0"
      using n0 by linarith
    then show ?thesis
    proof cases
      case one
      then show ?thesis unfolding un using beyond f0 gt by simp
    next
      case hit
      then have "rank key = ?f (?ns ! (length ?ns - 1))" using rl(2) by (simp add: orders_def)
      then show ?thesis unfolding un using here [of "length ?ns - 1"] n0 gt hit by simp
    next
      case past
      then have "?f (?ns ! (length ?ns - 1)) < rank key" using rl(2) by (simp add: orders_def)
      then show ?thesis unfolding un using beyond gt past by simp
    next
      case in_page
      then have fl: "rank key < ?f (?ns ! (length ?ns - 1))" using rl(2) by (simp add: orders_def)
      have m: "?ns ! 0 \<in> set ?ns" "?ns ! (length ?ns - 1) \<in> set ?ns" using n0 by simp_all
      have "?A ps" unfolding around_def
        using kl(3) [OF _ m(1)] kl(4) [OF m(2)] f0 fl by (meson order.strict_trans)
      then have tp: "?good (This_Page (clear_flag C_EOF c))" using standing_flags(3) [OF s] flags_place(3) by auto
      have e: "place_here env c key cop exactp = do {
               rc \<leftarrow> (if i < length ?ns then cmp_at c key (t_page t') i else Some 1);
               Some (if rc = 0 then Here c else This_Page (clear_flag C_EOF c)) }" unfolding un using gt in_page by simp
      show ?thesis
      proof (cases "i < length ?ns")
        case False
        then show ?thesis unfolding e using tp by simp
      next
        case True
        obtain r where r: "cmp_at c key (t_page t') i = Some r" "orders r (rank key) (?f (?ns ! i))" using cmp_j [OF True] by blast
        show ?thesis
        proof (cases "r = 0")
          case r0: True
          then have "rank key = ?f (?ns ! i)" using r(2) by (simp add: orders_def)
          then have "?good (Here c)" using hit [OF True] s True by auto
          then show ?thesis unfolding e using True r(1) r0 by simp
        next
          case False
          then show ?thesis unfolding e using True r(1) tp by simp
        qed
      qed
    qed
  qed
qed

end

context key_order
begin

lemma mdb_cursor_set_finds:
  assumes st: "usable env psz t c" and kt: "key_tree rank ok t" and cm: "apply_cmp (md_cmp c) = cmp" "\<not> is_cint (md_cmp c)" and key: "ok key" "key \<noteq> []"
    and cop: "exactp \<or> cop = SET_RANGE"
  shows "finds env psz t c cop exactp (rank_pos (\<lambda>n. rank (nd_key n)) (rank key) (entries t)) (\<exists>n\<in>set (entries t). rank (nd_key n) = rank key)
    (mdb_cursor_set env c key cop exactp True)"
proof -
  let ?q = "rank_pos (\<lambda>n. rank (nd_key n)) (rank key) (entries t)" and ?fd = "\<exists>n\<in>set (entries t). rank (nd_key n) = rank key"
  let ?A = "around (\<lambda>n. rank (nd_key n)) (rank key)"
  have cm': "apply_cmp (md_cmp c') = cmp" "\<not> is_cint (md_cmp c')" if "same_place c c'" for c' using cm that by (simp_all add: same_place_def)
  have in_page: "finds env psz t c cop exactp ?q ?fd (set_in_page env c' key cop exactp True)"
    if "standing env psz t c' t' i ps" "?A ps" "same_place c c'" for c' t' i ps
    using set_in_page_finds [OF that(1) kt cm' [OF that(3)] key(1) _ _ that(3)] that(2) by (simp add: around_def)
  obtain x where x: "(if has (mc_flags c) C_INITIALIZED then place_here env c key cop exactp else Some (Search_Tree (c\<lparr>mc_pg := (mc_pg c)[0 := 0]\<rparr>))) = Some x"
      "placed_ok env psz t c ?A exactp ?q ?fd x"
  proof (cases "fresh env psz t c")
    case True
    then have "(mc_pg c)[0 := 0] = mc_pg c" "\<not> has (mc_flags c) C_INITIALIZED" using list_update_id [of "mc_pg c" 0] by (simp_all add: fresh_def)
    then show thesis using that [of "Search_Tree c"] by simp
  next
    case False
    then obtain t' i ps where s: "standing env psz t c t' i ps" using st by (auto simp: usable_def)
    then have "has (mc_flags c) C_INITIALIZED" by (simp add: standing_def)
    then show thesis using place_here_ok [OF s kt cm(1) key(1) cop] that by auto
  qed
  have un: "mdb_cursor_set env c key cop exactp True = (case x of
           Here c \<Rightarrow> set_read env c cop True
         | This_Page c \<Rightarrow> set_in_page env c key cop exactp True
         | Answer rc c \<Rightarrow> Some (rc, c, None, None)
         | Search_Tree c \<Rightarrow> do {
             (rc, c) \<leftarrow> mdb_page_search env (PS_KEY key) False c;
             (if rc \<noteq> 0 then Some (rc, c, None, None)
              else do { p \<leftarrow> top_page env c; (if \<not> IS_LEAF p then None else set_in_page env c key cop exactp True) })
           })"
    unfolding mdb_cursor_set_def x(1) using key(2) by simp
  show ?thesis
  proof (cases x)
    case (Here c')
    obtain t' i ps where h: "same_place c c'" "exactp \<longrightarrow> ?fd" "standing env psz t c' t' i ps" "i < length (t_nodes t')" "?q = length (before ps) + i"
      using x(2) unfolding Here by auto
    have "gives_key env psz t c cop (set_read env c' cop True) ?q" by (rule set_read_gives [OF h(3,4,1,5)])
    moreover have "?q < length (entries t)" using h(4,5) standing_leaf(10) [OF h(3)] by simp
    moreover have ne: "\<not> (exactp \<and> \<not> ?fd)" using h(2) by blast
    ultimately show ?thesis unfolding un Here finds_def if_not_P [OF ne] by simp
  next
    case (This_Page c')
    then show ?thesis unfolding un using in_page x(2) by auto
  next
    case (Answer rc c')
    then have a: "rc = MDB_NOTFOUND" "same_place c c'" "\<not> ?fd" "\<exists>t' i ps. standing env psz t c' t' i ps"
      "\<not> exactp \<longrightarrow> ?q = length (entries t) \<and> stands env psz t c' (At ?q)" using x(2) [unfolded Answer placed_ok.simps] by blast+
    have "fails env psz t c MDB_NOTFOUND Lost (Some (rc, c', None, None))" using a(1,2,4) fails_lost by blast
    moreover have "\<not> exactp \<Longrightarrow> fails env psz t c MDB_NOTFOUND (At ?q) (Some (rc, c', None, None))" using a unfolding fails_def by blast
    ultimately show ?thesis unfolding un Answer finds_def using a(3,5) by (cases exactp) simp_all
  next
    case (Search_Tree c')
    then have c': "c' = c" using x(2) by simp
    have cr: "apply_cmp (md_cmp (at_root c t)) = cmp" "\<not> is_cint (md_cmp (at_root c t))" using cm by (simp_all add: at_root_def)
    have w: "way_key key t (mc_ki c ! 0) []" using kt by (simp add: way_key_def key_tree_def)
    obtain c2 t2 i2 ps2 where c2: "mdb_page_search env (PS_KEY key) False c = Some (MDB_SUCCESS, c2)" "standing env psz t c2 t2 i2 ps2"
        "way_key key t2 i2 ps2" "same_place c c2"
      by (rule search_tree [OF st chooses_key [OF cr key(1)] w], rule that)
    have "?A ps2" using c2(3) by (simp add: way_key_def around_def)
    from in_page [OF c2(2) this c2(4)]
    show ?thesis unfolding un Search_Tree c' using c2(1) standing_leaf(1,7) [OF c2(2)] by simp
  qed
qed

end

end
