(* ===== verification/Lmdb_Session.thy ===== *)
theory Lmdb_Session
  imports Lmdb_Find
begin

text \<open>
  A session with a cursor: any sequence of positionings, moves and lookups through \<^verbatim>\<open>mdb_cursor_get\<close>, and single
  lookups through \<^verbatim>\<open>mdb_get\<close>, answer what the sorted list of the entries of the tree answers.
\<close>

section \<open>The sorted list as the specification\<close>

text \<open>An answer and the position after it. There is none where the code promises nothing: for moves after a
  failed lookup, and for the operations on duplicates.\<close>

type_synonym reply = "int \<times> bytes option \<times> bytes option"
type_synonym request = "cursor_op \<times> bytes option"

definition reply_at :: "(bytes \<times> bytes) list \<Rightarrow> nat \<Rightarrow> (reply \<times> spot) option" where
  "reply_at es p = Some ((MDB_SUCCESS, Some (fst (es ! p)), Some (snd (es ! p))), At p)"

definition refuse :: "int \<Rightarrow> spot \<Rightarrow> (reply \<times> spot) option" where
  "refuse rc s = Some ((rc, None, None), s)"

definition seek :: "(bytes \<Rightarrow> 'r::linorder) \<Rightarrow> (bytes \<times> bytes) list \<Rightarrow> spot \<Rightarrow> cursor_op \<Rightarrow> bytes option \<Rightarrow> (reply \<times> spot) option" where
  "seek rank es s cop key =
     (case key of
        None \<Rightarrow> refuse EINVAL s
      | Some k \<Rightarrow>
          if k = [] then refuse MDB_BAD_VALSIZE s
          else
            let q = rank_pos (\<lambda>e. rank (fst e)) (rank k) es in
            if cop \<noteq> SET_RANGE \<and> \<not> (\<exists>e\<in>set es. rank (fst e) = rank k) then refuse MDB_NOTFOUND Lost
            else if q < length es then
              Some ((MDB_SUCCESS, if cop = SET then None else Some (fst (es ! q)), Some (snd (es ! q))), At q)
            else refuse MDB_NOTFOUND (At q))"

fun spec_step :: "(bytes \<Rightarrow> 'r::linorder) \<Rightarrow> (bytes \<times> bytes) list \<Rightarrow> spot \<Rightarrow> request \<Rightarrow> (reply \<times> spot) option" where
  "spec_step rank es s (FIRST, key) = reply_at es 0"
| "spec_step rank es s (LAST, key) = reply_at es (length es - 1)"
| "spec_step rank es s (NEXT, key) =
     (case s of
        Fresh \<Rightarrow> reply_at es 0
      | At p \<Rightarrow> if p + 1 < length es then reply_at es (p + 1) else refuse MDB_NOTFOUND (At p)
      | Lost \<Rightarrow> None)"
| "spec_step rank es s (PREV, key) =
     (case s of
        Fresh \<Rightarrow> reply_at es (length es - 1)
      | At p \<Rightarrow> if p \<noteq> 0 then reply_at es (p - 1) else refuse MDB_NOTFOUND (At p)
      | Lost \<Rightarrow> None)"
| "spec_step rank es s (GET_CURRENT, key) =
     (case s of
        Fresh \<Rightarrow> refuse EINVAL Fresh
      | At p \<Rightarrow> if p < length es then reply_at es p else refuse MDB_NOTFOUND (At p)
      | Lost \<Rightarrow> None)"
| "spec_step rank es s (SET, key) = seek rank es s SET key"
| "spec_step rank es s (SET_KEY, key) = seek rank es s SET_KEY key"
| "spec_step rank es s (SET_RANGE, key) = seek rank es s SET_RANGE key"
| "spec_step rank es s _ = None"

fun spec_run :: "(bytes \<Rightarrow> 'r::linorder) \<Rightarrow> (bytes \<times> bytes) list \<Rightarrow> spot \<Rightarrow> request list \<Rightarrow> reply list option" where
  "spec_run rank es s [] = Some []"
| "spec_run rank es s (x # xs) = do { (r, s) \<leftarrow> spec_step rank es s x; rs \<leftarrow> spec_run rank es s xs; Some (r # rs) }"

text \<open>The same with the cursor of the code.\<close>

fun cursor_run :: "tree_env \<Rightarrow> cursor \<Rightarrow> request list \<Rightarrow> reply list option" where
  "cursor_run env c [] = Some []"
| "cursor_run env c ((cop, key) # xs) = do {
     (rc, c, k, d) \<leftarrow> mdb_cursor_get env c key True cop;
     rs \<leftarrow> cursor_run env c xs;
     Some ((rc, k, d) # rs)
   }"

section \<open>One request\<close>

lemma stands_clear: "stands env psz t c s \<Longrightarrow> stands env psz t (clear_flag C_DEL c) s"
proof (cases s)
  case Fresh
  assume a: "stands env psz t c s"
  have "mc_pg (clear_flag C_DEL c) = mc_pg c" "mc_ki (clear_flag C_DEL c) = mc_ki c" by (simp_all add: clear_flag_def)
  then show ?thesis using a Fresh tree_cursor_place [OF flags_place(4), of env psz t c] by (simp add: fresh_def)
next
  case (At p)
  assume a: "stands env psz t c s"
  then obtain t' i ps where "on_entry env psz t c t' i ps p" using At by auto
  then have "on_entry env psz t (clear_flag C_DEL c) t' i ps p" by (auto simp: on_entry_def)
  then show ?thesis using At by auto
next
  case Lost
  assume "stands env psz t c s"
  then obtain t' i ps where "standing env psz t c t' i ps" using Lost by auto
  then have "standing env psz t (clear_flag C_DEL c) t' i ps" by simp
  then show ?thesis using Lost by auto
qed

text \<open>The answer \<open>r\<close> of the code is the one the specification gives.\<close>

definition meets :: "tree_env \<Rightarrow> nat \<Rightarrow> btree \<Rightarrow> cursor \<Rightarrow> answer option \<Rightarrow> reply \<times> spot \<Rightarrow> bool" where
  "meets env psz t c r x \<longleftrightarrow> (\<exists>c'. r = Some (fst (fst x), c', snd (fst x)) \<and> stands env psz t c' (snd x) \<and> same_place c c')"

lemma gives_meets: "gives env psz t c r p \<Longrightarrow> reply_at (content env c t) p = Some x \<Longrightarrow> meets env psz t c r x"
  by (auto simp: gives_def meets_def reply_at_def simp del: stands.simps)

lemma fails_meets: "fails env psz t c rc s r \<Longrightarrow> refuse rc s = Some x \<Longrightarrow> meets env psz t c r x"
  by (auto simp: fails_def meets_def refuse_def simp del: stands.simps)

lemma stays_meets: "stands env psz t c s \<Longrightarrow> refuse rc s = Some x \<Longrightarrow> meets env psz t c (Some (rc, c, None, None)) x"
  by (auto simp: meets_def refuse_def)

lemma content_length [simp]: "length (content env c t) = length (entries t)"
  by (simp add: content_def)

lemma content_seek:
  "rank_pos (\<lambda>e. rank (fst e)) r (content env c t) = rank_pos (\<lambda>n. rank (nd_key n)) r (entries t)"
  "(\<exists>e\<in>set (content env c t). rank (fst e) = r) \<longleftrightarrow> (\<exists>n\<in>set (entries t). rank (nd_key n) = r)"
  by (simp_all add: rank_pos_def content_def takeWhile_map comp_def entry_def)

context key_order
begin

lemma seek_meets:
  assumes st: "stands env psz t c s" and kt: "key_tree rank ok t" and cm: "apply_cmp (md_cmp c) = cmp" "\<not> is_cint (md_cmp c)"
    and key: "\<And>k. key = Some k \<Longrightarrow> k \<noteq> [] \<Longrightarrow> ok k" and cop: "cop \<in> {SET, SET_KEY, SET_RANGE}" and x: "seek rank (content env c t) s cop key = Some x"
  shows "meets env psz t c (case key of None \<Rightarrow> Some (EINVAL, c, None, None) | Some k \<Rightarrow> mdb_cursor_set env c k cop (cop \<noteq> SET_RANGE) True) x"
proof (cases key)
  case None
  then show ?thesis using x stays_meets [OF st] by (simp add: seek_def)
next
  case (Some k)
  show ?thesis
  proof (cases "k = []")
    case True
    then show ?thesis using Some x stays_meets [OF st] by (simp add: seek_def mdb_cursor_set_def)
  next
    case False
    let ?q = "rank_pos (\<lambda>n. rank (nd_key n)) (rank k) (entries t)" and ?fd = "\<exists>n\<in>set (entries t). rank (nd_key n) = rank k"
    have f: "finds env psz t c cop (cop \<noteq> SET_RANGE) ?q ?fd (mdb_cursor_set env c k cop (cop \<noteq> SET_RANGE) True)"
      using mdb_cursor_set_finds [OF stands_usable [OF st] kt cm key [OF Some False] False] by blast
    have e: "seek rank (content env c t) s cop key = (if cop \<noteq> SET_RANGE \<and> \<not> ?fd then refuse MDB_NOTFOUND Lost
        else if ?q < length (entries t) then
          Some ((MDB_SUCCESS, if cop = SET then None else Some (fst (content env c t ! ?q)), Some (snd (content env c t ! ?q))), At ?q)
        else refuse MDB_NOTFOUND (At ?q))"
      unfolding seek_def Some Let_def content_seek using False by simp
    note x' = x [unfolded e]
    show ?thesis
    proof (cases "cop \<noteq> SET_RANGE \<and> \<not> ?fd")
      case True
      show ?thesis unfolding Some option.case
        by (rule fails_meets [OF f [unfolded finds_def if_P [OF True]] x' [unfolded if_P [OF True]]])
    next
      case nf: False
      show ?thesis
      proof (cases "?q < length (entries t)")
        case True
        have g: "gives_key env psz t c cop (mdb_cursor_set env c k cop (cop \<noteq> SET_RANGE) True) ?q"
          using f unfolding finds_def if_not_P [OF nf] if_P [OF True] .
        have k: "(if cop = SET_RANGE \<or> cop = SET_KEY then Some a else None) = (if cop = SET then None else Some a)" for a :: bytes using cop by auto
        show ?thesis using x' [unfolded if_not_P [OF nf] if_P [OF True]] g unfolding Some option.case gives_key_def meets_def k by (auto simp del: stands.simps)
      next
        case False
        show ?thesis unfolding Some option.case
          by (rule fails_meets [OF f [unfolded finds_def if_not_P [OF nf] if_not_P [OF False]] x' [unfolded if_not_P [OF nf] if_not_P [OF False]]])
      qed
    qed
  qed
qed

lemma request_meets:
  assumes st: "stands env psz t c s" and kt: "key_tree rank ok t" and cm: "apply_cmp (md_cmp c) = cmp" "\<not> is_cint (md_cmp c)"
    and key: "\<And>k. key = Some k \<Longrightarrow> k \<noteq> [] \<Longrightarrow> ok k" and x: "spec_step rank (content env c t) s (cop, key) = Some x"
  shows "meets env psz t c (mdb_cursor_get env c key True cop) x"
proof -
  note u = stands_usable [OF st]
  have nb: "\<not> has (mt_flags c) MDB_TXN_BLOCKED" using usableD [OF u] by (simp add: tree_cursor_def)
  have ini: "\<not> has (mc_flags c) C_INITIALIZED" if "s = Fresh" using st that by (simp add: fresh_def)
  have wrap: "meets env psz t c (do { (rc, c, k, d) \<leftarrow> r; Some (rc, clear_flag C_DEL c, k, d) }) x" if m: "meets env psz t c r x" for r
  proof -
    obtain c' where c': "r = Some (fst (fst x), c', snd (fst x))" "stands env psz t c' (snd x)" "same_place c c'" using m by (auto simp: meets_def)
    have "same_place c (clear_flag C_DEL c')" using same_place_trans [OF c'(3) flags_place(4)] .
    then show ?thesis unfolding meets_def c'(1) using stands_clear [OF c'(2)] by (cases x) (auto intro!: exI [of _ "clear_flag C_DEL c'"] split: prod.splits)
  qed
  note sk = seek_meets [OF st kt cm key]
  show ?thesis
  proof (cases cop)
    case FIRST
    then show ?thesis using wrap [OF gives_meets [OF mdb_cursor_first_gives [OF u]]] x nb by (simp add: mdb_cursor_get_def)
  next
    case LAST
    then show ?thesis using wrap [OF gives_meets [OF mdb_cursor_last_gives [OF u]]] x nb by (simp add: mdb_cursor_get_def)
  next
    case GET_CURRENT
    have "meets env psz t c (get_current env c True) x"
    proof (cases s)
      case Fresh
      have "get_current env c True = Some (EINVAL, c, None, None)" using ini [OF Fresh] by (simp add: get_current_def)
      then show ?thesis using x GET_CURRENT Fresh stays_meets [OF st] by simp
    next
      case (At p)
      then obtain t' i ps where e: "on_entry env psz t c t' i ps p" using st by auto
      show ?thesis using get_current_at [OF e] x GET_CURRENT At by (auto intro: gives_meets fails_meets split: if_splits)
    qed (use x GET_CURRENT in simp)
    from wrap [OF this] show ?thesis using GET_CURRENT nb by (simp add: mdb_cursor_get_def)
  next
    case NEXT
    have "meets env psz t c (mdb_cursor_next env c True NEXT) x"
    proof (cases s)
      case Fresh
      have "mdb_cursor_next env c True NEXT = mdb_cursor_first env c True" using ini [OF Fresh] by (simp add: mdb_cursor_next_def)
      then show ?thesis using x NEXT Fresh gives_meets [OF mdb_cursor_first_gives [OF u]] by simp
    next
      case (At p)
      then obtain t' i ps where e: "on_entry env psz t c t' i ps p" using st by auto
      show ?thesis using mdb_cursor_next_at [OF e] x NEXT At by (auto intro: gives_meets fails_meets split: if_splits)
    qed (use x NEXT in simp)
    from wrap [OF this] show ?thesis using NEXT nb by (simp add: mdb_cursor_get_def)
  next
    case PREV
    have "meets env psz t c (mdb_cursor_prev env c True) x"
    proof (cases s)
      case Fresh
      then have "fresh env psz t c" using st by simp
      from gives_meets [OF mdb_cursor_prev_fresh [OF this]] show ?thesis using x PREV Fresh by simp
    next
      case (At p)
      then obtain t' i ps where e: "on_entry env psz t c t' i ps p" using st by auto
      show ?thesis using mdb_cursor_prev_at [OF e] x PREV At by (auto intro: gives_meets fails_meets split: if_splits)
    qed (use x PREV in simp)
    from wrap [OF this] show ?thesis using PREV nb by (simp add: mdb_cursor_get_def)
  next
    case SET
    then show ?thesis using wrap [OF sk [where cop = SET and key = key]] x nb by (simp add: mdb_cursor_get_def cong: option.case_cong)
  next
    case SET_KEY
    then show ?thesis using wrap [OF sk [where cop = SET_KEY and key = key]] x nb by (simp add: mdb_cursor_get_def cong: option.case_cong)
  next
    case SET_RANGE
    then show ?thesis using wrap [OF sk [where cop = SET_RANGE and key = key]] x nb by (simp add: mdb_cursor_get_def cong: option.case_cong)
  qed (use x in simp_all)
qed

lemma run_meets:
  assumes kt: "key_tree rank ok t"
  shows "stands env psz t c s \<Longrightarrow> apply_cmp (md_cmp c) = cmp \<Longrightarrow> \<not> is_cint (md_cmp c) \<Longrightarrow> (\<forall>(cop, key)\<in>set xs. \<forall>k. key = Some k \<longrightarrow> k \<noteq> [] \<longrightarrow> ok k) \<Longrightarrow>
    spec_run rank (content env c t) s xs = Some rs \<Longrightarrow> cursor_run env c xs = Some rs"
proof (induction xs arbitrary: c s rs)
  case (Cons x xs)
  obtain cop key where x: "x = (cop, key)" by (cases x)
  obtain r s' rs' where r: "spec_step rank (content env c t) s (cop, key) = Some (r, s')" "spec_run rank (content env c t) s' xs = Some rs'" "rs = r # rs'"
    using Cons.prems(5) x by (auto simp: bind_eq_Some_conv)
  have k: "\<And>k. key = Some k \<Longrightarrow> k \<noteq> [] \<Longrightarrow> ok k" using Cons.prems(4) x by auto
  obtain c' where c': "mdb_cursor_get env c key True cop = Some (fst r, c', snd r)" "stands env psz t c' s'" "same_place c c'"
    using request_meets [OF Cons.prems(1) kt Cons.prems(2,3) k r(1)] by (auto simp: meets_def)
  have "content env c' t = content env c t" "md_cmp c' = md_cmp c" using content_place [OF c'(3)] c'(3) by (simp_all add: same_place_def)
  then have "cursor_run env c' xs = Some rs'" using Cons.IH [OF c'(2)] Cons.prems(2-4) r(2) by simp
  then show ?case using c'(1) x r(3) by (cases r) simp
qed simp

end

section \<open>The lookups of a handle\<close>

text \<open>A handle of a database with lexically ordered keys, on a tree \<open>t\<close>: what \<^verbatim>\<open>mdb_cursor_init\<close> needs.\<close>

definition handle_on :: "tree_env \<Rightarrow> nat \<Rightarrow> btree \<Rightarrow> cursor \<Rightarrow> bool" where
  "handle_on env psz t h \<longleftrightarrow> tree_cursor env psz t (init_fields h) \<and> length (mc_pg h) = CURSOR_STACK \<and> length (mc_ki h) = CURSOR_STACK \<and>
     md_cmp h = Cmp_memn \<and> key_tree (\<lambda>k. k) (\<lambda>k. length k < 2 ^ 32) t"

lemma init_flags [simp]: "\<not> has (w AND C_IN_MAP) C_INITIALIZED" "\<not> has (w AND C_IN_MAP) C_DEL" for w :: u32
  by (simp_all add: has_def and.assoc)

lemma handle_fresh:
  assumes "handle_on env psz t h"
  shows "mdb_cursor_init env h = Some (init_fields h)" "fresh env psz t (init_fields h)" "md_cmp (init_fields h) = Cmp_memn"
proof -
  have f: "mt_flags (init_fields h) = mt_flags h" "db_stale (init_fields h) = db_stale h" "mc_db (init_fields h) = mc_db h" "md_cmp (init_fields h) = md_cmp h"
    "mc_flags (init_fields h) = mt_flags h AND C_IN_MAP" by (simp_all add: init_fields_def)
  show "mdb_cursor_init env h = Some (init_fields h)" using assms f by (simp add: mdb_cursor_init_def handle_on_def tree_cursor_def)
  have "mc_pg (init_fields h) = (mc_pg h)[0 := 0]" "mc_ki (init_fields h) = (mc_ki h)[0 := 0]" by (simp_all add: init_fields_def)
  then show "fresh env psz t (init_fields h)" using assms f by (simp add: fresh_def handle_on_def)
  show "md_cmp (init_fields h) = Cmp_memn" using assms f by (simp add: handle_on_def)
qed

lemma rank_pos_found:
  assumes "sorted_wrt (\<lambda>x y. f x < f y) xs" "x \<in> set xs"
  shows "rank_pos f (f x) xs < length xs \<and> xs ! rank_pos f (f x) xs = x"
proof -
  obtain j where j: "j < length xs" "xs ! j = x" using assms(2) by (auto simp: in_set_conv_nth)
  then show ?thesis using rank_pos_at [OF assms(1) j(1)] by simp
qed

text \<open>C25: \<^verbatim>\<open>mdb_get\<close> on a tree of pages, of any height below 32 and with data in the leaves or on overflow pages, finds
  the data of a key exactly when the tree has an entry with that key.\<close>

theorem mdb_get_lookup:
  assumes h: "handle_on env psz t h" and key: "key \<noteq> []" "length key < 2 ^ 32"
  shows "mdb_get env True h key = Some (case map_of (content env (init_fields h) t) key of None \<Rightarrow> (MDB_NOTFOUND, None) | Some v \<Rightarrow> (MDB_SUCCESS, Some v))"
proof -
  note f = handle_fresh [OF h]
  let ?c = "init_fields h" and ?es = "content env (init_fields h) t"
  have kt: "key_tree (\<lambda>k. k) (\<lambda>k. length k < 2 ^ 32) t" using h by (simp add: handle_on_def)
  have cm: "apply_cmp (md_cmp ?c) = mdb_cmp_memn" "\<not> is_cint (md_cmp ?c)" by (simp_all add: f(3))
  have nb: "\<not> has (mt_flags h) MDB_TXN_BLOCKED" using h by (simp add: handle_on_def tree_cursor_def init_fields_def)
  have srt: "sorted_wrt (\<lambda>x y. fst x < fst y) ?es" using kt by (simp add: key_tree_def content_def sorted_wrt_map entry_def)
  define q where "q = rank_pos fst key ?es"
  have fi: "finds env psz t ?c SET True q (\<exists>e\<in>set ?es. fst e = key) (mdb_cursor_set env ?c key SET True True)"
    using memn.mdb_cursor_set_finds [OF _ kt cm key(2,1), where env = env and psz = psz and cop = SET and exactp = True] f(2) content_seek [where rank = "\<lambda>k. k" and env = env and c = ?c and t = t and r = key]
    by (simp add: usable_def q_def)
  have un: "mdb_get env True h key = do { (rc, _, _, data) \<leftarrow> mdb_cursor_set env ?c key SET True True; Some (rc, data) }"
    using nb f(1) by (simp add: mdb_get_def)
  show ?thesis
  proof (cases "\<exists>e\<in>set ?es. fst e = key")
    case False
    then have "map_of ?es key = None" by (auto simp: map_of_eq_None_iff)
    then show ?thesis unfolding un using fi False by (auto simp: finds_def fails_def)
  next
    case True
    then obtain v where v: "(key, v) \<in> set ?es" by force
    have q: "q < length ?es" "?es ! q = (key, v)" using rank_pos_found [OF srt v] by (simp_all add: q_def)
    have "sorted_wrt (<) (map fst ?es)" using srt by (simp add: sorted_wrt_map)
    then have "distinct (map fst ?es)" by (simp add: strict_sorted_iff)
    then have "map_of ?es key = Some v" using v by (simp add: map_of_is_SomeI)
    then show ?thesis unfolding un using fi True q by (auto simp: finds_def gives_key_def simp del: stands.simps)
  qed
qed

text \<open>C24: any session with a new cursor (positioning on the first and last entry, moves, lookups of keys and of
  ranges, reading the current entry, in any order) answers what the list of entries answers, wherever that is
  defined; the cursor keeps no more state than its position in the list.\<close>

theorem cursor_session:
  assumes h: "handle_on env psz t h" and keys: "\<forall>(cop, key)\<in>set xs. \<forall>k. key = Some k \<longrightarrow> length k < 2 ^ 32"
    and spec: "spec_run (\<lambda>k. k) (content env (init_fields h) t) Fresh xs = Some rs"
  shows "\<exists>c. mdb_cursor_init env h = Some c \<and> cursor_run env c xs = Some rs"
proof -
  note f = handle_fresh [OF h]
  have kt: "key_tree (\<lambda>k. k) (\<lambda>k. length k < 2 ^ 32) t" using h by (simp add: handle_on_def)
  have "stands env psz t (init_fields h) Fresh" using f(2) by simp
  moreover have "\<forall>(cop, key)\<in>set xs. \<forall>k. key = Some k \<longrightarrow> k \<noteq> [] \<longrightarrow> length k < 2 ^ 32" using keys by fast
  ultimately have "cursor_run env (init_fields h) xs = Some rs"
    using memn.run_meets [OF kt, of env psz "init_fields h" Fresh xs rs] spec f(3) by simp
  then show ?thesis using f(1) by blast
qed

section \<open>A small database\<close>

text \<open>A root with two leaves, read by a read-only transaction.\<close>

definition far_node :: node where
  "far_node = \<lparr>nd_lo = 1, nd_hi = 0, nd_flags = 0, nd_key = [6, 1], nd_data = [9]\<rparr>"

definition far_page :: mdb_page where
  "far_page = \<lparr>mp_pgno = 8, mp_pad = 0, mp_flags = P_LEAF, mp_lower = 18, mp_upper = 36,
     mp_body = [36, 0] @ replicate 18 0 @ [1, 0, 0, 0, 0, 0, 2, 0, 6, 1, 9, 0]\<rparr>"

definition root_nodes :: "node list" where
  "root_nodes = [\<lparr>nd_lo = 7, nd_hi = 0, nd_flags = 0, nd_key = [], nd_data = []\<rparr>, \<lparr>nd_lo = 8, nd_hi = 0, nd_flags = 0, nd_key = [5], nd_data = []\<rparr>]"

definition root_page :: mdb_page where
  "root_page = \<lparr>mp_pgno = 9, mp_pad = 0, mp_flags = P_BRANCH, mp_lower = 20, mp_upper = 30,
     mp_body = [40, 0, 30, 0] @ replicate 10 0 @ [8, 0, 0, 0, 0, 0, 1, 0, 5, 0, 7, 0, 0, 0, 0, 0, 0, 0]\<rparr>"

definition small_tree :: btree where
  "small_tree = Branch 432 root_page root_nodes [Leaf 336 sample_page [sample_node], Leaf 384 far_page [far_node]]"

definition small_env :: tree_env where
  "small_env = \<lparr>me_map = 0, me_psize = 48, mt_next_pgno = 10, mt_chain = [],
     object_at = [336 \<mapsto> sample_page, 384 \<mapsto> far_page, 432 \<mapsto> root_page],
     main_db = \<lparr>md_branch_pages = 0, md_leaf_pages = 0, md_overflow_pages = 0, md_pad = 0, md_flags = 0, md_depth = 0, md_entries = 0, md_root = P_INVALID\<rparr>,
     main_cmp = Cmp_memn\<rparr>"

definition small_handle :: cursor where
  "small_handle = \<lparr>mt_flags = 0x20000, mc_dbi = 2,
     mc_db = \<lparr>md_branch_pages = 1, md_leaf_pages = 2, md_overflow_pages = 0, md_pad = 0, md_flags = 0, md_depth = 2, md_entries = 2, md_root = 9\<rparr>,
     md_cmp = Cmp_memn, md_name = [], db_stale = False, dbi_changed = False, mc_flags = 0, mc_snum = 0, mc_top = 0,
     mc_pg = replicate 32 0, mc_ki = replicate 32 0\<rparr>"

lemma far_page_rep: "page_rep 48 far_page [far_node]" "IS_LEAF far_page" "\<not> IS_BRANCH far_page"
proof -
  show l: "IS_LEAF far_page" "\<not> IS_BRANCH far_page" by (simp_all add: IS_LEAF_def IS_BRANCH_def F_ISSET_def far_page_def)
  have sz: "node_size far_node = 12" by (simp add: node_size_def far_node_def EVEN_def)
  have enc: "node_enc far_node = [1, 0, 0, 0, 0, 0, 2, 0, 6, 1, 9]" by (simp add: node_enc_def far_node_def le16_def drop_bit_eq_div)
  have "node_wf True far_node" by (simp add: node_wf_def far_node_def F_ISSET_def)
  then have "slots_rep 48 far_page [(12, far_node)] (replicate 18 0) [1, 0, 0, 0, 0, 0, 2, 0, 6, 1, 9, 0]"
    unfolding slots_rep_def using l sz enc
    by (simp add: slot_ok_def far_page_def IS_LEAF2_def F_ISSET_def le16_def drop_bit_eq_div)
  then show "page_rep 48 far_page [far_node]" unfolding page_rep_def by force
qed

lemma root_page_rep: "page_rep 48 root_page root_nodes" "IS_BRANCH root_page" "\<not> IS_LEAF root_page"
proof -
  show l: "IS_BRANCH root_page" "\<not> IS_LEAF root_page" by (simp_all add: IS_LEAF_def IS_BRANCH_def F_ISSET_def root_page_def)
  have sz: "node_size (root_nodes ! 0) = 8" "node_size (root_nodes ! 1) = 10" by (simp_all add: node_size_def root_nodes_def EVEN_def)
  have enc: "node_enc (root_nodes ! 0) = [7, 0, 0, 0, 0, 0, 0, 0]" "node_enc (root_nodes ! 1) = [8, 0, 0, 0, 0, 0, 1, 0, 5]"
    by (simp_all add: node_enc_def root_nodes_def le16_def drop_bit_eq_div)
  have "node_wf False (root_nodes ! 0)" "node_wf False (root_nodes ! 1)" by (simp_all add: node_wf_def root_nodes_def)
  then have "slots_rep 48 root_page [(8, root_nodes ! 0), (18, root_nodes ! 1)] (replicate 10 0) [8, 0, 0, 0, 0, 0, 1, 0, 5, 0, 7, 0, 0, 0, 0, 0, 0, 0]"
    unfolding slots_rep_def using l(2) sz enc
    by (simp add: slot_ok_def apart_def root_page_def IS_LEAF2_def F_ISSET_def le16_def enc16_def drop_bit_eq_div)
  then show "page_rep 48 root_page root_nodes" unfolding page_rep_def by (force simp: root_nodes_def)
qed

lemma small_handle_on: "handle_on small_env 48 small_tree small_handle"
proof -
  have sl: "\<not> IS_BRANCH sample_page" by (simp add: IS_BRANCH_def F_ISSET_def sample_page_def)
  have rd: "readable small_env True n" if "n = sample_node \<or> n = far_node" for n
    using that by (auto simp: readable_def node_value_def sample_node_def far_node_def F_ISSET_def)
  have im: "in_map (init_fields small_handle)" by (simp add: in_map_def init_fields_def small_handle_def has_def)
  have pg: "node_pgno (root_nodes ! 0) = 7" "node_pgno (root_nodes ! 1) = 8" by (simp_all add: node_pgno_def root_nodes_def)
  have fe: "fetch small_env True 7 = Some (336, sample_page)" "fetch small_env True 8 = Some (384, far_page)" "fetch small_env True 9 = Some (432, root_page)"
    by (simp_all add: fetch_def small_env_def)
  have lf: "tree_ok small_env True 48 0 7 (Leaf 336 sample_page [sample_node])" "tree_ok small_env True 48 0 8 (Leaf 384 far_page [far_node])"
    using fe sl sample_page_rep far_page_rep rd by simp_all
  have "tree_ok small_env True 48 (Suc 0) 9 small_tree"
    unfolding small_tree_def using fe(3) root_page_rep pg lf by (simp add: root_nodes_def less_Suc_eq)
  moreover have "\<not> has (mt_flags small_handle) MDB_TXN_BLOCKED" "\<not> has (md_flags (mc_db small_handle)) MDB_DUPSORT" by (simp_all add: small_handle_def has_def)
  ultimately have "tree_cursor small_env 48 small_tree (init_fields small_handle)"
    using im by (auto simp: tree_cursor_def init_fields_def small_handle_def intro!: exI [of _ "Suc 0"])
  moreover have "key_tree (\<lambda>k. k) (\<lambda>k. length k < 2 ^ 32) small_tree"
    by (simp add: key_tree_def small_tree_def root_nodes_def sample_node_def far_node_def less_Suc_eq)
  ultimately show ?thesis by (simp add: handle_on_def small_handle_def)
qed

lemma small_content: "content small_env (init_fields small_handle) small_tree = [([1, 2], [3, 4]), ([6, 1], [9])]"
  by (simp add: content_def small_tree_def entry_def node_value_def sample_node_def far_node_def F_ISSET_def)

theorem mdb_get_lookup_witness:
  "mdb_get small_env True small_handle [6, 1] = Some (MDB_SUCCESS, Some [9]) \<and> mdb_get small_env True small_handle [6] = Some (MDB_NOTFOUND, None)"
  using mdb_get_lookup [OF small_handle_on, of "[6, 1]"] mdb_get_lookup [OF small_handle_on, of "[6]"] by (simp add: small_content)

theorem cursor_session_witness:
  "\<exists>c. mdb_cursor_init small_env small_handle = Some c \<and>
     cursor_run small_env c [(NEXT, None), (NEXT, None), (NEXT, None), (SET_RANGE, Some [2]), (PREV, None), (PREV, None), (SET, Some [1]), (LAST, None)] =
       Some [(MDB_SUCCESS, Some [1, 2], Some [3, 4]), (MDB_SUCCESS, Some [6, 1], Some [9]), (MDB_NOTFOUND, None, None),
         (MDB_SUCCESS, Some [6, 1], Some [9]), (MDB_SUCCESS, Some [1, 2], Some [3, 4]), (MDB_NOTFOUND, None, None),
         (MDB_NOTFOUND, None, None), (MDB_SUCCESS, Some [6, 1], Some [9])]"
  by (rule cursor_session [OF small_handle_on])
    (simp_all add: small_content reply_at_def refuse_def seek_def rank_pos_def Let_def)

section \<open>Reading a whole database\<close>

lemma spec_next:
  "p < length es \<Longrightarrow> spec_run rank es (At p) (replicate (length es - p) (NEXT, None)) =
    Some (map (\<lambda>e. (MDB_SUCCESS, Some (fst e), Some (snd e))) (drop (Suc p) es) @ [(MDB_NOTFOUND, None, None)])"
proof (induction "length es - p" arbitrary: p)
  case (Suc n)
  have r: "replicate (length es - p) (NEXT, None :: bytes option) = (NEXT, None) # replicate (length es - Suc p) (NEXT, None)"
    using Suc.prems by (metis Suc_diff_Suc replicate_Suc)
  show ?case
  proof (cases "Suc p < length es")
    case True
    have "n = length es - Suc p" using Suc.hyps(2) by simp
    from Suc.hyps(1) [OF this True] show ?thesis unfolding r using True by (simp add: reply_at_def Cons_nth_drop_Suc [symmetric])
  next
    case False
    then show ?thesis unfolding r using Suc.prems by (simp add: refuse_def)
  qed
qed simp

lemma scan_run:
  assumes h: "handle_on env psz t h"
  shows "cursor_run env (init_fields h) (replicate (length (entries t) + 1) (NEXT, None)) =
    Some (map (\<lambda>e. (MDB_SUCCESS, Some (fst e), Some (snd e))) (content env (init_fields h) t) @ [(MDB_NOTFOUND, None, None)])"
proof -
  note f = handle_fresh [OF h]
  let ?es = "content env (init_fields h) t"
  have kt: "key_tree (\<lambda>k. k) (\<lambda>k. length k < 2 ^ 32) t" using h by (simp add: handle_on_def)
  have u: "usable env psz t (init_fields h)" using f(2) by (simp add: usable_def)
  have n: "0 < length ?es" using entries_usable [OF u] by simp
  have e: "?es = ?es ! 0 # drop (Suc 0) ?es" using n by (simp add: Cons_nth_drop_Suc)
  have "spec_run (\<lambda>k. k) ?es Fresh ((NEXT, None) # replicate (length ?es - 0) (NEXT, None)) =
      Some ((MDB_SUCCESS, Some (fst (?es ! 0)), Some (snd (?es ! 0))) # map (\<lambda>e. (MDB_SUCCESS, Some (fst e), Some (snd e))) (drop (Suc 0) ?es) @ [(MDB_NOTFOUND, None, None)])"
    using spec_next [OF n, of "\<lambda>k. k"] by (simp add: reply_at_def)
  moreover have "(MDB_SUCCESS, Some (fst (?es ! 0)), Some (snd (?es ! 0))) # map (\<lambda>e. (MDB_SUCCESS, Some (fst e), Some (snd e))) (drop (Suc 0) ?es) =
      map (\<lambda>e. (MDB_SUCCESS, Some (fst e), Some (snd e))) ?es" by (subst (3) e) simp
  ultimately have "spec_run (\<lambda>k. k) ?es Fresh (replicate (length (entries t) + 1) (NEXT, None)) =
      Some (map (\<lambda>e. (MDB_SUCCESS, Some (fst e), Some (snd e))) ?es @ [(MDB_NOTFOUND, None, None)])" by simp
  then show ?thesis
    using memn.run_meets [OF kt, of env psz "init_fields h" Fresh "replicate (length (entries t) + 1) (NEXT, None)"] f(2,3) by simp
qed

text \<open>C26: a reader that asks for the next entry again and again reaches every entry of the tree, in the order of the
  keys and each once, and is then told that there are no more.\<close>

theorem cursor_scan:
  assumes h: "handle_on env psz t h"
  shows "\<exists>c. mdb_cursor_init env h = Some c \<and> cursor_run env c (replicate (length (entries t) + 1) (NEXT, None)) =
    Some (map (\<lambda>e. (MDB_SUCCESS, Some (fst e), Some (snd e))) (content env c t) @ [(MDB_NOTFOUND, None, None)])"
  using scan_run [OF h] handle_fresh(1) [OF h] by blast

theorem cursor_scan_witness:
  "\<exists>c. mdb_cursor_init small_env small_handle = Some c \<and> cursor_run small_env c [(NEXT, None), (NEXT, None), (NEXT, None)] =
     Some [(MDB_SUCCESS, Some [1, 2], Some [3, 4]), (MDB_SUCCESS, Some [6, 1], Some [9]), (MDB_NOTFOUND, None, None)]"
  using cursor_scan [OF small_handle_on] handle_fresh(1) [OF small_handle_on] small_content
  by (simp add: small_tree_def numeral_3_eq_3)

section \<open>The dirty and spilled pages\<close>

text \<open>The lists of a transaction and its parents as sets of spilled pages and maps from dirty pages to where they are;
  the first transaction that has a page decides.\<close>

definition spill_rep :: "idl option \<Rightarrow> u64 set \<Rightarrow> bool" where
  "spill_rep sp S \<longleftrightarrow> (case sp of None \<Rightarrow> S = {} | Some sl \<Rightarrow> \<exists>xs. idl_rep sl xs \<and> sorted_wrt (>) xs \<and> S = {pgno. push_bit 1 pgno \<in> set xs})"

definition dirty_rep :: "id2l \<Rightarrow> (u64 \<rightharpoonup> nat) \<Rightarrow> bool" where
  "dirty_rep dl D \<longleftrightarrow> (\<exists>xs. id2l_rep dl xs \<and> sorted_wrt (\<lambda>x y. mid x < mid y) xs \<and> D = map_of (map (\<lambda>x. (mid x, mptr x)) xs))"

definition chain_rep :: "(idl option \<times> id2l) list \<Rightarrow> (u64 set \<times> (u64 \<rightharpoonup> nat)) list \<Rightarrow> bool" where
  "chain_rep txns cs \<longleftrightarrow> list_all2 (\<lambda>(sp, dl) (S, D). spill_rep sp S \<and> dirty_rep dl D) txns cs"

fun first_having :: "(u64 set \<times> (u64 \<rightharpoonup> nat)) list \<Rightarrow> nat \<Rightarrow> u64 \<Rightarrow> (nat option \<times> nat) option" where
  "first_having [] level pgno = None"
| "first_having ((S, D) # cs) level pgno =
     (if pgno \<in> S then Some (None, level)
      else case D pgno of Some p \<Rightarrow> Some (Some p, level) | None \<Rightarrow> first_having cs (level + 1) pgno)"

lemma takeWhile_find:
  assumes "sorted_wrt (\<lambda>x y. f x < f y) xs"
  shows "length (takeWhile (\<lambda>x. f x < i) xs) < length xs \<and> f (xs ! length (takeWhile (\<lambda>x. f x < i) xs)) = (i :: 'a::linorder) \<longleftrightarrow> i \<in> f ` set xs"
    (is "?n < _ \<and> _ \<longleftrightarrow> _")
proof
  assume "i \<in> f ` set xs"
  then obtain j where j: "j < length xs" "f (xs ! j) = i" by (auto simp: in_set_conv_nth)
  have "takeWhile (\<lambda>x. f x < i) (take j xs @ drop j xs) = take j xs @ takeWhile (\<lambda>x. f x < i) (drop j xs)"
    using j sorted_wrt_nth_less [OF assms] by (intro takeWhile_append2) (auto simp: in_set_conv_nth)
  moreover have "takeWhile (\<lambda>x. f x < i) (drop j xs) = []" using j by (simp add: Cons_nth_drop_Suc [symmetric])
  ultimately have "takeWhile (\<lambda>x. f x < i) xs = take j xs" by simp
  then show "?n < length xs \<and> f (xs ! ?n) = i" using j by simp
qed (metis image_eqI nth_mem)

lemma spilled_rep:
  assumes "spill_rep sp S"
  shows "spilled sp pgno = Some (pgno \<in> S)"
proof (cases sp)
  case (Some sl)
  then obtain xs where x: "idl_rep sl xs" "sorted_wrt (>) xs" "S = {pgno. push_bit 1 pgno \<in> set xs}" using assms by (auto simp: spill_rep_def)
  obtain junk where m: "sl = of_nat (length xs + length junk) # of_nat (length xs) # xs @ junk" "length xs + length junk < 2 ^ 31"
    using x(1) by (auto simp: idl_rep_def)
  let ?pn = "push_bit 1 pgno" and ?n = "length (takeWhile (\<lambda>x. x > push_bit 1 pgno) xs)"
  have tl: "?n \<le> length xs" by (rule length_takeWhile_le)
  have le: "of_nat (?n + 1) \<le> (of_nat (length xs) :: u64) \<longleftrightarrow> ?n < length xs"
    using le_small [of "?n + 1" "length xs"] tl m(2) by (simp add: Suc_le_eq)
  have at: "?n < length xs \<Longrightarrow> ids_at sl (?n + 1) = Some (xs ! ?n)" by (simp add: ids_at_def peek_def m(1) nth_append)
  have srt: "sorted_wrt (\<lambda>x y. - uint x < - uint y) xs" using x(2) by (simp add: word_less_def)
  have tw: "takeWhile (\<lambda>x. x > ?pn) xs = takeWhile (\<lambda>x. - uint x < - uint ?pn) xs" by (simp add: word_less_def)
  have "?n < length xs \<and> xs ! ?n = ?pn \<longleftrightarrow> ?pn \<in> set xs"
    using takeWhile_find [OF srt, of "- uint ?pn"] unfolding tw [symmetric] by (auto simp: image_iff simp flip: word_uint_eq_iff)
  then show ?thesis unfolding spilled_def Some using mdb_midl_search_rep [OF x(1,2), of ?pn] le at x(3) m(1)
    by (cases "?n < length xs") (auto simp: Let_def ids_at_def peek_def)
qed (use assms in \<open>simp add: spill_rep_def spilled_def\<close>)

lemma dirty_lookup:
  assumes "dirty_rep dl D"
  shows "dirty dl pgno = Some (D pgno)"
proof -
  obtain xs where x: "id2l_rep dl xs" "sorted_wrt (\<lambda>x y. mid x < mid y) xs" "D = map_of (map (\<lambda>x. (mid x, mptr x)) xs)" using assms by (auto simp: dirty_rep_def)
  obtain h junk where m: "dl = h # xs @ junk" "mid h = of_nat (length xs)" "length xs < 2 ^ 31" using x(1) by (auto simp: id2l_rep_def)
  let ?n = "length (takeWhile (\<lambda>x. mid x < pgno) xs)"
  have tl: "?n \<le> length xs" by (rule length_takeWhile_le)
  have le: "of_nat (?n + 1) \<le> (of_nat (length xs) :: u64) \<longleftrightarrow> ?n < length xs" using le_small [of "?n + 1" "length xs"] tl m(3) by (simp add: Suc_le_eq)
  have "unat (mid h) = length xs" unfolding m(2) using m(3) by (intro unat_small(1)) simp
  then have h0: "mid h = 0 \<longleftrightarrow> xs = []" by (metis length_0_conv unsigned_eq_0_iff)
  have find: "?n < length xs \<and> mid (xs ! ?n) = pgno \<longleftrightarrow> pgno \<in> mid ` set xs" by (rule takeWhile_find [OF x(2)])
  have dist: "distinct (map mid xs)" using x(2) by (simp add: sorted_wrt_map [symmetric, of "(<)" mid] strict_sorted_iff)
  have d: "D pgno = (if ?n < length xs \<and> mid (xs ! ?n) = pgno then Some (mptr (xs ! ?n)) else None)"
  proof (cases "?n < length xs \<and> mid (xs ! ?n) = pgno")
    case True
    then have "(pgno, mptr (xs ! ?n)) \<in> set (map (\<lambda>x. (mid x, mptr x)) xs)" by force
    then have "map_of (map (\<lambda>x. (mid x, mptr x)) xs) pgno = Some (mptr (xs ! ?n))"
      by (rule map_of_is_SomeI [rotated]) (use dist in \<open>simp add: comp_def\<close>)
    then show ?thesis using True x(3) by simp
  next
    case False
    then have "pgno \<notin> mid ` set xs" using find by simp
    then show ?thesis using False unfolding x(3) by (auto simp: map_of_eq_None_iff image_iff)
  qed
  have at: "?n < length xs \<Longrightarrow> peek dl (?n + 1) = Some (xs ! ?n)" by (simp add: peek_def m(1) nth_append)
  have p0: "peek dl 0 = Some h" by (simp add: peek_def m(1))
  show ?thesis
  proof (cases "xs = []")
    case True
    then show ?thesis unfolding dirty_def p0 using h0 d by simp
  next
    case False
    then have "mid h \<noteq> 0" using h0 by simp
    then show ?thesis unfolding dirty_def p0 using mdb_mid2l_search_rep [OF x(1,2), of pgno] le at d m(2) by (cases "?n < length xs") auto
  qed
qed

lemma chain_lookup_rep: "chain_rep txns cs \<Longrightarrow> chain_lookup txns level pgno = Some (first_having cs level pgno)"
proof (induction txns arbitrary: cs level)
  case (Cons x txns)
  obtain sp dl where x: "x = (sp, dl)" by (cases x)
  obtain S D cs' where c: "cs = (S, D) # cs'" "spill_rep sp S" "dirty_rep dl D" "chain_rep txns cs'"
    using Cons.prems x by (auto simp: chain_rep_def list_all2_Cons1)
  show ?case using Cons.IH [OF c(4), of "level + 1"] unfolding x c(1) chain_lookup.simps spilled_rep [OF c(2)] Option.bind.simps dirty_lookup [OF c(3)]
    by (auto split: option.splits)
qed (simp add: chain_rep_def)

text \<open>C27: a page number is looked up in the dirty and spilled pages of the transaction, then of its parents from the
  inside out, and then in the map: the innermost transaction that has the page decides, a spilled page is read
  from the map, and a number beyond the last page of the snapshot makes the transaction unusable. Read-only
  cursors look only at the map.\<close>

theorem mdb_page_get_layers:
  assumes "chain_rep (mt_chain env) cs"
  shows "mdb_page_get env c pgno = Some (case (if has (mc_flags c) C_IN_MAP then None else first_having cs 1 pgno) of
       Some (Some p, level) \<Rightarrow> (MDB_SUCCESS, c, p, level)
     | Some (None, level) \<Rightarrow> (MDB_SUCCESS, c, me_map env + me_psize env * unat pgno, level)
     | None \<Rightarrow> if pgno < mt_next_pgno env then (MDB_SUCCESS, c, me_map env + me_psize env * unat pgno, 0)
         else (MDB_PAGE_NOTFOUND, txn_error c, 0, 0))"
  unfolding mdb_page_get_def Let_def chain_lookup_rep [OF assms] by (auto split: option.splits simp: not_less)

theorem mdb_page_get_layers_witness:
  "let env = small_env\<lparr>mt_chain := [(None, [\<lparr>mid = 1, mptr = 0\<rparr>, \<lparr>mid = 5, mptr = 77\<rparr>]), (Some [4, 1, 14, 0, 0, 0], [\<lparr>mid = 0, mptr = 0\<rparr>])]\<rparr>;
       c = small_handle\<lparr>mt_flags := 0\<rparr>
   in mdb_page_get env c 5 = Some (MDB_SUCCESS, c, 77, 1) \<and> mdb_page_get env c 7 = Some (MDB_SUCCESS, c, 336, 2) \<and>
      mdb_page_get env c 20 = Some (MDB_PAGE_NOTFOUND, txn_error c, 0, 0)"
proof -
  let ?env = "small_env\<lparr>mt_chain := [(None, [\<lparr>mid = 1, mptr = 0\<rparr>, \<lparr>mid = 5, mptr = 77\<rparr>]), (Some [4, 1, 14, 0, 0, 0], [\<lparr>mid = 0, mptr = 0\<rparr>])]\<rparr>"
  let ?S = "{pgno :: u64. push_bit 1 pgno \<in> set [14]}"
  have s: "spill_rep None {}" "spill_rep (Some [4, 1, 14, 0, 0, 0]) ?S"
    unfolding spill_rep_def idl_rep_def by (simp, unfold option.case, intro exI [of _ "[14]"] exI [of _ "[0, 0, 0]"] conjI, simp_all)
  have d: "dirty_rep [\<lparr>mid = 1, mptr = 0\<rparr>, \<lparr>mid = 5, mptr = 77\<rparr>] [5 \<mapsto> 77]" "dirty_rep [\<lparr>mid = 0, mptr = 0\<rparr>] Map.empty"
    unfolding dirty_rep_def id2l_rep_def by (intro exI [of _ "[\<lparr>mid = 5, mptr = 77\<rparr>]"], simp) (intro exI [of _ "[]"], simp)
  have "chain_rep (mt_chain ?env) [({}, [5 \<mapsto> 77]), (?S, Map.empty)]" using s d by (simp add: chain_rep_def)
  from mdb_page_get_layers [OF this, of "small_handle\<lparr>mt_flags := 0\<rparr>"]
  show ?thesis by (simp add: Let_def small_env_def small_handle_def has_def)
qed

end
