(* ===== verification/Db_Pages.thy ===== *)
theory Db_Pages
  imports Db Lmdb_Session
begin

text \<open>
  The local store of \<^verbatim>\<open>db.c\<close> on the pages of its database: the interface of \<open>Db\<close> with its two ways of reading
  given by the cursor functions of \<open>Lmdb_Cursor\<close>. Fetching a file and listing all files then read exactly the
  entries of the tree. The environment is an argument, a snapshot with a handle for every database; so is
  the write, which goes through parts of LMDB that are not modelled.
\<close>

section \<open>The reads of the store\<close>

type_synonym snapshot = "string \<Rightarrow> (tree_env \<times> cursor) option"

text \<open>\<^verbatim>\<open>MDB_SET\<close> and then \<^verbatim>\<open>MDB_GET_CURRENT\<close>, as \<^verbatim>\<open>get_file\<close> calls them.\<close>

definition fetch_key :: "tree_env \<Rightarrow> cursor \<Rightarrow> bytes \<Rightarrow> (bytes + int) option" where
  "fetch_key env handle ky = do {
     c \<leftarrow> mdb_cursor_init env handle;
     (rc, c, _, _) \<leftarrow> mdb_cursor_get env c (Some ky) True SET;
     (if rc \<noteq> MDB_SUCCESS then Some (Inr rc)
      else do {
        (rc, c, _, d) \<leftarrow> mdb_cursor_get env c (Some ky) True GET_CURRENT;
        (if rc \<noteq> MDB_SUCCESS then Some (Inr rc) else map_option Inl d)
      })
   }"

text \<open>The loop of \<^verbatim>\<open>get_file_list\<close> over \<^verbatim>\<open>MDB_NEXT\<close>; it has no bound in the code.\<close>

partial_function (option) next_loop :: "tree_env \<Rightarrow> cursor \<Rightarrow> (bytes \<times> bytes) list option" where
  "next_loop env c = do {
     (rc, c, k, d) \<leftarrow> mdb_cursor_get env c None True NEXT;
     (if rc \<noteq> MDB_SUCCESS then Some []
      else do {
        k \<leftarrow> k;
        d \<leftarrow> d;
        es \<leftarrow> next_loop env c;
        Some ((k, d) # es)
      })
   }"

definition all_entries :: "tree_env \<Rightarrow> cursor \<Rightarrow> (bytes \<times> bytes) list option" where
  "all_entries env handle = do { c \<leftarrow> mdb_cursor_init env handle; next_loop env c }"

text \<open>The interface of \<open>Db\<close> on a snapshot, with the write \<open>put\<close> as an argument. A database that is not there
  is not opened.\<close>

definition page_lmdb :: "(snapshot \<Rightarrow> string \<Rightarrow> bytes \<Rightarrow> bytes \<Rightarrow> snapshot \<times> int) \<Rightarrow> snapshot lmdb" where
  "page_lmdb put = \<lparr>mdb_env_create = 0, mdb_env_set_mapsize = (\<lambda>_. 0), mdb_env_open = (\<lambda>_. 0),
     mdb_txn_begin = (\<lambda>_. 0), mdb_dbi_open = (\<lambda>e name create. if e name = None \<and> \<not> create then MDB_NOTFOUND else 0), mdb_cursor_open = (\<lambda>_ _. 0),
     mdb_put_commit = put,
     mdb_cursor_set = (\<lambda>e name k. case e name of None \<Rightarrow> Inr MDB_BAD_DBI | Some (env, h) \<Rightarrow> (case fetch_key env h k of None \<Rightarrow> Inr MDB_CORRUPTED | Some r \<Rightarrow> r)),
     mdb_entries = (\<lambda>e name. case e name of None \<Rightarrow> [] | Some (env, h) \<Rightarrow> (case all_entries env h of None \<Rightarrow> [] | Some es \<Rightarrow> es))\<rparr>"

section \<open>What they read\<close>

lemma fetch_key_content:
  assumes h: "handle_on env psz t h" and ky: "ky \<noteq> []" "length ky < 2 ^ 32"
  shows "fetch_key env h ky = Some (case map_of (content env (init_fields h) t) ky of None \<Rightarrow> Inr MDB_NOTFOUND | Some v \<Rightarrow> Inl v)"
proof -
  note f = handle_fresh [OF h]
  let ?c = "init_fields h" and ?es = "content env (init_fields h) t"
  have kt: "key_tree (\<lambda>k. k) (\<lambda>k. length k < 2 ^ 32) t" using h by (simp add: handle_on_def)
  have srt: "sorted_wrt (\<lambda>x y. fst x < fst y) ?es" using kt by (simp add: key_tree_def content_def sorted_wrt_map entry_def)
  have run: "cursor_run env ?c [(SET, Some ky), (GET_CURRENT, Some ky)] = Some rs"
    if "spec_run (\<lambda>k. k) ?es Fresh [(SET, Some ky), (GET_CURRENT, Some ky)] = Some rs" for rs
    by (rule memn.run_meets [OF kt, where s = Fresh and psz = psz, OF _ _ _ _ that]) (use f(2,3) ky in simp_all)
  have run1: "cursor_run env ?c [(SET, Some ky)] = Some rs" if "spec_run (\<lambda>k. k) ?es Fresh [(SET, Some ky)] = Some rs" for rs
    by (rule memn.run_meets [OF kt, where s = Fresh and psz = psz, OF _ _ _ _ that]) (use f(2,3) ky in simp_all)
  define q where "q = rank_pos fst ky ?es"
  show ?thesis
  proof (cases "\<exists>e\<in>set ?es. fst e = ky")
    case False
    then have m: "map_of ?es ky = None" by (auto simp: map_of_eq_None_iff)
    have "cursor_run env ?c [(SET, Some ky)] = Some [(MDB_NOTFOUND, None, None)]"
      using False ky(1) by (intro run1) (simp add: seek_def refuse_def)
    then obtain c' where "mdb_cursor_get env ?c (Some ky) True SET = Some (MDB_NOTFOUND, c', None, None)" by (auto simp: bind_eq_Some_conv)
    then show ?thesis using f(1) m by (simp add: fetch_key_def)
  next
    case True
    then obtain v where v: "(ky, v) \<in> set ?es" by force
    have q: "q < length ?es" "?es ! q = (ky, v)" using rank_pos_found [OF srt v] by (simp_all add: q_def)
    have "sorted_wrt (<) (map fst ?es)" using srt by (simp add: sorted_wrt_map)
    then have "distinct (map fst ?es)" by (simp add: strict_sorted_iff)
    then have m: "map_of ?es ky = Some v" using v by (simp add: map_of_is_SomeI)
    have "cursor_run env ?c [(SET, Some ky), (GET_CURRENT, Some ky)] = Some [(MDB_SUCCESS, None, Some v), (MDB_SUCCESS, Some ky, Some v)]"
      using True q ky(1) by (intro run) (auto simp: seek_def reply_at_def Let_def q_def)
    then obtain c1 c2 where "mdb_cursor_get env ?c (Some ky) True SET = Some (MDB_SUCCESS, c1, None, Some v)"
        "mdb_cursor_get env c1 (Some ky) True GET_CURRENT = Some (MDB_SUCCESS, c2, Some ky, Some v)" by (auto simp: bind_eq_Some_conv)
    then show ?thesis using f(1) m by (simp add: fetch_key_def)
  qed
qed

lemma next_loop_run:
  "cursor_run env c (replicate (length es + 1) (NEXT, None)) = Some (map (\<lambda>e. (MDB_SUCCESS, Some (fst e), Some (snd e))) es @ [(MDB_NOTFOUND, None, None)]) \<Longrightarrow>
    next_loop env c = Some es"
proof (induction es arbitrary: c)
  case Nil
  then show ?case by (subst next_loop.simps) (auto simp: bind_eq_Some_conv)
next
  case (Cons e es)
  then obtain c' where c': "mdb_cursor_get env c None True NEXT = Some (MDB_SUCCESS, c', Some (fst e), Some (snd e))"
      "cursor_run env c' (replicate (length es + 1) (NEXT, None)) = Some (map (\<lambda>e. (MDB_SUCCESS, Some (fst e), Some (snd e))) es @ [(MDB_NOTFOUND, None, None)])"
    by (auto simp: bind_eq_Some_conv)
  from Cons.IH [OF c'(2)] show ?case using c'(1) by (subst next_loop.simps) simp
qed

lemma next_loop_content:
  assumes h: "handle_on env psz t h"
  shows "all_entries env h = Some (content env (init_fields h) t)"
proof -
  note f = handle_fresh [OF h]
  have "cursor_run env (init_fields h) (replicate (length (content env (init_fields h) t) + 1) (NEXT, None)) =
      Some (map (\<lambda>e. (MDB_SUCCESS, Some (fst e), Some (snd e))) (content env (init_fields h) t) @ [(MDB_NOTFOUND, None, None)])"
    using scan_run [OF h] by simp
  from next_loop_run [OF this] show ?thesis by (simp add: all_entries_def f(1))
qed

text \<open>C21: the store reads its pages: fetching a file gives the record the tree has under the eight bytes of the
  identifier, or nothing, and the listing prints one line for each entry of the tree, in the order of the keys,
  and ends. A database that does not exist is neither fetched from nor listed.\<close>

theorem store_reads_pages:
  assumes n: "cstr (names db) dbname_off = Some name"
    and h: "\<And>env h. e name = Some (env, h) \<Longrightarrow> handle_on env psz t h"
  shows "case e name of
      None \<Rightarrow> get_file (page_lmdb put) e db k = Some None \<and> get_file_list (page_lmdb put) e db = Some []
    | Some (env, h) \<Rightarrow> get_file (page_lmdb put) e db k = Some (map_of (content env (init_fields h) t) (le_bytes 8 k)) \<and>
        get_file_list (page_lmdb put) e db = list_lines (content env (init_fields h) t)"
proof (cases "e name")
  case None
  then show ?thesis using n by (simp add: get_file_def get_file_list_def page_lmdb_def)
next
  case (Some eh)
  obtain env hd where eh: "eh = (env, hd)" by (cases eh)
  then have o: "handle_on env psz t hd" using h Some by simp
  have k: "le_bytes 8 k \<noteq> []" "length (le_bytes 8 k) < 2 ^ 32" using length_le_bytes [of 8 k] by (auto simp del: length_0_conv simp flip: length_greater_0_conv)
  show ?thesis using n Some eh fetch_key_content [OF o k] next_loop_content [OF o]
    by (auto simp: get_file_def get_file_list_def page_lmdb_def split: option.splits)
qed

text \<open>A database with one file, whose record is on overflow pages.\<close>

definition file_entry :: Lmdb_Page.node where
  "file_entry = \<lparr>nd_lo = 4368, nd_hi = 0, nd_flags = F_BIGDATA, nd_key = le_bytes 8 (7 :: u64), nd_data = [8, 0, 0, 0, 0, 0, 0, 0]\<rparr>"

definition file_leaf :: mdb_page where
  "file_leaf = \<lparr>mp_pgno = 9, mp_pad = 0, mp_flags = P_LEAF, mp_lower = 18, mp_upper = 24,
     mp_body = [24, 0] @ replicate 6 0 @ [16, 17, 0, 0, 1, 0, 8, 0] @ le_bytes 8 (7 :: u64) @ [8, 0, 0, 0, 0, 0, 0, 0]\<rparr>"

definition file_pages :: mdb_page where
  "file_pages = \<lparr>mp_pgno = 8, mp_pad = 0, mp_flags = P_OVERFLOW, mp_lower = 92, mp_upper = 0, mp_body = kxfile_bytes 0 sample_kxfile\<rparr>"

definition file_env :: tree_env where
  "file_env = small_env\<lparr>object_at := [384 \<mapsto> file_pages, 432 \<mapsto> file_leaf]\<rparr>"

definition file_tree :: btree where
  "file_tree = Leaf 432 file_leaf [file_entry]"

lemma file_leaf_rep: "page_rep 48 file_leaf [file_entry]" "IS_LEAF file_leaf" "\<not> IS_BRANCH file_leaf"
proof -
  show l: "IS_LEAF file_leaf" "\<not> IS_BRANCH file_leaf" by (simp_all add: IS_LEAF_def IS_BRANCH_def F_ISSET_def file_leaf_def)
  have sz: "node_size file_entry = 24" by (simp add: node_size_def file_entry_def EVEN_def)
  have enc: "node_enc file_entry = [16, 17, 0, 0, 1, 0, 8, 0] @ le_bytes 8 (7 :: u64) @ [8, 0, 0, 0, 0, 0, 0, 0]"
    by (simp add: node_enc_def file_entry_def le16_def drop_bit_eq_div)
  have "node_wf True file_entry" by (simp add: node_wf_def file_entry_def F_ISSET_def)
  then have "slots_rep 48 file_leaf [(24, file_entry)] (replicate 6 0) ([16, 17, 0, 0, 1, 0, 8, 0] @ le_bytes 8 (7 :: u64) @ [8, 0, 0, 0, 0, 0, 0, 0])"
    unfolding slots_rep_def using l sz enc
    by (simp add: slot_ok_def file_leaf_def IS_LEAF2_def F_ISSET_def le16_def drop_bit_eq_div)
  then show "page_rep 48 file_leaf [file_entry]" unfolding page_rep_def by force
qed

lemma file_entry_value: "node_value file_env True file_entry = Some (kxfile_bytes 0 sample_kxfile)"
proof -
  have "length (kxfile_bytes 0 sample_kxfile) = 4368" by (rule length_kxfile_bytes) (simp add: kxfile_ok_def)
  moreover have "fetch file_env True 8 = Some (384, file_pages)" by (simp add: fetch_def file_env_def small_env_def)
  ultimately show ?thesis by (simp add: node_value_def file_entry_def F_ISSET_def bytes_at_def file_pages_def)
qed

lemma file_handle_on: "handle_on file_env 48 file_tree small_handle"
proof -
  have im: "in_map (init_fields small_handle)" by (simp add: in_map_def init_fields_def small_handle_def has_def)
  have rd: "readable file_env True file_entry" using file_entry_value by (simp add: readable_def file_entry_def F_ISSET_def)
  have "fetch file_env True 9 = Some (432, file_leaf)" by (simp add: fetch_def file_env_def small_env_def)
  then have "tree_ok file_env True 48 0 9 file_tree" unfolding file_tree_def using file_leaf_rep rd by simp
  moreover have "\<not> has (mt_flags small_handle) MDB_TXN_BLOCKED" "\<not> has (md_flags (mc_db small_handle)) MDB_DUPSORT" by (simp_all add: small_handle_def has_def)
  ultimately have "tree_cursor file_env 48 file_tree (init_fields small_handle)"
    using im by (auto simp: tree_cursor_def init_fields_def small_handle_def intro!: exI [of _ "0 :: nat"])
  moreover have "key_tree (\<lambda>k. k) (\<lambda>k. length k < 2 ^ 32) file_tree" by (simp add: key_tree_def file_tree_def file_entry_def)
  ultimately show ?thesis by (simp add: handle_on_def small_handle_def)
qed

theorem store_reads_pages_witness:
  "let e = [''bob'' \<mapsto> (file_env, small_handle)]; mdb = page_lmdb (\<lambda>e _ _ _. (e, - 30778))
   in get_file mdb e sample_db 7 = Some (Some (kxfile_bytes 0 sample_kxfile)) \<and> get_file mdb e sample_db 9 = Some None \<and>
     get_file_list mdb e sample_db = list_lines [(le_bytes 8 (7 :: u64), kxfile_bytes 0 sample_kxfile)]"
proof -
  let ?e = "[''bob'' \<mapsto> (file_env, small_handle)]"
  have n: "cstr (names sample_db) dbname_off = Some ''bob''"
    using cstr_append [of "''bob''" "[]"] by (simp add: is_cstring_def NUL_def)
  have h: "?e ''bob'' = Some (env, h) \<Longrightarrow> handle_on env 48 file_tree h" for env h using file_handle_on by simp
  have im: "in_map (init_fields small_handle)" by (simp add: in_map_def init_fields_def small_handle_def has_def)
  have c: "content file_env (init_fields small_handle) file_tree = [(le_bytes 8 (7 :: u64), kxfile_bytes 0 sample_kxfile)]"
    using im file_entry_value by (simp add: content_def file_tree_def entry_def) (simp add: file_entry_def)
  have d: "le_bytes 8 (9 :: u64) \<noteq> le_bytes 8 (7 :: u64)" by (simp add: le_bytes_def upt_conv_Cons)
  show ?thesis
    using store_reads_pages [where e = ?e and k = 7, OF n h] store_reads_pages [where e = ?e and k = 9, OF n h] c d by (simp add: Let_def)
qed

end
