(* ===== verification/Lmdb_Meta.thy ===== *)
theory Lmdb_Meta
  imports Lmdb_Cursor
begin

text \<open>
  The commit point of the embedded database, in \<^verbatim>\<open>src/liblmdb/mdb.c\<close>: two meta pages that are written in turn, each
  with the roots of a snapshot and the number of the transaction that committed it, and the functions that
  write, read and choose them. A meta page is a record; writing one is the list of the stores into its
  fields in the order of \<^verbatim>\<open>MDB_meta\<close>, which is the order of the addresses in the file and of the assignments in the
  code, so that a write that stops on the way is a prefix of that list. The map and the file show the same
  contents, as the code relies on.
\<close>

section \<open>Meta pages\<close>

abbreviation (input) EIO :: int where "EIO \<equiv> 5"
abbreviation (input) EINTR :: int where "EINTR \<equiv> 4"
abbreviation (input) ENOENT :: int where "ENOENT \<equiv> 2"
abbreviation (input) MDB_INVALID :: int where "MDB_INVALID \<equiv> - 30793"
abbreviation (input) MDB_VERSION_MISMATCH :: int where "MDB_VERSION_MISMATCH \<equiv> - 30794"
abbreviation (input) MDB_WRITEMAP :: u32 where "MDB_WRITEMAP \<equiv> 0x80000"
abbreviation (input) MDB_NOSYNC :: u32 where "MDB_NOSYNC \<equiv> 0x10000"
abbreviation (input) MDB_NOMETASYNC :: u32 where "MDB_NOMETASYNC \<equiv> 0x40000"
abbreviation (input) MDB_PREVSNAPSHOT :: u32 where "MDB_PREVSNAPSHOT \<equiv> 0x2000000"
abbreviation (input) MDB_FATAL_ERROR :: u32 where "MDB_FATAL_ERROR \<equiv> 0x80000000"
abbreviation (input) MDB_MAGIC :: u32 where "MDB_MAGIC \<equiv> 0xBEEFC0DE"
abbreviation (input) MDB_DATA_VERSION :: u32 where "MDB_DATA_VERSION \<equiv> 1"
abbreviation (input) P_META :: u16 where "P_META \<equiv> 0x08"
abbreviation (input) MDB_INTEGERKEY :: u16 where "MDB_INTEGERKEY \<equiv> 0x08"

record meta =
  mm_magic :: u32
  mm_version :: u32
  mm_address :: nat
  mm_mapsize :: u64
  mm_free :: tree_db
  mm_main :: tree_db
  mm_last_pg :: u64
  mm_txnid :: u64

text \<open>The parts of the environment and of a write transaction these functions use; \<open>mti_last\<close> is \<^verbatim>\<open>mti_txnid\<close> of the
  lock file, where there is one.\<close>

record meta_env =
  me_metas :: "meta list"
  me_mapsize :: u64
  me_psize32 :: u32
  me_flags :: u32
  mti_last :: "u64 option"

record commit_txn =
  wt_flags :: u32
  wt_txnid :: u64
  wt_free :: tree_db
  wt_main :: tree_db
  wt_next_pgno :: u64

definition mdb_env_pick_meta :: "meta_env \<Rightarrow> meta option" where
  "mdb_env_pick_meta env = do {
     m0 \<leftarrow> peek (me_metas env) 0;
     m1 \<leftarrow> peek (me_metas env) 1;
     peek (me_metas env) (if (mm_txnid m0 < mm_txnid m1) \<noteq> has (me_flags env) MDB_PREVSNAPSHOT then 1 else 0)
   }"

text \<open>A new environment has the same meta page twice, with no snapshot yet.\<close>

definition mdb_env_init_meta0 :: "meta_env \<Rightarrow> meta \<Rightarrow> meta" where
  "mdb_env_init_meta0 env m = m\<lparr>mm_magic := MDB_MAGIC, mm_version := MDB_DATA_VERSION, mm_mapsize := me_mapsize env, mm_last_pg := 1,
     mm_free := (mm_free m)\<lparr>md_pad := me_psize32 env, md_flags := ucast (me_flags env AND 0xFFFF) OR MDB_INTEGERKEY, md_root := P_INVALID\<rparr>,
     mm_main := (mm_main m)\<lparr>md_root := P_INVALID\<rparr>\<rparr>"

text \<open>Reading the header of a file that may not be open yet. A read gives an error, nothing at the end of the file,
  or a page, with its flags, that is a meta page or not.\<close>

datatype read_result = Read_Error int | Read_Bytes nat | Read_Page u16 meta

definition header_ok :: "read_result \<Rightarrow> int" where
  "header_ok r = (case r of
     Read_Error e \<Rightarrow> e
   | Read_Bytes n \<Rightarrow> MDB_INVALID
   | Read_Page fl m \<Rightarrow>
       if \<not> F_ISSET fl P_META then MDB_INVALID
       else if mm_magic m \<noteq> MDB_MAGIC then MDB_INVALID
       else if mm_version m \<noteq> MDB_DATA_VERSION then MDB_VERSION_MISMATCH
       else MDB_SUCCESS)"

definition mdb_env_read_header :: "(u32 \<Rightarrow> read_result) \<Rightarrow> bool \<Rightarrow> int \<times> meta option" where
  "mdb_env_read_header pread prev =
     (case pread 0 of
        Read_Bytes n \<Rightarrow> if n = 0 then (ENOENT, None) else (MDB_INVALID, None)
      | Read_Error e \<Rightarrow> (e, None)
      | Read_Page fl0 m0 \<Rightarrow>
          if header_ok (Read_Page fl0 m0) \<noteq> 0 then (header_ok (Read_Page fl0 m0), None)
          else (case pread (md_pad (mm_free m0)) of
             Read_Page fl1 m1 \<Rightarrow>
               if header_ok (Read_Page fl1 m1) \<noteq> 0 then (header_ok (Read_Page fl1 m1), Some m0)
               else (0, Some (if md_pad (mm_free m0) = 0 \<or> (if prev then mm_txnid m1 < mm_txnid m0 else mm_txnid m1 > mm_txnid m0) then m1 else m0))
           | r \<Rightarrow> (header_ok r, Some m0)))"

section \<open>Writing a meta page\<close>

definition meta_stores :: "u64 \<Rightarrow> commit_txn \<Rightarrow> u64 \<Rightarrow> u64 \<Rightarrow> (meta \<Rightarrow> meta) list" where
  "meta_stores mapsize txn last_pg txnid =
     [\<lambda>m. m\<lparr>mm_mapsize := mapsize\<rparr>, \<lambda>m. m\<lparr>mm_free := wt_free txn\<rparr>, \<lambda>m. m\<lparr>mm_main := wt_main txn\<rparr>,
      \<lambda>m. m\<lparr>mm_last_pg := last_pg\<rparr>, \<lambda>m. m\<lparr>mm_txnid := txnid\<rparr>]"

definition arrive :: "nat \<Rightarrow> (meta \<Rightarrow> meta) list \<Rightarrow> meta \<Rightarrow> meta" where
  "arrive k fs m = fold (\<lambda>f. f) (take k fs) m"

text \<open>What becomes of a \<^verbatim>\<open>pwrite\<close>: everything is written, or only the first stores arrive and the call fails with an
  error number, or with 0 for a short count. The code tries again after \<^verbatim>\<open>EINTR\<close>.\<close>

datatype outcome = Written | Torn nat int

fun meta_write :: "(meta \<Rightarrow> meta) list \<Rightarrow> meta \<Rightarrow> outcome list \<Rightarrow> (int \<times> meta \<times> outcome list) option" where
  "meta_write fs m [] = None"
| "meta_write fs m (Written # os) = Some (MDB_SUCCESS, arrive (length fs) fs m, os)"
| "meta_write fs m (Torn k e # os) =
     (let m = arrive k fs m;
          rc = (if e = 0 then EIO else e)
      in if rc = EINTR then meta_write fs m os else Some (rc, m, os))"

fun write_back :: "(meta \<Rightarrow> meta) list \<Rightarrow> meta \<Rightarrow> outcome list \<Rightarrow> meta option" where
  "write_back fs m [] = None"
| "write_back fs m (Written # os) = Some (arrive (length fs) fs m)"
| "write_back fs m (Torn k e # os) = Some (arrive k fs m)"

definition meta_fail :: "int \<Rightarrow> meta_env \<Rightarrow> (int \<times> meta_env) option" where
  "meta_fail rc env = Some (rc, env\<lparr>me_flags := me_flags env OR MDB_FATAL_ERROR\<rparr>)"

definition publish :: "u64 \<Rightarrow> meta_env \<Rightarrow> (int \<times> meta_env) option" where
  "publish txnid env = Some (MDB_SUCCESS, env\<lparr>mti_last := map_option (\<lambda>_. txnid) (mti_last env)\<rparr>)"

text \<open>\<open>msync\<close> is the result of \<^verbatim>\<open>MDB_MSYNC\<close>, 0 or an error number, and \<open>os\<close> are the outcomes of the writes.\<close>

definition mdb_env_write_meta :: "int \<Rightarrow> outcome list \<Rightarrow> meta_env \<Rightarrow> commit_txn \<Rightarrow> (int \<times> meta_env) option" where
  "mdb_env_write_meta msync os env txn = do {
     let toggle = unat (wt_txnid txn AND 1);
     let flags = wt_flags txn OR me_flags env;
     mp \<leftarrow> peek (me_metas env) toggle;
     other \<leftarrow> peek (me_metas env) (1 - toggle);
     let mapsize = (if mm_mapsize other < me_mapsize env then me_mapsize env else mm_mapsize other);
     let fs = meta_stores mapsize txn (wt_next_pgno txn - 1) (wt_txnid txn);
     (if has flags MDB_WRITEMAP then do {
        let env = env\<lparr>me_metas := (me_metas env)[toggle := arrive (length fs) fs mp]\<rparr>;
        (if \<not> has flags (MDB_NOMETASYNC OR MDB_NOSYNC) \<and> msync \<noteq> 0 then meta_fail msync env
         else publish (wt_txnid txn) env)
      }
      else do {
        (rc, m, os) \<leftarrow> meta_write fs mp os;
        (if rc \<noteq> MDB_SUCCESS then do {
           m \<leftarrow> write_back (meta_stores mapsize txn (mm_last_pg mp) (mm_txnid mp)) m os;
           meta_fail rc (env\<lparr>me_metas := (me_metas env)[toggle := m]\<rparr>)
         }
         else publish (wt_txnid txn) (env\<lparr>me_metas := (me_metas env)[toggle := m]\<rparr>))
      })
   }"

section \<open>Commits are atomic\<close>

text \<open>The meta page of the last committed transaction, and the other one with an older snapshot.\<close>

definition committed :: "meta_env \<Rightarrow> u64 \<Rightarrow> bool" where
  "committed env t \<longleftrightarrow> length (me_metas env) = 2 \<and> mm_txnid (me_metas env ! unat (t AND 1)) = t \<and>
     (mm_txnid (me_metas env ! (1 - unat (t AND 1))) < t \<or> t = 0 \<and> mm_txnid (me_metas env ! 1) = 0)"

lemma toggle_parity: "unat (t AND 1) = (if odd t then 1 else 0)" for t :: u64
  by (simp add: and_one_eq odd_iff_mod_2_eq_one)

lemma toggle_next: "unat ((t + 1) AND 1) = 1 - unat (t AND 1)" "unat (t AND 1) < 2" for t :: u64
  by (simp_all add: toggle_parity)

lemma pick_committed:
  assumes "committed env t" "\<not> has (me_flags env) MDB_PREVSNAPSHOT"
  shows "mdb_env_pick_meta env = Some (me_metas env ! unat (t AND 1))"
proof -
  obtain a b where m: "me_metas env = [a, b]" using assms(1) by (auto simp: committed_def length_Suc_conv numeral_2_eq_2)
  show ?thesis using assms unfolding committed_def toggle_parity m mdb_env_pick_meta_def by (cases "odd t") (auto simp: peek_def not_less)
qed

text \<open>A meta page whose last store has not arrived keeps its number.\<close>

lemma arrive_txnid: "k < 5 \<Longrightarrow> mm_txnid (arrive k (meta_stores ms txn lp tid) m) = mm_txnid m"
  by (auto simp: arrive_def meta_stores_def numeral_eq_Suc less_Suc_eq)

lemma arrive_all: "5 \<le> k \<Longrightarrow> arrive k (meta_stores ms txn lp tid) m =
    m\<lparr>mm_mapsize := ms, mm_free := wt_free txn, mm_main := wt_main txn, mm_last_pg := lp, mm_txnid := tid\<rparr>"
  by (simp add: arrive_def meta_stores_def)


definition new_meta :: "meta_env \<Rightarrow> commit_txn \<Rightarrow> meta" where
  "new_meta env txn =
     (let toggle = unat (wt_txnid txn AND 1); old = me_metas env ! toggle; other = me_metas env ! (1 - toggle)
      in old\<lparr>mm_mapsize := (if mm_mapsize other < me_mapsize env then me_mapsize env else mm_mapsize other),
           mm_free := wt_free txn, mm_main := wt_main txn, mm_last_pg := wt_next_pgno txn - 1, mm_txnid := wt_txnid txn\<rparr>)"

text \<open>The environment with the first stores of a commit done.\<close>

definition partial_commit :: "nat \<Rightarrow> meta_env \<Rightarrow> commit_txn \<Rightarrow> meta_env" where
  "partial_commit k env txn =
     (let toggle = unat (wt_txnid txn AND 1); other = me_metas env ! (1 - toggle);
          mapsize = (if mm_mapsize other < me_mapsize env then me_mapsize env else mm_mapsize other)
      in env\<lparr>me_metas := (me_metas env)[toggle := arrive k (meta_stores mapsize txn (wt_next_pgno txn - 1) (wt_txnid txn)) (me_metas env ! toggle)]\<rparr>)"

lemma pick_partial:
  assumes c: "committed env t" and n: "wt_txnid txn = t + 1" "t + 1 \<noteq> 0" and pv: "\<not> has (me_flags env) MDB_PREVSNAPSHOT"
  shows "k < 5 \<Longrightarrow> committed (partial_commit k env txn) t \<and> mdb_env_pick_meta (partial_commit k env txn) = mdb_env_pick_meta env"
    "5 \<le> k \<Longrightarrow> committed (partial_commit k env txn) (t + 1) \<and> mdb_env_pick_meta (partial_commit k env txn) = Some (new_meta env txn)"
proof -
  let ?i = "unat (t AND 1)" and ?j = "1 - unat (t AND 1)"
  have j: "unat (wt_txnid txn AND 1) = ?j" "1 - ?j = ?i" "?i \<noteq> ?j" "?i < 2" "?j < 2"
    using toggle_next(1) [of t] by (simp_all add: n(1) toggle_parity)
  have len: "length (me_metas env) = 2" using c by (simp add: committed_def)
  have lt: "t < t + 1" using n(2) unatSuc [of t] by (simp add: word_less_nat_alt add.commute)
  define ms where "ms = (if mm_mapsize (me_metas env ! ?i) < me_mapsize env then me_mapsize env else mm_mapsize (me_metas env ! ?i))"
  have pc: "partial_commit k env txn = env\<lparr>me_metas := (me_metas env)[?j := arrive k (meta_stores ms txn (wt_next_pgno txn - 1) (wt_txnid txn)) (me_metas env ! ?j)]\<rparr>" for k
    unfolding partial_commit_def Let_def j(1,2) ms_def ..
  show "committed (partial_commit k env txn) t \<and> mdb_env_pick_meta (partial_commit k env txn) = mdb_env_pick_meta env" if k: "k < 5"
  proof -
    have cm: "committed (partial_commit k env txn) t"
      using c j(3-5) len unfolding committed_def pc by (auto simp: nth_list_update arrive_txnid [OF k])
    moreover have "mdb_env_pick_meta (partial_commit k env txn) = mdb_env_pick_meta env"
      using pick_committed [OF cm] pick_committed [OF c pv] pv j(3) by (simp add: pc)
    ultimately show ?thesis by blast
  qed
  show "committed (partial_commit k env txn) (t + 1) \<and> mdb_env_pick_meta (partial_commit k env txn) = Some (new_meta env txn)" if k: "5 \<le> k"
  proof -
    have ti: "mm_txnid (me_metas env ! ?i) = t" using c by (simp add: committed_def)
    have nm: "(me_metas (partial_commit k env txn)) ! ?j = new_meta env txn"
      unfolding pc new_meta_def Let_def j(1,2) arrive_all [OF k] ms_def using j(5) len by simp
    have oi: "(me_metas (partial_commit k env txn)) ! ?i = me_metas env ! ?i" unfolding pc using j(3) by simp
    have id: "mm_txnid (new_meta env txn) = t + 1" by (simp add: new_meta_def Let_def n(1))
    have "unat ((t + 1) AND 1) = ?j" "1 - ?j = ?i" using toggle_next j(2) by auto
    then have cm: "committed (partial_commit k env txn) (t + 1)"
      unfolding committed_def using nm oi id ti lt len by (simp add: pc)
    have "\<not> has (me_flags (partial_commit k env txn)) MDB_PREVSNAPSHOT" using pv by (simp add: pc)
    from pick_committed [OF cm this] cm show ?thesis using nm toggle_next(1) [of t] by simp
  qed
qed

lemma arrive_twice: "5 \<le> k \<Longrightarrow> arrive k (meta_stores ms txn lp tid) (arrive j (meta_stores ms txn lp tid) m) = arrive k (meta_stores ms txn lp tid) m"
  by (cases "j < 5") (auto simp: arrive_def meta_stores_def numeral_eq_Suc less_Suc_eq not_less)

lemma meta_write_ok:
  "meta_write (meta_stores ms txn lp tid) m os = Some (MDB_SUCCESS, m', os') \<Longrightarrow> m' = arrive 5 (meta_stores ms txn lp tid) m"
proof (induction os arbitrary: m)
  case (Cons x os)
  have len: "length (meta_stores ms txn lp tid) = 5" by (simp add: meta_stores_def)
  show ?case
  proof (cases x)
    case Written
    then show ?thesis using Cons.prems len by simp
  next
    case (Torn k e)
    have "(if e = 0 then EIO else e) = EINTR" using Cons.prems Torn by (auto simp: Let_def split: if_splits)
    then have "meta_write (meta_stores ms txn lp tid) (arrive k (meta_stores ms txn lp tid) m) os = Some (MDB_SUCCESS, m', os')"
      using Cons.prems Torn by (simp add: Let_def)
    from Cons.IH [OF this] show ?thesis using arrive_twice [of 5] by simp
  qed
qed simp

lemma meta_write_torn:
  "meta_write (meta_stores ms txn lp tid) m os = Some (rc, m', os') \<Longrightarrow> rc \<noteq> MDB_SUCCESS \<Longrightarrow> (\<forall>k e. Torn k e \<in> set os \<longrightarrow> k < 5) \<Longrightarrow>
    mm_txnid m' = mm_txnid m"
proof (induction os arbitrary: m)
  case (Cons x os)
  show ?case
  proof (cases x)
    case Written
    then show ?thesis using Cons.prems by simp
  next
    case (Torn k e)
    then have k: "mm_txnid (arrive k (meta_stores ms txn lp tid) m) = mm_txnid m" using Cons.prems(3) arrive_txnid [of k] by simp
    have os: "\<forall>k e. Torn k e \<in> set os \<longrightarrow> k < 5" using Cons.prems(3) by auto
    show ?thesis
    proof (cases "(if e = 0 then EIO else e) = EINTR")
      case True
      then have "meta_write (meta_stores ms txn lp tid) (arrive k (meta_stores ms txn lp tid) m) os = Some (rc, m', os')"
        using Cons.prems(1) Torn by (simp add: Let_def)
      from Cons.IH [OF this Cons.prems(2) os] show ?thesis using k by simp
    next
      case False
      then show ?thesis using Cons.prems(1) Torn k by (auto simp: Let_def)
    qed
  qed
qed simp

text \<open>Whether the old number was written back in full after the failure.\<close>

fun restored :: "outcome list \<Rightarrow> bool" where
  "restored (Torn k e # os) = (if (if e = 0 then EIO else e) = EINTR then restored os else (case os of Written # _ \<Rightarrow> True | _ \<Rightarrow> False))"
| "restored _ = False"

lemma write_back_restored:
  "meta_write fs m os = Some (rc, m', os') \<Longrightarrow> rc \<noteq> MDB_SUCCESS \<Longrightarrow> restored os \<Longrightarrow> \<exists>os2. os' = Written # os2"
proof (induction fs m os rule: meta_write.induct)
  case (3 fs m k e os)
  then show ?case by (cases "(if e = 0 then EIO else e) = EINTR") (auto simp: Let_def split: list.splits outcome.splits)
qed auto

lemma write_back_txnid:
  assumes "write_back (meta_stores ms txn lp tid) m' os' = Some m2" "mm_txnid m' = tid \<or> (\<exists>os2. os' = Written # os2)"
  shows "mm_txnid m2 = tid"
proof (cases "(meta_stores ms txn lp tid, m', os')" rule: write_back.cases)
  case (2 fs m os)
  then show ?thesis using assms(1) by (auto simp: arrive_all meta_stores_def [THEN arg_cong [of _ _ length], simplified])
next
  case (3 fs m k e os)
  then show ?thesis using assms arrive_txnid [of k ms txn lp tid m'] arrive_all [of k ms txn lp tid m'] by (cases "k < 5") auto
qed (use assms in auto)

text \<open>C29: the commit is atomic. Wherever the stores of a commit stop, the meta page that is chosen is that of the
  snapshot before, until the last store has arrived, and from then on the new one; a commit that succeeds
  leaves the new snapshot chosen, with its number published to the readers; after one that fails the
  environment refuses further transactions, nothing is published, and the old snapshot is still the one
  chosen unless the new number arrived and could not be taken back.\<close>

theorem mdb_env_write_meta_atomic:
  assumes c: "committed env t" and n: "wt_txnid txn = t + 1" "t + 1 \<noteq> 0" and pv: "\<not> has (me_flags env) MDB_PREVSNAPSHOT"
    and wr: "mdb_env_write_meta msync os env txn = Some (rc, env')"
  shows "(\<forall>k. mdb_env_pick_meta (partial_commit k env txn) = (if k < 5 then mdb_env_pick_meta env else Some (new_meta env txn))) \<and>
    (rc = 0 \<longrightarrow> committed env' (t + 1) \<and> mdb_env_pick_meta env' = Some (new_meta env txn) \<and> mti_last env' = map_option (\<lambda>_. t + 1) (mti_last env)) \<and>
    (rc \<noteq> 0 \<longrightarrow> has (me_flags env') MDB_FATAL_ERROR \<and> mti_last env' = mti_last env \<and>
      (\<not> has (wt_flags txn OR me_flags env) MDB_WRITEMAP \<and> ((\<forall>k e. Torn k e \<in> set os \<longrightarrow> k < 5) \<or> restored os) \<longrightarrow>
        committed env' t \<and> mdb_env_pick_meta env' = mdb_env_pick_meta env))"
proof (intro conjI allI impI)
  note pp = pick_partial [OF c n pv]
  show "mdb_env_pick_meta (partial_commit k env txn) = (if k < 5 then mdb_env_pick_meta env else Some (new_meta env txn))" for k
    using pp(1,2) [of k] by (cases "k < 5") simp_all
  let ?i = "unat (t AND 1)" and ?j = "1 - unat (t AND 1)"
  have j: "unat (wt_txnid txn AND 1) = ?j" "1 - ?j = ?i" "?i \<noteq> ?j" "?i < 2" "?j < 2"
    using toggle_next(1) [of t] by (simp_all add: n(1) toggle_parity)
  have len: "length (me_metas env) = 2" using c by (simp add: committed_def)
  have pk: "peek (me_metas env) ?j = Some (me_metas env ! ?j)" "peek (me_metas env) ?i = Some (me_metas env ! ?i)" using len j(4,5) by (simp_all add: peek_def)
  define ms where "ms = (if mm_mapsize (me_metas env ! ?i) < me_mapsize env then me_mapsize env else mm_mapsize (me_metas env ! ?i))"
  let ?fs = "meta_stores ms txn (wt_next_pgno txn - 1) (wt_txnid txn)" and ?mp = "me_metas env ! ?j"
  have lfs: "length ?fs = 5" by (simp add: meta_stores_def)
  have pc: "partial_commit 5 env txn = env\<lparr>me_metas := (me_metas env)[?j := arrive 5 ?fs ?mp]\<rparr>"
    unfolding partial_commit_def Let_def j(1,2) ms_def ..
  have flags: "has (w OR MDB_FATAL_ERROR) MDB_FATAL_ERROR" "has (w OR MDB_FATAL_ERROR) MDB_PREVSNAPSHOT = has w MDB_PREVSNAPSHOT" for w :: u32
    by (simp_all add: has_def bit.conj_disj_distrib2)
  have un: "mdb_env_write_meta msync os env txn =
     (if has (wt_flags txn OR me_flags env) MDB_WRITEMAP then
        (if \<not> has (wt_flags txn OR me_flags env) (MDB_NOMETASYNC OR MDB_NOSYNC) \<and> msync \<noteq> 0 then meta_fail msync (partial_commit 5 env txn)
         else publish (wt_txnid txn) (partial_commit 5 env txn))
      else do {
        (rc, m, os) \<leftarrow> meta_write ?fs ?mp os;
        (if rc \<noteq> MDB_SUCCESS then do {
           m \<leftarrow> write_back (meta_stores ms txn (mm_last_pg ?mp) (mm_txnid ?mp)) m os;
           meta_fail rc (env\<lparr>me_metas := (me_metas env)[?j := m]\<rparr>)
         }
         else publish (wt_txnid txn) (env\<lparr>me_metas := (me_metas env)[?j := m]\<rparr>))
      })"
    unfolding mdb_env_write_meta_def Let_def j(1,2) pk Option.bind.simps ms_def [symmetric] pc lfs ..
  have good: "committed (partial_commit 5 env txn) (t + 1)" "mdb_env_pick_meta (partial_commit 5 env txn) = Some (new_meta env txn)" using pp(2) [of 5] by auto
  have pub: "committed env' (t + 1) \<and> mdb_env_pick_meta env' = Some (new_meta env txn) \<and> mti_last env' = map_option (\<lambda>_. t + 1) (mti_last env)"
    if "publish (wt_txnid txn) (partial_commit 5 env txn) = Some (rc, env')"
  proof -
    have "env' = (partial_commit 5 env txn)\<lparr>mti_last := map_option (\<lambda>_. t + 1) (mti_last env)\<rparr>" using that n(1) by (simp add: publish_def pc)
    then show ?thesis using good by (simp add: committed_def mdb_env_pick_meta_def)
  qed
  have cases: "(rc = 0 \<and> publish (wt_txnid txn) (partial_commit 5 env txn) = Some (rc, env')) \<or>
      (rc \<noteq> 0 \<and> has (wt_flags txn OR me_flags env) MDB_WRITEMAP \<and> meta_fail rc (partial_commit 5 env txn) = Some (rc, env')) \<or>
      (rc \<noteq> 0 \<and> (\<exists>m os' m2. meta_write ?fs ?mp os = Some (rc, m, os') \<and> write_back (meta_stores ms txn (mm_last_pg ?mp) (mm_txnid ?mp)) m os' = Some m2 \<and>
        meta_fail rc (env\<lparr>me_metas := (me_metas env)[?j := m2]\<rparr>) = Some (rc, env')))"
  proof (cases "has (wt_flags txn OR me_flags env) MDB_WRITEMAP")
    case True
    then show ?thesis using wr unfolding un by (auto simp: publish_def meta_fail_def split: if_splits)
  next
    case False
    then obtain rc' m os' where w: "meta_write ?fs ?mp os = Some (rc', m, os')" using wr unfolding un by (auto simp: bind_eq_Some_conv)
    show ?thesis
    proof (cases "rc' = 0")
      case True
      then have "m = arrive 5 ?fs ?mp" using meta_write_ok w by blast
      then show ?thesis using wr False w True unfolding un pc by (simp add: publish_def)
    next
      case rc': False
      then obtain m2 where "write_back (meta_stores ms txn (mm_last_pg ?mp) (mm_txnid ?mp)) m os' = Some m2"
          "meta_fail rc' (env\<lparr>me_metas := (me_metas env)[?j := m2]\<rparr>) = Some (rc, env')"
        using wr False w unfolding un by (auto simp: bind_eq_Some_conv)
      then show ?thesis using w rc' by (auto simp: meta_fail_def)
    qed
  qed
  have pub0: "publish (wt_txnid txn) (partial_commit 5 env txn) = Some (rc, env')" if "rc = 0" using cases that by blast
  show "committed env' (t + 1)" "mdb_env_pick_meta env' = Some (new_meta env txn)" "mti_last env' = map_option (\<lambda>_. t + 1) (mti_last env)" if "rc = 0"
    using pub [OF pub0 [OF that]] by blast+
  have failed: "has (me_flags env') MDB_FATAL_ERROR \<and> mti_last env' = mti_last env" if nz: "rc \<noteq> 0"
  proof -
    obtain e2 where "meta_fail rc e2 = Some (rc, env')" "mti_last e2 = mti_last env" using cases nz pc by auto
    then show ?thesis by (auto simp: meta_fail_def flags(1))
  qed
  show "has (me_flags env') MDB_FATAL_ERROR" "mti_last env' = mti_last env" if "rc \<noteq> 0" using failed [OF that] by blast+
  assume "rc \<noteq> 0" and r: "\<not> has (wt_flags txn OR me_flags env) MDB_WRITEMAP \<and> ((\<forall>k e. Torn k e \<in> set os \<longrightarrow> k < 5) \<or> restored os)"
  then obtain m os' m2 where w: "meta_write ?fs ?mp os = Some (rc, m, os')" "write_back (meta_stores ms txn (mm_last_pg ?mp) (mm_txnid ?mp)) m os' = Some m2"
    "env' = env\<lparr>me_metas := (me_metas env)[?j := m2], me_flags := me_flags env OR MDB_FATAL_ERROR\<rparr>"
    using cases unfolding meta_fail_def by auto
  have "mm_txnid m = mm_txnid ?mp \<or> (\<exists>os2. os' = Written # os2)"
    using r meta_write_torn [OF w(1) \<open>rc \<noteq> 0\<close>] write_back_restored [OF w(1) \<open>rc \<noteq> 0\<close>] by blast
  from write_back_txnid [OF w(2) this] have id: "mm_txnid m2 = mm_txnid ?mp" .
  show cm: "committed env' t" using c j(3-5) len id unfolding committed_def w(3) by (auto simp: nth_list_update)
  show "mdb_env_pick_meta env' = mdb_env_pick_meta env"
    using pick_committed [OF cm] pick_committed [OF c pv] pv j(3) by (simp add: w(3) flags(2))
qed


definition example_db :: "u64 \<Rightarrow> tree_db" where
  "example_db r = \<lparr>md_branch_pages = 0, md_leaf_pages = 1, md_overflow_pages = 0, md_pad = 4096, md_flags = 0, md_depth = 1, md_entries = 1, md_root = r\<rparr>"

definition example_meta :: "u64 \<Rightarrow> u64 \<Rightarrow> meta" where
  "example_meta r t = \<lparr>mm_magic = MDB_MAGIC, mm_version = MDB_DATA_VERSION, mm_address = 0, mm_mapsize = 1048576,
     mm_free = example_db P_INVALID, mm_main = example_db r, mm_last_pg = 10, mm_txnid = t\<rparr>"

definition example_meta_env :: meta_env where
  "example_meta_env = \<lparr>me_metas = [example_meta 2 0, example_meta 3 1], me_mapsize = 1048576, me_psize32 = 4096, me_flags = 0, mti_last = Some 1\<rparr>"

definition example_commit :: commit_txn where
  "example_commit = \<lparr>wt_flags = 0, wt_txnid = 2, wt_free = example_db P_INVALID, wt_main = example_db 4, wt_next_pgno = 12\<rparr>"

text \<open>Three stores arrive, the write fails with \<^verbatim>\<open>EIO\<close> and the old number is written back.\<close>

definition example_failed :: meta_env where
  "example_failed = example_meta_env\<lparr>me_metas := [(example_meta 4 0)\<lparr>mm_last_pg := 10\<rparr>, example_meta 3 1], me_flags := MDB_FATAL_ERROR\<rparr>"

theorem mdb_env_write_meta_atomic_witness:
  "committed example_meta_env 1 \<and> mdb_env_write_meta 0 [Torn 3 5, Written] example_meta_env example_commit = Some (5, example_failed) \<and>
   mdb_env_pick_meta example_failed = Some (example_meta 3 1)"
proof -
  have c: "committed example_meta_env 1" by (simp add: committed_def example_meta_env_def example_meta_def)
  have w: "mdb_env_write_meta 0 [Torn 3 5, Written] example_meta_env example_commit = Some (5, example_failed)"
    by (simp add: mdb_env_write_meta_def example_meta_env_def example_commit_def example_failed_def example_meta_def example_db_def
      peek_def has_def meta_stores_def arrive_def meta_fail_def Let_def numeral_eq_Suc)
  have r: "restored [Torn 3 5, Written]" by simp
  have "mdb_env_pick_meta example_failed = mdb_env_pick_meta example_meta_env"
    using mdb_env_write_meta_atomic [OF c _ _ _ w] r by (simp add: example_meta_env_def example_commit_def has_def)
  also have "\<dots> = Some (example_meta 3 1)"
    by (simp add: mdb_env_pick_meta_def example_meta_env_def example_meta_def peek_def has_def)
  finally show ?thesis using c w by blast
qed

end
