(* ===== verification/Lmdb_Txn.thy ===== *)
theory Lmdb_Txn
  imports Lmdb_Meta
begin

text \<open>
  Readers and a writer at the same time, from \<^verbatim>\<open>src/liblmdb/mdb.c\<close>. The state is what they share: the reader
  table and the number of the last transaction in the lock file, the two meta pages and the pages of the data
  file. A step is one access to that shared state (one store, or one load with what the code decides on it),
  by any reader or by the writer, which holds the writer mutex; so every interleaving of the accesses is a run.
  Memory is sequentially consistent, a \<^verbatim>\<open>MDB_db\<close> record is copied and written in one access, and no
  process dies. A run is a list of actions, and \<open>act\<close> is executable.

  The page trees are sets of page numbers here: the writer replaces, adds and drops pages as
  \<^verbatim>\<open>mdb_page_touch\<close>, \<^verbatim>\<open>mdb_page_alloc\<close>, \<^verbatim>\<open>mdb_page_loose\<close> and \<^verbatim>\<open>mdb_ovpage_free\<close> do, in any order, and may write
  any contents to the pages it owns at any time before the commit, which covers spilling, flushing and the
  writable map. The history of the snapshots is kept in the state for the statement only.
\<close>

section \<open>The shared state\<close>

record slot =
  mr_pid :: nat
  mr_txnid :: u64

abbreviation (input) NO_TXN :: u64 where "NO_TXN \<equiv> - 1"

text \<open>Where a reader is in \<^verbatim>\<open>mdb_txn_renew0\<close>: looking for a slot under the mutex, resetting, counting and claiming
  slot \<open>i\<close>, in the loop that publishes the transaction number, behind it, running with the roots it has copied,
  or between two transactions with its slot kept.\<close>

datatype reader = Idle | Locked nat nat | Reset_Pid nat nat | Reset_Id nat nat | Count nat nat | Claim nat
  | Retry nat | Loaded nat u64 | Stored nat | Checked nat u64 | Running nat u64 tree_db | Parked nat

text \<open>The writer: at work, in \<^verbatim>\<open>mdb_find_oldest\<close> (before it looks at a slot, or between the two loads from it), with
  the list of free pages saved, or writing the fields of the meta page.\<close>

datatype phase = Work | Scan nat u64 | Scan_Id nat u64 | Saved | Storing nat

record writer =
  w_env :: nat
  w_txnid :: u64
  w_pages :: "u64 set"
  w_own :: "u64 set"
  w_next :: u64
  w_recs :: "(u64 \<times> u64 set) list"
  w_pglast :: u64
  w_pghead :: "u64 set"
  w_loose :: "u64 set"
  w_free :: "u64 set"
  w_commit :: commit_txn
  w_phase :: phase

record 'c snapshot =
  sn_main :: tree_db
  sn_pages :: "u64 set"
  sn_recs :: "(u64 \<times> u64 set) list"
  sn_next :: u64
  sn_data :: "u64 \<Rightarrow> 'c"

record 'c shared =
  mti_readers :: "nat \<Rightarrow> slot"
  mti_numreaders :: nat
  mti_txnid :: u64
  rmutex :: "nat option"
  sh_metas :: "meta list"
  sh_file :: "u64 \<Rightarrow> 'c"
  pcs :: "nat \<Rightarrow> reader"
  wtxn :: "writer option"
  me_pgoldest :: "nat \<Rightarrow> u64"
  history :: "u64 \<Rightarrow> 'c snapshot"
  oldest_used :: u64

text \<open>\<open>me_pid\<close> is the process of a reader, \<open>me_maxpg\<close> the number of pages of the map and \<open>me_mapsz\<close> its size.\<close>

record config =
  me_pid :: "nat \<Rightarrow> nat"
  me_maxreaders :: nat
  me_maxpg :: u64
  me_mapsz :: u64

definition goto :: "nat \<Rightarrow> reader \<Rightarrow> 'c shared \<Rightarrow> 'c shared" where
  "goto th pc s = s\<lparr>pcs := (pcs s)(th := pc)\<rparr>"

definition set_slot :: "nat \<Rightarrow> (slot \<Rightarrow> slot) \<Rightarrow> 'c shared \<Rightarrow> 'c shared" where
  "set_slot i f s = s\<lparr>mti_readers := (mti_readers s)(i := f (mti_readers s i))\<rparr>"

section \<open>Readers\<close>

text \<open>The next access of a reader that begins a transaction. \<open>None\<close>: it waits for the mutex, or has nothing to do.\<close>

definition renew_step :: "config \<Rightarrow> nat \<Rightarrow> 'c shared \<Rightarrow> 'c shared option" where
  "renew_step c th s = (case pcs s th of
     Idle \<Rightarrow> if rmutex s = None then Some (goto th (Locked 0 (mti_numreaders s)) (s\<lparr>rmutex := Some th\<rparr>)) else None
   | Locked i nr \<Rightarrow>
       if i < nr \<and> mr_pid (mti_readers s i) \<noteq> 0 then Some (goto th (Locked (i + 1) nr) s)
       else if i = me_maxreaders c then Some (goto th Idle (s\<lparr>rmutex := None\<rparr>))
       else Some (goto th (Reset_Pid i nr) s)
   | Reset_Pid i nr \<Rightarrow> Some (goto th (Reset_Id i nr) (set_slot i (\<lambda>r. r\<lparr>mr_pid := 0\<rparr>) s))
   | Reset_Id i nr \<Rightarrow> Some (goto th (Count i nr) (set_slot i (\<lambda>r. r\<lparr>mr_txnid := NO_TXN\<rparr>) s))
   | Count i nr \<Rightarrow> Some (goto th (Claim i) (if i = nr then s\<lparr>mti_numreaders := nr + 1\<rparr> else s))
   | Claim i \<Rightarrow> Some (goto th (Retry i) ((set_slot i (\<lambda>r. r\<lparr>mr_pid := me_pid c th\<rparr>) s)\<lparr>rmutex := None\<rparr>))
   | Retry i \<Rightarrow> Some (goto th (Loaded i (mti_txnid s)) s)
   | Loaded i t \<Rightarrow> Some (goto th (Stored i) (set_slot i (\<lambda>r. r\<lparr>mr_txnid := t\<rparr>) s))
   | Stored i \<Rightarrow> Some (goto th (if mr_txnid (mti_readers s i) \<noteq> mti_txnid s then Retry i else Checked i (mr_txnid (mti_readers s i))) s)
   | Checked i t \<Rightarrow> do {
       meta \<leftarrow> peek (sh_metas s) (unat (t AND 1));
       Some (goto th (Running i t (mm_main meta)) s)
     }
   | Running i t db \<Rightarrow> None
   | Parked i \<Rightarrow>
       if mr_pid (mti_readers s i) \<noteq> me_pid c th \<or> mr_txnid (mti_readers s i) \<noteq> NO_TXN then None
       else Some (goto th (Retry i) s))"

text \<open>The end of a read transaction; the slot is kept, and given up later or never.\<close>

definition txn_end :: "nat \<Rightarrow> 'c shared \<Rightarrow> 'c shared option" where
  "txn_end th s = (case pcs s th of
     Running i t db \<Rightarrow> Some (goto th (Parked i) (set_slot i (\<lambda>r. r\<lparr>mr_txnid := NO_TXN\<rparr>) s))
   | _ \<Rightarrow> None)"

definition slot_release :: "nat \<Rightarrow> 'c shared \<Rightarrow> 'c shared option" where
  "slot_release th s = (case pcs s th of
     Parked i \<Rightarrow> Some (goto th Idle (set_slot i (\<lambda>r. r\<lparr>mr_pid := 0\<rparr>) s))
   | _ \<Rightarrow> None)"

section \<open>The writer\<close>

definition no_commit :: commit_txn where
  "no_commit = \<lparr>wt_flags = 0, wt_txnid = 0, wt_free = \<lparr>md_branch_pages = 0, md_leaf_pages = 0, md_overflow_pages = 0, md_pad = 0, md_flags = 0, md_depth = 0, md_entries = 0, md_root = P_INVALID\<rparr>,
     wt_main = \<lparr>md_branch_pages = 0, md_leaf_pages = 0, md_overflow_pages = 0, md_pad = 0, md_flags = 0, md_depth = 0, md_entries = 0, md_root = P_INVALID\<rparr>, wt_next_pgno = 0\<rparr>"

text \<open>Beginning takes the writer mutex. Transaction numbers do not wrap.\<close>

definition new_writer :: "nat \<Rightarrow> 'c shared \<Rightarrow> writer" where
  "new_writer e s =
     (let t = mti_txnid s; sn = history s t
      in \<lparr>w_env = e, w_txnid = t + 1, w_pages = sn_pages sn, w_own = {}, w_next = sn_next sn, w_recs = sn_recs sn,
           w_pglast = 0, w_pghead = {}, w_loose = {}, w_free = {}, w_commit = no_commit, w_phase = Work\<rparr>)"

definition write_begin :: "nat \<Rightarrow> 'c shared \<Rightarrow> 'c shared option" where
  "write_begin e s = (if wtxn s = None \<and> mti_txnid s < - 2 then Some (s\<lparr>wtxn := Some (new_writer e s)\<rparr>) else None)"

text \<open>The accesses of \<^verbatim>\<open>mdb_find_oldest\<close>, and storing its result in the environment of the writer.\<close>

definition oldest_step :: "writer \<Rightarrow> 'c shared \<Rightarrow> 'c shared option" where
  "oldest_step w s = (case w_phase w of
     Work \<Rightarrow> Some (s\<lparr>wtxn := Some (w\<lparr>w_phase := Scan (mti_numreaders s) (w_txnid w - 1)\<rparr>)\<rparr>)
   | Scan i old \<Rightarrow>
       if i = 0 then Some (s\<lparr>wtxn := Some (w\<lparr>w_phase := Work\<rparr>), me_pgoldest := (me_pgoldest s)(w_env w := old), oldest_used := max old (oldest_used s)\<rparr>)
       else Some (s\<lparr>wtxn := Some (w\<lparr>w_phase := (if mr_pid (mti_readers s (i - 1)) \<noteq> 0 then Scan_Id (i - 1) old else Scan (i - 1) old)\<rparr>)\<rparr>)
   | Scan_Id i old \<Rightarrow>
       Some (s\<lparr>wtxn := Some (w\<lparr>w_phase := Scan i (if old > mr_txnid (mti_readers s i) then mr_txnid (mti_readers s i) else old)\<rparr>)\<rparr>)
   | _ \<Rightarrow> None)"

text \<open>Taking the next record of free pages, the one behind \<^verbatim>\<open>me_pglast\<close>, if it is older than the oldest reader.\<close>

definition record_step :: "u64 \<Rightarrow> writer \<Rightarrow> writer option" where
  "record_step oldest w = (case w_recs w of
     (k, ps) # rs \<Rightarrow> if oldest \<le> k then None else Some (w\<lparr>w_pglast := k, w_pghead := w_pghead w \<union> ps, w_recs := rs\<rparr>)
   | [] \<Rightarrow> None)"

definition alloc_step :: "config \<Rightarrow> u64 \<Rightarrow> writer \<Rightarrow> writer option" where
  "alloc_step c pg w =
     (let w' = w\<lparr>w_own := insert pg (w_own w), w_pages := insert pg (w_pages w)\<rparr>
      in if pg \<in> w_loose w then Some (w'\<lparr>w_loose := w_loose w - {pg}\<rparr>)
         else if pg \<in> w_pghead w then Some (w'\<lparr>w_pghead := w_pghead w - {pg}\<rparr>)
         else if pg = w_next w \<and> pg < me_maxpg c then Some (w'\<lparr>w_next := pg + 1\<rparr>)
         else None)"

text \<open>A page of the trees is replaced or dropped: it becomes a loose page if the transaction owns it, or goes back
  to the free pages there are, or to the list of pages freed by this transaction.\<close>

definition loose_step :: "u64 \<Rightarrow> writer \<Rightarrow> writer option" where
  "loose_step pg w = (if pg \<in> w_pages w \<and> pg \<in> w_own w then Some (w\<lparr>w_pages := w_pages w - {pg}, w_loose := insert pg (w_loose w)\<rparr>) else None)"

definition giveback_step :: "u64 \<Rightarrow> writer \<Rightarrow> writer option" where
  "giveback_step pg w =
     (if pg \<in> w_pages w \<and> pg \<in> w_own w \<and> w_pglast w \<noteq> 0
      then Some (w\<lparr>w_pages := w_pages w - {pg}, w_own := w_own w - {pg}, w_pghead := insert pg (w_pghead w)\<rparr>) else None)"

definition free_step :: "u64 \<Rightarrow> writer \<Rightarrow> writer option" where
  "free_step pg w = (if pg \<in> w_pages w then Some (w\<lparr>w_pages := w_pages w - {pg}, w_free := insert pg (w_free w)\<rparr>) else None)"

definition touch_step :: "config \<Rightarrow> u64 \<Rightarrow> u64 \<Rightarrow> writer \<Rightarrow> writer option" where
  "touch_step c old new w = (if old \<in> w_own w then None else do { w \<leftarrow> alloc_step c new w; free_step old w })"

text \<open>Saving the list of free pages: what is left of the records taken is put into records with keys up to
  \<^verbatim>\<open>me_pglast\<close>, spread in any way (\<open>low\<close>), and the pages freed by this transaction into a record with its number. The lists in memory are then released.\<close>

fun apart :: "(u64 \<times> u64 set) list \<Rightarrow> bool" where
  "apart [] = True"
| "apart (r # rs) = ((\<forall>r' \<in> set rs. snd r \<inter> snd r' = {}) \<and> apart rs)"

definition rec_pages :: "(u64 \<times> u64 set) list \<Rightarrow> u64 set" where
  "rec_pages rs = \<Union> (snd ` set rs)"

definition save_step :: "(u64 \<times> u64 set) list \<Rightarrow> writer \<Rightarrow> writer option" where
  "save_step low w =
     (let head = (if w_pglast w = 0 then {} else w_pghead w \<union> w_loose w);
          freed = (if w_pglast w = 0 then w_free w \<union> w_loose w else w_free w)
      in if (\<forall>r \<in> set low. fst r \<le> w_pglast w) \<and> apart low \<and> rec_pages low = head
         then Some (w\<lparr>w_recs := low @ w_recs w @ (if freed = {} then [] else [(w_txnid w, freed)]), w_pghead := {}, w_loose := {}, w_free := {}, w_phase := Saved\<rparr>)
         else None)"

text \<open>The accesses of \<^verbatim>\<open>mdb_env_write_meta\<close>, when no write fails.\<close>

definition meta_step :: "config \<Rightarrow> writer \<Rightarrow> 'c shared \<Rightarrow> 'c shared option" where
  "meta_step c w s = (case w_phase w of
     Storing k \<Rightarrow>
       if k < 5
       then do {
         let toggle = unat (w_txnid w AND 1);
         mp \<leftarrow> peek (sh_metas s) toggle;
         other \<leftarrow> peek (sh_metas s) (1 - toggle);
         let fs = meta_stores (max (mm_mapsize other) (me_mapsz c)) (w_commit w) (w_next w - 1) (w_txnid w);
         Some (s\<lparr>sh_metas := (sh_metas s)[toggle := (fs ! k) mp], wtxn := Some (w\<lparr>w_phase := Storing (k + 1)\<rparr>)\<rparr>)
       }
       else Some (s\<lparr>mti_txnid := w_txnid w, wtxn := None\<rparr>)
   | _ \<Rightarrow> None)"

section \<open>Runs\<close>

datatype 'c action = Renew nat | End nat | Release nat
  | Begin nat | Oldest | Record | Alloc u64 | Touch u64 u64 | Loosen u64 | Giveback u64 | Free u64
  | Write u64 'c | Save "(u64 \<times> u64 set) list" | Flush commit_txn | Meta | Abort

definition working :: "(writer \<Rightarrow> writer option) \<Rightarrow> 'c shared \<Rightarrow> 'c shared option" where
  "working f s = do {
     w \<leftarrow> wtxn s;
     (if w_phase w = Work then do { w \<leftarrow> f w; Some (s\<lparr>wtxn := Some w\<rparr>) } else None)
   }"

text \<open>\<open>Flush\<close> is the end of the page writes: what the file then holds is the new snapshot.\<close>

fun act :: "config \<Rightarrow> 'c action \<Rightarrow> 'c shared \<Rightarrow> 'c shared option" where
  "act c (Renew th) s = renew_step c th s"
| "act c (End th) s = txn_end th s"
| "act c (Release th) s = slot_release th s"
| "act c (Begin e) s = write_begin e s"
| "act c Oldest s = do { w \<leftarrow> wtxn s; oldest_step w s }"
| "act c Record s = working (\<lambda>w. record_step (me_pgoldest s (w_env w)) w) s"
| "act c (Alloc pg) s = working (alloc_step c pg) s"
| "act c (Touch old new) s = working (touch_step c old new) s"
| "act c (Loosen pg) s = working (loose_step pg) s"
| "act c (Giveback pg) s = working (giveback_step pg) s"
| "act c (Free pg) s = working (free_step pg) s"
| "act c (Write pg x) s = do {
     w \<leftarrow> wtxn s;
     (if pg \<in> w_own w \<and> (w_phase w = Work \<or> w_phase w = Saved) then Some (s\<lparr>sh_file := (sh_file s)(pg := x)\<rparr>) else None)
   }"
| "act c (Save low) s = working (save_step low) s"
| "act c (Flush ct) s = do {
     w \<leftarrow> wtxn s;
     (if w_phase w = Saved then
        Some (s\<lparr>wtxn := Some (w\<lparr>w_phase := Storing 0, w_commit := ct\<rparr>),
          history := (history s)(w_txnid w := \<lparr>sn_main = wt_main ct, sn_pages = w_pages w, sn_recs = w_recs w, sn_next = w_next w, sn_data = sh_file s\<rparr>)\<rparr>)
      else None)
   }"
| "act c Meta s = do { w \<leftarrow> wtxn s; meta_step c w s }"
| "act c Abort s = do {
     w \<leftarrow> wtxn s;
     (if w_phase w \<in> {Work, Saved, Storing 0} then Some (s\<lparr>wtxn := None\<rparr>) else None)
   }"

fun run :: "config \<Rightarrow> 'c action list \<Rightarrow> 'c shared \<Rightarrow> 'c shared option" where
  "run c [] s = Some s"
| "run c (a # as) s = do { s \<leftarrow> act c a s; run c as s }"

text \<open>A new database: two meta pages with no snapshot, no readers.\<close>

definition new_db :: "meta \<Rightarrow> (u64 \<Rightarrow> 'c) \<Rightarrow> 'c shared" where
  "new_db m f = \<lparr>mti_readers = (\<lambda>i. \<lparr>mr_pid = 0, mr_txnid = 0\<rparr>), mti_numreaders = 0, mti_txnid = 0, rmutex = None, sh_metas = [m, m], sh_file = f,
     pcs = (\<lambda>_. Idle), wtxn = None, me_pgoldest = (\<lambda>_. 0),
     history = (\<lambda>_. \<lparr>sn_main = mm_main m, sn_pages = {}, sn_recs = [], sn_next = 2, sn_data = f\<rparr>), oldest_used = 0\<rparr>"

section \<open>Frames\<close>

lemma succ_txn:
  assumes "t < (- 2 :: u64)"
  shows "t < t + 1" "v \<le> t + 1 \<longleftrightarrow> v \<le> t \<or> v = t + 1" "t + 1 \<noteq> 0"
proof -
  have u: "unat t < 2 ^ 64 - 2" using assms by (simp add: word_less_nat_alt)
  then have s: "unat (t + 1) = unat t + 1" by (simp add: unat_word_ariths)
  show "t < t + 1" "v \<le> t + 1 \<longleftrightarrow> v \<le> t \<or> v = t + 1"
    by (auto simp: word_less_nat_alt word_le_nat_alt s word_unat_eq_iff)
  show "t + 1 \<noteq> 0" using s by (metis add_is_0 one_neq_zero unat_0)
qed

lemmas act_simps = renew_step_def txn_end_def slot_release_def goto_def set_slot_def write_begin_def oldest_step_def working_def meta_step_def Let_def

definition reads :: "'c action \<Rightarrow> bool" where
  "reads a \<longleftrightarrow> (case a of Renew _ \<Rightarrow> True | End _ \<Rightarrow> True | Release _ \<Rightarrow> True | _ \<Rightarrow> False)"

text \<open>Readers change only the reader table, the writer everything else.\<close>

lemma reader_frame:
  assumes "act c a s = Some s'" "reads a"
  shows "mti_txnid s' = mti_txnid s" "sh_metas s' = sh_metas s" "sh_file s' = sh_file s" "wtxn s' = wtxn s" "me_pgoldest s' = me_pgoldest s"
    "history s' = history s" "oldest_used s' = oldest_used s"
proof -
  have "mti_txnid s' = mti_txnid s \<and> sh_metas s' = sh_metas s \<and> sh_file s' = sh_file s \<and> wtxn s' = wtxn s \<and> me_pgoldest s' = me_pgoldest s \<and>
    history s' = history s \<and> oldest_used s' = oldest_used s"
    using assms by (cases a) (auto simp: act_simps reads_def bind_eq_Some_conv split: reader.splits if_splits)
  then show "mti_txnid s' = mti_txnid s" "sh_metas s' = sh_metas s" "sh_file s' = sh_file s" "wtxn s' = wtxn s" "me_pgoldest s' = me_pgoldest s"
    "history s' = history s" "oldest_used s' = oldest_used s" by blast+
qed

lemma writer_frame:
  assumes "act c a s = Some s'" "\<not> reads a"
  shows "mti_readers s' = mti_readers s" "mti_numreaders s' = mti_numreaders s" "rmutex s' = rmutex s" "pcs s' = pcs s"
proof -
  have "mti_readers s' = mti_readers s \<and> mti_numreaders s' = mti_numreaders s \<and> rmutex s' = rmutex s \<and> pcs s' = pcs s"
  proof (cases a)
    case Oldest
    with assms obtain w where "oldest_step w s = Some s'" by (auto simp: bind_eq_Some_conv)
    then show ?thesis by (cases "w_phase w") (auto simp: oldest_step_def split: if_splits)
  next
    case Meta
    with assms obtain w where "meta_step c w s = Some s'" by (auto simp: bind_eq_Some_conv)
    then show ?thesis by (cases "w_phase w") (auto simp: meta_step_def Let_def bind_eq_Some_conv split: if_splits)
  qed (use assms in \<open>auto simp: reads_def working_def write_begin_def Let_def bind_eq_Some_conv split: if_splits\<close>)
  then show "mti_readers s' = mti_readers s" "mti_numreaders s' = mti_numreaders s" "rmutex s' = rmutex s" "pcs s' = pcs s" by blast+
qed

section \<open>The reader table\<close>

fun owns :: "reader \<Rightarrow> nat option" where
  "owns (Retry i) = Some i"
| "owns (Loaded i t) = Some i"
| "owns (Stored i) = Some i"
| "owns (Checked i t) = Some i"
| "owns (Running i t db) = Some i"
| "owns (Parked i) = Some i"
| "owns _ = None"

fun claims :: "reader \<Rightarrow> nat option" where
  "claims (Reset_Pid i nr) = Some i"
| "claims (Reset_Id i nr) = Some i"
| "claims (Count i nr) = Some i"
| "claims (Claim i) = Some i"
| "claims _ = None"

fun counted :: "reader \<Rightarrow> (nat \<times> nat) option" where
  "counted (Locked i nr) = Some (i, nr)"
| "counted (Reset_Pid i nr) = Some (i, nr)"
| "counted (Reset_Id i nr) = Some (i, nr)"
| "counted (Count i nr) = Some (i, nr)"
| "counted _ = None"

text \<open>The slot and the number of a reader whose snapshot is protected.\<close>

fun protects :: "reader \<Rightarrow> (nat \<times> u64) option" where
  "protects (Checked i t) = Some (i, t)"
| "protects (Running i t db) = Some (i, t)"
| "protects _ = None"

definition in_mutex :: "reader \<Rightarrow> bool" where
  "in_mutex pc \<longleftrightarrow> counted pc \<noteq> None \<or> claims pc \<noteq> None"

definition table_ok :: "'c shared \<Rightarrow> bool" where
  "table_ok s \<longleftrightarrow>
     (\<forall>th. in_mutex (pcs s th) \<longrightarrow> rmutex s = Some th) \<and>
     (\<forall>th i. owns (pcs s th) = Some i \<longrightarrow> mr_pid (mti_readers s i) \<noteq> 0 \<and> i < mti_numreaders s) \<and>
     (\<forall>th th' i. owns (pcs s th) = Some i \<and> owns (pcs s th') = Some i \<longrightarrow> th = th') \<and>
     (\<forall>th i nr. counted (pcs s th) = Some (i, nr) \<longrightarrow> nr = mti_numreaders s \<and> i \<le> nr) \<and>
     (\<forall>th i. claims (pcs s th) = Some i \<longrightarrow> (\<forall>th'. owns (pcs s th') \<noteq> Some i)) \<and>
     (\<forall>th i. pcs s th = Claim i \<longrightarrow> i < mti_numreaders s) \<and>
     (\<forall>th i t. protects (pcs s th) = Some (i, t) \<longrightarrow> mr_txnid (mti_readers s i) = t)"

lemma protects_owns: "protects pc = Some (i, t) \<Longrightarrow> owns pc = Some i"
  by (cases pc) auto

lemma table_okD:
  assumes "table_ok s"
  shows "in_mutex (pcs s th) \<Longrightarrow> rmutex s = Some th"
    "owns (pcs s th) = Some i \<Longrightarrow> mr_pid (mti_readers s i) \<noteq> 0 \<and> i < mti_numreaders s"
    "owns (pcs s th) = Some i \<Longrightarrow> owns (pcs s th') = Some i \<Longrightarrow> th = th'"
    "counted (pcs s th) = Some (i, nr) \<Longrightarrow> nr = mti_numreaders s \<and> i \<le> nr"
    "claims (pcs s th) = Some i \<Longrightarrow> owns (pcs s th') \<noteq> Some i"
    "pcs s th = Claim i \<Longrightarrow> i < mti_numreaders s"
    "protects (pcs s th) = Some (i, t) \<Longrightarrow> mr_txnid (mti_readers s i) = t"
  using assms unfolding table_ok_def by blast+

lemma claims_owns: "claims pc = Some i \<Longrightarrow> owns pc = None"
  by (cases pc) auto

text \<open>One reader moves, and at most its own slot changes.\<close>

lemma table_update:
  assumes t: "table_ok s" and s': "pcs s' = (pcs s)(th := pc)" "mti_readers s' = (mti_readers s)(i := r)" "mti_numreaders s \<le> mti_numreaders s'"
    and free: "\<And>th'. th' \<noteq> th \<Longrightarrow> owns (pcs s th') \<noteq> Some i"
    and mx: "\<And>th'. in_mutex (pcs s' th') \<Longrightarrow> rmutex s' = Some th'"
    and eqn: "mti_numreaders s' = mti_numreaders s \<or> rmutex s = Some th"
    and own: "\<And>j. owns pc = Some j \<Longrightarrow> j = i \<and> mr_pid r \<noteq> 0 \<and> i < mti_numreaders s' \<and> (\<forall>th'. th' \<noteq> th \<longrightarrow> claims (pcs s th') \<noteq> Some i)"
    and cnt: "\<And>j nr. counted pc = Some (j, nr) \<Longrightarrow> nr = mti_numreaders s' \<and> j \<le> nr"
    and clm: "\<And>j. claims pc = Some j \<Longrightarrow> j = i" and cl: "\<And>j. pc = Claim j \<Longrightarrow> j < mti_numreaders s'"
    and prt: "\<And>j k. protects pc = Some (j, k) \<Longrightarrow> j = i \<and> mr_txnid r = k"
  shows "table_ok s'"
proof -
  note tt = table_okD [OF t]
  show ?thesis unfolding table_ok_def
  proof (intro conjI allI impI)
    fix th' j assume o: "owns (pcs s' th') = Some j"
    show "mr_pid (mti_readers s' j) \<noteq> 0" "j < mti_numreaders s'"
    proof -
      have "mr_pid (mti_readers s' j) \<noteq> 0 \<and> j < mti_numreaders s'"
      proof (cases "th' = th")
        case True
        then show ?thesis using own [of j] o by (simp add: s'(1,2))
      next
        case False
        then have o: "owns (pcs s th') = Some j" using o by (simp add: s'(1))
        then have "j \<noteq> i" using free [OF False] by auto
        then show ?thesis using tt(2) [OF o] s'(3) by (simp add: s'(2))
      qed
      then show "mr_pid (mti_readers s' j) \<noteq> 0" "j < mti_numreaders s'" by blast+
    qed
  next
    fix th1 th2 j assume o: "owns (pcs s' th1) = Some j \<and> owns (pcs s' th2) = Some j"
    show "th1 = th2"
    proof (rule ccontr)
      assume ne: "th1 \<noteq> th2"
      note uniq = tt(3) [of th1 j th2]
      have "th1 = th \<or> th2 = th"
      proof (rule ccontr)
        assume "\<not> (th1 = th \<or> th2 = th)"
        then show False using o ne uniq by (simp add: s'(1))
      qed
      then show False
      proof
        assume "th1 = th"
        then have "owns pc = Some j" "owns (pcs s th2) = Some j" using o ne by (simp_all add: s'(1))
        then show False using own [of j] free [of th2] ne \<open>th1 = th\<close> by simp
      next
        assume "th2 = th"
        then have "owns pc = Some j" "owns (pcs s th1) = Some j" using o ne by (simp_all add: s'(1))
        then show False using own [of j] free [of th1] ne \<open>th2 = th\<close> by simp
      qed
    qed
  next
    fix th' j nr assume c: "counted (pcs s' th') = Some (j, nr)"
    have "nr = mti_numreaders s' \<and> j \<le> nr"
    proof (cases "th' = th")
      case False
      then have "counted (pcs s th') = Some (j, nr)" using c by (simp add: s'(1))
      moreover from this have "rmutex s = Some th'" using tt(1) [of th'] by (simp add: in_mutex_def)
      ultimately show ?thesis using eqn False tt(4) [of th' j nr] by auto
    qed (use c cnt [of j nr] in \<open>simp add: s'(1)\<close>)
    then show "nr = mti_numreaders s'" "j \<le> nr" by blast+
  next
    fix th' th2 j assume c: "claims (pcs s' th') = Some j"
    show "owns (pcs s' th2) \<noteq> Some j"
    proof (cases "th' = th")
      case True
      then have "claims pc = Some j" "j = i" using c clm by (simp_all add: s'(1))
      then show ?thesis using free claims_owns by (cases "th2 = th") (auto simp: s'(1))
    next
      case False
      then have c: "claims (pcs s th') = Some j" using c by (simp add: s'(1))
      show ?thesis
      proof (cases "th2 = th")
        case True
        then show ?thesis using own [of j] c False by (auto simp: s'(1))
      qed (use tt(5) [OF c] in \<open>simp add: s'(1)\<close>)
    qed
  next
    fix th' j assume "pcs s' th' = Claim j"
    then show "j < mti_numreaders s'" using cl [of j] tt(6) [of th' j] s'(3) by (cases "th' = th") (auto simp: s'(1))
  next
    fix th' j k assume p: "protects (pcs s' th') = Some (j, k)"
    show "mr_txnid (mti_readers s' j) = k"
    proof (cases "th' = th")
      case True
      then show ?thesis using p prt [of j k] by (simp add: s'(1,2))
    next
      case False
      then have p: "protects (pcs s th') = Some (j, k)" using p by (simp add: s'(1))
      then have "j \<noteq> i" using free [OF False] protects_owns by blast
      then show ?thesis using tt(7) [OF p] by (simp add: s'(2))
    qed
  qed (use mx in blast)
qed

lemma table_reader:
  assumes t: "table_ok s" and a: "renew_step c th s = Some s'" and pid: "me_pid c th \<noteq> 0"
  shows "table_ok s'"
proof -
  note mtx = table_okD(1) [OF t] and own = table_okD(2) [OF t] and uniq = table_okD(3) [OF t] and cnt = table_okD(4) [OF t]
    and clm = table_okD(5) [OF t] and cl = table_okD(6) [OF t] and prt = table_okD(7) [OF t]
  show ?thesis
  proof (cases "pcs s th")
    case Idle
    have "rmutex s = None" "s' = goto th (Locked 0 (mti_numreaders s)) (s\<lparr>rmutex := Some th\<rparr>)" using a Idle by (auto simp: renew_step_def split: if_splits)
    moreover have "\<not> in_mutex (pcs s th')" for th' using mtx calculation(1) by auto
    ultimately show ?thesis using own
      by (intro table_update [OF t, where th = th and i = "mti_numreaders s" and r = "mti_readers s (mti_numreaders s)"]) (auto simp: goto_def dest: own split: if_splits)
  next
    case (Locked i nr)
    have m: "rmutex s = Some th" "nr = mti_numreaders s" "i \<le> nr" using mtx [of th] cnt [of th] Locked by (auto simp: in_mutex_def)
    then have others: "\<not> in_mutex (pcs s th')" if "th' \<noteq> th" for th' using mtx that by fastforce
    show ?thesis
    proof (cases "i < nr \<and> mr_pid (mti_readers s i) \<noteq> 0")
      case True
      then have "s' = goto th (Locked (i + 1) nr) s" using a Locked by (simp add: renew_step_def)
      then show ?thesis using True m others
        by (intro table_update [OF t, where th = th and i = "mti_numreaders s" and r = "mti_readers s (mti_numreaders s)"]) (auto simp: goto_def dest: own split: if_splits)
    next
      case free: False
      then have no: "owns (pcs s th') \<noteq> Some i" for th' using own [of th' i] m by (cases "i < nr") auto
      show ?thesis
      proof (cases "i = me_maxreaders c")
        case True
        then have "s' = goto th Idle (s\<lparr>rmutex := None\<rparr>)" using a Locked free by (auto simp: renew_step_def)
        then show ?thesis using no others
          by (intro table_update [OF t, where th = th and i = i and r = "mti_readers s i"]) (auto simp: goto_def in_mutex_def split: if_splits)
      next
        case False
        then have "s' = goto th (Reset_Pid i nr) s" using a Locked free by (auto simp: renew_step_def)
        then show ?thesis using no others m
          by (intro table_update [OF t, where th = th and i = i and r = "mti_readers s i"]) (auto simp: goto_def split: if_splits)
      qed
    qed
  next
    case (Reset_Pid i nr)
    have m: "rmutex s = Some th" "nr = mti_numreaders s" "i \<le> nr" using mtx [of th] cnt [of th] Reset_Pid by (auto simp: in_mutex_def)
    moreover have "s' = goto th (Reset_Id i nr) (set_slot i (\<lambda>r. r\<lparr>mr_pid := 0\<rparr>) s)" using a Reset_Pid by (simp add: renew_step_def)
    ultimately show ?thesis using clm [of th i] mtx Reset_Pid
      by (intro table_update [OF t, where th = th and i = i and r = "(mti_readers s i)\<lparr>mr_pid := 0\<rparr>"]) (auto simp: goto_def set_slot_def split: if_splits)
  next
    case (Reset_Id i nr)
    have m: "rmutex s = Some th" "nr = mti_numreaders s" "i \<le> nr" using mtx [of th] cnt [of th] Reset_Id by (auto simp: in_mutex_def)
    moreover have "s' = goto th (Count i nr) (set_slot i (\<lambda>r. r\<lparr>mr_txnid := NO_TXN\<rparr>) s)" using a Reset_Id by (simp add: renew_step_def)
    ultimately show ?thesis using clm [of th i] mtx Reset_Id
      by (intro table_update [OF t, where th = th and i = i and r = "(mti_readers s i)\<lparr>mr_txnid := NO_TXN\<rparr>"]) (auto simp: goto_def set_slot_def split: if_splits)
  next
    case (Count i nr)
    have m: "rmutex s = Some th" "nr = mti_numreaders s" "i \<le> nr" using mtx [of th] cnt [of th] Count by (auto simp: in_mutex_def)
    moreover have "s' = goto th (Claim i) (if i = nr then s\<lparr>mti_numreaders := nr + 1\<rparr> else s)" using a Count by (simp add: renew_step_def)
    ultimately show ?thesis using clm [of th i] mtx Count
      by (intro table_update [OF t, where th = th and i = i and r = "mti_readers s i"]) (auto simp: goto_def split: if_splits)
  next
    case (Claim i)
    have m: "rmutex s = Some th" "i < mti_numreaders s" using mtx [of th] cl [of th i] Claim by (auto simp: in_mutex_def)
    have others: "\<not> in_mutex (pcs s th')" if "th' \<noteq> th" for th' using mtx [of th'] that m by auto
    have "s' = goto th (Retry i) ((set_slot i (\<lambda>r. r\<lparr>mr_pid := me_pid c th\<rparr>) s)\<lparr>rmutex := None\<rparr>)" using a Claim by (simp add: renew_step_def)
    then show ?thesis using clm [of th i] m others pid Claim
      by (intro table_update [OF t, where th = th and i = i and r = "(mti_readers s i)\<lparr>mr_pid := me_pid c th\<rparr>"]) (auto simp: goto_def set_slot_def in_mutex_def split: if_splits)
  next
    case (Retry i)
    then have "s' = goto th (Loaded i (mti_txnid s)) s" using a by (simp add: renew_step_def)
    then show ?thesis using own [of th i] uniq [of th i] clm [of _ i th] mtx Retry
      by (intro table_update [OF t, where th = th and i = i and r = "mti_readers s i"]) (auto simp: goto_def in_mutex_def split: if_splits)
  next
    case (Loaded i k)
    then have "s' = goto th (Stored i) (set_slot i (\<lambda>r. r\<lparr>mr_txnid := k\<rparr>) s)" using a by (simp add: renew_step_def)
    then show ?thesis using own [of th i] uniq [of th i] clm [of _ i th] mtx Loaded
      by (intro table_update [OF t, where th = th and i = i and r = "(mti_readers s i)\<lparr>mr_txnid := k\<rparr>"]) (auto simp: goto_def set_slot_def in_mutex_def split: if_splits)
  next
    case (Stored i)
    define pc where "pc = (if mr_txnid (mti_readers s i) \<noteq> mti_txnid s then Retry i else Checked i (mr_txnid (mti_readers s i)))"
    have "s' = goto th pc s" using a Stored by (simp add: renew_step_def pc_def)
    moreover have "owns pc = Some i" "counted pc = None" "claims pc = None" "protects pc = Some (j, k) \<Longrightarrow> j = i \<and> mr_txnid (mti_readers s i) = k"
      "\<not> in_mutex pc" "pc \<noteq> Claim j" for j k
      by (auto simp: pc_def in_mutex_def split: if_splits)
    ultimately show ?thesis using own [of th i] uniq [of th i] clm [of _ i th] mtx Stored
      by (intro table_update [OF t, where th = th and i = i and r = "mti_readers s i"]) (auto simp: goto_def split: if_splits)
  next
    case (Checked i k)
    then obtain db where "s' = goto th (Running i k db) s" using a by (auto simp: renew_step_def bind_eq_Some_conv)
    moreover have "mr_txnid (mti_readers s i) = k" using prt [of th i k] Checked by simp
    ultimately show ?thesis using own [of th i] uniq [of th i] clm [of _ i th] mtx Checked
      by (intro table_update [OF t, where th = th and i = i and r = "mti_readers s i"]) (auto simp: goto_def in_mutex_def split: if_splits)
  next
    case (Running i k db)
    then show ?thesis using a by (simp add: renew_step_def)
  next
    case (Parked i)
    then have "s' = goto th (Retry i) s" using a by (auto simp: renew_step_def split: if_splits)
    then show ?thesis using own [of th i] uniq [of th i] clm [of _ i th] mtx Parked
      by (intro table_update [OF t, where th = th and i = i and r = "mti_readers s i"]) (auto simp: goto_def in_mutex_def split: if_splits)
  qed
qed

lemma table_end:
  assumes t: "table_ok s" and a: "txn_end th s = Some s' \<or> slot_release th s = Some s'"
  shows "table_ok s'"
proof -
  note mtx = table_okD(1) [OF t] and own = table_okD(2) [OF t] and uniq = table_okD(3) [OF t] and clm = table_okD(5) [OF t]
  consider i k db where "pcs s th = Running i k db" "s' = goto th (Parked i) (set_slot i (\<lambda>r. r\<lparr>mr_txnid := NO_TXN\<rparr>) s)"
    | i where "pcs s th = Parked i" "s' = goto th Idle (set_slot i (\<lambda>r. r\<lparr>mr_pid := 0\<rparr>) s)"
    using a by (cases "pcs s th") (auto simp: txn_end_def slot_release_def)
  then show ?thesis
  proof cases
    case (1 i k db)
    then show ?thesis using own [of th i] uniq [of th i] clm [of _ i th] mtx
      by (intro table_update [OF t, where th = th and i = i and r = "(mti_readers s i)\<lparr>mr_txnid := NO_TXN\<rparr>"]) (auto simp: goto_def set_slot_def in_mutex_def split: if_splits)
  next
    case (2 i)
    then show ?thesis using own [of th i] uniq [of th i] clm [of _ i th] mtx
      by (intro table_update [OF t, where th = th and i = i and r = "(mti_readers s i)\<lparr>mr_pid := 0\<rparr>"]) (auto simp: goto_def set_slot_def in_mutex_def split: if_splits)
  qed
qed

lemma table_act:
  assumes "table_ok s" "act c a s = Some s'" "\<And>th. me_pid c th \<noteq> 0"
  shows "table_ok s'"
proof (cases "reads a")
  case True
  then show ?thesis using assms by (cases a) (auto simp: reads_def intro: table_reader table_end)
next
  case False
  then show ?thesis using assms(1) writer_frame [OF assms(2)] by (simp add: table_ok_def)
qed

section \<open>The oldest reader\<close>

text \<open>Every protected snapshot is at least as new as the oldest one the writers have counted with; and while a
  writer looks for the oldest reader, it is so for the slots it has read, whatever the readers do meanwhile.\<close>

definition scanned :: "phase \<Rightarrow> (nat \<times> u64) option" where
  "scanned ph = (case ph of Scan i old \<Rightarrow> Some (i, old) | Scan_Id i old \<Rightarrow> Some (i + 1, old) | _ \<Rightarrow> None)"

definition oldest_ok :: "'c shared \<Rightarrow> bool" where
  "oldest_ok s \<longleftrightarrow>
     oldest_used s \<le> mti_txnid s \<and> (\<forall>e. me_pgoldest s e \<le> oldest_used s) \<and>
     (\<forall>th i t. protects (pcs s th) = Some (i, t) \<longrightarrow> oldest_used s \<le> t \<and> t \<le> mti_txnid s) \<and>
     (\<forall>w. wtxn s = Some w \<longrightarrow> mti_txnid s < - 2 \<and> w_txnid w = mti_txnid s + 1) \<and>
     (\<forall>w i old. wtxn s = Some w \<and> scanned (w_phase w) = Some (i, old) \<longrightarrow>
        old \<le> mti_txnid s \<and> (\<forall>th j t. protects (pcs s th) = Some (j, t) \<longrightarrow> j < i \<or> old \<le> t))"

lemma oldest_okD:
  assumes "oldest_ok s"
  shows "oldest_used s \<le> mti_txnid s" "me_pgoldest s e \<le> oldest_used s"
    "protects (pcs s th) = Some (i, t) \<Longrightarrow> oldest_used s \<le> t \<and> t \<le> mti_txnid s"
    "wtxn s = Some w \<Longrightarrow> mti_txnid s < - 2 \<and> w_txnid w = mti_txnid s + 1"
    "wtxn s = Some w \<Longrightarrow> scanned (w_phase w) = Some (i, old) \<Longrightarrow> old \<le> mti_txnid s"
    "wtxn s = Some w \<Longrightarrow> scanned (w_phase w) = Some (i, old) \<Longrightarrow> protects (pcs s th) = Some (j, t) \<Longrightarrow> j < i \<or> old \<le> t"
  using assms unfolding oldest_ok_def by blast+

text \<open>A reader gets protected only by finding its number in \<^verbatim>\<open>mti_txnid\<close>.\<close>

lemma new_protect:
  assumes "act c a s = Some s'" "reads a" "protects (pcs s' th) = Some (i, t)"
  shows "protects (pcs s th) = Some (i, t) \<or> t = mti_txnid s"
proof -
  have r: "protects (pcs s th) = Some (i, t) \<or> t = mti_txnid s" if "renew_step c th' s = Some s'" for th'
    using that assms(3) by (cases "pcs s th'"; cases "th = th'") (auto simp: renew_step_def goto_def set_slot_def bind_eq_Some_conv split: if_splits)
  show ?thesis
  proof (cases a)
    case (Renew th')
    then show ?thesis using r assms(1) by simp
  next
    case (End th')
    then show ?thesis using assms(1,3) by (cases "pcs s th'"; cases "th = th'") (auto simp: txn_end_def goto_def set_slot_def)
  next
    case (Release th')
    then show ?thesis using assms(1,3) by (cases "pcs s th'"; cases "th = th'") (auto simp: slot_release_def goto_def set_slot_def)
  qed (use assms(2) in \<open>simp_all add: reads_def\<close>)
qed

lemma oldest_reader:
  assumes o: "oldest_ok s" and a: "act c a s = Some s'" "reads a"
  shows "oldest_ok s'"
proof -
  note f = reader_frame [OF a] and d = oldest_okD [OF o] and n = new_protect [OF a]
  show ?thesis unfolding oldest_ok_def f
  proof (intro conjI allI impI)
    fix th i t assume p: "protects (pcs s' th) = Some (i, t)"
    show "oldest_used s \<le> t" "t \<le> mti_txnid s" using n [OF p] d(1) d(3) [of th i t] by auto
  next
    fix w i old th j t assume w: "wtxn s = Some w \<and> scanned (w_phase w) = Some (i, old)" and p: "protects (pcs s' th) = Some (j, t)"
    show "j < i \<or> old \<le> t" using n [OF p] d(5) [of w i old] d(6) [of w i old th j t] w by auto
  qed (use d in auto)
qed

text \<open>The operations on the trees leave the number and the environment of the writer alone and do not scan.\<close>

lemma working_cases:
  assumes "working f s = Some s'"
  obtains w w' where "wtxn s = Some w" "w_phase w = Work" "f w = Some w'" "s' = s\<lparr>wtxn := Some w'\<rparr>"
  using assms by (auto simp: working_def bind_eq_Some_conv split: if_splits)

lemma tree_frame:
  assumes "w_phase w = Work"
  shows "record_step old w = Some w' \<Longrightarrow> w_txnid w' = w_txnid w \<and> scanned (w_phase w') = None"
    "alloc_step c pg w = Some w' \<Longrightarrow> w_txnid w' = w_txnid w \<and> scanned (w_phase w') = None"
    "touch_step c pg pn w = Some w' \<Longrightarrow> w_txnid w' = w_txnid w \<and> scanned (w_phase w') = None"
    "loose_step pg w = Some w' \<Longrightarrow> w_txnid w' = w_txnid w \<and> scanned (w_phase w') = None"
    "giveback_step pg w = Some w' \<Longrightarrow> w_txnid w' = w_txnid w \<and> scanned (w_phase w') = None"
    "free_step pg w = Some w' \<Longrightarrow> w_txnid w' = w_txnid w \<and> scanned (w_phase w') = None"
    "save_step low w = Some w' \<Longrightarrow> w_txnid w' = w_txnid w \<and> scanned (w_phase w') = None"
  using assms by (auto simp: record_step_def alloc_step_def touch_step_def loose_step_def giveback_step_def free_step_def save_step_def
      scanned_def Let_def bind_eq_Some_conv split: list.splits if_splits)

lemma oldest_same:
  assumes o: "oldest_ok s" and w: "wtxn s = Some w" "w_txnid w' = w_txnid w" "scanned (w_phase w') = None"
    and s': "pcs s' = pcs s" "mti_txnid s' = mti_txnid s" "oldest_used s' = oldest_used s" "me_pgoldest s' = me_pgoldest s" "wtxn s' = Some w'"
  shows "oldest_ok s'"
  using oldest_okD [OF o] w unfolding oldest_ok_def s' by auto

lemma oldest_working:
  assumes o: "oldest_ok s" and a: "working f s = Some s'"
    and f: "\<And>w w'. w_phase w = Work \<Longrightarrow> f w = Some w' \<Longrightarrow> w_txnid w' = w_txnid w \<and> scanned (w_phase w') = None"
  shows "oldest_ok s'"
proof -
  obtain w w' where w: "wtxn s = Some w" "w_phase w = Work" "f w = Some w'" "s' = s\<lparr>wtxn := Some w'\<rparr>" by (rule working_cases [OF a])
  show ?thesis using f [OF w(2,3)] by (intro oldest_same [OF o w(1)]) (simp_all add: w(4))
qed

lemma oldest_scan:
  assumes o: "oldest_ok s" and t: "table_ok s" and w: "wtxn s = Some w" and a: "oldest_step w s = Some s'"
  shows "oldest_ok s'"
proof -
  note d = oldest_okD [OF o]
  have T: "mti_txnid s < - 2" "w_txnid w = mti_txnid s + 1" using d(4) [OF w] by auto
  have own: "mr_pid (mti_readers s j) \<noteq> 0" "j < mti_numreaders s" "mr_txnid (mti_readers s j) = k" if "protects (pcs s th) = Some (j, k)" for th j k
    using table_okD(2) [OF t protects_owns [OF that]] table_okD(7) [OF t that] by auto
  show ?thesis
  proof (cases "w_phase w")
    case Work
    then have s': "s' = s\<lparr>wtxn := Some (w\<lparr>w_phase := Scan (mti_numreaders s) (mti_txnid s)\<rparr>)\<rparr>" using a T by (simp add: oldest_step_def)
    show ?thesis unfolding oldest_ok_def s' using d(1-4) T own(2) by (auto simp: scanned_def)
  next
    case (Scan i old)
    note sc = d(5,6) [OF w, of i old, unfolded scanned_def Scan, simplified]
    show ?thesis
    proof (cases i)
      case 0
      then have s': "s' = s\<lparr>wtxn := Some (w\<lparr>w_phase := Work\<rparr>), me_pgoldest := (me_pgoldest s)(w_env w := old), oldest_used := max old (oldest_used s)\<rparr>"
        using a Scan by (simp add: oldest_step_def)
      have "me_pgoldest s e \<le> max old (oldest_used s)" for e using d(2) [of e] by (simp add: le_max_iff_disj)
      then show ?thesis unfolding oldest_ok_def s' using d(1,3) sc T 0 by (auto simp: scanned_def)
    next
      case (Suc j)
      show ?thesis
      proof (cases "mr_pid (mti_readers s j) \<noteq> 0")
        case True
        then have s': "s' = s\<lparr>wtxn := Some (w\<lparr>w_phase := Scan_Id j old\<rparr>)\<rparr>" using a Scan Suc by (simp add: oldest_step_def)
        show ?thesis unfolding oldest_ok_def s' using d(1-3) sc T Suc by (auto simp: scanned_def)
      next
        case False
        then have s': "s' = s\<lparr>wtxn := Some (w\<lparr>w_phase := Scan j old\<rparr>)\<rparr>" using a Scan Suc by (simp add: oldest_step_def)
        have "k < j \<or> old \<le> t" if "protects (pcs s th) = Some (k, t)" for th k t
          using sc(2) [OF that] own(1) [OF that] False Suc by (cases "k = j") auto
        then show ?thesis unfolding oldest_ok_def s' using d(1-3) sc(1) T by (auto simp: scanned_def)
      qed
    qed
  next
    case (Scan_Id i old)
    note sc = d(5,6) [OF w, of "i + 1" old, unfolded scanned_def Scan_Id, simplified]
    define new where "new = (if old > mr_txnid (mti_readers s i) then mr_txnid (mti_readers s i) else old)"
    have s': "s' = s\<lparr>wtxn := Some (w\<lparr>w_phase := Scan i new\<rparr>)\<rparr>" using a Scan_Id by (simp add: oldest_step_def new_def)
    have "new \<le> old" "new \<le> mr_txnid (mti_readers s i)" by (auto simp: new_def)
    moreover from this have "k < i \<or> new \<le> t" if "protects (pcs s th) = Some (k, t)" for th k t
      using sc(2) [OF that] own(3) [OF that] by (cases "k = i") (auto intro: order_trans)
    ultimately show ?thesis unfolding oldest_ok_def s' using d(1-3) sc(1) T by (auto simp: scanned_def intro: order_trans)
  qed (use a in \<open>simp_all add: oldest_step_def\<close>)
qed

lemma oldest_act:
  assumes o: "oldest_ok s" and t: "table_ok s" and a: "act c a s = Some s'"
  shows "oldest_ok s'"
proof (cases "reads a")
  case True
  then show ?thesis using oldest_reader [OF o a] by simp
next
  case False
  note d = oldest_okD [OF o]
  show ?thesis
  proof (cases a)
    case (Begin e)
    then have "s' = s\<lparr>wtxn := Some (new_writer e s)\<rparr>" "mti_txnid s < - 2" using a by (auto simp: write_begin_def split: if_splits)
    then show ?thesis unfolding oldest_ok_def using d(1-3) by (auto simp: scanned_def new_writer_def Let_def)
  next
    case Oldest
    then show ?thesis using a oldest_scan [OF o t] by (auto simp: bind_eq_Some_conv)
  next
    case (Write pg x)
    then obtain w where "wtxn s = Some w" "s' = s\<lparr>sh_file := (sh_file s)(pg := x)\<rparr>" using a by (auto simp: bind_eq_Some_conv split: if_splits)
    then show ?thesis using o by (simp add: oldest_ok_def)
  next
    case (Flush ct)
    then obtain w h where "wtxn s = Some w" "s' = s\<lparr>wtxn := Some (w\<lparr>w_phase := Storing 0, w_commit := ct\<rparr>), history := h\<rparr>"
      using a by (auto simp: bind_eq_Some_conv split: if_splits)
    then show ?thesis by (intro oldest_same [OF o, of w "w\<lparr>w_phase := Storing 0, w_commit := ct\<rparr>"]) (simp_all add: scanned_def)
  next
    case Meta
    then obtain w where w: "wtxn s = Some w" and m: "meta_step c w s = Some s'" using a by (auto simp: bind_eq_Some_conv)
    then obtain k where k: "w_phase w = Storing k" by (cases "w_phase w") (auto simp: meta_step_def)
    show ?thesis
    proof (cases "k < 5")
      case True
      then obtain ms where "s' = s\<lparr>sh_metas := ms, wtxn := Some (w\<lparr>w_phase := Storing (k + 1)\<rparr>)\<rparr>"
        using m k by (auto simp: meta_step_def Let_def bind_eq_Some_conv)
      then show ?thesis by (intro oldest_same [OF o w, of "w\<lparr>w_phase := Storing (k + 1)\<rparr>"]) (simp_all add: scanned_def)
    next
      case False
      then have s': "s' = s\<lparr>mti_txnid := w_txnid w, wtxn := None\<rparr>" using m k by (simp add: meta_step_def)
      have T: "mti_txnid s < mti_txnid s + 1" "w_txnid w = mti_txnid s + 1" using d(4) [OF w] succ_txn(1) by auto
      have "v \<le> mti_txnid s \<Longrightarrow> v \<le> w_txnid w" for v using T by simp
      then show ?thesis unfolding oldest_ok_def s' using d(1-3) by auto
    qed
  next
    case Abort
    then have "s' = s\<lparr>wtxn := None\<rparr>" using a by (auto simp: bind_eq_Some_conv split: if_splits)
    then show ?thesis using d(1-3) unfolding oldest_ok_def by auto
  qed ((use a False in \<open>simp_all add: reads_def\<close>), (erule oldest_working [OF o], erule tree_frame, assumption)+)
qed

section \<open>The snapshots\<close>

text \<open>The newest snapshot whose root can be read: a commit makes it so when it stores the root of the main database.\<close>

definition newest :: "'c shared \<Rightarrow> u64" where
  "newest s = (case wtxn s of
     Some w \<Rightarrow> (case w_phase w of Storing k \<Rightarrow> if 3 \<le> k then w_txnid w else mti_txnid s | _ \<Rightarrow> mti_txnid s)
   | None \<Rightarrow> mti_txnid s)"

lemma newest_bounds:
  assumes "oldest_ok s"
  shows "mti_txnid s \<le> newest s" "v \<le> newest s \<Longrightarrow> v \<le> mti_txnid s \<or> v = newest s"
    "wtxn s = Some w \<Longrightarrow> newest s \<noteq> mti_txnid s \<Longrightarrow> newest s = w_txnid w \<and> (\<exists>k. w_phase w = Storing k \<and> 3 \<le> k)"
    "wtxn s = None \<Longrightarrow> newest s = mti_txnid s"
proof -
  have t: "mti_txnid s < w_txnid w" "v \<le> w_txnid w \<longleftrightarrow> v \<le> mti_txnid s \<or> v = w_txnid w" if "wtxn s = Some w" for w v
    using oldest_okD(4) [OF assms that] succ_txn by auto
  show "mti_txnid s \<le> newest s" using t(1) by (auto simp: newest_def split: option.splits phase.splits)
  show "v \<le> newest s \<Longrightarrow> v \<le> mti_txnid s \<or> v = newest s" using t(2) by (auto simp: newest_def split: option.splits phase.splits if_splits)
  show "wtxn s = Some w \<Longrightarrow> newest s \<noteq> mti_txnid s \<Longrightarrow> newest s = w_txnid w \<and> (\<exists>k. w_phase w = Storing k \<and> 3 \<le> k)"
    by (auto simp: newest_def split: phase.splits if_splits)
  show "wtxn s = None \<Longrightarrow> newest s = mti_txnid s" by (simp add: newest_def)
qed

lemma working_newest:
  assumes "working f s = Some s'" "\<And>w w'. w_phase w = Work \<Longrightarrow> f w = Some w' \<Longrightarrow> w_txnid w' = w_txnid w \<and> (w_phase w' = Work \<or> w_phase w' = Saved)"
  shows "newest s' = newest s" "history s' = history s" "sh_metas s' = sh_metas s" "mti_txnid s' = mti_txnid s"
proof -
  obtain w w' where w: "wtxn s = Some w" "w_phase w = Work" "f w = Some w'" "s' = s\<lparr>wtxn := Some w'\<rparr>" by (rule working_cases [OF assms(1)])
  show "newest s' = newest s" "history s' = history s" "sh_metas s' = sh_metas s" "mti_txnid s' = mti_txnid s"
    using assms(2) [OF w(2,3)] w by (auto simp: newest_def)
qed

lemma tree_phase:
  assumes "w_phase w = Work"
  shows "record_step old w = Some w' \<Longrightarrow> w_txnid w' = w_txnid w \<and> (w_phase w' = Work \<or> w_phase w' = Saved)"
    "alloc_step c pg w = Some w' \<Longrightarrow> w_txnid w' = w_txnid w \<and> (w_phase w' = Work \<or> w_phase w' = Saved)"
    "touch_step c pg pn w = Some w' \<Longrightarrow> w_txnid w' = w_txnid w \<and> (w_phase w' = Work \<or> w_phase w' = Saved)"
    "loose_step pg w = Some w' \<Longrightarrow> w_txnid w' = w_txnid w \<and> (w_phase w' = Work \<or> w_phase w' = Saved)"
    "giveback_step pg w = Some w' \<Longrightarrow> w_txnid w' = w_txnid w \<and> (w_phase w' = Work \<or> w_phase w' = Saved)"
    "free_step pg w = Some w' \<Longrightarrow> w_txnid w' = w_txnid w \<and> (w_phase w' = Work \<or> w_phase w' = Saved)"
    "save_step low w = Some w' \<Longrightarrow> w_txnid w' = w_txnid w \<and> (w_phase w' = Work \<or> w_phase w' = Saved)"
  using assms by (auto simp: record_step_def alloc_step_def touch_step_def loose_step_def giveback_step_def free_step_def save_step_def
      Let_def bind_eq_Some_conv split: list.splits if_splits)

text \<open>A snapshot that can be read is never changed, and stays one that can be read.\<close>

lemma history_act:
  assumes o: "oldest_ok s" and a: "act c a s = Some s'" and v: "v \<le> newest s"
  shows "history s' v = history s v \<and> v \<le> newest s'"
proof (cases "reads a")
  case True
  note f = reader_frame [OF a True]
  show ?thesis using v unfolding newest_def f by simp
next
  case False
  note T = oldest_okD(4) [OF o]
  have lt: "mti_txnid s < w_txnid w" if "wtxn s = Some w" for w using T [OF that] succ_txn(1) by auto
  show ?thesis
  proof (cases a)
    case (Begin e)
    then show ?thesis using a v by (auto simp: write_begin_def newest_def new_writer_def Let_def split: if_splits)
  next
    case Oldest
    then obtain w where "wtxn s = Some w" "oldest_step w s = Some s'" using a by (auto simp: bind_eq_Some_conv)
    then show ?thesis using v by (cases "w_phase w") (auto simp: oldest_step_def newest_def split: if_splits)
  next
    case (Write pg x)
    then show ?thesis using a v by (auto simp: newest_def bind_eq_Some_conv split: if_splits)
  next
    case (Flush ct)
    then obtain w h where w: "wtxn s = Some w" "w_phase w = Saved" "s' = s\<lparr>wtxn := Some (w\<lparr>w_phase := Storing 0, w_commit := ct\<rparr>), history := (history s)(w_txnid w := h)\<rparr>"
      using a by (auto simp: bind_eq_Some_conv split: if_splits)
    then have "v \<le> mti_txnid s" using v by (simp add: newest_def)
    then show ?thesis using w lt [OF w(1)] by (auto simp: newest_def)
  next
    case Meta
    then obtain w where w: "wtxn s = Some w" and m: "meta_step c w s = Some s'" using a by (auto simp: bind_eq_Some_conv)
    then obtain k where k: "w_phase w = Storing k" by (cases "w_phase w") (auto simp: meta_step_def)
    show ?thesis
    proof (cases "k < 5")
      case True
      then show ?thesis using m k w v lt [OF w] by (auto simp: meta_step_def Let_def bind_eq_Some_conv newest_def split: if_splits intro: order_trans less_imp_le)
    next
      case False
      then show ?thesis using m k w v by (auto simp: meta_step_def newest_def)
    qed
  next
    case Abort
    then show ?thesis using a v by (auto simp: bind_eq_Some_conv newest_def split: if_splits)
  qed ((use a v False in \<open>simp_all add: reads_def\<close>), (frule working_newest(1), erule tree_phase, assumption, frule working_newest(2), erule tree_phase, assumption, simp)+)
qed

text \<open>The record of the main database a reader has copied, or will copy.\<close>

abbreviation (input) meta_of :: "u64 \<Rightarrow> nat" where "meta_of t \<equiv> unat (t AND 1)"

definition viewed :: "'c shared \<Rightarrow> nat \<Rightarrow> (u64 \<times> tree_db) option" where
  "viewed s th = (case pcs s th of Checked i t \<Rightarrow> Some (t, mm_main (sh_metas s ! meta_of t)) | Running i t db \<Rightarrow> Some (t, db) | _ \<Rightarrow> None)"

definition meta_ok :: "'c shared \<Rightarrow> bool" where
  "meta_ok s \<longleftrightarrow> length (sh_metas s) = 2 \<and>
     mm_main (sh_metas s ! meta_of (mti_txnid s)) = sn_main (history s (mti_txnid s)) \<and>
     (\<forall>w k. wtxn s = Some w \<and> w_phase w = Storing k \<longrightarrow> wt_main (w_commit w) = sn_main (history s (w_txnid w)) \<and>
        (3 \<le> k \<longrightarrow> mm_main (sh_metas s ! meta_of (w_txnid w)) = wt_main (w_commit w))) \<and>
     (\<forall>th t db. viewed s th = Some (t, db) \<longrightarrow> (\<exists>v. t \<le> v \<and> v \<le> newest s \<and> db = sn_main (history s v)))"

lemma meta_okD:
  assumes "meta_ok s"
  shows "length (sh_metas s) = 2" "mm_main (sh_metas s ! meta_of (mti_txnid s)) = sn_main (history s (mti_txnid s))"
    "wtxn s = Some w \<Longrightarrow> w_phase w = Storing k \<Longrightarrow> wt_main (w_commit w) = sn_main (history s (w_txnid w))"
    "wtxn s = Some w \<Longrightarrow> w_phase w = Storing k \<Longrightarrow> 3 \<le> k \<Longrightarrow> mm_main (sh_metas s ! meta_of (w_txnid w)) = wt_main (w_commit w)"
    "viewed s th = Some (t, db) \<Longrightarrow> \<exists>v. t \<le> v \<and> v \<le> newest s \<and> db = sn_main (history s v)"
  using assms unfolding meta_ok_def by blast+

lemma viewed_cong: "pcs s' th = pcs s th \<Longrightarrow> sh_metas s' = sh_metas s \<Longrightarrow> viewed s' th = viewed s th"
  unfolding viewed_def by (cases "pcs s th") auto

lemma viewed_protects: "viewed s th = Some (t, db) \<Longrightarrow> \<exists>i. protects (pcs s th) = Some (i, t)"
  by (auto simp: viewed_def split: reader.splits)

lemma other_reader:
  assumes "act c a s = Some s'" "reads a" "a \<notin> {Renew th, End th, Release th}"
  shows "pcs s' th = pcs s th"
proof -
  have r: "pcs s' th = pcs s th" if "renew_step c th' s = Some s'" "th' \<noteq> th" for th'
    using that by (cases "pcs s th'") (auto simp: renew_step_def goto_def set_slot_def bind_eq_Some_conv split: if_splits)
  have e: "pcs s' th = pcs s th" if "txn_end th' s = Some s' \<or> slot_release th' s = Some s'" "th' \<noteq> th" for th'
    using that by (cases "pcs s th'") (auto simp: txn_end_def slot_release_def goto_def set_slot_def)
  show ?thesis using assms r e by (cases a) (auto simp: reads_def)
qed

text \<open>What a reader views after one of its accesses it viewed before, or is the newest committed snapshot.\<close>

lemma viewed_renew:
  assumes m: "meta_ok s" and r: "renew_step c th s = Some s'" and v: "viewed s' th = Some (t, db)"
  shows "viewed s th = Some (t, db) \<or> t = mti_txnid s \<and> db = sn_main (history s (mti_txnid s))"
proof -
  have "\<exists>i. pcs s th = Stored i \<or> (\<exists>t. pcs s th = Checked i t)" using r v
    by (cases "pcs s th") (auto simp: renew_step_def goto_def set_slot_def viewed_def split: if_splits)
  then consider i where "pcs s th = Stored i" | i k where "pcs s th = Checked i k" by blast
  then show ?thesis
  proof cases
    case 1
    then show ?thesis using r v meta_okD(2) [OF m] by (auto simp: renew_step_def goto_def viewed_def split: if_splits)
  next
    case 2
    then show ?thesis using r v by (auto simp: renew_step_def goto_def viewed_def bind_eq_Some_conv peek_def split: if_splits)
  qed
qed

lemma viewed_end: "txn_end th s = Some s' \<or> slot_release th s = Some s' \<Longrightarrow> viewed s' th = None"
  by (cases "pcs s th") (auto simp: txn_end_def slot_release_def goto_def set_slot_def viewed_def)

lemma viewed_reader:
  assumes m: "meta_ok s" and a: "act c a s = Some s'" "reads a" and v: "viewed s' th = Some (t, db)"
  shows "viewed s th = Some (t, db) \<or> t = mti_txnid s \<and> db = sn_main (history s (mti_txnid s))"
proof (cases "a \<in> {Renew th, End th, Release th}")
  case True
  then show ?thesis using a(1) viewed_renew [OF m _ v] viewed_end [of th s s'] v by auto
next
  case False
  then show ?thesis using viewed_cong [OF other_reader [OF a False] reader_frame(2) [OF a]] v by simp
qed

lemma meta_reader:
  assumes m: "meta_ok s" and o: "oldest_ok s" and a: "act c a s = Some s'" "reads a"
  shows "meta_ok s'"
proof -
  note f = reader_frame [OF a] and d = meta_okD [OF m]
  have top: "newest s' = newest s" unfolding newest_def f ..
  show ?thesis unfolding meta_ok_def f top
  proof (intro conjI allI impI)
    fix th t db assume v: "viewed s' th = Some (t, db)"
    show "\<exists>v. t \<le> v \<and> v \<le> newest s \<and> db = sn_main (history s v)" using viewed_reader [OF m a v] d(5) newest_bounds(1) [OF o] by blast
  qed (use d in auto)
qed

text \<open>The writer keeps the views of the readers as long as it keeps the meta pages.\<close>

lemma meta_keep:
  assumes m: "meta_ok s" and o: "oldest_ok s" and a: "act c a s = Some s'" "\<not> reads a"
    and s': "sh_metas s' = sh_metas s" "mti_txnid s' = mti_txnid s"
    and ph: "\<And>w k. wtxn s' = Some w \<Longrightarrow> w_phase w = Storing k \<Longrightarrow> k = 0 \<and> wt_main (w_commit w) = sn_main (history s' (w_txnid w))"
  shows "meta_ok s'"
proof -
  note d = meta_okD [OF m] and h = history_act [OF o a(1)] and f = writer_frame [OF a]
  have "viewed s' = viewed s" using viewed_cong [OF _ s'(1)] f(4) by auto
  moreover have "sn_main (history s' (mti_txnid s)) = sn_main (history s (mti_txnid s))" using h newest_bounds(1) [OF o] by simp
  ultimately show ?thesis unfolding meta_ok_def s'
  proof (intro conjI allI impI)
    fix th t db assume "viewed s' th = Some (t, db)"
    then obtain v where "t \<le> v" "v \<le> newest s" "db = sn_main (history s v)" using d(5) \<open>viewed s' = viewed s\<close> by metis
    then show "\<exists>v. t \<le> v \<and> v \<le> newest s' \<and> db = sn_main (history s' v)" using h [of v] by auto
  next
    fix w k assume "wtxn s' = Some w \<and> w_phase w = Storing k" "3 \<le> k"
    then show "mm_main (sh_metas s ! meta_of (w_txnid w)) = wt_main (w_commit w)" using ph [of w k] by simp
  qed (use d(1,2) ph in auto)
qed

lemma meta_keep_phase:
  assumes m: "meta_ok s" and o: "oldest_ok s" and a: "act c a s = Some s'" "\<not> reads a"
    and s': "sh_metas s' = sh_metas s" "mti_txnid s' = mti_txnid s"
    and ph: "wtxn s' = None \<or> (\<exists>w. wtxn s' = Some w \<and> (\<forall>k. w_phase w \<noteq> Storing k))"
  shows "meta_ok s'"
  using ph by (intro meta_keep [OF m o a s']) auto

lemma fs_main:
  "k < 5 \<Longrightarrow> mm_main ((meta_stores ms ct lp t ! k) mp) = (if k = 2 then wt_main ct else mm_main mp)"
  by (auto simp: meta_stores_def numeral_eq_Suc less_Suc_eq)

lemma meta_store:
  assumes m: "meta_ok s" and o: "oldest_ok s" and a: "act c Meta s = Some s'"
  shows "meta_ok s'"
proof -
  note d = meta_okD [OF m] and h = history_act [OF o a] and f = writer_frame [OF a]
  have nr: "\<not> reads Meta" by (simp add: reads_def)
  note f = f [OF nr]
  obtain w where w: "wtxn s = Some w" and ms: "meta_step c w s = Some s'" using a by (auto simp: bind_eq_Some_conv)
  then obtain k where k: "w_phase w = Storing k" by (cases "w_phase w") (auto simp: meta_step_def)
  have T: "mti_txnid s < - 2" "w_txnid w = mti_txnid s + 1" using oldest_okD(4) [OF o w] by auto
  have par: "meta_of (w_txnid w) = 1 - meta_of (mti_txnid s)" "meta_of (mti_txnid s) < 2" using toggle_next [of "mti_txnid s"] T(2) by simp_all
  have neq: "meta_of (mti_txnid s) \<noteq> 1 - meta_of (mti_txnid s)" using par(2) by arith
  show ?thesis
  proof (cases "k < 5")
    case True
    obtain mp fs where fs: "fs = meta_stores mp (w_commit w) (w_next w - 1) (w_txnid w)"
      and s': "s' = s\<lparr>sh_metas := (sh_metas s)[meta_of (w_txnid w) := (fs ! k) (sh_metas s ! meta_of (w_txnid w))], wtxn := Some (w\<lparr>w_phase := Storing (k + 1)\<rparr>)\<rparr>"
      using ms k True by (auto simp: meta_step_def Let_def bind_eq_Some_conv peek_def split: if_splits)
    have main: "mm_main (sh_metas s' ! j) = (if j = meta_of (w_txnid w) \<and> k = 2 then wt_main (w_commit w) else mm_main (sh_metas s ! j))" for j
      using d(1) par fs_main [OF True] by (cases "j = meta_of (w_txnid w)") (auto simp: s' fs nth_list_update)
    have hist: "history s' = history s" "mti_txnid s' = mti_txnid s" "wtxn s' = Some (w\<lparr>w_phase := Storing (k + 1)\<rparr>)" by (simp_all add: s')
    have nw: "newest s' = (if 2 \<le> k then w_txnid w else mti_txnid s)" using hist by (simp add: newest_def)
    show ?thesis unfolding meta_ok_def hist(1,2)
    proof (intro conjI allI impI)
      show "length (sh_metas s') = 2" using d(1) by (simp add: s')
      show "mm_main (sh_metas s' ! meta_of (mti_txnid s)) = sn_main (history s (mti_txnid s))" using main d(2) par neq by simp
      fix w2 k2 assume w2: "wtxn s' = Some w2 \<and> w_phase w2 = Storing k2"
      then show "wt_main (w_commit w2) = sn_main (history s (w_txnid w2))" using d(3) [OF w k] hist(3) by auto
      assume "3 \<le> k2"
      then show "mm_main (sh_metas s' ! meta_of (w_txnid w2)) = wt_main (w_commit w2)"
        using w2 hist(3) main [of "meta_of (w_txnid w)"] d(4) [OF w k] by (cases "k = 2") auto
    next
      fix th t db assume v: "viewed s' th = Some (t, db)"
      show "\<exists>v. t \<le> v \<and> v \<le> newest s' \<and> db = sn_main (history s v)"
      proof (cases "viewed s th = Some (t, db)")
        case True
        then show ?thesis using d(5) h by (metis hist(1))
      next
        case False
        then obtain i where p: "pcs s th = Checked i t" and db: "db = mm_main (sh_metas s' ! meta_of t)" "db \<noteq> mm_main (sh_metas s ! meta_of t)"
          using v by (cases "pcs s th") (auto simp: viewed_def f(4))
        then have k2: "k = 2" "db = wt_main (w_commit w)" using main by (auto split: if_splits)
        have "t \<le> mti_txnid s" using oldest_okD(3) [OF o, of th i t] p by simp
        then have "t \<le> w_txnid w" "newest s' = w_txnid w" using nw k2 T succ_txn(2) [OF T(1)] by auto
        then show ?thesis using k2(2) d(3) [OF w k] by (intro exI [of _ "w_txnid w"]) simp
      qed
    qed
  next
    case False
    then have s': "s' = s\<lparr>mti_txnid := w_txnid w, wtxn := None\<rparr>" using ms k by (simp add: meta_step_def)
    have "viewed s' = viewed s" using viewed_cong [of s' _ s] by (simp add: s' fun_eq_iff)
    moreover have "newest s' = newest s" using w k False by (simp add: newest_def s')
    ultimately show ?thesis unfolding meta_ok_def using d(1) d(3,4) [OF w k] d(5) False by (simp add: s')
  qed
qed

lemma meta_act:
  assumes m: "meta_ok s" and o: "oldest_ok s" and a: "act c a s = Some s'"
  shows "meta_ok s'"
proof (cases "reads a")
  case True
  then show ?thesis using meta_reader [OF m o a] by simp
next
  case False
  note keep = meta_keep_phase [OF m o a False]
  have tree: "meta_ok s'" if wk: "working f s = Some s'" and ph: "\<And>w w'. w_phase w = Work \<Longrightarrow> f w = Some w' \<Longrightarrow> w_txnid w' = w_txnid w \<and> (w_phase w' = Work \<or> w_phase w' = Saved)" for f
  proof (rule keep)
    show "sh_metas s' = sh_metas s" "mti_txnid s' = mti_txnid s" using working_newest(3,4) [OF wk ph] by blast+
    obtain w w' where w: "wtxn s = Some w" "w_phase w = Work" "f w = Some w'" "s' = s\<lparr>wtxn := Some w'\<rparr>" by (rule working_cases [OF wk])
    show "wtxn s' = None \<or> (\<exists>w. wtxn s' = Some w \<and> (\<forall>k. w_phase w \<noteq> Storing k))" using ph [OF w(2,3)] w(4) by auto
  qed
  show ?thesis
  proof (cases a)
    case (Begin e)
    then show ?thesis using a by (intro keep) (auto simp: write_begin_def new_writer_def Let_def split: if_splits)
  next
    case Oldest
    then obtain w where w: "wtxn s = Some w" "oldest_step w s = Some s'" using a by (auto simp: bind_eq_Some_conv)
    then show ?thesis by (cases "w_phase w"; intro keep) (auto simp: oldest_step_def split: if_splits)
  next
    case (Write pg x)
    then show ?thesis using a by (intro keep) (auto simp: bind_eq_Some_conv split: if_splits)
  next
    case (Flush ct)
    then show ?thesis using a by (intro meta_keep [OF m o a False]) (auto simp: bind_eq_Some_conv split: if_splits)
  next
    case Meta
    then show ?thesis using meta_store [OF m o] a by simp
  next
    case Abort
    then show ?thesis using a by (intro keep) (auto simp: bind_eq_Some_conv split: if_splits)
  qed ((use a False in \<open>simp_all add: reads_def\<close>), (erule tree, erule tree_phase, assumption)+)
qed

end
