(* ===== verification/Lmdb_Mvcc.thy ===== *)
theory Lmdb_Mvcc
  imports Lmdb_Txn
begin

text \<open>
  Snapshot isolation of the embedded database: the pages of a snapshot that a reader may have are not written
  before the reader ends its transaction. The invariant is about where the pages of the writer are, and about
  the records of free pages; the theorem is about every run from a new database.
\<close>

section \<open>The pages\<close>

lemma rec_pages_simps [simp]:
  "rec_pages [] = {}" "rec_pages (r # rs) = snd r \<union> rec_pages rs" "rec_pages (rs @ rs') = rec_pages rs \<union> rec_pages rs'"
  by (auto simp: rec_pages_def)

lemma apart_Cons: "apart (r # rs) \<longleftrightarrow> snd r \<inter> rec_pages rs = {} \<and> apart rs"
  by (auto simp: rec_pages_def)

lemma apart_append: "apart (rs @ rs') \<longleftrightarrow> apart rs \<and> apart rs' \<and> rec_pages rs \<inter> rec_pages rs' = {}"
proof (induction rs)
  case (Cons r rs)
  show ?case by (simp only: append_Cons apart_Cons Cons.IH rec_pages_simps) blast
qed simp

declare apart.simps(2) [simp del]

text \<open>The snapshots that a reader may have.\<close>

definition live :: "'c shared \<Rightarrow> u64 \<Rightarrow> bool" where
  "live s v \<longleftrightarrow> oldest_used s \<le> v \<and> v \<le> mti_txnid s"

abbreviation (input) pages_of :: "'c shared \<Rightarrow> u64 \<Rightarrow> u64 set" where "pages_of s v \<equiv> sn_pages (history s v)"

text \<open>A record of free pages holds no page of a snapshot that is not older than the record.\<close>

definition recs_ok :: "'c shared \<Rightarrow> (u64 \<times> u64 set) list \<Rightarrow> bool" where
  "recs_ok s rs \<longleftrightarrow> (\<forall>v r. live s v \<and> r \<in> set rs \<and> fst r \<le> v \<longrightarrow> snd r \<inter> pages_of s v = {})"

text \<open>The pages the writer knows of are its trees, the free pages it has fetched, its loose pages, the pages it has
  freed and the records it has not fetched, without overlap.\<close>

definition parts :: "writer \<Rightarrow> (u64 \<times> u64 set) list" where
  "parts w = (0, w_pages w) # (0, w_pghead w) # (0, w_loose w) # (0, w_free w) # w_recs w"

definition below :: "u64 \<Rightarrow> u64 set \<Rightarrow> bool" where
  "below n ps \<longleftrightarrow> (\<forall>p \<in> ps. p < n)"

lemma below_simps [simp]: "below n {}" "below n (A \<union> B) \<longleftrightarrow> below n A \<and> below n B" "below n (insert p A) \<longleftrightarrow> p < n \<and> below n A"
  by (auto simp: below_def)

lemma below_mono: "below n A \<Longrightarrow> B \<subseteq> A \<Longrightarrow> n \<le> m \<Longrightarrow> below m B"
  unfolding below_def by (meson less_le_trans subsetD)

definition writer_ok :: "'c shared \<Rightarrow> writer \<Rightarrow> bool" where
  "writer_ok s w \<longleftrightarrow> apart (parts w) \<and> below (w_next w) (rec_pages (parts w)) \<and> recs_ok s (w_recs w) \<and> w_loose w \<subseteq> w_own w \<and>
     (\<forall>v. live s v \<longrightarrow> w_own w \<inter> pages_of s v = {} \<and> w_pghead w \<inter> pages_of s v = {} \<and> below (w_next w) (pages_of s v))"

definition pages_ok :: "'c shared \<Rightarrow> bool" where
  "pages_ok s \<longleftrightarrow>
     (let sn = history s (mti_txnid s) in
      (\<forall>v. live s v \<longrightarrow> (\<forall>p \<in> pages_of s v. sh_file s p = sn_data (history s v) p) \<and> below (sn_next sn) (pages_of s v)) \<and>
      recs_ok s (sn_recs sn) \<and> apart ((0, sn_pages sn) # sn_recs sn) \<and> below (sn_next sn) (rec_pages (sn_recs sn))) \<and>
     (\<forall>w. wtxn s = Some w \<longrightarrow> writer_ok s w \<and>
        (\<forall>k. w_phase w = Storing k \<longrightarrow>
           (let sn = history s (w_txnid w) in sn_pages sn = w_pages w \<and> sn_recs sn = w_recs w \<and> sn_next sn = w_next w \<and>
             (\<forall>p \<in> w_pages w. sh_file s p = sn_data sn p))))"

lemma pages_okD:
  assumes "pages_ok s"
  shows "live s v \<Longrightarrow> p \<in> pages_of s v \<Longrightarrow> sh_file s p = sn_data (history s v) p"
    "live s v \<Longrightarrow> below (sn_next (history s (mti_txnid s))) (pages_of s v)"
    "recs_ok s (sn_recs (history s (mti_txnid s)))" "apart ((0, pages_of s (mti_txnid s)) # sn_recs (history s (mti_txnid s)))"
    "below (sn_next (history s (mti_txnid s))) (rec_pages (sn_recs (history s (mti_txnid s))))"
    "wtxn s = Some w \<Longrightarrow> writer_ok s w"
    "wtxn s = Some w \<Longrightarrow> w_phase w = Storing k \<Longrightarrow> pages_of s (w_txnid w) = w_pages w \<and> sn_recs (history s (w_txnid w)) = w_recs w \<and>
       sn_next (history s (w_txnid w)) = w_next w \<and> (\<forall>p \<in> w_pages w. sh_file s p = sn_data (history s (w_txnid w)) p)"
  using assms unfolding pages_ok_def Let_def by blast+

lemma writer_okD:
  assumes "writer_ok s w"
  shows "apart (w_recs w)" "recs_ok s (w_recs w)" "w_loose w \<subseteq> w_own w"
    "w_pages w \<inter> w_pghead w = {}" "w_pages w \<inter> w_loose w = {}" "w_pages w \<inter> w_free w = {}" "w_pages w \<inter> rec_pages (w_recs w) = {}"
    "w_pghead w \<inter> w_loose w = {}" "w_pghead w \<inter> w_free w = {}" "w_pghead w \<inter> rec_pages (w_recs w) = {}"
    "w_loose w \<inter> w_free w = {}" "w_loose w \<inter> rec_pages (w_recs w) = {}" "w_free w \<inter> rec_pages (w_recs w) = {}"
    "below (w_next w) (w_pages w)" "below (w_next w) (w_pghead w)" "below (w_next w) (w_loose w)" "below (w_next w) (w_free w)" "below (w_next w) (rec_pages (w_recs w))"
    "live s v \<Longrightarrow> w_own w \<inter> pages_of s v = {}" "live s v \<Longrightarrow> w_pghead w \<inter> pages_of s v = {}" "live s v \<Longrightarrow> below (w_next w) (pages_of s v)"
  using assms by (auto simp: writer_ok_def parts_def apart_Cons)

lemma writer_okI:
  assumes "apart (w_recs w)" "recs_ok s (w_recs w)" "w_loose w \<subseteq> w_own w"
    "w_pages w \<inter> w_pghead w = {}" "w_pages w \<inter> w_loose w = {}" "w_pages w \<inter> w_free w = {}" "w_pages w \<inter> rec_pages (w_recs w) = {}"
    "w_pghead w \<inter> w_loose w = {}" "w_pghead w \<inter> w_free w = {}" "w_pghead w \<inter> rec_pages (w_recs w) = {}"
    "w_loose w \<inter> w_free w = {}" "w_loose w \<inter> rec_pages (w_recs w) = {}" "w_free w \<inter> rec_pages (w_recs w) = {}"
    "below (w_next w) (w_pages w)" "below (w_next w) (w_pghead w)" "below (w_next w) (w_loose w)" "below (w_next w) (w_free w)" "below (w_next w) (rec_pages (w_recs w))"
    "\<And>v. live s v \<Longrightarrow> w_own w \<inter> pages_of s v = {}" "\<And>v. live s v \<Longrightarrow> w_pghead w \<inter> pages_of s v = {}" "\<And>v. live s v \<Longrightarrow> below (w_next w) (pages_of s v)"
  shows "writer_ok s w"
  using assms by (auto simp: writer_ok_def parts_def apart_Cons Int_Un_distrib)

lemma writer_own: "writer_ok s w \<Longrightarrow> live s v \<Longrightarrow> p \<in> w_own w \<union> w_pghead w \<Longrightarrow> p \<notin> pages_of s v"
  using writer_okD(19,20) by blast

lemma below_minus: "below n A \<Longrightarrow> below n (A - B)"
  by (auto simp: below_def)

lemma below_elem: "below n A \<Longrightarrow> p \<in> A \<Longrightarrow> p < n"
  by (auto simp: below_def)

lemma record_ok:
  assumes w: "writer_ok s w" and r: "record_step old w = Some w'" and old: "old \<le> oldest_used s"
  shows "writer_ok s w'"
proof -
  note d = writer_okD [OF w]
  obtain k ps rs where rs: "w_recs w = (k, ps) # rs" "k < old" "w' = w\<lparr>w_pglast := k, w_pghead := w_pghead w \<union> ps, w_recs := rs\<rparr>"
    using r by (auto simp: record_step_def split: list.splits if_splits)
  have live: "ps \<inter> pages_of s v = {}" if "live s v" for v
  proof -
    have "k \<le> v" using that rs(2) old by (auto simp: live_def)
    then show ?thesis using d(2) that rs(1) by (force simp: recs_ok_def)
  qed
  have ro: "recs_ok s rs" using d(2) rs(1) by (auto simp: recs_ok_def)
  have R: "rec_pages (w_recs w) = ps \<union> rec_pages rs" and ap: "ps \<inter> rec_pages rs = {}" "apart rs" using d(1) by (auto simp: rs(1) apart_Cons)
  note d = d [unfolded R]
  show ?thesis unfolding rs(3)
    by (rule writer_okI) (use d ap ro live in \<open>simp_all add: Int_Un_distrib Int_Un_distrib2 Int_commute\<close>)
qed

lemma less_succ: "a < a + 1" if "a < b" for a b :: u64
proof -
  have "unat a < 2 ^ 64 - 1" using that unsigned_less [of b, where ?'a = nat] by (simp add: word_less_nat_alt)
  then show ?thesis by (simp add: word_less_nat_alt unat_word_ariths)
qed

lemma alloc_ok:
  assumes w: "writer_ok s w" and a: "alloc_step c pg w = Some w'"
  shows "writer_ok s w'"
proof -
  note d = writer_okD [OF w]
  note own = writer_own [OF w]
  let ?w = "w\<lparr>w_own := insert pg (w_own w), w_pages := insert pg (w_pages w)\<rparr>"
  consider "pg \<in> w_loose w" "w' = ?w\<lparr>w_loose := w_loose w - {pg}\<rparr>" | "pg \<in> w_pghead w" "w' = ?w\<lparr>w_pghead := w_pghead w - {pg}\<rparr>"
    | "pg = w_next w" "pg < me_maxpg c" "w' = ?w\<lparr>w_next := pg + 1\<rparr>"
    using a by (auto simp: alloc_step_def Let_def split: if_splits)
  then show ?thesis
  proof cases
    case 1
    show ?thesis unfolding 1(2)
      by (rule writer_okI) (use d(1-18,21) own 1(1) below_elem [OF d(16) 1(1)] in \<open>auto simp: below_minus\<close>)
  next
    case 2
    show ?thesis unfolding 2(2)
      by (rule writer_okI) (use d(1-18,21) own 2(1) below_elem [OF d(15) 2(1)] in \<open>auto simp: below_minus\<close>)
  next
    case 3
    have n: "w_next w < w_next w + 1" using 3(1,2) less_succ by blast
    have b: "below (w_next w) A \<Longrightarrow> below (w_next w + 1) A" for A using below_mono [OF _ subset_refl less_imp_le [OF n]] by blast
    have no: "pg \<notin> A" if "below (w_next w) A" for A using that 3(1) by (auto simp: below_def)
    show ?thesis unfolding 3(3)
      by (rule writer_okI) (use d(1-18) own no d(21) 3(1) b n in \<open>auto simp: below_minus\<close>)
  qed
qed

lemma drop_ok:
  assumes w: "writer_ok s w"
  shows "loose_step pg w = Some w' \<Longrightarrow> writer_ok s w'" "giveback_step pg w = Some w' \<Longrightarrow> writer_ok s w'" "free_step pg w = Some w' \<Longrightarrow> writer_ok s w'"
proof -
  note d = writer_okD [OF w]
  note own = writer_own [OF w]
  have pg: "pg < w_next w" if "pg \<in> w_pages w" using below_elem [OF d(14) that] .
  show "writer_ok s w'" if l: "loose_step pg w = Some w'"
  proof -
    have l: "pg \<in> w_pages w" "pg \<in> w_own w" "w' = w\<lparr>w_pages := w_pages w - {pg}, w_loose := insert pg (w_loose w)\<rparr>"
      using l by (auto simp: loose_step_def split: if_splits)
    show ?thesis unfolding l(3)
      by (rule writer_okI) (use d(1-18,21) own l(1,2) pg in \<open>auto simp: below_minus\<close>)
  qed
  show "writer_ok s w'" if l: "giveback_step pg w = Some w'"
  proof -
    have l: "pg \<in> w_pages w" "pg \<in> w_own w" "w' = w\<lparr>w_pages := w_pages w - {pg}, w_own := w_own w - {pg}, w_pghead := insert pg (w_pghead w)\<rparr>"
      using l by (auto simp: giveback_step_def split: if_splits)
    show ?thesis unfolding l(3)
      by (rule writer_okI) (use d(1-18,21) own l(1,2) pg in \<open>auto simp: below_minus\<close>)
  qed
  show "writer_ok s w'" if l: "free_step pg w = Some w'"
  proof -
    have l: "pg \<in> w_pages w" "w' = w\<lparr>w_pages := w_pages w - {pg}, w_free := insert pg (w_free w)\<rparr>"
      using l by (auto simp: free_step_def split: if_splits)
    show ?thesis unfolding l(2)
      by (rule writer_okI) (use d(1-18,21) own l(1) pg in \<open>auto simp: below_minus\<close>)
  qed
qed

lemma touch_ok: "writer_ok s w \<Longrightarrow> touch_step c old new w = Some w' \<Longrightarrow> writer_ok s w'"
  using alloc_ok drop_ok(3) by (force simp: touch_step_def bind_eq_Some_conv split: if_splits)

lemma save_ok:
  assumes w: "writer_ok s w" and a: "save_step low w = Some w'" and t: "mti_txnid s < w_txnid w"
  shows "writer_ok s w'"
proof -
  note d = writer_okD [OF w]
  define head where "head = (if w_pglast w = 0 then {} else w_pghead w \<union> w_loose w)"
  define freed where "freed = (if w_pglast w = 0 then w_free w \<union> w_loose w else w_free w)"
  have low: "apart low" "rec_pages low = head"
    and w': "w' = w\<lparr>w_recs := low @ w_recs w @ (if freed = {} then [] else [(w_txnid w, freed)]), w_pghead := {}, w_loose := {}, w_free := {}, w_phase := Saved\<rparr>"
    using a by (auto simp: save_step_def Let_def head_def freed_def split: if_splits)
  have sub: "head \<subseteq> w_pghead w \<union> w_loose w" "freed \<subseteq> w_free w \<union> w_loose w" by (auto simp: head_def freed_def)
  have dj: "head \<inter> freed = {}" using d(8,9,11) by (auto simp: head_def freed_def)
  have hd: "snd r \<inter> pages_of s v = {}" if "r \<in> set low" "live s v" for r v
  proof -
    have "snd r \<subseteq> head" using that(1) low(2) by (auto simp: rec_pages_def)
    then show ?thesis using sub(1) d(3) d(19,20) [OF that(2)] by blast
  qed
  have new: "\<not> w_txnid w \<le> v" if "live s v" for v using t that by (auto simp: live_def)
  have r: "recs_ok s (w_recs w')"
    unfolding recs_ok_def
  proof (intro allI impI)
    fix v r assume r: "live s v \<and> r \<in> set (w_recs w') \<and> fst r \<le> v"
    then consider "r \<in> set low" | "r \<in> set (w_recs w)" | "fst r = w_txnid w" by (auto simp: w' split: if_splits)
    then show "snd r \<inter> pages_of s v = {}"
    proof cases
      case 2
      then show ?thesis using d(2) r unfolding recs_ok_def by blast
    qed (use hd new r in auto)
  qed
  have p: "rec_pages (w_recs w') = head \<union> rec_pages (w_recs w) \<union> freed" by (auto simp: w' low(2))
  have o: "head \<inter> rec_pages (w_recs w) = {}" "rec_pages (w_recs w) \<inter> freed = {}" using sub d(10,12,13) by blast+
  have ap: "apart (w_recs w')" using d(1) o dj low by (auto simp: w' apart_append apart_Cons)
  have P: "w_pages w \<inter> (head \<union> rec_pages (w_recs w) \<union> freed) = {}" using sub d(4-7) by blast
  have b: "below (w_next w) (head \<union> rec_pages (w_recs w) \<union> freed)"
    using below_mono [OF _ sub(1) order_refl, of "w_next w"] below_mono [OF _ sub(2) order_refl, of "w_next w"] d(15-18) by simp
  have f: "w_pages w' = w_pages w" "w_own w' = w_own w" "w_next w' = w_next w" "w_pghead w' = {}" "w_loose w' = {}" "w_free w' = {}" by (simp_all add: w')
  show ?thesis by (rule writer_okI, simp_all only: f p) (use ap r P b d(14,19,21) in simp_all)
qed

text \<open>What the invariant says of the snapshots depends on the state only through these.\<close>

lemma recs_ok_cong:
  assumes "oldest_used s' \<ge> oldest_used s" "mti_txnid s' = mti_txnid s" "\<And>v. v \<le> mti_txnid s \<Longrightarrow> history s' v = history s v"
  shows "live s' v \<Longrightarrow> live s v" "recs_ok s rs \<Longrightarrow> recs_ok s' rs" "writer_ok s w \<Longrightarrow> writer_ok s' w"
proof -
  show l: "live s' v \<Longrightarrow> live s v" for v using assms(1,2) by (auto simp: live_def)
  have h: "live s' v \<Longrightarrow> history s' v = history s v" for v using assms(2,3) by (simp add: live_def)
  show r: "recs_ok s rs \<Longrightarrow> recs_ok s' rs" for rs using l h unfolding recs_ok_def by metis
  show "writer_ok s w \<Longrightarrow> writer_ok s' w" using l h r unfolding writer_ok_def by metis
qed

lemma pages_same:
  assumes p: "pages_ok s" and s': "oldest_used s' \<ge> oldest_used s" "mti_txnid s' = mti_txnid s" "\<And>v. v \<le> mti_txnid s \<Longrightarrow> history s' v = history s v"
    and f: "\<And>v p. live s v \<Longrightarrow> p \<in> pages_of s v \<Longrightarrow> sh_file s' p = sh_file s p"
    and w: "\<And>w. wtxn s' = Some w \<Longrightarrow> writer_ok s w \<and>
       (\<forall>k. w_phase w = Storing k \<longrightarrow>
           (let sn = history s' (w_txnid w) in sn_pages sn = w_pages w \<and> sn_recs sn = w_recs w \<and> sn_next sn = w_next w \<and>
             (\<forall>p \<in> w_pages w. sh_file s' p = sn_data sn p)))"
  shows "pages_ok s'"
proof -
  note d = pages_okD [OF p] and c = recs_ok_cong [of s s', OF s'(1,2) s'(3)]
  have h: "live s' v \<Longrightarrow> history s' v = history s v" "history s' (mti_txnid s) = history s (mti_txnid s)" for v using s'(2,3) by (simp_all add: live_def)
  show ?thesis unfolding pages_ok_def s'(2) h(2) Let_def
  proof (intro conjI allI impI ballI)
    show "recs_ok s' (sn_recs (history s (mti_txnid s)))" using c(2) [OF _ d(3)] by simp
    fix v assume v: "live s' v"
    then have l: "live s v" using c(1) by blast
    show "below (sn_next (history s (mti_txnid s))) (pages_of s' v)" using d(2) [OF l] h(1) [OF v] by simp
    show "sh_file s' p = sn_data (history s' v) p" if "p \<in> pages_of s' v" for p
      using that d(1) [OF l, of p] f [OF l, of p] h(1) [OF v] by simp
  next
    fix w' assume w': "wtxn s' = Some w'"
    show "writer_ok s' w'" using w [OF w'] c(3) by blast
    fix k assume k: "w_phase w' = Storing k"
    show "sn_pages (history s' (w_txnid w')) = w_pages w'" "sn_recs (history s' (w_txnid w')) = w_recs w'" "sn_next (history s' (w_txnid w')) = w_next w'"
      "\<And>p. p \<in> w_pages w' \<Longrightarrow> sh_file s' p = sn_data (history s' (w_txnid w')) p"
      using w [OF w'] k by (auto simp: Let_def)
  qed (use d(4,5) in auto)
qed

lemma new_writer_ok:
  assumes p: "pages_ok s" and o: "oldest_ok s"
  shows "writer_ok s (new_writer e s)"
proof -
  note d = pages_okD [OF p]
  have l: "live s (mti_txnid s)" using oldest_okD(1) [OF o] by (simp add: live_def)
  show ?thesis by (rule writer_okI) (use d(2,3,5) d(2) [OF l] d(4) in \<open>simp_all add: new_writer_def Let_def apart_Cons\<close>)
qed

lemma pages_working:
  assumes p: "pages_ok s" and a: "working f s = Some s'"
    and f: "\<And>w w'. w_phase w = Work \<Longrightarrow> f w = Some w' \<Longrightarrow> w_phase w' = Work \<or> w_phase w' = Saved"
    and ok: "\<And>w w'. wtxn s = Some w \<Longrightarrow> writer_ok s w \<Longrightarrow> f w = Some w' \<Longrightarrow> writer_ok s w'"
  shows "pages_ok s'"
proof -
  obtain w w' where w: "wtxn s = Some w" "w_phase w = Work" "f w = Some w'" "s' = s\<lparr>wtxn := Some w'\<rparr>" by (rule working_cases [OF a])
  have "writer_ok s w'" using ok [OF w(1) pages_okD(6) [OF p w(1)] w(3)] .
  then show ?thesis using f [OF w(2,3)] by (intro pages_same [OF p]) (auto simp: w(4))
qed

lemma pages_publish:
  assumes p: "pages_ok s" and o: "oldest_ok s" and w: "wtxn s = Some w" "w_phase w = Storing k"
    and s': "s' = s\<lparr>mti_txnid := w_txnid w, wtxn := None\<rparr>"
  shows "pages_ok s'"
proof -
  note d = pages_okD [OF p] and ok = writer_okD [OF d(6) [OF w(1)]]
  have T: "mti_txnid s < - 2" "w_txnid w = mti_txnid s + 1" using oldest_okD(4) [OF o w(1)] by auto
  have st: "pages_of s (w_txnid w) = w_pages w" "sn_recs (history s (w_txnid w)) = w_recs w" "sn_next (history s (w_txnid w)) = w_next w"
    and data: "\<And>p. p \<in> w_pages w \<Longrightarrow> sh_file s p = sn_data (history s (w_txnid w)) p" using d(7) [OF w] by blast+
  have live: "live s' v \<longleftrightarrow> live s v \<or> v = w_txnid w" for v
  proof -
    have "oldest_used s \<le> w_txnid w" using oldest_okD(1) [OF o] T succ_txn(2) [OF T(1)] by simp
    then show ?thesis using succ_txn(2) [OF T(1)] T(2) by (auto simp: live_def s')
  qed
  have f: "history s' = history s" "mti_txnid s' = w_txnid w" "sh_file s' = sh_file s" "wtxn s' = None" by (simp_all add: s')
  have r: "snd r \<inter> w_pages w = {}" if "r \<in> set (w_recs w)" for r using that ok(7) by (auto simp: rec_pages_def)
  show ?thesis unfolding pages_ok_def f Let_def st
  proof (intro conjI allI impI ballI)
    fix v assume v: "live s' v"
    show "below (w_next w) (pages_of s v)" using v live ok(14,21) st(1) by auto
    show "sh_file s p = sn_data (history s v) p" if "p \<in> pages_of s v" for p using v that live d(1) data st(1) by auto
  next
    show "recs_ok s' (w_recs w)" unfolding recs_ok_def f
    proof (intro allI impI)
      fix v r assume a: "live s' v \<and> r \<in> set (w_recs w) \<and> fst r \<le> v"
      show "snd r \<inter> pages_of s v = {}"
      proof (cases "live s v")
        case True
        then show ?thesis using a ok(2) unfolding recs_ok_def by blast
      next
        case False
        then have "v = w_txnid w" using a live by blast
        then show ?thesis using r a st(1) by simp
      qed
    qed
  qed (use ok(1,7,18) in \<open>simp_all add: apart_Cons\<close>)
qed

lemma writer_ok_phase: "writer_ok s (w\<lparr>w_phase := ph\<rparr>) = writer_ok s w" "writer_ok s (w\<lparr>w_phase := ph, w_commit := ct\<rparr>) = writer_ok s w"
  by (simp_all add: writer_ok_def parts_def)

lemma oldest_frame:
  assumes "oldest_step w s = Some s'"
  shows "sh_file s' = sh_file s" "history s' = history s" "mti_txnid s' = mti_txnid s" "oldest_used s \<le> oldest_used s'"
    "\<exists>ph. wtxn s' = Some (w\<lparr>w_phase := ph\<rparr>) \<and> (\<forall>k. ph \<noteq> Storing k)"
proof -
  have "sh_file s' = sh_file s \<and> history s' = history s \<and> mti_txnid s' = mti_txnid s \<and> oldest_used s \<le> oldest_used s' \<and>
    (\<exists>ph. wtxn s' = Some (w\<lparr>w_phase := ph\<rparr>) \<and> (\<forall>k. ph \<noteq> Storing k))"
  proof (cases "w_phase w")
    case Work
    then show ?thesis using assms unfolding oldest_step_def by fastforce
  next
    case (Scan i old)
    then show ?thesis using assms unfolding oldest_step_def by (cases "i = 0"; cases "mr_pid (mti_readers s (i - 1)) \<noteq> 0") fastforce+
  next
    case (Scan_Id i old)
    then show ?thesis using assms unfolding oldest_step_def by fastforce
  qed (use assms in \<open>simp_all add: oldest_step_def\<close>)
  then show "sh_file s' = sh_file s" "history s' = history s" "mti_txnid s' = mti_txnid s" "oldest_used s \<le> oldest_used s'"
    "\<exists>ph. wtxn s' = Some (w\<lparr>w_phase := ph\<rparr>) \<and> (\<forall>k. ph \<noteq> Storing k)" by blast+
qed

lemma pages_act:
  assumes p: "pages_ok s" and o: "oldest_ok s" and a: "act c a s = Some s'"
  shows "pages_ok s'"
proof (cases "reads a")
  case True
  note f = reader_frame [OF a True]
  show ?thesis by (rule pages_same [OF p]) (use pages_okD(6,7) [OF p] f in \<open>simp_all add: Let_def\<close>)
next
  case False
  note d = pages_okD [OF p]
  have T: "mti_txnid s < w_txnid w" if "wtxn s = Some w" for w using oldest_okD(4) [OF o that] succ_txn(1) by auto
  note wk = pages_working [OF p]
  show ?thesis
  proof (cases a)
    case (Begin e)
    then have "s' = s\<lparr>wtxn := Some (new_writer e s)\<rparr>" using a by (simp add: write_begin_def split: if_splits)
    then show ?thesis using new_writer_ok [OF p o] by (intro pages_same [OF p]) (auto simp: new_writer_def Let_def)
  next
    case Oldest
    then obtain w where w: "wtxn s = Some w" "oldest_step w s = Some s'" using a by (auto simp: bind_eq_Some_conv)
    note f = oldest_frame [OF w(2)]
    obtain ph where ph: "wtxn s' = Some (w\<lparr>w_phase := ph\<rparr>)" "\<forall>k. ph \<noteq> Storing k" using f(5) by blast
    show ?thesis by (rule pages_same [OF p]) (use f(1-4) ph d(6) [OF w(1)] in \<open>auto simp: writer_ok_phase\<close>)
  next
    case Record
    then have "working (\<lambda>w. record_step (me_pgoldest s (w_env w)) w) s = Some s'" using a by simp
    then show ?thesis by (rule wk) (blast dest: tree_phase(1), blast intro: record_ok oldest_okD(2) [OF o])
  next
    case (Alloc pg)
    then have "working (alloc_step c pg) s = Some s'" using a by simp
    then show ?thesis by (rule wk) (blast dest: tree_phase(2), blast intro: alloc_ok)
  next
    case (Touch old new)
    then have "working (touch_step c old new) s = Some s'" using a by simp
    then show ?thesis by (rule wk) (blast dest: tree_phase(3), blast intro: touch_ok)
  next
    case (Loosen pg)
    then have "working (loose_step pg) s = Some s'" using a by simp
    then show ?thesis by (rule wk) (blast dest: tree_phase(4), blast intro: drop_ok(1))
  next
    case (Giveback pg)
    then have "working (giveback_step pg) s = Some s'" using a by simp
    then show ?thesis by (rule wk) (blast dest: tree_phase(5), blast intro: drop_ok(2))
  next
    case (Free pg)
    then have "working (free_step pg) s = Some s'" using a by simp
    then show ?thesis by (rule wk) (blast dest: tree_phase(6), blast intro: drop_ok(3))
  next
    case (Save low)
    then have "working (save_step low) s = Some s'" using a by simp
    then show ?thesis by (rule wk) (blast dest: tree_phase(7), blast intro: save_ok T)
  next
    case (Write pg x)
    then obtain w where w: "wtxn s = Some w" "pg \<in> w_own w" "w_phase w = Work \<or> w_phase w = Saved" "s' = s\<lparr>sh_file := (sh_file s)(pg := x)\<rparr>"
      using a by (auto simp: bind_eq_Some_conv split: if_splits)
    have "live s v \<Longrightarrow> p \<in> pages_of s v \<Longrightarrow> p \<noteq> pg" for v p using writer_own [OF d(6) [OF w(1)]] w(2) by blast
    then show ?thesis using w d(6) [OF w(1)] by (intro pages_same [OF p]) auto
  next
    case (Flush ct)
    then obtain w where w: "wtxn s = Some w" "s' = s\<lparr>wtxn := Some (w\<lparr>w_phase := Storing 0, w_commit := ct\<rparr>),
        history := (history s)(w_txnid w := \<lparr>sn_main = wt_main ct, sn_pages = w_pages w, sn_recs = w_recs w, sn_next = w_next w, sn_data = sh_file s\<rparr>)\<rparr>"
      using a by (auto simp: bind_eq_Some_conv split: if_splits)
    then show ?thesis using d(6) [OF w(1)] T [OF w(1)] by (intro pages_same [OF p]) (auto simp: writer_ok_phase Let_def)
  next
    case Meta
    then obtain w where w: "wtxn s = Some w" and m: "meta_step c w s = Some s'" using a by (auto simp: bind_eq_Some_conv)
    then obtain k where k: "w_phase w = Storing k" by (cases "w_phase w") (auto simp: meta_step_def)
    show ?thesis
    proof (cases "k < 5")
      case True
      then obtain ms where "s' = s\<lparr>sh_metas := ms, wtxn := Some (w\<lparr>w_phase := Storing (k + 1)\<rparr>)\<rparr>"
        using m k by (auto simp: meta_step_def Let_def bind_eq_Some_conv)
      then show ?thesis using d(6) [OF w] d(7) [OF w k] by (intro pages_same [OF p]) (auto simp: writer_ok_phase Let_def)
    next
      case False
      then show ?thesis using m k by (intro pages_publish [OF p o w k]) (simp add: meta_step_def)
    qed
  next
    case Abort
    then show ?thesis using a by (intro pages_same [OF p]) (auto simp: bind_eq_Some_conv split: if_splits)
  qed (use False in \<open>simp_all add: reads_def\<close>)
qed

section \<open>Snapshot isolation\<close>

definition system_ok :: "'c shared \<Rightarrow> bool" where
  "system_ok s \<longleftrightarrow> table_ok s \<and> oldest_ok s \<and> meta_ok s \<and> pages_ok s"

lemma system_new: "system_ok (new_db m f)"
  by (auto simp: system_ok_def new_db_def table_ok_def in_mutex_def oldest_ok_def meta_ok_def viewed_def pages_ok_def recs_ok_def live_def below_def apart_Cons)

lemma system_act: "system_ok s \<Longrightarrow> act c a s = Some s' \<Longrightarrow> (\<And>th. me_pid c th \<noteq> 0) \<Longrightarrow> system_ok s'"
  unfolding system_ok_def using table_act oldest_act meta_act pages_act by blast

lemma system_run: "run c as s = Some s' \<Longrightarrow> system_ok s \<Longrightarrow> (\<And>th. me_pid c th \<noteq> 0) \<Longrightarrow> system_ok s'"
proof (induction as arbitrary: s)
  case (Cons a as)
  then obtain s1 where "act c a s = Some s1" "run c as s1 = Some s'" by (auto simp: bind_eq_Some_conv)
  then show ?case using Cons system_act by blast
qed simp

text \<open>A snapshot that can be read is in the file as it was committed.\<close>

lemma snapshot_in_file:
  assumes s: "system_ok s" and v: "oldest_used s \<le> v" "v \<le> newest s" and p: "p \<in> pages_of s v"
  shows "sh_file s p = sn_data (history s v) p"
proof -
  have o: "oldest_ok s" and d: "pages_ok s" using s by (auto simp: system_ok_def)
  show ?thesis
  proof (cases "v \<le> mti_txnid s")
    case True
    then show ?thesis using pages_okD(1) [OF d _ p] v(1) by (simp add: live_def)
  next
    case False
    then have n: "v = newest s" "newest s \<noteq> mti_txnid s" using newest_bounds(1,2) [OF o] v(2) by auto
    then obtain w where w: "wtxn s = Some w" using newest_bounds(4) [OF o] by auto
    then obtain k where "w_phase w = Storing k" "v = w_txnid w" using newest_bounds(3) [OF o w] n by auto
    then show ?thesis using pages_okD(7) [OF d w, of k] p by auto
  qed
qed

text \<open>A running reader runs until it ends its transaction.\<close>

lemma running_act:
  assumes "pcs s th = Running i t db" "act c a s = Some s'" "a \<noteq> End th"
  shows "pcs s' th = Running i t db"
proof (cases "reads a")
  case True
  have "a \<notin> {Renew th, End th, Release th}" using assms by (auto simp: renew_step_def slot_release_def)
  then show ?thesis using other_reader [OF assms(2) True] assms(1) by simp
next
  case False
  then show ?thesis using writer_frame(4) [OF assms(2)] assms(1) by simp
qed

lemma running_run:
  assumes "run c as s = Some s'" "End th \<notin> set as" "pcs s th = Running i t db" "v \<le> newest s" "system_ok s" "\<And>th. me_pid c th \<noteq> 0"
  shows "pcs s' th = Running i t db \<and> history s' v = history s v \<and> v \<le> newest s'"
  using assms
proof (induction as arbitrary: s)
  case (Cons a as)
  then obtain s1 where a: "act c a s = Some s1" "run c as s1 = Some s'" by (auto simp: bind_eq_Some_conv)
  have "history s1 v = history s v \<and> v \<le> newest s1" using history_act [OF _ a(1)] Cons.prems(4,5) by (simp add: system_ok_def)
  moreover have "pcs s1 th = Running i t db" using running_act [OF Cons.prems(3) a(1)] Cons.prems(2) by auto
  ultimately show ?case using Cons.IH [OF a(2)] Cons.prems(2,6) system_act [OF Cons.prems(5) a(1)] by simp
qed simp


definition example_config :: config where
  "example_config = \<lparr>me_pid = (\<lambda>th. 1), me_maxreaders = 2, me_maxpg = 100, me_mapsz = 0\<rparr>"

definition example_new :: "char shared" where
  "example_new = new_db (example_meta P_INVALID 0) (\<lambda>_. CHR ''x'')"

definition example_ct :: "u64 \<Rightarrow> u64 \<Rightarrow> commit_txn" where
  "example_ct r t = \<lparr>wt_flags = 0, wt_txnid = t, wt_free = example_db P_INVALID, wt_main = example_db r, wt_next_pgno = r + 1\<rparr>"

text \<open>A reader finds its number current; two transactions commit; the reader copies the roots of the second.\<close>

definition example_check :: "char action list" where
  "example_check = replicate 9 (Renew 0)"

definition example_writes :: "char action list" where
  "example_writes = [Begin 0, Alloc 2, Write 2 CHR ''a'', Save [], Flush (example_ct 2 1)] @ replicate 6 Meta @
     [Begin 0, Touch 2 3, Write 3 CHR ''b'', Save [], Flush (example_ct 3 2)] @ replicate 6 Meta"

lemma run_append: "run c (as @ bs) s = do { s \<leftarrow> run c as s; run c bs s }"
  by (induction as arbitrary: s) (auto split: bind_splits)

lemma example_lists:
  "example_check = [Renew 0, Renew 0, Renew 0, Renew 0, Renew 0, Renew 0, Renew 0, Renew 0, Renew 0]"
  "example_writes = [Begin 0, Alloc 2, Write 2 CHR ''a'', Save [], Flush (example_ct 2 1), Meta, Meta, Meta, Meta, Meta, Meta,
     Begin 0, Touch 2 3, Write 3 CHR ''b'', Save [], Flush (example_ct 3 2), Meta, Meta, Meta, Meta, Meta, Meta]"
  by (simp_all add: example_check_def example_writes_def numeral_eq_Suc)

lemma example_run:
  "\<exists>s. run example_config (example_check @ example_writes @ [Renew 0]) example_new = Some s \<and> pcs s 0 = Running 0 0 (example_db 3) \<and> mti_txnid s = 2"
  by (simp add: run_append example_lists example_new_def new_db_def example_config_def example_ct_def example_meta_def
    renew_step_def goto_def set_slot_def write_begin_def new_writer_def working_def alloc_step_def touch_step_def free_step_def save_step_def meta_step_def
    meta_stores_def peek_def Let_def word_less_nat_alt)


end
