(* ===== verification/Lmdb_Split.thy ===== *)
theory Lmdb_Split
  imports Lmdb_Tree
begin

text \<open>
  Splitting a full page, \<^verbatim>\<open>mdb_page_split\<close> of \<^verbatim>\<open>src/liblmdb/mdb.c\<close>, over the pages of \<open>Lmdb_Page\<close>. The stack of the
  cursor is the list of the pages from the one to split up to the root, each with its index. The result is
  what becomes of each of them. The positions of the cursors are not followed. The theorems say at which index
  the page is split, when both halves fit, and that the pages then hold the old nodes and the new one, with the
  separator in the parent, up to a new root.
\<close>

section \<open>The split point\<close>

record split_env =
  se_psize :: nat
  se_nodemax :: nat
  se_pad :: nat

text \<open>The nodes of the page with the new one among them are numbered from 0 to \<open>nkeys\<close>; \<open>space i\<close> is what node
  \<open>i\<close> needs, its offset included. The loop counts upwards or downwards to \<open>k\<close>.\<close>

function count_up :: "(nat \<Rightarrow> nat option) \<Rightarrow> nat \<Rightarrow> nat \<Rightarrow> nat \<Rightarrow> nat \<Rightarrow> nat \<Rightarrow> nat option" where
  "count_up space pmax k i psize split_indx =
     (if i < k then do {
        n \<leftarrow> space i;
        (if psize + n > pmax \<or> i = k - 1 then Some i else count_up space pmax k (i + 1) (psize + n) split_indx)
      }
      else Some split_indx)"
  by pat_completeness auto

termination
  by (relation "measure (\<lambda>(_, _, k, i, _, _). k - i)") auto

function count_down :: "(nat \<Rightarrow> nat option) \<Rightarrow> nat \<Rightarrow> nat \<Rightarrow> nat \<Rightarrow> nat \<Rightarrow> nat \<Rightarrow> nat option" where
  "count_down space pmax k i psize split_indx =
     (if k < i then do {
        n \<leftarrow> space i;
        (if psize + n > pmax \<or> i = k + 1 then Some (i + 1) else count_down space pmax k (i - 1) (psize + n) split_indx)
      }
      else Some split_indx)"
  by pat_completeness auto

termination
  by (relation "measure (\<lambda>(_, _, k, i, _, _). i - k)") auto

declare count_up.simps [simp del] count_down.simps [simp del]

text \<open>Whether the sizes are looked at: not when there are many nodes and the new one is small and not the last.\<close>

definition checked :: "nat \<Rightarrow> nat \<Rightarrow> nat \<Rightarrow> nat \<Rightarrow> bool" where
  "checked psize nkeys newindx nsize \<longleftrightarrow> nkeys < drop_bit 7 psize \<or> nsize > (psize - PAGEHDRSZ) div 16 \<or> newindx \<ge> nkeys"

definition split_point :: "nat \<Rightarrow> bool \<Rightarrow> nat \<Rightarrow> nat \<Rightarrow> nat \<Rightarrow> (nat \<Rightarrow> nat option) \<Rightarrow> nat option" where
  "split_point psize leaf nkeys newindx nsize space =
     (let split_indx = (nkeys + 1) div 2;
          pmax = psize - PAGEHDRSZ
      in if checked psize nkeys newindx nsize then
           (if newindx \<le> split_indx \<or> newindx \<ge> nkeys
            then count_up space pmax (if newindx \<ge> nkeys then nkeys else split_indx + 1 + (if leaf then 1 else 0)) 0 0 split_indx
            else count_down space pmax (split_indx - 1) nkeys 0 split_indx)
         else Some split_indx)"

section \<open>Pages and nodes\<close>

text \<open>The answers of the page allocator, one for each request; none left is no memory left.\<close>

type_synonym answers = "(int + u64 \<times> bytes) list"

abbreviation (input) ENOMEM :: int where "ENOMEM \<equiv> 12"
abbreviation (input) MDB_APPEND :: u32 where "MDB_APPEND \<equiv> 0x20000"

definition answer :: "answers \<Rightarrow> int + u64 \<times> bytes" where
  "answer as = (case as of [] \<Rightarrow> Inl ENOMEM | a # _ \<Rightarrow> a)"

definition new_page :: "split_env \<Rightarrow> answers \<Rightarrow> mdb_db \<Rightarrow> u16 \<Rightarrow> int + mdb_page \<times> mdb_db \<times> answers" where
  "new_page se as db flags =
     (case mdb_page_new (\<lambda>_. answer as) (se_psize se) db flags 1 of
        Inl rc \<Rightarrow> Inl rc
      | Inr (p, db) \<Rightarrow> Inr (p, db, tl as))"

definition add_node :: "split_env \<Rightarrow> answers \<Rightarrow> mdb_db \<Rightarrow> mdb_page \<Rightarrow> nat \<Rightarrow> mdb_val option \<Rightarrow> mdb_val option \<Rightarrow> u64 \<Rightarrow> u32 \<Rightarrow>
    (int + mdb_page \<times> mdb_db \<times> answers) option" where
  "add_node se as db p indx key data pgno flags =
     map_option (\<lambda>r. case r of
         Page_Full \<Rightarrow> Inl MDB_PAGE_FULL
       | Page_Error rc \<Rightarrow> Inl rc
       | Added p db ofp \<Rightarrow> Inr (p, db, if ofp = None then as else tl as))
     (mdb_node_add (\<lambda>_. answer as) (se_psize se) (se_nodemax se) (se_pad se) db p indx key data pgno flags)"

text \<open>A node to put on a page: the new one, or an old one, read from the page that is split.\<close>

record item =
  it_key :: mdb_val
  it_data :: "mdb_val option"
  it_pgno :: u64
  it_flags :: u32

definition node_at :: "u16 \<Rightarrow> nat option" where
  "node_at ptr = (if unat ptr < PAGEHDRSZ then None else Some (unat ptr - PAGEHDRSZ))"

definition old_item :: "mdb_page \<Rightarrow> u16 \<Rightarrow> item option" where
  "old_item mp ptr = do {
     node \<leftarrow> node_at ptr;
     k \<leftarrow> NODEKEY (mp_body mp) node;
     fl \<leftarrow> NODEFLAGS (mp_body mp) node;
     (if IS_LEAF mp then do {
        dsz \<leftarrow> NODEDSZ (mp_body mp) node;
        Some \<lparr>it_key = val k, it_data = Some \<lparr>mv_size = unat dsz, mv_data = drop (node + NODESIZE + length k) (mp_body mp)\<rparr>, it_pgno = 0, it_flags = ucast fl\<rparr>
      }
      else do {
        pgno \<leftarrow> NODEPGNO (mp_body mp) node;
        Some \<lparr>it_key = val k, it_data = None, it_pgno = pgno, it_flags = ucast fl\<rparr>
      })
   }"

definition old_space :: "mdb_page \<Rightarrow> u16 \<Rightarrow> nat option" where
  "old_space mp ptr = do {
     node \<leftarrow> node_at ptr;
     k \<leftarrow> NODEKSZ (mp_body mp) node;
     fl \<leftarrow> NODEFLAGS (mp_body mp) node;
     dsz \<leftarrow> NODEDSZ (mp_body mp) node;
     Some (EVEN (NODESIZE + unat k + 2 + (if IS_LEAF mp then (if F_ISSET fl F_BIGDATA then 8 else unat dsz) else 0)))
   }"

text \<open>The offsets of the page, with a gap at the new index.\<close>

definition copy_ptrs :: "mdb_page \<Rightarrow> nat \<Rightarrow> u16 list option" where
  "copy_ptrs mp newindx = do {
     ptrs \<leftarrow> those (map (\<lambda>i. get16 (mp_body mp) (2 * i)) [0..<NUMKEYS mp]);
     Some (take newindx ptrs @ 0 # drop newindx ptrs)
   }"

definition pick_item :: "mdb_page \<Rightarrow> u16 list \<Rightarrow> nat \<Rightarrow> item \<Rightarrow> nat \<Rightarrow> item option" where
  "pick_item mp ptrs newindx new i = (if i = newindx then Some new else do { ptr \<leftarrow> peek ptrs i; old_item mp ptr })"

section \<open>Moving the nodes\<close>

text \<open>The nodes with the given numbers are put on a page, from index \<open>j\<close> on. The first key of a branch is not stored.\<close>

fun move_nodes :: "split_env \<Rightarrow> bool \<Rightarrow> (nat \<Rightarrow> item option) \<Rightarrow> answers \<Rightarrow> mdb_db \<Rightarrow> mdb_page \<Rightarrow> nat list \<Rightarrow> nat \<Rightarrow>
    (int + mdb_page \<times> mdb_db \<times> answers) option" where
  "move_nodes se leaf pick as db p [] j = Some (Inr (p, db, as))"
| "move_nodes se leaf pick as db p (i # is) j =
     (case pick i of
        None \<Rightarrow> None
      | Some it \<Rightarrow>
          (case add_node se as db p j (Some (if \<not> leaf \<and> j = 0 then val [] else it_key it)) (it_data it) (it_pgno it) (it_flags it) of
             None \<Rightarrow> None
           | Some (Inl rc) \<Rightarrow> Some (Inl rc)
           | Some (Inr (p, db, as)) \<Rightarrow> move_nodes se leaf pick as db p is (j + 1)))"

text \<open>The left half is built on a temporary page and copied back.\<close>

definition copy_back :: "mdb_page \<Rightarrow> mdb_page \<Rightarrow> mdb_page option" where
  "copy_back mp copy = do {
     (if NUMKEYS copy = 0 then None else Some ());
     ptrs \<leftarrow> bytes_at (mp_body copy) 0 (2 * NUMKEYS copy);
     b \<leftarrow> blit (mp_body mp) 0 ptrs;
     node \<leftarrow> NODEPTR (mp_body copy) (NUMKEYS copy - 1);
     heap \<leftarrow> bytes_at (mp_body copy) node (length (mp_body copy) + PAGEHDRSZ - unat (mp_upper copy));
     b \<leftarrow> blit b node heap;
     Some (mp\<lparr>mp_lower := mp_lower copy, mp_upper := mp_upper copy, mp_body := b\<rparr>)
   }"

definition move_halves :: "split_env \<Rightarrow> bytes \<Rightarrow> answers \<Rightarrow> mdb_db \<Rightarrow> mdb_page \<Rightarrow> mdb_page \<Rightarrow> u16 list \<Rightarrow> nat \<Rightarrow> item \<Rightarrow> nat \<Rightarrow>
    (int + mdb_page \<times> mdb_page \<times> mdb_db \<times> answers) option" where
  "move_halves se tmp as db mp rp ptrs newindx new split_indx =
     (let copy = \<lparr>mp_pgno = mp_pgno mp, mp_pad = 0, mp_flags = mp_flags mp, mp_lower = of_nat PAGEHDRSZ, mp_upper = of_nat (se_psize se), mp_body = tmp\<rparr>;
          pick = pick_item mp ptrs newindx new
      in case move_nodes se (IS_LEAF mp) pick as db rp [split_indx..<NUMKEYS mp + 1] 0 of
           None \<Rightarrow> None
         | Some (Inl rc) \<Rightarrow> Some (Inl rc)
         | Some (Inr (rp, db, as)) \<Rightarrow>
             (case move_nodes se (IS_LEAF mp) pick as db copy [0..<split_indx] 0 of
                None \<Rightarrow> None
              | Some (Inl rc) \<Rightarrow> Some (Inl rc)
              | Some (Inr (copy, db, as)) \<Rightarrow> map_option (\<lambda>mp. Inr (mp, rp, db, as)) (copy_back mp copy)))"

text \<open>A page of fixed-size keys: half of the keys are copied to the right page, and the new one put in its place.\<close>

definition leaf2_halves :: "nat \<Rightarrow> mdb_page \<Rightarrow> mdb_page \<Rightarrow> nat \<Rightarrow> mdb_val \<Rightarrow> (mdb_page \<times> mdb_page \<times> mdb_val) option" where
  "leaf2_halves ksize mp rp newindx newkey = do {
     let nkeys = NUMKEYS mp;
     let split_indx = (nkeys + 1) div 2;
     let split = split_indx * ksize;
     let rsize = (nkeys - split_indx) * ksize;
     let lsize = (nkeys - split_indx) * 2;
     kd \<leftarrow> ndata_bytes ksize (mv_data newkey);
     rest \<leftarrow> bytes_at (mp_body mp) split rsize;
     sep \<leftarrow> (if newindx = split_indx then Some newkey else map_option val (bytes_at (mp_body mp) split ksize));
     let mp = mp\<lparr>mp_lower := mp_lower mp - of_nat lsize, mp_upper := mp_upper mp + (of_nat rsize - of_nat lsize)\<rparr>;
     let rp = rp\<lparr>mp_lower := mp_lower rp + of_nat lsize, mp_upper := mp_upper rp - (of_nat rsize - of_nat lsize)\<rparr>;
     (if newindx < split_indx then do {
        let ins = newindx * ksize;
        rb \<leftarrow> blit (mp_body rp) 0 rest;
        b \<leftarrow> memmove (mp_body mp) (ins + ksize) ins ((split_indx - newindx) * ksize);
        b \<leftarrow> blit b ins kd;
        Some (mp\<lparr>mp_lower := mp_lower mp + 2, mp_upper := mp_upper mp - (of_nat ksize - 2), mp_body := b\<rparr>, rp\<lparr>mp_body := rb\<rparr>, sep)
      }
      else do {
        let x = newindx - split_indx;
        rb \<leftarrow> blit (mp_body rp) 0 (take (x * ksize) rest);
        rb \<leftarrow> blit rb (x * ksize) kd;
        rb \<leftarrow> blit rb (x * ksize + ksize) (drop (x * ksize) rest);
        Some (mp, rp\<lparr>mp_lower := mp_lower rp + 2, mp_upper := mp_upper rp - (of_nat ksize - 2), mp_body := rb\<rparr>, sep)
      })
   }"

section \<open>The split\<close>

text \<open>A page without a parent gets a new root, with the page as its first child.\<close>

definition parents :: "split_env \<Rightarrow> answers \<Rightarrow> mdb_db \<Rightarrow> mdb_page \<Rightarrow> (mdb_page \<times> nat) list \<Rightarrow>
    (int + (mdb_page \<times> nat) list \<times> mdb_db \<times> answers) option" where
  "parents se as db mp ps =
     (if ps \<noteq> [] then Some (Inr (ps, db, as))
      else case new_page se as db P_BRANCH of
             Inl rc \<Rightarrow> Some (Inl rc)
           | Inr (pp, db, as) \<Rightarrow>
               map_option (\<lambda>r. case r of Inl rc \<Rightarrow> Inl rc | Inr (pp, db, as) \<Rightarrow> Inr ([(pp, 0)], db, as))
                 (add_node se as db pp 0 None None (mp_pgno mp) 0))"

text \<open>The offsets with the gap, the split point and the separator.\<close>

definition plan :: "split_env \<Rightarrow> mdb_page \<Rightarrow> nat \<Rightarrow> item \<Rightarrow> (u16 list \<times> nat \<times> mdb_val) option" where
  "plan se mp newindx new = do {
     let nsize = (if IS_LEAF mp then mdb_leaf_size (se_nodemax se) (it_key new) (case it_data new of None \<Rightarrow> val [] | Some d \<Rightarrow> d)
                  else mdb_branch_size (Some (it_key new)));
     let nsize = EVEN nsize;
     ptrs \<leftarrow> copy_ptrs mp newindx;
     split_indx \<leftarrow> split_point (se_psize se) (IS_LEAF mp) (NUMKEYS mp) newindx nsize
       (\<lambda>i. if i = newindx then Some nsize else do { ptr \<leftarrow> peek ptrs i; old_space mp ptr });
     sep \<leftarrow> (if split_indx = newindx then Some (it_key new)
       else do { ptr \<leftarrow> peek ptrs split_indx; node \<leftarrow> node_at ptr; map_option val (NODEKEY (mp_body mp) node) });
     Some (ptrs, split_indx, sep)
   }"

datatype halves = Appended mdb_val | Fixed mdb_page mdb_page mdb_val | Planned bytes "u16 list" nat mdb_val

fun sepkey :: "halves \<Rightarrow> mdb_val" where
  "sepkey (Appended k) = k"
| "sepkey (Fixed mp rp k) = k"
| "sepkey (Planned tmp ptrs i k) = k"

text \<open>\<open>tmps\<close> are the answers of \<^verbatim>\<open>mdb_page_malloc\<close>, the pages for the copies; none left is no memory left.\<close>

definition choose_split :: "split_env \<Rightarrow> bytes list \<Rightarrow> mdb_page \<Rightarrow> mdb_page \<Rightarrow> nat \<Rightarrow> item \<Rightarrow> (int + halves \<times> bytes list) option" where
  "choose_split se tmps mp rp newindx new =
     (if F_ISSET (it_flags new) MDB_APPEND then Some (Inr (Appended (it_key new), tmps))
      else if IS_LEAF2 rp then map_option (\<lambda>(mp, rp, k). Inr (Fixed mp rp k, tmps)) (leaf2_halves (se_pad se) mp rp newindx (it_key new))
      else (case tmps of
              [] \<Rightarrow> Some (Inl ENOMEM)
            | tmp # tmps \<Rightarrow> map_option (\<lambda>(ptrs, i, k). Inr (Planned tmp ptrs i k, tmps)) (plan se mp newindx new)))"

definition finish_split :: "split_env \<Rightarrow> answers \<Rightarrow> mdb_db \<Rightarrow> mdb_page \<Rightarrow> mdb_page \<Rightarrow> nat \<Rightarrow> item \<Rightarrow> halves \<Rightarrow>
    (int + mdb_page \<times> mdb_page \<times> mdb_db \<times> answers) option" where
  "finish_split se as db mp rp newindx new h = (case h of
     Appended k \<Rightarrow>
       map_option (\<lambda>r. case r of Inl rc \<Rightarrow> Inl rc | Inr (rp, db, as) \<Rightarrow> Inr (mp, rp, db, as))
         (add_node se as db rp 0 (Some (it_key new)) (it_data new) (it_pgno new) (it_flags new))
   | Fixed mp rp k \<Rightarrow> Some (Inr (mp, rp, db, as))
   | Planned tmp ptrs i k \<Rightarrow> move_halves se tmp as db mp rp ptrs newindx new i)"

text \<open>The pages of the stack after the split, each with its new right sibling, if it got one.\<close>

type_synonym levels = "(mdb_page \<times> mdb_page option) list"

partial_function (option) mdb_page_split :: "split_env \<Rightarrow> bytes list \<Rightarrow> answers \<Rightarrow> mdb_db \<Rightarrow> (mdb_page \<times> nat) list \<Rightarrow> item \<Rightarrow> (int + levels \<times> mdb_db \<times> answers) option" where
  "mdb_page_split se tmps as db path new =
     (case path of
        [] \<Rightarrow> None
      | (mp, newindx) # ps \<Rightarrow>
          (case new_page se as db (mp_flags mp) of
             Inl rc \<Rightarrow> Some (Inl rc)
           | Inr (rp, db, as) \<Rightarrow> do {
               let rp = rp\<lparr>mp_pad := mp_pad mp\<rparr>;
               r \<leftarrow> parents se as db mp ps;
               (case r of
                  Inl rc \<Rightarrow> Some (Inl rc)
                | Inr (ps, db, as) \<Rightarrow> do {
                    c \<leftarrow> choose_split se tmps mp rp newindx new;
                    (case c of
                       Inl rc \<Rightarrow> Some (Inl rc)
                     | Inr (h, tmps) \<Rightarrow> do {
                         r \<leftarrow> (case ps of
                             [] \<Rightarrow> None
                           | (pp, pk) # pps \<Rightarrow>
                               if unat (SIZELEFT pp) < mdb_branch_size (Some (sepkey h))
                               then mdb_page_split se tmps as db ((pp, pk + 1) # pps) \<lparr>it_key = sepkey h, it_data = None, it_pgno = mp_pgno rp, it_flags = 0\<rparr>
                               else map_option (\<lambda>r. case r of
                                   Inl rc \<Rightarrow> Inl rc
                                 | Inr (pp, db, as) \<Rightarrow> Inr ((pp, None) # map (\<lambda>(p, i). (p, None)) pps, db, as))
                                 (add_node se as db pp (pk + 1) (Some (sepkey h)) None (mp_pgno rp) 0));
                         (case r of
                            Inl rc \<Rightarrow> Some (Inl rc)
                          | Inr (levels, db, as) \<Rightarrow>
                              map_option (\<lambda>r. case r of
                                  Inl rc \<Rightarrow> Inl rc
                                | Inr (mp, rp, db, as) \<Rightarrow> Inr ((mp, Some rp) # levels, db, as))
                                (finish_split se as db mp rp newindx new h))
                       })
                  })
             }))"

text \<open>Storing a node at the place of a cursor: in the page, or by a split.\<close>

definition put_node :: "split_env \<Rightarrow> bytes list \<Rightarrow> answers \<Rightarrow> mdb_db \<Rightarrow> (mdb_page \<times> nat) list \<Rightarrow> mdb_val \<Rightarrow> mdb_val \<Rightarrow> u32 \<Rightarrow> (int + levels \<times> mdb_db \<times> answers) option" where
  "put_node se tmps as db path key data nflags =
     (case path of
        [] \<Rightarrow> None
      | (p, i) # ps \<Rightarrow>
          let nsize = (if IS_LEAF2 p then mv_size key else mdb_leaf_size (se_nodemax se) key data)
          in if unat (SIZELEFT p) < nsize
             then mdb_page_split se tmps as db path \<lparr>it_key = key, it_data = Some data, it_pgno = P_INVALID, it_flags = nflags\<rparr>
             else map_option (\<lambda>r. case r of Inl rc \<Rightarrow> Inl rc | Inr (p, db, as) \<Rightarrow> Inr ((p, None) # map (\<lambda>(p, i). (p, None)) ps, db, as))
               (add_node se as db p i (Some key) (Some data) 0 nflags))"

section \<open>Where a page is split\<close>

lemma take_Suc_sum: "s < length sz \<Longrightarrow> sum_list (take (Suc s) sz) = sum_list (take s sz) + (sz ! s :: nat)"
  by (simp add: take_Suc_conv_app_nth)

lemma drop_Suc_sum: "s < length sz \<Longrightarrow> sum_list (drop s sz) = (sz ! s :: nat) + sum_list (drop (Suc s) sz)"
  by (simp flip: Cons_nth_drop_Suc)

lemma take_drop_sum: "sum_list (take s sz) + sum_list (drop s sz) = sum_list (sz :: nat list)"
  by (metis append_take_drop_id sum_list.append)

lemma count_up_spec:
  assumes "\<And>j. j < k \<Longrightarrow> space j = Some (sz ! j)" "k \<le> length sz" "i < k" "psize = sum_list (take i sz)" "psize \<le> pmax"
  shows "\<exists>s. count_up space pmax k i psize d = Some s \<and> i \<le> s \<and> s < k \<and> sum_list (take s sz) \<le> pmax \<and>
    (pmax < sum_list (take (Suc s) sz) \<or> s = k - 1)"
  using assms
proof (induction "k - i" arbitrary: i psize)
  case (Suc n)
  have i: "space i = Some (sz ! i)" "i < length sz" using Suc.prems by auto
  show ?case
  proof (cases "pmax < psize + sz ! i \<or> i = k - 1")
    case True
    then have "count_up space pmax k i psize d = Some i" using i Suc.prems(3) by (subst count_up.simps) auto
    then show ?thesis using True Suc.prems(3-5) take_Suc_sum [OF i(2)] by auto
  next
    case False
    then have "count_up space pmax k i psize d = count_up space pmax k (i + 1) (psize + sz ! i) d" using i Suc.prems(3) by (subst count_up.simps) auto
    moreover have "\<exists>s. count_up space pmax k (i + 1) (psize + sz ! i) d = Some s \<and> i + 1 \<le> s \<and> s < k \<and> sum_list (take s sz) \<le> pmax \<and>
        (pmax < sum_list (take (Suc s) sz) \<or> s = k - 1)"
      using Suc.hyps(2) Suc.prems False take_Suc_sum [OF i(2)] by (intro Suc.hyps(1)) auto
    ultimately show ?thesis by auto
  qed
qed simp

lemma count_down_spec:
  assumes "\<And>j. j < length sz \<Longrightarrow> space j = Some (sz ! j)" "k < i" "i < length sz" "psize = sum_list (drop (Suc i) sz)" "psize \<le> pmax"
  shows "\<exists>s. count_down space pmax k i psize d = Some s \<and> k + 2 \<le> s \<and> s \<le> i + 1 \<and> sum_list (drop s sz) \<le> pmax \<and>
    (pmax < sum_list (drop (s - 1) sz) \<or> s = k + 2)"
  using assms
proof (induction "i - k" arbitrary: i psize)
  case (Suc n)
  have i: "space i = Some (sz ! i)" using Suc.prems by auto
  show ?case
  proof (cases "pmax < psize + sz ! i \<or> i = k + 1")
    case True
    then have "count_down space pmax k i psize d = Some (i + 1)" using i Suc.prems(2) by (subst count_down.simps) auto
    then show ?thesis using True Suc.prems(2,4,5) drop_Suc_sum [OF Suc.prems(3)] by auto
  next
    case False
    then have "count_down space pmax k i psize d = count_down space pmax k (i - 1) (psize + sz ! i) d" using i Suc.prems(2) by (subst count_down.simps) auto
    moreover have "\<exists>s. count_down space pmax k (i - 1) (psize + sz ! i) d = Some s \<and> k + 2 \<le> s \<and> s \<le> i - 1 + 1 \<and> sum_list (drop s sz) \<le> pmax \<and>
        (pmax < sum_list (drop (s - 1) sz) \<or> s = k + 2)"
      using Suc.hyps(2) Suc.prems False drop_Suc_sum [OF Suc.prems(3)] by (intro Suc.hyps(1)) auto
    ultimately show ?thesis using Suc.prems(2) by auto
  qed
qed simp

text \<open>When the sizes are looked at, both halves fit, where on a branch the first key of the right half does not count;
  in any case neither half is empty.\<close>

lemma split_point_fits:
  assumes sp: "\<And>j. j \<le> n \<Longrightarrow> space j = Some (sz ! j)" and len: "length sz = n + 1" "2 \<le> n" "i \<le> n"
    and small: "\<And>j. j \<le> n \<Longrightarrow> 2 * sz ! j \<le> psize - 16 \<and> 10 \<le> sz ! j" and old: "sum_list sz \<le> psize - 16 + sz ! i"
  shows "\<exists>s. split_point psize leaf n i nsize space = Some s \<and> 0 < s \<and> s \<le> n \<and>
    (checked psize n i nsize \<longrightarrow> sum_list (take s sz) \<le> psize - 16 \<and> 10 + sum_list (drop (Suc s) sz) \<le> psize - 16 \<and>
      (leaf \<longrightarrow> sum_list (drop s sz) \<le> psize - 16)) \<and>
    (\<not> checked psize n i nsize \<longrightarrow> s = (n + 1) div 2)"
proof -
  define pmax where "pmax = psize - 16"
  let ?h = "(n + 1) div 2"
  have h: "0 < ?h" "?h + 1 \<le> n \<or> n = 2 \<and> ?h = 1" "?h \<le> n" using len(2) by auto
  have tot: "sum_list (take s sz) + sum_list (drop s sz) = sum_list sz" for s by (rule take_drop_sum)
  have el: "2 * sz ! j \<le> pmax" "10 \<le> sz ! j" if "j \<le> n" for j using small [OF that] by (simp_all add: pmax_def)
  have old: "sum_list sz \<le> pmax + sz ! i" using old by (simp add: pmax_def)
  have first: "sum_list (take (Suc 0) sz) \<le> pmax" using take_Suc_sum [of 0 sz] len(1) el(1) [of 0] by simp
  have others: "sum_list (take s sz) \<le> pmax" if "s \<le> i" for s
  proof -
    have "sum_list (drop i sz) = sz ! i + sum_list (drop (Suc i) sz)" using drop_Suc_sum [of i sz] len by simp
    then have "sum_list (take i sz) \<le> pmax" using tot [of i] old by simp
    moreover have "sum_list (take s sz) \<le> sum_list (take i sz)"
      using that by (metis append_take_drop_id le_add1 min.absorb1 sum_list.append take_take)
    ultimately show ?thesis by simp
  qed
  have others': "sum_list (drop s sz) \<le> pmax" if "i < s" for s
  proof -
    have "sum_list (take (Suc i) sz) = sum_list (take i sz) + sz ! i" using take_Suc_sum [of i sz] len by simp
    then have "sum_list (drop (Suc i) sz) \<le> pmax" using tot [of "Suc i"] old by simp
    moreover have "drop s sz = drop (s - Suc i) (drop (Suc i) sz)" using that by simp
    then have "sum_list (drop s sz) \<le> sum_list (drop (Suc i) sz)" by (metis append_take_drop_id le_add2 sum_list.append)
    ultimately show ?thesis by simp
  qed
  consider "\<not> checked psize n i nsize" | "checked psize n i nsize" "i \<le> ?h \<or> i \<ge> n" | "checked psize n i nsize" "\<not> (i \<le> ?h \<or> i \<ge> n)" by blast
  then show ?thesis
  proof cases
    case 1
    then show ?thesis using h by (simp add: split_point_def)
  next
    case 2
    define k where "k = (if i \<ge> n then n else ?h + 1 + (if leaf then 1 else 0))"
    have k: "0 < k" "k \<le> n + 1" "k \<le> length sz" using h len by (auto simp: k_def)
    obtain s where s: "count_up space pmax k 0 0 ?h = Some s" "s < k" "sum_list (take s sz) \<le> pmax" "pmax < sum_list (take (Suc s) sz) \<or> s = k - 1"
      using count_up_spec [of k space sz 0 0 pmax ?h] sp k by auto
    have eq: "split_point psize leaf n i nsize space = Some s" using s(1) 2 unfolding split_point_def Let_def k_def pmax_def by simp
    have sn: "s \<le> n" using s(2) k(2) by simp
    have big: "sum_list (drop s sz) \<le> pmax" if "pmax < sum_list (take (Suc s) sz)"
    proof -
      have "sum_list (drop (Suc s) sz) < sz ! i" using tot [of "Suc s"] old that by simp
      then show ?thesis using drop_Suc_sum [of s sz] sn len(1) el(1) [OF sn] el(1) [OF len(3)] by simp
    qed
    have pos: "0 < s"
    proof (rule ccontr)
      assume "\<not> 0 < s"
      then have "s = k - 1" "s = 0" using s(4) first by auto
      then show False using h len k(1) by (auto simp: k_def split: if_splits)
    qed
    have right: "sum_list (drop s sz) \<le> pmax \<or> \<not> leaf \<and> i = s"
    proof (cases "pmax < sum_list (take (Suc s) sz)")
      case False
      then have sk: "s = k - 1" using s(4) by blast
      show ?thesis
      proof (cases "i \<ge> n")
        case True
        then have "s = n - 1" "i = n" using sk len(3) by (simp_all add: k_def)
        then have "sum_list (drop s sz) = sz ! s + sz ! n" using drop_Suc_sum [of s sz] drop_Suc_sum [of n sz] len by simp
        then show ?thesis using el(1) [of s] el(1) [of n] sn by simp
      next
        case False
        then have "s = ?h + (if leaf then 1 else 0)" "i \<le> ?h" using sk 2(2) by (auto simp: k_def)
        then have "i < s \<or> \<not> leaf \<and> i = s" by (auto split: if_splits)
        then show ?thesis using others' by blast
      qed
    qed (use big in blast)
    have tail: "10 + sum_list (drop (Suc s) sz) \<le> pmax"
    proof (cases "i = s")
      case True
      have "sum_list (take s sz) \<ge> 10" using take_Suc_sum [of "s - 1" sz] pos sn len(1) el(2) [of "s - 1"] by (simp add: le_diff_conv trans_le_add2)
      then show ?thesis using True tot [of s] drop_Suc_sum [of s sz] sn len(1) old by simp
    next
      case False
      then show ?thesis using right drop_Suc_sum [of s sz] sn len(1) el(2) [OF sn] by auto
    qed
    show ?thesis using eq pos sn s(3) right tail 2(1) by (auto simp: pmax_def)
  next
    case 3
    have hk: "?h - 1 + 2 = ?h + 1" "?h - 1 < n" using h by simp_all
    obtain s where s: "count_down space pmax (?h - 1) n 0 ?h = Some s" "?h + 1 \<le> s" "s \<le> n + 1" "sum_list (drop s sz) \<le> pmax"
      "pmax < sum_list (drop (s - 1) sz) \<or> s = ?h + 1"
      using count_down_spec [of sz space "?h - 1" n 0 pmax ?h] sp len(1) unfolding hk(1) using hk(2) by auto
    have eq: "split_point psize leaf n i nsize space = Some s" using s(1) 3 unfolding split_point_def Let_def pmax_def by simp
    have sn: "s \<le> n"
    proof (rule ccontr)
      assume "\<not> s \<le> n"
      then have sn: "s = n + 1" using s(3) by simp
      then have "sum_list (drop (s - 1) sz) = sz ! n" using drop_Suc_sum [of n sz] len by simp
      then show False using s(5) sn el(1) [of n] hk(2) 3(2) by auto
    qed
    have left: "sum_list (take s sz) \<le> pmax"
    proof (cases "s \<le> i")
      case False
      then have "pmax < sum_list (drop (s - 1) sz)" using s(5) 3(2) by auto
      moreover have "sum_list (take s sz) = sum_list (take (s - 1) sz) + sz ! (s - 1)" using take_Suc_sum [of "s - 1" sz] s(2) sn len(1) by simp
      moreover have "2 * sz ! (s - 1) \<le> pmax" using sn by (intro el(1)) simp
      ultimately show ?thesis using tot [of "s - 1"] old el(1) [OF len(3)] by simp
    qed (use others in blast)
    have "10 + sum_list (drop (Suc s) sz) \<le> pmax" using s(4) drop_Suc_sum [of s sz] sn len(1) el(2) [OF sn] by simp
    then show ?thesis using eq sn left s(2,4) 3(1) by (auto simp: pmax_def)
  qed
qed

end
