(* ===== verification/Lmdb_Split_Correct.thy ===== *)
theory Lmdb_Split_Correct
  imports Lmdb_Split
begin

text \<open>
  What \<^verbatim>\<open>mdb_page_split\<close> does to the lists of nodes that the pages of the stack stand for.
\<close>

section \<open>The nodes that are moved\<close>

lemma NODEPTR_node_at: "NODEPTR b i = do { ptr \<leftarrow> get16 b (2 * i); node_at ptr }"
  by (simp add: NODEPTR_def node_at_def)

lemma those_mapI: "(\<And>x. x \<in> set xs \<Longrightarrow> g x = Some (f x)) \<Longrightarrow> those (map g xs) = Some (map f xs)"
  by (induction xs) auto

lemma EVEN_add2: "EVEN (n + 2) = EVEN n + 2"
  by (simp add: EVEN_def)

lemma page_ptrs:
  assumes "page_rep psz p ns"
  obtains ptrs where "copy_ptrs p i = Some (take i ptrs @ 0 # drop i ptrs)" "length ptrs = length ns"
    "\<And>k. k < length ns \<Longrightarrow> \<exists>q. node_at (ptrs ! k) = Some q \<and> node_there p k (ns ! k) q \<and> node_wf (IS_LEAF p) (ns ! k)"
proof -
  have n: "NUMKEYS p = length ns" using page_rep_keys [OF assms] by blast
  have "\<exists>ptr q. get16 (mp_body p) (2 * k) = Some ptr \<and> node_at ptr = Some q \<and> node_there p k (ns ! k) q \<and> node_wf (IS_LEAF p) (ns ! k)"
    if k: "k < length ns" for k
  proof -
    obtain q where q: "node_there p k (ns ! k) q" "node_wf (IS_LEAF p) (ns ! k)" by (rule page_nodes [OF assms k])
    then have "NODEPTR (mp_body p) k = Some q" by (simp add: node_there_def)
    then show ?thesis using q by (auto simp: NODEPTR_node_at bind_eq_Some_conv)
  qed
  then obtain f where f: "\<And>k. k < length ns \<Longrightarrow> get16 (mp_body p) (2 * k) = Some (f k) \<and>
      (\<exists>q. node_at (f k) = Some q \<and> node_there p k (ns ! k) q \<and> node_wf (IS_LEAF p) (ns ! k))" by metis
  have "those (map (\<lambda>k. get16 (mp_body p) (2 * k)) [0..<length ns]) = Some (map f [0..<length ns])"
    using f by (intro those_mapI) simp
  then have "copy_ptrs p i = Some (take i (map f [0..<length ns]) @ 0 # drop i (map f [0..<length ns]))" by (simp add: copy_ptrs_def n)
  then show thesis by (rule that) (use f in simp_all)
qed

lemma node_pgno_parts:
  "ucast (node_pgno n) = nd_lo n" "ucast (drop_bit 16 (node_pgno n)) = nd_hi n" "ucast (drop_bit 32 (node_pgno n)) = nd_flags n"
  unfolding node_pgno_def by (intro bit_word_eqI; auto simp: bit_simps dest: bit_imp_le_length)+

lemma branch_node_pgno: "branch_node (node_pgno n) k = n\<lparr>nd_key := k, nd_data := []\<rparr>"
  by (simp add: branch_node_def node_pgno_parts)

definition data_size :: "node \<Rightarrow> nat" where
  "data_size n = unat (nd_lo n) + 65536 * unat (nd_hi n)"

text \<open>A node of a leaf that a split may move: its data stays where it is.\<close>

definition movable :: "split_env \<Rightarrow> bool \<Rightarrow> node \<Rightarrow> bool" where
  "movable se leaf n \<longleftrightarrow> node_wf leaf n \<and> 2 * (node_size n + 2) \<le> se_psize se - PAGEHDRSZ \<and>
     (leaf \<and> \<not> F_ISSET (nd_flags n) F_BIGDATA \<longrightarrow> NODESIZE + length (nd_key n) + length (nd_data n) \<le> se_nodemax se)"

lemma old_node:
  assumes "node_at ptr = Some q" "node_there p k n q" "node_wf (IS_LEAF p) n"
  shows "old_space p ptr = Some (node_size n + 2)"
    "\<exists>r. old_item p ptr = Some \<lparr>it_key = val (nd_key n), it_data = (if IS_LEAF p then Some \<lparr>mv_size = data_size n, mv_data = nd_data n @ r\<rparr> else None),
        it_pgno = (if IS_LEAF p then 0 else node_pgno n), it_flags = ucast (nd_flags n)\<rparr>"
proof -
  obtain d where d: "NODEDSZ (mp_body p) q = Some d" "unat d = data_size n" using assms(2) by (auto simp: node_there_def data_size_def)
  have k: "unat (of_nat (length (nd_key n)) :: u16) = length (nd_key n)" using assms(2) by (intro unat16) (simp add: node_there_def)
  have t: "NODEKSZ (mp_body p) q = Some (of_nat (length (nd_key n)))" "NODEFLAGS (mp_body p) q = Some (nd_flags n)" "NODEKEY (mp_body p) q = Some (nd_key n)"
    "NODEPGNO (mp_body p) q = Some (node_pgno n)" using assms(2) by (auto simp: node_there_def)
  have len: "length (nd_data n) = (if \<not> IS_LEAF p then 0 else if F_ISSET (nd_flags n) F_BIGDATA then 8 else data_size n)"
    using assms(3) by (simp add: node_wf_def data_size_def)
  have eq: "(if IS_LEAF p then (if F_ISSET (nd_flags n) F_BIGDATA then 8 else data_size n) else 0) = length (nd_data n)" using len by simp
  have "old_space p ptr = Some (EVEN (NODESIZE + length (nd_key n) + 2 + length (nd_data n)))"
    unfolding old_space_def assms(1) Option.bind.simps t d(1) d(2) k eq ..
  then show "old_space p ptr = Some (node_size n + 2)"
    using EVEN_add2 [of "NODESIZE + length (nd_key n) + length (nd_data n)"] by (simp add: node_size_def add.commute add.left_commute)
  have "bytes_at (mp_body p) (q + NODESIZE + length (nd_key n)) (length (nd_data n)) = Some (nd_data n)" using assms(2) by (auto simp: node_there_def)
  then have "take (length (nd_data n)) (drop (q + NODESIZE + length (nd_key n)) (mp_body p)) = nd_data n" by (auto simp: bytes_at_def split: if_splits)
  then obtain r where "drop (q + NODESIZE + length (nd_key n)) (mp_body p) = nd_data n @ r" by (metis append_take_drop_id)
  then show "\<exists>r. old_item p ptr = Some \<lparr>it_key = val (nd_key n), it_data = (if IS_LEAF p then Some \<lparr>mv_size = data_size n, mv_data = nd_data n @ r\<rparr> else None),
        it_pgno = (if IS_LEAF p then 0 else node_pgno n), it_flags = ucast (nd_flags n)\<rparr>"
    by (auto simp: old_item_def assms(1) t d)
qed

section \<open>Adding them\<close>

text \<open>On a branch the first node has no key.\<close>

definition placed :: "bool \<Rightarrow> nat \<Rightarrow> node \<Rightarrow> node" where
  "placed leaf j n = (if \<not> leaf \<and> j = 0 then n\<lparr>nd_key := []\<rparr> else n)"

text \<open>Adding the item to any page puts the node there, if it has room, and takes the answers of the allocator from
  \<open>as\<close> to \<open>as'\<close>.\<close>

definition adds :: "split_env \<Rightarrow> bool \<Rightarrow> answers \<Rightarrow> item \<Rightarrow> node \<Rightarrow> answers \<Rightarrow> bool" where
  "adds se leaf as it n as' \<longleftrightarrow> (\<forall>p db ns j. page_rep (se_psize se) p ns \<and> IS_LEAF p = leaf \<and> j \<le> length ns \<longrightarrow>
     (let m = placed leaf j n; r = add_node se as db p j (Some (if \<not> leaf \<and> j = 0 then val [] else it_key it)) (it_data it) (it_pgno it) (it_flags it)
      in if page_free (se_psize se) ns < node_size m + 2 then r = Some (Inl MDB_PAGE_FULL)
         else \<exists>p' db'. r = Some (Inr (p', db', as')) \<and> page_rep (se_psize se) p' (insert_at j m ns) \<and> mp_flags p' = mp_flags p \<and> mp_pgno p' = mp_pgno p \<and> lowest p' j))"

lemma addsI:
  assumes "\<And>p db ns j. page_rep (se_psize se) p ns \<Longrightarrow> IS_LEAF p = leaf \<Longrightarrow> j \<le> length ns \<Longrightarrow>
     if page_free (se_psize se) ns < node_size (placed leaf j n) + 2
     then mdb_node_add (\<lambda>_. answer as) (se_psize se) (se_nodemax se) (se_pad se) db p j (Some (if \<not> leaf \<and> j = 0 then val [] else it_key it)) (it_data it) (it_pgno it) (it_flags it) = Some Page_Full
     else \<exists>p'. mdb_node_add (\<lambda>_. answer as) (se_psize se) (se_nodemax se) (se_pad se) db p j (Some (if \<not> leaf \<and> j = 0 then val [] else it_key it)) (it_data it) (it_pgno it) (it_flags it) = Some (Added p' db None) \<and>
       page_rep (se_psize se) p' (insert_at j (placed leaf j n) ns) \<and> mp_flags p' = mp_flags p \<and> mp_pgno p' = mp_pgno p \<and> lowest p' j"
  shows "adds se leaf as it n as"
  unfolding adds_def Let_def
proof (intro allI impI)
  fix p db ns j assume "page_rep (se_psize se) p ns \<and> IS_LEAF p = leaf \<and> j \<le> length ns"
  then have a: "page_rep (se_psize se) p ns" "IS_LEAF p = leaf" "j \<le> length ns" by blast+
  let ?m = "placed leaf j n" and ?r = "add_node se as db p j (Some (if \<not> leaf \<and> j = 0 then val [] else it_key it)) (it_data it) (it_pgno it) (it_flags it)"
  show "if page_free (se_psize se) ns < node_size ?m + 2 then ?r = Some (Inl MDB_PAGE_FULL)
     else \<exists>p' db'. ?r = Some (Inr (p', db', as)) \<and> page_rep (se_psize se) p' (insert_at j ?m ns) \<and> mp_flags p' = mp_flags p \<and> mp_pgno p' = mp_pgno p \<and> lowest p' j"
    using assms [OF a, of db] by (auto simp: add_node_def split: if_splits)
qed

text \<open>An old node of a leaf.\<close>

lemma leaf_node_same: "leaf_node (ucast (nd_flags n)) (nd_key n) (data_size n) (nd_data n) = n"
proof -
  have z: "(65536 :: u16) = 0" by (simp add: word_unat_eq_iff)
  have "65536 * nd_hi n = 0" unfolding z by simp
  then have "of_nat (unat (nd_lo n) + 65536 * unat (nd_hi n)) = nd_lo n" by simp
  moreover have "(unat (nd_lo n) + 65536 * unat (nd_hi n)) div 65536 = unat (nd_hi n)" using unsigned_less [of "nd_lo n", where ?'a = nat] by simp
  moreover have "ucast (ucast (nd_flags n) :: u32) = nd_flags n" by (rule bit_word_eqI) (auto simp: bit_simps dest: bit_imp_le_length)
  ultimately show ?thesis by (simp add: leaf_node_def data_size_def)
qed

lemma not_reserve: "\<not> F_ISSET (ucast (fl :: u16) :: u32) MDB_RESERVE"
proof
  assume "F_ISSET (ucast fl :: u32) MDB_RESERVE"
  then have "bit ((ucast fl :: u32) AND MDB_RESERVE) 16" by (simp add: F_ISSET_def)
  then show False using bit_imp_le_length [of fl 16] by (simp add: bit_simps)
qed

lemma adds_old_leaf:
  assumes m: "movable se True n" and it: "it = \<lparr>it_key = val (nd_key n), it_data = Some \<lparr>mv_size = data_size n, mv_data = nd_data n @ r\<rparr>, it_pgno = pg, it_flags = ucast (nd_flags n)\<rparr>"
  shows "adds se True as it n as"
proof (rule addsI)
  fix p :: mdb_page and db ns j
  assume rep: "page_rep (se_psize se) p ns" "IS_LEAF p = True" and j: "j \<le> length ns"
  obtain s: "unat (SIZELEFT p) = page_free (se_psize se) ns" "\<not> mp_upper p < mp_lower p" "\<not> IS_LEAF2 p" by (rule page_repE [OF rep(1)], rule that)
  let ?fl = "ucast (nd_flags n) :: u32" and ?d = "\<lparr>mv_size = data_size n, mv_data = nd_data n @ r\<rparr>"
  have wf: "node_wf True n" and nm: "\<not> F_ISSET (nd_flags n) F_BIGDATA \<Longrightarrow> NODESIZE + length (nd_key n) + length (nd_data n) \<le> se_nodemax se"
    using m by (auto simp: movable_def)
  have big: "F_ISSET ?fl (ucast F_BIGDATA) \<longleftrightarrow> F_ISSET (nd_flags n) F_BIGDATA" using isset_one [of ?fl] isset_one [of "nd_flags n"] by (simp add: bit_simps)
  have len: "length (nd_data n) = (if F_ISSET (nd_flags n) F_BIGDATA then 8 else data_size n)" using wf by (simp add: node_wf_def data_size_def)
  have sz: "EVEN (NODESIZE + length (nd_key n) + length (nd_data n)) = node_size n" by (simp add: node_size_def)
  have eq: "mdb_node_add (\<lambda>_. answer as) (se_psize se) (se_nodemax se) (se_pad se) db p j (Some (val (nd_key n))) (Some ?d) pg ?fl =
      (if page_free (se_psize se) ns < node_size n + 2 then Some Page_Full else finish_add db (node_update p j (Some (val (nd_key n))) ?d pg ?fl (node_size n) None))"
  proof (cases "F_ISSET (nd_flags n) F_BIGDATA")
    case True
    then have "EVEN (NODESIZE + length (nd_key n) + 8) = node_size n" using sz len by simp
    then show ?thesis unfolding mdb_node_add_def Let_def using s rep(2) True big by simp
  next
    case False
    then have "EVEN (NODESIZE + length (nd_key n) + data_size n) = node_size n" "\<not> NODESIZE + length (nd_key n) + data_size n > se_nodemax se"
      using sz len nm by simp_all
    then show ?thesis unfolding mdb_node_add_def Let_def using s rep(2) False big by (simp add: add.assoc)
  qed
  have put: "put_data ?fl ?d (A @ x @ t) (length A) None = Some (A @ nd_data n @ t, None)" if "length x = length (nd_data n)" for A x t
    using that big len not_reserve [of "nd_flags n"] by (auto simp: put_data_def ndata_bytes_def blit_at)
  have "\<exists>p'. node_update p j (Some (val (nd_key n))) ?d pg ?fl (node_size n) None = Some (p', None) \<and>
      page_rep (se_psize se) p' (insert_at j n ns) \<and> mp_flags p' = mp_flags p \<and> mp_pgno p' = mp_pgno p \<and> lowest p' j" if "node_size n + 2 \<le> page_free (se_psize se) ns"
    using that put wf rep(2) leaf_node_same [of n] by (intro node_update_low [OF rep(1) j, where d = "nd_data n"]) simp_all
  then show "if page_free (se_psize se) ns < node_size (placed True j n) + 2
     then mdb_node_add (\<lambda>_. answer as) (se_psize se) (se_nodemax se) (se_pad se) db p j (Some (if \<not> True \<and> j = 0 then val [] else it_key it)) (it_data it) (it_pgno it) (it_flags it) = Some Page_Full
     else \<exists>p'. mdb_node_add (\<lambda>_. answer as) (se_psize se) (se_nodemax se) (se_pad se) db p j (Some (if \<not> True \<and> j = 0 then val [] else it_key it)) (it_data it) (it_pgno it) (it_flags it) = Some (Added p' db None) \<and>
       page_rep (se_psize se) p' (insert_at j (placed True j n) ns) \<and> mp_flags p' = mp_flags p \<and> mp_pgno p' = mp_pgno p \<and> lowest p' j"
    using eq by (auto simp: it placed_def finish_add_def)
qed

text \<open>A node of a branch, old or new.\<close>

lemma adds_branch:
  assumes "length (nd_key n) < 2 ^ 16" "n = branch_node (it_pgno it) (nd_key n)" "it_key it = val (nd_key n)" "it_data it = None"
  shows "adds se False as it n as"
proof (rule addsI)
  fix p :: mdb_page and db ns j
  assume rep: "page_rep (se_psize se) p ns" "IS_LEAF p = False" and j: "j \<le> length ns"
  let ?k = "if j = 0 then [] else nd_key n"
  have k: "(if \<not> False \<and> j = 0 then val [] else it_key it) = val ?k" using assms(3) by simp
  have "n\<lparr>nd_key := []\<rparr> = (branch_node (it_pgno it) (nd_key n))\<lparr>nd_key := []\<rparr>" by (rule arg_cong [OF assms(2)])
  also have "\<dots> = branch_node (it_pgno it) []" by (simp add: branch_node_def)
  finally have n: "branch_node (it_pgno it) ?k = placed False j n" using assms(2) [symmetric] by (simp add: placed_def)
  show "if page_free (se_psize se) ns < node_size (placed False j n) + 2
     then mdb_node_add (\<lambda>_. answer as) (se_psize se) (se_nodemax se) (se_pad se) db p j (Some (if \<not> False \<and> j = 0 then val [] else it_key it)) (it_data it) (it_pgno it) (it_flags it) = Some Page_Full
     else \<exists>p'. mdb_node_add (\<lambda>_. answer as) (se_psize se) (se_nodemax se) (se_pad se) db p j (Some (if \<not> False \<and> j = 0 then val [] else it_key it)) (it_data it) (it_pgno it) (it_flags it) = Some (Added p' db None) \<and>
       page_rep (se_psize se) p' (insert_at j (placed False j n) ns) \<and> mp_flags p' = mp_flags p \<and> mp_pgno p' = mp_pgno p \<and> lowest p' j"
    using mdb_node_add_branch [OF rep(1) _ j, where key = "Some (val ?k)" and alloc = "\<lambda>_. answer as" and psize = "se_psize se" and nodemax = "se_nodemax se"
        and pad = "se_pad se" and db = db and pgno = "it_pgno it" and flags = "it_flags it"]
      rep(2) assms(1) unfolding k assms(4) by (simp only: val_simps n) (auto simp: n)
qed

text \<open>A new node of a leaf, with its data in the node.\<close>

lemma adds_new_leaf:
  assumes len: "length k < 2 ^ 16" "length d < 2 ^ 32" and fl: "\<not> F_ISSET flags (ucast F_BIGDATA)" "\<not> F_ISSET flags MDB_RESERVE"
    and size: "NODESIZE + length k + length d \<le> se_nodemax se"
    and it: "it = \<lparr>it_key = val k, it_data = Some (val d), it_pgno = pg, it_flags = flags\<rparr>"
  shows "adds se True as it (leaf_node flags k (length d) d) as"
proof (rule addsI)
  fix p :: mdb_page and db ns j
  assume rep: "page_rep (se_psize se) p ns" "IS_LEAF p = True" and j: "j \<le> length ns"
  let ?n = "leaf_node flags k (length d) d"
  obtain s: "unat (SIZELEFT p) = page_free (se_psize se) ns" "\<not> mp_upper p < mp_lower p" "\<not> IS_LEAF2 p" by (rule page_repE [OF rep(1)], rule that)
  have eq: "mdb_node_add (\<lambda>_. answer as) (se_psize se) (se_nodemax se) (se_pad se) db p j (Some (val k)) (Some (val d)) pg flags =
      (if page_free (se_psize se) ns < node_size ?n + 2 then Some Page_Full
       else finish_add db (node_update p j (Some (val k)) (val d) pg flags (node_size ?n) None))"
    unfolding mdb_node_add_def Let_def using s rep(2) size fl(1) leaf_node_size [of flags k "length d" d] by (simp add: add.assoc)
  have "\<exists>p'. node_update p j (Some (val k)) (val d) pg flags (node_size ?n) None = Some (p', None) \<and>
      page_rep (se_psize se) p' (insert_at j ?n ns) \<and> mp_flags p' = mp_flags p \<and> mp_pgno p' = mp_pgno p \<and> lowest p' j" if "node_size ?n + 2 \<le> page_free (se_psize se) ns"
    using that rep(2) fl leaf_node_wf(1) [OF len fl(1)] by (intro node_update_low [OF rep(1) j, where d = d] put_data_plain) simp_all
  then show "if page_free (se_psize se) ns < node_size (placed True j ?n) + 2
     then mdb_node_add (\<lambda>_. answer as) (se_psize se) (se_nodemax se) (se_pad se) db p j (Some (if \<not> True \<and> j = 0 then val [] else it_key it)) (it_data it) (it_pgno it) (it_flags it) = Some Page_Full
     else \<exists>p'. mdb_node_add (\<lambda>_. answer as) (se_psize se) (se_nodemax se) (se_pad se) db p j (Some (if \<not> True \<and> j = 0 then val [] else it_key it)) (it_data it) (it_pgno it) (it_flags it) = Some (Added p' db None) \<and>
       page_rep (se_psize se) p' (insert_at j (placed True j ?n) ns) \<and> mp_flags p' = mp_flags p \<and> mp_pgno p' = mp_pgno p \<and> lowest p' j"
    using eq by (auto simp: it placed_def finish_add_def)
qed

section \<open>Moving the nodes\<close>

definition place :: "bool \<Rightarrow> node list \<Rightarrow> node list" where
  "place leaf ns = (case ns of [] \<Rightarrow> [] | n # ns \<Rightarrow> placed leaf 0 n # ns)"

text \<open>The space the nodes need on a page.\<close>

definition node_space :: "node list \<Rightarrow> nat" where
  "node_space ns = sum_list (map (\<lambda>n. node_size n + 2) ns)"

lemma node_space_simps [simp]: "node_space [] = 0" "node_space (n # ns) = node_size n + 2 + node_space ns" "node_space (ms @ ns) = node_space ms + node_space ns"
  by (simp_all add: node_space_def)

lemma page_free_space: "page_free psz ns = psz - 16 - node_space ns"
proof -
  have "node_space ns = sum_list (map node_size ns) + 2 * length ns" by (induction ns) auto
  then show ?thesis by (simp add: page_free_def)
qed

lemma page_space: "page_rep psz p ns \<Longrightarrow> node_space ns + 16 \<le> psz \<and> psz \<le> 32768"
proof -
  assume a: "page_rep psz p ns"
  obtain ss free heap where s: "slots_rep psz p ss free heap" "ns = map snd ss" by (rule page_repE [OF a], rule that)
  have "node_space ns = sum_list (map (node_size \<circ> snd) ss) + 2 * length ss" unfolding s(2) by (induction ss) auto
  moreover have "sum_list (map (node_size \<circ> snd) ss) = length heap" "psz \<le> 32768" using s(1) unfolding slots_rep_def by blast+
  ultimately show ?thesis using slots_rep_sizes(1) [OF s(1)] by simp
qed

lemma placed_Suc [simp]: "placed leaf (Suc j) n = n"
  by (simp add: placed_def)

lemma node_size_placed: "node_size (placed leaf j n) \<le> node_size n"
  unfolding placed_def node_size_def EVEN_def by (auto intro: div_le_mono)

lemma insert_at_end: "insert_at (length ns) n ns = ns @ [n]"
  by (simp add: insert_at_def)

text \<open>The page is filled with the nodes, or they do not fit.\<close>

definition fills :: "nat \<Rightarrow> mdb_page \<Rightarrow> answers \<Rightarrow> node list \<Rightarrow> (int + mdb_page \<times> mdb_db \<times> answers) option \<Rightarrow> bool" where
  "fills psz p as ns r \<longleftrightarrow>
     (if node_space ns + 16 \<le> psz
      then \<exists>p' db'. r = Some (Inr (p', db', as)) \<and> page_rep psz p' ns \<and> mp_flags p' = mp_flags p \<and> mp_pgno p' = mp_pgno p \<and>
        (ns \<noteq> [] \<longrightarrow> lowest p' (length ns - 1))
      else r = Some (Inl MDB_PAGE_FULL))"

lemma fills_same: "mp_flags p' = mp_flags p \<Longrightarrow> mp_pgno p' = mp_pgno p \<Longrightarrow> fills psz p' as ns r = fills psz p as ns r"
  by (simp add: fills_def)

lemma move_nodes_from:
  assumes "page_rep (se_psize se) p ns0" "IS_LEAF p = leaf" "ns0 \<noteq> [] \<Longrightarrow> lowest p (length ns0 - 1)"
    "list_all2 (\<lambda>i n. \<exists>it. pick i = Some it \<and> adds se leaf as it n as) is ns"
  shows "fills (se_psize se) p as (ns0 @ (if ns0 = [] then place leaf ns else ns)) (move_nodes se leaf pick as db p is (length ns0))"
  using assms(4,1-3)
proof (induction "is" ns arbitrary: p db ns0 rule: list_all2_induct)
  case Nil
  then show ?case using page_space [of "se_psize se" p ns0] by (cases "ns0 = []") (simp_all add: place_def fills_def)
next
  case (Cons i "is" n ns)
  obtain it where it: "pick i = Some it" "adds se leaf as it n as" using Cons.hyps by blast
  let ?psz = "se_psize se" and ?j = "length ns0" and ?m = "placed leaf (length ns0) n"
  let ?r = "add_node se as db p ?j (Some (if \<not> leaf \<and> ?j = 0 then val [] else it_key it)) (it_data it) (it_pgno it) (it_flags it)"
  have ms: "(if ns0 = [] then place leaf (n # ns) else n # ns) = ?m # ns" by (cases ns0) (simp_all add: place_def)
  have sp: "node_space ns0 + 16 \<le> ?psz" using page_space [OF Cons.prems(1)] by blast
  have one: "if page_free ?psz ns0 < node_size ?m + 2 then ?r = Some (Inl MDB_PAGE_FULL)
     else \<exists>p' db'. ?r = Some (Inr (p', db', as)) \<and> page_rep ?psz p' (insert_at ?j ?m ns0) \<and> mp_flags p' = mp_flags p \<and> mp_pgno p' = mp_pgno p \<and> lowest p' ?j"
    using it(2) Cons.prems unfolding adds_def Let_def by blast
  show ?case
  proof (cases "page_free ?psz ns0 < node_size ?m + 2")
    case True
    then have "?r = Some (Inl MDB_PAGE_FULL)" using one by simp
    then have "move_nodes se leaf pick as db p (i # is) ?j = Some (Inl MDB_PAGE_FULL)" using it(1) by simp
    moreover have "\<not> node_space (ns0 @ ?m # ns) + 16 \<le> ?psz" using True sp by (simp add: page_free_space)
    ultimately show ?thesis unfolding ms fills_def by simp
  next
    case False
    then obtain p' db' where r: "?r = Some (Inr (p', db', as))" "page_rep ?psz p' (ns0 @ [?m])" "mp_flags p' = mp_flags p" "mp_pgno p' = mp_pgno p" "lowest p' ?j"
      using one by (auto simp: insert_at_end)
    have leaf: "IS_LEAF p' = leaf" using r(3) Cons.prems(2) by (simp add: IS_LEAF_def)
    have eq: "move_nodes se leaf pick as db p (i # is) ?j = move_nodes se leaf pick as db' p' is (length (ns0 @ [?m]))" using it(1) r(1) by simp
    have "fills ?psz p' as ((ns0 @ [?m]) @ ns) (move_nodes se leaf pick as db' p' is (length (ns0 @ [?m])))"
      using Cons.IH [OF r(2) leaf, of db'] r(5) by simp
    then show ?thesis unfolding ms eq using fills_same [OF r(3,4)] by simp
  qed
qed

lemma move_nodes_all:
  assumes "page_rep (se_psize se) p []" "IS_LEAF p = leaf" "list_all2 (\<lambda>i n. \<exists>it. pick i = Some it \<and> adds se leaf as it n as) is ns"
  shows "fills (se_psize se) p as (place leaf ns) (move_nodes se leaf pick as db p is 0)"
  using move_nodes_from [OF assms(1,2) _ assms(3), of db] by simp

lemma page_rep_empty:
  assumes "length (mp_body p) = psz - 16" "16 \<le> psz" "psz \<le> 32768" "mp_lower p = of_nat PAGEHDRSZ" "mp_upper p = of_nat psz" "\<not> IS_LEAF2 p"
  shows "page_rep psz p []"
  unfolding page_rep_def slots_rep_def
  by (rule exI [of _ "[]"], rule exI [of _ "mp_body p"], rule exI [of _ "[]"]) (use assms in simp)

text \<open>Copying the temporary page back.\<close>

lemma copy_back_page:
  assumes rep: "page_rep psz copy ns" "ns \<noteq> []" "lowest copy (length ns - 1)" and mp: "length (mp_body mp) = psz - 16" "mp_flags copy = mp_flags mp"
  shows "\<exists>p. copy_back mp copy = Some p \<and> page_rep psz p ns \<and> mp_flags p = mp_flags mp \<and> mp_pgno p = mp_pgno mp"
proof -
  obtain ss free heap where s: "slots_rep psz copy ss free heap" "ns = map snd ss" by (rule page_repE [OF rep(1)], rule that)
  note sz = slots_rep_sizes [OF s(1)]
  let ?ps = "enc16 (map (\<lambda>s. of_nat (psz - fst s)) ss)" and ?n = "length ss"
  have body: "mp_body copy = ?ps @ free @ heap" using s(1) unfolding slots_rep_def by blast
  have n: "length ns = ?n" "0 < ?n" using s(2) rep(2) by auto
  have l: "length (mp_body mp) = 2 * ?n + length free + length heap" using mp(1) sz(1) by simp
  then have "2 * ?n + length heap \<le> length (mp_body mp)" by simp
  then obtain x y z where m: "mp_body mp = x @ y @ z" "length x = 2 * ?n" "length z = length heap"
    using take_drop_split3 [of "2 * ?n" "length heap" "mp_body mp"] by blast
  then have y: "length y = length free" using l by simp
  let ?node = "2 * ?n + length free"
  have low: "NODEPTR (mp_body copy) (?n - 1) = Some ?node" using rep(3) sz(4) n(1) by (simp add: lowest_def)
  have b: "bytes_at (mp_body copy) 0 (2 * ?n) = Some ?ps" "bytes_at (mp_body copy) ?node (length heap) = Some heap"
    unfolding body by (simp_all add: bytes_at_def)
  have c: "blit (mp_body mp) 0 ?ps = Some (?ps @ y @ z)" using blit_at [of "[]" 0 x ?ps "y @ z"] m by simp
  have d: "blit (?ps @ y @ z) ?node heap = Some (?ps @ y @ heap)" using blit_at [of "?ps @ y" ?node z heap "[]"] m y by simp
  have h: "length (mp_body copy) + PAGEHDRSZ - unat (mp_upper copy) = length heap" using sz(4) unfolding body by simp
  let ?p = "mp\<lparr>mp_lower := mp_lower copy, mp_upper := mp_upper copy, mp_body := ?ps @ y @ heap\<rparr>"
  have "copy_back mp copy = Some ?p"
    unfolding copy_back_def using sz(2) n(2) by (simp add: b c d low [unfolded One_nat_def] h)
  moreover have "slots_rep psz ?p ss y heap"
    using s(1) mp(2) y unfolding slots_rep_def body by (simp add: IS_LEAF_def IS_LEAF2_def)
  ultimately show ?thesis unfolding page_rep_def s(2) by fastforce
qed


section \<open>The nodes of the halves\<close>

lemma insert_at_index: "i \<le> length xs \<Longrightarrow> j \<le> length xs \<Longrightarrow> insert_at i x xs ! j = (if j = i then x else if j < i then xs ! j else xs ! (j - 1))"
  by (auto simp: insert_at_def nth_append min_def nth_Cons')

lemma insert_at_other:
  assumes "i \<le> length xs" "j \<le> length xs" "j \<noteq> i"
  obtains k where "k < length xs" "\<forall>x. insert_at i x xs ! j = xs ! k" "\<forall>(y :: 'b) ys. length ys = length xs \<longrightarrow> insert_at i y ys ! j = ys ! k"
proof (cases "j < i")
  case True
  show thesis using that [of j] assms True by (simp add: insert_at_index)
next
  case False
  show thesis using that [of "j - 1"] assms False by (simp add: insert_at_index)
qed

text \<open>The item to store is the node \<open>n\<close>: with its data on a leaf, with a page number on a branch; it is not too
  large for a page of its own kind.\<close>

definition new_item :: "split_env \<Rightarrow> bool \<Rightarrow> item \<Rightarrow> node \<Rightarrow> bool" where
  "new_item se leaf it n \<longleftrightarrow> length (nd_key n) < 2 ^ 16 \<and> it_key it = val (nd_key n) \<and> 2 * (node_size n + 2) \<le> se_psize se - PAGEHDRSZ \<and>
     (if leaf then it_data it = Some (val (nd_data n)) \<and> length (nd_data n) < 2 ^ 32 \<and> n = leaf_node (it_flags it) (nd_key n) (length (nd_data n)) (nd_data n) \<and>
        NODESIZE + length (nd_key n) + length (nd_data n) \<le> se_nodemax se \<and>
        \<not> F_ISSET (it_flags it) (ucast F_BIGDATA) \<and> \<not> F_ISSET (it_flags it) MDB_RESERVE
      else it_data it = None \<and> n = branch_node (it_pgno it) (nd_key n))"

lemma new_item_adds: "new_item se leaf it n \<Longrightarrow> adds se leaf as it n as"
proof (cases leaf)
  case True
  assume a: "new_item se leaf it n"
  then have "adds se True as it (leaf_node (it_flags it) (nd_key n) (length (nd_data n)) (nd_data n)) as"
    using True by (intro adds_new_leaf [where pg = "it_pgno it"]) (auto simp: new_item_def)
  then show ?thesis using True a by (simp add: new_item_def)
next
  case False
  assume "new_item se leaf it n"
  then show ?thesis using False by (auto simp: new_item_def intro!: adds_branch)
qed

definition item_size :: "split_env \<Rightarrow> bool \<Rightarrow> item \<Rightarrow> nat" where
  "item_size se leaf it = EVEN (if leaf then mdb_leaf_size (se_nodemax se) (it_key it) (case it_data it of None \<Rightarrow> val [] | Some d \<Rightarrow> d)
     else mdb_branch_size (Some (it_key it)))"

lemma EVEN_EVEN [simp]: "EVEN (EVEN n) = EVEN n"
  by (simp add: EVEN_def)

lemma branch_data: "n = branch_node pg k \<Longrightarrow> nd_data n = []"
  by (simp add: branch_node_def)

lemma new_item_size: "new_item se leaf it n \<Longrightarrow> item_size se leaf it = node_size n + 2"
proof -
  assume a: "new_item se leaf it n"
  have "item_size se leaf it = EVEN (NODESIZE + length (nd_key n) + length (nd_data n) + 2)"
  proof (cases leaf)
    case True
    have "mv_size (it_key it) = length (nd_key n)" "it_data it = Some (val (nd_data n))" "NODESIZE + length (nd_key n) + length (nd_data n) \<le> se_nodemax se"
      using a True by (simp_all add: new_item_def)
    then show ?thesis using True by (simp add: item_size_def mdb_leaf_size_def Let_def)
  next
    case False
    have "mv_size (it_key it) = length (nd_key n)" "nd_data n = []" using a False branch_data [of n "it_pgno it" "nd_key n"] by (simp_all add: new_item_def)
    then show ?thesis using False by (simp add: item_size_def mdb_branch_size_def)
  qed
  then show ?thesis unfolding EVEN_add2 node_size_def .
qed

lemma new_item_movable: "new_item se leaf it n \<Longrightarrow> movable se leaf n"
proof -
  assume a: "new_item se leaf it n"
  show ?thesis
  proof (cases leaf)
    case True
    have fl: "nd_flags (leaf_node f k s d) = ucast f" for f k s d by (simp add: leaf_node_def)
    have "node_wf True (leaf_node (it_flags it) (nd_key n) (length (nd_data n)) (nd_data n))" using a True by (intro leaf_node_wf(1)) (auto simp: new_item_def)
    then show ?thesis using a True by (simp add: movable_def new_item_def)
  next
    case False
    then show ?thesis using a branch_data [of n "it_pgno it" "nd_key n"] by (simp add: movable_def new_item_def node_wf_def)
  qed
qed

lemma old_adds:
  assumes "node_at ptr = Some q" "node_there p k n q" "movable se (IS_LEAF p) n"
  shows "\<exists>it. old_item p ptr = Some it \<and> adds se (IS_LEAF p) as it n as"
proof -
  have wf: "node_wf (IS_LEAF p) n" using assms(3) by (simp add: movable_def)
  obtain r where it: "old_item p ptr = Some \<lparr>it_key = val (nd_key n), it_data = (if IS_LEAF p then Some \<lparr>mv_size = data_size n, mv_data = nd_data n @ r\<rparr> else None),
        it_pgno = (if IS_LEAF p then 0 else node_pgno n), it_flags = ucast (nd_flags n)\<rparr>"
    using old_node(2) [OF assms(1,2) wf] by blast
  show ?thesis
  proof (cases "IS_LEAF p")
    case True
    then show ?thesis using it assms(3) by (auto intro: adds_old_leaf)
  next
    case False
    then have "nd_data n = []" "length (nd_key n) < 2 ^ 16" using wf by (simp_all add: node_wf_def)
    moreover from this have "n = branch_node (node_pgno n) (nd_key n)" by (simp add: branch_node_pgno)
    ultimately show ?thesis using it False by (auto intro!: adds_branch)
  qed
qed

lemma split_items:
  assumes rep: "page_rep psz p ns" and i: "i \<le> length ns" and mv: "\<forall>n\<in>set ns. movable se (IS_LEAF p) n" and new: "new_item se (IS_LEAF p) it new"
  obtains ptrs where "copy_ptrs p i = Some ptrs"
    "\<And>as. list_all2 (\<lambda>k n. \<exists>it'. pick_item p ptrs i it k = Some it' \<and> adds se (IS_LEAF p) as it' n as) [0..<length ns + 1] (insert_at i new ns)"
    "\<And>j. j \<le> length ns \<Longrightarrow> (if j = i then Some (node_size new + 2) else do { ptr \<leftarrow> peek ptrs j; old_space p ptr }) = Some (node_size (insert_at i new ns ! j) + 2)"
    "\<And>j. j \<le> length ns \<Longrightarrow> (if j = i then Some (it_key it) else do { ptr \<leftarrow> peek ptrs j; node \<leftarrow> node_at ptr; map_option val (NODEKEY (mp_body p) node) }) =
       Some (val (nd_key (insert_at i new ns ! j)))"
proof -
  obtain ps where ps: "copy_ptrs p i = Some (insert_at i 0 ps)" "length ps = length ns"
      "\<And>k. k < length ns \<Longrightarrow> \<exists>q. node_at (ps ! k) = Some q \<and> node_there p k (ns ! k) q \<and> node_wf (IS_LEAF p) (ns ! k)"
    unfolding insert_at_def using page_ptrs [OF rep, of i] by metis
  let ?all = "insert_at i new ns" and ?ptrs = "insert_at i 0 ps"
  have other: "\<exists>ptr q k. peek ?ptrs j = Some ptr \<and> node_at ptr = Some q \<and> node_there p k (?all ! j) q \<and> movable se (IS_LEAF p) (?all ! j)"
    if j: "j \<le> length ns" "j \<noteq> i" for j
  proof -
    obtain k where k: "k < length ns" "\<forall>x. insert_at i x ns ! j = ns ! k" "\<forall>(y :: u16) ys. length ys = length ns \<longrightarrow> insert_at i y ys ! j = ys ! k"
      by (rule insert_at_other [OF i j])
    have "?ptrs ! j = ps ! k" using k(3) ps(2) by blast
    then show ?thesis using ps(2) ps(3) [OF k(1)] k(1,2) j(1) mv by (auto simp: peek_def)
  qed
  have nw: "it_key it = val (nd_key new)" using new by (simp add: new_item_def)
  show thesis
  proof (rule that [of ?ptrs])
    fix as
    show "list_all2 (\<lambda>k n. \<exists>it'. pick_item p ?ptrs i it k = Some it' \<and> adds se (IS_LEAF p) as it' n as) [0..<length ns + 1] ?all"
    proof (rule list_all2_all_nthI)
      fix j assume "j < length [0..<length ns + 1]"
      then have j: "j \<le> length ns" "[0..<length ns + 1] ! j = j" by (simp_all del: upt_Suc)
      show "\<exists>it'. pick_item p ?ptrs i it ([0..<length ns + 1] ! j) = Some it' \<and> adds se (IS_LEAF p) as it' (?all ! j) as"
      proof (cases "j = i")
        case True
        then show ?thesis unfolding j(2) using new_item_adds [OF new] i by (simp add: pick_item_def insert_at_nth)
      next
        case False
        then show ?thesis unfolding j(2) using other [OF j(1) False] old_adds by (fastforce simp: pick_item_def)
      qed
    qed simp
  next
    fix j assume j: "j \<le> length ns"
    show "(if j = i then Some (node_size new + 2) else do { ptr \<leftarrow> peek ?ptrs j; old_space p ptr }) = Some (node_size (?all ! j) + 2)"
      using other [OF j] old_node(1) i by (cases "j = i") (fastforce simp: insert_at_nth movable_def)+
    show "(if j = i then Some (it_key it) else do { ptr \<leftarrow> peek ?ptrs j; node \<leftarrow> node_at ptr; map_option val (NODEKEY (mp_body p) node) }) = Some (val (nd_key (?all ! j)))"
      using other [OF j] nw i by (cases "j = i") (fastforce simp: insert_at_nth node_there_def)+
  qed (fact ps(1))
qed

text \<open>Where the page is split.\<close>

definition split_index :: "nat \<Rightarrow> bool \<Rightarrow> node list \<Rightarrow> nat \<Rightarrow> node \<Rightarrow> nat" where
  "split_index psz leaf ns i new =
     (case split_point psz leaf (length ns) i (node_size new + 2) (\<lambda>j. Some (node_size (insert_at i new ns ! j) + 2)) of Some s \<Rightarrow> s | None \<Rightarrow> 0)"


lemma count_up_cong: "(\<And>j. j < k \<Longrightarrow> sp j = sp' j) \<Longrightarrow> count_up sp pmax k i psize d = count_up sp' pmax k i psize d"
proof (induction "k - i" arbitrary: i psize)
  case 0
  then show ?case by (subst (1 2) count_up.simps) simp
next
  case (Suc n)
  have "count_up sp pmax k (i + 1) x d = count_up sp' pmax k (i + 1) x d" for x using Suc.hyps(2) Suc.prems by (intro Suc.hyps(1)) auto
  moreover have "sp i = sp' i" using Suc.hyps(2) Suc.prems by simp
  ultimately show ?case by (subst (1 2) count_up.simps) (simp cong: if_cong)
qed

lemma count_down_cong: "(\<And>j. j \<le> i \<Longrightarrow> sp j = sp' j) \<Longrightarrow> count_down sp pmax k i psize d = count_down sp' pmax k i psize d"
proof (induction "i - k" arbitrary: i psize)
  case 0
  then show ?case by (subst (1 2) count_down.simps) simp
next
  case (Suc n)
  have "count_down sp pmax k (i - 1) x d = count_down sp' pmax k (i - 1) x d" for x using Suc.hyps(2) Suc.prems by (intro Suc.hyps(1)) auto
  moreover have "sp i = sp' i" using Suc.prems by simp
  ultimately show ?case by (subst (1 2) count_down.simps) (simp cong: if_cong)
qed

lemma split_point_cong:
  assumes "\<And>j. j \<le> n \<Longrightarrow> sp j = sp' j" "i \<le> n" "2 \<le> n"
  shows "split_point psize leaf n i nsize sp = split_point psize leaf n i nsize sp'"
proof -
  have k: "(n + 1) div 2 + 1 + (if leaf then 1 else 0) \<le> n + 1" using assms(3) by auto
  have u: "count_up sp pmax k 0 0 d = count_up sp' pmax k 0 0 d" if "k \<le> n + 1" for pmax k d using assms(1) that by (intro count_up_cong) simp
  have w: "count_down sp pmax k n 0 d = count_down sp' pmax k n 0 d" for pmax k d using assms(1) by (intro count_down_cong) simp
  have e: "count_up sp pmax (if i \<ge> n then n else (n + 1) div 2 + 1 + (if leaf then 1 else 0)) 0 0 d =
      count_up sp' pmax (if i \<ge> n then n else (n + 1) div 2 + 1 + (if leaf then 1 else 0)) 0 0 d" for pmax d
    using k by (intro u) auto
  show ?thesis unfolding split_point_def Let_def e w ..
qed

lemma split_index_spec:
  assumes i: "i \<le> length ns" and mv: "\<forall>n\<in>set ns. movable se leaf n" "movable se leaf new" and sp: "node_space ns \<le> psz - 16"
    and full: "psz - 16 < node_space ns + (node_size new + 2)" and psz: "se_psize se = psz"
  defines "all \<equiv> insert_at i new ns"
  defines "s \<equiv> split_index psz leaf ns i new"
  shows "2 \<le> length ns"
    "(\<And>j. j \<le> length ns \<Longrightarrow> space j = Some (node_size (all ! j) + 2)) \<Longrightarrow> split_point psz leaf (length ns) i (node_size new + 2) space = Some s"
    "0 < s" "s \<le> length ns"
    "checked psz (length ns) i (node_size new + 2) \<Longrightarrow> node_space (take s all) \<le> psz - 16 \<and> node_space (place leaf (drop s all)) \<le> psz - 16"
    "\<not> checked psz (length ns) i (node_size new + 2) \<Longrightarrow> s = (length ns + 1) div 2"
proof -
  let ?sz = "map (\<lambda>n. node_size n + 2) all" and ?n = "length ns"
  have half: "2 * (node_size n + 2) \<le> psz - 16" if "n = new \<or> n \<in> set ns" for n using that mv psz by (auto simp: movable_def)
  show two: "2 \<le> length ns"
  proof (rule ccontr)
    assume "\<not> 2 \<le> length ns"
    then consider "ns = []" | n where "ns = [n]" by (cases ns; cases "tl ns") auto
    then show False
    proof cases
      case 2
      then show False using full half [of new] half [of n] by simp
    qed (use full half [of new] in simp)
  qed
  have len: "length ?sz = ?n + 1" by (simp add: all_def)
  have nth: "?sz ! j = node_size (all ! j) + 2" if "j \<le> ?n" for j using that by (intro nth_map) (simp add: all_def)
  have mem: "all ! j = new \<or> all ! j \<in> set ns" if "j \<le> ?n" for j
    using that nth_mem [of j all] by (auto simp: all_def)
  have small: "2 * ?sz ! j \<le> psz - 16 \<and> 10 \<le> ?sz ! j" if "j \<le> ?n" for j
    using half [OF mem [OF that]] node_size_pos [of "all ! j"] that unfolding nth [OF that] by simp
  have "sum_list ?sz = node_size new + 2 + node_space ns" by (simp add: all_def node_space_def)
  then have old: "sum_list ?sz \<le> psz - 16 + ?sz ! i" using sp nth [OF i] i by (simp add: all_def insert_at_nth)
  note fits = split_point_fits [where sz = ?sz and n = ?n and i = i and psize = psz and leaf = leaf and nsize = "node_size new + 2", OF _ len two i small old]
  obtain s' where s': "split_point psz leaf ?n i (node_size new + 2) (\<lambda>j. Some (node_size (all ! j) + 2)) = Some s'" 
    using fits [of "\<lambda>j. Some (node_size (all ! j) + 2)"] nth by auto
  then have s: "s = s'" by (simp add: s_def split_index_def all_def)
  note f = fits [of "\<lambda>j. Some (node_size (all ! j) + 2)"]
  show s1: "0 < s" "s \<le> ?n" using f nth s' s by auto
  show "\<not> checked psz ?n i (node_size new + 2) \<Longrightarrow> s = (?n + 1) div 2" using f nth s' s by auto
  have tk: "node_space (take k all) = sum_list (take k ?sz)" "node_space (drop k all) = sum_list (drop k ?sz)" for k
    by (simp_all add: node_space_def take_map drop_map)
  have tail: "node_space (place leaf (drop s all)) = (if leaf then sum_list (drop s ?sz) else 10 + sum_list (drop (Suc s) ?sz))"
  proof -
    have d: "drop s all = all ! s # drop (Suc s) all" using s1(2) by (simp add: Cons_nth_drop_Suc all_def)
    have "movable se leaf (all ! s)" using mem [OF s1(2)] mv by auto
    then have "\<not> leaf \<Longrightarrow> node_size (placed leaf 0 (all ! s)) = 8" by (simp add: movable_def node_wf_def placed_def node_size_def EVEN_def)
    moreover have "leaf \<Longrightarrow> place leaf (drop s all) = drop s all" by (simp add: d place_def placed_def)
    ultimately show ?thesis using tk(2) [of "Suc s"] tk(2) [of s] by (simp add: d place_def)
  qed
  show "checked psz ?n i (node_size new + 2) \<Longrightarrow> node_space (take s all) \<le> psz - 16 \<and> node_space (place leaf (drop s all)) \<le> psz - 16"
    using f nth s' s tail by (auto simp: tk)
  show "split_point psz leaf ?n i (node_size new + 2) space = Some s" if "\<And>j. j \<le> ?n \<Longrightarrow> space j = Some (node_size (all ! j) + 2)" for space
    using split_point_cong [of ?n space "\<lambda>j. Some (node_size (all ! j) + 2)" i psz leaf] that two i s' s by simp
qed

end
