(* ===== verification/Spec2Isabelle.thy ===== *)
theory Spec2Isabelle
  imports Aes_Correct Xxhash_Correct Chex Node User File Adlist Util Net Getopt Db Client Mq Shell
    History Linenoise_Correct Zmalloc Log Session Midl_Sort Lmdb_Key Lmdb_Page Lmdb_Alloc Lmdb_Session Db_Pages Lmdb_Mvcc Lmdb_Split_Correct
begin

text \<open>
  A verification development for rkx, a command line client that encrypts files in place, announces
  them to a Redis server, keeps them in a local LMDB database and listens to an MQTT broker. The
  program is C; the development is a shallow embedding of its own code under \<^verbatim>\<open>src/src\<close>, and of the
  page store of the database under \<^verbatim>\<open>src/liblmdb\<close>.

  \<^bold>\<open>How the program is put together.\<close> \<^verbatim>\<open>main\<close> (\<^verbatim>\<open>rkx.c\<close>) creates the client object: the machine's node
  (\<^verbatim>\<open>node.c\<close>), two lists of files (\<^verbatim>\<open>adlist.c\<close>), the Redis connection (\<^verbatim>\<open>net.c\<close>) and the MQTT manager
  (\<^verbatim>\<open>mq.c\<close>), starts the MQTT thread, waits for its subscription and then runs the shell: lines come from
  \<^verbatim>\<open>linenoise.c\<close>, are split into words, and dispatched to \<^verbatim>\<open>do_user\<close> (\<^verbatim>\<open>kx_user.c\<close>), \<^verbatim>\<open>do_file\<close> (\<^verbatim>\<open>kx_file.c\<close>)
  or \<^verbatim>\<open>do_command\<close> (\<^verbatim>\<open>kx_command.c\<close>). Registering a user derives a key (\<^verbatim>\<open>user.c\<close>, \<^verbatim>\<open>chex.h\<close>) and opens the
  database (\<^verbatim>\<open>db.c\<close>, \<^verbatim>\<open>util.c\<close>); encrypting a file (\<^verbatim>\<open>file.c\<close>) uses AES-128 (\<^verbatim>\<open>aes.c\<close>) and XXH64
  (\<^verbatim>\<open>xxhash.h\<close>). Memory comes from \<^verbatim>\<open>zmalloc.c\<close>, messages go through \<^verbatim>\<open>log.c\<close>.

  \<^bold>\<open>Conventions.\<close> A C object is a list of bytes or characters with checked accesses, and undefined
  behaviour (an access outside an object, a null pointer, an unterminated string) is the value \<open>None\<close>
  of an option type; so a theorem that an operation returns \<open>Some\<close> is also its memory safety. Machine
  integers are words where they can wrap. Loops are recursive functions with a termination proof;
  loops that may run for ever are partial functions whose value is then \<open>None\<close>. No model uses fuel.
  What is outside the sources (the operating system, Redis, mosquitto, the C allocator) is an
  argument of the definitions, with its documented behaviour as hypotheses of the theorems; so is the
  interface of LMDB in \<open>Db\<close>. \<open>Db_Pages\<close> discharges it for reading: there the functions of \<^verbatim>\<open>db.c\<close> run over the
  cursor functions of \<^verbatim>\<open>mdb.c\<close>. The path from a store to the pages is not modelled.

  \<^bold>\<open>The theories.\<close>

  \<^item> \<open>Prelude\<close>: machine types, checked accesses, C strings, decimal output, shared lemmas.
  \<^item> \<open>Aes\<close>, \<open>Aes_Correct\<close>: \<^verbatim>\<open>aes.c\<close>, every function at byte width, over the 16 byte state and the 176 byte
    key schedule. The inverse cipher undoes the cipher, the key schedule is the FIPS-197 recurrence,
    CBC and CTR modes, a published test vector. The locale \<open>block_cipher\<close> is the interface
    \<open>File\<close> relies on, interpreted for AES.
  \<^item> \<open>Xxhash\<close>, \<open>Xxhash_Correct\<close>: one-shot and streaming XXH32 and XXH64; streaming in any pieces gives the
    one-shot hash. The locale \<open>stripe_hash\<close> holds the shared argument, interpreted for both.
  \<^item> \<open>Chex\<close>: the hexadecimal codec and its round trip.
  \<^item> \<open>Node\<close>, \<open>User\<close>: the packed node object and the user with its key; what the fields hold, and the cases
    in which the code writes outside them.
  \<^item> \<open>File\<close>: reading, encrypting and writing back a file block by block over a stream model; decryption
    undoes encryption up to the padding; results and refusals of \<^verbatim>\<open>kx_crypt_file\<close>.
  \<^item> \<open>Adlist\<close>: the doubly linked list over an explicit heap of nodes. Every legal sequence of operations
    refines a sequence of values (locale \<open>seq_store\<close> and its interpretation).
  \<^item> \<open>Util\<close>: path normalisation with its running indices, and recursive directory creation.
  \<^item> \<open>Net\<close>: the action table, formatting of commands, sending, reply callbacks.
  \<^item> \<open>Getopt\<close>: a model of \<^verbatim>\<open>getopt_long\<close> for the option strings of the program (it permutes operands and
    reports unknown options), the part of the C library both parsers rest on.
  \<^item> \<open>Db\<close>: the local database over an abstract LMDB; \<open>map_lmdb\<close> is a concrete instance.
  \<^item> \<open>Client\<close>: both option parsers and both handlers, end to end over all components above.
  \<^item> \<open>Mq\<close>: the MQTT manager, its callbacks, and the startup of the two threads as a step relation with
    its reachable states.
  \<^item> \<open>Shell\<close>: splitting of a line in place, the command table, dispatch, the loop, \<^verbatim>\<open>rkx_init\<close>.
  \<^item> \<open>History\<close>, \<open>Linenoise\<close>, \<open>Linenoise_Correct\<close>: the line editor. The history array refines a bounded list
    of lines; an editing session stands for the two strings around the cursor, and every operation
    and every sequence of plain keys does its work on them. The locale \<open>display\<close> is what the
    operations rely on of a refresh, interpreted for both refresh routines and the switch over them.
  \<^item> \<open>Zmalloc\<close>: the memory counter is the sum of the live blocks.
  \<^item> \<open>Log\<close>: the callback table and the delivery of messages.
  \<^item> \<open>Session\<close>: the shell together with the line reader, on a pipe and at a terminal.
  \<^item> \<open>Midl\<close>, \<open>Midl_Sort\<close>: \<^verbatim>\<open>liblmdb/midl.c\<close>, lists of page numbers in an array with its capacity in
    front, and lists of dirty pages. Searching, growing, appending, merging, inserting and the quicksort
    with its explicit stack; every operation refines one on plain lists, and sorting stays inside the
    array and the 64 entries of its stack.
  \<^item> \<open>Lmdb_Key\<close>: the comparison functions of keys in \<^verbatim>\<open>liblmdb/mdb.c\<close>, as the orders they stand for, and the
    hashed name of the lock.
  \<^item> \<open>Lmdb_Page\<close>: a page of \<^verbatim>\<open>liblmdb/mdb.c\<close> at byte level, with its array of offsets and its nodes. Adding,
    deleting and searching nodes, as insertion, deletion and search in a list of keys with data. The
    locale \<open>key_order\<close> is what the search relies on of a comparison, interpreted for the built-in ones.
  \<^item> \<open>Lmdb_Alloc\<close>: the allocation of pages in a transaction, over the ID lists; no page is lost or handed
    out twice.
  \<^item> \<open>Lmdb_Cursor\<close>: the reading functions of \<^verbatim>\<open>mdb.c\<close>: the lookup of a page number over the dirty and the
    spilled pages of a transaction and its parents, the descent from the root, the moves of a cursor, lookups.
    \<open>Lmdb_Tree\<close>, \<open>Lmdb_Scan\<close>, \<open>Lmdb_Moves\<close>, \<open>Lmdb_Find\<close>: a tree of pages in memory and the list of its entries; every
    cursor function as a move in that list, or a search of it in the order of the keys (locale \<open>key_order\<close>).
    \<open>Lmdb_Session\<close>: any session with a cursor refines one on the sorted list of entries, with a small database
    as an example.
  \<^item> \<open>Db_Pages\<close>: the reads of the local database of \<^verbatim>\<open>db.c\<close> over these cursor functions.
  \<^item> \<open>Lmdb_Meta\<close>: the two meta pages, with failed and interrupted writes; a commit is atomic.
  \<^item> \<open>Lmdb_Txn\<close>, \<open>Lmdb_Mvcc\<close>: readers and a writer at the same time, one access to the shared state per step: the
    reader table, the search for the oldest reader, the reuse of freed pages, the commit. Under every
    interleaving a reader has one committed snapshot, and none of its pages is changed while it runs.

  \<^bold>\<open>Bounds.\<close> Statements about the display assume sizes below the range of \<^verbatim>\<open>int\<close>; lists and hashed
  messages have fewer than \<open>2^64\<close> elements where a counter of the code has that width, ID lists fewer than
  \<open>2^31\<close>; database pages have at most 32 KiB, the \<^verbatim>\<open>MAX_PAGESIZE\<close> of the code, trees of pages fewer than 32
  levels, the size of the stack of a cursor, and keys fewer than \<open>2^32\<close> bytes; transaction numbers do not
  wrap (\<open>Lmdb_Txn\<close> has no transaction behind number \<open>2^64 - 2\<close>). A line of the
  editor has at most 4095 characters, which is proved, not assumed.

  \<^bold>\<open>Not modelled.\<close> XXH3 and the SIMD code of the hash header (never called); the rest of LMDB (storing
  through a cursor, page splits and merges, duplicates with their second cursor, nested transactions, opening
  and closing an environment, dead processes in the reader table), its code for 32-bit address spaces and
  without a lock file, and its tools and tests; in \<open>Lmdb_Txn\<close> the trees are sets of pages, memory is sequentially
  consistent and a database record is read in one access; hiredis and mosquitto (absent from the sources); raw
  mode, window size queries and the key code display of the line editor (terminal input and output);
  functions that only release memory; the test programs. Completion is
  modelled, with no property of its own yet.
\<close>

end
